(* ===== verification/Prelude.thy ===== *)
theory Prelude
  imports Main "HOL-Library.AList" "HOL-Library.Multiset" "HOL-Library.List_Lexorder"
    "HOL-Library.Char_ord"
begin

text \<open>
  Shared vocabulary of the development: Go's error values (\<open>src/sdk/errors.go\<close> and the error
  types of \<open>src/sdk/pkg/workers\<close>), instants and durations, Go maps as association lists whose
  order is the order a \<open>range\<close> loop happens to visit, and the two loops the in-memory stores
  are made of: picking the best element under a comparison and sorting by a comparison.  Both
  are treated once, in the locale \<open>picker\<close>, for every comparison the stores use.
\<close>

section \<open>Instants, durations, bytes\<close>

text \<open>
  An instant is its number of nanoseconds since the zero \<open>time.Time\<close>, so \<open>IsZero\<close> is
  \<open>= 0\<close>, \<open>Before\<close>/\<open>After\<close>/\<open>Equal\<close> are \<open><\<close>/\<open>>\<close>/\<open>=\<close> and \<open>Add\<close> is \<open>+\<close>.
  All instants of the code are UTC.  Byte slices and strings are both lists of 8-bit characters;
  \<open><\<close> on them is Go's bytewise lexicographic order.
\<close>

type_synonym time = int
type_synonym duration = int
type_synonym bytes = string

abbreviation (input) zero_time :: time where
  "zero_time \<equiv> 0"

abbreviation (input) Nanosecond :: duration where
  "Nanosecond \<equiv> 1"

abbreviation (input) Microsecond :: duration where
  "Microsecond \<equiv> 1000"

abbreviation (input) Millisecond :: duration where
  "Millisecond \<equiv> 1000000"

abbreviation (input) Second :: duration where
  "Second \<equiv> 1000000000"

abbreviation (input) Minute :: duration where
  "Minute \<equiv> 60000000000"

section \<open>Errors\<close>

text \<open>
  One constructor per sentinel the modelled packages return, the two typed dispositions of
  \<open>sdk/pkg/workers\<close>, the errors of a context, errors made outside the modelled code
  (\<open>ForeignError\<close>), and the two ways Go combines errors: \<open>fmt.Errorf\<close> with \<open>%w\<close>
  (\<open>Wrapped\<close>, carrying its text) and \<open>errors.Join\<close>.
\<close>

datatype go_error =
    ErrNotFound | ErrAlreadyExists | ErrInvalidReference | ErrInvalidInput
  | ErrUnauthorized | ErrForbidden | ErrConflict | ErrExpired | ErrUnavailable
  | ErrNoWork | ErrDeferralUnsupported | ErrInvalidDeferral
  | ErrAlreadyRun | ErrWorkerShutdown | ErrPoolShutdown
  | ErrQueueRequired | ErrFencedQueueRequired | ErrTerminalPurgeRequired
  | ErrHandlersRequired | ErrInvalidHandler
  | ErrProcessTimeoutExceedsLease | ErrDrainTimeoutExceedsLease | ErrCronRequired
  | ErrUnhandledKind
  | ContextCanceled | DeadlineExceeded
  | PermanentError string
  | DeferredError time string
  | ForeignError string
  | Wrapped string go_error
  | Joined "go_error list"

type_synonym error = "go_error option"  \<comment> \<open>a Go \<open>error\<close> result: \<open>None\<close> is nil\<close>
type_synonym 'a res = "go_error + 'a"   \<comment> \<open>a Go \<open>(T, error)\<close> result\<close>

fun errors_is :: "go_error \<Rightarrow> go_error \<Rightarrow> bool" where
  "errors_is (Wrapped m e) t = (Wrapped m e = t \<or> errors_is e t)"
| "errors_is (Joined es) t = (Joined es = t \<or> (\<exists>e\<in>set es. errors_is e t))"
| "errors_is e t = (e = t)"

text \<open>\<open>errors.As\<close> for the two dispositions: the first match of a depth-first walk.\<close>

fun first_some :: "'a option list \<Rightarrow> 'a option" where
  "first_some [] = None"
| "first_some (None # xs) = first_some xs"
| "first_some (Some x # xs) = Some x"

fun as_permanent :: "go_error \<Rightarrow> string option" where
  "as_permanent (PermanentError r) = Some r"
| "as_permanent (Wrapped m e) = as_permanent e"
| "as_permanent (Joined es) = first_some (map as_permanent es)"
| "as_permanent e = None"

fun as_deferred :: "go_error \<Rightarrow> (time \<times> string) option" where
  "as_deferred (DeferredError t r) = Some (t, r)"
| "as_deferred (Wrapped m e) = as_deferred e"
| "as_deferred (Joined es) = first_some (map as_deferred es)"
| "as_deferred e = None"


text \<open>The text \<open>Error()\<close> returns, as the packages spell it.\<close>

fun join_lines :: "string list \<Rightarrow> string" where
  "join_lines [] = []"
| "join_lines [x] = x"
| "join_lines (x # xs) = x @ [CHR 0x0A] @ join_lines xs"

fun error_text :: "go_error \<Rightarrow> string" where
  "error_text ErrNotFound = ''not found''"
| "error_text ErrAlreadyExists = ''already exists''"
| "error_text ErrInvalidReference = ''invalid reference''"
| "error_text ErrInvalidInput = ''invalid input''"
| "error_text ErrUnauthorized = ''unauthorized''"
| "error_text ErrForbidden = ''forbidden''"
| "error_text ErrConflict = ''conflict''"
| "error_text ErrExpired = ''expired''"
| "error_text ErrUnavailable = ''unavailable''"
| "error_text ErrNoWork = ''workers: no work available''"
| "error_text ErrDeferralUnsupported = ''workers: store does not support deferral''"
| "error_text ErrInvalidDeferral = ''workers: deferral time must be in the future''"
| "error_text ErrAlreadyRun = ''workers: pool already run''"
| "error_text ErrWorkerShutdown = ''workers: worker shutdown requested''"
| "error_text ErrPoolShutdown = ''workers: pool shutdown requested''"
| "error_text ErrUnhandledKind = ''jobs: no fenced handler registered for job kind''"
| "error_text ContextCanceled = ''context canceled''"
| "error_text DeadlineExceeded = ''context deadline exceeded''"
| "error_text (PermanentError r) = r"
| "error_text (DeferredError t r) = ''workers: job deferred: '' @ r"
| "error_text (ForeignError m) = m"
| "error_text (Wrapped m e) = m"
| "error_text (Joined es) = join_lines (map error_text es)"
| "error_text ErrQueueRequired =
     ''jobs: at least one of Repositories.Queue or Repositories.FencedQueue is required''"
| "error_text ErrFencedQueueRequired =
     ''jobs: Repositories.FencedQueue is required for the fenced delivery surface''"
| "error_text ErrTerminalPurgeRequired =
     ''jobs: Repositories.Queue must implement queue.TerminalPurger for ordinary-queue retention''"
| "error_text ErrHandlersRequired = ''jobs: handlers must be non-empty''"
| "error_text ErrInvalidHandler = ''jobs: handlers has an empty kind or a nil handler''"
| "error_text ErrProcessTimeoutExceedsLease =
     ''jobs: FencedRuntimePolicy.ProcessTimeout must be shorter than LeaseFor''"
| "error_text ErrDrainTimeoutExceedsLease =
     ''jobs: FencedRuntimePolicy.DrainTimeout must not exceed LeaseFor''"
| "error_text ErrCronRequired = ''jobs: a cron schedule needs a CronParser (WithCronParser)''"

section \<open>Machine integers\<close>

text \<open>
  \<open>int64\<close> is two's complement reduction to 64 bits, written where a Go expression may overflow;
  \<open>go_div\<close> is Go's division, which truncates towards zero.
\<close>

definition int64 :: "int \<Rightarrow> int" where
  "int64 x = (x + 2 ^ 63) mod 2 ^ 64 - 2 ^ 63"

definition go_div :: "int \<Rightarrow> int \<Rightarrow> int" where
  "go_div a b = sgn a * sgn b * (\<bar>a\<bar> div \<bar>b\<bar>)"

lemma int64_small: "- (2 ^ 63) \<le> x \<Longrightarrow> x < 2 ^ 63 \<Longrightarrow> int64 x = x"
  by (simp add: int64_def)

lemma go_div_pos: "0 \<le> a \<Longrightarrow> 0 < b \<Longrightarrow> go_div a b = a div b"
  by (cases "a = 0") (auto simp: go_div_def)

section \<open>Decimal numbers\<close>

text \<open>What \<open>fmt\<close> prints for \<open>%d\<close>.\<close>

definition digit :: "int \<Rightarrow> char" where
  "digit n = char_of (48 + n)"

function print_nat :: "int \<Rightarrow> string" where
  "print_nat n = (if n < 10 then [digit n] else print_nat (n div 10) @ [digit (n mod 10)])"
  by pat_completeness auto

termination
  by (relation "measure nat") auto

declare print_nat.simps [simp del]

definition print_int :: "int \<Rightarrow> string" where
  "print_int i = (if i < 0 then ''-'' @ print_nat (- i) else print_nat i)"

lemma digit_code: "0 \<le> n \<Longrightarrow> n < 10 \<Longrightarrow> of_char (digit n) = 48 + n"
  by (simp add: digit_def)

lemma digit_inj: "0 \<le> m \<Longrightarrow> m < 10 \<Longrightarrow> 0 \<le> n \<Longrightarrow> n < 10 \<Longrightarrow> digit m = digit n \<Longrightarrow> m = n"
  using digit_code [of m] digit_code [of n] by (metis add_left_cancel)

lemma digit_neq: "0 \<le> n \<Longrightarrow> n < 10 \<Longrightarrow> digit n \<noteq> CHR ''_'' \<and> digit n \<noteq> CHR ''-'' \<and> digit n \<noteq> CHR '':''"
proof -
  assume "0 \<le> n" "n < 10"
  moreover have "of_char (CHR ''_'') = (95 :: int)" "of_char (CHR ''-'') = (45 :: int)"
    "of_char (CHR '':'') = (58 :: int)" by simp_all
  ultimately show ?thesis using digit_code [of n] by auto
qed

lemma print_nat_chars: "c \<in> set (print_nat n) \<Longrightarrow> 0 \<le> n \<Longrightarrow> c \<noteq> CHR ''_'' \<and> c \<noteq> CHR ''-'' \<and> c \<noteq> CHR '':''"
proof (induction n rule: print_nat.induct)
  case (1 n)
  show ?case
  proof (cases "n < 10")
    case True
    with "1.prems" digit_neq [of n] show ?thesis by (simp add: print_nat.simps [of n])
  next
    case False
    then have "c \<in> set (print_nat (n div 10)) \<or> c = digit (n mod 10)"
      using "1.prems"(1) by (auto simp: print_nat.simps [of n])
    moreover have "0 \<le> n div 10" using False by simp
    ultimately show ?thesis using "1.IH" [OF False] digit_neq [of "n mod 10"] by auto
  qed
qed

lemma print_nat_Nil: "print_nat n \<noteq> []"
  by (subst print_nat.simps) simp

lemma print_nat_inj: "print_nat m = print_nat n \<Longrightarrow> 0 \<le> m \<Longrightarrow> 0 \<le> n \<Longrightarrow> m = n"
proof (induction m arbitrary: n rule: print_nat.induct)
  case (1 m)
  show ?case
  proof (cases "m < 10")
    case True
    then have n: "print_nat n = [digit m]" using "1.prems"(1) by (simp add: print_nat.simps [of m])
    then have "n < 10"
      using print_nat_Nil [of "n div 10"] by (simp add: print_nat.simps [of n] split: if_splits)
    with n True "1.prems"(2,3) show ?thesis
      using digit_inj [of m n] by (simp add: print_nat.simps [of n])
  next
    case False
    then have m: "print_nat m = print_nat (m div 10) @ [digit (m mod 10)]"
      by (simp add: print_nat.simps [of m])
    then have "\<not> n < 10"
      using "1.prems"(1) print_nat_Nil [of "m div 10"] by (auto simp: print_nat.simps [of n])
    then have "print_nat n = print_nat (n div 10) @ [digit (n mod 10)]"
      by (simp add: print_nat.simps [of n])
    then have "print_nat (m div 10) = print_nat (n div 10)" "digit (m mod 10) = digit (n mod 10)"
      using "1.prems"(1) m by simp_all
    then have "m div 10 = n div 10" "m mod 10 = n mod 10"
      using "1.IH" [OF False] "1.prems"(2,3) digit_inj [of "m mod 10" "n mod 10"] by simp_all
    then show ?thesis by (metis div_mult_mod_eq)
  qed
qed

lemma print_int_inj: "print_int i = print_int k \<Longrightarrow> i = k"
proof -
  assume eq: "print_int i = print_int k"
  have no: "print_nat n \<noteq> ''-'' @ x" if "0 \<le> n" for n x
    using print_nat_chars [of "CHR ''-''" n] that by auto
  have "(i < 0) = (k < 0)"
    using eq no [of i "print_nat (- k)"] no [of k "print_nat (- i)"]
    by (auto simp: print_int_def split: if_splits)
  with eq show "i = k"
    using print_nat_inj [of "- i" "- k"] print_nat_inj [of i k] by (auto simp: print_int_def split: if_splits)
qed

lemma print_int_chars: "CHR ''_'' \<notin> set (print_int i)"
  using print_nat_chars [of "CHR ''_''" i] print_nat_chars [of "CHR ''_''" "- i"]
  by (auto simp: print_int_def)

lemma print_int_colon: "CHR '':'' \<notin> set (print_int i)"
  using print_nat_chars [of "CHR '':''" i] print_nat_chars [of "CHR '':''" "- i"]
  by (auto simp: print_int_def)

section \<open>Go maps\<close>

text \<open>
  A Go map is an association list with distinct keys.  The order of the list is the order in
  which a \<open>range\<close> loop over the map happens to run: Go leaves it open, so an operation that
  ranges over a map is shown to give the same result for every order of the list.
\<close>

type_synonym ('k, 'v) go_map = "('k \<times> 'v) list"

abbreviation map_ok :: "('k, 'v) go_map \<Rightarrow> bool" where
  "map_ok m \<equiv> distinct (map fst m)"

abbreviation map_get :: "('k, 'v) go_map \<Rightarrow> 'k \<Rightarrow> 'v option" where
  "map_get m k \<equiv> map_of m k"

abbreviation map_put :: "'k \<Rightarrow> 'v \<Rightarrow> ('k, 'v) go_map \<Rightarrow> ('k, 'v) go_map" where
  "map_put \<equiv> AList.update"

abbreviation map_del :: "'k \<Rightarrow> ('k, 'v) go_map \<Rightarrow> ('k, 'v) go_map" where
  "map_del \<equiv> AList.delete"

abbreviation map_vals :: "('k, 'v) go_map \<Rightarrow> 'v list" where
  "map_vals m \<equiv> map snd m"

text \<open>Two lists stand for the same Go map when they hold the same entries.\<close>

definition same_map :: "('k, 'v) go_map \<Rightarrow> ('k, 'v) go_map \<Rightarrow> bool" where
  "same_map m n \<longleftrightarrow> map_ok m \<and> mset m = mset n"

text \<open>The interface the stores rely on, and what a store keyed by its own identifiers keeps.\<close>

locale go_map_laws =
  fixes get :: "'m \<Rightarrow> 'k \<Rightarrow> 'v option"
    and put :: "'k \<Rightarrow> 'v \<Rightarrow> 'm \<Rightarrow> 'm"
    and del :: "'k \<Rightarrow> 'm \<Rightarrow> 'm"
    and ok :: "'m \<Rightarrow> bool"
  assumes get_put: "get (put k v m) = (get m)(k \<mapsto> v)"
    and get_del: "get (del k m) = (get m)(k := None)"
    and ok_put: "ok m \<Longrightarrow> ok (put k v m)"
    and ok_del: "ok m \<Longrightarrow> ok (del k m)"
begin

definition keyed :: "('v \<Rightarrow> 'k) \<Rightarrow> 'm \<Rightarrow> bool" where
  "keyed ident m \<longleftrightarrow> ok m \<and> (\<forall>k v. get m k = Some v \<longrightarrow> ident v = k)"

lemma keyed_put: "keyed ident m \<Longrightarrow> ident v = k \<Longrightarrow> keyed ident (put k v m)"
  by (auto simp: keyed_def get_put ok_put)

lemma keyed_del: "keyed ident m \<Longrightarrow> keyed ident (del k m)"
  by (auto simp: keyed_def get_del ok_del split: if_splits)

lemma keyed_get: "keyed ident m \<Longrightarrow> get m k = Some v \<Longrightarrow> ident v = k"
  by (auto simp: keyed_def)

lemma get_put_other: "k \<noteq> k' \<Longrightarrow> get (put k v m) k' = get m k'"
  by (simp add: get_put)

end

interpretation gm: go_map_laws map_of AList.update AList.delete "\<lambda>m. distinct (map fst m)"
  by unfold_locales (auto simp: update_conv' delete_conv' distinct_update distinct_delete)

lemmas map_get_put [simp] = gm.get_put
lemmas map_get_del [simp] = gm.get_del


lemma keyed_val_iff:
  assumes "gm.keyed ident m"
  shows "v \<in> set (map_vals m) \<longleftrightarrow> map_get m (ident v) = Some v"
proof -
  have ok: "map_ok m" and key: "\<And>k w. map_get m k = Some w \<Longrightarrow> ident w = k"
    using assms by (auto simp: gm.keyed_def)
  show ?thesis
    using key map_of_is_SomeI [OF ok] by (force dest: map_of_SomeD)
qed

lemma keyed_distinct_idents:
  assumes "gm.keyed ident m"
  shows "distinct (map ident (map_vals m))"
proof -
  have ok: "map_ok m" and key: "\<And>k w. map_get m k = Some w \<Longrightarrow> ident w = k"
    using assms by (auto simp: gm.keyed_def)
  have "map ident (map_vals m) = map fst m"
    using key map_of_is_SomeI [OF ok] by auto
  then show ?thesis
    using ok by presburger
qed

lemma keyed_empty [simp]: "gm.keyed ident []"
  by (simp add: gm.keyed_def)

lemma set_map_put: "set (map_put k v m) \<subseteq> insert (k, v) (set m)"
  by (induction m) auto

lemma map_put_fresh: "k \<notin> fst ` set m \<Longrightarrow> map_put k v m = m @ [(k, v)]"
  by (induction m) auto

lemma length_map_put: "length (map_put k v m) = (if map_get m k = None then Suc (length m) else length m)"
  by (induction m) (auto split: if_splits)

lemma set_map_del: "set (map_del k m) \<subseteq> set m"
  by (auto simp: AList.delete_eq)

lemma length_map_del: "length (map_del k m) \<le> length m"
  by (simp add: AList.delete_eq)

lemma map_ok_del: "map_ok m \<Longrightarrow> map_ok (map_del k m)"
  by (rule distinct_delete)

lemma map_ok_put: "map_ok m \<Longrightarrow> map_ok (map_put k v m)"
  by (rule distinct_update)

lemma map_get_filter:
  "map_ok m \<Longrightarrow> map_get (filter (\<lambda>(k, v). P v) m) k =
     (case map_get m k of Some v \<Rightarrow> if P v then Some v else None | None \<Rightarrow> None)"
  by (induction m) (auto split: option.splits simp: map_of_eq_None_iff image_iff)

lemma same_map_get: "same_map m n \<Longrightarrow> map_get m = map_get n"
  by (metis same_map_def map_of_inject_set distinct_map mset_eq_imp_distinct_iff mset_map
      mset_eq_setD)

lemma same_map_vals: "same_map m n \<Longrightarrow> mset (map_vals m) = mset (map_vals n)"
  by (simp add: same_map_def)

lemma same_mapI:
  "map_ok m \<Longrightarrow> map_ok n \<Longrightarrow> map_get m = map_get n \<Longrightarrow> same_map m n"
  by (metis same_map_def map_of_inject_set distinct_map set_eq_iff_mset_eq_distinct)

lemma same_map_ok: "same_map m n \<Longrightarrow> map_ok n"
  by (metis same_map_def mset_eq_imp_distinct_iff mset_map)

lemma same_map_put: "same_map m n \<Longrightarrow> same_map (map_put k v m) (map_put k v n)"
  by (rule same_mapI)
    (simp_all add: gm.ok_put same_map_ok same_map_get, simp add: gm.ok_put same_map_def)

lemma same_map_keyed: "same_map m n \<Longrightarrow> gm.keyed ident m \<Longrightarrow> gm.keyed ident n"
  by (auto simp: gm.keyed_def same_map_get dest: same_map_ok)

section \<open>Picking and sorting by a comparison\<close>

text \<open>
  The selection loop of the stores:
  \<open>for _, x := range m { if !found || before(x, best) { best = x; found = true } }\<close>.
\<close>

fun pick_best :: "('a \<Rightarrow> 'a \<Rightarrow> bool) \<Rightarrow> 'a option \<Rightarrow> 'a list \<Rightarrow> 'a option" where
  "pick_best before best [] = best"
| "pick_best before best (x # xs) =
     pick_best before
       (case best of None \<Rightarrow> Some x | Some b \<Rightarrow> if before x b then Some x else Some b) xs"

text \<open>\<open>sort.SliceStable\<close> (and \<open>sort.Slice\<close>, where no two elements compare equal).\<close>

fun sort_insert :: "('a \<Rightarrow> 'a \<Rightarrow> bool) \<Rightarrow> 'a \<Rightarrow> 'a list \<Rightarrow> 'a list" where
  "sort_insert before x [] = [x]"
| "sort_insert before x (y # ys) =
     (if before y x then y # sort_insert before x ys else x # y # ys)"

fun sort_slice :: "('a \<Rightarrow> 'a \<Rightarrow> bool) \<Rightarrow> 'a list \<Rightarrow> 'a list" where
  "sort_slice before [] = []"
| "sort_slice before (x # xs) = sort_insert before x (sort_slice before xs)"

lemma mset_sort_insert [simp]: "mset (sort_insert before x xs) = add_mset x (mset xs)"
  by (induction xs) auto

lemma mset_sort_slice [simp]: "mset (sort_slice before xs) = mset xs"
  by (induction xs) auto

lemma set_sort_slice [simp]: "set (sort_slice before xs) = set xs"
  by (metis mset_sort_slice set_mset_mset)

lemma length_sort_slice [simp]: "length (sort_slice before xs) = length xs"
  by (metis mset_sort_slice size_mset)

lemma pick_best_None_iff [simp]: "pick_best before best xs = None \<longleftrightarrow> best = None \<and> xs = []"
  by (induction xs arbitrary: best) (auto split: option.splits)

text \<open>
  A comparison that is a strict order, total between elements with different identifiers, as
  every comparison of the stores is (each ends in a tie-break on the identifier).
\<close>

locale picker =
  fixes before :: "'a \<Rightarrow> 'a \<Rightarrow> bool"
    and ident :: "'a \<Rightarrow> 'i"
  assumes irrefl: "\<not> before x x"
    and trans: "before x y \<Longrightarrow> before y z \<Longrightarrow> before x z"
    and total: "ident x \<noteq> ident y \<Longrightarrow> before x y \<or> before y x"
begin

lemma asym: "before x y \<Longrightarrow> \<not> before y x"
  using irrefl trans by blast

definition best_of :: "'a list \<Rightarrow> 'a \<Rightarrow> bool" where
  "best_of xs b \<longleftrightarrow> b \<in> set xs \<and> (\<forall>x\<in>set xs. x \<noteq> b \<longrightarrow> before b x)"

lemma pick_acc:
  assumes "pick_best before (Some b) xs = Some c" and "distinct (map ident (b # xs))"
  shows "best_of (b # xs) c"
  using assms
proof (induction xs arbitrary: b)
  case Nil
  then show ?case by (simp add: best_of_def)
next
  case (Cons x xs)
  define w where "w = (if before x b then x else b)"
  have "best_of (w # xs) c"
    using Cons.prems by (intro Cons.IH) (auto simp: w_def split: if_splits)
  moreover have "before x b \<or> before b x"
    using Cons.prems(2) by (intro total) auto
  ultimately show ?case
    by (auto simp: best_of_def w_def split: if_splits dest: trans asym)
qed

lemma pick_best_of:
  assumes "pick_best before None xs = Some c" and "distinct (map ident xs)"
  shows "best_of xs c"
  using assms by (cases xs) (auto intro: pick_acc)

lemma best_unique: "best_of xs b \<Longrightarrow> best_of xs c \<Longrightarrow> b = c"
  unfolding best_of_def by (metis asym)

lemma pick_best_iff:
  assumes "distinct (map ident xs)"
  shows "pick_best before None xs = Some c \<longleftrightarrow> best_of xs c"
proof
  assume c: "best_of xs c"
  then have "xs \<noteq> []" by (auto simp: best_of_def)
  then obtain d where d: "pick_best before None xs = Some d"
    using pick_best_None_iff [of before None xs] by blast
  then show "pick_best before None xs = Some c"
    using pick_best_of [OF d assms] best_unique [OF c] by simp
qed (use pick_best_of assms in blast)

lemma best_of_mset: "mset xs = mset ys \<Longrightarrow> best_of xs = best_of ys"
  by (auto simp: best_of_def fun_eq_iff dest: mset_eq_setD)

lemma pick_best_perm:
  assumes "distinct (map ident xs)" and "mset xs = mset ys"
  shows "pick_best before None xs = pick_best before None ys"
proof -
  have "distinct (map ident ys)"
    using assms by (metis mset_eq_imp_distinct_iff mset_map)
  then have "pick_best before None xs = Some c \<longleftrightarrow> pick_best before None ys = Some c" for c
    using assms by (simp add: pick_best_iff best_of_mset [of xs ys])
  then show ?thesis
    by (metis option.exhaust)
qed

lemma sorted_insert:
  assumes "sorted_wrt before xs" and "ident x \<notin> ident ` set xs"
  shows "sorted_wrt before (sort_insert before x xs)"
  using assms
proof (induction xs)
  case (Cons y ys)
  have set_ins: "set (sort_insert before x ys) = insert x (set ys)"
    by (metis mset_sort_insert set_mset_add_mset_insert set_mset_mset)
  show ?case
  proof (cases "before y x")
    case True
    with Cons show ?thesis by (auto simp: set_ins)
  next
    case False
    then have "before x y"
      using Cons.prems(2) total [of x y] by auto
    with Cons.prems(1) have "\<forall>z\<in>set (y # ys). before x z"
      by (auto intro: trans)
    with False Cons.prems(1) show ?thesis by simp
  qed
qed simp

lemma sorted_sort_slice:
  "distinct (map ident xs) \<Longrightarrow> sorted_wrt before (sort_slice before xs)"
proof (induction xs)
  case (Cons x xs)
  then show ?case by (auto intro!: sorted_insert)
qed simp

lemma sort_slice_perm:
  assumes "distinct (map ident xs)" and "mset xs = mset ys"
  shows "sort_slice before xs = sort_slice before ys"
proof -
  have "distinct (map ident ys)"
    using assms by (metis mset_eq_imp_distinct_iff mset_map)
  then have sorted: "sorted_wrt before (sort_slice before xs)"
    "sorted_wrt before (sort_slice before ys)"
    using assms(1) by (auto intro: sorted_sort_slice)
  have "sorted_wrt before us \<Longrightarrow> sorted_wrt before vs \<Longrightarrow> mset us = mset vs \<Longrightarrow> us = vs" for us vs
  proof (induction us arbitrary: vs)
    case (Cons u us)
    obtain v vs' where vs: "vs = v # vs'"
      using Cons.prems(3) by (cases vs) auto
    have "u = v"
    proof (rule ccontr)
      assume "u \<noteq> v"
      then have "u \<in> set vs'" "v \<in> set us"
        using Cons.prems(3) vs mset_eq_setD [OF Cons.prems(3)] by auto
      then show False
        using Cons.prems(1,2) vs asym by auto
    qed
    then show ?case
      using Cons vs by simp
  qed simp
  then show ?thesis
    using sorted assms(2) by simp
qed

lemma sort_slice_sorted: "sorted_wrt before xs \<Longrightarrow> sort_slice before xs = xs"
proof (induction xs)
  case (Cons x xs)
  then have "sort_slice before xs = xs" "\<forall>y\<in>set xs. before x y" by simp_all
  then show ?case using asym by (cases xs) auto
qed simp

text \<open>
  A batch of the first \<open>n\<close> of the sorted slice, as the retention sweeps take it: what is in the
  batch comes before everything left out.
\<close>

lemma first_batch:
  fixes n :: nat
  assumes "distinct (map ident xs)"
  defines "batch \<equiv> take n (sort_slice before xs)"
  shows "length batch = min n (length xs)" and "set batch \<subseteq> set xs"
    and "card (set batch) = length batch"
    and "\<forall>r\<in>set batch. \<forall>s\<in>set xs - set batch. before r s"
proof -
  let ?s = "sort_slice before xs"
  show "length batch = min n (length xs)" "set batch \<subseteq> set xs"
    using set_take_subset [of n ?s] by (simp_all add: batch_def min.commute)
  have "distinct ?s"
    using assms(1) by (metis distinct_map mset_eq_imp_distinct_iff mset_sort_slice)
  then show "card (set batch) = length batch"
    by (simp add: batch_def distinct_card)
  have "sorted_wrt before (take n ?s @ drop n ?s)"
    using sorted_sort_slice [OF assms(1)] by simp
  then have "\<forall>r\<in>set batch. \<forall>s\<in>set (drop n ?s). before r s"
    unfolding batch_def sorted_wrt_append by blast
  moreover have "set xs = set batch \<union> set (drop n ?s)"
    unfolding batch_def by (metis append_take_drop_id set_append set_sort_slice)
  ultimately show "\<forall>r\<in>set batch. \<forall>s\<in>set xs - set batch. before r s"
    by blast
qed

end

end
