(* ===== verification/Job_Types.thy ===== *)
theory Job_Types
  imports Prelude
begin

text \<open>
  The vocabulary of the jobs pocket: the seven-value lifecycle status of
  \<open>src/sdk/capabilities/work/work.go\<close>, the \<open>Job\<close> entity and the \<open>Enqueue\<close> input of
  \<open>src/pockets/jobs/logic/queue/job.go\<close>, and the two predicates both in-memory queues use to
  select a job (\<open>kindAllowed\<close> and \<open>claimBefore\<close> of \<open>stores/memory/queue.go\<close>).
\<close>

section \<open>Lifecycle status\<close>

text \<open>A status is a Go string; \<open>StatusOther\<close> is any string outside the vocabulary.\<close>

datatype status =
    StatusPending | StatusRunning | StatusCompleted | StatusFailed
  | StatusDeadLetter | StatusCanceled | StatusSuperseded
  | StatusOther string

fun Terminal :: "status \<Rightarrow> bool" where
  "Terminal StatusCompleted = True"
| "Terminal StatusDeadLetter = True"
| "Terminal StatusCanceled = True"
| "Terminal StatusSuperseded = True"
| "Terminal _ = False"

fun Known :: "status \<Rightarrow> bool" where
  "Known (StatusOther _) = False"
| "Known _ = True"

section \<open>Jobs\<close>

record job =
  j_JobID :: string
  j_Kind :: string
  j_TenantID :: string
  j_Payload :: bytes
  j_JobStatus :: status
  j_Priority :: int
  j_Retries :: int
  j_MaxAttempts :: int
  j_WorkerName :: string
  j_FailureReason :: string
  j_ScheduledFor :: time
  j_ClaimedAt :: "time option"
  j_CompletedAt :: "time option"
  j_CreatedAt :: time
  j_UpdatedAt :: time
  j_LogicalKey :: string
  j_LeaseID :: string
  j_LeasedUntil :: time
  j_TerminalAt :: "time option"

record enqueue =
  e_ID :: string
  e_Kind :: string
  e_TenantID :: string
  e_Payload :: bytes
  e_ScheduledFor :: time
  e_Priority :: int
  e_MaxAttempts :: int
  e_LogicalKey :: string

abbreviation job_Terminal :: "job \<Rightarrow> bool" where
  "job_Terminal j \<equiv> Terminal (j_JobStatus j)"

definition Leased :: "job \<Rightarrow> time \<Rightarrow> bool" where
  "Leased j now \<longleftrightarrow> j_LeaseID j \<noteq> [] \<and> now < j_LeasedUntil j"

text \<open>
  The lifecycle of a job as the port \<open>FencedQueueRepository\<close> describes it: what a worker that
  holds (or held) a lease can know about the job.
\<close>

datatype phase =
    Absent
  | Waiting time int           \<comment> \<open>available at, attempts so far\<close>
  | Held string time int       \<comment> \<open>lease, its expiry, attempts so far\<close>
  | Done status string int     \<comment> \<open>terminal status, lease that settled it, attempts\<close>

text \<open>\<open>kindAllowed\<close>: an empty filter allows every kind.\<close>

fun kind_scan :: "string list \<Rightarrow> string \<Rightarrow> bool" where
  "kind_scan [] kind = False"
| "kind_scan (k # ks) kind = (if k = kind then True else kind_scan ks kind)"

definition kindAllowed :: "string list \<Rightarrow> string \<Rightarrow> bool" where
  "kindAllowed kinds kind = (if length kinds = 0 then True else kind_scan kinds kind)"

text \<open>\<open>claimBefore\<close>: higher priority first, then older, then lower id.\<close>

definition claimBefore :: "job \<Rightarrow> job \<Rightarrow> bool" where
  "claimBefore a b =
     (if j_Priority a \<noteq> j_Priority b then j_Priority a > j_Priority b
      else if j_CreatedAt a \<noteq> j_CreatedAt b then j_CreatedAt a < j_CreatedAt b
      else j_JobID a < j_JobID b)"

lemma kindAllowed_iff: "kindAllowed kinds kind \<longleftrightarrow> kinds = [] \<or> kind \<in> set kinds"
proof -
  have "kind_scan ks kind \<longleftrightarrow> kind \<in> set ks" for ks
    by (induction ks) auto
  then show ?thesis by (simp add: kindAllowed_def)
qed

interpretation claim: picker claimBefore j_JobID
  by unfold_locales (auto simp: claimBefore_def split: if_splits)

end
