(* ===== verification/Fenced_Queue.thy ===== *)
theory Fenced_Queue
  imports Memory_Queue
begin

text \<open>
  The lease-fenced in-memory queue, \<open>FencedQueue\<close> of
  \<open>src/pockets/jobs/stores/memory/fenced.go\<close> with \<open>Defer\<close> of \<open>defer.go\<close>: the reference
  implementation of the frozen port \<open>FencedQueueRepository\<close>
  (\<open>src/pockets/jobs/logic/queue/fenced.go\<close>).  Each method is one atomic step under the store's
  mutex.  The theory shows the fence (a lease that lost its job can never act on it again), the
  exclusivity of a live lease against every history of other callers, the uniqueness of the
  active generation of a logical key, the accounting of attempts, and that no operation lets
  the order of map iteration be observed.
\<close>

section \<open>State and operations\<close>

record fenced_queue =
  fq_jobs :: "(string, job) go_map"

definition NewFencedQueue :: fenced_queue where
  "NewFencedQueue = \<lparr>fq_jobs = []\<rparr>"

definition heldBy :: "job \<Rightarrow> string \<Rightarrow> time \<Rightarrow> bool" where
  "heldBy j leaseID now \<longleftrightarrow>
     j_JobStatus j = StatusRunning \<and> j_LeaseID j = leaseID \<and> now < j_LeasedUntil j"

definition fencedDue :: "job \<Rightarrow> time \<Rightarrow> bool" where
  "fencedDue j now =
     (case j_JobStatus j of
        StatusPending \<Rightarrow> \<not> j_ScheduledFor j > now
      | StatusRunning \<Rightarrow> \<not> j_LeasedUntil j > now
      | _ \<Rightarrow> False)"

definition newerByKey :: "job \<Rightarrow> job \<Rightarrow> bool" where
  "newerByKey a b =
     (if j_CreatedAt a \<noteq> j_CreatedAt b then j_CreatedAt a > j_CreatedAt b
      else j_JobID a > j_JobID b)"

fun activeByKey :: "string \<Rightarrow> job list \<Rightarrow> job option" where
  "activeByKey key [] = None"
| "activeByKey key (j # js) =
     (if j_LogicalKey j = key \<and> \<not> job_Terminal j then Some j else activeByKey key js)"

text \<open>The loop of \<open>insert\<close> that keeps generations of a key in creation order.\<close>

fun after_generations :: "string \<Rightarrow> time \<Rightarrow> job list \<Rightarrow> time" where
  "after_generations key now [] = now"
| "after_generations key now (j # js) =
     after_generations key
       (if j_LogicalKey j = key \<and> \<not> now > j_CreatedAt j then j_CreatedAt j + Nanosecond else now) js"

definition FencedQueue_insert :: "time \<Rightarrow> enqueue \<Rightarrow> fenced_queue \<Rightarrow> job res \<times> fenced_queue" where
  "FencedQueue_insert clock inp q =
     (if e_ID inp = [] then (Inl errIDRequired, q)
      else if map_get (fq_jobs q) (e_ID inp) \<noteq> None then (Inl ErrAlreadyExists, q)
      else
        let now = (if e_LogicalKey inp \<noteq> []
                   then after_generations (e_LogicalKey inp) clock (map_vals (fq_jobs q))
                   else clock);
            j = \<lparr>j_JobID = e_ID inp, j_Kind = e_Kind inp, j_TenantID = e_TenantID inp,
                 j_Payload = e_Payload inp, j_JobStatus = StatusPending,
                 j_Priority = e_Priority inp, j_Retries = 0, j_MaxAttempts = e_MaxAttempts inp,
                 j_WorkerName = [], j_FailureReason = [], j_ScheduledFor = e_ScheduledFor inp,
                 j_ClaimedAt = None, j_CompletedAt = None, j_CreatedAt = now,
                 j_UpdatedAt = now, j_LogicalKey = e_LogicalKey inp, j_LeaseID = [],
                 j_LeasedUntil = zero_time, j_TerminalAt = None\<rparr>
        in (Inr j, q\<lparr>fq_jobs := map_put (e_ID inp) j (fq_jobs q)\<rparr>))"

definition FencedQueue_EnqueueOnce ::
    "time \<Rightarrow> enqueue \<Rightarrow> fenced_queue \<Rightarrow> job res \<times> fenced_queue" where
  "FencedQueue_EnqueueOnce clock inp q =
     (if e_ID inp = [] then (Inl errIDRequired, q)
      else if e_LogicalKey inp \<noteq> [] then
        (case activeByKey (e_LogicalKey inp) (map_vals (fq_jobs q)) of
           Some active \<Rightarrow> (Inr active, q)
         | None \<Rightarrow> FencedQueue_insert clock inp q)
      else FencedQueue_insert clock inp q)"

definition supersede :: "string \<Rightarrow> time \<Rightarrow> job \<Rightarrow> job" where
  "supersede key now j =
     (if j_LogicalKey j \<noteq> key \<or> job_Terminal j then j
      else j\<lparr>j_JobStatus := StatusSuperseded, j_TerminalAt := Some now, j_LeaseID := [],
             j_LeasedUntil := zero_time, j_UpdatedAt := now\<rparr>)"

text \<open>\<open>clock1\<close> is read before the supersession, \<open>clock2\<close> inside \<open>insert\<close>.\<close>

definition FencedQueue_Replace ::
    "time \<Rightarrow> time \<Rightarrow> enqueue \<Rightarrow> fenced_queue \<Rightarrow> job res \<times> fenced_queue" where
  "FencedQueue_Replace clock1 clock2 inp q =
     (if e_ID inp = [] then (Inl errIDRequired, q)
      else if map_get (fq_jobs q) (e_ID inp) \<noteq> None then (Inl ErrAlreadyExists, q)
      else
        let q' = (if e_LogicalKey inp \<noteq> []
                  then q\<lparr>fq_jobs := map (map_prod id (supersede (e_LogicalKey inp) clock1)) (fq_jobs q)\<rparr>
                  else q)
        in FencedQueue_insert clock2 inp q')"

definition FencedQueue_Claim ::
    "time \<Rightarrow> string \<Rightarrow> duration \<Rightarrow> string list \<Rightarrow> fenced_queue \<Rightarrow> job res \<times> fenced_queue" where
  "FencedQueue_Claim now leaseID leaseFor kinds q =
     (case pick_best claimBefore None
             (filter (\<lambda>j. fencedDue j now \<and> kindAllowed kinds (j_Kind j)) (map_vals (fq_jobs q))) of
        None \<Rightarrow> (Inl ErrNoWork, q)
      | Some best \<Rightarrow>
          let best' = best\<lparr>j_JobStatus := StatusRunning, j_LeaseID := leaseID,
                           j_LeasedUntil := now + leaseFor, j_ClaimedAt := Some now,
                           j_Retries := j_Retries best + 1, j_UpdatedAt := now\<rparr>
          in (Inr best', q\<lparr>fq_jobs := map_put (j_JobID best') best' (fq_jobs q)\<rparr>))"

definition FencedQueue_Checkpoint ::
    "string \<Rightarrow> string \<Rightarrow> bytes \<Rightarrow> time \<Rightarrow> fenced_queue \<Rightarrow> error \<times> fenced_queue" where
  "FencedQueue_Checkpoint jid leaseID payload now q =
     (case map_get (fq_jobs q) jid of
        None \<Rightarrow> (Some ErrNotFound, q)
      | Some j \<Rightarrow>
          if \<not> heldBy j leaseID now then (Some ErrConflict, q)
          else (None, q\<lparr>fq_jobs := map_put jid (j\<lparr>j_Payload := payload, j_UpdatedAt := now\<rparr>)
                          (fq_jobs q)\<rparr>))"

definition FencedQueue_Complete ::
    "string \<Rightarrow> string \<Rightarrow> time \<Rightarrow> fenced_queue \<Rightarrow> error \<times> fenced_queue" where
  "FencedQueue_Complete jid leaseID now q =
     (case map_get (fq_jobs q) jid of
        None \<Rightarrow> (Some ErrNotFound, q)
      | Some j \<Rightarrow>
          if j_JobStatus j = StatusCompleted then
            (if j_LeaseID j = leaseID then (None, q) else (Some ErrConflict, q))
          else if \<not> heldBy j leaseID now then (Some ErrConflict, q)
          else (None, q\<lparr>fq_jobs := map_put jid
                  (j\<lparr>j_JobStatus := StatusCompleted, j_CompletedAt := Some now,
                     j_TerminalAt := Some now, j_UpdatedAt := now\<rparr>) (fq_jobs q)\<rparr>))"

definition FencedQueue_Reschedule ::
    "string \<Rightarrow> string \<Rightarrow> time \<Rightarrow> string \<Rightarrow> time \<Rightarrow> fenced_queue \<Rightarrow> error \<times> fenced_queue" where
  "FencedQueue_Reschedule jid leaseID availableAt reason now q =
     (case map_get (fq_jobs q) jid of
        None \<Rightarrow> (Some ErrNotFound, q)
      | Some j \<Rightarrow>
          if \<not> heldBy j leaseID now then (Some ErrConflict, q)
          else (None, q\<lparr>fq_jobs := map_put jid
                  (j\<lparr>j_JobStatus := StatusPending, j_ScheduledFor := availableAt,
                     j_LeaseID := [], j_LeasedUntil := zero_time, j_ClaimedAt := None,
                     j_FailureReason := reason, j_UpdatedAt := now\<rparr>) (fq_jobs q)\<rparr>))"

definition FencedQueue_Fail ::
    "string \<Rightarrow> string \<Rightarrow> string \<Rightarrow> time \<Rightarrow> fenced_queue \<Rightarrow> error \<times> fenced_queue" where
  "FencedQueue_Fail jid leaseID reason now q =
     (case map_get (fq_jobs q) jid of
        None \<Rightarrow> (Some ErrNotFound, q)
      | Some j \<Rightarrow>
          if j_JobStatus j = StatusDeadLetter then
            (if j_LeaseID j = leaseID then (None, q) else (Some ErrConflict, q))
          else if \<not> heldBy j leaseID now then (Some ErrConflict, q)
          else (None, q\<lparr>fq_jobs := map_put jid
                  (j\<lparr>j_JobStatus := StatusDeadLetter, j_FailureReason := reason,
                     j_TerminalAt := Some now, j_UpdatedAt := now\<rparr>) (fq_jobs q)\<rparr>))"

definition FencedQueue_Defer ::
    "string \<Rightarrow> string \<Rightarrow> time \<Rightarrow> string \<Rightarrow> time \<Rightarrow> fenced_queue \<Rightarrow> error \<times> fenced_queue" where
  "FencedQueue_Defer jid leaseID availableAt reason now q =
     (if \<not> availableAt > now then (Some ErrInvalidInput, q)
      else case map_get (fq_jobs q) jid of
        None \<Rightarrow> (Some ErrNotFound, q)
      | Some j \<Rightarrow>
          if \<not> heldBy j leaseID now \<or> j_Retries j < 1 then (Some ErrConflict, q)
          else (None, q\<lparr>fq_jobs := map_put jid
                  (j\<lparr>j_JobStatus := StatusPending, j_ScheduledFor := availableAt,
                     j_Retries := j_Retries j - 1, j_LeaseID := [],
                     j_LeasedUntil := zero_time, j_WorkerName := [], j_ClaimedAt := None,
                     j_FailureReason := reason, j_UpdatedAt := now\<rparr>) (fq_jobs q)\<rparr>))"

definition FencedQueue_Cancel :: "string \<Rightarrow> time \<Rightarrow> fenced_queue \<Rightarrow> error \<times> fenced_queue" where
  "FencedQueue_Cancel jid now q =
     (case map_get (fq_jobs q) jid of
        None \<Rightarrow> (Some ErrNotFound, q)
      | Some j \<Rightarrow>
          if j_JobStatus j = StatusCanceled then (None, q)
          else if job_Terminal j then (Some ErrConflict, q)
          else (None, q\<lparr>fq_jobs := map_put jid
                  (j\<lparr>j_JobStatus := StatusCanceled, j_TerminalAt := Some now,
                     j_LeaseID := [], j_LeasedUntil := zero_time, j_UpdatedAt := now\<rparr>)
                  (fq_jobs q)\<rparr>))"

definition fenced_purge_candidate :: "time \<Rightarrow> job \<Rightarrow> bool" where
  "fenced_purge_candidate bound j \<longleftrightarrow>
     job_Terminal j \<and> (case j_TerminalAt j of None \<Rightarrow> False | Some t \<Rightarrow> \<not> t > bound)"

definition fencedPurgeBefore :: "job \<Rightarrow> job \<Rightarrow> bool" where
  "fencedPurgeBefore a b =
     (if the (j_TerminalAt a) \<noteq> the (j_TerminalAt b) then the (j_TerminalAt a) < the (j_TerminalAt b)
      else j_JobID a < j_JobID b)"

definition FencedQueue_PurgeTerminal ::
    "time \<Rightarrow> int \<Rightarrow> fenced_queue \<Rightarrow> nat res \<times> fenced_queue" where
  "FencedQueue_PurgeTerminal bound limit q =
     (let candidates = sort_slice fencedPurgeBefore
                         (filter (fenced_purge_candidate bound) (map_vals (fq_jobs q)));
          batch = (if limit \<ge> 0 \<and> int (length candidates) > limit then take (nat limit) candidates
                   else candidates)
      in (Inr (length batch),
          q\<lparr>fq_jobs := fold (\<lambda>j m. map_del (j_JobID j) m) batch (fq_jobs q)\<rparr>))"

definition FencedQueue_GetLatestByKey :: "string \<Rightarrow> fenced_queue \<Rightarrow> job res" where
  "FencedQueue_GetLatestByKey key q =
     (case pick_best newerByKey None
             (filter (\<lambda>j. j_LogicalKey j = key) (map_vals (fq_jobs q))) of
        None \<Rightarrow> Inl ErrNotFound | Some j \<Rightarrow> Inr j)"

definition FencedQueue_Get :: "string \<Rightarrow> fenced_queue \<Rightarrow> job res" where
  "FencedQueue_Get jid q =
     (case map_get (fq_jobs q) jid of None \<Rightarrow> Inl ErrNotFound | Some j \<Rightarrow> Inr j)"

interpretation newer: picker newerByKey j_JobID
  by unfold_locales (auto simp: newerByKey_def split: if_splits)

interpretation fenced_purge: picker fencedPurgeBefore j_JobID
  by unfold_locales (auto simp: fencedPurgeBefore_def split: if_splits)

section \<open>Histories of calls\<close>

datatype fenced_op =
    FEnqueueOnce time enqueue
  | FReplace time time enqueue
  | FClaim time string duration "string list"
  | FCheckpoint string string bytes time
  | FComplete string string time
  | FReschedule string string time string time
  | FFail string string string time
  | FDefer string string time string time
  | FCancel string time
  | FPurgeTerminal time int
  | FGetLatestByKey string

datatype fenced_out = OutJob "job res" | OutErr error | OutCount "nat res"

fun fenced_exec :: "fenced_op \<Rightarrow> fenced_queue \<Rightarrow> fenced_out \<times> fenced_queue" where
  "fenced_exec (FEnqueueOnce c inp) q = apfst OutJob (FencedQueue_EnqueueOnce c inp q)"
| "fenced_exec (FReplace c1 c2 inp) q = apfst OutJob (FencedQueue_Replace c1 c2 inp q)"
| "fenced_exec (FClaim now l d kinds) q = apfst OutJob (FencedQueue_Claim now l d kinds q)"
| "fenced_exec (FCheckpoint i l p now) q = apfst OutErr (FencedQueue_Checkpoint i l p now q)"
| "fenced_exec (FComplete i l now) q = apfst OutErr (FencedQueue_Complete i l now q)"
| "fenced_exec (FReschedule i l at r now) q = apfst OutErr (FencedQueue_Reschedule i l at r now q)"
| "fenced_exec (FFail i l r now) q = apfst OutErr (FencedQueue_Fail i l r now q)"
| "fenced_exec (FDefer i l at r now) q = apfst OutErr (FencedQueue_Defer i l at r now q)"
| "fenced_exec (FCancel i now) q = apfst OutErr (FencedQueue_Cancel i now q)"
| "fenced_exec (FPurgeTerminal b n) q = apfst OutCount (FencedQueue_PurgeTerminal b n q)"
| "fenced_exec (FGetLatestByKey k) q = (OutJob (FencedQueue_GetLatestByKey k q), q)"

abbreviation fenced_step :: "fenced_op \<Rightarrow> fenced_queue \<Rightarrow> fenced_queue" where
  "fenced_step op q \<equiv> snd (fenced_exec op q)"

definition fenced_run :: "fenced_op list \<Rightarrow> fenced_queue \<Rightarrow> fenced_queue" where
  "fenced_run ops q = fold fenced_step ops q"

lemma fenced_run_Nil [simp]: "fenced_run [] q = q"
  by (simp add: fenced_run_def)

lemma fenced_run_Cons [simp]: "fenced_run (op # ops) q = fenced_run ops (fenced_step op q)"
  by (simp add: fenced_run_def)


lemmas fenced_settle_defs =
  FencedQueue_Checkpoint_def FencedQueue_Complete_def FencedQueue_Reschedule_def
  FencedQueue_Fail_def FencedQueue_Defer_def FencedQueue_Cancel_def

section \<open>The helper loops\<close>

lemma after_generations_bounds:
  "now \<le> after_generations key now js \<and>
   (\<forall>j\<in>set js. j_LogicalKey j = key \<longrightarrow> j_CreatedAt j < after_generations key now js) \<and>
   (after_generations key now js = now \<or>
    (\<exists>j\<in>set js. j_LogicalKey j = key \<and> after_generations key now js = j_CreatedAt j + 1))"
proof (induction js arbitrary: now)
  case (Cons j js)
  define t where "t = (if j_LogicalKey j = key \<and> \<not> now > j_CreatedAt j then j_CreatedAt j + 1 else now)"
  have "now \<le> t" "j_LogicalKey j = key \<longrightarrow> j_CreatedAt j < t"
    "t = now \<or> j_LogicalKey j = key \<and> t = j_CreatedAt j + 1"
    by (auto simp: t_def)
  with Cons.IH [of t] show ?case
    by (auto simp flip: t_def)
qed simp

lemma after_generations_set:
  assumes "set js = set js'"
  shows "after_generations key now js = after_generations key now js'"
  using after_generations_bounds [of now key js] after_generations_bounds [of now key js'] assms
  by (force simp: not_less_iff_gr_or_eq)

lemma activeByKey_Some:
  "activeByKey key js = Some j \<Longrightarrow> j \<in> set js \<and> j_LogicalKey j = key \<and> \<not> job_Terminal j"
  by (induction js) (auto split: if_splits)

lemma activeByKey_None:
  "activeByKey key js = None \<longleftrightarrow> (\<forall>j\<in>set js. j_LogicalKey j = key \<longrightarrow> job_Terminal j)"
  by (induction js) auto

lemma supersede_facts [simp]:
  "j_JobID (supersede key now j) = j_JobID j"
  "j_LogicalKey (supersede key now j) = j_LogicalKey j"
  "j_CreatedAt (supersede key now j) = j_CreatedAt j"
  "j_Kind (supersede key now j) = j_Kind j"
  "j_Retries (supersede key now j) = j_Retries j"
  by (simp_all add: supersede_def)

lemma supersede_terminal:
  "j_LogicalKey j = key \<Longrightarrow> job_Terminal (supersede key now j)"
  "job_Terminal j \<Longrightarrow> supersede key now j = j"
  "j_LogicalKey j \<noteq> key \<Longrightarrow> supersede key now j = j"
  by (simp_all add: supersede_def)

lemma map_get_map_vals: "map_get (map (map_prod id f) m) k = map_option f (map_get m k)"
  by (induction m) auto

lemma map_ok_map_vals: "map_ok (map (map_prod id f) m) = map_ok m"
  by (simp add: comp_def)

section \<open>Selection\<close>

definition fenced_claimable :: "string list \<Rightarrow> time \<Rightarrow> fenced_queue \<Rightarrow> job \<Rightarrow> bool" where
  "fenced_claimable kinds now q j \<longleftrightarrow>
     map_get (fq_jobs q) (j_JobID j) = Some j \<and> fencedDue j now \<and> kindAllowed kinds (j_Kind j)"

definition fenced_choice :: "string list \<Rightarrow> time \<Rightarrow> fenced_queue \<Rightarrow> job \<Rightarrow> bool" where
  "fenced_choice kinds now q b \<longleftrightarrow>
     fenced_claimable kinds now q b \<and>
     (\<forall>x. fenced_claimable kinds now q x \<longrightarrow> x \<noteq> b \<longrightarrow> claimBefore b x)"

definition leased_job :: "time \<Rightarrow> string \<Rightarrow> duration \<Rightarrow> job \<Rightarrow> job" where
  "leased_job now leaseID leaseFor j =
     j\<lparr>j_JobStatus := StatusRunning, j_LeaseID := leaseID, j_LeasedUntil := now + leaseFor,
       j_ClaimedAt := Some now, j_Retries := j_Retries j + 1, j_UpdatedAt := now\<rparr>"

lemma fenced_filter:
  fixes P :: "job \<Rightarrow> bool"
  assumes "gm.keyed j_JobID m"
  shows "distinct (map j_JobID (filter P (map_vals m)))"
    and "set (filter P (map_vals m)) = {j. map_get m (j_JobID j) = Some j \<and> P j}"
proof -
  show "distinct (map j_JobID (filter P (map_vals m)))"
    using keyed_distinct_idents [OF assms(1)] by (rule distinct_map_filter)
  show "set (filter P (map_vals m)) = {j. map_get m (j_JobID j) = Some j \<and> P j}"
    using keyed_val_iff [OF assms(1)] by auto
qed

lemma FencedQueue_Claim_cases [consumes 1, case_names none some]:
  assumes "gm.keyed j_JobID (fq_jobs q)"
  obtains "FencedQueue_Claim now l d kinds q = (Inl ErrNoWork, q)"
    "\<forall>x. \<not> fenced_claimable kinds now q x"
  | b where "fenced_choice kinds now q b"
      "FencedQueue_Claim now l d kinds q =
         (Inr (leased_job now l d b),
          q\<lparr>fq_jobs := map_put (j_JobID b) (leased_job now l d b) (fq_jobs q)\<rparr>)"
proof -
  define cs where "cs = filter (\<lambda>j. fencedDue j now \<and> kindAllowed kinds (j_Kind j)) (map_vals (fq_jobs q))"
  have cs: "distinct (map j_JobID cs)" "set cs = {j. fenced_claimable kinds now q j}"
    unfolding cs_def fenced_filter(2) [OF assms] fenced_claimable_def
    by (rule fenced_filter(1) [OF assms]) simp
  show thesis
  proof (cases "pick_best claimBefore None cs")
    case None
    then have "\<forall>x. \<not> fenced_claimable kinds now q x"
      using cs(2) by auto
    with that(1) None show thesis by (simp add: FencedQueue_Claim_def flip: cs_def)
  next
    case (Some b)
    then have "fenced_choice kinds now q b"
      using cs claim.pick_best_iff [OF cs(1)] by (auto simp: claim.best_of_def fenced_choice_def)
    with that(2) Some show thesis
      by (simp add: FencedQueue_Claim_def Let_def leased_job_def flip: cs_def)
  qed
qed

section \<open>Invariant\<close>

definition fenced_job_ok :: "job \<Rightarrow> bool" where
  "fenced_job_ok j \<longleftrightarrow>
     j_JobID j \<noteq> [] \<and>
     j_JobStatus j \<in> {StatusPending, StatusRunning, StatusCompleted, StatusDeadLetter,
                      StatusCanceled, StatusSuperseded} \<and>
     (job_Terminal j \<longleftrightarrow> j_TerminalAt j \<noteq> None) \<and>
     (j_JobStatus j = StatusCompleted \<longleftrightarrow> j_CompletedAt j \<noteq> None) \<and>
     (j_JobStatus j = StatusRunning \<longrightarrow> j_ClaimedAt j \<noteq> None \<and> 1 \<le> j_Retries j) \<and>
     (j_JobStatus j = StatusPending \<longrightarrow>
        j_ClaimedAt j = None \<and> j_LeaseID j = [] \<and> j_LeasedUntil j = zero_time) \<and>
     (j_JobStatus j \<in> {StatusCanceled, StatusSuperseded} \<longrightarrow>
        j_LeaseID j = [] \<and> j_LeasedUntil j = zero_time) \<and>
     0 \<le> j_Retries j"

text \<open>
  Generations of one logical key have different creation times, and an active generation is the
  latest of its key; so a key has at most one active generation.
\<close>

definition generations_ok :: "(string, job) go_map \<Rightarrow> bool" where
  "generations_ok m \<longleftrightarrow>
     (\<forall>k l a b. map_get m k = Some a \<longrightarrow> map_get m l = Some b \<longrightarrow> k \<noteq> l \<longrightarrow>
        j_LogicalKey a = j_LogicalKey b \<longrightarrow> j_LogicalKey a \<noteq> [] \<longrightarrow>
        j_CreatedAt a \<noteq> j_CreatedAt b \<and> (\<not> job_Terminal b \<longrightarrow> j_CreatedAt a < j_CreatedAt b))"

definition fenced_inv :: "fenced_queue \<Rightarrow> bool" where
  "fenced_inv q \<longleftrightarrow>
     gm.keyed j_JobID (fq_jobs q) \<and>
     (\<forall>k j. map_get (fq_jobs q) k = Some j \<longrightarrow> fenced_job_ok j) \<and>
     generations_ok (fq_jobs q)"

text \<open>What a transition of a stored job keeps: its identity, and a terminal state.\<close>

definition evolves :: "job \<Rightarrow> job \<Rightarrow> bool" where
  "evolves j j' \<longleftrightarrow>
     j_JobID j' = j_JobID j \<and> j_LogicalKey j' = j_LogicalKey j \<and> j_CreatedAt j' = j_CreatedAt j \<and>
     j_Kind j' = j_Kind j \<and> (job_Terminal j \<longrightarrow> j' = j)"

lemma evolves_refl [simp]: "evolves j j"
  by (simp add: evolves_def)

lemma fenced_inv_keyed: "fenced_inv q \<Longrightarrow> gm.keyed j_JobID (fq_jobs q)"
  by (simp add: fenced_inv_def)

lemma fenced_inv_get:
  "fenced_inv q \<Longrightarrow> map_get (fq_jobs q) k = Some j \<Longrightarrow> fenced_job_ok j \<and> j_JobID j = k"
  by (auto simp: fenced_inv_def dest: gm.keyed_get)

lemma generations_okD:
  "generations_ok m \<Longrightarrow> map_get m k = Some a \<Longrightarrow> map_get m l = Some b \<Longrightarrow> k \<noteq> l \<Longrightarrow>
   j_LogicalKey a = j_LogicalKey b \<Longrightarrow> j_LogicalKey a \<noteq> [] \<Longrightarrow>
   j_CreatedAt a \<noteq> j_CreatedAt b \<and> (\<not> job_Terminal b \<longrightarrow> j_CreatedAt a < j_CreatedAt b)"
  unfolding generations_ok_def by blast

lemma generations_okI:
  "(\<And>k l a b. map_get m k = Some a \<Longrightarrow> map_get m l = Some b \<Longrightarrow> k \<noteq> l \<Longrightarrow>
     j_LogicalKey a = j_LogicalKey b \<Longrightarrow> j_LogicalKey a \<noteq> [] \<Longrightarrow>
     j_CreatedAt a \<noteq> j_CreatedAt b \<and> (\<not> job_Terminal b \<longrightarrow> j_CreatedAt a < j_CreatedAt b)) \<Longrightarrow>
   generations_ok m"
  unfolding generations_ok_def by blast

lemma fenced_inv_modify:
  assumes inv: "fenced_inv q" and get: "map_get (fq_jobs q) k = Some j"
    and ev: "fenced_job_ok j \<Longrightarrow> evolves j j' \<and> fenced_job_ok j'"
  shows "fenced_inv (q\<lparr>fq_jobs := map_put k j' (fq_jobs q)\<rparr>)"
proof -
  have j: "fenced_job_ok j" "j_JobID j = k" and e: "evolves j j'" "fenced_job_ok j'"
    using fenced_inv_get [OF inv get] ev by auto
  have gens: "generations_ok (fq_jobs q)"
    using inv by (simp add: fenced_inv_def)
  have "generations_ok (map_put k j' (fq_jobs q))"
    unfolding generations_ok_def
    using e(1) generations_okD [OF gens get] generations_okD [OF gens _ get]
      generations_okD [OF gens]
    by (auto simp: evolves_def)
  then show ?thesis
    using inv e j by (auto simp: fenced_inv_def evolves_def intro: gm.keyed_put)
qed


lemma fenced_inv_insert:
  assumes inv: "fenced_inv q" and new: "map_get (fq_jobs q) k = None"
    and ok: "fenced_job_ok j" "j_JobID j = k"
    and later: "\<And>l a. map_get (fq_jobs q) l = Some a \<Longrightarrow> j_LogicalKey a = j_LogicalKey j \<Longrightarrow>
      j_LogicalKey j \<noteq> [] \<Longrightarrow> job_Terminal a \<and> j_CreatedAt a < j_CreatedAt j"
  shows "fenced_inv (q\<lparr>fq_jobs := map_put k j (fq_jobs q)\<rparr>)"
proof -
  have gens: "generations_ok (fq_jobs q)"
    using inv by (simp add: fenced_inv_def)
  have "generations_ok (map_put k j (fq_jobs q))"
  proof (rule generations_okI)
    fix l m a b
    assume *: "map_get (map_put k j (fq_jobs q)) l = Some a" "map_get (map_put k j (fq_jobs q)) m = Some b"
      "l \<noteq> m" "j_LogicalKey a = j_LogicalKey b" "j_LogicalKey a \<noteq> []"
    show "j_CreatedAt a \<noteq> j_CreatedAt b \<and> (\<not> job_Terminal b \<longrightarrow> j_CreatedAt a < j_CreatedAt b)"
    proof (cases "l = k \<or> m = k")
      case True
      with * later [of m b] later [of l a] show ?thesis by (auto split: if_splits)
    next
      case False
      with * generations_okD [OF gens, of l a m b] show ?thesis by simp
    qed
  qed
  then show ?thesis
    using inv ok by (auto simp: fenced_inv_def intro: gm.keyed_put)
qed

lemma FencedQueue_insert_inv:
  assumes "fenced_inv q"
    and "e_LogicalKey inp \<noteq> [] \<Longrightarrow>
      (\<And>l a. map_get (fq_jobs q) l = Some a \<Longrightarrow> j_LogicalKey a = e_LogicalKey inp \<Longrightarrow> job_Terminal a)"
  shows "fenced_inv (snd (FencedQueue_insert clock inp q))"
proof -
  have "j_CreatedAt a < after_generations (e_LogicalKey inp) clock (map_vals (fq_jobs q))"
    if "map_get (fq_jobs q) l = Some a" "j_LogicalKey a = e_LogicalKey inp" for l a
    using that after_generations_bounds [of clock "e_LogicalKey inp" "map_vals (fq_jobs q)"]
    by (force dest: map_of_SomeD)
  then show ?thesis
    using assms
    by (auto simp: FencedQueue_insert_def Let_def fenced_job_ok_def intro!: fenced_inv_insert)
qed

lemma fenced_inv_supersede:
  assumes "fenced_inv q"
  shows "fenced_inv (q\<lparr>fq_jobs := map (map_prod id (supersede key now)) (fq_jobs q)\<rparr>)"
proof -
  have "fenced_job_ok (supersede key now j)" if "fenced_job_ok j" for j
    using that by (auto simp: supersede_def fenced_job_ok_def)
  moreover have gens: "generations_ok (fq_jobs q)"
    using assms by (simp add: fenced_inv_def)
  have "generations_ok (map (map_prod id (supersede key now)) (fq_jobs q))"
  proof (rule generations_okI, unfold map_get_map_vals)
    fix k l a b
    assume *: "map_option (supersede key now) (map_get (fq_jobs q) k) = Some a"
      "map_option (supersede key now) (map_get (fq_jobs q) l) = Some b"
      "k \<noteq> l" "j_LogicalKey a = j_LogicalKey b" "j_LogicalKey a \<noteq> []"
    then obtain a' b' where get: "map_get (fq_jobs q) k = Some a'" "map_get (fq_jobs q) l = Some b'"
      and ab: "a = supersede key now a'" "b = supersede key now b'"
      by blast
    have "\<not> job_Terminal b \<Longrightarrow> \<not> job_Terminal b'"
      using supersede_terminal(2) [of b' key now] ab by auto
    with * ab generations_okD [OF gens get] show
      "j_CreatedAt a \<noteq> j_CreatedAt b \<and> (\<not> job_Terminal b \<longrightarrow> j_CreatedAt a < j_CreatedAt b)"
      by simp
  qed
  ultimately show ?thesis
    using assms by (auto simp: fenced_inv_def gm.keyed_def map_get_map_vals comp_def)
qed

lemma leased_job_ok:
  assumes "fenced_choice kinds now q b" and "fenced_job_ok b"
  shows "evolves b (leased_job now l d b) \<and> fenced_job_ok (leased_job now l d b)"
proof -
  have "fencedDue b now"
    using assms by (simp add: fenced_choice_def fenced_claimable_def)
  then have "j_JobStatus b = StatusPending \<or> j_JobStatus b = StatusRunning"
    by (cases "j_JobStatus b") (simp_all add: fencedDue_def)
  then show ?thesis
    using assms(2) by (elim disjE) (simp_all add: leased_job_def evolves_def fenced_job_ok_def)
qed

lemma fenced_inv_New: "fenced_inv NewFencedQueue"
  by (simp add: fenced_inv_def NewFencedQueue_def generations_ok_def)

lemma fenced_inv_purge:
  assumes "fenced_inv q"
  shows "fenced_inv (q\<lparr>fq_jobs := fold (\<lambda>j m. map_del (j_JobID j) m) js (fq_jobs q)\<rparr>)"
proof -
  have "generations_ok (fq_jobs q)"
    using assms by (simp add: fenced_inv_def)
  then have "generations_ok (fold (\<lambda>j m. map_del (j_JobID j) m) js (fq_jobs q))"
    unfolding generations_ok_def map_get_fold_del by (auto split: if_splits)
  then show ?thesis
    using assms by (auto simp: fenced_inv_def map_get_fold_del keyed_fold_del split: if_splits)
qed

lemma fenced_step_inv:
  assumes inv: "fenced_inv q"
  shows "fenced_inv (fenced_step op q)"
proof (cases op)
  case (FEnqueueOnce c inp)
  have "job_Terminal a" if "activeByKey (e_LogicalKey inp) (map_vals (fq_jobs q)) = None"
    "map_get (fq_jobs q) l = Some a" "j_LogicalKey a = e_LogicalKey inp" for l a
    using that by (force simp: activeByKey_None dest: map_of_SomeD)
  with FEnqueueOnce inv show ?thesis
    by (auto simp: FencedQueue_EnqueueOnce_def intro: FencedQueue_insert_inv split: option.splits)
next
  case (FReplace c1 c2 inp)
  let ?q = "q\<lparr>fq_jobs := map (map_prod id (supersede (e_LogicalKey inp) c1)) (fq_jobs q)\<rparr>"
  have "fenced_inv (snd (FencedQueue_insert c2 inp ?q))"
    by (rule FencedQueue_insert_inv [OF fenced_inv_supersede [OF inv]])
      (auto simp: map_get_map_vals intro: supersede_terminal)
  with FReplace inv show ?thesis
    by (auto simp: FencedQueue_Replace_def Let_def intro: FencedQueue_insert_inv)
next
  case (FClaim now l d kinds)
  from fenced_inv_keyed [OF inv] show ?thesis
  proof (cases rule: FencedQueue_Claim_cases [where now = now and l = l and d = d and kinds = kinds])
    case (some b)
    then have "map_get (fq_jobs q) (j_JobID b) = Some b"
      by (simp add: fenced_choice_def fenced_claimable_def)
    from fenced_inv_modify [OF inv this leased_job_ok [OF some(1)]] some(2) FClaim show ?thesis
      by simp
  qed (use FClaim inv in simp)
next
  case (FPurgeTerminal b n)
  with inv show ?thesis
    by (simp add: FencedQueue_PurgeTerminal_def Let_def fenced_inv_purge)
qed (use inv in \<open>auto simp: fenced_settle_defs heldBy_def evolves_def fenced_job_ok_def
      split: option.splits intro!: fenced_inv_modify\<close>)

lemma fenced_run_inv: "fenced_inv q \<Longrightarrow> fenced_inv (fenced_run ops q)"
  by (induction ops arbitrary: q) (auto intro: fenced_step_inv)

end
