(* ===== verification/Fenced_Lease.thy ===== *)
theory Fenced_Lease
  imports Fenced_Queue
begin

text \<open>
  What the lease-fenced queue promises, over every history of calls.  The lifecycle of one job is
  stated first as an abstract state machine (\<open>phase_step\<close>: absent, waiting, held under a lease,
  done), which the store refines for every job at every step.  The fence, the finality of
  terminal states and the accounting of attempts are then arguments about that machine; the
  exclusivity of a live lease and the contract of logical keys are proved on the store itself.
\<close>

section \<open>The lifecycle of one job\<close>

definition job_phase :: "job option \<Rightarrow> phase" where
  "job_phase x =
     (case x of
        None \<Rightarrow> Absent
      | Some j \<Rightarrow>
          if job_Terminal j then Done (j_JobStatus j) (j_LeaseID j) (j_Retries j)
          else if j_JobStatus j = StatusRunning then Held (j_LeaseID j) (j_LeasedUntil j) (j_Retries j)
          else Waiting (j_ScheduledFor j) (j_Retries j))"

abbreviation phase_of :: "string \<Rightarrow> fenced_queue \<Rightarrow> phase" where
  "phase_of jid q \<equiv> job_phase (map_get (fq_jobs q) jid)"

inductive phase_step :: "string \<Rightarrow> fenced_op \<Rightarrow> phase \<Rightarrow> phase \<Rightarrow> bool" for jid where
  enqueued: "e_ID inp = jid \<Longrightarrow>
    phase_step jid (FEnqueueOnce c inp) Absent (Waiting (e_ScheduledFor inp) 0)"
| replacing: "e_ID inp = jid \<Longrightarrow>
    phase_step jid (FReplace c1 c2 inp) Absent (Waiting (e_ScheduledFor inp) 0)"
| superseded_waiting: "e_ID inp \<noteq> jid \<Longrightarrow> e_LogicalKey inp \<noteq> [] \<Longrightarrow>
    phase_step jid (FReplace c1 c2 inp) (Waiting at n) (Done StatusSuperseded [] n)"
| superseded_held: "e_ID inp \<noteq> jid \<Longrightarrow> e_LogicalKey inp \<noteq> [] \<Longrightarrow>
    phase_step jid (FReplace c1 c2 inp) (Held l u n) (Done StatusSuperseded [] n)"
| claimed: "at \<le> now \<Longrightarrow>
    phase_step jid (FClaim now l d kinds) (Waiting at n) (Held l (now + d) (n + 1))"
| reclaimed: "u \<le> now \<Longrightarrow>
    phase_step jid (FClaim now l d kinds) (Held l' u n) (Held l (now + d) (n + 1))"
| completed: "now < u \<Longrightarrow>
    phase_step jid (FComplete jid l now) (Held l u n) (Done StatusCompleted l n)"
| rescheduled: "now < u \<Longrightarrow>
    phase_step jid (FReschedule jid l at r now) (Held l u n) (Waiting at n)"
| deadlettered: "now < u \<Longrightarrow>
    phase_step jid (FFail jid l r now) (Held l u n) (Done StatusDeadLetter l n)"
| deferred: "now < u \<Longrightarrow> now < at \<Longrightarrow>
    phase_step jid (FDefer jid l at r now) (Held l u n) (Waiting at (n - 1))"
| canceled_waiting: "phase_step jid (FCancel jid now) (Waiting at n) (Done StatusCanceled [] n)"
| canceled_held: "phase_step jid (FCancel jid now) (Held l u n) (Done StatusCanceled [] n)"
| purged: "phase_step jid (FPurgeTerminal bound limit) (Done s l n) Absent"

inductive_cases phase_step_DoneE: "phase_step jid op (Done s l n) p"

lemma job_phase_put:
  "job_phase (map_get (map_put k j m) jid) = (if jid = k then job_phase (Some j) else job_phase (map_get m jid))"
  by simp

definition demo_keyed :: "string \<Rightarrow> string \<Rightarrow> enqueue" where
  "demo_keyed jid key = (demo_enqueue jid 0)\<lparr>e_LogicalKey := key\<rparr>"

definition demo_fenced :: fenced_queue where
  "demo_fenced = fenced_run [FEnqueueOnce 10 (demo_keyed ''a'' ''k'')] NewFencedQueue"

lemma demo_fenced_inv: "fenced_inv demo_fenced"
  unfolding demo_fenced_def by (intro fenced_run_inv fenced_inv_New)

text \<open>A history of calls moves a job along the edges of the machine; a call may leave it alone.\<close>

inductive phase_path :: "string \<Rightarrow> fenced_op list \<Rightarrow> phase \<Rightarrow> phase \<Rightarrow> bool" for jid where
  finished: "phase_path jid [] p p"
| stutter: "phase_path jid ops p p' \<Longrightarrow> phase_path jid (op # ops) p p'"
| moved: "phase_step jid op p p1 \<Longrightarrow> phase_path jid ops p1 p' \<Longrightarrow> phase_path jid (op # ops) p p'"

lemma FencedQueue_insert_phase:
  "phase_of jid (snd (FencedQueue_insert clock inp q)) = phase_of jid q \<or>
   phase_of jid q = Absent \<and> e_ID inp = jid \<and>
   phase_of jid (snd (FencedQueue_insert clock inp q)) = Waiting (e_ScheduledFor inp) 0"
  by (auto simp: FencedQueue_insert_def Let_def job_phase_def)

lemma FencedQueue_Claim_phase:
  assumes "fenced_inv q"
  shows "phase_of jid (snd (FencedQueue_Claim now l d kinds q)) = phase_of jid q \<or>
    phase_step jid (FClaim now l d kinds) (phase_of jid q)
      (phase_of jid (snd (FencedQueue_Claim now l d kinds q)))"
  using fenced_inv_keyed [OF assms]
proof (cases rule: FencedQueue_Claim_cases [where now = now and l = l and d = d and kinds = kinds])
  case (some b)
  then have get: "map_get (fq_jobs q) (j_JobID b) = Some b" and due: "fencedDue b now"
    by (simp_all add: fenced_choice_def fenced_claimable_def)
  from due have "j_JobStatus b = StatusPending \<and> j_ScheduledFor b \<le> now \<or>
      j_JobStatus b = StatusRunning \<and> j_LeasedUntil b \<le> now"
    by (cases "j_JobStatus b") (simp_all add: fencedDue_def)
  with get some(2) show ?thesis
    by (auto simp: job_phase_def leased_job_def intro: claimed reclaimed)
qed simp

lemma FencedQueue_Replace_phase:
  assumes "fenced_inv q"
  shows "phase_of jid (snd (FencedQueue_Replace c1 c2 inp q)) = phase_of jid q \<or>
    phase_step jid (FReplace c1 c2 inp) (phase_of jid q)
      (phase_of jid (snd (FencedQueue_Replace c1 c2 inp q)))"
proof (cases "e_ID inp = [] \<or> map_get (fq_jobs q) (e_ID inp) \<noteq> None")
  case True
  then show ?thesis by (auto simp: FencedQueue_Replace_def)
next
  case fresh: False
  define q' where "q' = (if e_LogicalKey inp \<noteq> []
      then q\<lparr>fq_jobs := map (map_prod id (supersede (e_LogicalKey inp) c1)) (fq_jobs q)\<rparr> else q)"
  have res: "FencedQueue_Replace c1 c2 inp q = FencedQueue_insert c2 inp q'"
    using fresh by (simp add: FencedQueue_Replace_def q'_def Let_def)
  show ?thesis
  proof (cases "e_ID inp = jid")
    case True
    then have "phase_of jid q' = Absent" "phase_of jid q = Absent"
      using fresh by (simp_all add: q'_def job_phase_def map_get_map_vals)
    with True show ?thesis
      using FencedQueue_insert_phase [where jid = jid and clock = c2 and inp = inp and q = q'] by (auto simp: res intro: replacing)
  next
    case False
    then have p: "phase_of jid (snd (FencedQueue_insert c2 inp q')) = phase_of jid q'"
      using FencedQueue_insert_phase [where jid = jid and clock = c2 and inp = inp and q = q'] by auto
    show ?thesis
    proof (cases "map_get (fq_jobs q) jid")
      case None
      then show ?thesis unfolding res p by (simp add: q'_def map_get_map_vals)
    next
      case (Some j)
      with False show ?thesis
        unfolding res p
        by (auto simp: q'_def map_get_map_vals job_phase_def supersede_def
            intro: superseded_waiting superseded_held)
    qed
  qed
qed

lemma FencedQueue_PurgeTerminal_get:
  assumes "fenced_inv q"
  shows "map_get (fq_jobs (snd (FencedQueue_PurgeTerminal bound limit q))) jid = map_get (fq_jobs q) jid \<or>
    (\<exists>j. map_get (fq_jobs q) jid = Some j \<and> job_Terminal j) \<and>
    map_get (fq_jobs (snd (FencedQueue_PurgeTerminal bound limit q))) jid = None"
proof -
  let ?cs = "filter (fenced_purge_candidate bound) (map_vals (fq_jobs q))"
  have cand: "\<exists>j. map_get (fq_jobs q) jid = Some j \<and> job_Terminal j"
    if "jid \<in> j_JobID ` set ?cs"
    using that keyed_val_iff [OF fenced_inv_keyed [OF assms]]
    by (auto simp: fenced_purge_candidate_def)
  moreover have "jid \<in> j_JobID ` set (take n (sort_slice fencedPurgeBefore ?cs)) \<Longrightarrow>
      jid \<in> j_JobID ` set ?cs" for n
    by (auto dest!: in_set_takeD)
  ultimately show ?thesis
    by (auto simp: FencedQueue_PurgeTerminal_def Let_def map_get_fold_del)
qed

lemma fenced_step_phase:
  assumes inv: "fenced_inv q"
  shows "phase_of jid (fenced_step op q) = phase_of jid q \<or>
    phase_step jid op (phase_of jid q) (phase_of jid (fenced_step op q))"
proof (cases op)
  case (FEnqueueOnce c inp)
  with FencedQueue_insert_phase [where jid = jid and clock = c and inp = inp and q = q] show ?thesis
    by (auto simp: FencedQueue_EnqueueOnce_def intro: enqueued split: option.splits)
next
  case (FPurgeTerminal b n)
  with FencedQueue_PurgeTerminal_get [OF inv, of b n jid] show ?thesis
    by (auto simp: job_phase_def intro: purged)
qed (use inv FencedQueue_Claim_phase FencedQueue_Replace_phase in
    \<open>auto simp: fenced_settle_defs heldBy_def job_phase_def
      intro: completed rescheduled deadlettered deferred canceled_waiting canceled_held
      split: option.splits\<close>)


lemma fenced_run_path:
  "fenced_inv q \<Longrightarrow> phase_path jid ops (phase_of jid q) (phase_of jid (fenced_run ops q))"
proof (induction ops arbitrary: q)
  case (Cons op ops)
  have path: "phase_path jid ops (phase_of jid (fenced_step op q)) (phase_of jid (fenced_run (op # ops) q))"
    using Cons by (simp add: fenced_step_inv)
  from fenced_step_phase [OF Cons.prems, where jid = jid and op = op] show ?case
  proof
    assume "phase_of jid (fenced_step op q) = phase_of jid q"
    with path show ?thesis by (metis phase_path.stutter)
  qed (rule phase_path.moved [OF _ path])
qed (simp add: phase_path.finished)

text \<open>
  Property C1.  The store implements the lifecycle: over any history of calls, the phase of every
  job identifier follows the edges of the state machine, each call taking at most one edge, an
  edge labelled by that call.
\<close>

theorem fenced_refines_lifecycle:
  assumes "fenced_inv q"
  shows "phase_path jid ops (phase_of jid q) (phase_of jid (fenced_run ops q))"
  by (rule fenced_run_path [OF assms])

theorem fenced_refines_lifecycle_witness:
  "let ops = [FClaim 20 ''L1'' 100 [], FDefer ''a'' ''L1'' 90 ''later'' 30] in
   phase_path ''a'' ops (Waiting 5 0) (Waiting 90 0) \<and>
   phase_of ''a'' (fenced_run ops demo_fenced) = Waiting 90 0"
proof -
  let ?ops = "[FClaim 20 ''L1'' 100 [], FDefer ''a'' ''L1'' 90 ''later'' 30]"
  have "phase_of ''a'' demo_fenced = Waiting 5 0" "phase_of ''a'' (fenced_run ?ops demo_fenced) = Waiting 90 0"
    by code_simp+
  then show ?thesis
    using fenced_refines_lifecycle [OF demo_fenced_inv, of "''a''" ?ops] by (simp add: Let_def)
qed

section \<open>The fence\<close>

text \<open>A lease is lost on a job when the job is neither held under it nor was settled under it.\<close>

definition lost :: "string \<Rightarrow> phase \<Rightarrow> bool" where
  "lost l p =
     (case p of
        Held l' u n \<Rightarrow> l' \<noteq> l
      | Done s l' n \<Rightarrow> l' \<noteq> l \<or> s \<in> {StatusCanceled, StatusSuperseded}
      | _ \<Rightarrow> True)"

fun claims_as :: "string \<Rightarrow> fenced_op \<Rightarrow> bool" where
  "claims_as l (FClaim now l' d kinds) = (l' = l)"
| "claims_as l _ = False"

text \<open>The five lease-scoped mutations, called with lease \<open>l\<close> on job \<open>jid\<close>.\<close>

fun mutates_as :: "string \<Rightarrow> string \<Rightarrow> fenced_op \<Rightarrow> bool" where
  "mutates_as jid l (FCheckpoint i l' p now) = (i = jid \<and> l' = l)"
| "mutates_as jid l (FComplete i l' now) = (i = jid \<and> l' = l)"
| "mutates_as jid l (FReschedule i l' at r now) = (i = jid \<and> l' = l)"
| "mutates_as jid l (FFail i l' r now) = (i = jid \<and> l' = l)"
| "mutates_as jid l (FDefer i l' at r now) = (i = jid \<and> l' = l)"
| "mutates_as jid l _ = False"

lemma lost_step:
  "phase_step jid op p p' \<Longrightarrow> lost l p \<Longrightarrow> \<not> claims_as l op \<Longrightarrow> lost l p'"
  by (induction rule: phase_step.induct) (auto simp: lost_def)

lemma lost_path:
  "phase_path jid ops p p' \<Longrightarrow> lost l p \<Longrightarrow> \<forall>op\<in>set ops. \<not> claims_as l op \<Longrightarrow> lost l p'"
  by (induction rule: phase_path.induct) (auto dest: lost_step)

lemma lost_mutation:
  assumes "lost l (phase_of jid q)" and "mutates_as jid l op"
  shows "\<exists>e\<in>{ErrConflict, ErrNotFound, ErrInvalidInput}. fenced_exec op q = (OutErr (Some e), q)"
proof (cases "map_get (fq_jobs q) jid")
  case None
  with assms(2) show ?thesis by (cases op) (auto simp: fenced_settle_defs)
next
  case (Some j)
  with assms(1) have "\<not> heldBy j l now" "j_JobStatus j = StatusCompleted \<Longrightarrow> j_LeaseID j \<noteq> l"
    "j_JobStatus j = StatusDeadLetter \<Longrightarrow> j_LeaseID j \<noteq> l" for now
    by (auto simp: lost_def job_phase_def heldBy_def)
  with Some assms(2) show ?thesis by (cases op) (auto simp: fenced_settle_defs)
qed

text \<open>
  Property C4.  The fence is permanent.  Once a job is no longer held under a lease (it was
  rescheduled, deferred, canceled, superseded, or reclaimed by another worker), then after any
  further history in which nobody claims with that lease token again, each of the five
  lease-scoped mutations called with that token is refused and changes nothing.
\<close>

theorem fence_permanent:
  assumes "fenced_inv q" and "lost l (phase_of jid q)" and "\<forall>op\<in>set ops. \<not> claims_as l op"
    and "mutates_as jid l op"
  shows "\<exists>e\<in>{ErrConflict, ErrNotFound, ErrInvalidInput}.
    fenced_exec op (fenced_run ops q) = (OutErr (Some e), fenced_run ops q)"
  using lost_mutation [OF lost_path [OF fenced_run_path [OF assms(1)] assms(2,3)] assms(4)] .

theorem fence_permanent_witness:
  "let q = fenced_run [FClaim 20 ''L1'' 100 [], FClaim 120 ''L2'' 100 []] demo_fenced;
       ops = [FComplete ''a'' ''L2'' 130]
   in phase_of ''a'' q = Held ''L2'' 220 2 \<and>
      (\<exists>e\<in>{ErrConflict, ErrNotFound, ErrInvalidInput}.
        fenced_exec (FFail ''a'' ''L1'' ''boom'' 110) (fenced_run ops q) =
          (OutErr (Some e), fenced_run ops q))"
proof -
  let ?q = "fenced_run [FClaim 20 ''L1'' 100 [], FClaim 120 ''L2'' 100 []] demo_fenced"
  have held: "phase_of ''a'' ?q = Held ''L2'' 220 2" by code_simp
  have inv: "fenced_inv ?q" by (intro fenced_run_inv demo_fenced_inv)
  from held have "lost ''L1'' (phase_of ''a'' ?q)" by (simp add: lost_def)
  from fence_permanent [OF inv this, of "[FComplete ''a'' ''L2'' 130]" "FFail ''a'' ''L1'' ''boom'' 110"]
  show ?thesis using held by (simp add: Let_def)
qed

fun is_purge :: "fenced_op \<Rightarrow> bool" where
  "is_purge (FPurgeTerminal b n) = True"
| "is_purge _ = False"

lemma fenced_step_get:
  assumes inv: "fenced_inv q" and get: "map_get (fq_jobs q) jid = Some j" and "\<not> is_purge op"
  shows "\<exists>j'. map_get (fq_jobs (fenced_step op q)) jid = Some j' \<and> evolves j j'"
proof (cases op)
  case (FEnqueueOnce c inp)
  with get show ?thesis
    by (auto simp: FencedQueue_EnqueueOnce_def FencedQueue_insert_def Let_def split: option.splits)
next
  case (FReplace c1 c2 inp)
  have "evolves j (supersede key now j)" for key now
    by (simp add: evolves_def supersede_def)
  with FReplace get show ?thesis
    by (auto simp: FencedQueue_Replace_def FencedQueue_insert_def Let_def map_get_map_vals)
next
  case (FClaim now l d kinds)
  from fenced_inv_keyed [OF inv] show ?thesis
  proof (cases rule: FencedQueue_Claim_cases [where now = now and l = l and d = d and kinds = kinds])
    case (some b)
    then have b: "map_get (fq_jobs q) (j_JobID b) = Some b"
      by (simp add: fenced_choice_def fenced_claimable_def)
    have "evolves b (leased_job now l d b)"
      using leased_job_ok [OF some(1)] fenced_inv_get [OF inv b] by simp
    with FClaim some b get show ?thesis by auto
  qed (use FClaim get in simp)
qed (use get assms(3) in \<open>auto simp: fenced_settle_defs evolves_def heldBy_def split: option.splits\<close>)

lemma fenced_run_evolves:
  assumes "fenced_inv q" and "map_get (fq_jobs q) jid = Some j" and "\<forall>op\<in>set ops. \<not> is_purge op"
  shows "\<exists>j'. map_get (fq_jobs (fenced_run ops q)) jid = Some j' \<and> evolves j j'"
  using assms
proof (induction ops arbitrary: q j)
  case (Cons op ops)
  obtain j1 where j1: "map_get (fq_jobs (fenced_step op q)) jid = Some j1" "evolves j j1"
    using fenced_step_get [OF Cons.prems(1,2), of op] Cons.prems(3) by auto
  obtain j2 where "map_get (fq_jobs (fenced_run ops (fenced_step op q))) jid = Some j2" "evolves j1 j2"
    using Cons.IH [OF fenced_step_inv [OF Cons.prems(1)] j1(1)] Cons.prems(3) by auto
  with j1(2) show ?case by (auto simp: evolves_def)
qed simp

text \<open>
  A terminal state is final: whatever is called later, short of a purge, the job
  stays exactly as it was settled.
\<close>

theorem terminal_final:
  assumes "fenced_inv q" and "map_get (fq_jobs q) jid = Some j" and "job_Terminal j"
    and "\<forall>op\<in>set ops. \<not> is_purge op"
  shows "map_get (fq_jobs (fenced_run ops q)) jid = Some j"
  using fenced_run_evolves [OF assms(1,2,4)] assms(3) by (auto simp: evolves_def)

theorem terminal_final_witness:
  "let q = fenced_run [FClaim 20 ''L1'' 100 [], FComplete ''a'' ''L1'' 30] demo_fenced;
       ops = [FClaim 500 ''L2'' 100 [], FCancel ''a'' 40, FReplace 50 50 (demo_keyed ''c'' ''k'')]
   in map_get (fq_jobs (fenced_run ops q)) ''a'' = Some (the (map_get (fq_jobs q) ''a''))"
proof -
  let ?q = "fenced_run [FClaim 20 ''L1'' 100 [], FComplete ''a'' ''L1'' 30] demo_fenced"
  have "map_get (fq_jobs ?q) ''a'' = Some (the (map_get (fq_jobs ?q) ''a''))"
    and "job_Terminal (the (map_get (fq_jobs ?q) ''a''))"
    by code_simp+
  from terminal_final [OF fenced_run_inv [OF demo_fenced_inv] this,
      of "[FClaim 500 ''L2'' 100 [], FCancel ''a'' 40, FReplace 50 50 (demo_keyed ''c'' ''k'')]"]
  show ?thesis by (simp add: Let_def)
qed

section \<open>Exclusivity of a live lease\<close>

text \<open>
  The calls that do not end the lease of the held job \<open>j\<close>: claims made while the lease is live,
  lease-scoped mutations of other jobs or under other tokens, replacements of other keys,
  cancellations of other jobs, and everything that only reads, adds or purges.
\<close>

fun leaves_lease :: "job \<Rightarrow> fenced_op \<Rightarrow> bool" where
  "leaves_lease j (FClaim now l d kinds) = (now < j_LeasedUntil j)"
| "leaves_lease j (FReplace c1 c2 inp) = (e_LogicalKey inp = [] \<or> e_LogicalKey inp \<noteq> j_LogicalKey j)"
| "leaves_lease j (FCancel i now) = (i \<noteq> j_JobID j)"
| "leaves_lease j op = (\<not> mutates_as (j_JobID j) (j_LeaseID j) op)"

lemma FencedQueue_Claim_not_due:
  assumes "fenced_inv q" and "map_get (fq_jobs q) k = Some j" and "\<not> fencedDue j now"
  shows "map_get (fq_jobs (snd (FencedQueue_Claim now l d kinds q))) k = Some j \<and>
    (\<forall>b. fst (FencedQueue_Claim now l d kinds q) = Inr b \<longrightarrow> j_JobID b \<noteq> k)"
  using fenced_inv_keyed [OF assms(1)]
proof (cases rule: FencedQueue_Claim_cases [where now = now and l = l and d = d and kinds = kinds])
  case (some b)
  then have "j_JobID b \<noteq> k"
    using assms by (auto simp: fenced_choice_def fenced_claimable_def)
  with some assms(2) show ?thesis by (simp add: leased_job_def)
qed (use assms in simp)

lemma fenced_step_leaves_lease:
  assumes inv: "fenced_inv q" and get: "map_get (fq_jobs q) jid = Some j"
    and run: "j_JobStatus j = StatusRunning" and leaves: "leaves_lease j op"
  shows "map_get (fq_jobs (fenced_step op q)) jid = Some j"
proof (cases op)
  case (FEnqueueOnce c inp)
  with get show ?thesis
    by (auto simp: FencedQueue_EnqueueOnce_def FencedQueue_insert_def Let_def split: option.splits)
next
  case (FReplace c1 c2 inp)
  with get leaves show ?thesis
    by (auto simp: FencedQueue_Replace_def FencedQueue_insert_def Let_def map_get_map_vals
        supersede_def)
next
  case (FClaim now l d kinds)
  then have "\<not> fencedDue j now"
    using run leaves by (simp add: fencedDue_def)
  with FClaim FencedQueue_Claim_not_due [OF inv get] show ?thesis by simp
next
  case (FPurgeTerminal b n)
  with FencedQueue_PurgeTerminal_get [OF inv, of b n jid] get run show ?thesis by auto
qed (use get run leaves fenced_inv_get [OF inv get] in
    \<open>auto simp: fenced_settle_defs heldBy_def split: option.splits\<close>)

lemma fenced_run_leaves_lease:
  assumes "fenced_inv q" and "map_get (fq_jobs q) jid = Some j"
    and "j_JobStatus j = StatusRunning" and "\<forall>op\<in>set ops. leaves_lease j op"
  shows "map_get (fq_jobs (fenced_run ops q)) jid = Some j"
  using assms
proof (induction ops arbitrary: q)
  case (Cons op ops)
  then show ?case
    using fenced_step_leaves_lease [OF Cons.prems(1-3), of op]
    by (auto intro!: Cons.IH fenced_step_inv)
qed simp

lemma FencedQueue_Claim_result:
  assumes "fenced_inv q" and "FencedQueue_Claim now l d kinds q = (Inr j, q')"
  shows "map_get (fq_jobs q') (j_JobID j) = Some j" and "j_JobStatus j = StatusRunning"
    and "j_LeaseID j = l" and "j_LeasedUntil j = now + d" and "fenced_inv q'"
    and "kindAllowed kinds (j_Kind j)"
    and "\<exists>b. fenced_choice kinds now q b \<and> j = leased_job now l d b"
proof -
  have "fenced_inv (fenced_step (FClaim now l d kinds) q)"
    by (rule fenced_step_inv [OF assms(1)])
  then show "fenced_inv q'" using assms(2) by simp
  obtain b where b: "fenced_choice kinds now q b" "j = leased_job now l d b"
    "q' = q\<lparr>fq_jobs := map_put (j_JobID b) (leased_job now l d b) (fq_jobs q)\<rparr>"
    using fenced_inv_keyed [OF assms(1)]
    by (cases rule: FencedQueue_Claim_cases [where now = now and l = l and d = d and kinds = kinds])
      (use assms(2) in auto)
  then show "map_get (fq_jobs q') (j_JobID j) = Some j" "j_JobStatus j = StatusRunning"
    "j_LeaseID j = l" "j_LeasedUntil j = now + d" "kindAllowed kinds (j_Kind j)"
    "\<exists>b. fenced_choice kinds now q b \<and> j = leased_job now l d b"
    by (auto simp: leased_job_def fenced_choice_def fenced_claimable_def)
qed

text \<open>
  Property C5.  A live lease is exclusive.  After a claim, whatever the other callers do (claims
  at times before the expiry, mutations under any other token, new jobs, replacements of other
  keys, purges), the claimed job is still exactly as claimed, and its holder can still settle it
  at any time before the expiry.
\<close>

theorem live_lease_exclusive:
  assumes "fenced_inv q" and "FencedQueue_Claim now l d kinds q = (Inr j, q')"
    and "\<forall>op\<in>set ops. leaves_lease j op"
  shows "map_get (fq_jobs (fenced_run ops q')) (j_JobID j) = Some j \<and>
    (t < now + d \<longrightarrow>
      (let (err, q2) = FencedQueue_Complete (j_JobID j) l t (fenced_run ops q')
       in err = None \<and> phase_of (j_JobID j) q2 = Done StatusCompleted l (j_Retries j)))"
proof -
  note c = FencedQueue_Claim_result [OF assms(1,2)]
  have "map_get (fq_jobs (fenced_run ops q')) (j_JobID j) = Some j"
    by (rule fenced_run_leaves_lease [OF c(5,1,2) assms(3)])
  with c(2-4) show ?thesis
    by (simp add: FencedQueue_Complete_def heldBy_def job_phase_def)
qed

theorem live_lease_exclusive_witness:
  "let (r, q') = FencedQueue_Claim 20 ''L1'' 100 [] demo_fenced; j = projr r;
       ops = [FClaim 119 ''L2'' 100 [], FComplete ''a'' ''L2'' 60, FEnqueueOnce 70 (demo_keyed ''b'' [])]
   in map_get (fq_jobs (fenced_run ops q')) (j_JobID j) = Some j \<and>
      fst (FencedQueue_Complete (j_JobID j) ''L1'' 118 (fenced_run ops q')) = None"
proof -
  let ?r = "FencedQueue_Claim 20 ''L1'' 100 [] demo_fenced"
  let ?ops = "[FClaim 119 ''L2'' 100 [], FComplete ''a'' ''L2'' 60, FEnqueueOnce 70 (demo_keyed ''b'' [])]"
  have c: "?r = (Inr (projr (fst ?r)), snd ?r)" by code_simp
  have ops: "\<forall>op\<in>set ?ops. leaves_lease (projr (fst ?r)) op" by code_simp
  show ?thesis
    using live_lease_exclusive [OF demo_fenced_inv c ops, of 118]
    by (simp add: case_prod_beta Let_def)
qed

section \<open>Attempts\<close>

text \<open>
  What a call does to the attempt count of a job, read off its result: a claim that returns the
  job adds one, a deferral of it that succeeds takes one back.
\<close>

fun attempt_delta :: "string \<Rightarrow> fenced_op \<Rightarrow> fenced_out \<Rightarrow> int" where
  "attempt_delta jid (FClaim now l d kinds) (OutJob (Inr j)) = (if j_JobID j = jid then 1 else 0)"
| "attempt_delta jid (FDefer i l at r now) (OutErr None) = (if i = jid then - 1 else 0)"
| "attempt_delta jid op out = 0"

fun attempts_over :: "string \<Rightarrow> fenced_op list \<Rightarrow> fenced_queue \<Rightarrow> int" where
  "attempts_over jid [] q = 0"
| "attempts_over jid (op # ops) q =
     attempt_delta jid op (fst (fenced_exec op q)) + attempts_over jid ops (fenced_step op q)"

lemma fenced_step_retries:
  assumes inv: "fenced_inv q" and get: "map_get (fq_jobs q) jid = Some j" and "\<not> is_purge op"
  shows "\<exists>j'. map_get (fq_jobs (fenced_step op q)) jid = Some j' \<and>
    j_Retries j' = j_Retries j + attempt_delta jid op (fst (fenced_exec op q))"
proof (cases op)
  case (FEnqueueOnce c inp)
  with get show ?thesis
    by (auto simp: FencedQueue_EnqueueOnce_def FencedQueue_insert_def Let_def split: option.splits)
next
  case (FReplace c1 c2 inp)
  with get show ?thesis
    by (auto simp: FencedQueue_Replace_def FencedQueue_insert_def Let_def map_get_map_vals)
next
  case (FClaim now l d kinds)
  from fenced_inv_keyed [OF inv] show ?thesis
  proof (cases rule: FencedQueue_Claim_cases [where now = now and l = l and d = d and kinds = kinds])
    case (some b)
    then have "map_get (fq_jobs q) (j_JobID b) = Some b"
      by (simp add: fenced_choice_def fenced_claimable_def)
    with FClaim some get show ?thesis by (auto simp: leased_job_def)
  qed (use FClaim get in simp)
qed (use get assms(3) in \<open>auto simp: fenced_settle_defs split: option.splits\<close>)

text \<open>
  Property C24.  Attempts are accounted exactly: as long as a job is not purged, its count moves
  by the number of claims that returned it minus the number of deferrals of it that succeeded,
  whatever else happened.  Reschedules, failures, checkpoints, refused calls and lost leases
  change nothing.
\<close>

theorem attempts_accounted:
  assumes "fenced_inv q" and "map_get (fq_jobs q) jid = Some j" and "\<forall>op\<in>set ops. \<not> is_purge op"
  shows "\<exists>j'. map_get (fq_jobs (fenced_run ops q)) jid = Some j' \<and>
    j_Retries j' = j_Retries j + attempts_over jid ops q"
  using assms
proof (induction ops arbitrary: q j)
  case (Cons op ops)
  obtain j1 where j1: "map_get (fq_jobs (fenced_step op q)) jid = Some j1"
    "j_Retries j1 = j_Retries j + attempt_delta jid op (fst (fenced_exec op q))"
    using fenced_step_retries [OF Cons.prems(1,2), of op] Cons.prems(3) by auto
  with Cons.IH [OF fenced_step_inv [OF Cons.prems(1)] j1(1)] Cons.prems(3) show ?case
    by auto
qed simp

theorem attempts_accounted_witness:
  "let ops = [FClaim 20 ''L1'' 100 [], FDefer ''a'' ''L1'' 90 ''busy'' 30, FClaim 95 ''L2'' 100 [],
              FReschedule ''a'' ''L2'' 99 ''boom'' 97, FClaim 99 ''L3'' 100 [], FDefer ''a'' ''L2'' 300 ''late'' 100]
   in (\<exists>j'. map_get (fq_jobs (fenced_run ops demo_fenced)) ''a'' = Some j' \<and>
        j_Retries j' = 0 + attempts_over ''a'' ops demo_fenced) \<and>
      attempts_over ''a'' ops demo_fenced = 2"
proof -
  let ?ops = "[FClaim 20 ''L1'' 100 [], FDefer ''a'' ''L1'' 90 ''busy'' 30, FClaim 95 ''L2'' 100 [],
    FReschedule ''a'' ''L2'' 99 ''boom'' 97, FClaim 99 ''L3'' 100 [], FDefer ''a'' ''L2'' 300 ''late'' 100]"
  have get: "map_get (fq_jobs demo_fenced) ''a'' = Some (the (map_get (fq_jobs demo_fenced) ''a''))"
    and "j_Retries (the (map_get (fq_jobs demo_fenced) ''a'')) = 0"
    and "attempts_over ''a'' ?ops demo_fenced = 2"
    by code_simp+
  with attempts_accounted [OF demo_fenced_inv get, of ?ops] show ?thesis
    by (simp add: Let_def)
qed

end
