(* ===== verification/Fenced_Keys.thy ===== *)
theory Fenced_Keys
  imports Fenced_Lease
begin

text \<open>
  Logical keys of the lease-fenced queue (\<open>EnqueueOnce\<close>, \<open>Replace\<close> and \<open>GetLatestByKey\<close> of
  \<open>src/pockets/jobs/stores/memory/fenced.go\<close>): a key has at most one active generation, which is
  its latest; deduplicated enqueues return it; a replacement supersedes it and fences its holder
  out.  Also the retention sweep of the store, and that no call lets a caller observe the order
  in which Go ranges over the job map.
\<close>

section \<open>Generations of a key\<close>

definition active :: "string \<Rightarrow> fenced_queue \<Rightarrow> job \<Rightarrow> bool" where
  "active key q j \<longleftrightarrow>
     map_get (fq_jobs q) (j_JobID j) = Some j \<and> j_LogicalKey j = key \<and> \<not> job_Terminal j"

lemma active_unique:
  assumes "fenced_inv q" and "active key q a" and "active key q b" and "key \<noteq> []"
  shows "a = b"
proof (rule ccontr)
  assume "a \<noteq> b"
  then have "j_JobID a \<noteq> j_JobID b"
    using assms(2,3) by (auto simp: active_def)
  moreover have "generations_ok (fq_jobs q)"
    using assms(1) by (simp add: fenced_inv_def)
  ultimately show False
    using generations_okD [of "fq_jobs q" "j_JobID a" a "j_JobID b" b]
      generations_okD [of "fq_jobs q" "j_JobID b" b "j_JobID a" a] assms(2-4)
    by (auto simp: active_def)
qed

lemma GetLatestByKey_iff:
  assumes "fenced_inv q"
  shows "FencedQueue_GetLatestByKey key q = Inr j \<longleftrightarrow>
    map_get (fq_jobs q) (j_JobID j) = Some j \<and> j_LogicalKey j = key \<and>
    (\<forall>x. map_get (fq_jobs q) (j_JobID x) = Some x \<longrightarrow> j_LogicalKey x = key \<longrightarrow> x \<noteq> j \<longrightarrow> newerByKey j x)"
proof -
  note f = fenced_filter [OF fenced_inv_keyed [OF assms], of "\<lambda>j. j_LogicalKey j = key"]
  show ?thesis
    using newer.pick_best_iff [OF f(1), of j]
    by (auto simp: FencedQueue_GetLatestByKey_def newer.best_of_def f(2) simp del: set_filter
        split: option.splits)
qed

lemma active_latest:
  assumes "fenced_inv q" and "active key q j" and "key \<noteq> []"
  shows "FencedQueue_GetLatestByKey key q = Inr j"
proof -
  have "newerByKey j x" if "map_get (fq_jobs q) (j_JobID x) = Some x" "j_LogicalKey x = key" "x \<noteq> j" for x
  proof -
    have "j_JobID x \<noteq> j_JobID j"
      using that assms(2) by (auto simp: active_def)
    then show ?thesis
      using generations_okD [of "fq_jobs q" "j_JobID x" x "j_JobID j" j] that assms
      by (auto simp: active_def fenced_inv_def newerByKey_def)
  qed
  with assms show ?thesis by (auto simp: GetLatestByKey_iff active_def)
qed

lemma activeByKey_iff:
  assumes "fenced_inv q" and "key \<noteq> []"
  shows "activeByKey key (map_vals (fq_jobs q)) = Some j \<longleftrightarrow> active key q j"
proof -
  note vals = keyed_val_iff [OF fenced_inv_keyed [OF assms(1)]]
  have sound: "active key q x" if "activeByKey key (map_vals (fq_jobs q)) = Some x" for x
    using activeByKey_Some [OF that] vals [of x] by (simp add: active_def)
  show ?thesis
  proof
    assume j: "active key q j"
    then have "activeByKey key (map_vals (fq_jobs q)) \<noteq> None"
      using vals [of j] unfolding activeByKey_None by (auto simp: active_def)
    then obtain x where "activeByKey key (map_vals (fq_jobs q)) = Some x" by blast
    with sound [of x] active_unique [OF assms(1) j _ assms(2)] show
      "activeByKey key (map_vals (fq_jobs q)) = Some j" by simp
  qed (rule sound)
qed

text \<open>
  Property C16.  In every reachable store an active job of a non-empty key is the one and only
  active job of that key, and it is what \<open>GetLatestByKey\<close> returns.
\<close>

theorem active_generation_unique:
  assumes "active key (fenced_run ops NewFencedQueue) j" and "key \<noteq> []"
  shows "(\<forall>x. active key (fenced_run ops NewFencedQueue) x \<longrightarrow> x = j) \<and>
    FencedQueue_GetLatestByKey key (fenced_run ops NewFencedQueue) = Inr j"
  using active_unique [OF fenced_run_inv [OF fenced_inv_New] _ assms]
    active_latest [OF fenced_run_inv [OF fenced_inv_New] assms] by auto

theorem active_generation_unique_witness:
  "let ops = [FEnqueueOnce 10 (demo_keyed ''a'' ''k''), FReplace 10 9 (demo_keyed ''b'' ''k''),
              FEnqueueOnce 12 (demo_keyed ''c'' ''k'')];
       q = fenced_run ops NewFencedQueue; j = the (map_get (fq_jobs q) ''b'')
   in (\<forall>x. active ''k'' q x \<longrightarrow> x = j) \<and> FencedQueue_GetLatestByKey ''k'' q = Inr j \<and>
      j_CreatedAt j = 11"
proof -
  let ?ops = "[FEnqueueOnce 10 (demo_keyed ''a'' ''k''), FReplace 10 9 (demo_keyed ''b'' ''k''),
              FEnqueueOnce 12 (demo_keyed ''c'' ''k'')]"
  let ?j = "the (map_get (fq_jobs (fenced_run ?ops NewFencedQueue)) ''b'')"
  have "map_get (fq_jobs (fenced_run ?ops NewFencedQueue)) ''b'' = Some ?j" by code_simp
  moreover have "j_JobID ?j = ''b''" "j_LogicalKey ?j = ''k''" "\<not> job_Terminal ?j" by code_simp+
  ultimately have "active ''k'' (fenced_run ?ops NewFencedQueue) ?j" by (simp only: active_def simp_thms)
  moreover have "j_CreatedAt ?j = 11" by code_simp
  ultimately show ?thesis
    using active_generation_unique [of "''k''" ?ops ?j] unfolding Let_def by blast
qed

section \<open>Enqueueing\<close>

definition new_job :: "time \<Rightarrow> enqueue \<Rightarrow> job" where
  "new_job now inp =
     \<lparr>j_JobID = e_ID inp, j_Kind = e_Kind inp, j_TenantID = e_TenantID inp,
      j_Payload = e_Payload inp, j_JobStatus = StatusPending, j_Priority = e_Priority inp,
      j_Retries = 0, j_MaxAttempts = e_MaxAttempts inp, j_WorkerName = [], j_FailureReason = [],
      j_ScheduledFor = e_ScheduledFor inp, j_ClaimedAt = None, j_CompletedAt = None,
      j_CreatedAt = now, j_UpdatedAt = now, j_LogicalKey = e_LogicalKey inp, j_LeaseID = [],
      j_LeasedUntil = zero_time, j_TerminalAt = None\<rparr>"

lemma FencedQueue_insert_fresh:
  assumes "e_ID inp \<noteq> []" and "map_get (fq_jobs q) (e_ID inp) = None"
  obtains t where "clock \<le> t"
    "FencedQueue_insert clock inp q =
       (Inr (new_job t inp), q\<lparr>fq_jobs := map_put (e_ID inp) (new_job t inp) (fq_jobs q)\<rparr>)"
    "e_LogicalKey inp \<noteq> [] \<longrightarrow> (\<forall>k a. map_get (fq_jobs q) k = Some a \<longrightarrow>
       j_LogicalKey a = e_LogicalKey inp \<longrightarrow> j_CreatedAt a < t)"
proof -
  define t where "t = (if e_LogicalKey inp \<noteq> []
      then after_generations (e_LogicalKey inp) clock (map_vals (fq_jobs q)) else clock)"
  have "clock \<le> t"
    using after_generations_bounds [of clock] by (simp add: t_def)
  moreover have "e_LogicalKey inp \<noteq> [] \<longrightarrow> (\<forall>k a. map_get (fq_jobs q) k = Some a \<longrightarrow>
       j_LogicalKey a = e_LogicalKey inp \<longrightarrow> j_CreatedAt a < t)"
    using after_generations_bounds [of clock "e_LogicalKey inp" "map_vals (fq_jobs q)"]
    by (force simp: t_def dest: map_of_SomeD)
  ultimately show thesis
    using that [of t] assms by (simp add: FencedQueue_insert_def new_job_def t_def Let_def)
qed

text \<open>
  \<open>EnqueueOnce\<close> deduplicates by key.  On every branch: an input without an
  identifier is refused; while a generation of the key is active the call returns it and changes
  nothing; otherwise an identifier already taken is \<open>ErrAlreadyExists\<close>; and a fresh identifier is
  stored as a pending job with no attempts, created strictly after every earlier generation, all
  other jobs untouched.
\<close>

theorem EnqueueOnce_spec:
  assumes "fenced_inv q"
  shows "case FencedQueue_EnqueueOnce clock inp q of
      (Inl e, q') \<Rightarrow> q' = q \<and>
        (e = errIDRequired \<and> e_ID inp = [] \<or>
         e = ErrAlreadyExists \<and> map_get (fq_jobs q) (e_ID inp) \<noteq> None \<and>
           (e_LogicalKey inp = [] \<or> (\<forall>j. \<not> active (e_LogicalKey inp) q j)))
    | (Inr j, q') \<Rightarrow>
        e_LogicalKey inp \<noteq> [] \<and> active (e_LogicalKey inp) q j \<and> q' = q \<or>
        (e_LogicalKey inp = [] \<or> (\<forall>j. \<not> active (e_LogicalKey inp) q j)) \<and>
        map_get (fq_jobs q) (e_ID inp) = None \<and>
        map_get (fq_jobs q') = (map_get (fq_jobs q))(e_ID inp \<mapsto> j) \<and>
        (\<exists>t\<ge>clock. j = new_job t inp \<and> (e_LogicalKey inp \<noteq> [] \<longrightarrow>
           (\<forall>k a. map_get (fq_jobs q) k = Some a \<longrightarrow> j_LogicalKey a = e_LogicalKey inp \<longrightarrow>
              j_CreatedAt a < t)))"
proof -
  consider (bad) "e_ID inp = []"
    | (dup) a where "e_ID inp \<noteq> []" "e_LogicalKey inp \<noteq> []" "active (e_LogicalKey inp) q a"
    | (fresh) "\<not> (e_ID inp = [] \<or> (\<exists>a. e_LogicalKey inp \<noteq> [] \<and> active (e_LogicalKey inp) q a))"
    by blast
  then show ?thesis
  proof cases
    case bad
    then show ?thesis by (simp add: FencedQueue_EnqueueOnce_def)
  next
    case dup
    then have "FencedQueue_EnqueueOnce clock inp q = (Inr a, q)"
      using activeByKey_iff [OF assms, of "e_LogicalKey inp" a]
      by (simp add: FencedQueue_EnqueueOnce_def)
    with dup show ?thesis by simp
  next
    case fresh
    then have none: "e_LogicalKey inp = [] \<or> (\<forall>j. \<not> active (e_LogicalKey inp) q j)"
      and eid: "e_ID inp \<noteq> []" by auto
    then have ins: "FencedQueue_EnqueueOnce clock inp q = FencedQueue_insert clock inp q"
      using activeByKey_iff [OF assms, of "e_LogicalKey inp"]
      by (auto simp: FencedQueue_EnqueueOnce_def split: option.splits)
    show ?thesis
    proof (cases "map_get (fq_jobs q) (e_ID inp)")
      case None
      obtain t where "clock \<le> t"
        "FencedQueue_insert clock inp q =
          (Inr (new_job t inp), q\<lparr>fq_jobs := map_put (e_ID inp) (new_job t inp) (fq_jobs q)\<rparr>)"
        "e_LogicalKey inp \<noteq> [] \<longrightarrow> (\<forall>k a. map_get (fq_jobs q) k = Some a \<longrightarrow>
           j_LogicalKey a = e_LogicalKey inp \<longrightarrow> j_CreatedAt a < t)"
        by (rule FencedQueue_insert_fresh [OF eid None, of clock])
      then show ?thesis
        unfolding ins using none None by (intro disjI2 exI [of _ t] conjI | simp)+
    next
      case (Some x)
      then show ?thesis
        unfolding ins using none eid by (simp add: FencedQueue_insert_def)
    qed
  qed
qed

theorem EnqueueOnce_spec_witness:
  "(case FencedQueue_EnqueueOnce 3 (demo_keyed ''b'' ''k'') demo_fenced of
      (Inl e, q') \<Rightarrow> q' = demo_fenced \<and>
        (e = errIDRequired \<and> e_ID (demo_keyed ''b'' ''k'') = [] \<or>
         e = ErrAlreadyExists \<and> map_get (fq_jobs demo_fenced) (e_ID (demo_keyed ''b'' ''k'')) \<noteq> None \<and>
           (e_LogicalKey (demo_keyed ''b'' ''k'') = [] \<or>
            (\<forall>j. \<not> active (e_LogicalKey (demo_keyed ''b'' ''k'')) demo_fenced j)))
    | (Inr j, q') \<Rightarrow>
        e_LogicalKey (demo_keyed ''b'' ''k'') \<noteq> [] \<and>
          active (e_LogicalKey (demo_keyed ''b'' ''k'')) demo_fenced j \<and> q' = demo_fenced \<or>
        (e_LogicalKey (demo_keyed ''b'' ''k'') = [] \<or>
          (\<forall>j. \<not> active (e_LogicalKey (demo_keyed ''b'' ''k'')) demo_fenced j)) \<and>
        map_get (fq_jobs demo_fenced) (e_ID (demo_keyed ''b'' ''k'')) = None \<and>
        map_get (fq_jobs q') = (map_get (fq_jobs demo_fenced))(e_ID (demo_keyed ''b'' ''k'') \<mapsto> j) \<and>
        (\<exists>t\<ge>3. j = new_job t (demo_keyed ''b'' ''k'') \<and>
          (e_LogicalKey (demo_keyed ''b'' ''k'') \<noteq> [] \<longrightarrow>
           (\<forall>k a. map_get (fq_jobs demo_fenced) k = Some a \<longrightarrow>
              j_LogicalKey a = e_LogicalKey (demo_keyed ''b'' ''k'') \<longrightarrow> j_CreatedAt a < t)))) \<and>
   map_sum id j_JobID (fst (FencedQueue_EnqueueOnce 3 (demo_keyed ''b'' ''k'') demo_fenced)) = Inr ''a''"
proof
  show "map_sum id j_JobID (fst (FencedQueue_EnqueueOnce 3 (demo_keyed ''b'' ''k'') demo_fenced)) = Inr ''a''"
    by code_simp
qed (rule EnqueueOnce_spec [OF demo_fenced_inv])

text \<open>
  \<open>Replace\<close> under a fresh identifier and a non-empty key starts a new generation
  and ends the old one: the new job is pending, is the latest and only active job of the key; a
  job of the key that was active is superseded and its lease cleared, so that every mutation its
  former holder tries afterwards is refused; every other job is untouched.
\<close>

theorem Replace_spec:
  assumes inv: "fenced_inv q" and fresh: "e_ID inp \<noteq> []" "map_get (fq_jobs q) (e_ID inp) = None"
    and key: "e_LogicalKey inp \<noteq> []"
  shows "\<exists>j q'. FencedQueue_Replace c1 c2 inp q = (Inr j, q') \<and>
    j_JobID j = e_ID inp \<and> j_JobStatus j = StatusPending \<and> j_Payload j = e_Payload inp \<and>
    active (e_LogicalKey inp) q' j \<and> FencedQueue_GetLatestByKey (e_LogicalKey inp) q' = Inr j \<and>
    (\<forall>k a. map_get (fq_jobs q) k = Some a \<longrightarrow>
       map_get (fq_jobs q') k = Some (supersede (e_LogicalKey inp) c1 a) \<and>
       (active (e_LogicalKey inp) q a \<longrightarrow>
          phase_of k q' = Done StatusSuperseded [] (j_Retries a) \<and>
          (\<forall>op. mutates_as k (j_LeaseID a) op \<longrightarrow>
             (\<exists>e\<in>{ErrConflict, ErrNotFound, ErrInvalidInput}. fenced_exec op q' = (OutErr (Some e), q')))))"
proof -
  define q1 where "q1 = q\<lparr>fq_jobs := map (map_prod id (supersede (e_LogicalKey inp) c1)) (fq_jobs q)\<rparr>"
  have "map_get (fq_jobs q1) (e_ID inp) = None"
    using fresh by (simp add: q1_def map_get_map_vals)
  then obtain t where "FencedQueue_insert c2 inp q1 =
      (Inr (new_job t inp), q1\<lparr>fq_jobs := map_put (e_ID inp) (new_job t inp) (fq_jobs q1)\<rparr>)"
    using FencedQueue_insert_fresh [OF fresh(1)] by metis
  moreover define q' where "q' = q1\<lparr>fq_jobs := map_put (e_ID inp) (new_job t inp) (fq_jobs q1)\<rparr>"
  ultimately have res: "FencedQueue_Replace c1 c2 inp q = (Inr (new_job t inp), q')"
    using fresh key by (simp add: FencedQueue_Replace_def q1_def Let_def)
  have inv': "fenced_inv q'"
    using fenced_step_inv [OF inv, of "FReplace c1 c2 inp"] res by simp
  have act: "active (e_LogicalKey inp) q' (new_job t inp)"
    by (simp add: active_def q'_def new_job_def)
  have old: "map_get (fq_jobs q') k = Some (supersede (e_LogicalKey inp) c1 a)"
    if "map_get (fq_jobs q) k = Some a" for k a
    using that fresh by (auto simp: q'_def q1_def map_get_map_vals)
  have ph: "phase_of k q' = Done StatusSuperseded [] (j_Retries a)"
    if "map_get (fq_jobs q) k = Some a" "active (e_LogicalKey inp) q a" for k a
    using old [OF that(1)] that(2) by (simp add: job_phase_def supersede_def active_def)
  have refused: "\<exists>e\<in>{ErrConflict, ErrNotFound, ErrInvalidInput}. fenced_exec op q' = (OutErr (Some e), q')"
    if "map_get (fq_jobs q) k = Some a" "active (e_LogicalKey inp) q a" "mutates_as k (j_LeaseID a) op"
    for k a op
    by (rule lost_mutation [OF _ that(3)]) (simp add: ph [OF that(1,2)] lost_def)
  show ?thesis
    using res act active_latest [OF inv' act key] old ph refused
    by (intro exI [of _ "new_job t inp"] exI [of _ q']) (simp add: new_job_def)
qed

theorem Replace_spec_witness:
  "let q = fenced_run [FClaim 20 ''L1'' 100 []] demo_fenced; inp = demo_keyed ''b'' ''k'' in
   \<exists>j q'. FencedQueue_Replace 30 31 inp q = (Inr j, q') \<and> active ''k'' q' j \<and>
     phase_of ''a'' q = Held ''L1'' 120 1 \<and> phase_of ''a'' q' = Done StatusSuperseded [] 1 \<and>
     (\<exists>e\<in>{ErrConflict, ErrNotFound, ErrInvalidInput}.
        fenced_exec (FComplete ''a'' ''L1'' 40) q' = (OutErr (Some e), q'))"
proof -
  let ?q = "fenced_run [FClaim 20 ''L1'' 100 []] demo_fenced" and ?inp = "demo_keyed ''b'' ''k''"
  let ?a = "the (map_get (fq_jobs ?q) ''a'')"
  have a: "map_get (fq_jobs ?q) ''a'' = Some ?a" by code_simp
  have f: "j_JobID ?a = ''a''" "j_LogicalKey ?a = ''k''" "\<not> job_Terminal ?a" "j_LeaseID ?a = ''L1''"
    "j_Retries ?a = 1" by code_simp+
  have act: "active ''k'' ?q ?a" using a f by (simp only: active_def simp_thms)
  have fresh: "e_ID ?inp \<noteq> []" "map_get (fq_jobs ?q) (e_ID ?inp) = None" "e_LogicalKey ?inp \<noteq> []"
    by code_simp+
  have p: "phase_of ''a'' ?q = Held ''L1'' 120 1" by code_simp
  have k: "e_LogicalKey ?inp = ''k''" by code_simp
  from Replace_spec [OF fenced_run_inv [OF demo_fenced_inv] fresh, of 30 31]
  obtain j q' where "FencedQueue_Replace 30 31 ?inp ?q = (Inr j, q')" "active ''k'' q' j"
    and *: "map_get (fq_jobs ?q) ''a'' = Some ?a \<longrightarrow> (active ''k'' ?q ?a \<longrightarrow>
          phase_of ''a'' q' = Done StatusSuperseded [] (j_Retries ?a) \<and>
          (\<forall>op. mutates_as ''a'' (j_LeaseID ?a) op \<longrightarrow>
             (\<exists>e\<in>{ErrConflict, ErrNotFound, ErrInvalidInput}. fenced_exec op q' = (OutErr (Some e), q'))))"
    unfolding k by blast
  moreover have "mutates_as ''a'' (j_LeaseID ?a) (FComplete ''a'' ''L1'' 40)"
    unfolding f(4) by simp
  ultimately show ?thesis
    using p a act unfolding Let_def f(5) by blast
qed

section \<open>Retention\<close>

definition fenced_purgeable :: "time \<Rightarrow> fenced_queue \<Rightarrow> job set" where
  "fenced_purgeable bound q =
     {j. map_get (fq_jobs q) (j_JobID j) = Some j \<and> fenced_purge_candidate bound j}"

text \<open>
  A retention sweep with limit \<open>n \<ge> 0\<close> removes the \<open>min n\<close> oldest-settled terminal
  jobs settled at or before the bound and nothing else, and reports how many it removed.
\<close>

theorem fenced_PurgeTerminal_spec:
  assumes "fenced_inv q" and "0 \<le> limit"
  shows "\<exists>removed. removed \<subseteq> fenced_purgeable bound q \<and>
    card removed = min (nat limit) (card (fenced_purgeable bound q)) \<and>
    (\<forall>r\<in>removed. \<forall>s\<in>fenced_purgeable bound q - removed. fencedPurgeBefore r s) \<and>
    fst (FencedQueue_PurgeTerminal bound limit q) = Inr (card removed) \<and>
    map_get (fq_jobs (snd (FencedQueue_PurgeTerminal bound limit q))) =
      (\<lambda>k. if k \<in> j_JobID ` removed then None else map_get (fq_jobs q) k)"
proof -
  define cs where "cs = filter (fenced_purge_candidate bound) (map_vals (fq_jobs q))"
  define batch where "batch = take (nat limit) (sort_slice fencedPurgeBefore cs)"
  note cs = fenced_filter [OF fenced_inv_keyed [OF assms(1)], of "fenced_purge_candidate bound",
      folded cs_def fenced_purgeable_def]
  have len: "length cs = card (fenced_purgeable bound q)"
    using cs by (metis distinct_card distinct_map)
  have "FencedQueue_PurgeTerminal bound limit q =
      (Inr (length batch), q\<lparr>fq_jobs := fold (\<lambda>j m. map_del (j_JobID j) m) batch (fq_jobs q)\<rparr>)"
    using assms(2) by (auto simp: FencedQueue_PurgeTerminal_def Let_def batch_def cs_def)
  then show ?thesis
    using fenced_purge.first_batch [OF cs(1), of "nat limit", folded batch_def, unfolded cs(2) len]
    by (intro exI [of _ "set batch"]) (auto simp: map_get_fold_del fun_eq_iff)
qed

theorem fenced_PurgeTerminal_spec_witness:
  "let q = fenced_run [FClaim 20 ''L1'' 100 [], FComplete ''a'' ''L1'' 30] demo_fenced in
   \<exists>removed. removed \<subseteq> fenced_purgeable 30 q \<and>
    card removed = min (nat 5) (card (fenced_purgeable 30 q)) \<and>
    (\<forall>r\<in>removed. \<forall>s\<in>fenced_purgeable 30 q - removed. fencedPurgeBefore r s) \<and>
    fst (FencedQueue_PurgeTerminal 30 5 q) = Inr (card removed) \<and>
    map_get (fq_jobs (snd (FencedQueue_PurgeTerminal 30 5 q))) =
      (\<lambda>k. if k \<in> j_JobID ` removed then None else map_get (fq_jobs q) k)"
  unfolding Let_def
  by (rule fenced_PurgeTerminal_spec [OF fenced_run_inv [OF demo_fenced_inv]]) simp

section \<open>The order of map iteration\<close>

definition same_queue :: "fenced_queue \<Rightarrow> fenced_queue \<Rightarrow> bool" where
  "same_queue q p \<longleftrightarrow> same_map (fq_jobs q) (fq_jobs p)"

lemma same_queue_vals: "same_queue q p \<Longrightarrow> mset (map_vals (fq_jobs q)) = mset (map_vals (fq_jobs p))"
  unfolding same_queue_def by (rule same_map_vals)

lemma same_queue_inv:
  assumes "same_queue q p" and "fenced_inv q"
  shows "fenced_inv p"
  using assms same_map_get [of "fq_jobs q" "fq_jobs p"] same_map_keyed [of "fq_jobs q" "fq_jobs p"]
  by (simp add: same_queue_def fenced_inv_def generations_ok_def)

lemma same_queue_filter:
  assumes "same_queue q p"
  shows "mset (filter P (map_vals (fq_jobs q))) = mset (filter P (map_vals (fq_jobs p)))"
  using same_queue_vals [OF assms] by (simp add: mset_filter)

lemma same_queue_insert:
  assumes "same_queue q p"
  shows "fst (FencedQueue_insert c inp p) = fst (FencedQueue_insert c inp q) \<and>
    same_queue (snd (FencedQueue_insert c inp q)) (snd (FencedQueue_insert c inp p))"
proof -
  have "set (map_vals (fq_jobs q)) = set (map_vals (fq_jobs p))"
    using mset_eq_setD [OF same_queue_vals [OF assms]] .
  then have "after_generations key c (map_vals (fq_jobs q)) = after_generations key c (map_vals (fq_jobs p))" for key
    by (rule after_generations_set)
  with assms show ?thesis
    by (auto simp: FencedQueue_insert_def Let_def same_queue_def same_map_get same_map_put)
qed

lemma same_map_map_vals:
  assumes "same_map m n"
  shows "same_map (map (map_prod id f) m) (map (map_prod id f) n)"
  using assms by (auto simp: same_map_def comp_def)

lemma same_map_fold_del:
  "same_map m n \<Longrightarrow> same_map (fold (\<lambda>j m. map_del (ident j) m) js m) (fold (\<lambda>j m. map_del (ident j) m) js n)"
proof (induction js arbitrary: m n)
  case (Cons j js)
  have "same_map (map_del (ident j) m) (map_del (ident j) n)"
    using Cons.prems same_map_ok [OF Cons.prems]
    by (intro same_mapI) (simp_all add: gm.ok_del same_map_get, simp add: same_map_def gm.ok_del)
  then show ?case by (simp add: Cons.IH)
qed simp

lemma same_queue_active:
  assumes "same_queue q p" and "fenced_inv q" and "key \<noteq> []"
  shows "activeByKey key (map_vals (fq_jobs p)) = activeByKey key (map_vals (fq_jobs q))"
proof (rule option.expand)
  have "active key q = active key p"
    using same_map_get [of "fq_jobs q" "fq_jobs p"] assms(1) by (simp add: active_def [abs_def] same_queue_def)
  then have iff: "activeByKey key (map_vals (fq_jobs p)) = Some j \<longleftrightarrow>
      activeByKey key (map_vals (fq_jobs q)) = Some j" for j
    using assms same_queue_inv by (simp add: activeByKey_iff)
  then show "(activeByKey key (map_vals (fq_jobs p)) = None) = (activeByKey key (map_vals (fq_jobs q)) = None)"
    by (metis option.exhaust)
  show "activeByKey key (map_vals (fq_jobs p)) \<noteq> None \<Longrightarrow> activeByKey key (map_vals (fq_jobs q)) \<noteq> None \<Longrightarrow>
    the (activeByKey key (map_vals (fq_jobs p))) = the (activeByKey key (map_vals (fq_jobs q)))"
    using iff by (metis option.collapse)
qed

text \<open>
  Property C38.  No call lets the iteration order of the job map be observed: two stores holding
  the same entries give the same result for every call and are left holding the same entries.
\<close>

theorem fenced_exec_order_independent:
  assumes inv: "fenced_inv q" and same: "same_queue q p"
  shows "fst (fenced_exec op p) = fst (fenced_exec op q) \<and>
    same_queue (fenced_step op q) (fenced_step op p)"
proof -
  have get: "map_get (fq_jobs p) = map_get (fq_jobs q)"
    using same by (simp add: same_queue_def same_map_get)
  have put: "same_queue (q\<lparr>fq_jobs := map_put k v (fq_jobs q)\<rparr>) (p\<lparr>fq_jobs := map_put k v (fq_jobs p)\<rparr>)" for k v
    using same by (simp add: same_queue_def same_map_put)
  note keyed = fenced_inv_keyed [OF inv]
  show ?thesis
  proof (cases op)
    case (FEnqueueOnce c inp)
    with same same_queue_active [OF same inv, of "e_LogicalKey inp"] same_queue_insert [OF same, of c inp]
    show ?thesis by (auto simp: FencedQueue_EnqueueOnce_def split: option.splits)
  next
    case (FReplace c1 c2 inp)
    have "same_queue (q\<lparr>fq_jobs := map (map_prod id (supersede (e_LogicalKey inp) c1)) (fq_jobs q)\<rparr>)
        (p\<lparr>fq_jobs := map (map_prod id (supersede (e_LogicalKey inp) c1)) (fq_jobs p)\<rparr>)"
      using same by (simp add: same_queue_def same_map_map_vals)
    with FReplace same_queue_insert [OF this, of c2 inp] same_queue_insert [OF same, of c2 inp] same
    show ?thesis by (simp add: FencedQueue_Replace_def Let_def get)
  next
    case (FClaim now l d kinds)
    then show ?thesis
      using claim.pick_best_perm [OF fenced_filter(1) [OF keyed] same_queue_filter [OF same],
          of "\<lambda>j. fencedDue j now \<and> kindAllowed kinds (j_Kind j)"] put same
      by (auto simp: FencedQueue_Claim_def Let_def split: option.splits)
  next
    case (FPurgeTerminal b n)
    then show ?thesis
      using fenced_purge.sort_slice_perm [OF fenced_filter(1) [OF keyed] same_queue_filter [OF same],
          of "fenced_purge_candidate b"] same
      by (simp add: FencedQueue_PurgeTerminal_def Let_def same_queue_def same_map_fold_del)
  next
    case (FGetLatestByKey k)
    then show ?thesis
      using newer.pick_best_perm [OF fenced_filter(1) [OF keyed] same_queue_filter [OF same],
          of "\<lambda>j. j_LogicalKey j = k"] same
      by (simp add: FencedQueue_GetLatestByKey_def)
  qed (use same put in \<open>auto simp: fenced_settle_defs get split: option.splits\<close>)
qed

theorem fenced_exec_order_independent_witness:
  "let q = fenced_run [FEnqueueOnce 10 (demo_keyed ''b'' [])] demo_fenced;
       p = q\<lparr>fq_jobs := rev (fq_jobs q)\<rparr>; op = FClaim 20 ''L1'' 100 []
   in fst (fenced_exec op p) = fst (fenced_exec op q) \<and>
      same_queue (fenced_step op q) (fenced_step op p)"
proof -
  let ?q = "fenced_run [FEnqueueOnce 10 (demo_keyed ''b'' [])] demo_fenced"
  have inv: "fenced_inv ?q" by (rule fenced_run_inv [OF demo_fenced_inv])
  then have "same_queue ?q (?q\<lparr>fq_jobs := rev (fq_jobs ?q)\<rparr>)"
    by (simp add: same_queue_def same_map_def fenced_inv_def gm.keyed_def)
  from fenced_exec_order_independent [OF inv this, of "FClaim 20 ''L1'' 100 []"] show ?thesis
    by (simp only: Let_def simp_thms)
qed

end
