(* ===== verification/Workers.thy ===== *)
theory Workers
  imports Job_Types
begin

text \<open>
  The claim-based runners of \<open>src/sdk/pkg/workers\<close>: the dispositions and panic recovery of
  \<open>process.go\<close>, \<open>Runner.work\<close> of \<open>runner.go\<close>, \<open>FencedRunner.work\<close> of \<open>fenced.go\<close>, their
  constructors, and the middleware of \<open>middleware.go\<close>.  A store is a record of the operations of
  the Go interface over an abstract state; the optional deferral port is an \<open>option\<close> field.  The
  contracts the runners rely on are the locales \<open>job_store_laws\<close> and \<open>fenced_store_laws\<close>; what
  one iteration does to a job is proved in them once, for every store that keeps the contract.

  One iteration is three atomic store steps with processing between them.  The \<open>process\<close> argument
  maps the state after the claim to the state after processing, so it covers both what the
  handler does and everything other workers do meanwhile.
\<close>

section \<open>Processing\<close>

text \<open>How a \<open>ProcessFunc\<close> ends: it returns an error (or nil), or it panics with a value.\<close>

datatype proc_result = Returned error | Panicked string

definition DeferUntil :: "time \<Rightarrow> string \<Rightarrow> go_error" where
  "DeferUntil until reason = DeferredError until reason"

definition Reject :: "string \<Rightarrow> go_error" where
  "Reject reason = PermanentError reason"

definition runProcess :: "('j \<Rightarrow> 's \<Rightarrow> proc_result \<times> 's) \<Rightarrow> 'j \<Rightarrow> 's \<Rightarrow> error \<times> 's" where
  "runProcess process job s =
     (case process job s of
        (Returned err, s') \<Rightarrow> (err, s')
      | (Panicked rec, s') \<Rightarrow> (Some (ForeignError (''workers: panic in process: '' @ rec)), s'))"

text \<open>\<open>ChainJobMiddleware\<close>: the loop applies the last middleware first.\<close>

fun ChainJobMiddleware :: "'p \<Rightarrow> ('p \<Rightarrow> 'p) list \<Rightarrow> 'p" where
  "ChainJobMiddleware process [] = process"
| "ChainJobMiddleware process (m # ms) = m (ChainJobMiddleware process ms)"

section \<open>Runner\<close>

record 'j job_iface =
  ji_ID :: "'j \<Rightarrow> string"
  ji_RetryLimit :: "('j \<Rightarrow> int) option"   \<comment> \<open>\<open>Some\<close> when the job is a \<open>RetryLimitedJob\<close>\<close>
  ji_RetryCount :: "'j \<Rightarrow> int"

record ('j, 's) job_store =
  js_Claim :: "string \<Rightarrow> time \<Rightarrow> 's \<Rightarrow> 'j res \<times> 's"
  js_Complete :: "string \<Rightarrow> time \<Rightarrow> 's \<Rightarrow> error \<times> 's"
  js_Fail :: "string \<Rightarrow> time \<Rightarrow> string \<Rightarrow> int \<Rightarrow> 's \<Rightarrow> error \<times> 's"
  js_Defer :: "(string \<Rightarrow> time \<Rightarrow> string \<Rightarrow> time \<Rightarrow> 's \<Rightarrow> error \<times> 's) option"

record runner_config =
  rc_maxAttempts :: int

definition defaultMaxAttempts :: int where
  "defaultMaxAttempts = 3"

definition WithMaxAttempts :: "int \<Rightarrow> runner_config \<Rightarrow> runner_config" where
  "WithMaxAttempts n c = c\<lparr>rc_maxAttempts := n\<rparr>"

text \<open>Constructors panic on a nil option; the panic is the left value.\<close>

fun apply_options :: "string \<Rightarrow> ('c \<Rightarrow> 'c) option list \<Rightarrow> 'c \<Rightarrow> string + 'c" where
  "apply_options msg [] c = Inr c"
| "apply_options msg (None # opts) c = Inl msg"
| "apply_options msg (Some opt # opts) c = apply_options msg opts (opt c)"

definition NewRunner :: "(runner_config \<Rightarrow> runner_config) option list \<Rightarrow> string + runner_config" where
  "NewRunner opts =
     (case apply_options ''workers.NewRunner: nil option'' opts
             \<lparr>rc_maxAttempts = defaultMaxAttempts\<rparr> of
        Inl p \<Rightarrow> Inl p
      | Inr cfg \<Rightarrow> Inr (if rc_maxAttempts cfg < 1 then cfg\<lparr>rc_maxAttempts := 1\<rparr> else cfg))"

text \<open>\<open>fmt.Errorf("workers: \<dots> job %s: %w", id, err)\<close>\<close>

definition wrap_job :: "string \<Rightarrow> string \<Rightarrow> go_error \<Rightarrow> go_error" where
  "wrap_job what jid err =
     Wrapped (''workers: '' @ what @ '' job '' @ jid @ '': '' @ error_text err) err"

definition Runner_work ::
    "('j, 's) job_store \<Rightarrow> 'j job_iface \<Rightarrow> ('j \<Rightarrow> 's \<Rightarrow> proc_result \<times> 's) \<Rightarrow> runner_config \<Rightarrow>
     string \<Rightarrow> time \<Rightarrow> time \<Rightarrow> 's \<Rightarrow> error \<times> 's" where
  "Runner_work store iface process r workerID clock1 now s =
     (case js_Claim store workerID clock1 s of
        (Inl err, s1) \<Rightarrow> (Some err, s1)
      | (Inr job, s1) \<Rightarrow>
          let jid = ji_ID iface job; (procErr, s2) = runProcess process job s1 in
          (case procErr of
            None \<Rightarrow>
              (case js_Complete store jid now s2 of
                 (Some err, s3) \<Rightarrow> (Some (wrap_job ''complete'' jid err), s3)
               | (None, s3) \<Rightarrow> (None, s3))
          | Some pe \<Rightarrow>
              let limited = (case ji_RetryLimit iface of
                               Some f \<Rightarrow> if f job > 0 then f job else rc_maxAttempts r
                             | None \<Rightarrow> rc_maxAttempts r);
                  failed = (\<lambda>maxAttempts.
                    case js_Fail store jid now (error_text pe) maxAttempts s2 of
                      (Some err, s3) \<Rightarrow> (Some (wrap_job ''fail'' jid err), s3)
                    | (None, s3) \<Rightarrow> (None, s3))
              in (case as_permanent pe of
                   Some _ \<Rightarrow> failed 1
                 | None \<Rightarrow>
                     (case as_deferred pe of
                        Some (until, reason) \<Rightarrow>
                          if \<not> until > now then (Some (wrap_job ''defer'' jid ErrInvalidDeferral), s2)
                          else (case js_Defer store of
                                  None \<Rightarrow> (Some (wrap_job ''defer'' jid ErrDeferralUnsupported), s2)
                                | Some dfr \<Rightarrow>
                                    (case dfr jid until reason now s2 of
                                       (Some err, s3) \<Rightarrow> (Some (wrap_job ''defer'' jid err), s3)
                                     | (None, s3) \<Rightarrow> (None, s3)))
                      | None \<Rightarrow> failed limited))))"

section \<open>FencedRunner\<close>

record ('j, 's) fenced_store =
  fs_Claim :: "time \<Rightarrow> string \<Rightarrow> duration \<Rightarrow> 's \<Rightarrow> 'j res \<times> 's"
  fs_Complete :: "string \<Rightarrow> string \<Rightarrow> time \<Rightarrow> 's \<Rightarrow> error \<times> 's"
  fs_Fail :: "string \<Rightarrow> string \<Rightarrow> string \<Rightarrow> time \<Rightarrow> 's \<Rightarrow> error \<times> 's"
  fs_Reschedule :: "string \<Rightarrow> string \<Rightarrow> time \<Rightarrow> string \<Rightarrow> time \<Rightarrow> 's \<Rightarrow> error \<times> 's"
  fs_Defer :: "(string \<Rightarrow> string \<Rightarrow> time \<Rightarrow> string \<Rightarrow> time \<Rightarrow> 's \<Rightarrow> error \<times> 's) option"

type_synonym retry_decider = "go_error \<Rightarrow> int \<Rightarrow> duration \<times> bool"

record fenced_runner =
  fr_leaseFor :: duration
  fr_processTimeout :: duration
  fr_retryDecider :: "retry_decider option"

definition defaultLeaseFor :: duration where
  "defaultLeaseFor = 30 * Second"

definition WithLeaseDuration :: "duration \<Rightarrow> fenced_runner \<Rightarrow> fenced_runner" where
  "WithLeaseDuration d c = (if d > 0 then c\<lparr>fr_leaseFor := d\<rparr> else c)"

definition WithFencedRetryDecider :: "retry_decider option \<Rightarrow> fenced_runner \<Rightarrow> fenced_runner" where
  "WithFencedRetryDecider fn c = c\<lparr>fr_retryDecider := fn\<rparr>"

definition WithFencedProcessTimeout :: "duration \<Rightarrow> fenced_runner \<Rightarrow> fenced_runner" where
  "WithFencedProcessTimeout d c = (if d > 0 then c\<lparr>fr_processTimeout := d\<rparr> else c)"

definition NewFencedRunner ::
    "(fenced_runner \<Rightarrow> fenced_runner) option list \<Rightarrow> string + fenced_runner" where
  "NewFencedRunner opts =
     (case apply_options ''workers.NewFencedRunner: nil option'' opts
             \<lparr>fr_leaseFor = defaultLeaseFor, fr_processTimeout = 0, fr_retryDecider = None\<rparr> of
        Inl p \<Rightarrow> Inl p
      | Inr cfg \<Rightarrow>
          if fr_processTimeout cfg \<ge> fr_leaseFor cfg
          then Inl ''workers: process timeout must be shorter than the claim lease''
          else Inr cfg)"

definition transition :: "string \<Rightarrow> string \<Rightarrow> error \<Rightarrow> error" where
  "transition jid action err =
     (case err of
        None \<Rightarrow> None
      | Some e \<Rightarrow>
          if errors_is e ErrConflict then None
          else Some (Wrapped (''workers: fenced job '' @ jid @ '' transition '' @ action @ '': '' @
                              error_text e) e))"

text \<open>
  \<open>leaseID\<close> is what \<open>newLease\<close> returns, \<open>clock1\<close> and \<open>now\<close> are the two clock readings, \<open>ctxErr\<close>
  is \<open>ctx.Err()\<close> when processing has ended, and \<open>process\<close> takes the timeout of its context.  The
  dead-letter hook is an effect on the state; its error is only logged.  \<open>record_failure\<close> is the tail
  of \<open>work\<close> that the permanent and the exhausted branches share.
\<close>

definition record_failure ::
    "('j, 's) fenced_store \<Rightarrow> ('j \<Rightarrow> string \<Rightarrow> 's \<Rightarrow> error \<times> 's) option \<Rightarrow> 'j \<Rightarrow> string \<Rightarrow> string \<Rightarrow>
     go_error \<Rightarrow> time \<Rightarrow> 's \<Rightarrow> error \<times> 's" where
  "record_failure store deadLetter job jid leaseID pe now s =
     (case fs_Fail store jid leaseID (error_text pe) now s of
        (Some err, s') \<Rightarrow> (transition jid ''failed'' (Some err), s')
      | (None, s') \<Rightarrow>
          (case deadLetter of
             Some hook \<Rightarrow> (None, snd (hook job (error_text pe) s'))
           | None \<Rightarrow> (None, s')))"

definition FencedRunner_work ::
    "('j, 's) fenced_store \<Rightarrow> 'j job_iface \<Rightarrow> (duration option \<Rightarrow> 'j \<Rightarrow> 's \<Rightarrow> proc_result \<times> 's) \<Rightarrow>
     ('j \<Rightarrow> string \<Rightarrow> 's \<Rightarrow> error \<times> 's) option \<Rightarrow> fenced_runner \<Rightarrow>
     string \<Rightarrow> time \<Rightarrow> time \<Rightarrow> error \<Rightarrow> 's \<Rightarrow> error \<times> 's" where
  "FencedRunner_work store iface process deadLetter r leaseID clock1 now ctxErr s =
     (case fs_Claim store clock1 leaseID (fr_leaseFor r) s of
        (Inl err, s1) \<Rightarrow> (Some err, s1)
      | (Inr job, s1) \<Rightarrow>
          let jid = ji_ID iface job;
              timeout = (if fr_processTimeout r > 0 then Some (fr_processTimeout r) else None);
              (procErr, s2) = runProcess (process timeout) job s1
          in if ctxErr \<noteq> None then (None, s2)
             else (case procErr of
               None \<Rightarrow> apfst (transition jid ''completed'') (fs_Complete store jid leaseID now s2)
             | Some pe \<Rightarrow>
                 let failed = record_failure store deadLetter job jid leaseID pe now s2
                 in (case as_permanent pe of
                      Some _ \<Rightarrow> failed
                    | None \<Rightarrow>
                        (case as_deferred pe of
                           Some (until, reason) \<Rightarrow>
                             if \<not> until > now
                             then (Some (wrap_job ''defer'' jid ErrInvalidDeferral), s2)
                             else (case fs_Defer store of
                                     None \<Rightarrow> (Some (wrap_job ''defer'' jid ErrDeferralUnsupported), s2)
                                   | Some dfr \<Rightarrow>
                                       apfst (transition jid ''deferred'')
                                         (dfr jid leaseID until reason now s2))
                         | None \<Rightarrow>
                             (case fr_retryDecider r of
                                None \<Rightarrow> failed
                              | Some decide \<Rightarrow>
                                  (case decide pe (ji_RetryCount iface job) of
                                     (delay, True) \<Rightarrow>
                                       apfst (transition jid ''rescheduled'')
                                         (fs_Reschedule store jid leaseID (now + delay)
                                            (error_text pe) now s2)
                                   | (delay, False) \<Rightarrow> failed))))))"

section \<open>Worker middleware\<close>

text \<open>
  One call of the function \<open>ConsecutiveErrorShutdown count\<close> returns, on the result \<open>err\<close> of
  \<open>next\<close>; a missing entry of the counter map reads zero.
\<close>

definition ConsecutiveErrorShutdown ::
    "int \<Rightarrow> string \<Rightarrow> error \<Rightarrow> (string, int) go_map \<Rightarrow> error \<times> (string, int) go_map" where
  "ConsecutiveErrorShutdown cnt workerID err failures =
     (let count = (if cnt < 1 then 1 else cnt);
          is = (\<lambda>t. case err of None \<Rightarrow> False | Some e \<Rightarrow> errors_is e t)
      in if is ErrPoolShutdown \<or> is ErrWorkerShutdown then (err, failures)
         else (case err of
           Some e \<Rightarrow>
             if \<not> errors_is e ErrNoWork then
               let n = (case map_get failures workerID of None \<Rightarrow> 0 | Some n \<Rightarrow> n) + 1;
                   failures' = map_put workerID n failures
               in if n \<ge> count then (Some (Joined [ErrWorkerShutdown, e]), failures')
                  else (Some e, failures')
             else (err, map_put workerID 0 failures)
         | None \<Rightarrow> (err, map_put workerID 0 failures)))"

section \<open>Outcomes of an iteration\<close>

text \<open>Where an iteration leaves a job that had failed \<open>n\<close> times and ended with \<open>err\<close>.\<close>

definition retry_limit :: "'j job_iface \<Rightarrow> runner_config \<Rightarrow> 'j \<Rightarrow> int" where
  "retry_limit iface r j =
     (case ji_RetryLimit iface of
        Some f \<Rightarrow> if f j > 0 then f j else rc_maxAttempts r
      | None \<Rightarrow> rc_maxAttempts r)"

definition run_outcome :: "int \<Rightarrow> int \<Rightarrow> error \<Rightarrow> status \<times> int" where
  "run_outcome limit n err =
     (case err of
        None \<Rightarrow> (StatusCompleted, n)
      | Some e \<Rightarrow>
          if as_permanent e \<noteq> None then (StatusDeadLetter, n + 1)
          else if as_deferred e \<noteq> None then (StatusPending, n)
          else if n + 1 \<ge> limit then (StatusDeadLetter, n + 1)
          else (StatusPending, n + 1))"

text \<open>
  The settlement an error asks for: what becomes of the job and whether the dead-letter hook
  runs.  \<open>l\<close> is the lease, \<open>n\<close> the attempts including this claim.
\<close>

definition settlement :: "fenced_runner \<Rightarrow> string \<Rightarrow> time \<Rightarrow> int \<Rightarrow> error \<Rightarrow> phase" where
  "settlement r l now n err =
     (case err of
        None \<Rightarrow> Done StatusCompleted l n
      | Some e \<Rightarrow>
          if as_permanent e \<noteq> None then Done StatusDeadLetter l n
          else case as_deferred e of
            Some (until, reason) \<Rightarrow> Waiting until (n - 1)
          | None \<Rightarrow>
              (case fr_retryDecider r of
                 None \<Rightarrow> Done StatusDeadLetter l n
               | Some decide \<Rightarrow>
                   (case decide e n of
                      (delay, True) \<Rightarrow> Waiting (now + delay) n
                    | (delay, False) \<Rightarrow> Done StatusDeadLetter l n)))"

definition hooked :: "('j \<Rightarrow> string \<Rightarrow> 's \<Rightarrow> error \<times> 's) option \<Rightarrow> 'j \<Rightarrow> error \<Rightarrow> phase \<Rightarrow> 's \<Rightarrow> 's" where
  "hooked deadLetter j err p s =
     (case (deadLetter, err, p) of
        (Some hook, Some e, Done st l n) \<Rightarrow> if st = StatusDeadLetter then snd (hook j (error_text e) s) else s
      | _ \<Rightarrow> s)"

abbreviation timeout_of :: "fenced_runner \<Rightarrow> duration option" where
  "timeout_of r \<equiv> (if fr_processTimeout r > 0 then Some (fr_processTimeout r) else None)"

section \<open>The store contracts, and what an iteration does under them\<close>

text \<open>
  \<open>JobStore\<close>: \<open>view\<close> is what the contract speaks about, the status and the failure count of a
  job.  A settlement of a job that is already terminal changes nothing.
\<close>

locale job_store_laws =
  fixes store :: "('j, 's) job_store"
    and iface :: "'j job_iface"
    and inv :: "'s \<Rightarrow> bool"
    and view :: "string \<Rightarrow> 's \<Rightarrow> (status \<times> int) option"
  assumes claim_none: "inv s \<Longrightarrow> js_Claim store w t s = (Inl e, s') \<Longrightarrow> s' = s"
    and claim_some: "inv s \<Longrightarrow> js_Claim store w t s = (Inr j, s') \<Longrightarrow>
      inv s' \<and> (\<exists>n. view (ji_ID iface j) s' = Some (StatusRunning, n))"
    and complete_active: "inv s \<Longrightarrow> view i s = Some (st, n) \<Longrightarrow> \<not> Terminal st \<Longrightarrow>
      \<exists>s'. js_Complete store i t s = (None, s') \<and> inv s' \<and> view i s' = Some (StatusCompleted, n)"
    and complete_settled: "inv s \<Longrightarrow> view i s = Some (st, n) \<Longrightarrow> Terminal st \<Longrightarrow>
      js_Complete store i t s = (if st = StatusCompleted then None else Some ErrConflict, s)"
    and fail_active: "inv s \<Longrightarrow> view i s = Some (st, n) \<Longrightarrow> \<not> Terminal st \<Longrightarrow>
      \<exists>s'. js_Fail store i t r m s = (None, s') \<and> inv s' \<and>
        view i s' = Some (if n + 1 \<ge> m then StatusDeadLetter else StatusPending, n + 1)"
    and fail_settled: "inv s \<Longrightarrow> view i s = Some (st, n) \<Longrightarrow> Terminal st \<Longrightarrow>
      js_Fail store i t r m s = (if st = StatusDeadLetter then None else Some ErrConflict, s)"
    and defer_running: "inv s \<Longrightarrow> js_Defer store = Some dfr \<Longrightarrow> view i s = Some (StatusRunning, n) \<Longrightarrow>
      t < at \<Longrightarrow> \<exists>s'. dfr i at r t s = (None, s') \<and> inv s' \<and> view i s' = Some (StatusPending, n)"
    and view_nonneg: "inv s \<Longrightarrow> view i s = Some (st, n) \<Longrightarrow> 0 \<le> n"
begin

lemma work_no_claim:
  assumes "inv s" and "js_Claim store w clock1 s = (Inl e, s1)"
  shows "Runner_work store iface process r w clock1 now s = (Some e, s)"
  using assms claim_none [OF assms] by (simp add: Runner_work_def)

lemma work_settles:
  assumes inv: "inv s" and claim: "js_Claim store w clock1 s = (Inr j, s1)"
    and proc: "runProcess process j s1 = (err, s2)" and inv2: "inv s2"
    and running: "view (ji_ID iface j) s2 = Some (StatusRunning, n)"
    and deferral: "\<And>e until reason. err = Some e \<Longrightarrow> as_permanent e = None \<Longrightarrow>
      as_deferred e = Some (until, reason) \<Longrightarrow> now < until \<and> js_Defer store \<noteq> None"
  shows "\<exists>s3. Runner_work store iface process r w clock1 now s = (None, s3) \<and> inv s3 \<and>
    view (ji_ID iface j) s3 = Some (run_outcome (retry_limit iface r j) n err)"
proof (cases err)
  case None
  then show ?thesis
    using claim proc complete_active [OF inv2 running, of now]
    by (auto simp: Runner_work_def run_outcome_def)
next
  case (Some e)
  have n: "0 \<le> n" by (rule view_nonneg [OF inv2 running])
  show ?thesis
  proof (cases "as_permanent e = None \<and> as_deferred e \<noteq> None")
    case True
    then obtain until reason where d: "as_deferred e = Some (until, reason)" by auto
    with deferral [OF Some] True obtain dfr where "now < until" "js_Defer store = Some dfr" by auto
    with defer_running [OF inv2 this(2) running this(1), of reason] show ?thesis
      using Some True d claim proc by (auto simp: Runner_work_def run_outcome_def)
  next
    case False
    let ?m = "if as_permanent e \<noteq> None then 1 else retry_limit iface r j"
    obtain s3 where "js_Fail store (ji_ID iface j) now (error_text e) ?m s2 = (None, s3)" "inv s3"
      "view (ji_ID iface j) s3 = Some (if n + 1 \<ge> ?m then StatusDeadLetter else StatusPending, n + 1)"
      using fail_active [OF inv2 running, of now "error_text e" ?m] by auto
    then show ?thesis
      using Some False claim proc n
      by (cases "as_permanent e"; cases "as_deferred e")
        (auto simp: Runner_work_def run_outcome_def retry_limit_def Let_def)
  qed
qed

text \<open>A job settled by somebody else while it was processed is not changed by a late settlement.\<close>

lemma work_settled_elsewhere:
  assumes inv: "inv s" and claim: "js_Claim store w clock1 s = (Inr j, s1)"
    and proc: "runProcess process j s1 = (err, s2)" and inv2: "inv s2"
    and settled: "view (ji_ID iface j) s2 = Some (st, n)" "Terminal st"
    and plain: "\<And>e. err = Some e \<Longrightarrow> as_permanent e = None \<Longrightarrow> as_deferred e = None"
  shows "snd (Runner_work store iface process r w clock1 now s) = s2"
proof (cases err)
  case None
  then show ?thesis
    using claim proc complete_settled [OF inv2 settled, of now] by (simp add: Runner_work_def)
next
  case (Some e)
  have "js_Fail store (ji_ID iface j) now (error_text e) m s2 =
      (if st = StatusDeadLetter then None else Some ErrConflict, s2)" for m
    by (rule fail_settled [OF inv2 settled])
  then show ?thesis
    using Some claim proc plain [OF Some]
    by (cases "as_permanent e"; cases "st = StatusDeadLetter")
      (simp_all add: Runner_work_def Let_def)
qed

end

text \<open>
  \<open>FencedStore\<close>: \<open>phase\<close> is the lifecycle of a job.  A transition under a live lease succeeds; one
  under a lease that was lost or has expired is refused with \<open>sdk.ErrConflict\<close> (or
  \<open>sdk.ErrNotFound\<close> when the job is gone) and changes nothing.
\<close>

definition lease_gone :: "string \<Rightarrow> time \<Rightarrow> phase \<Rightarrow> bool" where
  "lease_gone l now p =
     (case p of
        Held l' u n \<Rightarrow> l' \<noteq> l \<or> u \<le> now
      | Done st l' n \<Rightarrow> l' \<noteq> l \<or> st \<in> {StatusCanceled, StatusSuperseded}
      | _ \<Rightarrow> True)"

definition refused :: "phase \<Rightarrow> 's \<Rightarrow> error \<times> 's \<Rightarrow> bool" where
  "refused p s out \<longleftrightarrow>
     (\<exists>e. out = (Some e, s) \<and> (errors_is e ErrConflict \<or> p = Absent \<and> errors_is e ErrNotFound))"

locale fenced_store_laws =
  fixes store :: "('j, 's) fenced_store"
    and iface :: "'j job_iface"
    and inv :: "'s \<Rightarrow> bool"
    and phase :: "string \<Rightarrow> 's \<Rightarrow> phase"
  assumes claim_none: "inv s \<Longrightarrow> fs_Claim store t l d s = (Inl e, s') \<Longrightarrow> s' = s"
    and claim_some: "inv s \<Longrightarrow> fs_Claim store t l d s = (Inr j, s') \<Longrightarrow>
      inv s' \<and> phase (ji_ID iface j) s' = Held l (t + d) (ji_RetryCount iface j)"
    and complete_held: "inv s \<Longrightarrow> phase i s = Held l u n \<Longrightarrow> t < u \<Longrightarrow>
      \<exists>s'. fs_Complete store i l t s = (None, s') \<and> inv s' \<and> phase i s' = Done StatusCompleted l n"
    and complete_lost: "inv s \<Longrightarrow> lease_gone l t (phase i s) \<Longrightarrow>
      refused (phase i s) s (fs_Complete store i l t s)"
    and fail_held: "inv s \<Longrightarrow> phase i s = Held l u n \<Longrightarrow> t < u \<Longrightarrow>
      \<exists>s'. fs_Fail store i l r t s = (None, s') \<and> inv s' \<and> phase i s' = Done StatusDeadLetter l n"
    and fail_lost: "inv s \<Longrightarrow> lease_gone l t (phase i s) \<Longrightarrow>
      refused (phase i s) s (fs_Fail store i l r t s)"
    and reschedule_held: "inv s \<Longrightarrow> phase i s = Held l u n \<Longrightarrow> t < u \<Longrightarrow>
      \<exists>s'. fs_Reschedule store i l at r t s = (None, s') \<and> inv s' \<and> phase i s' = Waiting at n"
    and reschedule_lost: "inv s \<Longrightarrow> lease_gone l t (phase i s) \<Longrightarrow>
      refused (phase i s) s (fs_Reschedule store i l at r t s)"
    and defer_held: "inv s \<Longrightarrow> fs_Defer store = Some dfr \<Longrightarrow> phase i s = Held l u n \<Longrightarrow> t < u \<Longrightarrow>
      t < at \<Longrightarrow> \<exists>s'. dfr i l at r t s = (None, s') \<and> inv s' \<and> phase i s' = Waiting at (n - 1)"
    and defer_lost: "inv s \<Longrightarrow> fs_Defer store = Some dfr \<Longrightarrow> lease_gone l t (phase i s) \<Longrightarrow>
      t < at \<Longrightarrow> refused (phase i s) s (dfr i l at r t s)"
begin

lemma work_no_claim:
  assumes "inv s" and "fs_Claim store clock1 l (fr_leaseFor r) s = (Inl e, s1)"
  shows "FencedRunner_work store iface process dl r l clock1 now ctxErr s = (Some e, s)"
  using assms claim_none [OF assms] by (simp add: FencedRunner_work_def record_failure_def)

lemma work_shutdown:
  assumes "fs_Claim store clock1 l (fr_leaseFor r) s = (Inr j, s1)"
    and "runProcess (process (timeout_of r)) j s1 = (err, s2)" and "ctxErr \<noteq> None"
  shows "FencedRunner_work store iface process dl r l clock1 now ctxErr s = (None, s2)"
  using assms by (simp add: FencedRunner_work_def record_failure_def Let_def)

lemma work_settles:
  assumes claim: "fs_Claim store clock1 l (fr_leaseFor r) s = (Inr j, s1)"
    and proc: "runProcess (process (timeout_of r)) j s1 = (err, s2)" and inv2: "inv s2"
    and held: "phase (ji_ID iface j) s2 = Held l u (ji_RetryCount iface j)" "now < u"
    and deferral: "\<And>e until reason. err = Some e \<Longrightarrow> as_permanent e = None \<Longrightarrow>
      as_deferred e = Some (until, reason) \<Longrightarrow> now < until \<and> fs_Defer store \<noteq> None"
  shows "\<exists>s3. inv s3 \<and>
    phase (ji_ID iface j) s3 = settlement r l now (ji_RetryCount iface j) err \<and>
    FencedRunner_work store iface process dl r l clock1 now None s =
      (None, hooked dl j err (phase (ji_ID iface j) s3) s3)"
proof (cases err)
  case None
  obtain s3 where "fs_Complete store (ji_ID iface j) l now s2 = (None, s3)" "inv s3"
    "phase (ji_ID iface j) s3 = Done StatusCompleted l (ji_RetryCount iface j)"
    using complete_held [OF inv2 held] by auto
  then show ?thesis
    using None claim proc
    by (intro exI [of _ s3]) (simp add: FencedRunner_work_def record_failure_def settlement_def hooked_def transition_def
        split: option.splits)
next
  case (Some e)
  obtain s3 where fail: "fs_Fail store (ji_ID iface j) l (error_text e) now s2 = (None, s3)" "inv s3"
    "phase (ji_ID iface j) s3 = Done StatusDeadLetter l (ji_RetryCount iface j)"
    using fail_held [OF inv2 held] by auto
  have failed: ?thesis
    if "settlement r l now (ji_RetryCount iface j) err = Done StatusDeadLetter l (ji_RetryCount iface j)"
      and "FencedRunner_work store iface process dl r l clock1 now None s =
        (case dl of Some hook \<Rightarrow> (None, snd (hook j (error_text e) s3)) | None \<Rightarrow> (None, s3))"
    using fail Some that by (intro exI [of _ s3]) (auto simp: hooked_def split: option.splits)
  consider (permanent) x where "as_permanent e = Some x"
    | (deferred) until reason where "as_permanent e = None" "as_deferred e = Some (until, reason)"
    | (retry) decide delay where "as_permanent e = None" "as_deferred e = None"
        "fr_retryDecider r = Some decide" "decide e (ji_RetryCount iface j) = (delay, True)"
    | (dead) "as_permanent e = None" "as_deferred e = None" "fr_retryDecider r = None"
    | (exhausted) decide delay where "as_permanent e = None" "as_deferred e = None"
        "fr_retryDecider r = Some decide" "decide e (ji_RetryCount iface j) = (delay, False)"
    by (cases "as_permanent e"; cases "as_deferred e"; cases "fr_retryDecider r";
        cases "the (fr_retryDecider r) e (ji_RetryCount iface j)";
        cases "snd (the (fr_retryDecider r) e (ji_RetryCount iface j))") auto
  then show ?thesis
  proof cases
    case deferred
    with deferral [OF Some] obtain dfr where "now < until" "fs_Defer store = Some dfr" by auto
    with defer_held [OF inv2 this(2) held this(1), of reason] deferred Some claim proc show ?thesis
      by (auto simp: FencedRunner_work_def record_failure_def settlement_def hooked_def transition_def split: option.splits)
  next
    case retry
    with reschedule_held [OF inv2 held, of "now + delay" "error_text e"] Some claim proc show ?thesis
      by (auto simp: FencedRunner_work_def record_failure_def settlement_def hooked_def transition_def split: option.splits)
  next
    case permanent
    with Some claim proc fail show ?thesis
      by (intro failed) (simp_all add: FencedRunner_work_def record_failure_def settlement_def)
  next
    case dead
    with Some claim proc fail show ?thesis
      by (intro failed) (simp_all add: FencedRunner_work_def record_failure_def settlement_def)
  next
    case exhausted
    with Some claim proc fail show ?thesis
      by (intro failed) (simp_all add: FencedRunner_work_def record_failure_def settlement_def)
  qed
qed

text \<open>
  Losing the lease while processing, whatever the handler returned: nothing is recorded, the hook
  does not run, and a lost lease is not an iteration error.
\<close>

lemma work_lost:
  assumes claim: "fs_Claim store clock1 l (fr_leaseFor r) s = (Inr j, s1)"
    and proc: "runProcess (process (timeout_of r)) j s1 = (err, s2)" and inv2: "inv s2"
    and lost: "lease_gone l now (phase (ji_ID iface j) s2)"
  shows "snd (FencedRunner_work store iface process dl r l clock1 now None s) = s2 \<and>
    (phase (ji_ID iface j) s2 \<noteq> Absent \<longrightarrow>
     (\<forall>e. err = Some e \<longrightarrow> as_permanent e = None \<longrightarrow> as_deferred e = None) \<longrightarrow>
       fst (FencedRunner_work store iface process dl r l clock1 now None s) = None)"
proof -
  let ?i = "ji_ID iface j"
  have complete: "\<exists>e. fs_Complete store ?i l now s2 = (Some e, s2) \<and> (phase ?i s2 \<noteq> Absent \<longrightarrow> errors_is e ErrConflict)"
    using complete_lost [OF inv2 lost] by (auto simp: refused_def)
  have fail: "\<exists>e. fs_Fail store ?i l x now s2 = (Some e, s2) \<and> (phase ?i s2 \<noteq> Absent \<longrightarrow> errors_is e ErrConflict)" for x
    using fail_lost [OF inv2 lost] by (auto simp: refused_def)
  have resched: "\<exists>e. fs_Reschedule store ?i l at x now s2 = (Some e, s2) \<and> (phase ?i s2 \<noteq> Absent \<longrightarrow> errors_is e ErrConflict)" for at x
    using reschedule_lost [OF inv2 lost] by (auto simp: refused_def)
  have dfr: "\<exists>e. dfr ?i l at x now s2 = (Some e, s2)" if "fs_Defer store = Some dfr" "now < at" for dfr at x
    using defer_lost [OF inv2 that(1) lost that(2)] by (auto simp: refused_def)
  show ?thesis
  proof (cases err)
    case None
    then show ?thesis
      using complete claim proc by (auto simp: FencedRunner_work_def record_failure_def transition_def)
  next
    case (Some e)
    obtain fe where fe: "fs_Fail store ?i l (error_text e) now s2 = (Some fe, s2)"
      "phase ?i s2 \<noteq> Absent \<longrightarrow> errors_is fe ErrConflict"
      using fail by blast
    have "\<forall>at. \<exists>x. fs_Reschedule store ?i l at (error_text e) now s2 = (Some x, s2) \<and>
        (phase ?i s2 \<noteq> Absent \<longrightarrow> errors_is x ErrConflict)"
      using resched by blast
    then obtain re where re: "\<forall>at. fs_Reschedule store ?i l at (error_text e) now s2 = (Some (re at), s2) \<and>
        (phase ?i s2 \<noteq> Absent \<longrightarrow> errors_is (re at) ErrConflict)"
      by metis
    note work = FencedRunner_work_def record_failure_def transition_def claim proc Some
    show ?thesis
    proof (cases "as_permanent e = None \<and> as_deferred e \<noteq> None")
      case True
      then obtain until reason where d: "as_deferred e = Some (until, reason)" by auto
      show ?thesis
      proof (cases "now < until \<and> fs_Defer store \<noteq> None")
        case True
        then obtain f x where "fs_Defer store = Some f" "f ?i l until reason now s2 = (Some x, s2)"
          using dfr by blast
        with True d \<open>as_permanent e = None \<and> _\<close> show ?thesis by (simp add: work)
      qed (use d \<open>as_permanent e = None \<and> _\<close> in \<open>auto simp: work Let_def\<close>)
    next
      case False
      then show ?thesis
        using fe re
        by (cases "as_permanent e"; cases "as_deferred e"; cases "fr_retryDecider r";
            cases "the (fr_retryDecider r) e (ji_RetryCount iface j)";
            cases "snd (the (fr_retryDecider r) e (ji_RetryCount iface j))") (simp_all add: work Let_def)
    qed
  qed
qed

end

section \<open>Stopping a failing worker\<close>

definition counts_as_error :: "error \<Rightarrow> bool" where
  "counts_as_error r = (case r of None \<Rightarrow> False | Some e \<Rightarrow> \<not> errors_is e ErrNoWork)"

definition is_shutdown :: "error \<Rightarrow> bool" where
  "is_shutdown r = (case r of None \<Rightarrow> False | Some e \<Rightarrow> errors_is e ErrPoolShutdown \<or> errors_is e ErrWorkerShutdown)"

text \<open>
  The results one middleware saw, newest first, each with the worker that produced it; the streak
  of a worker is the number of its latest results that are errors.
\<close>

fun ces_state :: "int \<Rightarrow> (string \<times> error) list \<Rightarrow> (string, int) go_map" where
  "ces_state cnt [] = []"
| "ces_state cnt ((w, r) # evs) = snd (ConsecutiveErrorShutdown cnt w r (ces_state cnt evs))"

definition streak :: "string \<Rightarrow> (string \<times> error) list \<Rightarrow> nat" where
  "streak w evs = length (takeWhile counts_as_error
     (map snd (filter (\<lambda>(v, r). v = w \<and> \<not> is_shutdown r) evs)))"

lemma streak_Cons:
  "streak w ((v, r) # evs) =
     (if v \<noteq> w \<or> is_shutdown r then streak w evs else if counts_as_error r then Suc (streak w evs) else 0)"
  by (simp add: streak_def)

lemma ces_counts:
  "(case map_get (ces_state cnt evs) w of None \<Rightarrow> 0 | Some n \<Rightarrow> n) = int (streak w evs)"
proof (induction evs)
  case (Cons ev evs)
  obtain v r where ev: "ev = (v, r)" by (cases ev)
  with Cons show ?case
    by (cases r) (auto simp: streak_Cons ConsecutiveErrorShutdown_def is_shutdown_def
        counts_as_error_def Let_def)
qed (simp add: streak_def)

text \<open>
  \<open>ConsecutiveErrorShutdown\<close> stops exactly the worker whose last \<open>count\<close> results in a
  row are errors.  Whatever the interleaving with other workers, the middleware turns a result into
  a worker shutdown if and only if it is an error that brings that worker's own streak to \<open>count\<close>
  (at least one); every other result, in particular no-work and shutdown requests, passes through
  unchanged.
\<close>

theorem ConsecutiveErrorShutdown_exact:
  "fst (ConsecutiveErrorShutdown cnt w r (ces_state cnt evs)) =
     (case r of
        Some e \<Rightarrow>
          if counts_as_error r \<and> \<not> is_shutdown r \<and> max 1 cnt \<le> int (streak w ((w, r) # evs))
          then Some (Joined [ErrWorkerShutdown, e]) else r
      | None \<Rightarrow> None)"
proof (cases r)
  case (Some e)
  have "(case map_get (ces_state cnt evs) w of None \<Rightarrow> 0 | Some n \<Rightarrow> n) = int (streak w evs)"
    by (rule ces_counts)
  with Some show ?thesis
    by (auto simp: streak_Cons ConsecutiveErrorShutdown_def is_shutdown_def counts_as_error_def Let_def)
qed (simp add: ConsecutiveErrorShutdown_def Let_def)

end
