(* ===== verification/Queue_Ports.thy ===== *)
theory Queue_Ports
  imports Fenced_Keys Workers
begin

text \<open>
  The outbound ports of the jobs pocket, \<open>QueueRepository\<close> (with its optional \<open>QueueDeferrer\<close> and
  \<open>TerminalPurger\<close>) of \<open>src/pockets/jobs/logic/queue/job.go\<close> and \<open>FencedQueueRepository\<close> (with
  its optional \<open>FencedQueueDeferrer\<close>) of \<open>logic/queue/fenced.go\<close>, as records of operations over a
  store state; the in-memory stores as such records; and the kind-scoped adapters of
  \<open>runtime.go\<close> and \<open>fenced_runtime.go\<close> that turn a port into the store a runner of
  \<open>sdk/pkg/workers\<close> drives.  The documented contract of each port is a locale; the adapter of a
  port that keeps its contract keeps the contract of the runner (a sublocale), and the in-memory
  stores keep the contract of their port (an interpretation).
\<close>

section \<open>Ports\<close>

record 's queue_repo =
  qp_Enqueue :: "enqueue \<Rightarrow> 's \<Rightarrow> job res \<times> 's"
  qp_Claim :: "string \<Rightarrow> time \<Rightarrow> string list \<Rightarrow> 's \<Rightarrow> job res \<times> 's"
  qp_Complete :: "string \<Rightarrow> time \<Rightarrow> 's \<Rightarrow> error \<times> 's"
  qp_Fail :: "string \<Rightarrow> time \<Rightarrow> string \<Rightarrow> int \<Rightarrow> 's \<Rightarrow> error \<times> 's"
  qp_Get :: "string \<Rightarrow> 's \<Rightarrow> job res"
  qp_Defer :: "(string \<Rightarrow> time \<Rightarrow> string \<Rightarrow> time \<Rightarrow> 's \<Rightarrow> error \<times> 's) option"
  qp_PurgeTerminal :: "(time \<Rightarrow> int \<Rightarrow> 's \<Rightarrow> nat res \<times> 's) option"

record 's fenced_repo =
  fp_EnqueueOnce :: "enqueue \<Rightarrow> 's \<Rightarrow> job res \<times> 's"
  fp_Replace :: "enqueue \<Rightarrow> 's \<Rightarrow> job res \<times> 's"
  fp_Claim :: "time \<Rightarrow> string \<Rightarrow> duration \<Rightarrow> string list \<Rightarrow> 's \<Rightarrow> job res \<times> 's"
  fp_Checkpoint :: "string \<Rightarrow> string \<Rightarrow> bytes \<Rightarrow> time \<Rightarrow> 's \<Rightarrow> error \<times> 's"
  fp_Complete :: "string \<Rightarrow> string \<Rightarrow> time \<Rightarrow> 's \<Rightarrow> error \<times> 's"
  fp_Reschedule :: "string \<Rightarrow> string \<Rightarrow> time \<Rightarrow> string \<Rightarrow> time \<Rightarrow> 's \<Rightarrow> error \<times> 's"
  fp_Fail :: "string \<Rightarrow> string \<Rightarrow> string \<Rightarrow> time \<Rightarrow> 's \<Rightarrow> error \<times> 's"
  fp_Cancel :: "string \<Rightarrow> time \<Rightarrow> 's \<Rightarrow> error \<times> 's"
  fp_PurgeTerminal :: "time \<Rightarrow> int \<Rightarrow> 's \<Rightarrow> nat res \<times> 's"
  fp_GetLatestByKey :: "string \<Rightarrow> 's \<Rightarrow> job res"
  fp_Get :: "string \<Rightarrow> 's \<Rightarrow> job res"
  fp_Defer :: "(string \<Rightarrow> string \<Rightarrow> time \<Rightarrow> string \<Rightarrow> time \<Rightarrow> 's \<Rightarrow> error \<times> 's) option"

text \<open>
  The in-memory stores as ports.  They read the wall clock when they insert; \<open>c\<close> (and \<open>c1\<close>, \<open>c2\<close>
  for \<open>Replace\<close>, which reads it twice) are those readings.
\<close>

definition memory_queue :: "time \<Rightarrow> queue queue_repo" where
  "memory_queue c =
     \<lparr>qp_Enqueue = Queue_Enqueue c, qp_Claim = Queue_Claim, qp_Complete = Queue_Complete,
      qp_Fail = Queue_Fail, qp_Get = Queue_Get, qp_Defer = Some Queue_Defer,
      qp_PurgeTerminal = Some Queue_PurgeTerminal\<rparr>"

definition memory_fenced :: "time \<Rightarrow> time \<Rightarrow> fenced_queue fenced_repo" where
  "memory_fenced c1 c2 =
     \<lparr>fp_EnqueueOnce = FencedQueue_EnqueueOnce c1, fp_Replace = FencedQueue_Replace c1 c2,
      fp_Claim = FencedQueue_Claim, fp_Checkpoint = FencedQueue_Checkpoint,
      fp_Complete = FencedQueue_Complete, fp_Reschedule = FencedQueue_Reschedule,
      fp_Fail = FencedQueue_Fail, fp_Cancel = FencedQueue_Cancel,
      fp_PurgeTerminal = FencedQueue_PurgeTerminal, fp_GetLatestByKey = FencedQueue_GetLatestByKey,
      fp_Get = FencedQueue_Get, fp_Defer = Some FencedQueue_Defer\<rparr>"

definition job_methods :: "job job_iface" where
  "job_methods = \<lparr>ji_ID = j_JobID, ji_RetryLimit = Some j_MaxAttempts, ji_RetryCount = j_Retries\<rparr>"

section \<open>Kind-scoped adapters\<close>

text \<open>
  The adapters always have a \<open>Defer\<close> method, which answers \<open>ErrDeferralUnsupported\<close> when the
  wrapped port has none.
\<close>

definition kindScopedQueue :: "'s queue_repo \<Rightarrow> string list \<Rightarrow> (job, 's) job_store" where
  "kindScopedQueue repo kinds =
     \<lparr>js_Claim = (\<lambda>workerID now. qp_Claim repo workerID now kinds),
      js_Complete = qp_Complete repo,
      js_Fail = qp_Fail repo,
      js_Defer = Some (\<lambda>jid availableAt reason now s.
        case qp_Defer repo of
          None \<Rightarrow> (Some ErrDeferralUnsupported, s)
        | Some dfr \<Rightarrow> dfr jid availableAt reason now s)\<rparr>"

text \<open>
  \<open>kindScopedFenced.Claim\<close>.  \<open>drain\<close> is \<open>None\<close> when the context carries no drain state; otherwise
  it holds the error of the parent context before and after the claim.
\<close>

definition kindScopedFenced_Claim ::
    "'s fenced_repo \<Rightarrow> string list \<Rightarrow> (error \<times> error) option \<Rightarrow> time \<Rightarrow> string \<Rightarrow> duration \<Rightarrow> 's \<Rightarrow>
     job res \<times> 's" where
  "kindScopedFenced_Claim repo kinds drain now leaseID leaseFor s =
     (case drain of
        None \<Rightarrow> fp_Claim repo now leaseID leaseFor kinds s
      | Some (parentErr, parentErr') \<Rightarrow>
          if parentErr \<noteq> None then (Inl ErrNoWork, s)
          else (case fp_Claim repo now leaseID leaseFor kinds s of
                  (Inl err, s') \<Rightarrow> (Inl (if parentErr' \<noteq> None then ErrNoWork else err), s')
                | (Inr j, s') \<Rightarrow> (Inr j, s')))"

definition kindScopedFenced ::
    "'s fenced_repo \<Rightarrow> string list \<Rightarrow> (error \<times> error) option \<Rightarrow> (job, 's) fenced_store" where
  "kindScopedFenced repo kinds drain =
     \<lparr>fs_Claim = kindScopedFenced_Claim repo kinds drain,
      fs_Complete = fp_Complete repo,
      fs_Fail = fp_Fail repo,
      fs_Reschedule = fp_Reschedule repo,
      fs_Defer = Some (\<lambda>jid leaseID availableAt reason now s.
        case fp_Defer repo of
          None \<Rightarrow> (Some ErrDeferralUnsupported, s)
        | Some dfr \<Rightarrow> dfr jid leaseID availableAt reason now s)\<rparr>"

section \<open>The contract of the ordinary queue\<close>

locale queue_repo_laws =
  fixes repo :: "'s queue_repo"
    and inv :: "'s \<Rightarrow> bool"
    and view :: "string \<Rightarrow> 's \<Rightarrow> (status \<times> int) option"
  assumes claim_none: "inv s \<Longrightarrow> qp_Claim repo w t ks s = (Inl e, s') \<Longrightarrow> s' = s"
    and claim_some: "inv s \<Longrightarrow> qp_Claim repo w t ks s = (Inr j, s') \<Longrightarrow>
      inv s' \<and> kindAllowed ks (j_Kind j) \<and> (\<exists>n. view (j_JobID j) s' = Some (StatusRunning, n))"
    and complete_active: "inv s \<Longrightarrow> view i s = Some (st, n) \<Longrightarrow> \<not> Terminal st \<Longrightarrow>
      \<exists>s'. qp_Complete repo i t s = (None, s') \<and> inv s' \<and> view i s' = Some (StatusCompleted, n)"
    and complete_settled: "inv s \<Longrightarrow> view i s = Some (st, n) \<Longrightarrow> Terminal st \<Longrightarrow>
      qp_Complete repo i t s = (if st = StatusCompleted then None else Some ErrConflict, s)"
    and fail_active: "inv s \<Longrightarrow> view i s = Some (st, n) \<Longrightarrow> \<not> Terminal st \<Longrightarrow>
      \<exists>s'. qp_Fail repo i t r m s = (None, s') \<and> inv s' \<and>
        view i s' = Some (if n + 1 \<ge> m then StatusDeadLetter else StatusPending, n + 1)"
    and fail_settled: "inv s \<Longrightarrow> view i s = Some (st, n) \<Longrightarrow> Terminal st \<Longrightarrow>
      qp_Fail repo i t r m s = (if st = StatusDeadLetter then None else Some ErrConflict, s)"
    and defer_running: "inv s \<Longrightarrow> qp_Defer repo = Some dfr \<Longrightarrow> view i s = Some (StatusRunning, n) \<Longrightarrow>
      t < at \<Longrightarrow> \<exists>s'. dfr i at r t s = (None, s') \<and> inv s' \<and> view i s' = Some (StatusPending, n)"
    and defers: "qp_Defer repo \<noteq> None"
    and view_nonneg: "inv s \<Longrightarrow> view i s = Some (st, n) \<Longrightarrow> 0 \<le> n"

locale kind_scoped_queue = queue_repo_laws repo inv view
  for repo :: "'s queue_repo" and inv :: "'s \<Rightarrow> bool" and view :: "string \<Rightarrow> 's \<Rightarrow> (status \<times> int) option" +
  fixes kinds :: "string list"

sublocale kind_scoped_queue \<subseteq> job_store_laws "kindScopedQueue repo kinds" job_methods inv view
proof
  fix s i dfr n t at r
  assume "inv s" "js_Defer (kindScopedQueue repo kinds) = Some dfr" "view i s = Some (StatusRunning, n)" "(t::int) < at"
  then show "\<exists>s'. dfr i at r t s = (None, s') \<and> inv s' \<and> view i s' = Some (StatusPending, n)"
    using defers defer_running by (auto simp: kindScopedQueue_def)
qed (use claim_none claim_some complete_active complete_settled fail_active fail_settled view_nonneg in
    \<open>auto simp: kindScopedQueue_def job_methods_def\<close>)

section \<open>The contract of the fenced queue\<close>

locale fenced_repo_laws =
  fixes repo :: "'s fenced_repo"
    and inv :: "'s \<Rightarrow> bool"
    and phase :: "string \<Rightarrow> 's \<Rightarrow> phase"
  assumes claim_none: "inv s \<Longrightarrow> fp_Claim repo t l d ks s = (Inl e, s') \<Longrightarrow> s' = s"
    and claim_some: "inv s \<Longrightarrow> fp_Claim repo t l d ks s = (Inr j, s') \<Longrightarrow>
      inv s' \<and> kindAllowed ks (j_Kind j) \<and> phase (j_JobID j) s' = Held l (t + d) (j_Retries j)"
    and complete_held: "inv s \<Longrightarrow> phase i s = Held l u n \<Longrightarrow> t < u \<Longrightarrow>
      \<exists>s'. fp_Complete repo i l t s = (None, s') \<and> inv s' \<and> phase i s' = Done StatusCompleted l n"
    and complete_lost: "inv s \<Longrightarrow> lease_gone l t (phase i s) \<Longrightarrow>
      refused (phase i s) s (fp_Complete repo i l t s)"
    and fail_held: "inv s \<Longrightarrow> phase i s = Held l u n \<Longrightarrow> t < u \<Longrightarrow>
      \<exists>s'. fp_Fail repo i l r t s = (None, s') \<and> inv s' \<and> phase i s' = Done StatusDeadLetter l n"
    and fail_lost: "inv s \<Longrightarrow> lease_gone l t (phase i s) \<Longrightarrow>
      refused (phase i s) s (fp_Fail repo i l r t s)"
    and reschedule_held: "inv s \<Longrightarrow> phase i s = Held l u n \<Longrightarrow> t < u \<Longrightarrow>
      \<exists>s'. fp_Reschedule repo i l at r t s = (None, s') \<and> inv s' \<and> phase i s' = Waiting at n"
    and reschedule_lost: "inv s \<Longrightarrow> lease_gone l t (phase i s) \<Longrightarrow>
      refused (phase i s) s (fp_Reschedule repo i l at r t s)"
    and defer_held: "inv s \<Longrightarrow> fp_Defer repo = Some dfr \<Longrightarrow> phase i s = Held l u n \<Longrightarrow> t < u \<Longrightarrow>
      t < at \<Longrightarrow> \<exists>s'. dfr i l at r t s = (None, s') \<and> inv s' \<and> phase i s' = Waiting at (n - 1)"
    and defer_lost: "inv s \<Longrightarrow> fp_Defer repo = Some dfr \<Longrightarrow> lease_gone l t (phase i s) \<Longrightarrow>
      t < at \<Longrightarrow> refused (phase i s) s (dfr i l at r t s)"
    and defers: "fp_Defer repo \<noteq> None"

locale kind_scoped_fenced = fenced_repo_laws repo inv phase
  for repo :: "'s fenced_repo" and inv :: "'s \<Rightarrow> bool" and phase :: "string \<Rightarrow> 's \<Rightarrow> phase" +
  fixes kinds :: "string list" and drain :: "(error \<times> error) option"
begin

lemma scoped_claim_none:
  "inv s \<Longrightarrow> kindScopedFenced_Claim repo kinds drain t l d s = (Inl e, s') \<Longrightarrow> s' = s"
  using claim_none
  by (auto simp: kindScopedFenced_Claim_def split: option.splits if_splits prod.splits sum.splits)

lemma scoped_claim_some:
  "kindScopedFenced_Claim repo kinds drain t l d s = (Inr j, s') \<Longrightarrow>
     fp_Claim repo t l d kinds s = (Inr j, s')"
  by (auto simp: kindScopedFenced_Claim_def split: option.splits if_splits prod.splits sum.splits)

end

sublocale kind_scoped_fenced \<subseteq> fenced_store_laws "kindScopedFenced repo kinds drain" job_methods inv phase
proof
  fix s i dfr l u n t at r
  assume "inv s" "fs_Defer (kindScopedFenced repo kinds drain) = Some dfr" "phase i s = Held l u n"
    "t < u" "(t::int) < at"
  then show "\<exists>s'. dfr i l at r t s = (None, s') \<and> inv s' \<and> phase i s' = Waiting at (n - 1)"
    using defers defer_held by (auto simp: kindScopedFenced_def)
next
  fix s dfr l t i at r
  assume "inv s" "fs_Defer (kindScopedFenced repo kinds drain) = Some dfr" "lease_gone l t (phase i s)"
    "(t::int) < at"
  then show "refused (phase i s) s (dfr i l at r t s)"
    using defers defer_lost by (auto simp: kindScopedFenced_def)
next
  fix s t l d j s'
  assume "inv s" "fs_Claim (kindScopedFenced repo kinds drain) t l d s = (Inr j, s')"
  then show "inv s' \<and> phase (ji_ID job_methods j) s' = Held l (t + d) (ji_RetryCount job_methods j)"
    using claim_some [OF _ scoped_claim_some] by (auto simp: kindScopedFenced_def job_methods_def)
next
  fix s t l d e s'
  assume "inv s" "fs_Claim (kindScopedFenced repo kinds drain) t l d s = (Inl e, s')"
  then show "s' = s"
    using scoped_claim_none by (simp add: kindScopedFenced_def)
qed (use complete_held complete_lost fail_held fail_lost reschedule_held reschedule_lost in
    \<open>auto simp: kindScopedFenced_def\<close>)

section \<open>The in-memory stores keep the contracts\<close>

definition queue_view :: "string \<Rightarrow> queue \<Rightarrow> (status \<times> int) option" where
  "queue_view i q = map_option (\<lambda>j. (j_JobStatus j, j_Retries j)) (map_get (q_jobs q) i)"

lemma queue_view_put:
  "queue_view i (q\<lparr>q_jobs := map_put k j (q_jobs q)\<rparr>) =
     (if i = k then Some (j_JobStatus j, j_Retries j) else queue_view i q)"
  by (simp add: queue_view_def)

lemma queue_settle_inv:
  assumes "queue_inv q"
  shows "queue_inv (snd (Queue_Complete i t q))" and "queue_inv (snd (Queue_Fail i t r m q))"
    and "queue_inv (snd (Queue_Defer i at r t q))" and "queue_inv (snd (Queue_Claim w t ks q))"
  using queue_step_inv [OF assms, of "OpComplete i t"] queue_step_inv [OF assms, of "OpFail i t r m"]
    queue_step_inv [OF assms, of "OpDefer i at r t"] queue_step_inv [OF assms, of "OpClaim w t ks"]
  by simp_all

lemma Queue_Claim_result:
  assumes "queue_inv q"
  shows "Queue_Claim w t ks q = (Inl e, q') \<Longrightarrow> q' = q"
    and "Queue_Claim w t ks q = (Inr j, q') \<Longrightarrow> kindAllowed ks (j_Kind j) \<and>
      map_get (q_jobs q') (j_JobID j) = Some j \<and> j_JobStatus j = StatusRunning"
  using queue_inv_keyed [OF assms]
  by (cases rule: Queue_Claim_cases [where w = w and now = t and kinds = ks];
      auto simp: claimed_job_def claim_choice_def claimable_def)+

interpretation mq: queue_repo_laws "memory_queue c" queue_inv queue_view for c
proof
  fix s w t ks e s'
  assume inv: "queue_inv s" and "qp_Claim (memory_queue c) w t ks s = (Inl e, s')"
  then show "s' = s"
    using Queue_Claim_result(1) [OF inv] by (simp add: memory_queue_def)
next
  fix s w t ks j s'
  assume inv: "queue_inv s" and c: "qp_Claim (memory_queue c) w t ks s = (Inr j, s')"
  then have "queue_inv s'"
    using queue_settle_inv(4) [OF inv, of w t ks] by (simp add: memory_queue_def)
  with c Queue_Claim_result(2) [OF inv, of w t ks j s']
  show "queue_inv s' \<and> kindAllowed ks (j_Kind j) \<and> (\<exists>n. queue_view (j_JobID j) s' = Some (StatusRunning, n))"
    by (simp add: memory_queue_def queue_view_def)
next
  fix s i st n t
  assume "queue_inv s" "queue_view i s = Some (st, n)" "\<not> Terminal st"
  then show "\<exists>s'. qp_Complete (memory_queue c) i t s = (None, s') \<and> queue_inv s' \<and>
      queue_view i s' = Some (StatusCompleted, n)"
    using queue_settle_inv(1) [of s i t]
    by (auto simp: memory_queue_def queue_view_def Queue_Complete_def Let_def)
next
  fix s i st n t r m
  assume "queue_inv s" "queue_view i s = Some (st, n)" "\<not> Terminal st"
  then show "\<exists>s'. qp_Fail (memory_queue c) i t r m s = (None, s') \<and> queue_inv s' \<and>
      queue_view i s' = Some (if n + 1 \<ge> m then StatusDeadLetter else StatusPending, n + 1)"
    using queue_settle_inv(2) [of s i t r m]
    by (auto simp: memory_queue_def queue_view_def Queue_Fail_def Let_def)
next
  fix s dfr i n t at r
  assume "queue_inv s" "qp_Defer (memory_queue c) = Some dfr" "queue_view i s = Some (StatusRunning, n)"
    "(t::int) < at"
  then show "\<exists>s'. dfr i at r t s = (None, s') \<and> queue_inv s' \<and> queue_view i s' = Some (StatusPending, n)"
    using queue_settle_inv(3) [of s i at r t]
    by (auto simp: memory_queue_def queue_view_def Queue_Defer_def Let_def)
next
  fix s i st n
  assume "queue_inv s" "queue_view i s = Some (st, n)"
  then show "0 \<le> n"
    by (auto simp: queue_view_def queue_job_ok_def dest: queue_inv_get)
qed (auto simp: memory_queue_def queue_view_def Queue_Complete_def Queue_Fail_def)

interpretation mqs: kind_scoped_queue "memory_queue c" queue_inv queue_view kinds for c kinds
  by unfold_locales

lemma phase_HeldD:
  "phase_of i q = Held l u n \<Longrightarrow> \<exists>j. map_get (fq_jobs q) i = Some j \<and> j_JobStatus j = StatusRunning \<and>
     j_LeaseID j = l \<and> j_LeasedUntil j = u \<and> j_Retries j = n"
  by (auto simp: job_phase_def split: option.splits if_splits)

lemma lease_goneD:
  assumes "lease_gone l t (phase_of i q)" and "map_get (fq_jobs q) i = Some j"
  shows "\<not> heldBy j l t" and "j_JobStatus j = StatusCompleted \<Longrightarrow> j_LeaseID j \<noteq> l"
    and "j_JobStatus j = StatusDeadLetter \<Longrightarrow> j_LeaseID j \<noteq> l"
  using assms by (auto simp: lease_gone_def job_phase_def heldBy_def)

lemma lease_gone_refused:
  assumes "lease_gone l t (phase_of i q)"
  shows "refused (phase_of i q) q (FencedQueue_Complete i l t q)"
    and "refused (phase_of i q) q (FencedQueue_Fail i l r t q)"
    and "refused (phase_of i q) q (FencedQueue_Reschedule i l at r t q)"
    and "t < at \<Longrightarrow> refused (phase_of i q) q (FencedQueue_Defer i l at r t q)"
proof -
  show "refused (phase_of i q) q (FencedQueue_Complete i l t q)"
    "refused (phase_of i q) q (FencedQueue_Fail i l r t q)"
    "refused (phase_of i q) q (FencedQueue_Reschedule i l at r t q)"
    "t < at \<Longrightarrow> refused (phase_of i q) q (FencedQueue_Defer i l at r t q)"
    using lease_goneD [OF assms]
    by (cases "map_get (fq_jobs q) i"; auto simp: refused_def fenced_settle_defs job_phase_def)+
qed

lemma fenced_settle_inv:
  assumes "fenced_inv q"
  shows "fenced_inv (snd (FencedQueue_Complete i l t q))" and "fenced_inv (snd (FencedQueue_Fail i l r t q))"
    and "fenced_inv (snd (FencedQueue_Reschedule i l at r t q))"
    and "fenced_inv (snd (FencedQueue_Defer i l at r t q))"
  using fenced_step_inv [OF assms, of "FComplete i l t"] fenced_step_inv [OF assms, of "FFail i l r t"]
    fenced_step_inv [OF assms, of "FReschedule i l at r t"] fenced_step_inv [OF assms, of "FDefer i l at r t"]
  by simp_all

interpretation mf: fenced_repo_laws "memory_fenced c1 c2" fenced_inv phase_of for c1 c2
proof
  fix s t l d ks e s'
  assume inv: "fenced_inv s" and c: "fp_Claim (memory_fenced c1 c2) t l d ks s = (Inl e, s')"
  from fenced_inv_keyed [OF inv] show "s' = s"
    by (cases rule: FencedQueue_Claim_cases [where now = t and l = l and d = d and kinds = ks])
      (use c in \<open>simp_all add: memory_fenced_def\<close>)
next
  fix s t l d ks j s'
  assume inv: "fenced_inv s" and "fp_Claim (memory_fenced c1 c2) t l d ks s = (Inr j, s')"
  then have "FencedQueue_Claim t l d ks s = (Inr j, s')" by (simp add: memory_fenced_def)
  from FencedQueue_Claim_result [OF inv this]
  show "fenced_inv s' \<and> kindAllowed ks (j_Kind j) \<and> phase_of (j_JobID j) s' = Held l (t + d) (j_Retries j)"
    by (simp add: job_phase_def)
next
  fix s i l u n t
  assume "fenced_inv s" "phase_of i s = Held l u n" "t < u"
  then show "\<exists>s'. fp_Complete (memory_fenced c1 c2) i l t s = (None, s') \<and> fenced_inv s' \<and>
      phase_of i s' = Done StatusCompleted l n"
    using fenced_settle_inv(1) [of s i l t] phase_HeldD [where i = i and q = s and l = l and u = u and n = n]
    by (auto simp: memory_fenced_def FencedQueue_Complete_def heldBy_def job_phase_def)
next
  fix s i l u n t r
  assume "fenced_inv s" "phase_of i s = Held l u n" "t < u"
  then show "\<exists>s'. fp_Fail (memory_fenced c1 c2) i l r t s = (None, s') \<and> fenced_inv s' \<and>
      phase_of i s' = Done StatusDeadLetter l n"
    using fenced_settle_inv(2) [of s i l r t] phase_HeldD [where i = i and q = s and l = l and u = u and n = n]
    by (auto simp: memory_fenced_def FencedQueue_Fail_def heldBy_def job_phase_def)
next
  fix s i l u n t at r
  assume "fenced_inv s" "phase_of i s = Held l u n" "t < u"
  then show "\<exists>s'. fp_Reschedule (memory_fenced c1 c2) i l at r t s = (None, s') \<and> fenced_inv s' \<and>
      phase_of i s' = Waiting at n"
    using fenced_settle_inv(3) [of s i l at r t] phase_HeldD [where i = i and q = s and l = l and u = u and n = n]
    by (auto simp: memory_fenced_def FencedQueue_Reschedule_def heldBy_def job_phase_def)
next
  fix s dfr i l u n t at r
  assume *: "fenced_inv s" "fp_Defer (memory_fenced c1 c2) = Some dfr" "phase_of i s = Held l u n" "t < u"
    "(t::int) < at"
  obtain j where j: "map_get (fq_jobs s) i = Some j" "j_JobStatus j = StatusRunning" "j_LeaseID j = l"
    "j_LeasedUntil j = u" "j_Retries j = n"
    using phase_HeldD [OF *(3)] by auto
  moreover have "1 \<le> j_Retries j"
    using fenced_inv_get [OF *(1) j(1)] j(2) by (simp add: fenced_job_ok_def)
  ultimately show "\<exists>s'. dfr i l at r t s = (None, s') \<and> fenced_inv s' \<and> phase_of i s' = Waiting at (n - 1)"
    using * fenced_settle_inv(4) [OF *(1), of i l at r t]
    by (auto simp: memory_fenced_def FencedQueue_Defer_def heldBy_def job_phase_def)
qed (auto simp: memory_fenced_def lease_gone_refused)

interpretation mfs: kind_scoped_fenced "memory_fenced c1 c2" fenced_inv phase_of kinds drain
  for c1 c2 kinds drain
  by unfold_locales

end
