(* ===== verification/Json_Valid.thy ===== *)
theory Json_Valid
  imports Prelude
begin

text \<open>
  \<open>json.Valid\<close> of Go's standard library, which \<open>EnqueueJob\<close> of
  \<open>src/pockets/jobs/logic/queue/service.go\<close> uses to vet a payload: the byte-at-a-time scanner with
  its stack of open composites, fed the input and then one blank at the end of the input, with the
  scanner's limit on the nesting depth.
\<close>

datatype json_open = ObjectKey | ObjectValue | ArrayValue

datatype json_state =
    BeginValue | BeginValueOrEmpty | BeginString | BeginStringOrEmpty | EndValue | EndTop
  | InString | InStringEsc | InStringEscU nat
  | Neg | Num1 | Num0 | Dot | Dot0 | Exp | ExpSign | Exp0
  | Literal string

definition json_space :: "char \<Rightarrow> bool" where
  "json_space c \<longleftrightarrow> c \<in> {CHR '' '', CHR 0x09, CHR 0x0D, CHR 0x0A}"

definition json_digit :: "char \<Rightarrow> bool" where
  "json_digit c \<longleftrightarrow> CHR ''0'' \<le> c \<and> c \<le> CHR ''9''"

definition json_hex :: "char \<Rightarrow> bool" where
  "json_hex c \<longleftrightarrow> json_digit c \<or> CHR ''a'' \<le> c \<and> c \<le> CHR ''f'' \<or> CHR ''A'' \<le> c \<and> c \<le> CHR ''F''"

definition maxNestingDepth :: nat where
  "maxNestingDepth = 10000"

type_synonym json_scan = "json_state \<times> json_open list"

definition json_push :: "json_state \<Rightarrow> json_open \<Rightarrow> json_open list \<Rightarrow> json_scan option" where
  "json_push st opened stack = (if length stack < maxNestingDepth then Some (st, opened # stack) else None)"

definition json_pop :: "json_open list \<Rightarrow> json_scan option" where
  "json_pop stack = (case stack of [_] \<Rightarrow> Some (EndTop, []) | _ # rest \<Rightarrow> Some (EndValue, rest) | [] \<Rightarrow> None)"

definition json_begin_value :: "char \<Rightarrow> json_open list \<Rightarrow> json_scan option" where
  "json_begin_value c stack =
     (if json_space c then Some (BeginValue, stack)
      else if c = CHR ''{'' then json_push BeginStringOrEmpty ObjectKey stack
      else if c = CHR ''['' then json_push BeginValueOrEmpty ArrayValue stack
      else if c = CHR 0x22 then Some (InString, stack)
      else if c = CHR ''-'' then Some (Neg, stack)
      else if c = CHR ''0'' then Some (Num0, stack)
      else if c = CHR ''t'' then Some (Literal ''rue'', stack)
      else if c = CHR ''f'' then Some (Literal ''alse'', stack)
      else if c = CHR ''n'' then Some (Literal ''ull'', stack)
      else if json_digit c then Some (Num1, stack)
      else None)"

definition json_end_value :: "char \<Rightarrow> json_open list \<Rightarrow> json_scan option" where
  "json_end_value c stack =
     (case stack of
        [] \<Rightarrow> if json_space c then Some (EndTop, []) else None
      | opened # rest \<Rightarrow>
          if json_space c then Some (EndValue, stack)
          else (case opened of
                  ObjectKey \<Rightarrow> if c = CHR '':'' then Some (BeginValue, ObjectValue # rest) else None
                | ObjectValue \<Rightarrow>
                    if c = CHR '','' then Some (BeginString, ObjectKey # rest)
                    else if c = CHR ''}'' then json_pop stack else None
                | ArrayValue \<Rightarrow>
                    if c = CHR '','' then Some (BeginValue, stack)
                    else if c = CHR '']'' then json_pop stack else None))"

fun json_step :: "char \<Rightarrow> json_scan \<Rightarrow> json_scan option" where
  "json_step c (BeginValue, stack) = json_begin_value c stack"
| "json_step c (BeginValueOrEmpty, stack) =
     (if json_space c then Some (BeginValueOrEmpty, stack)
      else if c = CHR '']'' then json_end_value c stack else json_begin_value c stack)"
| "json_step c (BeginString, stack) =
     (if json_space c then Some (BeginString, stack)
      else if c = CHR 0x22 then Some (InString, stack) else None)"
| "json_step c (BeginStringOrEmpty, stack) =
     (if json_space c then Some (BeginStringOrEmpty, stack)
      else if c = CHR ''}'' then json_pop stack
      else if c = CHR 0x22 then Some (InString, stack) else None)"
| "json_step c (EndValue, stack) = json_end_value c stack"
| "json_step c (EndTop, stack) = (if json_space c then Some (EndTop, stack) else None)"
| "json_step c (InString, stack) =
     (if c = CHR 0x22 then Some (EndValue, stack)
      else if c = CHR 0x5C then Some (InStringEsc, stack)
      else if c < CHR '' '' then None else Some (InString, stack))"
| "json_step c (InStringEsc, stack) =
     (if c \<in> set ''bfnrt/'' \<or> c = CHR 0x5C \<or> c = CHR 0x22 then Some (InString, stack)
      else if c = CHR ''u'' then Some (InStringEscU 3, stack) else None)"
| "json_step c (InStringEscU n, stack) =
     (if json_hex c then Some (if n = 0 then InString else InStringEscU (n - 1), stack) else None)"
| "json_step c (Neg, stack) =
     (if c = CHR ''0'' then Some (Num0, stack) else if json_digit c then Some (Num1, stack) else None)"
| "json_step c (Num1, stack) =
     (if json_digit c then Some (Num1, stack)
      else if c = CHR ''.'' then Some (Dot, stack)
      else if c \<in> {CHR ''e'', CHR ''E''} then Some (Exp, stack)
      else json_end_value c stack)"
| "json_step c (Num0, stack) =
     (if c = CHR ''.'' then Some (Dot, stack)
      else if c \<in> {CHR ''e'', CHR ''E''} then Some (Exp, stack)
      else json_end_value c stack)"
| "json_step c (Dot, stack) = (if json_digit c then Some (Dot0, stack) else None)"
| "json_step c (Dot0, stack) =
     (if json_digit c then Some (Dot0, stack)
      else if c \<in> {CHR ''e'', CHR ''E''} then Some (Exp, stack)
      else json_end_value c stack)"
| "json_step c (Exp, stack) =
     (if c \<in> {CHR ''+'', CHR ''-''} then Some (ExpSign, stack)
      else if json_digit c then Some (Exp0, stack) else None)"
| "json_step c (ExpSign, stack) = (if json_digit c then Some (Exp0, stack) else None)"
| "json_step c (Exp0, stack) =
     (if json_digit c then Some (Exp0, stack) else json_end_value c stack)"
| "json_step c (Literal rest, stack) =
     (case rest of
        [] \<Rightarrow> None
      | [x] \<Rightarrow> if c = x then Some (EndValue, stack) else None
      | x # xs \<Rightarrow> if c = x then Some (Literal xs, stack) else None)"

fun json_run :: "bytes \<Rightarrow> json_scan \<Rightarrow> json_scan option" where
  "json_run [] sc = Some sc"
| "json_run (c # cs) sc = (case json_step c sc of None \<Rightarrow> None | Some sc' \<Rightarrow> json_run cs sc')"

definition json_Valid :: "bytes \<Rightarrow> bool" where
  "json_Valid data =
     (case json_run (data @ '' '') (BeginValue, []) of
        Some (EndTop, _) \<Rightarrow> True
      | _ \<Rightarrow> False)"

lemma json_Valid_empty_object: "json_Valid ''{}''"
  by code_simp

lemma json_Valid_nonempty: "json_Valid data \<Longrightarrow> data \<noteq> []"
  by (auto simp: json_Valid_def json_begin_value_def json_space_def)

end
