(* ===== verification/Queue_Service.thy ===== *)
theory Queue_Service
  imports Queue_Ports Json_Valid
begin

text \<open>
  The admission service of the jobs pocket, \<open>Service\<close> of
  \<open>src/pockets/jobs/logic/queue/service.go\<close> and \<open>work.go\<close>: defaults and validation, id minting,
  the keyed-work protocol over the fenced queue, retention, and the wake channels.  A wake channel
  of capacity one is a flag that says whether a signal is buffered.  The id generator is outside the
  package: its result is an argument.  Where the service reads its clock, the reading is an
  argument.
\<close>

section \<open>State and construction\<close>

record ('q, 'f) service =
  sv_repo :: "'q queue_repo option"
  sv_fencedQueue :: "'f fenced_repo option"
  sv_maxAttempts :: int

record ('q, 'f) service_state =
  ss_queue :: 'q
  ss_fenced :: 'f
  ss_wake :: bool
  ss_fencedWakes :: "bool list"

record service_config =
  sc_maxAttempts :: int

definition queue_defaultMaxAttempts :: int where
  "queue_defaultMaxAttempts = 3"

definition queue_WithMaxAttempts :: "int \<Rightarrow> service_config \<Rightarrow> service_config" where
  "queue_WithMaxAttempts n c = c\<lparr>sc_maxAttempts := n\<rparr>"

fun apply_service_options ::
    "go_error \<Rightarrow> ('c \<Rightarrow> 'c) option list \<Rightarrow> 'c \<Rightarrow> 'c res" where
  "apply_service_options err [] c = Inr c"
| "apply_service_options err (None # opts) c = Inl err"
| "apply_service_options err (Some opt # opts) c = apply_service_options err opts (opt c)"

definition NewService ::
    "'q queue_repo option \<Rightarrow> 'f fenced_repo option \<Rightarrow> (service_config \<Rightarrow> service_config) option list \<Rightarrow>
     ('q, 'f) service res" where
  "NewService repo fencedRepo opts =
     (case apply_service_options
             (Wrapped ''jobs queue: nil option: invalid input'' ErrInvalidInput) opts
             \<lparr>sc_maxAttempts = 0\<rparr> of
        Inl e \<Rightarrow> Inl e
      | Inr cfg \<Rightarrow>
          if repo = None \<and> fencedRepo = None then Inl ErrQueueRequired
          else
            let n = (if sc_maxAttempts cfg \<le> 0 then queue_defaultMaxAttempts else sc_maxAttempts cfg)
            in Inr \<lparr>sv_repo = repo, sv_fencedQueue = fencedRepo, sv_maxAttempts = n\<rparr>)"

section \<open>Wake signals\<close>

definition Service_signal :: "('q, 'f) service_state \<Rightarrow> ('q, 'f) service_state" where
  "Service_signal st = st\<lparr>ss_wake := True\<rparr>"

definition registerFencedWake :: "('q, 'f) service_state \<Rightarrow> nat \<times> ('q, 'f) service_state" where
  "registerFencedWake st =
     (length (ss_fencedWakes st), st\<lparr>ss_fencedWakes := ss_fencedWakes st @ [False]\<rparr>)"

definition signalFenced :: "('q, 'f) service_state \<Rightarrow> ('q, 'f) service_state" where
  "signalFenced st = st\<lparr>ss_fencedWakes := map (\<lambda>_. True) (ss_fencedWakes st)\<rparr>"

section \<open>Admission\<close>

definition mintID :: "string res \<Rightarrow> string res" where
  "mintID gen =
     (case gen of
        Inl err \<Rightarrow> Inl (Wrapped (''jobs: mint job id: '' @ error_text err) err)
      | Inr jid \<Rightarrow> Inr jid)"

definition errKindRequired :: go_error where
  "errKindRequired = Wrapped ''jobs: kind is required: invalid input'' ErrInvalidInput"

definition errPayloadJSON :: go_error where
  "errPayloadJSON = Wrapped ''jobs: payload must be valid JSON: invalid input'' ErrInvalidInput"

definition Service_EnqueueJob ::
    "('q, 'f) service \<Rightarrow> time \<Rightarrow> string res \<Rightarrow> enqueue \<Rightarrow> ('q, 'f) service_state \<Rightarrow>
     job res \<times> ('q, 'f) service_state" where
  "Service_EnqueueJob svc clock gen inp st =
     (case sv_repo svc of
        None \<Rightarrow> (Inl ErrQueueRequired, st)
      | Some repo \<Rightarrow>
          if e_Kind inp = [] then (Inl errKindRequired, st)
          else if e_Payload inp \<noteq> [] \<and> \<not> json_Valid (e_Payload inp) then (Inl errPayloadJSON, st)
          else
            let in1 = (if e_Payload inp = [] then inp\<lparr>e_Payload := ''{}''\<rparr> else inp);
                in2 = (if e_MaxAttempts in1 \<le> 0 then in1\<lparr>e_MaxAttempts := sv_maxAttempts svc\<rparr> else in1);
                in3 = (if e_ScheduledFor in2 = zero_time then in2\<lparr>e_ScheduledFor := clock\<rparr> else in2);
                in4 = (if e_ID in3 = [] then map_sum id (\<lambda>jid. in3\<lparr>e_ID := jid\<rparr>) (mintID gen)
                       else Inr in3)
            in (case in4 of
                  Inl err \<Rightarrow> (Inl err, st)
                | Inr in5 \<Rightarrow>
                    (case qp_Enqueue repo in5 (ss_queue st) of
                       (Inl err, q') \<Rightarrow> (Inl err, st\<lparr>ss_queue := q'\<rparr>)
                     | (Inr j, q') \<Rightarrow> (Inr j, Service_signal (st\<lparr>ss_queue := q'\<rparr>)))))"

definition Service_Enqueue ::
    "('q, 'f) service \<Rightarrow> time \<Rightarrow> string res \<Rightarrow> string \<Rightarrow> bytes \<Rightarrow> ('q, 'f) service_state \<Rightarrow>
     string res \<times> ('q, 'f) service_state" where
  "Service_Enqueue svc clock gen kind payload st =
     apfst (map_sum id j_JobID)
       (Service_EnqueueJob svc clock gen
          \<lparr>e_ID = [], e_Kind = kind, e_TenantID = [], e_Payload = payload, e_ScheduledFor = zero_time,
           e_Priority = 0, e_MaxAttempts = 0, e_LogicalKey = []\<rparr> st)"

record keyed_input =
  ki_Kind :: string
  ki_LogicalKey :: string
  ki_Payload :: bytes
  ki_TenantID :: string

definition keyed_enqueue :: "string \<Rightarrow> keyed_input \<Rightarrow> enqueue" where
  "keyed_enqueue jid inp =
     \<lparr>e_ID = jid, e_Kind = ki_Kind inp, e_TenantID = ki_TenantID inp, e_Payload = ki_Payload inp,
      e_ScheduledFor = zero_time, e_Priority = 0, e_MaxAttempts = 0,
      e_LogicalKey = ki_LogicalKey inp\<rparr>"

definition EnqueueOnceIn ::
    "('q, 'f) service \<Rightarrow> string res \<Rightarrow> keyed_input \<Rightarrow> ('q, 'f) service_state \<Rightarrow>
     string res \<times> ('q, 'f) service_state" where
  "EnqueueOnceIn svc gen inp st =
     (case sv_fencedQueue svc of
        None \<Rightarrow> (Inl ErrFencedQueueRequired, st)
      | Some repo \<Rightarrow>
          if ki_Kind inp = [] then (Inl errKindRequired, st)
          else (case mintID gen of
                  Inl err \<Rightarrow> (Inl err, st)
                | Inr jid \<Rightarrow>
                    (case fp_EnqueueOnce repo (keyed_enqueue jid inp) (ss_fenced st) of
                       (Inl err, f') \<Rightarrow> (Inl err, st\<lparr>ss_fenced := f'\<rparr>)
                     | (Inr j, f') \<Rightarrow>
                         (Inr (j_JobID j),
                          if j_JobID j = jid then signalFenced (st\<lparr>ss_fenced := f'\<rparr>)
                          else st\<lparr>ss_fenced := f'\<rparr>))))"

definition ReplaceIn ::
    "('q, 'f) service \<Rightarrow> string res \<Rightarrow> keyed_input \<Rightarrow> ('q, 'f) service_state \<Rightarrow>
     string res \<times> ('q, 'f) service_state" where
  "ReplaceIn svc gen inp st =
     (case sv_fencedQueue svc of
        None \<Rightarrow> (Inl ErrFencedQueueRequired, st)
      | Some repo \<Rightarrow>
          if ki_Kind inp = [] then (Inl errKindRequired, st)
          else (case mintID gen of
                  Inl err \<Rightarrow> (Inl err, st)
                | Inr jid \<Rightarrow>
                    (case fp_Replace repo (keyed_enqueue jid inp) (ss_fenced st) of
                       (Inl err, f') \<Rightarrow> (Inl err, st\<lparr>ss_fenced := f'\<rparr>)
                     | (Inr j, f') \<Rightarrow> (Inr (j_JobID j), signalFenced (st\<lparr>ss_fenced := f'\<rparr>)))))"

definition Service_EnqueueOnce ::
    "('q, 'f) service \<Rightarrow> string res \<Rightarrow> string \<Rightarrow> string \<Rightarrow> bytes \<Rightarrow> ('q, 'f) service_state \<Rightarrow>
     string res \<times> ('q, 'f) service_state" where
  "Service_EnqueueOnce svc gen kind key payload st =
     (if key = [] then (Inl ErrInvalidInput, st)
      else EnqueueOnceIn svc gen
             \<lparr>ki_Kind = kind, ki_LogicalKey = key, ki_Payload = payload, ki_TenantID = []\<rparr> st)"

definition Service_Replace ::
    "('q, 'f) service \<Rightarrow> string res \<Rightarrow> string \<Rightarrow> string \<Rightarrow> bytes \<Rightarrow> ('q, 'f) service_state \<Rightarrow>
     string res \<times> ('q, 'f) service_state" where
  "Service_Replace svc gen kind key payload st =
     (if key = [] then (Inl ErrInvalidInput, st)
      else ReplaceIn svc gen
             \<lparr>ki_Kind = kind, ki_LogicalKey = key, ki_Payload = payload, ki_TenantID = []\<rparr> st)"

definition LatestStatusByKey ::
    "('q, 'f) service \<Rightarrow> string \<Rightarrow> ('q, 'f) service_state \<Rightarrow> status res" where
  "LatestStatusByKey svc key st =
     (if key = [] then Inl ErrInvalidInput
      else case sv_fencedQueue svc of
             None \<Rightarrow> Inl ErrFencedQueueRequired
           | Some repo \<Rightarrow> map_sum id j_JobStatus (fp_GetLatestByKey repo key (ss_fenced st)))"

definition Service_Checkpoint ::
    "('q, 'f) service \<Rightarrow> time \<Rightarrow> string \<Rightarrow> string \<Rightarrow> bytes \<Rightarrow> ('q, 'f) service_state \<Rightarrow>
     error \<times> ('q, 'f) service_state" where
  "Service_Checkpoint svc clock jid leaseID payload st =
     (case sv_fencedQueue svc of
        None \<Rightarrow> (Some ErrFencedQueueRequired, st)
      | Some repo \<Rightarrow>
          apsnd (\<lambda>f'. st\<lparr>ss_fenced := f'\<rparr>)
            (fp_Checkpoint repo jid leaseID payload clock (ss_fenced st)))"

definition Service_PurgeTerminal ::
    "('q, 'f) service \<Rightarrow> time \<Rightarrow> int \<Rightarrow> ('q, 'f) service_state \<Rightarrow> nat res \<times> ('q, 'f) service_state" where
  "Service_PurgeTerminal svc before limit st =
     (case sv_fencedQueue svc of
        None \<Rightarrow> (Inl ErrFencedQueueRequired, st)
      | Some repo \<Rightarrow>
          apsnd (\<lambda>f'. st\<lparr>ss_fenced := f'\<rparr>) (fp_PurgeTerminal repo before limit (ss_fenced st)))"

definition PurgeTerminalJobs ::
    "('q, 'f) service \<Rightarrow> time \<Rightarrow> int \<Rightarrow> ('q, 'f) service_state \<Rightarrow> nat res \<times> ('q, 'f) service_state" where
  "PurgeTerminalJobs svc before limit st =
     (case sv_repo svc of
        None \<Rightarrow> (Inl ErrQueueRequired, st)
      | Some repo \<Rightarrow>
          (case qp_PurgeTerminal repo of
             None \<Rightarrow> (Inl ErrTerminalPurgeRequired, st)
           | Some purge \<Rightarrow>
               if limit \<le> 0
               then (Inl (Wrapped ''jobs: purge limit must be positive: invalid input'' ErrInvalidInput), st)
               else apsnd (\<lambda>q'. st\<lparr>ss_queue := q'\<rparr>) (purge before limit (ss_queue st))))"

section \<open>What admission guarantees\<close>

lemma EnqueueJob_accepted:
  assumes svc: "sv_repo svc = Some (memory_queue c)" "1 \<le> sv_maxAttempts svc" and "clock \<noteq> zero_time"
    and res: "Service_EnqueueJob svc clock gen inp st = (Inr j, st')"
  shows "map_get (q_jobs (ss_queue st)) (j_JobID j) = None \<and>
    map_get (q_jobs (ss_queue st')) = (map_get (q_jobs (ss_queue st)))(j_JobID j \<mapsto> j) \<and>
    j_JobID j \<noteq> [] \<and> j_Kind j = e_Kind inp \<and> j_JobStatus j = StatusPending \<and> j_Retries j = 0 \<and>
    json_Valid (j_Payload j) \<and> 1 \<le> j_MaxAttempts j \<and> j_ScheduledFor j \<noteq> zero_time \<and>
    ss_wake st' \<and> ss_fenced st' = ss_fenced st"
proof -
  obtain x q' where x: "Queue_Enqueue c x (ss_queue st) = (Inr j, q')"
    "st' = Service_signal (st\<lparr>ss_queue := q'\<rparr>)"
    "e_Kind x = e_Kind inp" "json_Valid (e_Payload x)" "1 \<le> e_MaxAttempts x" "e_ScheduledFor x \<noteq> zero_time"
    using res svc assms(3) json_Valid_empty_object
    by (cases "mintID gen") (auto simp: Service_EnqueueJob_def Let_def memory_queue_def
        Service_signal_def split: if_splits sum.splits prod.splits)
  then show ?thesis
    by (auto simp: Queue_Enqueue_def Let_def Service_signal_def split: if_splits)
qed

text \<open>
  Ordinary admission, on every branch, over the in-memory queue and any service that
  \<open>NewService\<close> builds (its ceiling is at least one).  A refused admission leaves the queue and the
  wake flags as they were; an accepted one adds exactly one pending job, under an identifier that
  was free, with a valid JSON payload, a positive attempt ceiling, a set schedule time and the
  requested kind, and leaves a wake signal buffered.
\<close>

theorem EnqueueJob_spec:
  assumes "sv_repo svc = Some (memory_queue c)" and "1 \<le> sv_maxAttempts svc" and "clock \<noteq> zero_time"
  shows "case Service_EnqueueJob svc clock gen inp st of
      (Inl e, st') \<Rightarrow> st' = st
    | (Inr j, st') \<Rightarrow>
        map_get (q_jobs (ss_queue st)) (j_JobID j) = None \<and>
        map_get (q_jobs (ss_queue st')) = (map_get (q_jobs (ss_queue st)))(j_JobID j \<mapsto> j) \<and>
        j_JobID j \<noteq> [] \<and> j_Kind j = e_Kind inp \<and> j_JobStatus j = StatusPending \<and> j_Retries j = 0 \<and>
        json_Valid (j_Payload j) \<and> 1 \<le> j_MaxAttempts j \<and> j_ScheduledFor j \<noteq> zero_time \<and>
        ss_wake st' \<and> ss_fenced st' = ss_fenced st"
proof (cases "Service_EnqueueJob svc clock gen inp st")
  case (Pair r st')
  show ?thesis
  proof (cases r)
    case (Inl e)
    have "q' = q" if "Queue_Enqueue c x q = (Inl e, q')" for x q q'
      using that by (auto simp: Queue_Enqueue_def Let_def split: if_splits)
    with Pair Inl assms have "st' = st"
      by (auto simp: Service_EnqueueJob_def Let_def memory_queue_def
          split: if_splits sum.splits prod.splits)
    with Pair Inl show ?thesis by simp
  next
    case (Inr j)
    with Pair EnqueueJob_accepted [OF assms, of gen inp st j st'] show ?thesis
      by (simp only: prod.case sum.case simp_thms)
  qed
qed

definition demo_service :: "(queue, fenced_queue) service" where
  "demo_service = \<lparr>sv_repo = Some (memory_queue 10), sv_fencedQueue = Some (memory_fenced 10 10),
     sv_maxAttempts = 3\<rparr>"

definition demo_state :: "(queue, fenced_queue) service_state" where
  "demo_state = \<lparr>ss_queue = NewQueue [], ss_fenced = NewFencedQueue, ss_wake = False,
     ss_fencedWakes = [False, False]\<rparr>"

theorem EnqueueJob_spec_witness:
  "let inp = (demo_enqueue [] 0)\<lparr>e_Payload := [], e_ScheduledFor := 0, e_MaxAttempts := 0\<rparr>;
       (r, st') = Service_EnqueueJob demo_service 7 (Inr ''m1'') inp demo_state; j = projr r
   in map_get (q_jobs (ss_queue st')) = (map_get (q_jobs (ss_queue demo_state)))(j_JobID j \<mapsto> j) \<and>
      j_JobID j = ''m1'' \<and> j_MaxAttempts j = 3 \<and> j_ScheduledFor j = 7 \<and> ss_wake st'"
proof -
  let ?inp = "(demo_enqueue [] 0)\<lparr>e_Payload := [], e_ScheduledFor := 0, e_MaxAttempts := 0\<rparr>"
  let ?r = "Service_EnqueueJob demo_service 7 (Inr ''m1'') ?inp demo_state"
  have r: "fst ?r = Inr (projr (fst ?r))" by code_simp
  have f: "j_JobID (projr (fst ?r)) = ''m1''" "j_MaxAttempts (projr (fst ?r)) = 3"
    "j_ScheduledFor (projr (fst ?r)) = 7" by code_simp+
  have d: "sv_repo demo_service = Some (memory_queue 10)" "1 \<le> sv_maxAttempts demo_service" "(7::int) \<noteq> 0"
    by (simp_all add: demo_service_def)
  obtain j st' where p: "?r = (Inr j, st')" using r by (metis surj_pair fst_conv)
  show ?thesis
    using EnqueueJob_spec [OF d, where gen = "Inr ''m1''" and inp = ?inp and st = demo_state] f
    unfolding Let_def p by simp
qed

lemma EnqueueOnce_active:
  assumes "sv_fencedQueue svc = Some (memory_fenced c1 c2)" and inv: "fenced_inv (ss_fenced st)"
    and res: "Service_EnqueueOnce svc (Inr y) kind key payload st = (Inr x, st1)"
  shows "key \<noteq> [] \<and> fenced_inv (ss_fenced st1) \<and> (\<exists>j. j_JobID j = x \<and> active key (ss_fenced st1) j) \<and>
    (x = y \<longrightarrow> ss_fencedWakes st1 = map (\<lambda>_. True) (ss_fencedWakes st))"
proof -
  let ?inp = "\<lparr>ki_Kind = kind, ki_LogicalKey = key, ki_Payload = payload, ki_TenantID = []\<rparr>"
  have key: "key \<noteq> []" and r: "EnqueueOnceIn svc (Inr y) ?inp st = (Inr x, st1)"
    using res by (auto simp: Service_EnqueueOnce_def split: if_splits)
  obtain j f' where e: "FencedQueue_EnqueueOnce c1 (keyed_enqueue y ?inp) (ss_fenced st) = (Inr j, f')"
    "x = j_JobID j" "ss_fenced st1 = f'" "x = y \<longrightarrow> ss_fencedWakes st1 = map (\<lambda>_. True) (ss_fencedWakes st)"
    using r assms(1)
    by (auto simp: EnqueueOnceIn_def mintID_def memory_fenced_def signalFenced_def
        split: if_splits prod.splits sum.splits)
  have inv': "fenced_inv f'"
    using fenced_step_inv [OF inv, of "FEnqueueOnce c1 (keyed_enqueue y ?inp)"] e(1) by simp
  have "active key f' j"
    using e(1) key activeByKey_iff [OF inv key]
    by (auto simp: FencedQueue_EnqueueOnce_def keyed_enqueue_def FencedQueue_insert_def active_def
        Let_def split: option.splits if_splits)
  with key inv' e show ?thesis by auto
qed

text \<open>
  Property C36.  Keyed admission is idempotent for as long as the admitted execution is active.
  After \<open>EnqueueOnce\<close> returned the execution \<open>x\<close>, let anything happen to the fenced queue short of a
  purge: if \<open>x\<close> has not ended by then, a second \<open>EnqueueOnce\<close> under the same key, whatever its kind
  and payload, returns \<open>x\<close> again, changes nothing and wakes nobody (its own minted id being
  different); and every fenced runtime was woken by the first call if that call created \<open>x\<close>.
\<close>

theorem EnqueueOnce_idempotent:
  assumes "sv_fencedQueue svc = Some (memory_fenced c1 c2)" and "fenced_inv (ss_fenced st)"
    and "Service_EnqueueOnce svc (Inr y) kind key payload st = (Inr x, st1)"
    and "\<forall>op\<in>set ops. \<not> is_purge op"
    and "phase_of x (fenced_run ops (ss_fenced st1)) \<notin> {Done s l n |s l n. True}"
    and "sv_fencedQueue svc' = Some (memory_fenced c1' c2')" and "z \<noteq> []" and "z \<noteq> x" and "kind' \<noteq> []"
  shows "Service_EnqueueOnce svc' (Inr z) kind' key payload' (st1\<lparr>ss_fenced := fenced_run ops (ss_fenced st1)\<rparr>)
      = (Inr x, st1\<lparr>ss_fenced := fenced_run ops (ss_fenced st1)\<rparr>) \<and>
    (x = y \<longrightarrow> (\<forall>w\<in>set (ss_fencedWakes st1). w))"
proof -
  let ?f = "fenced_run ops (ss_fenced st1)"
  obtain j where j: "key \<noteq> []" "fenced_inv (ss_fenced st1)" "j_JobID j = x" "active key (ss_fenced st1) j"
    and wakes: "x = y \<longrightarrow> ss_fencedWakes st1 = map (\<lambda>_. True) (ss_fencedWakes st)"
    using EnqueueOnce_active [OF assms(1-3)] by auto
  obtain j' where j': "map_get (fq_jobs ?f) x = Some j'" "evolves j j'"
    using fenced_run_evolves [OF j(2) _ assms(4), of x j] j(3,4) by (auto simp: active_def)
  have inv: "fenced_inv ?f" by (rule fenced_run_inv [OF j(2)])
  have "active key ?f j'"
    using j' j(3,4) assms(5) fenced_inv_get [OF inv j'(1)]
    by (auto simp: active_def evolves_def job_phase_def split: if_splits)
  then have "FencedQueue_EnqueueOnce c1' (keyed_enqueue z
      \<lparr>ki_Kind = kind', ki_LogicalKey = key, ki_Payload = payload', ki_TenantID = []\<rparr>) ?f = (Inr j', ?f)"
    using activeByKey_iff [OF inv j(1), of j'] j(1) assms(7)
    by (simp add: FencedQueue_EnqueueOnce_def keyed_enqueue_def)
  moreover have "j_JobID j' = x"
    using j'(2) j(3) by (simp add: evolves_def)
  ultimately show ?thesis
    using j(1) assms(6-9) wakes
    by (simp add: Service_EnqueueOnce_def EnqueueOnceIn_def mintID_def memory_fenced_def)
qed

theorem EnqueueOnce_idempotent_witness:
  "let (r, st1) = Service_EnqueueOnce demo_service (Inr ''y'') ''mail'' ''k'' ''p'' demo_state;
       st2 = st1\<lparr>ss_fenced := fenced_run [FClaim 20 ''L'' 50 []] (ss_fenced st1)\<rparr>
   in r = Inr ''y'' \<and> ss_fencedWakes st1 = [True, True] \<and>
      Service_EnqueueOnce demo_service (Inr ''z'') ''sms'' ''k'' ''q'' st2 = (Inr ''y'', st2)"
proof -
  let ?r = "Service_EnqueueOnce demo_service (Inr ''y'') ''mail'' ''k'' ''p'' demo_state"
  have r: "fst ?r = Inr ''y''" and w: "ss_fencedWakes (snd ?r) = [True, True]"
    and p: "phase_of ''y'' (fenced_run [FClaim 20 ''L'' 50 []] (ss_fenced (snd ?r))) = Held ''L'' 70 1"
    by code_simp+
  have d: "sv_fencedQueue demo_service = Some (memory_fenced 10 10)" "fenced_inv (ss_fenced demo_state)"
    by (simp_all add: demo_service_def demo_state_def fenced_inv_New)
  have "?r = (Inr ''y'', snd ?r)" using r by (metis prod.collapse)
  from EnqueueOnce_idempotent [OF d this, of "[FClaim 20 ''L'' 50 []]" demo_service 10 10 "''z''" "''sms''" "''q''"]
    d(1) p r w show ?thesis
    by (simp add: case_prod_beta Let_def)
qed

text \<open>
  The status read is total and truthful: over every reachable fenced queue it answers
  a status of the frozen vocabulary or \<open>ErrNotFound\<close>, \<open>ErrNotFound\<close> exactly when no execution holds
  the key, and a non-terminal status exactly when the key has an active execution.
\<close>

theorem LatestStatusByKey_truthful:
  assumes "sv_fencedQueue svc = Some (memory_fenced c1 c2)" and "key \<noteq> []"
    and "ss_fenced st = fenced_run ops NewFencedQueue"
  shows "case LatestStatusByKey svc key st of
      Inl e \<Rightarrow> e = ErrNotFound \<and>
        (\<forall>k j. map_get (fq_jobs (ss_fenced st)) k = Some j \<longrightarrow> j_LogicalKey j \<noteq> key)
    | Inr s \<Rightarrow> Known s \<and> (Terminal s \<longleftrightarrow> (\<forall>j. \<not> active key (ss_fenced st) j))"
proof -
  let ?f = "ss_fenced st"
  have inv: "fenced_inv ?f"
    unfolding assms(3) by (rule fenced_run_inv [OF fenced_inv_New])
  note f = fenced_filter [OF fenced_inv_keyed [OF inv], of "\<lambda>j. j_LogicalKey j = key"]
  show ?thesis
  proof (cases "FencedQueue_GetLatestByKey key ?f")
    case (Inl e)
    then have "e = ErrNotFound" "filter (\<lambda>j. j_LogicalKey j = key) (map_vals (fq_jobs ?f)) = []"
      by (auto simp: FencedQueue_GetLatestByKey_def split: option.splits)
    moreover have "j \<in> set (map_vals (fq_jobs ?f))" if "map_get (fq_jobs ?f) k = Some j" for k j
      using map_of_SomeD [OF that] by force
    ultimately have "e = ErrNotFound" "\<forall>k j. map_get (fq_jobs ?f) k = Some j \<longrightarrow> j_LogicalKey j \<noteq> key"
      unfolding filter_empty_conv by blast+
    with Inl assms(1,2) show ?thesis by (simp add: LatestStatusByKey_def memory_fenced_def)
  next
    case (Inr j)
    then have j: "map_get (fq_jobs ?f) (j_JobID j) = Some j" "j_LogicalKey j = key"
      using GetLatestByKey_iff [OF inv] by auto
    have "Known (j_JobStatus j)"
      using fenced_inv_get [OF inv j(1)] by (auto simp: fenced_job_ok_def)
    moreover have "job_Terminal j \<longleftrightarrow> (\<forall>x. \<not> active key ?f x)"
    proof
      assume t: "job_Terminal j"
      show "\<forall>x. \<not> active key ?f x"
      proof (intro allI notI)
        fix x
        assume "active key ?f x"
        then have "FencedQueue_GetLatestByKey key ?f = Inr x" "\<not> job_Terminal x"
          using active_latest [OF inv _ assms(2)] by (auto simp: active_def)
        with Inr t show False by simp
      qed
    qed (use j in \<open>auto simp: active_def\<close>)
    ultimately show ?thesis
      using Inr assms(1,2) by (simp add: LatestStatusByKey_def memory_fenced_def)
  qed
qed

theorem LatestStatusByKey_truthful_witness:
  "let ops = [FEnqueueOnce 10 (demo_keyed ''a'' ''k''), FClaim 20 ''L'' 50 [], FComplete ''a'' ''L'' 30];
       st = demo_state\<lparr>ss_fenced := fenced_run ops NewFencedQueue\<rparr>
   in LatestStatusByKey demo_service ''k'' st = Inr StatusCompleted \<and>
      (\<forall>j. \<not> active ''k'' (ss_fenced st) j)"
proof -
  let ?ops = "[FEnqueueOnce 10 (demo_keyed ''a'' ''k''), FClaim 20 ''L'' 50 [], FComplete ''a'' ''L'' 30]"
  let ?st = "demo_state\<lparr>ss_fenced := fenced_run ?ops NewFencedQueue\<rparr>"
  have s: "LatestStatusByKey demo_service ''k'' ?st = Inr StatusCompleted" by code_simp
  have d: "sv_fencedQueue demo_service = Some (memory_fenced 10 10)" "''k'' \<noteq> []"
    "ss_fenced ?st = fenced_run ?ops NewFencedQueue" by (simp_all add: demo_service_def)
  from LatestStatusByKey_truthful [OF d] show ?thesis
    unfolding s by (simp add: Let_def s del: fenced_run_Cons fenced_run_Nil)
qed

end
