(* ===== verification/Queue_Runtime.thy ===== *)
theory Queue_Runtime
  imports Queue_Service
begin

text \<open>
  The two runtimes of the jobs pocket: \<open>NewRuntime\<close> of
  \<open>src/pockets/jobs/logic/queue/runtime.go\<close> over the ordinary queue, and \<open>NewFencedRuntime\<close> of
  \<open>fenced_runtime.go\<close> over the lease-fenced queue, with their configuration
  (\<open>runtime_config.go\<close>, \<open>fenced_config.go\<close>): what they refuse, the defaults they resolve, the
  processing closure and the dead-letter dispatch they build, the retry policy and its backoff, and
  the iteration they hand to the worker pool.  Host handlers are functions on the store state that
  may do anything, so that they also stand for whatever other workers do while a handler runs.
\<close>

section \<open>Handlers and kinds\<close>

definition handlerKinds :: "(string, 'h) go_map \<Rightarrow> string list" where
  "handlerKinds handlers =
     (if length handlers = 0 then [] else sort_slice (\<lambda>a b. a < b) (map fst handlers))"

interpretation string_order: picker "\<lambda>a b :: string. a < b" "\<lambda>s. s"
  by unfold_locales auto

lemma handlerKinds_set: "set (handlerKinds hs) = set (map fst hs)"
  by (simp add: handlerKinds_def)

lemma handlerKinds_Nil [simp]: "handlerKinds hs = [] \<longleftrightarrow> hs = []"
  using handlerKinds_set [of hs] by (cases hs) auto

section \<open>The ordinary runtime\<close>

type_synonym 's handler = "job \<Rightarrow> 's \<Rightarrow> proc_result \<times> 's"

record 's runtime_config =
  rcf_Workers :: int
  rcf_JobMiddleware :: "('s handler \<Rightarrow> 's handler) list"

record 's runtime =
  rt_handlers :: "(string, 's handler) go_map"
  rt_kinds :: "string list"
  rt_workers :: int
  rt_middleware :: "('s handler \<Rightarrow> 's handler) list"
  rt_runner :: runner_config

definition defaultWorkers :: int where
  "defaultWorkers = 4"

text \<open>The closure \<open>process\<close>; \<open>quote\<close> is the \<open>%q\<close> verb of \<open>fmt\<close>.\<close>

definition runtime_process ::
    "(string \<Rightarrow> string) \<Rightarrow> (string, 's handler) go_map \<Rightarrow> 's handler" where
  "runtime_process quote handlers j s =
     (case map_get handlers (j_Kind j) of
        None \<Rightarrow>
          (Returned (Some (Wrapped (''jobs: no handler registered for kind '' @ quote (j_Kind j) @
                                    '': invalid input'') ErrInvalidInput)), s)
      | Some h \<Rightarrow> h j s)"

fun valid_handlers :: "(string, 'h option) go_map \<Rightarrow> bool" where
  "valid_handlers [] = True"
| "valid_handlers ((kind, h) # hs) = (if kind = [] \<or> h = None then False else valid_handlers hs)"

definition NewRuntime ::
    "('s, 'f) service option \<Rightarrow> (string, 's handler option) go_map \<Rightarrow>
     ('s runtime_config \<Rightarrow> 's runtime_config) option list \<Rightarrow> 's runtime res" where
  "NewRuntime svc inputHandlers opts =
     (case apply_service_options
             (Wrapped ''jobs: nil runtime option: invalid input'' ErrInvalidInput) opts
             \<lparr>rcf_Workers = 0, rcf_JobMiddleware = []\<rparr> of
        Inl e \<Rightarrow> Inl e
      | Inr cfg \<Rightarrow>
          (case svc of
             None \<Rightarrow> Inl ErrQueueRequired
           | Some sv \<Rightarrow>
               if sv_repo sv = None then Inl ErrQueueRequired
               else if length inputHandlers = 0 then Inl ErrHandlersRequired
               else if \<not> valid_handlers inputHandlers then Inl ErrInvalidHandler
               else
                 let handlers = map (map_prod id the) inputHandlers in
                 (case NewRunner [Some (WithMaxAttempts (sv_maxAttempts sv))] of
                    Inl p \<Rightarrow> Inl (ForeignError p)
                  | Inr r \<Rightarrow>
                      Inr \<lparr>rt_handlers = handlers, rt_kinds = handlerKinds handlers,
                           rt_workers = (if rcf_Workers cfg \<le> 0 then defaultWorkers else rcf_Workers cfg),
                           rt_middleware = rcf_JobMiddleware cfg, rt_runner = r\<rparr>)))"

text \<open>
  One iteration of the queue pool (\<open>drainInFlight\<close> keeps the iteration's context from being
  cancelled, so it adds no behaviour to a started iteration).
\<close>

definition Runtime_work ::
    "'s queue_repo \<Rightarrow> (string \<Rightarrow> string) \<Rightarrow> 's runtime \<Rightarrow> string \<Rightarrow> time \<Rightarrow> time \<Rightarrow> 's \<Rightarrow> error \<times> 's" where
  "Runtime_work repo quote rt workerID clock1 now s =
     Runner_work (kindScopedQueue repo (rt_kinds rt)) job_methods
       (ChainJobMiddleware (runtime_process quote (rt_handlers rt)) (rt_middleware rt))
       (rt_runner rt) workerID clock1 now s"

section \<open>The fenced runtime\<close>

definition defaultFencedWorkers :: int where
  "defaultFencedWorkers = 2"

definition defaultFencedLeaseFor :: duration where
  "defaultFencedLeaseFor = 30 * Second"

definition defaultFencedMaxAttempts :: int where
  "defaultFencedMaxAttempts = 5"

definition defaultFencedBackoffBase :: duration where
  "defaultFencedBackoffBase = 5 * Second"

definition defaultFencedBackoffCap :: duration where
  "defaultFencedBackoffCap = 5 * Minute"

text \<open>\<open>time.Duration\<close> is an \<open>int64\<close>: the products wrap around.\<close>

fun backoff_loop :: "nat \<Rightarrow> duration \<Rightarrow> duration" where
  "backoff_loop 0 d = (if d > defaultFencedBackoffCap then defaultFencedBackoffCap else d)"
| "backoff_loop (Suc k) d =
     (let d' = int64 (d * 2)
      in if d' \<ge> defaultFencedBackoffCap then defaultFencedBackoffCap else backoff_loop k d')"

definition fencedBackoff :: "int \<Rightarrow> duration" where
  "fencedBackoff attempt0 =
     (let attempt = (if attempt0 < 1 then 1 else attempt0)
      in backoff_loop (nat (attempt - 1)) defaultFencedBackoffBase)"

definition leaseMargin :: "duration \<Rightarrow> duration" where
  "leaseMargin leaseFor = min Second (go_div leaseFor 10)"

record 's fenced_claim =
  fc_Kind :: string
  fc_ExecutionID :: string
  fc_LeaseID :: string
  fc_Payload :: bytes
  fc_TenantID :: string
  fc_Attempt :: int
  fc_Checkpoint :: "time \<Rightarrow> bytes \<Rightarrow> 's \<Rightarrow> error \<times> 's"

text \<open>
  A handler runs under two timeouts, when set: the policy's \<open>ProcessTimeout\<close> and the one that ends
  it before its lease.
\<close>

type_synonym 's fenced_handler =
  "duration option \<times> duration option \<Rightarrow> 's fenced_claim \<Rightarrow> 's \<Rightarrow> proc_result \<times> 's"
type_synonym 's dead_letter = "job \<Rightarrow> 's \<Rightarrow> error \<times> 's"

record 's fenced_config =
  fcf_Workers :: int
  fcf_LeaseFor :: duration
  fcf_ProcessTimeout :: duration
  fcf_DrainTimeout :: duration
  fcf_MaxAttempts :: int
  fcf_Backoff :: "(int \<Rightarrow> duration) option"
  fcf_JobMiddleware :: "('s fenced_handler \<Rightarrow> 's fenced_handler) list"
  fcf_DeadLetters :: "(string, 's dead_letter option) go_map"

definition zero_fenced_config :: "'s fenced_config" where
  "zero_fenced_config =
     \<lparr>fcf_Workers = 0, fcf_LeaseFor = 0, fcf_ProcessTimeout = 0, fcf_DrainTimeout = 0,
      fcf_MaxAttempts = 0, fcf_Backoff = None, fcf_JobMiddleware = [], fcf_DeadLetters = []\<rparr>"

record 's fenced_runtime =
  frt_handlers :: "(string, 's fenced_handler) go_map"
  frt_deadLetters :: "(string, 's dead_letter) go_map"
  frt_kinds :: "string list"
  frt_workers :: int
  frt_margin :: duration
  frt_drainTimeout :: duration
  frt_runner :: fenced_runner

definition retry_policy :: "int \<Rightarrow> (int \<Rightarrow> duration) \<Rightarrow> retry_decider" where
  "retry_policy maxAttempts backoff err attempt =
     (if attempt \<ge> maxAttempts then (0, False) else (backoff attempt, True))"

definition NewFencedRuntime ::
    "('q, 's) service option \<Rightarrow> (string, 's fenced_handler option) go_map \<Rightarrow>
     ('s fenced_config \<Rightarrow> 's fenced_config) option list \<Rightarrow> 's fenced_runtime res" where
  "NewFencedRuntime svc inputHandlers opts =
     (case apply_service_options
             (Wrapped ''jobs: nil fenced runtime option: invalid input'' ErrInvalidInput) opts
             zero_fenced_config of
        Inl e \<Rightarrow> Inl e
      | Inr cfg \<Rightarrow>
          if (case svc of None \<Rightarrow> True | Some sv \<Rightarrow> sv_fencedQueue sv = None)
          then Inl ErrFencedQueueRequired
          else if length inputHandlers = 0 then Inl ErrHandlersRequired
          else if \<not> valid_handlers inputHandlers then Inl ErrInvalidHandler
          else
            let handlers = map (map_prod id (\<lambda>h. ChainJobMiddleware (the h) (fcf_JobMiddleware cfg)))
                             inputHandlers;
                deadLetters = map (map_prod id the)
                                (filter (\<lambda>(k, v). v \<noteq> None) (fcf_DeadLetters cfg));
                maxAttempts = (if fcf_MaxAttempts cfg \<le> 0 then defaultFencedMaxAttempts
                               else fcf_MaxAttempts cfg);
                backoff = (case fcf_Backoff cfg of None \<Rightarrow> fencedBackoff | Some b \<Rightarrow> b);
                leaseFor = (if fcf_LeaseFor cfg \<le> 0 then defaultFencedLeaseFor else fcf_LeaseFor cfg)
            in if fcf_ProcessTimeout cfg > 0 \<and> fcf_ProcessTimeout cfg \<ge> leaseFor
               then Inl ErrProcessTimeoutExceedsLease
               else if fcf_DrainTimeout cfg > leaseFor then Inl ErrDrainTimeoutExceedsLease
               else
                 let drainTimeout = (if fcf_DrainTimeout cfg = 0 then leaseFor else fcf_DrainTimeout cfg)
                 in (case NewFencedRunner
                            [Some (WithLeaseDuration leaseFor),
                             Some (WithFencedProcessTimeout (fcf_ProcessTimeout cfg)),
                             Some (WithFencedRetryDecider (Some (retry_policy maxAttempts backoff)))] of
                       Inl p \<Rightarrow> Inl (ForeignError p)
                     | Inr r \<Rightarrow>
                         Inr \<lparr>frt_handlers = handlers, frt_deadLetters = deadLetters,
                              frt_kinds = handlerKinds handlers,
                              frt_workers = (if fcf_Workers cfg \<le> 0 then defaultFencedWorkers
                                             else fcf_Workers cfg),
                              frt_margin = leaseMargin leaseFor, frt_drainTimeout = drainTimeout,
                              frt_runner = r\<rparr>))"

text \<open>The closure \<open>process\<close>; \<open>clock\<close> is the reading of the runtime's clock when it starts.\<close>

definition fenced_process ::
    "'s fenced_repo \<Rightarrow> 's fenced_runtime \<Rightarrow> time \<Rightarrow> duration option \<Rightarrow> job \<Rightarrow> 's \<Rightarrow> proc_result \<times> 's" where
  "fenced_process repo rt clock timeout j s =
     (case map_get (frt_handlers rt) (j_Kind j) of
        None \<Rightarrow> (Returned (Some ErrUnhandledKind), s)
      | Some handler \<Rightarrow>
          let leaseTimeout = (if j_LeasedUntil j \<noteq> zero_time
                              then Some (j_LeasedUntil j - clock - frt_margin rt) else None);
              claim = \<lparr>fc_Kind = j_Kind j, fc_ExecutionID = j_JobID j, fc_LeaseID = j_LeaseID j,
                       fc_Payload = j_Payload j, fc_TenantID = j_TenantID j, fc_Attempt = j_Retries j,
                       fc_Checkpoint = (\<lambda>t payload. fp_Checkpoint repo (j_JobID j) (j_LeaseID j) payload t)\<rparr>
          in handler (timeout, leaseTimeout) claim s)"

definition fenced_deadletter ::
    "'s fenced_runtime \<Rightarrow> (job \<Rightarrow> string \<Rightarrow> 's \<Rightarrow> error \<times> 's) option" where
  "fenced_deadletter rt =
     (if length (frt_deadLetters rt) > 0
      then Some (\<lambda>j reason s.
             case map_get (frt_deadLetters rt) (j_Kind j) of
               Some hook \<Rightarrow> hook (j\<lparr>j_FailureReason := reason\<rparr>) s
             | None \<Rightarrow> (None, s))
      else None)"

text \<open>
  \<open>drainFenced\<close> on the result of one iteration: \<open>deadline\<close> says that the drain deadline cancelled
  it, \<open>runErr\<close> is the error of Run's own context.
\<close>

definition drainFenced :: "bool \<Rightarrow> error \<Rightarrow> error \<times> 's \<Rightarrow> error \<times> 's" where
  "drainFenced deadline runErr out =
     (case out of (err, s) \<Rightarrow> if err \<noteq> None \<and> deadline then (runErr, s) else (err, s))"

text \<open>What the environment decides during one iteration.\<close>

record fenced_env =
  ev_lease :: string       \<comment> \<open>the token \<open>newLease\<close> returns\<close>
  ev_claimAt :: time       \<comment> \<open>the clock at the claim\<close>
  ev_startAt :: time       \<comment> \<open>the clock when processing starts\<close>
  ev_settleAt :: time      \<comment> \<open>the clock after processing\<close>
  ev_parentErr :: error    \<comment> \<open>Run's context before the claim\<close>
  ev_parentErr2 :: error   \<comment> \<open>Run's context after the claim\<close>
  ev_ctxErr :: error       \<comment> \<open>the iteration's context after processing\<close>
  ev_deadline :: bool      \<comment> \<open>the drain deadline fired\<close>
  ev_runErr :: error       \<comment> \<open>Run's context when the iteration ends\<close>

definition fenced_drain :: "'s fenced_runtime \<Rightarrow> fenced_env \<Rightarrow> (error \<times> error) option" where
  "fenced_drain rt ev =
     (if frt_drainTimeout rt > 0 then Some (ev_parentErr ev, ev_parentErr2 ev) else None)"

definition FencedRuntime_work ::
    "'s fenced_repo \<Rightarrow> 's fenced_runtime \<Rightarrow> fenced_env \<Rightarrow> 's \<Rightarrow> error \<times> 's" where
  "FencedRuntime_work repo rt ev s =
     (let out = FencedRunner_work (kindScopedFenced repo (frt_kinds rt) (fenced_drain rt ev)) job_methods
                  (fenced_process repo rt (ev_startAt ev)) (fenced_deadletter rt) (frt_runner rt)
                  (ev_lease ev) (ev_claimAt ev) (ev_settleAt ev) (ev_ctxErr ev) s
      in if frt_drainTimeout rt > 0 then drainFenced (ev_deadline ev) (ev_runErr ev) out else out)"

section \<open>Backoff and margins\<close>

lemma backoff_loop_eq:
  assumes "0 < d" and "d < defaultFencedBackoffCap"
  shows "backoff_loop k d = min defaultFencedBackoffCap (d * 2 ^ k)"
  using assms
proof (induction k arbitrary: d)
  case (Suc k)
  have wrap: "int64 (d * 2) = d * 2"
    using Suc.prems by (intro int64_small) (simp_all add: defaultFencedBackoffCap_def)
  show ?case
  proof (cases "d * 2 \<ge> defaultFencedBackoffCap")
    case True
    moreover have "d * 2 \<le> d * 2 ^ Suc k"
      using Suc.prems(1) by (simp add: mult_left_mono)
    ultimately show ?thesis by (simp add: wrap)
  next
    case False
    then show ?thesis
      using Suc.IH [of "d * 2"] Suc.prems(1) by (simp add: wrap algebra_simps)
  qed
qed simp

text \<open>
  The doubling loop of \<open>fencedBackoff\<close>, run in 64-bit arithmetic, computes the capped
  exponential its comment promises for every attempt number: five seconds doubled per attempt,
  at most five minutes.  No attempt number makes it overflow, return a negative delay or exceed the
  cap.
\<close>

theorem fencedBackoff_closed_form:
  "fencedBackoff attempt = min (300 * Second) (5 * Second * 2 ^ nat (max 1 attempt - 1)) \<and>
   5 * Second \<le> fencedBackoff attempt \<and> fencedBackoff attempt \<le> 300 * Second"
proof -
  let ?a = "if attempt < 1 then 1 else attempt"
  have "?a = max 1 attempt" by auto
  then have eq: "fencedBackoff attempt =
      min defaultFencedBackoffCap (defaultFencedBackoffBase * 2 ^ nat (max 1 attempt - 1))"
    unfolding fencedBackoff_def Let_def
    by (subst backoff_loop_eq) (simp_all add: defaultFencedBackoffBase_def defaultFencedBackoffCap_def)
  then show ?thesis
    by (simp add: defaultFencedBackoffBase_def defaultFencedBackoffCap_def)
qed

lemma leaseMargin_bounds:
  assumes "0 < leaseFor"
  shows "0 \<le> leaseMargin leaseFor" and "leaseMargin leaseFor \<le> Second"
    and "10 * leaseMargin leaseFor \<le> leaseFor"
  using assms by (auto simp: leaseMargin_def go_div_def)

section \<open>Construction\<close>

text \<open>
  Property C37.  What \<open>NewFencedRuntime\<close> accepts is safe to run, for every input: its inner
  \<open>NewFencedRunner\<close> never panics, the resolved lease is positive, the processing timeout is
  strictly inside the lease, the shutdown drain does not outlast the lease, the settlement margin is
  at most a tenth of the lease and at most a second, the pool has a worker, and the runtime claims
  exactly the kinds it has handlers for, of which there is at least one.
\<close>

theorem NewFencedRuntime_safe:
  "case NewFencedRuntime svc hs opts of
     Inl e \<Rightarrow> e \<notin> range ForeignError
   | Inr rt \<Rightarrow>
       0 < fr_leaseFor (frt_runner rt) \<and> 0 \<le> fr_processTimeout (frt_runner rt) \<and>
       fr_processTimeout (frt_runner rt) < fr_leaseFor (frt_runner rt) \<and>
       frt_drainTimeout rt \<noteq> 0 \<and> frt_drainTimeout rt \<le> fr_leaseFor (frt_runner rt) \<and>
       0 \<le> frt_margin rt \<and> frt_margin rt \<le> Second \<and> 10 * frt_margin rt \<le> fr_leaseFor (frt_runner rt) \<and>
       1 \<le> frt_workers rt \<and> frt_kinds rt \<noteq> [] \<and> set (frt_kinds rt) = set (map fst (frt_handlers rt))"
proof -
  have opts: "apply_service_options (Wrapped m er) os c \<noteq> Inl (ForeignError p)" for m er os p and c :: "'a fenced_config"
    by (induction "Wrapped m er" os c rule: apply_service_options.induct) auto
  have runner: "NewFencedRunner [Some (WithLeaseDuration l), Some (WithFencedProcessTimeout t),
      Some (WithFencedRetryDecider f)] =
      Inr \<lparr>fr_leaseFor = l, fr_processTimeout = max 0 t, fr_retryDecider = f\<rparr>"
    if "0 < l" "\<not> (0 < t \<and> l \<le> t)" for l t f
    using that by (auto simp: NewFencedRunner_def WithLeaseDuration_def WithFencedProcessTimeout_def
        WithFencedRetryDecider_def)
  show ?thesis
  proof (cases "apply_service_options (Wrapped ''jobs: nil fenced runtime option: invalid input''
      ErrInvalidInput) opts zero_fenced_config")
    case (Inl e)
    with opts show ?thesis by (auto simp: NewFencedRuntime_def)
  next
    case (Inr cfg)
    define lease where "lease = (if fcf_LeaseFor cfg \<le> 0 then defaultFencedLeaseFor else fcf_LeaseFor cfg)"
    have lease: "0 < lease" by (simp add: lease_def defaultFencedLeaseFor_def)
    show ?thesis
    proof (cases "(case svc of None \<Rightarrow> True | Some sv \<Rightarrow> sv_fencedQueue sv = None) \<or> length hs = 0 \<or>
        \<not> valid_handlers hs \<or> fcf_ProcessTimeout cfg > 0 \<and> fcf_ProcessTimeout cfg \<ge> lease \<or>
        fcf_DrainTimeout cfg > lease")
      case True
      then show ?thesis
        unfolding NewFencedRuntime_def Inr sum.case Let_def lease_def [symmetric] by auto
    next
      case False
      then have "\<not> (0 < fcf_ProcessTimeout cfg \<and> lease \<le> fcf_ProcessTimeout cfg)" by blast
      note r = runner [OF lease this]
      from False show ?thesis
        unfolding NewFencedRuntime_def Inr sum.case Let_def lease_def [symmetric]
        using lease leaseMargin_bounds [OF lease]
        by (simp add: r handlerKinds_set defaultFencedWorkers_def) linarith
    qed
  qed
qed

lemma NewFencedRuntime_runner:
  assumes "NewFencedRuntime svc hs opts = Inr rt"
  obtains m backoff where "fr_retryDecider (frt_runner rt) = Some (retry_policy m backoff)" "1 \<le> m"
    "frt_kinds rt = handlerKinds (frt_handlers rt)" "frt_handlers rt \<noteq> []"
  using assms
  by (auto simp: NewFencedRuntime_def NewFencedRunner_def WithFencedRetryDecider_def Let_def
      defaultFencedMaxAttempts_def split: sum.splits if_splits)

section \<open>Iterations of the fenced runtime\<close>

lemma runtime_claim_kind:
  assumes "fenced_inv s"
    and "fs_Claim (kindScopedFenced (memory_fenced c1 c2) (handlerKinds hs) drain) t l d s = (Inr j, s')"
    and "hs \<noteq> []"
  shows "map_get hs (j_Kind j) \<noteq> None"
proof -
  have "FencedQueue_Claim t l d (handlerKinds hs) s = (Inr j, s')"
    using assms(2) mfs.scoped_claim_some [of c1 c2 "handlerKinds hs" drain t l d s j s']
    by (simp add: kindScopedFenced_def memory_fenced_def)
  from FencedQueue_Claim_result(6) [OF assms(1) this] assms(3) handlerKinds_set [of hs]
  show ?thesis by (auto simp: kindAllowed_iff map_of_eq_None_iff)
qed

text \<open>
  The fenced runtime never leases a job it cannot process: whatever the store holds,
  a job its claim returns has a registered handler, so the unhandled-kind branch of the processing
  closure is never taken and no attempt is spent on a foreign kind.
\<close>

theorem fenced_claim_has_handler:
  assumes "NewFencedRuntime svc hs opts = Inr rt" and "fenced_inv s"
    and "fs_Claim (kindScopedFenced (memory_fenced c1 c2) (frt_kinds rt) (fenced_drain rt ev)) t l d s = (Inr j, s')"
  shows "\<exists>h. map_get (frt_handlers rt) (j_Kind j) = Some h"
  by (rule NewFencedRuntime_runner [OF assms(1)])
    (use runtime_claim_kind [OF assms(2)] assms(3) in auto)

lemma drainFenced_None: "drainFenced deadline runErr (None, s) = (None, s)"
  by (simp add: drainFenced_def)

text \<open>
  Property C15.  One iteration of a fenced runtime whose context is not canceled settles the job it
  claimed, by the disposition of the handler's result, whenever the job is still held under the
  claim's lease when the handler has returned and that lease expires after the moment of settling,
  and, should the result be a deferral, the time it asks for is still ahead at that moment: success
  completes the job; a rejection dead-letters it; a deferral makes it wait until the requested time
  and gives the attempt back; any other error, a panic included, makes it wait for the backoff
  while attempts are left and dead-letters it once they are spent (the runtime's retry decider being
  the standard policy of a maximum and a backoff).  The iteration then reports no error, and the
  dead-letter hook runs after that transition, on the state that records it.
\<close>

theorem fenced_iteration_settles:
  assumes rt: "NewFencedRuntime svc hs opts = Inr rt"
      "fr_retryDecider (frt_runner rt) = Some (retry_policy m backoff)"
    and claim: "fs_Claim (kindScopedFenced (memory_fenced c1 c2) (frt_kinds rt) (fenced_drain rt ev))
      (ev_claimAt ev) (ev_lease ev) (fr_leaseFor (frt_runner rt)) s = (Inr j, s1)"
    and proc: "runProcess (fenced_process (memory_fenced c1 c2) rt (ev_startAt ev)
      (timeout_of (frt_runner rt))) j s1 = (err, s2)"
    and live: "fenced_inv s2" "phase_of (j_JobID j) s2 = Held (ev_lease ev) u (j_Retries j)"
      "ev_settleAt ev < u" "ev_ctxErr ev = None"
    and future: "\<forall>e until reason. err = Some e \<and> as_deferred e = Some (until, reason) \<longrightarrow> ev_settleAt ev < until"
  shows "\<exists>s3. fenced_inv s3 \<and>
    phase_of (j_JobID j) s3 =
      (case err of
         None \<Rightarrow> Done StatusCompleted (ev_lease ev) (j_Retries j)
       | Some e \<Rightarrow>
           if as_permanent e \<noteq> None then Done StatusDeadLetter (ev_lease ev) (j_Retries j)
           else (case as_deferred e of
             Some (until, reason) \<Rightarrow> Waiting until (j_Retries j - 1)
           | None \<Rightarrow>
               if j_Retries j \<ge> m then Done StatusDeadLetter (ev_lease ev) (j_Retries j)
               else Waiting (ev_settleAt ev + backoff (j_Retries j)) (j_Retries j))) \<and>
    FencedRuntime_work (memory_fenced c1 c2) rt ev s =
      (None, hooked (fenced_deadletter rt) j err (phase_of (j_JobID j) s3) s3)"
proof -
  have jm: "ji_ID job_methods = j_JobID" "ji_RetryCount job_methods = j_Retries"
    by (simp_all add: job_methods_def)
  have deferral: "\<And>e until reason. err = Some e \<Longrightarrow> as_permanent e = None \<Longrightarrow>
      as_deferred e = Some (until, reason) \<Longrightarrow> ev_settleAt ev < until \<and>
      fs_Defer (kindScopedFenced (memory_fenced c1 c2) (frt_kinds rt) (fenced_drain rt ev)) \<noteq> None"
    using future by (auto simp: kindScopedFenced_def)
  have "\<exists>s3. fenced_inv s3 \<and>
      phase_of (ji_ID job_methods j) s3 =
        settlement (frt_runner rt) (ev_lease ev) (ev_settleAt ev) (ji_RetryCount job_methods j) err \<and>
      FencedRunner_work (kindScopedFenced (memory_fenced c1 c2) (frt_kinds rt) (fenced_drain rt ev)) job_methods
        (fenced_process (memory_fenced c1 c2) rt (ev_startAt ev)) (fenced_deadletter rt) (frt_runner rt)
        (ev_lease ev) (ev_claimAt ev) (ev_settleAt ev) None s =
        (None, hooked (fenced_deadletter rt) j err (phase_of (ji_ID job_methods j) s3) s3)"
    by (rule mfs.work_settles [where process = "fenced_process (memory_fenced c1 c2) rt (ev_startAt ev)",
          OF claim proc live(1) _ live(3)])
      (simp add: jm live(2), rule deferral)
  then obtain s3 where "fenced_inv s3"
    "phase_of (j_JobID j) s3 = settlement (frt_runner rt) (ev_lease ev) (ev_settleAt ev) (j_Retries j) err"
    "FencedRunner_work (kindScopedFenced (memory_fenced c1 c2) (frt_kinds rt) (fenced_drain rt ev)) job_methods
       (fenced_process (memory_fenced c1 c2) rt (ev_startAt ev)) (fenced_deadletter rt) (frt_runner rt)
       (ev_lease ev) (ev_claimAt ev) (ev_settleAt ev) None s =
       (None, hooked (fenced_deadletter rt) j err (phase_of (j_JobID j) s3) s3)"
    unfolding jm by blast
  then show ?thesis
    using rt(2)
    by (intro exI [of _ s3])
      (simp add: FencedRuntime_work_def Let_def live(4) drainFenced_None settlement_def retry_policy_def
        split: option.splits)
qed

text \<open>
  An iteration whose lease was lost while the handler ran (expired, reclaimed,
  canceled or superseded) records nothing: the store is left exactly as the handler and the other
  workers left it, no dead-letter hook runs, and for a job that still exists the iteration reports no
  error unless the handler asked for a deferral.
\<close>

theorem fenced_iteration_lost:
  assumes claim: "fs_Claim (kindScopedFenced (memory_fenced c1 c2) (frt_kinds rt) (fenced_drain rt ev))
      (ev_claimAt ev) (ev_lease ev) (fr_leaseFor (frt_runner rt)) s = (Inr j, s1)"
    and proc: "runProcess (fenced_process (memory_fenced c1 c2) rt (ev_startAt ev)
      (timeout_of (frt_runner rt))) j s1 = (err, s2)"
    and lost: "fenced_inv s2" "lease_gone (ev_lease ev) (ev_settleAt ev) (phase_of (j_JobID j) s2)"
      "ev_ctxErr ev = None"
  shows "snd (FencedRuntime_work (memory_fenced c1 c2) rt ev s) = s2 \<and>
    (phase_of (j_JobID j) s2 \<noteq> Absent \<and> (\<forall>e. err = Some e \<longrightarrow> as_deferred e = None) \<longrightarrow>
       fst (FencedRuntime_work (memory_fenced c1 c2) rt ev s) = None)"
proof -
  have jm: "ji_ID job_methods = j_JobID" by (simp add: job_methods_def)
  from mfs.work_lost [where process = "fenced_process (memory_fenced c1 c2) rt (ev_startAt ev)"
      and dl = "fenced_deadletter rt" and now = "ev_settleAt ev", OF claim proc lost(1), unfolded jm]
    lost(2)
  show ?thesis
    by (cases "FencedRunner_work (kindScopedFenced (memory_fenced c1 c2) (frt_kinds rt) (fenced_drain rt ev))
       job_methods (fenced_process (memory_fenced c1 c2) rt (ev_startAt ev)) (fenced_deadletter rt)
       (frt_runner rt) (ev_lease ev) (ev_claimAt ev) (ev_settleAt ev) None s")
      (auto simp: FencedRuntime_work_def lost(3) drainFenced_def Let_def)
qed

section \<open>A sample runtime\<close>

definition demo_handler :: "fenced_queue fenced_handler" where
  "demo_handler timeouts claim s = (Returned (Some (ForeignError ''boom'')), s)"

definition demo_runtime :: "fenced_queue fenced_runtime" where
  "demo_runtime =
     \<lparr>frt_handlers = [(''mail'', demo_handler)], frt_deadLetters = [], frt_kinds = [''mail''],
      frt_workers = 2, frt_margin = Second, frt_drainTimeout = 30 * Second,
      frt_runner = \<lparr>fr_leaseFor = 30 * Second, fr_processTimeout = 0,
        fr_retryDecider = Some (retry_policy 5 fencedBackoff)\<rparr>\<rparr>"

definition demo_env :: "time \<Rightarrow> fenced_env" where
  "demo_env t = \<lparr>ev_lease = ''L1'', ev_claimAt = 20, ev_startAt = 21, ev_settleAt = t,
     ev_parentErr = None, ev_parentErr2 = None, ev_ctxErr = None, ev_deadline = False, ev_runErr = None\<rparr>"

lemma demo_runtime_new:
  "NewFencedRuntime (Some demo_service) [(''mail'', Some demo_handler)] [] = Inr demo_runtime"
  by (simp add: NewFencedRuntime_def demo_service_def zero_fenced_config_def NewFencedRunner_def
      WithLeaseDuration_def WithFencedProcessTimeout_def WithFencedRetryDecider_def demo_runtime_def
      defaultFencedLeaseFor_def defaultFencedMaxAttempts_def defaultFencedWorkers_def leaseMargin_def
      go_div_def handlerKinds_def Let_def)

definition demo_job :: job where
  "demo_job = projr (fst (FencedQueue_Claim 20 ''L1'' (30 * Second) [''mail''] demo_fenced))"

definition demo_leased :: fenced_queue where
  "demo_leased = snd (FencedQueue_Claim 20 ''L1'' (30 * Second) [''mail''] demo_fenced)"

lemma demo_claim_eq: "FencedQueue_Claim 20 ''L1'' (30 * Second) [''mail''] demo_fenced = (Inr demo_job, demo_leased)"
proof -
  have "\<not> isl (fst (FencedQueue_Claim 20 ''L1'' (30 * Second) [''mail''] demo_fenced))" by code_simp
  then show ?thesis unfolding demo_job_def demo_leased_def by (metis prod.collapse sum.collapse(2))
qed

lemma demo_claim:
  "fs_Claim (kindScopedFenced (memory_fenced 10 10) (frt_kinds demo_runtime) (fenced_drain demo_runtime (demo_env t)))
     (ev_claimAt (demo_env t)) (ev_lease (demo_env t)) (fr_leaseFor (frt_runner demo_runtime)) demo_fenced =
     (Inr demo_job, demo_leased)"
  using demo_claim_eq
  by (simp add: kindScopedFenced_def kindScopedFenced_Claim_def fenced_drain_def demo_runtime_def
      demo_env_def memory_fenced_def)

lemma demo_claim_facts:
  "j_JobID demo_job = ''a''" "j_Kind demo_job = ''mail''" "j_Retries demo_job = 1"
  "phase_of ''a'' demo_leased = Held ''L1'' (30 * Second + 20) 1"
  by code_simp+

lemma demo_leased_inv: "fenced_inv demo_leased"
  using fenced_step_inv [OF demo_fenced_inv, of "FClaim 20 ''L1'' (30 * Second) [''mail'']"] demo_claim_eq
  by simp

theorem fenced_claim_has_handler_witness:
  "\<exists>h. map_get (frt_handlers demo_runtime) (j_Kind demo_job) = Some h"
  by (rule fenced_claim_has_handler [OF demo_runtime_new demo_fenced_inv demo_claim])

lemma demo_process:
  "runProcess (fenced_process (memory_fenced 10 10) demo_runtime (ev_startAt (demo_env t))
     (timeout_of (frt_runner demo_runtime))) demo_job demo_leased = (Some (ForeignError ''boom''), demo_leased)"
  by (simp add: runProcess_def fenced_process_def demo_claim_facts demo_runtime_def demo_handler_def)

lemma demo_decider: "fr_retryDecider (frt_runner demo_runtime) = Some (retry_policy 5 fencedBackoff)"
  by (simp add: demo_runtime_def)

theorem fenced_iteration_settles_witness:
  "\<exists>s3. phase_of ''a'' s3 = Waiting (30 + 5 * Second) 1 \<and>
     FencedRuntime_work (memory_fenced 10 10) demo_runtime (demo_env 30) demo_fenced = (None, s3)"
proof -
  have b: "fencedBackoff 1 = 5 * Second" by code_simp
  have env: "ev_settleAt (demo_env 30) = 30" "ev_lease (demo_env 30) = ''L1''" by (simp_all add: demo_env_def)
  have live: "phase_of (j_JobID demo_job) demo_leased = Held (ev_lease (demo_env 30)) (30 * Second + 20) (j_Retries demo_job)"
    "ev_settleAt (demo_env 30) < 30 * Second + 20" "ev_ctxErr (demo_env 30) = None"
    by (simp_all add: demo_claim_facts demo_env_def)
  have "\<exists>s3. fenced_inv s3 \<and> phase_of ''a'' s3 = Waiting (30 + fencedBackoff 1) 1 \<and>
      FencedRuntime_work (memory_fenced 10 10) demo_runtime (demo_env 30) demo_fenced =
        (None, hooked (fenced_deadletter demo_runtime) demo_job (Some (ForeignError ''boom''))
          (phase_of ''a'' s3) s3)"
    using fenced_iteration_settles [OF demo_runtime_new demo_decider demo_claim demo_process demo_leased_inv live]
    by (simp add: demo_claim_facts env)
  then show ?thesis
    by (auto simp: b demo_claim_facts hooked_def fenced_deadletter_def demo_runtime_def)
qed

theorem fenced_iteration_lost_witness:
  "FencedRuntime_work (memory_fenced 10 10) demo_runtime (demo_env (31 * Second)) demo_fenced =
     (None, demo_leased)"
proof -
  have gone: "lease_gone (ev_lease (demo_env (31 * Second))) (ev_settleAt (demo_env (31 * Second)))
      (phase_of (j_JobID demo_job) demo_leased)" "ev_ctxErr (demo_env (31 * Second)) = None"
    by (simp_all add: demo_claim_facts lease_gone_def demo_env_def)
  show ?thesis
    using fenced_iteration_lost [OF demo_claim demo_process demo_leased_inv gone]
    by (simp add: demo_claim_facts prod_eq_iff)
qed

section \<open>The dead-letter hook, crashing workers\<close>

lemma Fail_persisted:
  "FencedQueue_Fail i l r now q = (None, q') \<Longrightarrow> \<exists>n. phase_of i q' = Done StatusDeadLetter l n"
  by (auto simp: FencedQueue_Fail_def heldBy_def job_phase_def split: option.splits if_splits)

text \<open>
  The dead-letter hook only ever observes a recorded dead letter.  Two hooks that agree
  on every state in which the job is durably dead-lettered under this lease cannot be told apart by
  any iteration: there is no path, whatever the handler returns or the other workers do, on which
  the hook runs before the transition is recorded or without it.
\<close>

theorem dead_letter_hook_after_record:
  assumes "\<forall>j reason s. (\<exists>n. phase_of (j_JobID j) s = Done StatusDeadLetter l n) \<longrightarrow>
    hook j reason s = hook' j reason s"
  shows "FencedRunner_work (kindScopedFenced (memory_fenced c1 c2) kinds drain) job_methods process
      (Some hook) r l t now ctxErr s =
    FencedRunner_work (kindScopedFenced (memory_fenced c1 c2) kinds drain) job_methods process
      (Some hook') r l t now ctxErr s"
proof -
  have "snd (hook j x s3) = snd (hook' j x s3)"
    if "FencedQueue_Fail (j_JobID j) l x now s2 = (None, s3)" for j x s2 s3
    using assms Fail_persisted [OF that] by simp
  then have rf: "record_failure (kindScopedFenced (memory_fenced c1 c2) kinds drain) (Some hook) j (j_JobID j) l e now s2 =
      record_failure (kindScopedFenced (memory_fenced c1 c2) kinds drain) (Some hook') j (j_JobID j) l e now s2"
    for j e s2
    by (auto simp: record_failure_def kindScopedFenced_def memory_fenced_def split: prod.splits option.splits)
  show ?thesis
    unfolding FencedRunner_work_def Let_def job_methods_def job_iface.select_convs rf by (rule refl)
qed

theorem dead_letter_hook_after_record_witness:
  "let hook = (\<lambda>j reason s. (None, s));
       hook' = (\<lambda>j reason s. if \<exists>n. phase_of (j_JobID j) s = Done StatusDeadLetter ''L1'' n
                              then (None, s) else (Some ErrConflict, NewFencedQueue))
   in FencedRunner_work (kindScopedFenced (memory_fenced 1 2) [] None) job_methods
        (\<lambda>_ _ s. (Returned (Some (PermanentError ''no'')), s)) (Some hook)
        (frt_runner demo_runtime) ''L1'' 20 30 None demo_fenced =
      FencedRunner_work (kindScopedFenced (memory_fenced 1 2) [] None) job_methods
        (\<lambda>_ _ s. (Returned (Some (PermanentError ''no'')), s)) (Some hook')
        (frt_runner demo_runtime) ''L1'' 20 30 None demo_fenced"
  unfolding Let_def by (rule dead_letter_hook_after_record) simp

definition is_claim :: "fenced_op \<Rightarrow> bool" where
  "is_claim op = (case op of FClaim _ _ _ _ \<Rightarrow> True | _ \<Rightarrow> False)"

text \<open>
  Property C39.  The attempt ceiling is applied when a handler returns, not when a job is claimed: a
  job whose worker always dies before it settles (so that every lease simply expires) is claimed
  again without bound and is never dead-lettered.  For every \<open>n\<close> there is a history of nothing but
  claims after which the job is held with \<open>n\<close> more attempts.
\<close>

theorem crashed_claims_unbounded:
  assumes "fq_jobs q = [(jid, j)]" and "j_JobID j = jid" and "j_JobStatus j = StatusRunning"
  shows "\<exists>ops. (\<forall>op\<in>set ops. is_claim op) \<and>
    (\<exists>l u. phase_of jid (fenced_run ops q) = Held l u (j_Retries j + int n))"
  using assms
proof (induction n arbitrary: q j)
  case 0
  then show ?case by (intro exI [of _ "[]"]) (auto simp: job_phase_def)
next
  case (Suc n)
  let ?op = "FClaim (j_LeasedUntil j) ''L'' 1 []"
  let ?j = "leased_job (j_LeasedUntil j) ''L'' 1 j"
  have "fq_jobs (fenced_step ?op q) = [(jid, ?j)]"
    using Suc.prems by (simp add: FencedQueue_Claim_def fencedDue_def kindAllowed_def leased_job_def Let_def)
  with Suc.IH [of "fenced_step ?op q" ?j] Suc.prems
  obtain ops l u where "\<forall>op\<in>set ops. is_claim op"
    "phase_of jid (fenced_run ops (fenced_step ?op q)) = Held l u (j_Retries j + 1 + int n)"
    by (auto simp: leased_job_def)
  then show ?case
    by (intro exI [of _ "?op # ops"]) (auto simp: is_claim_def algebra_simps)
qed

theorem crashed_claims_unbounded_witness:
  "\<exists>ops. (\<forall>op\<in>set ops. is_claim op) \<and>
    (\<exists>l u. phase_of ''a'' (fenced_run ops demo_leased) = Held l u (1 + int 100))"
proof -
  let ?j = "snd (hd (fq_jobs demo_leased))"
  have "map fst (fq_jobs demo_leased) = [''a'']" by code_simp
  then have "fq_jobs demo_leased = [(''a'', ?j)]"
    by (cases "fq_jobs demo_leased") auto
  moreover have "j_JobID ?j = ''a''" "j_JobStatus ?j = StatusRunning" "j_Retries ?j = 1" by code_simp+
  ultimately show ?thesis
    using crashed_claims_unbounded [of demo_leased "''a''" ?j 100] by simp
qed

section \<open>Iterations of the ordinary runtime\<close>

text \<open>
  One iteration of the ordinary runtime settles the job it claimed whenever the job is
  still running when the handler returns, with \<open>n\<close> failures so far: success completes it without
  counting a failure; a rejection dead-letters it at once; a deferral returns it to pending without
  counting a failure; any other error, a panic included, counts one failure and dead-letters the job
  exactly when that reaches the job's own ceiling, or the runtime's when the job has none.
\<close>

theorem runtime_iteration_settles:
  assumes claim: "queue_inv s"
      "js_Claim (kindScopedQueue (memory_queue c) (rt_kinds rt)) w clock1 s = (Inr j, s1)"
    and proc: "runProcess (ChainJobMiddleware (runtime_process quote (rt_handlers rt)) (rt_middleware rt)) j s1 = (err, s2)"
    and running: "queue_inv s2" "queue_view (j_JobID j) s2 = Some (StatusRunning, n)"
    and future: "\<forall>e until reason. err = Some e \<and> as_deferred e = Some (until, reason) \<longrightarrow> now < until"
  shows "\<exists>s3. Runtime_work (memory_queue c) quote rt w clock1 now s = (None, s3) \<and> queue_inv s3 \<and>
    queue_view (j_JobID j) s3 = Some
      (case err of
         None \<Rightarrow> (StatusCompleted, n)
       | Some e \<Rightarrow>
           if as_permanent e \<noteq> None then (StatusDeadLetter, n + 1)
           else if as_deferred e \<noteq> None then (StatusPending, n)
           else if n + 1 \<ge> (if j_MaxAttempts j > 0 then j_MaxAttempts j else rc_maxAttempts (rt_runner rt))
           then (StatusDeadLetter, n + 1)
           else (StatusPending, n + 1))"
proof -
  have jm: "ji_ID job_methods = j_JobID" by (simp add: job_methods_def)
  have running': "queue_view (ji_ID job_methods j) s2 = Some (StatusRunning, n)"
    using running(2) by (simp add: jm)
  have "\<exists>s3. Runner_work (kindScopedQueue (memory_queue c) (rt_kinds rt)) job_methods
      (ChainJobMiddleware (runtime_process quote (rt_handlers rt)) (rt_middleware rt)) (rt_runner rt) w clock1 now s
      = (None, s3) \<and> queue_inv s3 \<and>
      queue_view (ji_ID job_methods j) s3 = Some (run_outcome (retry_limit job_methods (rt_runner rt) j) n err)"
    by (rule mqs.work_settles [OF claim proc running(1) running'])
      (use future in \<open>auto simp: kindScopedQueue_def\<close>)
  moreover have "retry_limit job_methods (rt_runner rt) j =
      (if j_MaxAttempts j > 0 then j_MaxAttempts j else rc_maxAttempts (rt_runner rt))"
    by (simp add: retry_limit_def job_methods_def)
  ultimately show ?thesis
    unfolding Runtime_work_def jm run_outcome_def by (simp only:)
qed

definition demo_ordinary :: "queue runtime" where
  "demo_ordinary =
     \<lparr>rt_handlers = [(''mail'', \<lambda>j s. (Panicked ''nil map'', s))], rt_kinds = [''mail''], rt_workers = 4,
      rt_middleware = [], rt_runner = \<lparr>rc_maxAttempts = 3\<rparr>\<rparr>"

definition demo_claimed :: "job \<times> queue" where
  "demo_claimed = apfst projr (Queue_Claim ''w'' 20 [''mail''] demo_queue)"

theorem runtime_iteration_settles_witness:
  "\<exists>s3. Runtime_work (memory_queue 1) id demo_ordinary ''w'' 20 30 demo_queue = (None, s3) \<and>
     queue_view ''b'' s3 = Some (StatusPending, 1)"
proof -
  have f: "j_JobID (fst demo_claimed) = ''b''" "j_Kind (fst demo_claimed) = ''mail''"
    "j_MaxAttempts (fst demo_claimed) = 3"
    "queue_view ''b'' (snd demo_claimed) = Some (StatusRunning, 0)" by code_simp+
  have "\<not> isl (fst (Queue_Claim ''w'' 20 [''mail''] demo_queue))" by code_simp
  then have c: "Queue_Claim ''w'' 20 [''mail''] demo_queue = (Inr (fst demo_claimed), snd demo_claimed)"
    by (simp add: demo_claimed_def prod_eq_iff)
  then have claim: "js_Claim (kindScopedQueue (memory_queue 1) (rt_kinds demo_ordinary)) ''w'' 20 demo_queue =
      (Inr (fst demo_claimed), snd demo_claimed)"
    by (simp add: kindScopedQueue_def memory_queue_def demo_ordinary_def)
  have proc: "runProcess (ChainJobMiddleware (runtime_process id (rt_handlers demo_ordinary))
      (rt_middleware demo_ordinary)) (fst demo_claimed) (snd demo_claimed) =
      (Some (ForeignError ''workers: panic in process: nil map''), snd demo_claimed)"
    using f(2) by (simp add: runProcess_def runtime_process_def demo_ordinary_def)
  have inv: "queue_inv (snd demo_claimed)"
    using queue_settle_inv(4) [OF demo_queue_inv, of "''w''" 20 "[''mail'']"] c by simp
  have run: "queue_view (j_JobID (fst demo_claimed)) (snd demo_claimed) = Some (StatusRunning, 0)"
    using f by simp
  from runtime_iteration_settles [OF demo_queue_inv claim proc inv run, of 30] show ?thesis
    using f by auto
qed

end
