(* ===== verification/Schedules.thy ===== *)
theory Schedules
  imports Queue_Service
begin

text \<open>
  Recurring schedules of the jobs pocket: the entities of
  \<open>src/pockets/jobs/logic/schedules/schedule.go\<close>, the in-memory store of
  \<open>stores/memory/schedules.go\<close>, and the service of \<open>logic/schedules/service.go\<close>: recurrence
  validation, the next fire time, and the worker iteration that claims due schedules as durable
  occurrences and delivers them into the queue.  A cron parser is outside the package: it is an
  argument, a function from an expression to an error, no schedule, or its \<open>Next\<close> function.
\<close>

section \<open>Entities\<close>

record spec =
  sp_Cron :: string
  sp_Every :: duration

record schedule =
  s_ID :: string
  s_Name :: string
  s_Kind :: string
  s_TenantID :: string
  s_Spec :: spec
  s_Payload :: bytes
  s_Enabled :: bool
  s_NextRunAt :: time
  s_LastRunAt :: "time option"
  s_LastJobID :: string
  s_CreatedAt :: time
  s_UpdatedAt :: time

record ensure =
  n_ID :: string
  n_Name :: string
  n_Kind :: string
  n_TenantID :: string
  n_Spec :: spec
  n_Payload :: bytes

record occurrence =
  o_JobID :: string
  o_ScheduleID :: string
  o_Kind :: string
  o_TenantID :: string
  o_Payload :: bytes
  o_Slot :: time
  o_ClaimedAt :: time
  o_Attempts :: int

text \<open>
  \<open>%09d\<close>, and the parts of an instant.  \<open>Unix\<close> counts whole seconds from 1970, which is 62135596800 seconds after the
  zero time, and \<open>Nanosecond\<close> is the rest.
\<close>

fun print_width :: "nat \<Rightarrow> int \<Rightarrow> string" where
  "print_width 0 n = []"
| "print_width (Suc w) n = print_width w (n div 10) @ [digit (n mod 10)]"

definition Unix :: "time \<Rightarrow> int" where
  "Unix t = t div Second - 62135596800"

definition Nanosecond_of :: "time \<Rightarrow> int" where
  "Nanosecond_of t = t mod Second"

definition OccurrenceID :: "string \<Rightarrow> time \<Rightarrow> string" where
  "OccurrenceID sid slot =
     ''sched_'' @ sid @ ''_'' @ print_int (Unix slot) @ ''_'' @ print_width 9 (Nanosecond_of slot)"

section \<open>The in-memory store\<close>

record schedules =
  sch_byID :: "(string, schedule) go_map"
  sch_pending :: "(string, occurrence) go_map"

definition NewSchedules :: schedules where
  "NewSchedules = \<lparr>sch_byID = [], sch_pending = []\<rparr>"

fun findByName :: "string \<Rightarrow> schedule list \<Rightarrow> schedule option" where
  "findByName name [] = None"
| "findByName name (sch # rest) = (if s_Name sch = name then Some sch else findByName name rest)"

definition Schedules_Ensure ::
    "time \<Rightarrow> ensure \<Rightarrow> time \<Rightarrow> schedules \<Rightarrow> schedule res \<times> schedules" where
  "Schedules_Ensure clock inp next st =
     (if n_ID inp = [] then (Inl errIDRequired, st)
      else case findByName (n_Name inp) (map_vals (sch_byID st)) of
        Some existing \<Rightarrow>
          let specChanged = (s_Spec existing \<noteq> n_Spec inp);
              e1 = existing\<lparr>s_Kind := n_Kind inp, s_TenantID := n_TenantID inp, s_Spec := n_Spec inp,
                            s_Payload := n_Payload inp\<rparr>;
              e2 = (if specChanged then e1\<lparr>s_NextRunAt := next\<rparr> else e1);
              e3 = (if clock > s_UpdatedAt e2 then e2\<lparr>s_UpdatedAt := clock\<rparr> else e2)
          in (Inr e3, st\<lparr>sch_byID := map_put (s_ID e3) e3 (sch_byID st)\<rparr>)
      | None \<Rightarrow>
          let sch = \<lparr>s_ID = n_ID inp, s_Name = n_Name inp, s_Kind = n_Kind inp,
                     s_TenantID = n_TenantID inp, s_Spec = n_Spec inp, s_Payload = n_Payload inp,
                     s_Enabled = True, s_NextRunAt = next, s_LastRunAt = None, s_LastJobID = [],
                     s_CreatedAt = clock, s_UpdatedAt = clock\<rparr>
          in (Inr sch, st\<lparr>sch_byID := map_put (s_ID sch) sch (sch_byID st)\<rparr>))"

definition due_before :: "schedule \<Rightarrow> schedule \<Rightarrow> bool" where
  "due_before a b =
     (if s_NextRunAt a = s_NextRunAt b then s_ID a < s_ID b else s_NextRunAt a < s_NextRunAt b)"

definition Schedules_ListDue :: "time \<Rightarrow> int \<Rightarrow> string list \<Rightarrow> schedules \<Rightarrow> schedule list res" where
  "Schedules_ListDue now limit kinds st =
     (let due = sort_slice due_before
                  (filter (\<lambda>sch. map_get (sch_pending st) (s_ID sch) = None \<and> s_Enabled sch \<and>
                                 \<not> s_NextRunAt sch > now \<and> kindAllowed kinds (s_Kind sch))
                     (map_vals (sch_byID st)))
      in Inr (if limit > 0 \<and> int (length due) > limit then take (nat limit) due else due))"

definition Schedules_ClaimDue ::
    "error \<Rightarrow> schedule \<Rightarrow> time \<Rightarrow> time \<Rightarrow> schedules \<Rightarrow> bool res \<times> schedules" where
  "Schedules_ClaimDue ctxErr expected next now st =
     (case ctxErr of
        Some err \<Rightarrow> (Inl err, st)
      | None \<Rightarrow>
          (case map_get (sch_byID st) (s_ID expected) of
             None \<Rightarrow> (Inr False, st)
           | Some sch \<Rightarrow>
               if map_get (sch_pending st) (s_ID expected) \<noteq> None \<or> \<not> s_Enabled sch \<or>
                  s_NextRunAt sch > now \<or> \<not> next > now \<or> s_NextRunAt sch \<noteq> s_NextRunAt expected \<or>
                  s_Kind sch \<noteq> s_Kind expected \<or> s_Spec sch \<noteq> s_Spec expected
               then (Inr False, st)
               else
                 let occ = \<lparr>o_JobID = OccurrenceID (s_ID sch) (s_NextRunAt sch), o_ScheduleID = s_ID sch,
                            o_Kind = s_Kind sch, o_TenantID = s_TenantID sch,
                            o_Payload = s_Payload sch, o_Slot = s_NextRunAt sch, o_ClaimedAt = now,
                            o_Attempts = 0\<rparr>;
                     s1 = sch\<lparr>s_NextRunAt := next\<rparr>;
                     s2 = (if now > s_UpdatedAt s1 then s1\<lparr>s_UpdatedAt := now\<rparr> else s1)
                 in (Inr True, st\<lparr>sch_pending := map_put (s_ID sch) occ (sch_pending st),
                                  sch_byID := map_put (s_ID sch) s2 (sch_byID st)\<rparr>)))"

definition pending_before :: "occurrence \<Rightarrow> occurrence \<Rightarrow> bool" where
  "pending_before a b =
     (if o_Attempts a \<noteq> o_Attempts b then o_Attempts a < o_Attempts b
      else if o_Slot a = o_Slot b then o_JobID a < o_JobID b
      else o_Slot a < o_Slot b)"

definition Schedules_ListPending :: "error \<Rightarrow> int \<Rightarrow> string list \<Rightarrow> schedules \<Rightarrow> occurrence list res" where
  "Schedules_ListPending ctxErr limit kinds st =
     (case ctxErr of
        Some err \<Rightarrow> Inl err
      | None \<Rightarrow>
          let items = sort_slice pending_before
                        (filter (\<lambda>x. kindAllowed kinds (o_Kind x)) (map_vals (sch_pending st)))
          in Inr (if limit > 0 \<and> int (length items) > limit then take (nat limit) items else items))"

text \<open>The loop over the pending map that stops at the first entry for a job.\<close>

fun find_pending :: "string \<Rightarrow> (string, occurrence) go_map \<Rightarrow> (string \<times> occurrence) option" where
  "find_pending jobID [] = None"
| "find_pending jobID ((i, x) # rest) =
     (if o_JobID x = jobID then Some (i, x) else find_pending jobID rest)"

definition Schedules_RecordAttempt :: "error \<Rightarrow> string \<Rightarrow> schedules \<Rightarrow> bool res \<times> schedules" where
  "Schedules_RecordAttempt ctxErr jobID st =
     (case ctxErr of
        Some err \<Rightarrow> (Inl err, st)
      | None \<Rightarrow>
          (case find_pending jobID (sch_pending st) of
             Some (i, x) \<Rightarrow>
               (Inr True, st\<lparr>sch_pending := map_put i (x\<lparr>o_Attempts := o_Attempts x + 1\<rparr>) (sch_pending st)\<rparr>)
           | None \<Rightarrow> (Inr False, st)))"

definition Schedules_AckOccurrence :: "error \<Rightarrow> string \<Rightarrow> time \<Rightarrow> schedules \<Rightarrow> error \<times> schedules" where
  "Schedules_AckOccurrence ctxErr jobID now st =
     (case ctxErr of
        Some err \<Rightarrow> (Some err, st)
      | None \<Rightarrow>
          (case find_pending jobID (sch_pending st) of
             None \<Rightarrow> (None, st)
           | Some (i, x) \<Rightarrow>
               let st1 = (case map_get (sch_byID st) i of
                            Some sch \<Rightarrow>
                              let s1 = sch\<lparr>s_LastJobID := jobID, s_LastRunAt := Some (o_ClaimedAt x)\<rparr>;
                                  s2 = (if now > s_UpdatedAt s1 then s1\<lparr>s_UpdatedAt := now\<rparr> else s1)
                              in st\<lparr>sch_byID := map_put i s2 (sch_byID st)\<rparr>
                          | None \<Rightarrow> st)
               in (None, st1\<lparr>sch_pending := map_del i (sch_pending st1)\<rparr>)))"

definition Schedules_Get :: "string \<Rightarrow> schedules \<Rightarrow> schedule res" where
  "Schedules_Get i st = (case map_get (sch_byID st) i of None \<Rightarrow> Inl ErrNotFound | Some sch \<Rightarrow> Inr sch)"

definition Schedules_SetEnabled :: "string \<Rightarrow> bool \<Rightarrow> time \<Rightarrow> schedules \<Rightarrow> error \<times> schedules" where
  "Schedules_SetEnabled i enabled now st =
     (case map_get (sch_byID st) i of
        None \<Rightarrow> (Some ErrNotFound, st)
      | Some sch \<Rightarrow>
          let s1 = sch\<lparr>s_Enabled := enabled\<rparr>;
              s2 = (if now > s_UpdatedAt s1 then s1\<lparr>s_UpdatedAt := now\<rparr> else s1)
          in (None, st\<lparr>sch_byID := map_put i s2 (sch_byID st)\<rparr>))"

definition Schedules_Delete :: "string \<Rightarrow> schedules \<Rightarrow> error \<times> schedules" where
  "Schedules_Delete i st =
     (if map_get (sch_byID st) i = None then (Some ErrNotFound, st)
      else (None, st\<lparr>sch_byID := map_del i (sch_byID st)\<rparr>))"

section \<open>The service\<close>

definition ErrInvalidSpec :: go_error where
  "ErrInvalidSpec =
     Wrapped ''jobs: schedule needs Cron or whole-second Every >= 1s: invalid input'' ErrInvalidInput"

definition validateSpec :: "spec \<Rightarrow> error" where
  "validateSpec sp =
     (let hasCron = (sp_Cron sp \<noteq> []); hasEvery = (sp_Every sp > 0)
      in if hasCron = hasEvery \<or> sp_Every sp < 0 \<or>
            (hasEvery \<and> (sp_Every sp < Second \<or> sp_Every sp mod Second \<noteq> 0))
         then Some ErrInvalidSpec else None)"

type_synonym cron_parser = "string \<Rightarrow> (time \<Rightarrow> time) option res"

definition nextRun :: "cron_parser option \<Rightarrow> spec \<Rightarrow> time \<Rightarrow> time res" where
  "nextRun cron sp now =
     (case validateSpec sp of
        Some err \<Rightarrow> Inl err
      | None \<Rightarrow>
          if sp_Every sp > 0 then Inr (now + sp_Every sp)
          else if sp_Cron sp = [] then Inl ErrInvalidSpec
          else (case cron of
                  None \<Rightarrow> Inl ErrCronRequired
                | Some parse \<Rightarrow>
                    (case parse (sp_Cron sp) of
                       Inl err \<Rightarrow> Inl err
                     | Inr None \<Rightarrow>
                         Inl (Wrapped ''jobs: cron parser returned no schedule: invalid input'' ErrInvalidInput)
                     | Inr (Some nxt) \<Rightarrow>
                         if nxt now = zero_time \<or> \<not> nxt now > now
                         then Inl (Wrapped ''jobs: cron must advance time: invalid input'' ErrInvalidInput)
                         else Inr (nxt now))))"

text \<open>
  \<open>strings.TrimSpace(s) == ""\<close>: the string is a sequence of white-space runes, here by their UTF-8
  encodings (the ASCII ones, U+0085, U+00A0, U+1680, U+2000 to U+200A, U+2028, U+2029, U+202F, U+205F
  and U+3000).
\<close>

fun blank :: "string \<Rightarrow> bool" where
  "blank [] = True"
| "blank [c] = (of_char c \<in> {9, 10, 11, 12, 13, 32 :: nat})"
| "blank [c, d] =
     (of_char c \<in> {9, 10, 11, 12, 13, 32 :: nat} \<and> blank [d] \<or>
      of_char c = (0xC2 :: nat) \<and> of_char d \<in> {0x85, 0xA0 :: nat})"
| "blank (c # d # e # s) =
     (of_char c \<in> {9, 10, 11, 12, 13, 32 :: nat} \<and> blank (d # e # s) \<or>
      of_char c = (0xC2 :: nat) \<and> of_char d \<in> {0x85, 0xA0 :: nat} \<and> blank (e # s) \<or>
      (of_char c :: nat, of_char d :: nat, of_char e :: nat) \<in>
        {(0xE1, 0x9A, 0x80), (0xE2, 0x80, 0xA8), (0xE2, 0x80, 0xA9), (0xE2, 0x80, 0xAF),
         (0xE2, 0x81, 0x9F), (0xE3, 0x80, 0x80 :: nat)} \<and> blank s \<or>
      of_char c = (0xE2 :: nat) \<and> of_char d = (0x80 :: nat) \<and>
        0x80 \<le> (of_char e :: nat) \<and> of_char e \<le> (0x8A :: nat) \<and> blank s)"

definition EnsureSchedule ::
    "cron_parser option \<Rightarrow> time \<Rightarrow> string res \<Rightarrow> time \<Rightarrow> ensure \<Rightarrow> schedules \<Rightarrow> schedule res \<times> schedules" where
  "EnsureSchedule cron now gen clock inp st =
     (if blank (n_Name inp) \<or> blank (n_Kind inp) \<or> (n_Payload inp \<noteq> [] \<and> \<not> json_Valid (n_Payload inp))
      then (Inl (Wrapped ''jobs: schedule needs a name, kind and valid JSON payload: invalid input''
                   ErrInvalidInput), st)
      else (case validateSpec (n_Spec inp) of
              Some err \<Rightarrow> (Inl err, st)
            | None \<Rightarrow>
                let in1 = (if n_Payload inp = [] then inp\<lparr>n_Payload := ''{}''\<rparr> else inp) in
                (case nextRun cron (n_Spec in1) now of
                   Inl err \<Rightarrow> (Inl err, st)
                 | Inr next \<Rightarrow>
                     if n_ID in1 = [] then
                       (case gen of
                          Inl err \<Rightarrow> (Inl (Wrapped (''jobs: mint schedule id: '' @ error_text err) err), st)
                        | Inr sid \<Rightarrow> Schedules_Ensure clock (in1\<lparr>n_ID := sid\<rparr>) next st)
                     else Schedules_Ensure clock in1 next st)))"

text \<open>
  The iteration \<open>WorkFunc\<close> returns, over the in-memory store and any enqueuer \<open>enq\<close> on its own
  state.  \<open>ackAt\<close> gives the clock reading at the acknowledgement of an occurrence; \<open>ctxErr\<close> is the
  error of the iteration's context.
\<close>

fun claim_loop ::
    "cron_parser option \<Rightarrow> error \<Rightarrow> time \<Rightarrow> schedule list \<Rightarrow> schedules \<Rightarrow> go_error list \<times> schedules" where
  "claim_loop cron ctxErr now [] st = ([], st)"
| "claim_loop cron ctxErr now (sch # rest) st =
     (let (r, st1) = (case nextRun cron (s_Spec sch) now of
                        Inl err \<Rightarrow> (Some err, st)
                      | Inr next \<Rightarrow>
                          (case Schedules_ClaimDue ctxErr sch next now st of
                             (Inl err, st') \<Rightarrow> (Some err, st')
                           | (Inr _, st') \<Rightarrow> (None, st')));
          (errs, st2) = claim_loop cron ctxErr now rest st1
      in (case r of
            Some err \<Rightarrow> (Wrapped (''schedule '' @ s_ID sch @ '': '' @ error_text err) err # errs, st2)
          | None \<Rightarrow> (errs, st2)))"

definition occurrence_enqueue :: "occurrence \<Rightarrow> enqueue" where
  "occurrence_enqueue x =
     \<lparr>e_ID = o_JobID x, e_Kind = o_Kind x, e_TenantID = o_TenantID x, e_Payload = o_Payload x,
      e_ScheduledFor = zero_time, e_Priority = 0, e_MaxAttempts = 0, e_LogicalKey = []\<rparr>"

definition deliver ::
    "(enqueue \<Rightarrow> 'q \<Rightarrow> job res \<times> 'q) \<Rightarrow> error \<Rightarrow> time \<Rightarrow> occurrence \<Rightarrow> schedules \<times> 'q \<Rightarrow>
     go_error list \<times> schedules \<times> 'q" where
  "deliver enq ctxErr ackAt x s =
     (case s of (st, q) \<Rightarrow>
       (case Schedules_RecordAttempt ctxErr (o_JobID x) st of
          (Inl err, st1) \<Rightarrow> ([err], st1, q)
        | (Inr admitted, st1) \<Rightarrow>
            if \<not> admitted then ([], st1, q)
            else
              let (r, q1) = enq (occurrence_enqueue x) q;
                  (err, st2) = (case r of
                                  Inr _ \<Rightarrow> Schedules_AckOccurrence ctxErr (o_JobID x) ackAt st1
                                | Inl e \<Rightarrow>
                                    if errors_is e ErrAlreadyExists
                                    then Schedules_AckOccurrence ctxErr (o_JobID x) ackAt st1
                                    else (Some e, st1))
              in (case err of
                    Some e \<Rightarrow> ([Wrapped (''schedule occurrence '' @ o_JobID x @ '': '' @ error_text e) e], st2, q1)
                  | None \<Rightarrow> ([], st2, q1))))"

fun deliver_loop ::
    "(enqueue \<Rightarrow> 'q \<Rightarrow> job res \<times> 'q) \<Rightarrow> error \<Rightarrow> (string \<Rightarrow> time) \<Rightarrow> occurrence list \<Rightarrow> schedules \<times> 'q \<Rightarrow>
     go_error list \<times> schedules \<times> 'q" where
  "deliver_loop enq ctxErr ackAt [] s = ([], s)"
| "deliver_loop enq ctxErr ackAt (x # rest) s =
     (let (errs1, s1) = deliver enq ctxErr (ackAt (o_JobID x)) x s;
          (errs2, s2) = deliver_loop enq ctxErr ackAt rest s1
      in (errs1 @ errs2, s2))"

definition Schedules_WorkFunc ::
    "cron_parser option \<Rightarrow> (enqueue \<Rightarrow> 'q \<Rightarrow> job res \<times> 'q) option \<Rightarrow> int \<Rightarrow> string list \<Rightarrow> error \<Rightarrow>
     time \<Rightarrow> (string \<Rightarrow> time) \<Rightarrow> schedules \<times> 'q \<Rightarrow> error \<times> schedules \<times> 'q" where
  "Schedules_WorkFunc cron enqueuer batch kinds ctxErr now ackAt s =
     (case enqueuer of
        None \<Rightarrow>
          (Some (Wrapped ''jobs: schedule processing requires an enqueuer: invalid input'' ErrInvalidInput), s)
      | Some enq \<Rightarrow>
          let (st, q) = s;
              (listErrs, due) = (case Schedules_ListDue now batch kinds st of
                                   Inl e \<Rightarrow> ([e], []) | Inr d \<Rightarrow> ([], d));
              (claimErrs, st1) = claim_loop cron ctxErr now due st;
              (pendErrs, pending) = (case Schedules_ListPending ctxErr batch kinds st1 of
                                       Inl e \<Rightarrow> ([e], []) | Inr p \<Rightarrow> ([], p));
              (delErrs, s2) = deliver_loop enq ctxErr ackAt pending (st1, q);
              failures = listErrs @ claimErrs @ pendErrs @ delErrs
          in if failures \<noteq> [] then (Some (Joined failures), s2)
             else if due = [] \<and> pending = [] then (Some ErrNoWork, s2)
             else (None, s2))"

section \<open>Occurrence identifiers\<close>

lemma print_width_length [simp]: "length (print_width w n) = w"
  by (induction w arbitrary: n) auto

lemma print_width_inj:
  "print_width w m = print_width w n \<Longrightarrow> 0 \<le> m \<Longrightarrow> m < 10 ^ w \<Longrightarrow> 0 \<le> n \<Longrightarrow> n < 10 ^ w \<Longrightarrow> m = n"
proof (induction w arbitrary: m n)
  case (Suc w)
  then have eq: "print_width w (m div 10) = print_width w (n div 10)" "digit (m mod 10) = digit (n mod 10)"
    by simp_all
  have "m div 10 < 10 ^ w" "n div 10 < 10 ^ w" "0 \<le> m div 10" "0 \<le> n div 10"
    using Suc.prems by simp_all
  with Suc.IH [OF eq(1)] have "m div 10 = n div 10" by simp
  moreover have "m mod 10 = n mod 10"
    using digit_inj [of "m mod 10" "n mod 10"] eq(2) by simp
  ultimately show ?case by (metis div_mult_mod_eq)
qed simp

lemma split_last:
  assumes "xs @ c # ys = xs' @ c # ys'" and "c \<notin> set ys" and "c \<notin> set ys'"
  shows "xs = xs' \<and> ys = ys'"
proof -
  have tw: "takeWhile (\<lambda>x. x \<noteq> c) (rev zs @ c # ws) = rev zs" if "c \<notin> set zs" for zs ws
    using that by (subst takeWhile_append2) auto
  have "rev ys @ c # rev xs = rev ys' @ c # rev xs'"
    using arg_cong [OF assms(1), of rev] by simp
  with tw [OF assms(2), of "rev xs"] tw [OF assms(3), of "rev xs'"] have "rev ys = rev ys'" by simp
  with assms(1) show ?thesis by simp
qed

lemma OccurrenceID_injective_iff: "OccurrenceID a s = OccurrenceID b t \<longleftrightarrow> a = b \<and> s = t"
proof
  assume "OccurrenceID a s = OccurrenceID b t"
  then have eq: "(a @ CHR ''_'' # print_int (Unix s)) @ CHR ''_'' # print_width 9 (Nanosecond_of s) =
      (b @ CHR ''_'' # print_int (Unix t)) @ CHR ''_'' # print_width 9 (Nanosecond_of t)"
    by (simp add: OccurrenceID_def)
  then have "a @ CHR ''_'' # print_int (Unix s) = b @ CHR ''_'' # print_int (Unix t) \<and>
      CHR ''_'' # print_width 9 (Nanosecond_of s) = CHR ''_'' # print_width 9 (Nanosecond_of t)"
    by (subst (asm) append_eq_append_conv) simp_all
  then have w: "print_width 9 (Nanosecond_of s) = print_width 9 (Nanosecond_of t)"
    and rest: "a @ CHR ''_'' # print_int (Unix s) = b @ CHR ''_'' # print_int (Unix t)"
    by blast+
  have lt: "0 \<le> Nanosecond_of u" "Nanosecond_of u < 10 ^ 9" for u
    by (simp_all add: Nanosecond_of_def)
  have "Nanosecond_of s = Nanosecond_of t" by (rule print_width_inj [OF w lt lt])
  then have m: "s mod Second = t mod Second" by (simp add: Nanosecond_of_def)
  have "a = b \<and> print_int (Unix s) = print_int (Unix t)"
    by (rule split_last [OF rest print_int_chars print_int_chars])
  then have "a = b" and "s div Second = t div Second"
    using print_int_inj [of "Unix s" "Unix t"] by (simp_all add: Unix_def)
  with m show "a = b \<and> s = t" by (metis div_mult_mod_eq)
qed simp

text \<open>
  Occurrence identifiers do not collide: two occurrences have the same job identifier
  only when they belong to the same schedule identifier, whatever characters it contains, and to the
  same slot to the nanosecond.
\<close>

theorem OccurrenceID_injective:
  "OccurrenceID a s = OccurrenceID b t \<longleftrightarrow> a = b \<and> s = t"
  by (rule OccurrenceID_injective_iff)


section \<open>Recurrence\<close>

text \<open>
  A fire time always moves forward: whatever the parser is, \<open>nextRun\<close> either fails or
  returns a time strictly after \<open>now\<close>, it fails for every recurrence that \<open>validateSpec\<close> refuses,
  and a fixed interval that it accepts is a whole number of seconds, at least one, and yields
  exactly \<open>now\<close> plus that interval.
\<close>

theorem nextRun_advances:
  "case nextRun cron sp now of
     Inl e \<Rightarrow> validateSpec sp = None \<longrightarrow> sp_Every sp = 0 \<and> sp_Cron sp \<noteq> []
   | Inr t \<Rightarrow> now < t \<and> validateSpec sp = None \<and>
       (sp_Cron sp = [] \<longrightarrow> t = now + sp_Every sp \<and> (\<exists>k\<ge>1. sp_Every sp = k * Second))"
proof -
  have every: "\<exists>k\<ge>1. sp_Every sp = k * Second" if "validateSpec sp = None" "0 < sp_Every sp"
    using that by (intro exI [of _ "sp_Every sp div Second"])
      (auto simp: validateSpec_def Let_def split: if_splits)
  show ?thesis
    using every
    by (auto simp: nextRun_def validateSpec_def Let_def split: option.splits sum.splits if_splits)
qed

theorem nextRun_advances_witness:
  "case nextRun None \<lparr>sp_Cron = [], sp_Every = 5 * Second\<rparr> 7 of
     Inl e \<Rightarrow> validateSpec \<lparr>sp_Cron = [], sp_Every = 5 * Second\<rparr> = None \<longrightarrow>
       sp_Every \<lparr>sp_Cron = [], sp_Every = 5 * Second\<rparr> = 0 \<and> sp_Cron \<lparr>sp_Cron = [], sp_Every = 5 * Second\<rparr> \<noteq> []
   | Inr t \<Rightarrow> 7 < t \<and> validateSpec \<lparr>sp_Cron = [], sp_Every = 5 * Second\<rparr> = None \<and>
       (sp_Cron \<lparr>sp_Cron = [], sp_Every = 5 * Second\<rparr> = [] \<longrightarrow>
          t = 7 + sp_Every \<lparr>sp_Cron = [], sp_Every = 5 * Second\<rparr> \<and>
          (\<exists>k\<ge>1. sp_Every \<lparr>sp_Cron = [], sp_Every = 5 * Second\<rparr> = k * Second))"
  by (rule nextRun_advances)

section \<open>Histories of the store\<close>

text \<open>
  The store operations as the service calls them.  Each carries the service's clock reading \<open>now\<close>;
  the fire time passed with an \<open>Ensure\<close> or a claim is any time after it.
\<close>

datatype sched_op =
    SEnsure time ensure time time      \<comment> \<open>now, input, next fire time, the store's clock\<close>
  | SClaim time schedule time          \<comment> \<open>now, expected, next fire time\<close>
  | SRecordAttempt time string
  | SAck time string
  | SSetEnabled time string bool
  | SDelete time string

fun op_now :: "sched_op \<Rightarrow> time" where
  "op_now (SEnsure now inp nxt clock) = now"
| "op_now (SClaim now expected nxt) = now"
| "op_now (SRecordAttempt now jid) = now"
| "op_now (SAck now jid) = now"
| "op_now (SSetEnabled now i b) = now"
| "op_now (SDelete now i) = now"

fun sched_step :: "sched_op \<Rightarrow> schedules \<Rightarrow> schedules" where
  "sched_step (SEnsure now inp nxt clock) st = snd (Schedules_Ensure clock inp nxt st)"
| "sched_step (SClaim now expected nxt) st = snd (Schedules_ClaimDue None expected nxt now st)"
| "sched_step (SRecordAttempt now jid) st = snd (Schedules_RecordAttempt None jid st)"
| "sched_step (SAck now jid) st = snd (Schedules_AckOccurrence None jid now st)"
| "sched_step (SSetEnabled now i b) st = snd (Schedules_SetEnabled i b now st)"
| "sched_step (SDelete now i) st = snd (Schedules_Delete i st)"

text \<open>The occurrences admitted by a history: the slots of its successful claims.\<close>

fun admits :: "sched_op \<Rightarrow> schedules \<Rightarrow> (string \<times> time) list" where
  "admits (SClaim now expected nxt) st =
     (if fst (Schedules_ClaimDue None expected nxt now st) = Inr True
      then [(s_ID expected, s_NextRunAt expected)] else [])"
| "admits _ st = []"

fun admitted :: "sched_op list \<Rightarrow> schedules \<Rightarrow> (string \<times> time) list" where
  "admitted [] st = []"
| "admitted (op # ops) st = admits op st @ admitted ops (sched_step op st)"

text \<open>The clock does not run backwards, and \<open>Ensure\<close> passes a future fire time (\<open>nextRun\<close>).\<close>

fun forward :: "time \<Rightarrow> sched_op list \<Rightarrow> bool" where
  "forward t [] = True"
| "forward t (op # ops) =
     (t \<le> op_now op \<and>
      (case op of SEnsure now inp nxt clock \<Rightarrow> now < nxt | _ \<Rightarrow> True) \<and>
      forward (op_now op) ops)"

definition past_slots :: "time \<Rightarrow> (string \<times> time) set \<Rightarrow> schedules \<Rightarrow> bool" where
  "past_slots t past st \<longleftrightarrow>
     gm.keyed s_ID (sch_byID st) \<and>
     (\<forall>i slot. (i, slot) \<in> past \<longrightarrow> slot \<le> t \<and>
        (\<forall>sch. map_get (sch_byID st) i = Some sch \<longrightarrow> slot < s_NextRunAt sch))"

lemma findByName_Some: "findByName name schs = Some sch \<Longrightarrow> sch \<in> set schs \<and> s_Name sch = name"
  by (induction schs) (auto split: if_splits)

lemma past_slots_put:
  assumes "past_slots t past st" and "s_ID sch = i"
    and "\<And>slot. (i, slot) \<in> past \<Longrightarrow> slot < s_NextRunAt sch"
  shows "past_slots t past (st\<lparr>sch_byID := map_put i sch (sch_byID st)\<rparr>)"
  using assms by (auto simp: past_slots_def intro: gm.keyed_put)

lemma past_slots_pending [simp]: "past_slots t past (st\<lparr>sch_pending := p\<rparr>) = past_slots t past st"
  by (simp add: past_slots_def)

lemma past_slots_mono: "past_slots t past st \<Longrightarrow> t \<le> t' \<Longrightarrow> past_slots t' past st"
  unfolding past_slots_def by (meson order_trans)

lemma past_slots_get:
  "past_slots t past st \<Longrightarrow> map_get (sch_byID st) i = Some sch \<Longrightarrow>
     s_ID sch = i \<and> (\<forall>slot. (i, slot) \<in> past \<longrightarrow> slot < s_NextRunAt sch)"
  by (auto simp: past_slots_def dest: gm.keyed_get)

lemma past_slots_Ensure:
  assumes "past_slots t past st" and "t \<le> now" and "now < nxt"
  shows "past_slots now past (snd (Schedules_Ensure clock inp nxt st))"
proof -
  have p: "past_slots now past st" by (rule past_slots_mono [OF assms(1,2)])
  have new: "slot < nxt" if "(i, slot) \<in> past" for i slot
    using that p assms(3) unfolding past_slots_def by (meson le_less_trans)
  show ?thesis
  proof (cases "findByName (n_Name inp) (map_vals (sch_byID st))")
    case None
    then show ?thesis
      using p new by (auto simp: Schedules_Ensure_def Let_def intro!: past_slots_put)
  next
    case (Some sch)
    then have "map_get (sch_byID st) (s_ID sch) = Some sch"
      using findByName_Some [OF Some] keyed_val_iff [of s_ID "sch_byID st" sch] p
      by (simp add: past_slots_def)
    from past_slots_get [OF p this] Some show ?thesis
      using p new by (auto simp: Schedules_Ensure_def Let_def intro!: past_slots_put)
  qed
qed

lemma ClaimDue_cases:
  "fst (Schedules_ClaimDue None expected nxt now st) \<noteq> Inr True \<Longrightarrow>
     snd (Schedules_ClaimDue None expected nxt now st) = st"
  by (auto simp: Schedules_ClaimDue_def Let_def split: option.splits if_splits)

lemma ClaimDue_success:
  assumes "fst (Schedules_ClaimDue None expected nxt now st) = Inr True"
  shows "\<exists>sch s2 occ. snd (Schedules_ClaimDue None expected nxt now st) =
      st\<lparr>sch_pending := map_put (s_ID sch) occ (sch_pending st),
         sch_byID := map_put (s_ID sch) s2 (sch_byID st)\<rparr> \<and>
    map_get (sch_byID st) (s_ID expected) = Some sch \<and> map_get (sch_pending st) (s_ID expected) = None \<and>
    s_NextRunAt sch = s_NextRunAt expected \<and> s_NextRunAt sch \<le> now \<and> now < nxt \<and>
    s_NextRunAt s2 = nxt \<and> s_ID s2 = s_ID sch \<and>
    o_JobID occ = OccurrenceID (s_ID sch) (s_NextRunAt sch) \<and> o_ScheduleID occ = s_ID sch"
proof -
  obtain sch where sch: "map_get (sch_byID st) (s_ID expected) = Some sch"
    using assms by (auto simp: Schedules_ClaimDue_def split: option.splits)
  let ?s1 = "sch\<lparr>s_NextRunAt := nxt\<rparr>"
  show ?thesis
    using assms sch
    by (intro exI [of _ sch] exI [of _ "if now > s_UpdatedAt ?s1 then ?s1\<lparr>s_UpdatedAt := now\<rparr> else ?s1"]
        exI [of _ "\<lparr>o_JobID = OccurrenceID (s_ID sch) (s_NextRunAt sch), o_ScheduleID = s_ID sch,
          o_Kind = s_Kind sch, o_TenantID = s_TenantID sch, o_Payload = s_Payload sch,
          o_Slot = s_NextRunAt sch, o_ClaimedAt = now, o_Attempts = 0\<rparr>"])
      (auto simp: Schedules_ClaimDue_def Let_def split: if_splits)
qed

lemma past_slots_Claim:
  assumes p: "past_slots t past st" and "t \<le> now"
  shows "past_slots now (past \<union> set (admits (SClaim now expected nxt) st))
      (sched_step (SClaim now expected nxt) st)"
    and "set (admits (SClaim now expected nxt) st) \<inter> past = {}"
proof -
  have p': "past_slots now past st" by (rule past_slots_mono [OF assms])
  show "past_slots now (past \<union> set (admits (SClaim now expected nxt) st))
      (sched_step (SClaim now expected nxt) st)"
  proof (cases "fst (Schedules_ClaimDue None expected nxt now st) = Inr True")
    case True
    obtain sch s2 occ where c: "sched_step (SClaim now expected nxt) st =
        st\<lparr>sch_pending := map_put (s_ID sch) occ (sch_pending st), sch_byID := map_put (s_ID sch) s2 (sch_byID st)\<rparr>"
      "map_get (sch_byID st) (s_ID expected) = Some sch" "s_NextRunAt sch = s_NextRunAt expected"
      "s_NextRunAt sch \<le> now" "now < nxt" "s_NextRunAt s2 = nxt" "s_ID s2 = s_ID sch"
      using ClaimDue_success [OF True] by auto
    have earlier: "slot < nxt" if "(i, slot) \<in> past" for i slot
      using that p' c(5) unfolding past_slots_def by (meson le_less_trans)
    have "s_ID sch = s_ID expected" using past_slots_get [OF p' c(2)] by simp
    with True p' c earlier show ?thesis
      by (auto simp: past_slots_def intro: gm.keyed_put)
  next
    case False
    with p' ClaimDue_cases [OF False] show ?thesis by simp
  qed
  show "set (admits (SClaim now expected nxt) st) \<inter> past = {}"
  proof (cases "fst (Schedules_ClaimDue None expected nxt now st) = Inr True")
    case True
    then obtain sch where "map_get (sch_byID st) (s_ID expected) = Some sch"
      "s_NextRunAt sch = s_NextRunAt expected"
      using ClaimDue_success [OF True] by blast
    with past_slots_get [OF p', of "s_ID expected" sch] True show ?thesis by auto
  qed simp
qed

lemma past_slots_step:
  assumes "past_slots t past st" and "forward t (op # ops)"
  shows "past_slots (op_now op) (past \<union> set (admits op st)) (sched_step op st)"
proof (cases op)
  case (SEnsure now inp nxt clock)
  with assms past_slots_Ensure show ?thesis by simp
next
  case (SClaim now expected nxt)
  with assms past_slots_Claim(1) show ?thesis by simp
next
  case (SRecordAttempt now jid)
  with past_slots_mono [OF assms(1), of now] assms(2) show ?thesis
    by (auto simp: Schedules_RecordAttempt_def split: option.splits)
next
  case (SAck now jid)
  with past_slots_mono [OF assms(1), of now] assms(2) show ?thesis
    by (auto simp: Schedules_AckOccurrence_def Let_def split: option.splits
        intro!: past_slots_put dest: past_slots_get)
next
  case (SSetEnabled now i b)
  with past_slots_mono [OF assms(1), of now] assms(2) show ?thesis
    by (auto simp: Schedules_SetEnabled_def Let_def split: option.splits
        intro!: past_slots_put dest: past_slots_get)
next
  case (SDelete now i)
  with past_slots_mono [OF assms(1), of now] assms(2) show ?thesis
    by (auto simp: Schedules_Delete_def past_slots_def gm.keyed_del)
qed

lemma admitted_distinct:
  assumes "past_slots t past st" and "forward t ops"
  shows "distinct (admitted ops st) \<and> set (admitted ops st) \<inter> past = {}"
  using assms
proof (induction ops arbitrary: t past st)
  case (Cons op ops)
  let ?past = "past \<union> set (admits op st)"
  have "past_slots (op_now op) ?past (sched_step op st)"
    by (rule past_slots_step [OF Cons.prems])
  then have IH: "distinct (admitted ops (sched_step op st))" "set (admitted ops (sched_step op st)) \<inter> ?past = {}"
    using Cons.IH [of "op_now op"] Cons.prems(2) by simp_all
  have "distinct (admits op st)" by (cases op) auto
  moreover have "set (admits op st) \<inter> past = {}"
    using past_slots_Claim(2) Cons.prems by (cases op) auto
  ultimately show ?case using IH by auto
qed simp


definition demo_ensure :: ensure where
  "demo_ensure = \<lparr>n_ID = ''s1'', n_Name = ''nightly'', n_Kind = ''report'', n_TenantID = [],
     n_Spec = \<lparr>sp_Cron = [], sp_Every = 60 * Second\<rparr>, n_Payload = ''{}''\<rparr>"

definition demo_sched :: schedules where
  "demo_sched = sched_step (SEnsure 10 demo_ensure 100 10) NewSchedules"


section \<open>Delivery\<close>

text \<open>
  What delivery relies on of the queue (the port \<open>Enqueuer\<close>): \<open>has i q\<close> says that the queue knows a
  job with identifier \<open>i\<close>.  An admission that succeeds, or is refused as a duplicate, leaves the
  queue knowing the job, and no admission makes it forget one.
\<close>

locale enqueuer_laws =
  fixes enq :: "enqueue \<Rightarrow> 'q \<Rightarrow> job res \<times> 'q"
    and has :: "string \<Rightarrow> 'q \<Rightarrow> bool"
  assumes admitted_known: "e_ID inp \<noteq> [] \<Longrightarrow> enq inp q = (Inr j, q') \<Longrightarrow> has (e_ID inp) q'"
    and duplicate_known: "e_ID inp \<noteq> [] \<Longrightarrow> enq inp q = (Inl e, q') \<Longrightarrow> errors_is e ErrAlreadyExists \<Longrightarrow>
      has (e_ID inp) q'"
    and known_kept: "has i q \<Longrightarrow> enq inp q = (r, q') \<Longrightarrow> has i q'"

definition pending_jobs :: "schedules \<Rightarrow> string set" where
  "pending_jobs st = o_JobID ` set (map_vals (sch_pending st))"

definition pending_ok :: "schedules \<Rightarrow> bool" where
  "pending_ok st \<longleftrightarrow> map_ok (sch_pending st) \<and> [] \<notin> pending_jobs st"

lemma pending_jobs_iff:
  "map_ok (sch_pending st) \<Longrightarrow>
     i \<in> pending_jobs st \<longleftrightarrow> (\<exists>k x. map_get (sch_pending st) k = Some x \<and> o_JobID x = i)"
  by (force simp: pending_jobs_def dest: map_of_SomeD map_of_is_SomeI)

lemma pending_ok_map: "pending_ok st \<Longrightarrow> map_ok (sch_pending st)"
  by (simp add: pending_ok_def)

lemma find_pending_Some:
  "find_pending jobID m = Some (k, x) \<Longrightarrow> map_ok m \<Longrightarrow> map_get m k = Some x \<and> o_JobID x = jobID"
proof (induction jobID m rule: find_pending.induct)
  case (2 jobID i y rest)
  show ?case
  proof (cases "o_JobID y = jobID")
    case False
    with 2 have "map_get rest k = Some x \<and> o_JobID x = jobID" by simp
    with "2.prems"(2) show ?thesis by (auto dest!: map_of_SomeD intro: rev_image_eqI)
  qed (use 2 in auto)
qed simp

lemma find_pending_None: "find_pending jobID m = None \<longleftrightarrow> jobID \<notin> o_JobID ` set (map_vals m)"
  by (induction jobID m rule: find_pending.induct) auto

lemma map_upd_image:
  assumes "f k = None \<or> (\<exists>y. f k = Some y \<and> g y = g x)"
  shows "(\<exists>l y. (f(k \<mapsto> x)) l = Some y \<and> g y = i) \<longleftrightarrow> i = g x \<or> (\<exists>l y. f l = Some y \<and> g y = i)"
proof
  assume "i = g x \<or> (\<exists>l y. f l = Some y \<and> g y = i)"
  then show "\<exists>l y. (f(k \<mapsto> x)) l = Some y \<and> g y = i"
  proof (elim disjE exE conjE)
    fix l y
    assume "f l = Some y" "g y = i"
    with assms show ?thesis
      by (cases "l = k") (auto intro!: exI [of _ l])
  qed auto
qed (auto split: if_splits)

lemma pending_put:
  assumes "pending_ok st" and "o_JobID x \<noteq> []"
    and "map_get (sch_pending st) k = None \<or> (\<exists>y. map_get (sch_pending st) k = Some y \<and> o_JobID y = o_JobID x)"
  shows "pending_ok (st\<lparr>sch_pending := map_put k x (sch_pending st)\<rparr>)"
    and "pending_jobs (st\<lparr>sch_pending := map_put k x (sch_pending st)\<rparr>) = insert (o_JobID x) (pending_jobs st)"
proof -
  let ?st = "st\<lparr>sch_pending := map_put k x (sch_pending st)\<rparr>"
  have ok: "map_ok (sch_pending st)" "map_ok (map_put k x (sch_pending st))"
    using assms(1) gm.ok_put by (auto simp: pending_ok_def)
  show jobs: "pending_jobs ?st = insert (o_JobID x) (pending_jobs st)"
  proof (rule set_eqI)
    fix i
    have "(\<exists>l y. ((map_get (sch_pending st))(k \<mapsto> x)) l = Some y \<and> o_JobID y = i) \<longleftrightarrow>
        i = o_JobID x \<or> (\<exists>l y. map_get (sch_pending st) l = Some y \<and> o_JobID y = i)"
      by (rule map_upd_image [where f = "map_get (sch_pending st)" and g = o_JobID, OF assms(3)])
    then show "i \<in> pending_jobs ?st \<longleftrightarrow> i \<in> insert (o_JobID x) (pending_jobs st)"
      using pending_jobs_iff [of st i] pending_jobs_iff [of ?st i] ok by simp
  qed
  show "pending_ok ?st"
    using assms(1,2) jobs ok(2) by (simp add: pending_ok_def)
qed

lemma RecordAttempt_pending:
  assumes "pending_ok st"
  shows "pending_ok (snd (Schedules_RecordAttempt ctxErr jobID st))"
    and "pending_jobs (snd (Schedules_RecordAttempt ctxErr jobID st)) = pending_jobs st"
    and "fst (Schedules_RecordAttempt ctxErr jobID st) = Inr True \<Longrightarrow> jobID \<in> pending_jobs st"
    and "fst (Schedules_RecordAttempt ctxErr jobID st) = Inr False \<Longrightarrow> jobID \<notin> pending_jobs st"
proof -
  have "pending_ok (snd (Schedules_RecordAttempt ctxErr jobID st)) \<and>
      pending_jobs (snd (Schedules_RecordAttempt ctxErr jobID st)) = pending_jobs st \<and>
      (fst (Schedules_RecordAttempt ctxErr jobID st) = Inr True \<longrightarrow> jobID \<in> pending_jobs st) \<and>
      (fst (Schedules_RecordAttempt ctxErr jobID st) = Inr False \<longrightarrow> jobID \<notin> pending_jobs st)"
  proof (cases "ctxErr = None \<and> find_pending jobID (sch_pending st) \<noteq> None")
    case True
    then obtain k x where f: "find_pending jobID (sch_pending st) = Some (k, x)" by auto
    then have x: "map_get (sch_pending st) k = Some x" "o_JobID x = jobID"
      using find_pending_Some assms by (auto simp: pending_ok_def)
    then have mem: "jobID \<in> pending_jobs st" using pending_jobs_iff [OF pending_ok_map [OF assms]] by auto
    then have "jobID \<noteq> []" using assms by (auto simp: pending_ok_def)
    with True f x mem show ?thesis
      using pending_put [OF assms, of "x\<lparr>o_Attempts := o_Attempts x + 1\<rparr>" k]
      by (auto simp: Schedules_RecordAttempt_def)
  next
    case False
    with assms find_pending_None [of jobID "sch_pending st"] show ?thesis
      by (cases ctxErr; cases "find_pending jobID (sch_pending st)")
        (simp_all add: Schedules_RecordAttempt_def pending_jobs_def)
  qed
  then show "pending_ok (snd (Schedules_RecordAttempt ctxErr jobID st))"
    "pending_jobs (snd (Schedules_RecordAttempt ctxErr jobID st)) = pending_jobs st"
    "fst (Schedules_RecordAttempt ctxErr jobID st) = Inr True \<Longrightarrow> jobID \<in> pending_jobs st"
    "fst (Schedules_RecordAttempt ctxErr jobID st) = Inr False \<Longrightarrow> jobID \<notin> pending_jobs st"
    by auto
qed

lemma AckOccurrence_pending:
  assumes "pending_ok st"
  shows "pending_ok (snd (Schedules_AckOccurrence ctxErr jobID now st))"
    and "pending_jobs st \<subseteq> insert jobID (pending_jobs (snd (Schedules_AckOccurrence ctxErr jobID now st)))"
    and "pending_jobs (snd (Schedules_AckOccurrence ctxErr jobID now st)) \<subseteq> pending_jobs st"
proof -
  have "sch_pending (snd (Schedules_AckOccurrence ctxErr jobID now st)) = sch_pending st \<or>
      (\<exists>k x. map_get (sch_pending st) k = Some x \<and> o_JobID x = jobID \<and>
         sch_pending (snd (Schedules_AckOccurrence ctxErr jobID now st)) = map_del k (sch_pending st))"
    using assms find_pending_Some [of jobID "sch_pending st"]
    by (auto simp: Schedules_AckOccurrence_def Let_def pending_ok_def split: option.splits)
  then consider (same) "sch_pending (snd (Schedules_AckOccurrence ctxErr jobID now st)) = sch_pending st"
    | (gone) k x where "map_get (sch_pending st) k = Some x" "o_JobID x = jobID"
        "sch_pending (snd (Schedules_AckOccurrence ctxErr jobID now st)) = map_del k (sch_pending st)"
    by blast
  then have "pending_ok (snd (Schedules_AckOccurrence ctxErr jobID now st)) \<and>
    pending_jobs st \<subseteq> insert jobID (pending_jobs (snd (Schedules_AckOccurrence ctxErr jobID now st))) \<and>
    pending_jobs (snd (Schedules_AckOccurrence ctxErr jobID now st)) \<subseteq> pending_jobs st"
  proof cases
    case same
    with assms show ?thesis by (auto simp: pending_ok_def pending_jobs_def)
  next
    case gone
    let ?st = "snd (Schedules_AckOccurrence ctxErr jobID now st)"
    have m: "map_ok (sch_pending st)" "map_ok (sch_pending ?st)"
      using pending_ok_map [OF assms] gone(3) gm.ok_del by auto
    have sub: "pending_jobs ?st \<subseteq> pending_jobs st"
      using pending_jobs_iff [OF m(1)] pending_jobs_iff [OF m(2)] gone(3) by (auto split: if_splits) blast
    then have ok: "pending_ok ?st"
      using assms m(2) by (auto simp: pending_ok_def)
    have "pending_jobs st \<subseteq> insert jobID (pending_jobs ?st)"
    proof
      fix i
      assume "i \<in> pending_jobs st"
      then obtain l y where "map_get (sch_pending st) l = Some y" "o_JobID y = i"
        using pending_jobs_iff [OF m(1)] by blast
      then show "i \<in> insert jobID (pending_jobs ?st)"
        using pending_jobs_iff [OF m(2), of i] gone by (cases "l = k") auto
    qed
    with ok sub show ?thesis by blast
  qed
  then show "pending_ok (snd (Schedules_AckOccurrence ctxErr jobID now st))"
    "pending_jobs st \<subseteq> insert jobID (pending_jobs (snd (Schedules_AckOccurrence ctxErr jobID now st)))"
    "pending_jobs (snd (Schedules_AckOccurrence ctxErr jobID now st)) \<subseteq> pending_jobs st"
    by auto
qed

lemma OccurrenceID_Nil [simp]: "OccurrenceID i t \<noteq> []"
  by (simp add: OccurrenceID_def)

lemma claim_loop_pending:
  assumes "pending_ok st" and "gm.keyed s_ID (sch_byID st)"
  shows "pending_ok (snd (claim_loop cron ctxErr now schs st)) \<and>
    pending_jobs st \<subseteq> pending_jobs (snd (claim_loop cron ctxErr now schs st))"
  using assms
proof (induction schs arbitrary: st)
  case (Cons sch schs)
  have claim: "pending_ok (snd (Schedules_ClaimDue ctxErr sch nxt now st)) \<and>
      gm.keyed s_ID (sch_byID (snd (Schedules_ClaimDue ctxErr sch nxt now st))) \<and>
      pending_jobs st \<subseteq> pending_jobs (snd (Schedules_ClaimDue ctxErr sch nxt now st))" for nxt
  proof (cases "ctxErr = None \<and> fst (Schedules_ClaimDue None sch nxt now st) = Inr True")
    case True
    then obtain sch' s2 occ where c: "snd (Schedules_ClaimDue None sch nxt now st) =
        st\<lparr>sch_pending := map_put (s_ID sch') occ (sch_pending st), sch_byID := map_put (s_ID sch') s2 (sch_byID st)\<rparr>"
      "map_get (sch_byID st) (s_ID sch) = Some sch'" "map_get (sch_pending st) (s_ID sch) = None"
      "s_ID s2 = s_ID sch'" "o_JobID occ = OccurrenceID (s_ID sch') (s_NextRunAt sch')"
      using ClaimDue_success [of sch nxt now st] by blast
    have "s_ID sch' = s_ID sch" by (rule gm.keyed_get [OF Cons.prems(2) c(2)])
    then show ?thesis
      using pending_put [OF Cons.prems(1), of occ "s_ID sch"] c True Cons.prems(2)
      by (auto simp: pending_ok_def pending_jobs_def intro: gm.keyed_put)
  next
    case False
    then have "snd (Schedules_ClaimDue ctxErr sch nxt now st) = st"
      using ClaimDue_cases [of sch nxt now st] by (cases ctxErr) (auto simp: Schedules_ClaimDue_def)
    with Cons.prems show ?thesis by simp
  qed
  define st1 where "st1 = (case nextRun cron (s_Spec sch) now of Inl err \<Rightarrow> st
      | Inr nxt \<Rightarrow> snd (Schedules_ClaimDue ctxErr sch nxt now st))"
  have st1: "pending_ok st1" "gm.keyed s_ID (sch_byID st1)" "pending_jobs st \<subseteq> pending_jobs st1"
    using claim Cons.prems by (auto simp: st1_def split: sum.splits)
  moreover have "snd (claim_loop cron ctxErr now (sch # schs) st) = snd (claim_loop cron ctxErr now schs st1)"
    by (auto simp: st1_def Let_def split: sum.splits prod.splits option.splits)
  ultimately show ?case using Cons.IH [OF st1(1,2)] by auto
qed simp

context enqueuer_laws
begin

lemma deliver_safe:
  assumes ok: "pending_ok st" and x: "o_JobID x \<noteq> []" and res: "deliver enq ctxErr t x (st, q) = (errs, st', q')"
  shows "pending_ok st' \<and> pending_jobs st \<subseteq> pending_jobs st' \<union> {i. has i q'} \<and>
    (\<forall>i. has i q \<longrightarrow> has i q') \<and> (errs = [] \<longrightarrow> o_JobID x \<in> pending_jobs st \<longrightarrow> has (o_JobID x) q')"
proof -
  let ?r = "Schedules_RecordAttempt ctxErr (o_JobID x) st"
  note rec = RecordAttempt_pending [OF ok, where ctxErr = ctxErr and jobID = "o_JobID x"]
  show ?thesis
  proof (cases "fst ?r = Inr True")
    case False
    then have "st' = snd ?r" "q' = q" "errs = [] \<Longrightarrow> fst ?r = Inr False"
      using res by (auto simp: deliver_def split: prod.splits sum.splits if_splits)
    with rec show ?thesis by auto
  next
    case True
    obtain r q1 where e: "enq (occurrence_enqueue x) q = (r, q1)" by fastforce
    have id: "e_ID (occurrence_enqueue x) = o_JobID x" by (simp add: occurrence_enqueue_def)
    have kept: "has i q \<Longrightarrow> has i q1" for i by (rule known_kept [OF _ e])
    note ack = AckOccurrence_pending [OF rec(1), where ctxErr = ctxErr and jobID = "o_JobID x" and now = t]
    show ?thesis
    proof (cases "case r of Inr _ \<Rightarrow> True | Inl e \<Rightarrow> errors_is e ErrAlreadyExists")
      case known: True
      then have "has (o_JobID x) q1"
        using admitted_known [of "occurrence_enqueue x"] duplicate_known [of "occurrence_enqueue x"] e x
        by (auto simp: id split: sum.splits)
      moreover have "st' = snd (Schedules_AckOccurrence ctxErr (o_JobID x) t (snd ?r))" "q' = q1"
        using res True known e
        by (auto simp: deliver_def Let_def split: prod.splits sum.splits if_splits option.splits)
      ultimately show ?thesis using ack rec kept by auto
    next
      case refused: False
      then have "st' = snd ?r" "q' = q1" "errs \<noteq> []"
        using res True e
        by (auto simp: deliver_def Let_def split: prod.splits sum.splits if_splits option.splits)
      with rec kept show ?thesis by auto
    qed
  qed
qed

lemma deliver_loop_safe:
  assumes "pending_ok st" and "\<forall>x\<in>set xs. o_JobID x \<noteq> []"
    and "deliver_loop enq ctxErr ackAt xs (st, q) = (errs, st', q')"
  shows "pending_ok st' \<and> pending_jobs st \<subseteq> pending_jobs st' \<union> {i. has i q'} \<and>
    (\<forall>i. has i q \<longrightarrow> has i q') \<and>
    (errs = [] \<longrightarrow> (\<forall>x\<in>set xs. o_JobID x \<in> pending_jobs st \<longrightarrow> has (o_JobID x) q'))"
  using assms
proof (induction xs arbitrary: st q errs)
  case (Cons x xs)
  obtain errs1 st1 q1 where d: "deliver enq ctxErr (ackAt (o_JobID x)) x (st, q) = (errs1, st1, q1)"
    by (metis prod_cases3)
  obtain errs2 where l: "deliver_loop enq ctxErr ackAt xs (st1, q1) = (errs2, st', q')" "errs = errs1 @ errs2"
    using Cons.prems(3) d by (auto split: prod.splits)
  note safe = deliver_safe [OF Cons.prems(1) _ d]
  have "pending_ok st1" using safe Cons.prems(2) by simp
  from Cons.IH [OF this _ l(1)] safe l(2) Cons.prems(2) show ?case by (auto 0 3)
qed simp

lemma work_safe:
  assumes ok: "pending_ok st" "gm.keyed s_ID (sch_byID st)"
    and res: "Schedules_WorkFunc cron (Some enq) batch kinds ctxErr now ackAt (st, q) = (err, st', q')"
  shows "pending_jobs st \<subseteq> pending_jobs st' \<union> {i. has i q'} \<and> (\<forall>i. has i q \<longrightarrow> has i q') \<and>
    (err = None \<longrightarrow>
      (let st1 = snd (claim_loop cron ctxErr now (projr (Schedules_ListDue now batch kinds st)) st)
       in \<forall>x\<in>set (projr (Schedules_ListPending ctxErr batch kinds st1)). has (o_JobID x) q'))"
proof -
  define due where "due = projr (Schedules_ListDue now batch kinds st)"
  obtain cerrs st1 where c: "claim_loop cron ctxErr now due st = (cerrs, st1)" by fastforce
  have st1: "pending_ok st1" "pending_jobs st \<subseteq> pending_jobs st1"
    using claim_loop_pending [OF ok, of cron ctxErr now due] c by auto
  define pending where "pending = (case Schedules_ListPending ctxErr batch kinds st1 of Inl e \<Rightarrow> [] | Inr p \<Rightarrow> p)"
  obtain derrs s2 where d: "deliver_loop enq ctxErr ackAt pending (st1, q) = (derrs, s2)"
    by (cases "deliver_loop enq ctxErr ackAt pending (st1, q)")
  have sub: "o_JobID ` set pending \<subseteq> pending_jobs st1"
    by (auto simp: pending_def Schedules_ListPending_def pending_jobs_def Let_def
        split: option.splits dest!: in_set_takeD)
  have ne: "\<forall>x\<in>set pending. o_JobID x \<noteq> []"
    using sub st1(1) by (fastforce simp: pending_ok_def)
  have ldue: "Schedules_ListDue now batch kinds st = Inr due"
    by (simp add: due_def Schedules_ListDue_def Let_def)
  have w: "s2 = (st', q')" "err = None \<longrightarrow> derrs = [] \<and> Schedules_ListPending ctxErr batch kinds st1 = Inr pending"
    using res c d
    by (auto simp: Schedules_WorkFunc_def ldue pending_def Let_def split: sum.splits if_splits)
  note safe = deliver_loop_safe [OF st1(1) ne d [unfolded w(1)]]
  have st1': "st1 = snd (claim_loop cron ctxErr now (projr (Schedules_ListDue now batch kinds st)) st)"
    using c by (simp add: due_def)
  show ?thesis
    using safe st1(2) sub w(2) unfolding Let_def st1' [symmetric] by auto
qed

end

definition memory_service :: "time \<Rightarrow> 'f fenced_repo option \<Rightarrow> int \<Rightarrow> (queue, 'f) service" where
  "memory_service c fenced m = \<lparr>sv_repo = Some (memory_queue c), sv_fencedQueue = fenced, sv_maxAttempts = m\<rparr>"

definition queued :: "string \<Rightarrow> (queue, 'f) service_state \<Rightarrow> bool" where
  "queued i ss \<longleftrightarrow> map_get (q_jobs (ss_queue ss)) i \<noteq> None"

lemma EnqueueJob_memory:
  assumes "Service_EnqueueJob (memory_service c fenced m) clock gen inp ss = (r, ss')" and "e_ID inp \<noteq> []"
  shows "(\<exists>x. e_ID x = e_ID inp \<and> ss_queue ss' = snd (Queue_Enqueue c x (ss_queue ss)) \<and>
      fst (Queue_Enqueue c x (ss_queue ss)) = r) \<or>
    ss' = ss \<and> (\<exists>e. r = Inl e \<and> \<not> errors_is e ErrAlreadyExists)"
proof -
  let ?in1 = "if e_Payload inp = [] then inp\<lparr>e_Payload := ''{}''\<rparr> else inp"
  let ?in2 = "if e_MaxAttempts ?in1 \<le> 0 then ?in1\<lparr>e_MaxAttempts := m\<rparr> else ?in1"
  let ?in3 = "if e_ScheduledFor ?in2 = zero_time then ?in2\<lparr>e_ScheduledFor := clock\<rparr> else ?in2"
  have id: "e_ID ?in3 = e_ID inp" by simp
  show ?thesis
  proof (cases "e_Kind inp = [] \<or> e_Payload inp \<noteq> [] \<and> \<not> json_Valid (e_Payload inp)")
    case True
    with assms show ?thesis
      by (auto simp: Service_EnqueueJob_def memory_service_def errKindRequired_def errPayloadJSON_def
          split: if_splits)
  next
    case False
    then have "Service_EnqueueJob (memory_service c fenced m) clock gen inp ss =
        (case Queue_Enqueue c ?in3 (ss_queue ss) of
           (Inl err, q') \<Rightarrow> (Inl err, ss\<lparr>ss_queue := q'\<rparr>)
         | (Inr j, q') \<Rightarrow> (Inr j, Service_signal (ss\<lparr>ss_queue := q'\<rparr>)))"
      using assms(2) by (cases "e_Payload inp = []")
        (simp_all add: Service_EnqueueJob_def memory_service_def memory_queue_def Let_def)
    with assms(1) have "ss_queue ss' = snd (Queue_Enqueue c ?in3 (ss_queue ss))"
      "fst (Queue_Enqueue c ?in3 (ss_queue ss)) = r"
      by (auto simp: Service_signal_def split: prod.splits sum.splits)
    with id show ?thesis by blast
  qed
qed

lemma Queue_Enqueue_keeps:
  "Queue_Enqueue c x q = (r, q') \<Longrightarrow> map_get (q_jobs q) i \<noteq> None \<Longrightarrow> map_get (q_jobs q') i \<noteq> None"
  by (auto simp: Queue_Enqueue_def Let_def split: if_splits)

interpretation sched_enq: enqueuer_laws "Service_EnqueueJob (memory_service c fenced m) clock gen" queued
  for c fenced m clock gen
proof
  fix inp q j q'
  assume "e_ID inp \<noteq> []" "Service_EnqueueJob (memory_service c fenced m) clock gen inp q = (Inr j, q')"
  from EnqueueJob_memory [OF this(2,1)] show "queued (e_ID inp) q'"
    by (auto simp: queued_def Queue_Enqueue_def Let_def split: if_splits)
next
  fix inp q e q'
  assume "e_ID inp \<noteq> []" "Service_EnqueueJob (memory_service c fenced m) clock gen inp q = (Inl e, q')"
    "errors_is e ErrAlreadyExists"
  from EnqueueJob_memory [OF this(2,1)] this(3) show "queued (e_ID inp) q'"
    by (auto simp: queued_def Queue_Enqueue_def Let_def errIDRequired_def split: if_splits)
next
  fix i q inp r q'
  assume k: "queued i q" and e: "Service_EnqueueJob (memory_service c fenced m) clock gen inp q = (r, q')"
  show "queued i q'"
    using e k Queue_Enqueue_keeps
    by (fastforce simp: Service_EnqueueJob_def memory_service_def memory_queue_def Let_def Service_signal_def
        queued_def split: if_splits sum.splits prod.splits)
qed

text \<open>
  Property C11.  The scheduler loses no occurrence.  Whatever the recurrences, the parser, the errors
  of single deliveries and the contents of both stores: after an iteration every occurrence that was
  pending before it is still pending or its job is in the queue, and no job leaves the queue; and
  when the iteration reports success, every occurrence it listed is in the queue.
\<close>

theorem schedule_no_lost_occurrence:
  assumes "pending_ok st" and "gm.keyed s_ID (sch_byID st)"
    and "Schedules_WorkFunc cron (Some (Service_EnqueueJob (memory_service c fenced m) clock gen)) batch kinds
      ctxErr now ackAt (st, q) = (err, st', q')"
  shows "pending_jobs st \<subseteq> pending_jobs st' \<union> {i. queued i q'} \<and> (\<forall>i. queued i q \<longrightarrow> queued i q') \<and>
    (err = None \<longrightarrow>
      (let st1 = snd (claim_loop cron ctxErr now (projr (Schedules_ListDue now batch kinds st)) st)
       in \<forall>x\<in>set (projr (Schedules_ListPending ctxErr batch kinds st1)). queued (o_JobID x) q'))"
  by (rule sched_enq.work_safe [OF assms])

definition demo_pending :: schedules where
  "demo_pending = sched_step (SClaim 150 (the (map_get (sch_byID demo_sched) ''s1'')) 400) demo_sched"

theorem schedule_no_lost_occurrence_witness:
  "let out = Schedules_WorkFunc None (Some (Service_EnqueueJob (memory_service 1 None 3) 200 (Inl ErrConflict)))
       20 [''report''] None 200 (\<lambda>_. 201) (demo_pending, demo_state)
   in pending_jobs demo_pending = {''sched_s1_-62135596800_000000100''} \<and>
      queued ''sched_s1_-62135596800_000000100'' (snd (snd out)) \<and> pending_jobs (fst (snd out)) = {}"
proof -
  let ?out = "Schedules_WorkFunc None (Some (Service_EnqueueJob (memory_service 1 None 3) 200 (Inl ErrConflict)))
       20 [''report''] None 200 (\<lambda>_. 201) (demo_pending, demo_state)"
  have ok: "pending_ok demo_pending" "map fst (sch_byID demo_pending) = [''s1'']"
    "map s_ID (map_vals (sch_byID demo_pending)) = [''s1'']" by code_simp+
  then have keyed: "gm.keyed s_ID (sch_byID demo_pending)"
    by (auto simp: gm.keyed_def dest!: map_of_SomeD)
  have p: "pending_jobs demo_pending = {''sched_s1_-62135596800_000000100''}"
    "pending_jobs (fst (snd ?out)) = {}" by code_simp+
  have "?out = (fst ?out, fst (snd ?out), snd (snd ?out))" by simp
  from schedule_no_lost_occurrence [OF ok(1) keyed this] p show ?thesis
    unfolding Let_def by blast
qed

section \<open>Re-using an identifier\<close>

text \<open>
  Property C40.  The in-memory \<open>Ensure\<close> upserts by name but stores by identifier: creating a schedule
  under a new name with the identifier of an existing schedule succeeds and silently replaces that
  other schedule, which is then gone from the store.
\<close>

theorem Ensure_reused_id_replaces:
  assumes "map_get (sch_byID st) (n_ID inp) = Some old" and "n_ID inp \<noteq> []" and "s_Name old \<noteq> n_Name inp"
    and "\<forall>sch\<in>set (map_vals (sch_byID st)). s_Name sch \<noteq> n_Name inp"
  shows "\<exists>sch st'. Schedules_Ensure clock inp nxt st = (Inr sch, st') \<and> s_Name sch = n_Name inp \<and>
    map_get (sch_byID st') (n_ID inp) = Some sch \<and> sch \<noteq> old"
proof -
  have "findByName (n_Name inp) schs = None" if "\<forall>sch\<in>set schs. s_Name sch \<noteq> n_Name inp" for schs
    using that by (induction schs) auto
  with assms show ?thesis by (auto simp: Schedules_Ensure_def Let_def)
qed

theorem Ensure_reused_id_replaces_witness:
  "\<exists>sch st'. Schedules_Ensure 20 (demo_ensure\<lparr>n_Name := ''weekly''\<rparr>) 300 demo_sched = (Inr sch, st') \<and>
     s_Name sch = ''weekly'' \<and> map_get (sch_byID st') ''s1'' = Some sch \<and>
     sch \<noteq> the (map_get (sch_byID demo_sched) ''s1'')"
proof -
  let ?inp = "demo_ensure\<lparr>n_Name := ''weekly''\<rparr>"
  have "map_get (sch_byID demo_sched) (n_ID ?inp) = Some (the (map_get (sch_byID demo_sched) ''s1''))"
    "n_ID ?inp \<noteq> []" "s_Name (the (map_get (sch_byID demo_sched) ''s1'')) \<noteq> n_Name ?inp"
    "\<forall>sch\<in>set (map_vals (sch_byID demo_sched)). s_Name sch \<noteq> n_Name ?inp"
    by code_simp+
  from Ensure_reused_id_replaces [OF this, of 20 300] show ?thesis by (simp add: demo_ensure_def)
qed

end
