(* ===== verification/Pool.thy ===== *)
theory Pool
  imports Workers
begin

text \<open>
  The worker pool of \<open>src/sdk/pkg/workers/pool.go\<close> and its counters (\<open>stats.go\<close>), as a
  system of concurrent threads: \<open>Run\<close>'s goroutine, one goroutine per worker and the heartbeat.
  Each thread has a program counter; \<open>pool_exec\<close> executes one atomic action of one thread and is
  undefined when the action is not enabled, and a run of the pool is a list of such actions in any
  interleaving.  Every read or write of shared state (the run context, the fatal error behind its
  \<open>sync.Once\<close>, the wake channel, each atomic counter) is an action of its own.

  Time is abstracted: an armed timer may fire at any moment.  What the work function returns is the
  argument of the action in which it returns, so the theorems hold for every work function.
\<close>

section \<open>Construction\<close>

record 'w pool_config =
  plc_name :: string
  plc_workerCount :: int
  plc_pollInterval :: duration
  plc_idleInterval :: duration
  plc_heartbeat :: duration
  plc_middlewares :: "('w \<Rightarrow> 'w) list"
  plc_wake :: bool   \<comment> \<open>whether a wake channel is registered\<close>
  plc_drainBacklog :: bool

record 'w pool =
  pl_name :: string
  pl_workerCount :: int
  pl_pollInterval :: duration
  pl_idleInterval :: duration
  pl_heartbeat :: duration
  pl_wake :: bool
  pl_drainBacklog :: bool
  pl_workFunc :: 'w

definition defaultWorkerCount :: int where
  "defaultWorkerCount = 1"

definition defaultPollInterval :: duration where
  "defaultPollInterval = 5 * Second"

definition defaultIdleInterval :: duration where
  "defaultIdleInterval = 30 * Second"

definition initialInterval :: duration where
  "initialInterval = Millisecond"

definition WithName :: "string \<Rightarrow> 'w pool_config \<Rightarrow> 'w pool_config" where
  "WithName name c = c\<lparr>plc_name := name\<rparr>"

definition WithWorkerCount :: "int \<Rightarrow> 'w pool_config \<Rightarrow> 'w pool_config" where
  "WithWorkerCount n c = c\<lparr>plc_workerCount := n\<rparr>"

definition WithPollInterval :: "duration \<Rightarrow> 'w pool_config \<Rightarrow> 'w pool_config" where
  "WithPollInterval d c = c\<lparr>plc_pollInterval := d\<rparr>"

definition WithIdleInterval :: "duration \<Rightarrow> 'w pool_config \<Rightarrow> 'w pool_config" where
  "WithIdleInterval d c = c\<lparr>plc_idleInterval := d\<rparr>"

definition WithDrainBacklog :: "bool \<Rightarrow> 'w pool_config \<Rightarrow> 'w pool_config" where
  "WithDrainBacklog b c = c\<lparr>plc_drainBacklog := b\<rparr>"

definition WithHeartbeat :: "duration \<Rightarrow> 'w pool_config \<Rightarrow> 'w pool_config" where
  "WithHeartbeat d c = c\<lparr>plc_heartbeat := d\<rparr>"

definition WithMiddleware :: "('w \<Rightarrow> 'w) list \<Rightarrow> 'w pool_config \<Rightarrow> 'w pool_config" where
  "WithMiddleware ms c = c\<lparr>plc_middlewares := plc_middlewares c @ ms\<rparr>"

definition WithWakeChannel :: "bool \<Rightarrow> 'w pool_config \<Rightarrow> 'w pool_config" where
  "WithWakeChannel w c = c\<lparr>plc_wake := w\<rparr>"

text \<open>The wrapping loop runs from the last middleware to the first.\<close>

fun wrap_middlewares :: "('w \<Rightarrow> 'w) list \<Rightarrow> 'w \<Rightarrow> 'w" where
  "wrap_middlewares [] work = work"
| "wrap_middlewares (m # ms) work = wrap_middlewares ms (m work)"

definition NewPool :: "'w \<Rightarrow> ('w pool_config \<Rightarrow> 'w pool_config) option list \<Rightarrow> string + 'w pool" where
  "NewPool work opts =
     (case apply_options ''workers.NewPool: nil option'' opts
             \<lparr>plc_name = ''worker'', plc_workerCount = defaultWorkerCount,
              plc_pollInterval = defaultPollInterval, plc_idleInterval = defaultIdleInterval,
              plc_heartbeat = 0, plc_middlewares = [], plc_wake = False, plc_drainBacklog = False\<rparr> of
        Inl p \<Rightarrow> Inl p
      | Inr c \<Rightarrow>
          Inr \<lparr>pl_name = plc_name c,
               pl_workerCount = (if plc_workerCount c < 1 then 1 else plc_workerCount c),
               pl_pollInterval = (if plc_pollInterval c \<le> 0 then defaultPollInterval else plc_pollInterval c),
               pl_idleInterval = (if plc_idleInterval c \<le> 0 then defaultIdleInterval else plc_idleInterval c),
               pl_heartbeat = plc_heartbeat c, pl_wake = plc_wake c, pl_drainBacklog = plc_drainBacklog c,
               pl_workFunc = wrap_middlewares (rev (plc_middlewares c)) work\<rparr>)"

section \<open>Counters and one iteration\<close>

record stats =
  st_activeWorkers :: int
  st_iterations :: int
  st_errors :: int
  st_panics :: int
  st_successes :: int

definition zero_stats :: stats where
  "zero_stats = \<lparr>st_activeWorkers = 0, st_iterations = 0, st_errors = 0, st_panics = 0, st_successes = 0\<rparr>"

definition runOnce :: "proc_result \<Rightarrow> stats \<Rightarrow> error \<times> stats" where
  "runOnce r s =
     (case r of
        Returned err \<Rightarrow> (err, s)
      | Panicked v \<Rightarrow> (Some (ForeignError (''workers: panic recovered: '' @ v)), s\<lparr>st_panics := st_panics s + 1\<rparr>))"

definition err_is :: "error \<Rightarrow> go_error \<Rightarrow> bool" where
  "err_is err target = (case err of None \<Rightarrow> False | Some e \<Rightarrow> errors_is e target)"

definition next_interval :: "'w pool \<Rightarrow> error \<Rightarrow> duration" where
  "next_interval p err =
     (if err_is err ErrNoWork then pl_idleInterval p
      else if err = None \<and> pl_drainBacklog p then 0
      else pl_pollInterval p)"

definition worker_id :: "'w pool \<Rightarrow> nat \<Rightarrow> string" where
  "worker_id p i = pl_name p @ ''-worker-'' @ print_int (int i + 1)"

definition shutdown_error :: "'w pool \<Rightarrow> nat \<Rightarrow> go_error \<Rightarrow> go_error" where
  "shutdown_error p i e = Wrapped (''worker '' @ worker_id p i @ '': '' @ error_text e) e"

section \<open>The worker goroutine\<close>

record shared =
  sh_cancelled :: bool          \<comment> \<open>the context derived in \<open>Run\<close> is done\<close>
  sh_fatalErr :: error          \<comment> \<open>what \<open>fatalOnce\<close> recorded\<close>
  sh_wake :: bool               \<comment> \<open>a signal is buffered in the wake channel\<close>
  sh_stats :: stats

datatype worker_pc =
    WSpawned                    \<comment> \<open>launched, before the counter of active workers\<close>
  | WSelect duration            \<comment> \<open>in the select, its timer armed with the interval\<close>
  | WChecking                   \<comment> \<open>past the select, before \<open>ctx.Err()\<close>\<close>
  | WRunning                    \<comment> \<open>inside the work function\<close>
  | WReturned error             \<comment> \<open>before \<open>iterations.Add\<close>\<close>
  | WCounted error              \<comment> \<open>before \<open>successes.Add\<close> or \<open>errors.Add\<close>\<close>
  | WDeciding error             \<comment> \<open>at the switch on the error\<close>
  | WStopping go_error          \<comment> \<open>in \<open>stop\<close>, before \<open>fatalOnce.Do\<close>\<close>
  | WCanceling                  \<comment> \<open>in \<open>stop\<close>, before \<open>cancel\<close>\<close>
  | WReturning                  \<comment> \<open>the deferred \<open>activeWorkers.Add(-1)\<close> is due\<close>
  | WLeaving                    \<comment> \<open>the deferred \<open>wg.Done\<close> is due\<close>
  | WExited

datatype worker_act = SeeDone | TimerFires | WakeReceived | WorkReturns proc_result | Proceed

definition tally :: "error \<Rightarrow> stats \<Rightarrow> stats" where
  "tally err s =
     (if err = None then s\<lparr>st_successes := st_successes s + 1\<rparr>
      else if \<not> err_is err ErrNoWork then s\<lparr>st_errors := st_errors s + 1\<rparr>
      else s)"

definition decide :: "'w pool \<Rightarrow> nat \<Rightarrow> error \<Rightarrow> worker_pc" where
  "decide p i err =
     (if err_is err ErrPoolShutdown then WStopping (shutdown_error p i (the err))
      else if err_is err ErrWorkerShutdown then WReturning
      else WSelect (next_interval p err))"

fun worker_step :: "'w pool \<Rightarrow> nat \<Rightarrow> worker_act \<Rightarrow> worker_pc \<Rightarrow> shared \<Rightarrow> (worker_pc \<times> shared) option" where
  "worker_step p i Proceed WSpawned sh =
     Some (WSelect initialInterval,
           sh\<lparr>sh_stats := (sh_stats sh)\<lparr>st_activeWorkers := st_activeWorkers (sh_stats sh) + 1\<rparr>\<rparr>)"
| "worker_step p i SeeDone (WSelect d) sh = (if sh_cancelled sh then Some (WReturning, sh) else None)"
| "worker_step p i TimerFires (WSelect d) sh = Some (WChecking, sh)"
| "worker_step p i WakeReceived (WSelect d) sh =
     (if pl_wake p \<and> sh_wake sh then Some (WChecking, sh\<lparr>sh_wake := False\<rparr>) else None)"
| "worker_step p i Proceed WChecking sh =
     Some (if sh_cancelled sh then WReturning else WRunning, sh)"
| "worker_step p i (WorkReturns r) WRunning sh =
     (let (err, s) = runOnce r (sh_stats sh) in Some (WReturned err, sh\<lparr>sh_stats := s\<rparr>))"
| "worker_step p i Proceed (WReturned err) sh =
     Some (WCounted err,
           sh\<lparr>sh_stats := (sh_stats sh)\<lparr>st_iterations := st_iterations (sh_stats sh) + 1\<rparr>\<rparr>)"
| "worker_step p i Proceed (WCounted err) sh =
     Some (WDeciding err, sh\<lparr>sh_stats := tally err (sh_stats sh)\<rparr>)"
| "worker_step p i Proceed (WDeciding err) sh = Some (decide p i err, sh)"
| "worker_step p i Proceed (WStopping e) sh =
     Some (WCanceling, if sh_fatalErr sh = None then sh\<lparr>sh_fatalErr := Some e\<rparr> else sh)"
| "worker_step p i Proceed WCanceling sh = Some (WReturning, sh\<lparr>sh_cancelled := True\<rparr>)"
| "worker_step p i Proceed WReturning sh =
     Some (WLeaving,
           sh\<lparr>sh_stats := (sh_stats sh)\<lparr>st_activeWorkers := st_activeWorkers (sh_stats sh) - 1\<rparr>\<rparr>)"
| "worker_step p i Proceed WLeaving sh = Some (WExited, sh)"
| "worker_step p i _ _ sh = None"

section \<open>The heartbeat goroutine\<close>

text \<open>
  A beat loads the five counters one after the other; the counters loaded so far are the last
  argument of \<open>HLoading\<close>, the number of loads done the first.
\<close>

datatype heartbeat_pc =
    HOff
  | HSelect stats               \<comment> \<open>in the select; the previous snapshot\<close>
  | HChecking stats
  | HLoading nat stats stats
  | HClosed

datatype heartbeat_act = HSeeDone | HTick | HProceed

record beat =
  b_active :: int
  b_iterations :: int
  b_successes :: int
  b_errors :: int

fun load_counter :: "nat \<Rightarrow> stats \<Rightarrow> stats \<Rightarrow> stats" where
  "load_counter 0 s c = c\<lparr>st_activeWorkers := st_activeWorkers s\<rparr>"
| "load_counter (Suc 0) s c = c\<lparr>st_iterations := st_iterations s\<rparr>"
| "load_counter (Suc (Suc 0)) s c = c\<lparr>st_errors := st_errors s\<rparr>"
| "load_counter (Suc (Suc (Suc 0))) s c = c\<lparr>st_panics := st_panics s\<rparr>"
| "load_counter _ s c = c\<lparr>st_successes := st_successes s\<rparr>"

definition beat_of :: "stats \<Rightarrow> stats \<Rightarrow> beat" where
  "beat_of previous current =
     \<lparr>b_active = st_activeWorkers current,
      b_iterations = st_iterations current - st_iterations previous,
      b_successes = st_successes current - st_successes previous,
      b_errors = st_errors current - st_errors previous\<rparr>"

fun heartbeat_step ::
    "heartbeat_act \<Rightarrow> heartbeat_pc \<Rightarrow> shared \<Rightarrow> (heartbeat_pc \<times> beat list) option" where
  "heartbeat_step HSeeDone (HSelect prev) sh = (if sh_cancelled sh then Some (HClosed, []) else None)"
| "heartbeat_step HTick (HSelect prev) sh = Some (HChecking prev, [])"
| "heartbeat_step HProceed (HChecking prev) sh =
     Some (if sh_cancelled sh then HClosed else HLoading 0 prev zero_stats, [])"
| "heartbeat_step HProceed (HLoading k prev cur) sh =
     Some (if k < 5 then (HLoading (Suc k) prev (load_counter k (sh_stats sh) cur), [])
           else (HSelect cur, [beat_of prev cur]))"
| "heartbeat_step _ _ sh = None"

section \<open>Run\<close>

datatype run_pc =
    MNotRun
  | MSpawning                   \<comment> \<open>in the launching loop\<close>
  | MWaiting                    \<comment> \<open>in \<open>wg.Wait\<close>\<close>
  | MJoining                    \<comment> \<open>workers done and context cancelled; waiting for the heartbeat\<close>
  | MReturned error

record pool_state =
  ps_run :: run_pc
  ps_shared :: shared
  ps_workers :: "worker_pc list"
  ps_heartbeat :: heartbeat_pc
  ps_beats :: "beat list"

definition idle_pool :: pool_state where
  "idle_pool = \<lparr>ps_run = MNotRun,
     ps_shared = \<lparr>sh_cancelled = False, sh_fatalErr = None, sh_wake = False, sh_stats = zero_stats\<rparr>,
     ps_workers = [], ps_heartbeat = HOff, ps_beats = []\<rparr>"

text \<open>
  The entry of \<open>Run\<close>: the compare-and-swap on \<open>started\<close>, then the heartbeat with its baseline.
  The first component is the error a refused call returns at once.
\<close>

definition Run_enter :: "'w pool \<Rightarrow> pool_state \<Rightarrow> error \<times> pool_state" where
  "Run_enter p st =
     (if ps_run st \<noteq> MNotRun then (Some ErrAlreadyRun, st)
      else (None,
        st\<lparr>ps_run := MSpawning,
           ps_heartbeat := (if 0 < pl_heartbeat p then HSelect (sh_stats (ps_shared st)) else HOff)\<rparr>))"

datatype pool_event =
    EvRun
  | EvMain
  | EvWorker nat worker_act
  | EvHeartbeat heartbeat_act
  | EvParentCancel
  | EvWakeSend

definition main_step :: "'w pool \<Rightarrow> pool_state \<Rightarrow> pool_state option" where
  "main_step p st =
     (case ps_run st of
        MSpawning \<Rightarrow>
          Some (if int (length (ps_workers st)) < pl_workerCount p
                then st\<lparr>ps_workers := ps_workers st @ [WSpawned]\<rparr>
                else st\<lparr>ps_run := MWaiting\<rparr>)
      | MWaiting \<Rightarrow>
          if \<forall>w\<in>set (ps_workers st). w = WExited
          then Some (st\<lparr>ps_run := MJoining, ps_shared := (ps_shared st)\<lparr>sh_cancelled := True\<rparr>\<rparr>)
          else None
      | MJoining \<Rightarrow>
          if ps_heartbeat st = HOff \<or> ps_heartbeat st = HClosed
          then Some (st\<lparr>ps_run := MReturned (sh_fatalErr (ps_shared st))\<rparr>)
          else None
      | _ \<Rightarrow> None)"

fun pool_exec :: "'w pool \<Rightarrow> pool_event \<Rightarrow> pool_state \<Rightarrow> pool_state option" where
  "pool_exec p EvRun st = Some (snd (Run_enter p st))"
| "pool_exec p EvMain st = main_step p st"
| "pool_exec p (EvWorker i a) st =
     (if i < length (ps_workers st) then
        (case worker_step p i a (ps_workers st ! i) (ps_shared st) of
           None \<Rightarrow> None
         | Some (pc, sh) \<Rightarrow> Some (st\<lparr>ps_workers := (ps_workers st)[i := pc], ps_shared := sh\<rparr>))
      else None)"
| "pool_exec p (EvHeartbeat a) st =
     (case heartbeat_step a (ps_heartbeat st) (ps_shared st) of
        None \<Rightarrow> None
      | Some (pc, bs) \<Rightarrow> Some (st\<lparr>ps_heartbeat := pc, ps_beats := ps_beats st @ bs\<rparr>))"
| "pool_exec p EvParentCancel st = Some (st\<lparr>ps_shared := (ps_shared st)\<lparr>sh_cancelled := True\<rparr>\<rparr>)"
| "pool_exec p EvWakeSend st = Some (st\<lparr>ps_shared := (ps_shared st)\<lparr>sh_wake := True\<rparr>\<rparr>)"

fun pool_trace :: "'w pool \<Rightarrow> pool_event list \<Rightarrow> pool_state \<Rightarrow> pool_state option" where
  "pool_trace p [] st = Some st"
| "pool_trace p (ev # evs) st =
     (case pool_exec p ev st of None \<Rightarrow> None | Some st' \<Rightarrow> pool_trace p evs st')"

definition Pool_Stats :: "pool_state \<Rightarrow> stats" where
  "Pool_Stats st = sh_stats (ps_shared st)"

section \<open>Traces\<close>

text \<open>What holds along every trace of a partial step function, with the history as a ghost.\<close>

locale traced =
  fixes exec :: "'e \<Rightarrow> 's \<Rightarrow> 's option"
    and trace :: "'e list \<Rightarrow> 's \<Rightarrow> 's option"
  assumes trace_Nil: "trace [] s = Some s"
    and trace_Cons: "trace (e # es) s = (case exec e s of None \<Rightarrow> None | Some s' \<Rightarrow> trace es s')"
begin

lemma trace_append:
  "trace (es @ fs) s = (case trace es s of None \<Rightarrow> None | Some s' \<Rightarrow> trace fs s')"
  by (induction es arbitrary: s) (auto simp: trace_Nil trace_Cons split: option.splits)

lemma trace_invariant:
  assumes "trace es s0 = Some s" and "I [] s0"
    and "\<And>h e s s'. I h s \<Longrightarrow> exec e s = Some s' \<Longrightarrow> I (h @ [e]) s'"
  shows "I es s"
proof -
  have "I (h @ es) s" if "I h s0" "trace es s0 = Some s" for h s0 s
    using that
  proof (induction es arbitrary: h s0)
    case (Cons e es)
    then obtain s1 where s1: "exec e s0 = Some s1" "trace es s1 = Some s"
      by (auto simp: trace_Cons split: option.splits)
    from Cons.IH [OF assms(3) [OF Cons.prems(1) s1(1)] s1(2)] show ?case by simp
  qed (simp add: trace_Nil)
  from this [OF assms(2,1)] show ?thesis by simp
qed

lemma trace_stable:
  assumes "trace es s0 = Some s" and "I s0"
    and "\<And>e s s'. e \<in> set es \<Longrightarrow> I s \<Longrightarrow> exec e s = Some s' \<Longrightarrow> I s'"
  shows "I s"
  using assms
proof (induction es arbitrary: s0)
  case (Cons e es)
  then obtain s1 where s1: "exec e s0 = Some s1" "trace es s1 = Some s"
    by (auto simp: trace_Cons split: option.splits)
  have "I s1" using Cons.prems(3) [OF _ Cons.prems(2) s1(1)] by simp
  show ?case
    by (rule Cons.IH [OF s1(2) \<open>I s1\<close>]) (rule Cons.prems(3), auto)
qed (simp add: trace_Nil)

lemma trace_bounded:
  fixes m :: "'s \<Rightarrow> nat" and w :: "'e \<Rightarrow> nat"
  assumes "trace es s0 = Some s" and "I s0"
    and "\<And>e s s'. I s \<Longrightarrow> exec e s = Some s' \<Longrightarrow> I s' \<and> m s' + w e \<le> m s"
  shows "I s \<and> m s + sum_list (map w es) \<le> m s0"
  using assms(1,2)
proof (induction es arbitrary: s0)
  case (Cons e es)
  then obtain s1 where s1: "exec e s0 = Some s1" "trace es s1 = Some s"
    by (auto simp: trace_Cons split: option.splits)
  from assms(3) [OF Cons.prems(2) s1(1)] Cons.IH [OF s1(2)] show ?case by simp
qed (simp add: trace_Nil)

end

interpretation pt: traced "pool_exec p" "pool_trace p" for p :: "'w pool"
  by unfold_locales simp_all

lemma sum_list_map_upd:
  fixes f :: "'a \<Rightarrow> int"
  assumes "i < length xs"
  shows "sum_list (map f (xs[i := y])) = sum_list (map f xs) - f (xs ! i) + f y"
  using assms by (induction xs arbitrary: i) (auto split: nat.split)

lemma sum_list_0_when:
  fixes f :: "'a \<Rightarrow> int"
  shows "(\<And>x. x \<in> set xs \<Longrightarrow> f x = 0) \<Longrightarrow> sum_list (map f xs) = 0"
  by (induction xs) auto

lemma pool_exec_worker:
  assumes "pool_exec p (EvWorker i a) st = Some st'"
  obtains pc sh where "i < length (ps_workers st)"
    "worker_step p i a (ps_workers st ! i) (ps_shared st) = Some (pc, sh)"
    "st' = st\<lparr>ps_workers := (ps_workers st)[i := pc], ps_shared := sh\<rparr>"
  using assms by (auto split: if_splits option.splits)

lemma pool_exec_heartbeat:
  assumes "pool_exec p (EvHeartbeat a) st = Some st'"
  obtains pc bs where "heartbeat_step a (ps_heartbeat st) (ps_shared st) = Some (pc, bs)"
    "st' = st\<lparr>ps_heartbeat := pc, ps_beats := ps_beats st @ bs\<rparr>"
  using assms by (auto split: option.splits)

section \<open>The counters\<close>

definition outcome :: "proc_result \<Rightarrow> error" where
  "outcome r = fst (runOnce r zero_stats)"

fun outcomes :: "pool_event list \<Rightarrow> (nat \<times> error) list" where
  "outcomes [] = []"
| "outcomes (EvWorker i (WorkReturns r) # evs) = (i, outcome r) # outcomes evs"
| "outcomes (_ # evs) = outcomes evs"

fun panics_in :: "pool_event list \<Rightarrow> int" where
  "panics_in [] = 0"
| "panics_in (EvWorker i (WorkReturns (Panicked v)) # evs) = 1 + panics_in evs"
| "panics_in (_ # evs) = panics_in evs"

definition results_where :: "(error \<Rightarrow> bool) \<Rightarrow> pool_event list \<Rightarrow> int" where
  "results_where P evs = int (length (filter (\<lambda>(i, e). P e) (outcomes evs)))"

definition failed :: "error \<Rightarrow> bool" where
  "failed e \<longleftrightarrow> e \<noteq> None \<and> \<not> err_is e ErrNoWork"

lemma outcomes_append [simp]: "outcomes (as @ bs) = outcomes as @ outcomes bs"
  by (induction as rule: outcomes.induct) auto

lemma panics_in_append [simp]: "panics_in (as @ bs) = panics_in as + panics_in bs"
  by (induction as rule: panics_in.induct) auto

text \<open>What a worker owes to a counter: a result it has in hand that the counter does not show yet.\<close>

fun owed_iteration :: "worker_pc \<Rightarrow> int" where
  "owed_iteration (WReturned e) = 1"
| "owed_iteration _ = 0"

fun owed_tally :: "(error \<Rightarrow> bool) \<Rightarrow> worker_pc \<Rightarrow> int" where
  "owed_tally P (WReturned e) = of_bool (P e)"
| "owed_tally P (WCounted e) = of_bool (P e)"
| "owed_tally P _ = 0"

fun is_active :: "worker_pc \<Rightarrow> int" where
  "is_active WSpawned = 0"
| "is_active WLeaving = 0"
| "is_active WExited = 0"
| "is_active _ = 1"

lemma worker_step_counts:
  assumes "worker_step p i a pc sh = Some (pc', sh')"
  shows "st_iterations (sh_stats sh') + owed_iteration pc' =
      st_iterations (sh_stats sh) + owed_iteration pc + results_where (\<lambda>_. True) [EvWorker i a]"
    and "st_successes (sh_stats sh') + owed_tally (\<lambda>e. e = None) pc' =
      st_successes (sh_stats sh) + owed_tally (\<lambda>e. e = None) pc + results_where (\<lambda>e. e = None) [EvWorker i a]"
    and "st_errors (sh_stats sh') + owed_tally failed pc' =
      st_errors (sh_stats sh) + owed_tally failed pc + results_where failed [EvWorker i a]"
    and "st_panics (sh_stats sh') = st_panics (sh_stats sh) + panics_in [EvWorker i a]"
    and "st_activeWorkers (sh_stats sh') - is_active pc' = st_activeWorkers (sh_stats sh) - is_active pc"
  using assms
  by (induction p i a pc sh rule: worker_step.induct)
    (auto simp: runOnce_def tally_def decide_def outcome_def results_where_def failed_def
      split: if_splits proc_result.splits)

definition pool_counts :: "pool_event list \<Rightarrow> pool_state \<Rightarrow> bool" where
  "pool_counts h st \<longleftrightarrow>
     (let s = Pool_Stats st; owed = (\<lambda>f. sum_list (map f (ps_workers st))) in
      st_iterations s + owed owed_iteration = results_where (\<lambda>_. True) h \<and>
      st_successes s + owed (owed_tally (\<lambda>e. e = None)) = results_where (\<lambda>e. e = None) h \<and>
      st_errors s + owed (owed_tally failed) = results_where failed h \<and>
      st_panics s = panics_in h \<and>
      st_activeWorkers s = owed is_active)"

lemma results_where_append: "results_where P (as @ bs) = results_where P as + results_where P bs"
  by (simp add: results_where_def)

lemma pool_counts_step:
  assumes "pool_counts h st" and "pool_exec p ev st = Some st'"
  shows "pool_counts (h @ [ev]) st'"
proof (cases ev)
  case (EvWorker i a)
  from assms(2) show ?thesis unfolding EvWorker
  proof (rule pool_exec_worker)
    fix pc sh
    assume i: "i < length (ps_workers st)"
      and step: "worker_step p i a (ps_workers st ! i) (ps_shared st) = Some (pc, sh)"
      and st': "st' = st\<lparr>ps_workers := (ps_workers st)[i := pc], ps_shared := sh\<rparr>"
    show "pool_counts (h @ [EvWorker i a]) st'"
      using assms(1) worker_step_counts [OF step]
      by (simp add: pool_counts_def Let_def Pool_Stats_def st' sum_list_map_upd [OF i] results_where_append)
  qed
next
  case (EvHeartbeat a)
  from assms(2) show ?thesis unfolding EvHeartbeat
    by (rule pool_exec_heartbeat)
      (use assms(1) in \<open>simp add: pool_counts_def Pool_Stats_def results_where_def\<close>)
qed (use assms in \<open>auto simp: pool_counts_def Pool_Stats_def results_where_def Run_enter_def main_step_def
       split: if_splits run_pc.splits\<close>)

lemma pool_counts_idle: "pool_counts [] idle_pool"
  by (simp add: pool_counts_def idle_pool_def Pool_Stats_def zero_stats_def results_where_def)

lemma pool_counts_trace:
  "pool_trace p evs idle_pool = Some st \<Longrightarrow> pool_counts evs st"
  by (erule pt.trace_invariant [where I = pool_counts]) (fact pool_counts_idle, erule pool_counts_step)

section \<open>Termination of the drain\<close>

fun worker_left :: "worker_pc \<Rightarrow> nat" where
  "worker_left WExited = 0"
| "worker_left WLeaving = 1"
| "worker_left WReturning = 2"
| "worker_left WCanceling = 3"
| "worker_left WChecking = 3"
| "worker_left (WStopping e) = 4"
| "worker_left (WSelect d) = 4"
| "worker_left WSpawned = 5"
| "worker_left (WDeciding e) = 5"
| "worker_left (WCounted e) = 6"
| "worker_left (WReturned e) = 7"
| "worker_left WRunning = 8"

fun heartbeat_left :: "heartbeat_pc \<Rightarrow> nat" where
  "heartbeat_left HOff = 0"
| "heartbeat_left HClosed = 0"
| "heartbeat_left (HChecking s) = 1"
| "heartbeat_left (HSelect s) = 2"
| "heartbeat_left (HLoading k s c) = 3 + (5 - k)"

fun run_left :: "'w pool \<Rightarrow> nat \<Rightarrow> run_pc \<Rightarrow> nat" where
  "run_left p n MSpawning = 3 + 6 * (nat (pl_workerCount p) - n)"
| "run_left p n MWaiting = 2"
| "run_left p n MJoining = 1"
| "run_left p n _ = 0"

definition drain_left :: "'w pool \<Rightarrow> pool_state \<Rightarrow> nat" where
  "drain_left p st = run_left p (length (ps_workers st)) (ps_run st) +
     sum_list (map worker_left (ps_workers st)) + heartbeat_left (ps_heartbeat st)"

text \<open>The actions of the pool's own goroutines, as opposed to those of its callers.\<close>

fun internal :: "pool_event \<Rightarrow> bool" where
  "internal EvMain = True"
| "internal (EvWorker i a) = True"
| "internal (EvHeartbeat a) = True"
| "internal _ = False"

lemma worker_step_left:
  assumes "worker_step p i a pc sh = Some (pc', sh')" and "sh_cancelled sh"
  shows "worker_left pc' < worker_left pc" and "sh_cancelled sh'" and "pc' = WRunning \<longrightarrow> pc = WRunning"
  using assms
  by (induction p i a pc sh rule: worker_step.induct)
    (auto simp: decide_def split: if_splits prod.splits)

lemma heartbeat_step_left:
  assumes "heartbeat_step a pc sh = Some (pc', bs)" and "sh_cancelled sh"
  shows "heartbeat_left pc' < heartbeat_left pc"
  using assms by (induction a pc sh rule: heartbeat_step.induct) (auto split: if_splits)

lemma sum_list_upd_less:
  fixes f :: "'a \<Rightarrow> nat"
  assumes "i < length xs" and "f y < f (xs ! i)"
  shows "sum_list (map f (xs[i := y])) < sum_list (map f xs)"
  using assms by (induction xs arbitrary: i) (auto split: nat.split simp: less_Suc_eq_0_disj)

definition draining :: "pool_state \<Rightarrow> bool" where
  "draining st \<longleftrightarrow> ps_run st \<noteq> MNotRun \<and> sh_cancelled (ps_shared st)"

lemma drain_step:
  assumes "draining st" and "pool_exec p ev st = Some st'"
  shows "draining st' \<and> drain_left p st' + of_bool (internal ev) \<le> drain_left p st"
proof (cases ev)
  case EvMain
  with assms show ?thesis
    by (auto simp: main_step_def draining_def drain_left_def split: if_splits run_pc.splits)
next
  case (EvWorker i a)
  from assms(2) show ?thesis unfolding EvWorker
  proof (rule pool_exec_worker)
    fix pc sh
    assume i: "i < length (ps_workers st)"
      and step: "worker_step p i a (ps_workers st ! i) (ps_shared st) = Some (pc, sh)"
      and st': "st' = st\<lparr>ps_workers := (ps_workers st)[i := pc], ps_shared := sh\<rparr>"
    from assms(1) have cancelled: "sh_cancelled (ps_shared st)" by (simp add: draining_def)
    from sum_list_upd_less [OF i, of worker_left pc] worker_step_left [OF step cancelled] assms(1)
    show "draining st' \<and> drain_left p st' + of_bool (internal (EvWorker i a)) \<le> drain_left p st"
      by (simp add: st' draining_def drain_left_def)
  qed
next
  case (EvHeartbeat a)
  from assms(2) show ?thesis unfolding EvHeartbeat
  proof (rule pool_exec_heartbeat)
    fix pc bs
    assume step: "heartbeat_step a (ps_heartbeat st) (ps_shared st) = Some (pc, bs)"
      and st': "st' = st\<lparr>ps_heartbeat := pc, ps_beats := ps_beats st @ bs\<rparr>"
    with heartbeat_step_left [OF step] assms(1)
    show "draining st' \<and> drain_left p st' + of_bool (internal (EvHeartbeat a)) \<le> drain_left p st"
      by (simp add: draining_def drain_left_def)
  qed
qed (use assms in \<open>auto simp: draining_def drain_left_def Run_enter_def\<close>)

lemma worker_enabled:
  "sh_cancelled sh \<Longrightarrow> pc \<noteq> WExited \<Longrightarrow> \<exists>a. worker_step p i a pc sh \<noteq> None"
  by (cases pc) (auto intro: exI [of _ Proceed] exI [of _ SeeDone]
      exI [of _ "WorkReturns (Returned None)"] simp: runOnce_def)

lemma heartbeat_enabled:
  "sh_cancelled sh \<Longrightarrow> pc \<noteq> HOff \<Longrightarrow> pc \<noteq> HClosed \<Longrightarrow> \<exists>a. heartbeat_step a pc sh \<noteq> None"
  by (cases pc) (auto intro: exI [of _ HProceed] exI [of _ HSeeDone])

lemma drain_progress:
  assumes "draining st" and stuck: "\<And>ev. internal ev \<Longrightarrow> pool_exec p ev st = None"
  shows "\<exists>e. ps_run st = MReturned e"
proof -
  from assms(1) have cancelled: "sh_cancelled (ps_shared st)" and "ps_run st \<noteq> MNotRun"
    by (simp_all add: draining_def)
  have "w = WExited" if "w \<in> set (ps_workers st)" for w
  proof (rule ccontr)
    assume "w \<noteq> WExited"
    moreover from that obtain i where i: "i < length (ps_workers st)" "w = ps_workers st ! i"
      by (auto simp: in_set_conv_nth)
    ultimately obtain a where "worker_step p i a (ps_workers st ! i) (ps_shared st) \<noteq> None"
      using worker_enabled [OF cancelled] by blast
    with i stuck [of "EvWorker i a"] show False by (auto split: option.splits)
  qed
  moreover have "ps_heartbeat st = HOff \<or> ps_heartbeat st = HClosed"
  proof (rule ccontr)
    assume "\<not> (ps_heartbeat st = HOff \<or> ps_heartbeat st = HClosed)"
    then obtain a where "heartbeat_step a (ps_heartbeat st) (ps_shared st) \<noteq> None"
      using heartbeat_enabled [OF cancelled] by blast
    with stuck [of "EvHeartbeat a"] show False by (auto split: option.splits)
  qed
  ultimately show ?thesis
    using stuck [of EvMain] \<open>ps_run st \<noteq> MNotRun\<close>
    by (cases "ps_run st") (auto simp: main_step_def)
qed

text \<open>Which workers are inside the work function can only shrink, and the pool's size is bounded.\<close>

definition running :: "pool_state \<Rightarrow> nat set" where
  "running st = {i. i < length (ps_workers st) \<and> ps_workers st ! i = WRunning}"

lemma running_step:
  assumes "draining st" and "pool_exec p ev st = Some st'"
  shows "running st' \<subseteq> running st"
proof (cases ev)
  case (EvWorker i a)
  from assms(2) show ?thesis unfolding EvWorker
  proof (rule pool_exec_worker)
    fix pc sh
    assume i: "i < length (ps_workers st)"
      and step: "worker_step p i a (ps_workers st ! i) (ps_shared st) = Some (pc, sh)"
      and st': "st' = st\<lparr>ps_workers := (ps_workers st)[i := pc], ps_shared := sh\<rparr>"
    from assms(1) have "sh_cancelled (ps_shared st)" by (simp add: draining_def)
    from worker_step_left(3) [OF step this] show ?thesis
      by (auto simp: running_def st' nth_list_update [OF i] split: if_splits)
  qed
next
  case (EvHeartbeat a)
  from assms(2) show ?thesis unfolding EvHeartbeat
    by (rule pool_exec_heartbeat) (simp add: running_def)
qed (use assms in \<open>auto simp: running_def Run_enter_def main_step_def nth_append less_Suc_eq
       split: if_splits run_pc.splits\<close>)

lemma drain_keeps:
  "draining s \<and> running s \<subseteq> R \<Longrightarrow> pool_exec p ev s = Some s' \<Longrightarrow>
    (draining s' \<and> running s' \<subseteq> R) \<and> drain_left p s' + of_bool (internal ev) \<le> drain_left p s"
  using drain_step [of s p ev s'] running_step [of s p ev s'] by blast

definition sized :: "'w pool \<Rightarrow> pool_state \<Rightarrow> bool" where
  "sized p st \<longleftrightarrow> length (ps_workers st) \<le> nat (pl_workerCount p)"

lemma sized_step: "sized p st \<Longrightarrow> pool_exec p ev st = Some st' \<Longrightarrow> sized p st'"
  by (cases ev) (auto simp: sized_def Run_enter_def main_step_def split: if_splits run_pc.splits option.splits)

lemma sized_trace: "pool_trace p evs idle_pool = Some st \<Longrightarrow> sized p st"
  by (erule pt.trace_invariant [where I = "\<lambda>_. sized p"])
    (simp add: sized_def idle_pool_def, erule sized_step)

lemma drain_left_bound:
  assumes "sized p st"
  shows "drain_left p st \<le> 8 * nat (pl_workerCount p) + 11"
proof -
  have "worker_left w \<le> 8" for w by (cases w) auto
  then have "sum_list (map worker_left ws) \<le> 8 * length ws" for ws
    using sum_list_mono [of ws worker_left "\<lambda>_. 8"] by (simp add: sum_list_triv mult.commute)
  moreover have "heartbeat_left (ps_heartbeat st) \<le> 8" by (cases "ps_heartbeat st") auto
  moreover have "run_left p n r \<le> 3 + 6 * (nat (pl_workerCount p) - n)" for n r by (cases r) auto
  ultimately have "drain_left p st \<le> 3 + 6 * (nat (pl_workerCount p) - length (ps_workers st)) + 8 * length (ps_workers st) + 8"
    unfolding drain_left_def by (intro add_mono) auto
  with assms show ?thesis by (simp add: sized_def)
qed

section \<open>Why the pool stops\<close>

fun worker_ok :: "'w pool \<Rightarrow> pool_event list \<Rightarrow> error \<Rightarrow> nat \<Rightarrow> worker_pc \<Rightarrow> bool" where
  "worker_ok p h fatal i (WReturned err) \<longleftrightarrow> (i, err) \<in> set (outcomes h)"
| "worker_ok p h fatal i (WCounted err) \<longleftrightarrow> (i, err) \<in> set (outcomes h)"
| "worker_ok p h fatal i (WDeciding err) \<longleftrightarrow> (i, err) \<in> set (outcomes h)"
| "worker_ok p h fatal i (WStopping e) \<longleftrightarrow>
     (\<exists>x. (i, Some x) \<in> set (outcomes h) \<and> errors_is x ErrPoolShutdown \<and> e = shutdown_error p i x)"
| "worker_ok p h fatal i WCanceling \<longleftrightarrow> fatal \<noteq> None"
| "worker_ok p h fatal i pc \<longleftrightarrow>
     pc \<in> {WReturning, WLeaving, WExited} \<longrightarrow>
       EvParentCancel \<in> set h \<or> fatal \<noteq> None \<or>
       (\<exists>err. (i, err) \<in> set (outcomes h) \<and> err_is err ErrWorkerShutdown)"

fun holds_result :: "error \<Rightarrow> worker_pc \<Rightarrow> bool" where
  "holds_result err (WReturned e) \<longleftrightarrow> e = err"
| "holds_result err (WCounted e) \<longleftrightarrow> e = err"
| "holds_result err (WDeciding e) \<longleftrightarrow> e = err"
| "holds_result err (WStopping e) \<longleftrightarrow> True"
| "holds_result err _ \<longleftrightarrow> False"

definition pool_inv :: "'w pool \<Rightarrow> pool_event list \<Rightarrow> pool_state \<Rightarrow> bool" where
  "pool_inv p h st \<longleftrightarrow>
     (let fatal = sh_fatalErr (ps_shared st); ws = ps_workers st in
      (\<forall>e. fatal = Some e \<longrightarrow>
         (\<exists>i x. (i, Some x) \<in> set (outcomes h) \<and> errors_is x ErrPoolShutdown \<and> e = shutdown_error p i x)) \<and>
      (\<forall>i<length ws. worker_ok p h fatal i (ws ! i)) \<and>
      (sh_cancelled (ps_shared st) \<longrightarrow>
         EvParentCancel \<in> set h \<or> fatal \<noteq> None \<or> ps_run st \<in> insert MJoining (range MReturned)) \<and>
      (\<forall>(i, err)\<in>set (outcomes h). err_is err ErrPoolShutdown \<longrightarrow>
         fatal \<noteq> None \<or> i < length ws \<and> holds_result err (ws ! i)) \<and>
      (ps_run st = MJoining \<longrightarrow> (\<forall>w\<in>set ws. w = WExited)) \<and>
      (\<forall>r. ps_run st = MReturned r \<longrightarrow> (\<forall>w\<in>set ws. w = WExited) \<and> r = fatal))"

lemma worker_ok_mono:
  assumes "worker_ok p h fatal i pc" and "set h \<subseteq> set h'" "set (outcomes h) \<subseteq> set (outcomes h')"
    and "fatal \<noteq> None \<longrightarrow> fatal' \<noteq> None"
  shows "worker_ok p h' fatal' i pc"
  using assms by (induction p h fatal i pc rule: worker_ok.induct) auto

lemma worker_step_ok:
  assumes "worker_step p i a pc sh = Some (pc', sh')" and "worker_ok p h (sh_fatalErr sh) i pc"
    and "sh_cancelled sh \<and> pc \<noteq> WExited \<longrightarrow> EvParentCancel \<in> set h \<or> sh_fatalErr sh \<noteq> None"
  shows "worker_ok p (h @ [EvWorker i a]) (sh_fatalErr sh') i pc'"
  using assms
  by (induction p i a pc sh rule: worker_step.induct)
    (auto simp: runOnce_def decide_def outcome_def err_is_def split: if_splits proc_result.splits option.splits)

lemma worker_step_fatal:
  assumes "worker_step p i a pc sh = Some (pc', sh')"
  shows "sh_fatalErr sh \<noteq> None \<longrightarrow> sh_fatalErr sh' = sh_fatalErr sh"
    and "sh_fatalErr sh = None \<Longrightarrow> sh_fatalErr sh' = Some e \<Longrightarrow> pc = WStopping e"
    and "holds_result err pc \<Longrightarrow> err_is err ErrPoolShutdown \<Longrightarrow> sh_fatalErr sh' \<noteq> None \<or> holds_result err pc'"
    and "sh_cancelled sh' \<Longrightarrow> \<not> sh_cancelled sh \<Longrightarrow> pc = WCanceling"
    and "pc \<noteq> WExited"
  using assms
  by (induction p i a pc sh rule: worker_step.induct)
    (auto simp: runOnce_def decide_def split: if_splits proc_result.splits)

lemma worker_step_returns:
  assumes "worker_step p i (WorkReturns r) pc sh = Some (pc', sh')"
  shows "pc' = WReturned (outcome r)"
  using assms by (cases pc) (auto simp: runOnce_def outcome_def split: proc_result.splits)

lemma nth_upd: "i < length xs \<Longrightarrow> xs[i := y] ! j = (if j = i then y else xs ! j)"
  by (auto simp: nth_list_update)

lemma worker_ok_upd:
  assumes "i < length ws" and "\<forall>j<length ws. worker_ok p h fatal j (ws ! j)" and "worker_ok p h' fatal' i pc"
    and "set h \<subseteq> set h'" "set (outcomes h) \<subseteq> set (outcomes h')" "fatal \<noteq> None \<longrightarrow> fatal' \<noteq> None"
  shows "\<forall>j<length (ws[i := pc]). worker_ok p h' fatal' j (ws[i := pc] ! j)"
  using assms(1-3) by (auto simp: nth_upd intro: worker_ok_mono [OF _ assms(4-6)])

lemma pool_inv_worker:
  assumes inv: "pool_inv p h st" and i: "i < length (ps_workers st)"
    and step: "worker_step p i a (ps_workers st ! i) (ps_shared st) = Some (pc, sh)"
  shows "pool_inv p (h @ [EvWorker i a]) (st\<lparr>ps_workers := (ps_workers st)[i := pc], ps_shared := sh\<rparr>)"
proof -
  let ?h = "h @ [EvWorker i a]" and ?ws = "ps_workers st" and ?fatal = "sh_fatalErr (ps_shared st)"
  note fatal = worker_step_fatal [OF step]
  have live: "\<not> (\<forall>w\<in>set ?ws. w = WExited)" using fatal(5) i nth_mem by blast
  have ok: "\<forall>j<length ?ws. worker_ok p h ?fatal j (?ws ! j)" using inv by (simp add: pool_inv_def Let_def)
  have cause: "sh_cancelled (ps_shared st) \<longrightarrow> EvParentCancel \<in> set h \<or> ?fatal \<noteq> None"
    using inv live by (auto simp: pool_inv_def Let_def)
  have keep: "?fatal \<noteq> None \<longrightarrow> sh_fatalErr sh \<noteq> None" using fatal(1) by auto
  have ok': "worker_ok p ?h (sh_fatalErr sh) i pc"
    using worker_step_ok [OF step] ok i cause by blast
  have 1: "\<exists>j x. (j, Some x) \<in> set (outcomes ?h) \<and> errors_is x ErrPoolShutdown \<and> e = shutdown_error p j x"
    if "sh_fatalErr sh = Some e" for e
  proof (cases ?fatal)
    case None
    with fatal(2) that have "?ws ! i = WStopping e" by blast
    moreover from ok i have "worker_ok p h ?fatal i (?ws ! i)" by blast
    ultimately obtain x where "(i, Some x) \<in> set (outcomes h)" "errors_is x ErrPoolShutdown"
      "e = shutdown_error p i x" by auto
    then show ?thesis by (intro exI [of _ i] exI [of _ x]) simp
  next
    case (Some e')
    with fatal(1) that inv show ?thesis by (auto simp: pool_inv_def Let_def)
  qed
  have 2: "\<forall>j<length (?ws[i := pc]). worker_ok p ?h (sh_fatalErr sh) j (?ws[i := pc] ! j)"
    by (rule worker_ok_upd [OF i ok ok']) (use keep in auto)
  have 3: "EvParentCancel \<in> set ?h \<or> sh_fatalErr sh \<noteq> None" if "sh_cancelled sh"
  proof (cases "sh_cancelled (ps_shared st)")
    case False
    with fatal(4) that have "?ws ! i = WCanceling" by blast
    with ok i keep show ?thesis by (auto dest!: spec [of _ i])
  qed (use cause keep in auto)
  have 4: "sh_fatalErr sh \<noteq> None \<or> j < length (?ws[i := pc]) \<and> holds_result err (?ws[i := pc] ! j)"
    if mem: "(j, err) \<in> set (outcomes ?h)" and shut: "err_is err ErrPoolShutdown" for j err
  proof (cases "(j, err) \<in> set (outcomes h)")
    case True
    with inv shut have "?fatal \<noteq> None \<or> j < length ?ws \<and> holds_result err (?ws ! j)"
      by (fastforce simp: pool_inv_def Let_def)
    with keep fatal(3) [OF _ shut] i show ?thesis by (auto simp: nth_upd)
  next
    case False
    with mem obtain r where "a = WorkReturns r" "j = i" "err = outcome r"
      by (cases a) auto
    with worker_step_returns [of p i r "?ws ! i" "ps_shared st" pc sh] step i show ?thesis by simp
  qed
  show ?thesis
    using inv live 1 2 3 4 by (auto simp: pool_inv_def Let_def)
qed

lemma pool_inv_step:
  assumes inv: "pool_inv p h st" and "pool_exec p ev st = Some st'"
  shows "pool_inv p (h @ [ev]) st'"
proof -
  have mono: "\<forall>j<length ws. worker_ok p (h @ [ev]) fatal j (ws ! j)"
    if "\<forall>j<length ws. worker_ok p h fatal j (ws ! j)" for ws fatal
    using that by (auto intro: worker_ok_mono)
  show ?thesis
  proof (cases ev)
    case (EvWorker i a)
    from assms(2) show ?thesis unfolding EvWorker
      by (rule pool_exec_worker) (simp add: pool_inv_worker [OF inv])
  next
    case (EvHeartbeat a)
    from assms(2) show ?thesis unfolding EvHeartbeat
      by (rule pool_exec_heartbeat) (use inv mono in \<open>simp add: pool_inv_def Let_def EvHeartbeat\<close>)
  next
    case EvMain
    with assms(2) have step: "main_step p st = Some st'" by simp
    show ?thesis
    proof (cases "ps_run st")
      case MSpawning
      show ?thesis
      proof (cases "int (length (ps_workers st)) < pl_workerCount p")
        case True
        with step MSpawning have st': "st' = st\<lparr>ps_workers := ps_workers st @ [WSpawned]\<rparr>"
          by (simp add: main_step_def)
        have "\<forall>j<length (ps_workers st @ [WSpawned]).
            worker_ok p h (sh_fatalErr (ps_shared st)) j ((ps_workers st @ [WSpawned]) ! j)"
          using inv by (auto simp: pool_inv_def Let_def nth_append less_Suc_eq)
        from mono [OF this] inv MSpawning show ?thesis
          by (simp add: pool_inv_def Let_def EvMain st' nth_append) fastforce
      next
        case False
        with step MSpawning have "st' = st\<lparr>ps_run := MWaiting\<rparr>" by (simp add: main_step_def)
        with mono [of "ps_workers st"] inv MSpawning show ?thesis
          by (auto simp: pool_inv_def Let_def EvMain)
      qed
    next
      case MWaiting
      with step have "\<forall>w\<in>set (ps_workers st). w = WExited"
        "st' = st\<lparr>ps_run := MJoining, ps_shared := (ps_shared st)\<lparr>sh_cancelled := True\<rparr>\<rparr>"
        by (simp_all add: main_step_def split: if_splits)
      with inv MWaiting mono [of "ps_workers st" "sh_fatalErr (ps_shared st)"] show ?thesis
        by (simp add: pool_inv_def Let_def EvMain)
    next
      case MJoining
      with step have "st' = st\<lparr>ps_run := MReturned (sh_fatalErr (ps_shared st))\<rparr>"
        by (simp add: main_step_def split: if_splits)
      with inv MJoining mono [of "ps_workers st" "sh_fatalErr (ps_shared st)"] show ?thesis
        by (simp add: pool_inv_def Let_def EvMain)
    qed (use step in \<open>simp_all add: main_step_def\<close>)
  next
    case EvRun
    with assms(2) have "st' = snd (Run_enter p st)" by simp
    then show ?thesis
      using inv mono [of "ps_workers st" "sh_fatalErr (ps_shared st)"] EvRun
      by (cases "ps_run st = MNotRun") (auto simp: pool_inv_def Let_def Run_enter_def)
  next
    case EvParentCancel
    with assms(2) have "st' = st\<lparr>ps_shared := (ps_shared st)\<lparr>sh_cancelled := True\<rparr>\<rparr>" by auto
    with inv mono [of "ps_workers st" "sh_fatalErr (ps_shared st)"] EvParentCancel show ?thesis
      by (simp add: pool_inv_def Let_def)
  next
    case EvWakeSend
    with assms(2) have "st' = st\<lparr>ps_shared := (ps_shared st)\<lparr>sh_wake := True\<rparr>\<rparr>" by auto
    with inv mono [of "ps_workers st" "sh_fatalErr (ps_shared st)"] EvWakeSend show ?thesis
      by (simp add: pool_inv_def Let_def)
  qed
qed

lemma pool_inv_trace: "pool_trace p evs idle_pool = Some st \<Longrightarrow> pool_inv p evs st"
  by (erule pt.trace_invariant [where I = "pool_inv p"])
    (simp add: pool_inv_def idle_pool_def, erule pool_inv_step)

section \<open>Heartbeats\<close>

definition counted_le :: "stats \<Rightarrow> stats \<Rightarrow> bool" where
  "counted_le a b \<longleftrightarrow> st_iterations a \<le> st_iterations b \<and> st_successes a \<le> st_successes b \<and>
     st_errors a \<le> st_errors b"

definition beats_total :: "beat list \<Rightarrow> stats \<Rightarrow> bool" where
  "beats_total bs s \<longleftrightarrow> sum_list (map b_iterations bs) = st_iterations s \<and>
     sum_list (map b_successes bs) = st_successes s \<and> sum_list (map b_errors bs) = st_errors s"

text \<open>The counters loaded so far lie between the previous snapshot and the present counters.\<close>

definition loaded :: "nat \<Rightarrow> stats \<Rightarrow> stats \<Rightarrow> stats \<Rightarrow> bool" where
  "loaded k prev cur s \<longleftrightarrow> k \<le> 5 \<and>
     (1 < k \<longrightarrow> st_iterations prev \<le> st_iterations cur \<and> st_iterations cur \<le> st_iterations s) \<and>
     (2 < k \<longrightarrow> st_errors prev \<le> st_errors cur \<and> st_errors cur \<le> st_errors s) \<and>
     (4 < k \<longrightarrow> st_successes prev \<le> st_successes cur \<and> st_successes cur \<le> st_successes s)"

fun heartbeat_ok :: "beat list \<Rightarrow> stats \<Rightarrow> heartbeat_pc \<Rightarrow> bool" where
  "heartbeat_ok bs s (HSelect prev) \<longleftrightarrow> beats_total bs prev \<and> counted_le prev s"
| "heartbeat_ok bs s (HChecking prev) \<longleftrightarrow> beats_total bs prev \<and> counted_le prev s"
| "heartbeat_ok bs s (HLoading k prev cur) \<longleftrightarrow>
     beats_total bs prev \<and> counted_le prev s \<and> loaded k prev cur s"
| "heartbeat_ok bs s _ \<longleftrightarrow> (\<exists>prev. beats_total bs prev \<and> counted_le prev s)"

definition heartbeat_inv :: "pool_state \<Rightarrow> bool" where
  "heartbeat_inv st \<longleftrightarrow>
     (\<forall>b\<in>set (ps_beats st). 0 \<le> b_iterations b \<and> 0 \<le> b_successes b \<and> 0 \<le> b_errors b) \<and>
     (ps_run st = MNotRun \<longrightarrow> ps_beats st = [] \<and> Pool_Stats st = zero_stats \<and> ps_workers st = [] \<and> ps_heartbeat st = HOff) \<and>
     heartbeat_ok (ps_beats st) (Pool_Stats st) (ps_heartbeat st)"

lemma heartbeat_ok_mono: "heartbeat_ok bs s pc \<Longrightarrow> counted_le s s' \<Longrightarrow> heartbeat_ok bs s' pc"
  by (cases pc) (auto simp: counted_le_def loaded_def intro: order_trans)

lemma worker_step_counted:
  "worker_step p i a pc sh = Some (pc', sh') \<Longrightarrow> counted_le (sh_stats sh) (sh_stats sh')"
  by (induction p i a pc sh rule: worker_step.induct)
    (auto simp: counted_le_def runOnce_def tally_def split: if_splits proc_result.splits)

lemma loaded_load:
  assumes "loaded k prev cur s" and "k < 5" and "counted_le prev s"
  shows "loaded (Suc k) prev (load_counter k s cur) s"
proof -
  from assms(2) consider "k = 0" | "k = Suc 0" | "k = Suc (Suc 0)" | "k = Suc (Suc (Suc 0))"
    | "k = Suc (Suc (Suc (Suc 0)))" by linarith
  then show ?thesis using assms by cases (auto simp: loaded_def counted_le_def)
qed

lemma heartbeat_step_ok:
  assumes "heartbeat_step a pc sh = Some (pc', bs')" and "heartbeat_ok bs (sh_stats sh) pc"
  shows "heartbeat_ok (bs @ bs') (sh_stats sh) pc' \<and>
    (\<forall>b\<in>set bs'. 0 \<le> b_iterations b \<and> 0 \<le> b_successes b \<and> 0 \<le> b_errors b)"
  using assms
proof (induction a pc sh rule: heartbeat_step.induct)
  case (4 k prev cur sh)
  show ?case
  proof (cases "k < 5")
    case True
    with 4 show ?thesis by (auto simp: loaded_load)
  next
    case False
    with 4 have "k = 5" by (auto simp: loaded_def)
    with 4 False show ?thesis by (auto simp: beat_of_def loaded_def beats_total_def counted_le_def)
  qed
qed (auto simp: loaded_def split: if_splits)

lemma counted_le_refl [simp]: "counted_le s s"
  by (simp add: counted_le_def)

lemma beats_total_Nil [simp]: "beats_total [] zero_stats"
  by (simp add: beats_total_def zero_stats_def)

lemma heartbeat_inv_step:
  assumes inv: "heartbeat_inv st" and "pool_exec p ev st = Some st'"
  shows "heartbeat_inv st'"
proof (cases ev)
  case (EvWorker i a)
  from assms(2) show ?thesis unfolding EvWorker
  proof (rule pool_exec_worker)
    fix pc sh
    assume i: "i < length (ps_workers st)"
      and step: "worker_step p i a (ps_workers st ! i) (ps_shared st) = Some (pc, sh)"
      and st': "st' = st\<lparr>ps_workers := (ps_workers st)[i := pc], ps_shared := sh\<rparr>"
    from inv worker_step_counted [OF step] i show ?thesis
      by (auto simp: heartbeat_inv_def st' Pool_Stats_def intro: heartbeat_ok_mono)
  qed
next
  case (EvHeartbeat a)
  from assms(2) show ?thesis unfolding EvHeartbeat
  proof (rule pool_exec_heartbeat)
    fix pc bs
    assume step: "heartbeat_step a (ps_heartbeat st) (ps_shared st) = Some (pc, bs)"
      and st': "st' = st\<lparr>ps_heartbeat := pc, ps_beats := ps_beats st @ bs\<rparr>"
    with heartbeat_step_ok [OF step, of "ps_beats st"] inv show ?thesis
      by (auto simp: heartbeat_inv_def Pool_Stats_def)
  qed
next
  case EvRun
  with assms show ?thesis
    by (auto simp: heartbeat_inv_def Run_enter_def Pool_Stats_def split: if_splits)
next
  case EvMain
  with assms show ?thesis
    by (auto simp: heartbeat_inv_def main_step_def Pool_Stats_def split: if_splits run_pc.splits)
qed (use assms in \<open>auto simp: heartbeat_inv_def Pool_Stats_def\<close>)

lemma heartbeat_inv_trace: "pool_trace p evs idle_pool = Some st \<Longrightarrow> heartbeat_inv st"
proof (erule pt.trace_invariant [where I = "\<lambda>_. heartbeat_inv"])
  show "heartbeat_inv idle_pool"
    by (auto simp: heartbeat_inv_def idle_pool_def Pool_Stats_def intro!: exI [of _ zero_stats])
qed (erule heartbeat_inv_step)

lemma pool_fatal_kept:
  assumes "pool_trace p evs st = Some st'" and "sh_fatalErr (ps_shared st) = Some e"
  shows "sh_fatalErr (ps_shared st') = Some e"
  using assms(1)
proof (rule pt.trace_stable [where I = "\<lambda>st. sh_fatalErr (ps_shared st) = Some e"])
  fix ev and s s' :: pool_state
  assume fatal: "sh_fatalErr (ps_shared s) = Some e" and exec: "pool_exec p ev s = Some s'"
  show "sh_fatalErr (ps_shared s') = Some e"
  proof (cases ev)
    case (EvWorker i a)
    from exec show ?thesis unfolding EvWorker
      by (rule pool_exec_worker) (use fatal worker_step_fatal(1) in fastforce)
  next
    case (EvHeartbeat a)
    from exec show ?thesis unfolding EvHeartbeat by (rule pool_exec_heartbeat) (simp add: fatal)
  qed (use exec fatal in \<open>auto simp: Run_enter_def main_step_def split: if_splits run_pc.splits\<close>)
qed (fact assms(2))

section \<open>Properties of the pool\<close>

text \<open>A pool of two workers with a heartbeat, and a run of it, for the witnesses.\<close>

definition demo_pool :: "unit pool" where
  "demo_pool = projr (NewPool () [Some (WithWorkerCount 2), Some (WithHeartbeat Second)])"

fun iterate :: "nat \<Rightarrow> proc_result \<Rightarrow> pool_event list" where
  "iterate i r = [EvWorker i TimerFires, EvWorker i Proceed, EvWorker i (WorkReturns r), EvWorker i Proceed,
     EvWorker i Proceed, EvWorker i Proceed]"

definition demo_start :: "pool_event list" where
  "demo_start = [EvRun, EvMain, EvMain, EvMain, EvWorker 0 Proceed, EvWorker 1 Proceed]"

definition demo_beat :: "pool_event list" where
  "demo_beat = [EvHeartbeat HTick, EvHeartbeat HProceed, EvHeartbeat HProceed, EvHeartbeat HProceed,
     EvHeartbeat HProceed, EvHeartbeat HProceed, EvHeartbeat HProceed, EvHeartbeat HProceed]"

definition demo_fatal :: "pool_event list" where
  "demo_fatal = demo_start @ iterate 0 (Returned None) @ iterate 1 (Returned (Some ErrNoWork)) @ demo_beat @
     iterate 1 (Panicked ''boom'') @ iterate 0 (Returned (Some ErrPoolShutdown)) @
     [EvWorker 0 Proceed, EvWorker 0 Proceed, EvWorker 0 Proceed, EvWorker 0 Proceed]"

definition returned :: "pool_state \<Rightarrow> bool" where
  "returned st = (case ps_run st of MReturned r \<Rightarrow> True | _ \<Rightarrow> False)"

definition demo_drain :: "pool_event list" where
  "demo_drain = [EvWorker 1 SeeDone, EvWorker 1 Proceed, EvWorker 1 Proceed, EvMain, EvHeartbeat HSeeDone, EvMain]"

text \<open>
  The counters are exact.  When \<open>Run\<close> has returned, whatever the interleaving of the
  workers: \<open>Iterations\<close> is the number of times the work function returned or panicked, the success
  counter the number of nil results, \<open>Errors\<close> the number of results that are neither nil nor
  \<open>ErrNoWork\<close> (recovered panics included), \<open>Panics\<close> the number of panics, and no worker is active.
\<close>

theorem pool_stats_exact:
  assumes "pool_trace p evs idle_pool = Some st" and "ps_run st = MReturned r"
  shows "Pool_Stats st =
    \<lparr>st_activeWorkers = 0, st_iterations = results_where (\<lambda>_. True) evs, st_errors = results_where failed evs,
     st_panics = panics_in evs, st_successes = results_where (\<lambda>e. e = None) evs\<rparr>"
proof -
  have "\<forall>w\<in>set (ps_workers st). w = WExited"
    using pool_inv_trace [OF assms(1)] assms(2) by (simp add: pool_inv_def Let_def)
  then have "sum_list (map f (ps_workers st)) = 0" if "f WExited = 0" for f :: "worker_pc \<Rightarrow> int"
    using that by (intro sum_list_0_when) auto
  with pool_counts_trace [OF assms(1)] show ?thesis
    by (simp add: pool_counts_def Let_def)
qed

theorem pool_stats_exact_witness:
  "Pool_Stats (the (pool_trace demo_pool (demo_fatal @ demo_drain) idle_pool)) =
    \<lparr>st_activeWorkers = 0, st_iterations = 4, st_errors = 2, st_panics = 1, st_successes = 1\<rparr>"
proof -
  let ?evs = "demo_fatal @ demo_drain"
  have "case pool_trace demo_pool ?evs idle_pool of None \<Rightarrow> False | Some st \<Rightarrow> returned st"
    by code_simp
  then obtain st r where st: "pool_trace demo_pool ?evs idle_pool = Some st" "ps_run st = MReturned r"
    by (auto simp: returned_def split: option.splits run_pc.splits)
  have "results_where (\<lambda>_. True) ?evs = 4" "results_where failed ?evs = 2" "panics_in ?evs = 1"
    "results_where (\<lambda>e. e = None) ?evs = 1" by code_simp+
  with pool_stats_exact [OF st] st(1) show ?thesis by simp
qed

text \<open>
  Property C33.  What \<open>Run\<close> returns.  It returns only after every worker has exited.  It returns nil
  exactly when no iteration reported a pool shutdown; otherwise it returns the first shutdown that
  was recorded, which names the worker and wraps the very error that worker's iteration returned.
\<close>

theorem pool_Run_result:
  assumes "pool_trace p evs idle_pool = Some st" and "ps_run st = MReturned r"
  shows "(\<forall>w\<in>set (ps_workers st). w = WExited) \<and>
    (r = None \<longleftrightarrow> (\<forall>(i, err)\<in>set (outcomes evs). \<not> err_is err ErrPoolShutdown)) \<and>
    (\<forall>e. r = Some e \<longrightarrow> (\<exists>i x. (i, Some x) \<in> set (outcomes evs) \<and> errors_is x ErrPoolShutdown \<and>
       e = shutdown_error p i x)) \<and>
    (\<forall>evs1 evs2 st1 e. evs = evs1 @ evs2 \<and> pool_trace p evs1 idle_pool = Some st1 \<and>
       sh_fatalErr (ps_shared st1) = Some e \<longrightarrow> r = Some e)"
proof -
  note inv = pool_inv_trace [OF assms(1), unfolded pool_inv_def Let_def]
  from inv assms(2) have exited: "\<forall>w\<in>set (ps_workers st). w = WExited"
    and r: "r = sh_fatalErr (ps_shared st)" by auto
  have no: "\<not> holds_result err (ps_workers st ! i)" if "i < length (ps_workers st)" for i err
    using exited that by (metis holds_result.simps(12) nth_mem)
  have first: "r = Some e" if "evs = evs1 @ evs2" "pool_trace p evs1 idle_pool = Some st1"
    "sh_fatalErr (ps_shared st1) = Some e" for evs1 evs2 st1 e
    using that assms(1) pool_fatal_kept [of p evs2 st1 st e]
    by (simp add: r pt.trace_append)
  have some: "r \<noteq> None" if "(i, err) \<in> set (outcomes evs)" "err_is err ErrPoolShutdown" for i err
    using inv that no r by fastforce
  have origin: "\<exists>i x. (i, Some x) \<in> set (outcomes evs) \<and> errors_is x ErrPoolShutdown \<and> e = shutdown_error p i x"
    if "r = Some e" for e using inv that r by simp
  have "r = None \<longleftrightarrow> (\<forall>(i, err)\<in>set (outcomes evs). \<not> err_is err ErrPoolShutdown)"
  proof (cases r)
    case None
    with some show ?thesis by auto
  next
    case (Some e)
    from origin [OF this] obtain i x where "(i, Some x) \<in> set (outcomes evs)" "errors_is x ErrPoolShutdown" by blast
    with Some show ?thesis by (auto simp: err_is_def intro!: bexI [of _ "(i, Some x)"])
  qed
  with exited first origin show ?thesis by blast
qed

theorem pool_Run_result_witness:
  "case pool_trace demo_pool (demo_fatal @ demo_drain) idle_pool of
     None \<Rightarrow> False
   | Some st \<Rightarrow> ps_run st = MReturned (Some (shutdown_error demo_pool 0 ErrPoolShutdown))"
proof -
  let ?evs = "demo_fatal @ demo_drain"
  have "case pool_trace demo_pool ?evs idle_pool of None \<Rightarrow> False | Some st \<Rightarrow> returned st"
    by code_simp
  then obtain st r where st: "pool_trace demo_pool ?evs idle_pool = Some st" "ps_run st = MReturned r"
    by (auto simp: returned_def split: option.splits run_pc.splits)
  have out: "outcomes ?evs = [(0, None), (1, Some ErrNoWork),
      (1, Some (ForeignError ''workers: panic recovered: boom'')), (0, Some ErrPoolShutdown)]"
    by code_simp
  from pool_Run_result [OF st, unfolded out] have "r = Some (shutdown_error demo_pool 0 ErrPoolShutdown)"
    by (cases r) (auto simp: err_is_def)
  with st show ?thesis by simp
qed

text \<open>
  Property C32.  Shutdown drains.  From the moment the run context of a started pool is cancelled, the
  goroutines of the pool take together at most \<open>8 n + 11\<close> further actions for \<open>n\<close> workers, in
  whatever order they are scheduled and whatever their iterations return; no iteration starts any
  more (the workers inside the work function are workers that were inside it at the cancellation);
  and a pool in which no action is left is a pool whose \<open>Run\<close> has returned.
\<close>

theorem pool_drains:
  assumes "pool_trace p hist idle_pool = Some st" and "draining st" and "pool_trace p evs st = Some st'"
  shows "length (filter internal evs) \<le> 8 * nat (pl_workerCount p) + 11 \<and>
    running st' \<subseteq> running st \<and>
    ((\<forall>ev. internal ev \<longrightarrow> pool_exec p ev st' = None) \<longrightarrow> (\<exists>r. ps_run st' = MReturned r))"
proof -
  have "(draining st' \<and> running st' \<subseteq> running st) \<and>
    drain_left p st' + sum_list (map (\<lambda>ev. of_bool (internal ev)) evs) \<le> drain_left p st"
    by (rule pt.trace_bounded [OF assms(3), where I = "\<lambda>s. draining s \<and> running s \<subseteq> running st"])
      (simp add: assms(2), erule drain_keeps)
  moreover have "sum_list (map (\<lambda>ev. of_bool (internal ev)) evs) = length (filter internal evs)"
    by (induction evs) auto
  ultimately show ?thesis
    using drain_left_bound [OF sized_trace [OF assms(1)]] drain_progress [of st' p] by fastforce
qed

theorem pool_drains_witness:
  "8 * nat (pl_workerCount demo_pool) + 11 = 27 \<and> length (filter internal demo_drain) \<le> 27"
proof -
  have "case pool_trace demo_pool demo_fatal idle_pool of None \<Rightarrow> False | Some st \<Rightarrow>
      draining st \<and> pool_trace demo_pool demo_drain st \<noteq> None"
    by code_simp
  then obtain st st' where "pool_trace demo_pool demo_fatal idle_pool = Some st" "draining st"
    "pool_trace demo_pool demo_drain st = Some st'"
    by (auto split: option.splits)
  from pool_drains [OF this] have "length (filter internal demo_drain) \<le> 8 * nat (pl_workerCount demo_pool) + 11"
    by blast
  moreover have "nat (pl_workerCount demo_pool) = 2" by code_simp
  ultimately show ?thesis by simp
qed

text \<open>
  A worker leaves only for a reason.  A worker that has exited asked for its own
  shutdown, or some worker's iteration reported a pool shutdown, or the caller cancelled \<open>Run\<close>'s
  context: one worker's \<open>ErrWorkerShutdown\<close>, error or panic never stops another worker.
\<close>

theorem pool_worker_exit:
  assumes "pool_trace p evs idle_pool = Some st" and "i < length (ps_workers st)"
    and "ps_workers st ! i = WExited" and "EvParentCancel \<notin> set evs"
  shows "(\<exists>err. (i, err) \<in> set (outcomes evs) \<and> err_is err ErrWorkerShutdown) \<or>
    (\<exists>j err. (j, err) \<in> set (outcomes evs) \<and> err_is err ErrPoolShutdown)"
proof -
  note inv = pool_inv_trace [OF assms(1), unfolded pool_inv_def Let_def]
  from inv assms(2,3) have "worker_ok p evs (sh_fatalErr (ps_shared st)) i WExited" by metis
  with assms(4) have "sh_fatalErr (ps_shared st) \<noteq> None \<or>
      (\<exists>err. (i, err) \<in> set (outcomes evs) \<and> err_is err ErrWorkerShutdown)" by simp
  moreover have "\<exists>j err. (j, err) \<in> set (outcomes evs) \<and> err_is err ErrPoolShutdown"
    if "sh_fatalErr (ps_shared st) = Some e" for e
    using inv that by (fastforce simp: err_is_def)
  ultimately show ?thesis by blast
qed

definition demo_quit :: "pool_event list" where
  "demo_quit = demo_start @ iterate 1 (Returned (Some ErrWorkerShutdown)) @
     [EvWorker 1 Proceed, EvWorker 1 Proceed]"

theorem pool_worker_exit_witness:
  "\<exists>err. (1, err) \<in> set (outcomes demo_quit) \<and> err_is err ErrWorkerShutdown"
proof -
  have "case pool_trace demo_pool demo_quit idle_pool of None \<Rightarrow> False | Some st \<Rightarrow>
      1 < length (ps_workers st) \<and> ps_workers st ! 1 = WExited"
    by code_simp
  then obtain st where "pool_trace demo_pool demo_quit idle_pool = Some st" "1 < length (ps_workers st)"
    "ps_workers st ! 1 = WExited"
    by (auto split: option.splits)
  note exit = pool_worker_exit [OF this]
  have "EvParentCancel \<notin> set demo_quit" by code_simp
  moreover have "outcomes demo_quit = [(1, Some ErrWorkerShutdown)]" by code_simp
  ultimately show ?thesis using exit by (auto simp: err_is_def)
qed

text \<open>
  Heartbeats never lie downwards or upwards.  Although a beat reads the five counters at
  five different moments while workers keep counting, no beat reports a negative number, and the
  beats together never report more iterations, successes or errors than the counters show.
\<close>

theorem pool_heartbeat_deltas:
  assumes "pool_trace p evs idle_pool = Some st"
  shows "(\<forall>b\<in>set (ps_beats st). 0 \<le> b_iterations b \<and> 0 \<le> b_successes b \<and> 0 \<le> b_errors b) \<and>
    sum_list (map b_iterations (ps_beats st)) \<le> st_iterations (Pool_Stats st) \<and>
    sum_list (map b_successes (ps_beats st)) \<le> st_successes (Pool_Stats st) \<and>
    sum_list (map b_errors (ps_beats st)) \<le> st_errors (Pool_Stats st)"
proof -
  have inv: "heartbeat_inv st" by (rule heartbeat_inv_trace [OF assms])
  then obtain prev where "beats_total (ps_beats st) prev" "counted_le prev (Pool_Stats st)"
    unfolding heartbeat_inv_def by (cases "ps_heartbeat st") auto
  with inv show ?thesis by (simp add: heartbeat_inv_def beats_total_def counted_le_def)
qed

theorem pool_heartbeat_deltas_witness:
  "case pool_trace demo_pool demo_fatal idle_pool of None \<Rightarrow> False
   | Some st \<Rightarrow> length (ps_beats st) = 1 \<and> sum_list (map b_iterations (ps_beats st)) \<le> st_iterations (Pool_Stats st)"
proof -
  have "case pool_trace demo_pool demo_fatal idle_pool of None \<Rightarrow> False | Some st \<Rightarrow> length (ps_beats st) = 1"
    by code_simp
  then obtain st where "pool_trace demo_pool demo_fatal idle_pool = Some st" "length (ps_beats st) = 1"
    by (auto split: option.splits)
  with pool_heartbeat_deltas [OF this(1)] show ?thesis by simp
qed

end
