(* ===== verification/Rate_Limiter.thy ===== *)
theory Rate_Limiter
  imports Prelude
begin

text \<open>
  Keyed admission control (\<open>src/sdk/capabilities/ratelimiter\<close>): the limits and their validation
  (\<open>ratelimiter.go\<close>), the in-process two-window limiter (\<open>memory.go\<close>) and the blocking wait
  (\<open>acquire.go\<close>).  Instants inside the limiter are Unix milliseconds in an \<open>int64\<close>.  Every
  arithmetic expression of \<open>Allow\<close> is written with the function \<open>wr\<close> that reduces a result to its
  machine range; the code is the instance \<open>wr = int64\<close>, and \<open>wr = id\<close> is the same computation
  over unbounded integers.  Context errors and clock readings are arguments.
\<close>

section \<open>Limits\<close>

record limit =
  l_Requests :: int
  l_Window :: duration
  l_Burst :: int

record rate_result =
  r_Allowed :: bool
  r_Remaining :: int
  r_ResetAt :: time
  r_RetryAfter :: duration

definition MaxCeiling :: int where
  "MaxCeiling = 2 ^ 31 - 1"

definition MaxWindow :: duration where
  "MaxWindow = (2 ^ 63 - 1) div Millisecond * Millisecond"

definition maxWindowProduct :: int where
  "maxWindowProduct = 2 ^ 52 - 1"

definition errCeiling :: go_error where
  "errCeiling = Wrapped (''ratelimiter: positive requests and nonnegative burst must total at most 2147483647: invalid input'') ErrInvalidInput"

definition errWindow :: go_error where
  "errWindow = Wrapped (''ratelimiter: window must be positive and at most 2562047h47m16.854s: invalid input'') ErrInvalidInput"

definition errProduct :: go_error where
  "errProduct = Wrapped (''ratelimiter: ceiling times window milliseconds exceeds exact arithmetic range: invalid input'') ErrInvalidInput"

definition Normalize :: "limit \<Rightarrow> limit res" where
  "Normalize l =
     (if l_Requests l \<le> 0 \<or> l_Burst l < 0 \<or> MaxCeiling < l_Burst l \<or> MaxCeiling - l_Burst l < l_Requests l
      then Inl errCeiling
      else if l_Window l \<le> 0 \<or> MaxWindow < l_Window l then Inl errWindow
      else
        let millis = go_div (l_Window l) Millisecond +
              (if l_Window l mod Millisecond \<noteq> 0 then 1 else 0)
        in if go_div maxWindowProduct millis < l_Requests l + l_Burst l then Inl errProduct
           else Inr (l\<lparr>l_Window := int64 (millis * Millisecond)\<rparr>))"

definition PerSecond :: "int \<Rightarrow> limit" where
  "PerSecond n = \<lparr>l_Requests = n, l_Window = Second, l_Burst = 0\<rparr>"

definition PerMinute :: "int \<Rightarrow> limit" where
  "PerMinute n = \<lparr>l_Requests = n, l_Window = Minute, l_Burst = 0\<rparr>"

definition PerHour :: "int \<Rightarrow> limit" where
  "PerHour n = \<lparr>l_Requests = n, l_Window = 60 * Minute, l_Burst = 0\<rparr>"

definition WithBurst :: "int \<Rightarrow> limit \<Rightarrow> limit" where
  "WithBurst n l = l\<lparr>l_Burst := n\<rparr>"

definition errKeyEmpty :: go_error where
  "errKeyEmpty = Wrapped ''ratelimiter: key must not be empty: invalid input'' ErrInvalidInput"

definition checkKey :: "error \<Rightarrow> string \<Rightarrow> error" where
  "checkKey ctxErr key =
     (case ctxErr of Some e \<Rightarrow> Some e | None \<Rightarrow> if key = [] then Some errKeyEmpty else None)"

definition ErrCapacity :: go_error where
  "ErrCapacity = Wrapped ''ratelimiter: active key capacity reached: unavailable'' ErrUnavailable"

definition errWindowChange :: go_error where
  "errWindowChange = Wrapped ''ratelimiter: a live key's window cannot change: invalid input'' ErrInvalidInput"

section \<open>The in-process limiter\<close>

record window =
  w_start :: int
  w_count :: int
  w_previous :: int
  w_millis :: int
  w_updated :: int

record rate_memory =
  rm_windows :: "(string, window) go_map"
  rm_maxEntries :: int

text \<open>The options are the successive \<open>WithMaxEntries\<close> values; the last one counts.\<close>

definition rate_NewMemory :: "int option list \<Rightarrow> string + rate_memory" where
  "rate_NewMemory opts =
     (if None \<in> set opts then Inl ''ratelimiter.NewMemory: nil option''
      else
        let n = (if opts = [] then 0 else the (last opts))
        in Inr \<lparr>rm_windows = [], rm_maxEntries = (if n \<le> 0 then 10000 else n)\<rparr>)"

definition expires :: "(int \<Rightarrow> int) \<Rightarrow> window \<Rightarrow> int" where
  "expires wr w = wr (w_start w + wr (2 * w_millis w))"

definition roll :: "(int \<Rightarrow> int) \<Rightarrow> int \<Rightarrow> window \<Rightarrow> window" where
  "roll wr now w =
     (let elapsed = wr (now - w_start w) in
      if elapsed \<ge> w_millis w then
        let buckets = go_div elapsed (w_millis w)
        in w\<lparr>w_previous := (if buckets = 1 then w_count w else 0), w_count := 0,
             w_start := wr (w_start w + wr (buckets * w_millis w))\<rparr>
      else w)"

text \<open>\<open>time.UnixMilli\<close>: the epoch of 1970 is 62135596800 seconds after the zero time.\<close>

definition UnixMilli :: "int \<Rightarrow> time" where
  "UnixMilli ms = ms * Millisecond + 62135596800 * Second"

definition remaining_millis :: "(int \<Rightarrow> int) \<Rightarrow> int \<Rightarrow> window \<Rightarrow> int" where
  "remaining_millis wr now w = wr (wr (w_start w + w_millis w) - now)"

definition effective :: "(int \<Rightarrow> int) \<Rightarrow> int \<Rightarrow> window \<Rightarrow> int" where
  "effective wr now w =
     wr (w_count w + go_div (wr (w_previous w * remaining_millis wr now w)) (w_millis w))"

definition admit :: "(int \<Rightarrow> int) \<Rightarrow> limit \<Rightarrow> int \<Rightarrow> window \<Rightarrow> rate_result \<times> window" where
  "admit wr l clock w0 =
     (let now = max clock (w_updated w0);
          w = roll wr now w0;
          eff = effective wr now w;
          ceiling = wr (l_Requests l + l_Burst l);
          resetAt = UnixMilli (wr (w_start w + w_millis w))
      in if eff < ceiling
         then (\<lparr>r_Allowed = True, r_Remaining = wr (wr (ceiling - eff) - 1), r_ResetAt = resetAt,
                r_RetryAfter = 0\<rparr>,
               w\<lparr>w_count := wr (w_count w + 1), w_updated := now\<rparr>)
         else (\<lparr>r_Allowed = False, r_Remaining = 0, r_ResetAt = resetAt,
                r_RetryAfter = wr (remaining_millis wr now w * Millisecond)\<rparr>,
               w\<lparr>w_updated := now\<rparr>))"

definition new_window :: "int \<Rightarrow> int \<Rightarrow> window" where
  "new_window now millis = \<lparr>w_start = now, w_count = 0, w_previous = 0, w_millis = millis, w_updated = now\<rparr>"

text \<open>The end of \<open>Allow\<close>: nothing is stored when the context was cancelled meanwhile.\<close>

definition commit :: "(int \<Rightarrow> int) \<Rightarrow> error \<Rightarrow> limit \<Rightarrow> int \<Rightarrow> string \<Rightarrow> window \<Rightarrow> rate_memory \<Rightarrow> rate_result res \<times> rate_memory" where
  "commit wr ctxErr l clock key w m =
     (case ctxErr of
        Some e \<Rightarrow> (Inl e, m)
      | None \<Rightarrow>
          let (r, w') = admit wr l clock w
          in (Inr r, m\<lparr>rm_windows := map_put key w' (rm_windows m)\<rparr>))"

text \<open>The three context errors are those read on entry, under the lock and before the write.\<close>

definition Allow ::
    "(int \<Rightarrow> int) \<Rightarrow> error \<Rightarrow> error \<Rightarrow> error \<Rightarrow> int \<Rightarrow> string \<Rightarrow> limit \<Rightarrow> rate_memory \<Rightarrow> rate_result res \<times> rate_memory" where
  "Allow wr ctx1 ctx2 ctx3 clock key l0 m =
     (case checkKey ctx1 key of
        Some e \<Rightarrow> (Inl e, m)
      | None \<Rightarrow>
     (case Normalize l0 of
        Inl e \<Rightarrow> (Inl e, m)
      | Inr l \<Rightarrow>
     (case ctx2 of
        Some e \<Rightarrow> (Inl e, m)
      | None \<Rightarrow>
          let millis = go_div (l_Window l) Millisecond;
              ws = (case map_get (rm_windows m) key of
                      Some w \<Rightarrow> if expires wr w \<le> clock then map_del key (rm_windows m) else rm_windows m
                    | None \<Rightarrow> rm_windows m)
          in (case map_get ws key of
                None \<Rightarrow>
                  let ws' = (if rm_maxEntries m \<le> int (length ws)
                             then filter (\<lambda>(k, w). clock < expires wr w) ws else ws)
                  in if rm_maxEntries m \<le> int (length ws')
                     then (Inl ErrCapacity, m\<lparr>rm_windows := ws'\<rparr>)
                     else commit wr ctx3 l clock key (new_window clock millis) (m\<lparr>rm_windows := ws'\<rparr>)
              | Some w \<Rightarrow>
                  if w_millis w \<noteq> millis then (Inl errWindowChange, m\<lparr>rm_windows := ws\<rparr>)
                  else commit wr ctx3 l clock key w (m\<lparr>rm_windows := ws\<rparr>)))))"

definition Memory_Allow :: "error \<Rightarrow> error \<Rightarrow> error \<Rightarrow> int \<Rightarrow> string \<Rightarrow> limit \<Rightarrow> rate_memory \<Rightarrow> rate_result res \<times> rate_memory" where
  "Memory_Allow = Allow int64"

definition Memory_Reset :: "error \<Rightarrow> error \<Rightarrow> string \<Rightarrow> rate_memory \<Rightarrow> error \<times> rate_memory" where
  "Memory_Reset ctx1 ctx2 key m =
     (case checkKey ctx1 key of
        Some e \<Rightarrow> (Some e, m)
      | None \<Rightarrow>
     (case ctx2 of
        Some e \<Rightarrow> (Some e, m)
      | None \<Rightarrow> (None, m\<lparr>rm_windows := map_del key (rm_windows m)\<rparr>)))"

section \<open>Waiting for admission\<close>

text \<open>
  One turn of the loop of \<open>Acquire\<close> reads the context before the call, after it, and in the select
  that waits for the timer.  A turn is the three readings; \<open>Acquire_loop\<close> runs the given turns and
  is \<open>None\<close> when they are used up while the caller still waits.  The state that \<open>allow\<close> threads
  includes the clock.
\<close>

record acquire_turn =
  at_before :: error
  at_after :: error
  at_wait :: error

definition minRetryWait :: duration where
  "minRetryWait = Millisecond"

fun Acquire_loop ::
    "('s \<Rightarrow> rate_result res \<times> 's) \<Rightarrow> (duration \<Rightarrow> 's \<Rightarrow> 's) \<Rightarrow> acquire_turn list \<Rightarrow> 's \<Rightarrow> (error \<times> 's) option" where
  "Acquire_loop allow sleep [] s = None"
| "Acquire_loop allow sleep (t # ts) s =
     (case at_before t of
        Some e \<Rightarrow> Some (Some e, s)
      | None \<Rightarrow>
     (case allow s of (res, s1) \<Rightarrow>
     (case at_after t of
        Some e \<Rightarrow> Some (Some e, s1)
      | None \<Rightarrow>
     (case res of
        Inl e \<Rightarrow> Some (Some (Wrapped (''ratelimiter: acquire: '' @ error_text e) e), s1)
      | Inr r \<Rightarrow>
          if r_Allowed r then Some (None, s1)
          else (case at_wait t of
                  Some e \<Rightarrow> Some (Some e, s1)
                | None \<Rightarrow> Acquire_loop allow sleep ts (sleep (max (r_RetryAfter r) minRetryWait) s1))))))"

definition Acquire ::
    "error \<Rightarrow> (limit \<Rightarrow> 's \<Rightarrow> rate_result res \<times> 's) \<Rightarrow> (duration \<Rightarrow> 's \<Rightarrow> 's) \<Rightarrow> string \<Rightarrow> limit \<Rightarrow> acquire_turn list \<Rightarrow> 's \<Rightarrow> (error \<times> 's) option" where
  "Acquire ctxErr allow sleep key l0 ts s =
     (case checkKey ctxErr key of
        Some e \<Rightarrow> Some (Some e, s)
      | None \<Rightarrow>
     (case Normalize l0 of
        Inl e \<Rightarrow> Some (Some e, s)
      | Inr l \<Rightarrow> Acquire_loop (allow l) sleep ts s))"

section \<open>The HTTP middleware\<close>

text \<open>
  What \<open>Middleware\<close> does with a request: nothing (a cancelled caller), an error response, the
  rejection, or the downstream handler.  The four context errors are those read on entry, by
  \<open>checkKey\<close>, after the limiter's answer and after the error callback; the callback itself and the
  writing of the response are left out.
\<close>

datatype mw_outcome = Silent | RespondInternal | RespondUnavailable | RejectWith rate_result | Serve

record 'r mw_config =
  mw_Limit :: limit
  mw_Key :: "('r \<Rightarrow> string) option"
  mw_FailOpen :: bool

definition errMiddleware :: go_error where
  "errMiddleware = Wrapped ''ratelimiter: middleware needs a limiter and key function: invalid input'' ErrInvalidInput"

definition Middleware ::
    "(string \<Rightarrow> limit \<Rightarrow> 's \<Rightarrow> rate_result res \<times> 's) option \<Rightarrow> 'r mw_config \<Rightarrow> error \<Rightarrow> error \<Rightarrow> error \<Rightarrow> error \<Rightarrow> 'r \<Rightarrow> 's \<Rightarrow> mw_outcome \<times> 's" where
  "Middleware lim cfg ctx1 ctx2 ctx3 ctx4 req s =
     (if ctx1 \<noteq> None then (Silent, s)
      else
        let (res, s1) =
          (case (lim, mw_Key cfg, Normalize (mw_Limit cfg)) of
             (Some allow, Some key, Inr l) \<Rightarrow>
               (case checkKey ctx2 (key req) of
                  Some e \<Rightarrow> (Inl e, s)
                | None \<Rightarrow> allow (key req) l s)
           | (Some allow, Some key, Inl e) \<Rightarrow> (Inl e, s)
           | _ \<Rightarrow> (Inl errMiddleware, s))
        in if ctx3 \<noteq> None then (Silent, s1)
           else
             (case res of
                Inl err \<Rightarrow>
                  if ctx4 \<noteq> None then (Silent, s1)
                  else if errors_is err ErrInvalidInput then (RespondInternal, s1)
                  else if \<not> mw_FailOpen cfg then (RespondUnavailable, s1)
                  else (Serve, s1)
              | Inr r \<Rightarrow> (if r_Allowed r then Serve else RejectWith r, s1)))"

definition retry_after_header :: "rate_result \<Rightarrow> string option" where
  "retry_after_header r =
     (if 0 < r_RetryAfter r then
        Some (print_int (go_div (r_RetryAfter r) Second + (if r_RetryAfter r mod Second \<noteq> 0 then 1 else 0)))
      else None)"

section \<open>Validated limits\<close>

definition ceiling_of :: "limit \<Rightarrow> int" where
  "ceiling_of l = l_Requests l + l_Burst l"

definition millis_of :: "limit \<Rightarrow> int" where
  "millis_of l = go_div (l_Window l) Millisecond"

lemma round_up_millis:
  fixes d :: int
  assumes "0 < d" and "d \<le> MaxWindow"
  defines "m \<equiv> go_div d Millisecond + (if d mod Millisecond \<noteq> 0 then 1 else 0)"
  shows "0 < m" and "m * Millisecond \<le> MaxWindow" and "d \<le> m * Millisecond" and "m * Millisecond < d + Millisecond"
proof -
  define q r where "q = d div Millisecond" and "r = d mod Millisecond"
  have "go_div d Millisecond = q" using assms(1) by (simp add: go_div_pos q_def)
  moreover have "d = q * Millisecond + r" "0 \<le> r" "r < Millisecond" by (simp_all add: q_def r_def)
  moreover have "d mod Millisecond = r" by (simp add: r_def)
  ultimately show "0 < m" "m * Millisecond \<le> MaxWindow" "d \<le> m * Millisecond" "m * Millisecond < d + Millisecond"
    using assms(1,2) unfolding m_def MaxWindow_def by (auto split: if_splits)
qed

lemma Normalize_ok:
  assumes "Normalize l0 = Inr l"
  shows "0 < millis_of l" and "l_Window l = millis_of l * Millisecond" and "1 \<le> ceiling_of l"
    and "ceiling_of l \<le> MaxCeiling" and "ceiling_of l * millis_of l \<le> maxWindowProduct"
    and "l_Requests l = l_Requests l0" and "l_Burst l = l_Burst l0"
    and "l_Window l0 \<le> l_Window l" and "l_Window l < l_Window l0 + Millisecond"
    and "millis_of l * Millisecond \<le> MaxWindow"
proof -
  let ?d = "l_Window l0"
  let ?m = "go_div ?d Millisecond + (if ?d mod Millisecond \<noteq> 0 then 1 else 0)"
  from assms have d: "0 < ?d" "?d \<le> MaxWindow"
    and c: "l_Requests l0 > 0" "l_Burst l0 \<ge> 0" "l_Requests l0 + l_Burst l0 \<le> MaxCeiling"
    and p: "l_Requests l0 + l_Burst l0 \<le> go_div maxWindowProduct ?m"
    and l: "l = l0\<lparr>l_Window := int64 (?m * Millisecond)\<rparr>"
    by (auto simp: Normalize_def Let_def split: if_splits)
  note m = round_up_millis [OF d]
  have "int64 (?m * Millisecond) = ?m * Millisecond"
    using m by (intro int64_small) (simp_all add: MaxWindow_def)
  with l have w: "l_Window l = ?m * Millisecond" by simp
  with m(1) have mm: "millis_of l = ?m" by (simp add: millis_of_def go_div_pos)
  have "go_div maxWindowProduct ?m = maxWindowProduct div ?m"
    using m(1) by (simp add: go_div_pos maxWindowProduct_def)
  with p have "(l_Requests l0 + l_Burst l0) * ?m \<le> maxWindowProduct div ?m * ?m"
    using m(1) by (simp add: mult_right_mono)
  also have "\<dots> \<le> maxWindowProduct" using m(1) by (simp add: minus_mod_eq_div_mult [symmetric])
  finally show "ceiling_of l * millis_of l \<le> maxWindowProduct" unfolding mm by (simp add: l ceiling_of_def)
  show "0 < millis_of l" "l_Window l = millis_of l * Millisecond" "1 \<le> ceiling_of l"
    "ceiling_of l \<le> MaxCeiling" "l_Requests l = l_Requests l0" "l_Burst l = l_Burst l0"
    "l_Window l0 \<le> l_Window l" "l_Window l < l_Window l0 + Millisecond"
    using m c w mm by (simp_all add: l ceiling_of_def)
  show "millis_of l * Millisecond \<le> MaxWindow" unfolding mm by (rule m(2))
qed

section \<open>Exact arithmetic\<close>

definition in_range :: "int \<Rightarrow> bool" where
  "in_range x \<longleftrightarrow> - (2 ^ 61) \<le> x \<and> x \<le> 2 ^ 61"

text \<open>
  A stored window: its bucket contains the last update, and both counts stay within the product
  bound that \<open>Normalize\<close> enforces on the limits it was charged under.
\<close>

definition window_ok :: "window \<Rightarrow> bool" where
  "window_ok w \<longleftrightarrow> 0 < w_millis w \<and> w_millis w \<le> maxWindowProduct \<and> 0 \<le> w_count w \<and> 0 \<le> w_previous w \<and>
     w_count w * w_millis w \<le> maxWindowProduct \<and> w_previous w * w_millis w \<le> maxWindowProduct \<and>
     w_start w \<le> w_updated w \<and> w_updated w < w_start w + w_millis w \<and>
     in_range (w_start w) \<and> in_range (w_updated w)"

lemma int64_range [simp]: "- (2 ^ 62) \<le> x \<Longrightarrow> x \<le> 2 ^ 62 \<Longrightarrow> int64 x = x"
  by (rule int64_small) simp_all

lemma expires_exact: "window_ok w \<Longrightarrow> expires int64 w = w_start w + 2 * w_millis w"
  by (simp add: expires_def window_ok_def in_range_def maxWindowProduct_def)

lemma roll_exact:
  assumes w: "window_ok w" and now: "in_range now" "w_updated w \<le> now"
  shows "roll int64 now w = roll id now w"
    and "window_ok (roll id now w\<lparr>w_updated := now\<rparr>)"
    and "w_millis (roll id now w) = w_millis w"
    and "(w_start (roll id now w) = w_start w \<and> roll id now w = w) \<or>
         w_start w + w_millis w \<le> w_start (roll id now w) \<and> w_count (roll id now w) = 0 \<and>
         (w_previous (roll id now w) = 0 \<or> w_previous (roll id now w) = w_count w)"
proof -
  let ?m = "w_millis w" and ?s = "w_start w" and ?e = "now - w_start w"
  have m: "0 < ?m" and e: "0 \<le> ?e" "?e \<le> 2 ^ 62" and range: "in_range ?s"
    using w now by (auto simp: window_ok_def in_range_def)
  define k where "k = ?e div ?m"
  have k: "k * ?m \<le> ?e" "?e < k * ?m + ?m" "0 \<le> k"
    using m e by (auto simp: k_def pos_imp_zdiv_nonneg_iff minus_mod_eq_div_mult [symmetric])
  have k0: "0 \<le> k * ?m" using k(3) m by simp
  have int: "int64 ?e = ?e" "int64 (k * ?m) = k * ?m" "int64 (?s + k * ?m) = ?s + k * ?m"
    using k(1,2) k0 e range now by (auto intro!: int64_range simp: in_range_def)
  have div: "go_div ?e ?m = k" using m e by (simp add: k_def go_div_pos)
  have roll_id: "roll id now w = (if ?m \<le> ?e then
      w\<lparr>w_previous := (if k = 1 then w_count w else 0), w_count := 0, w_start := ?s + k * ?m\<rparr> else w)"
    by (simp add: roll_def Let_def div)
  show "roll int64 now w = roll id now w" unfolding roll_id by (simp add: roll_def Let_def int div)
  show "w_millis (roll id now w) = w_millis w" by (simp add: roll_id)
  have start: "in_range (?s + k * ?m)" using k(1) k0 range now by (auto simp: in_range_def)
  have "1 \<le> k" if "?m \<le> ?e" using that m zdiv_mono1 [of ?m ?e ?m] by (simp add: k_def)
  then have "?m \<le> k * ?m" if "?m \<le> ?e" using that m by simp
  then show "(w_start (roll id now w) = w_start w \<and> roll id now w = w) \<or>
      w_start w + w_millis w \<le> w_start (roll id now w) \<and> w_count (roll id now w) = 0 \<and>
      (w_previous (roll id now w) = 0 \<or> w_previous (roll id now w) = w_count w)"
    by (simp add: roll_id)
  show "window_ok (roll id now w\<lparr>w_updated := now\<rparr>)"
  proof (cases "?m \<le> ?e")
    case True
    with w k start now show ?thesis by (simp add: roll_id window_ok_def maxWindowProduct_def)
  next
    case False
    with w now e show ?thesis by (simp add: roll_id window_ok_def)
  qed
qed

text \<open>What the admission test computes, over unbounded integers.\<close>

lemma effective_exact:
  assumes w: "window_ok w" and now: "w_updated w \<le> now" "now < w_start w + w_millis w"
  shows "remaining_millis int64 now w = w_start w + w_millis w - now"
    and "effective int64 now w = w_count w + w_previous w * (w_start w + w_millis w - now) div w_millis w"
    and "remaining_millis id now w = w_start w + w_millis w - now"
    and "effective id now w = w_count w + w_previous w * (w_start w + w_millis w - now) div w_millis w"
    and "0 \<le> w_previous w * (w_start w + w_millis w - now) div w_millis w"
    and "effective id now w \<le> 2 * maxWindowProduct"
proof -
  let ?r = "w_start w + w_millis w - now"
  have r: "0 < ?r" "?r \<le> w_millis w" and m: "0 < w_millis w"
    and prev: "0 \<le> w_previous w" "w_previous w * w_millis w \<le> maxWindowProduct"
    and cnt: "0 \<le> w_count w" "w_count w * w_millis w \<le> maxWindowProduct"
    and range: "w_millis w \<le> maxWindowProduct" "in_range (w_start w)" "in_range (w_updated w)"
    using w now by (auto simp: window_ok_def)
  have "w_previous w * ?r \<le> w_previous w * w_millis w" using r prev(1) by (simp add: mult_left_mono)
  with prev(2) have prod: "w_previous w * ?r \<le> maxWindowProduct" by linarith
  have prod0: "0 \<le> w_previous w * ?r" using r prev(1) by simp
  have quot0: "0 \<le> w_previous w * ?r div w_millis w" using prod0 m by (simp add: pos_imp_zdiv_nonneg_iff)
  have "w_previous w * ?r div w_millis w \<le> w_previous w * ?r"
    using prod0 m by (metis div_by_1 zdiv_mono2 int_one_le_iff_zero_less zero_less_one)
  with prod have quot: "w_previous w * ?r div w_millis w \<le> maxWindowProduct" by linarith
  have "w_count w * 1 \<le> w_count w * w_millis w" using cnt(1) m by (intro mult_left_mono) auto
  with cnt(2) have count: "w_count w \<le> maxWindowProduct" by simp
  show rem: "remaining_millis int64 now w = ?r"
    using r range by (simp add: remaining_millis_def in_range_def maxWindowProduct_def)
  have "int64 (w_previous w * ?r) = w_previous w * ?r"
    using prod prod0 by (intro int64_range) (simp_all add: maxWindowProduct_def)
  then show "effective int64 now w = w_count w + w_previous w * ?r div w_millis w"
    using count cnt(1) quot quot0 prod0 m unfolding effective_def rem
    by (simp add: go_div_pos maxWindowProduct_def)
  show rem': "remaining_millis id now w = ?r" by (simp add: remaining_millis_def)
  show eff: "effective id now w = w_count w + w_previous w * ?r div w_millis w"
    using prod0 m unfolding effective_def rem' by (simp add: go_div_pos)
  show "0 \<le> w_previous w * ?r div w_millis w" by (rule quot0)
  show "effective id now w \<le> 2 * maxWindowProduct" unfolding eff using count quot by linarith
qed

lemma bucket_exact:
  assumes w: "window_ok w" and clock: "in_range clock"
  defines "now \<equiv> max clock (w_updated w)"
  defines "v \<equiv> roll id now w"
  shows "roll int64 now w = v" and "w_millis v = w_millis w" and "window_ok (v\<lparr>w_updated := now\<rparr>)"
    and "w_start v \<le> now" and "now < w_start v + w_millis v"
    and "effective int64 now v = effective id now v"
    and "remaining_millis int64 now v = remaining_millis id now v"
    and "remaining_millis id now v = w_start v + w_millis v - now"
    and "effective id now v = w_count v + w_previous v * (w_start v + w_millis v - now) div w_millis v"
    and "w_count v \<le> effective id now v" and "0 \<le> w_count v"
    and "int64 (w_start v + w_millis v) = w_start v + w_millis v"
proof -
  have rng: "in_range now" "w_updated w \<le> now"
    using w clock by (auto simp: now_def window_ok_def in_range_def)
  note roll = roll_exact [OF w rng, folded v_def]
  define u where "u = v\<lparr>w_updated := now\<rparr>"
  have u: "window_ok u" using roll(2) by (simp add: u_def)
  then have bucket: "w_updated u \<le> now" "now < w_start u + w_millis u" by (simp_all add: window_ok_def u_def)
  note eff = effective_exact [OF u bucket]
  have upd: "effective wr n v = effective wr n u" "remaining_millis wr n v = remaining_millis wr n u" for wr n
    by (simp_all add: effective_def remaining_millis_def u_def)
  show "roll int64 now w = v" "w_millis v = w_millis w" "window_ok (v\<lparr>w_updated := now\<rparr>)"
    by (fact roll)+
  show "w_start v \<le> now" "now < w_start v + w_millis v" "0 \<le> w_count v"
    using u by (simp_all add: window_ok_def u_def)
  show "effective int64 now v = effective id now v" unfolding upd using eff(2,4) by simp
  show "remaining_millis int64 now v = remaining_millis id now v" unfolding upd using eff(1,3) by simp
  show "remaining_millis id now v = w_start v + w_millis v - now" unfolding upd using eff(3) by (simp add: u_def)
  show *: "effective id now v = w_count v + w_previous v * (w_start v + w_millis v - now) div w_millis v"
    unfolding upd using eff(4) by (simp add: u_def)
  show "w_count v \<le> effective id now v" unfolding * using eff(5) by (simp add: u_def)
  show "int64 (w_start v + w_millis v) = w_start v + w_millis v"
    using u by (intro int64_range) (simp_all add: window_ok_def in_range_def maxWindowProduct_def u_def)
qed

lemma admit_exact:
  assumes w: "window_ok w" and clock: "in_range clock" and l: "Normalize l0 = Inr l" "w_millis w = millis_of l"
  shows "admit int64 l clock w = admit id l clock w"
    and "window_ok (snd (admit id l clock w))"
    and "w_millis (snd (admit id l clock w)) = w_millis w"
proof -
  define now where "now = max clock (w_updated w)"
  define v where "v = roll id now w"
  define e r c where "e = effective id now v" and "r = remaining_millis id now v" and "c = ceiling_of l"
  note b = bucket_exact [OF w clock, folded now_def, folded v_def, folded e_def r_def]
  note N = Normalize_ok [OF l(1), folded c_def]
  have ceil: "int64 (l_Requests l + l_Burst l) = c" "l_Requests l + l_Burst l = c"
    using N(3,4) by (simp_all add: c_def ceiling_of_def MaxCeiling_def)
  have wait: "int64 (r * Millisecond) = r * Millisecond"
    using b(4,5,8) b(2) l(2) N(10) by (intro int64_small) (simp_all add: MaxWindow_def)
  have sums: "int64 (int64 (c - e) - 1) = c - e - 1" "int64 (w_count v + 1) = w_count v + 1" if "e < c"
    using that b(10,11) N(4) by (simp_all add: MaxCeiling_def)
  have id: "admit id l clock w =
      (if e < c then (\<lparr>r_Allowed = True, r_Remaining = c - e - 1, r_ResetAt = UnixMilli (w_start v + w_millis v),
            r_RetryAfter = 0\<rparr>, v\<lparr>w_count := w_count v + 1, w_updated := now\<rparr>)
       else (\<lparr>r_Allowed = False, r_Remaining = 0, r_ResetAt = UnixMilli (w_start v + w_millis v),
            r_RetryAfter = r * Millisecond\<rparr>, v\<lparr>w_updated := now\<rparr>))"
    by (simp add: admit_def Let_def now_def [symmetric] v_def [symmetric] e_def [symmetric] r_def [symmetric] ceil(2))
  show "admit int64 l clock w = admit id l clock w"
    unfolding id unfolding admit_def Let_def now_def [symmetric] b(1) b(6,7,12) ceil(1) wait using sums by simp
  have "window_ok (v\<lparr>w_count := w_count v + 1, w_updated := now\<rparr>)" if "e < c"
  proof -
    have "(w_count v + 1) * millis_of l \<le> c * millis_of l"
      using that b(10) N(1) by (intro mult_right_mono) auto
    with N(5) have "(w_count v + 1) * millis_of l \<le> maxWindowProduct" by linarith
    with b(2,3,11) l(2) show ?thesis by (simp add: window_ok_def)
  qed
  then show "window_ok (snd (admit id l clock w))" unfolding id using b(3) by simp
  show "w_millis (snd (admit id l clock w)) = w_millis w" unfolding id using b(2) by simp
qed

section \<open>The invariant of the limiter\<close>

definition rate_inv :: "rate_memory \<Rightarrow> bool" where
  "rate_inv m \<longleftrightarrow> map_ok (rm_windows m) \<and> (\<forall>(k, w)\<in>set (rm_windows m). window_ok w) \<and>
     int (length (rm_windows m)) \<le> rm_maxEntries m \<and> 1 \<le> rm_maxEntries m"

lemma rate_inv_New: "rate_NewMemory opts = Inr m \<Longrightarrow> rate_inv m"
  by (auto simp: rate_NewMemory_def rate_inv_def Let_def split: if_splits)

lemma new_window_ok: "in_range clock \<Longrightarrow> 0 < d \<Longrightarrow> d \<le> maxWindowProduct \<Longrightarrow> window_ok (new_window clock d)"
  by (simp add: window_ok_def new_window_def in_range_def maxWindowProduct_def)

lemma Normalize_small: "Normalize l0 = Inr l \<Longrightarrow> millis_of l \<le> maxWindowProduct"
  using Normalize_ok(1,3,5) [of l0 l] mult_right_mono [of 1 "ceiling_of l" "millis_of l"] by linarith

text \<open>The windows left by the collection of expired state that precedes an admission.\<close>

definition collected :: "int \<Rightarrow> string \<Rightarrow> rate_memory \<Rightarrow> (string, window) go_map" where
  "collected clock key m =
     (let ws = (case map_get (rm_windows m) key of
                  Some w \<Rightarrow> if expires id w \<le> clock then map_del key (rm_windows m) else rm_windows m
                | None \<Rightarrow> rm_windows m)
      in if map_get ws key = None \<and> rm_maxEntries m \<le> int (length ws)
         then filter (\<lambda>(k, w). clock < expires id w) ws else ws)"

lemma collected_get:
  assumes "map_ok (rm_windows m)"
  shows "map_get (collected clock key m) k = map_get (rm_windows m) k \<or>
     map_get (collected clock key m) k = None \<and> (\<exists>w. map_get (rm_windows m) k = Some w \<and> expires id w \<le> clock)"
proof -
  have ok: "map_ok (map_del key (rm_windows m))" using assms by (rule map_ok_del)
  show ?thesis
    by (auto simp: collected_def Let_def map_get_filter [OF assms] map_get_filter [OF ok] split: option.splits if_splits)
qed

lemma collected_self:
  assumes "map_ok (rm_windows m)"
  shows "map_get (collected clock key m) key =
     (case map_get (rm_windows m) key of Some w \<Rightarrow> if expires id w \<le> clock then None else Some w | None \<Rightarrow> None)"
proof -
  have ok: "map_ok (map_del key (rm_windows m))" using assms by (rule map_ok_del)
  show ?thesis
    by (auto simp: collected_def Let_def map_get_filter [OF assms] map_get_filter [OF ok] split: option.splits)
qed

lemma collected_sub: "set (collected clock key m) \<subseteq> set (rm_windows m)"
  using set_map_del [of key "rm_windows m"]
  by (auto simp: collected_def Let_def split: option.splits if_splits)

lemma collected_ok:
  "map_ok (rm_windows m) \<Longrightarrow> map_ok (collected clock key m) \<and> length (collected clock key m) \<le> length (rm_windows m)"
  by (auto simp: collected_def Let_def map_ok_del length_map_del distinct_map_filter
      intro: order_trans [OF length_filter_le] split: option.splits)

text \<open>\<open>Allow\<close> over unbounded integers, with the collection in one place.\<close>

lemma Allow_id:
  assumes "map_ok (rm_windows m)" and "checkKey c1 key = None" and "Normalize l0 = Inr l" and "c2 = None"
  shows "Allow id c1 c2 c3 clock key l0 m =
    (let m' = m\<lparr>rm_windows := collected clock key m\<rparr> in
     case map_get (collected clock key m) key of
       None \<Rightarrow> if rm_maxEntries m \<le> int (length (collected clock key m)) then (Inl ErrCapacity, m')
               else commit id c3 l clock key (new_window clock (millis_of l)) m'
     | Some w \<Rightarrow> if w_millis w \<noteq> millis_of l then (Inl errWindowChange, m') else commit id c3 l clock key w m')"
proof -
  have ok: "map_ok (map_del key (rm_windows m))" using assms(1) by (rule map_ok_del)
  show ?thesis
    by (auto simp: Allow_def assms(2-4) millis_of_def collected_def Let_def map_get_filter [OF assms(1)]
        map_get_filter [OF ok] split: option.splits)
qed

lemma commit_exact:
  assumes "window_ok w" "in_range clock" "Normalize l0 = Inr l" "w_millis w = millis_of l"
  shows "commit int64 c3 l clock key w m = commit id c3 l clock key w m"
  unfolding commit_def admit_exact(1) [OF assms] ..

lemma rate_inv_get: "rate_inv m \<Longrightarrow> map_get (rm_windows m) k = Some w \<Longrightarrow> window_ok w"
  by (auto simp: rate_inv_def dest!: map_of_SomeD)

lemma Allow_exact:
  assumes inv: "rate_inv m" and clock: "in_range clock"
  shows "Allow int64 c1 c2 c3 clock key l0 m = Allow id c1 c2 c3 clock key l0 m"
proof (cases "Normalize l0")
  case (Inr l)
  have exp: "expires int64 w = expires id w" if "window_ok w" for w
    using expires_exact [OF that] by (simp add: expires_def)
  have fil: "filter (\<lambda>(k, w). clock < expires int64 w) ws = filter (\<lambda>(k, w). clock < expires id w) ws"
    if "set ws \<subseteq> set (rm_windows m)" for ws
  proof (intro filter_cong refl)
    fix x assume "x \<in> set ws"
    with that inv have "window_ok (snd x)" by (cases x) (auto simp: rate_inv_def)
    from exp [OF this] show "(case x of (k, w) \<Rightarrow> clock < expires int64 w) = (case x of (k, w) \<Rightarrow> clock < expires id w)"
      by (simp add: case_prod_beta)
  qed
  have del: "set (map_del key (rm_windows m)) \<subseteq> set (rm_windows m)" by (rule set_map_del)
  have new: "commit int64 c3 l clock key (new_window clock (millis_of l)) m' =
      commit id c3 l clock key (new_window clock (millis_of l)) m'" for m'
    using clock Normalize_ok(1) [OF Inr] Normalize_small [OF Inr]
    by (intro commit_exact [OF new_window_ok clock Inr]) (simp_all add: new_window_def)
  show ?thesis
  proof (cases "map_get (rm_windows m) key")
    case None
    then show ?thesis
      by (simp add: Allow_def Inr Let_def fil new [unfolded millis_of_def] split: option.split)
  next
    case (Some w)
    note w = rate_inv_get [OF inv Some]
    from commit_exact [OF w clock Inr] Some show ?thesis
      by (simp add: Allow_def Inr Let_def exp [OF w] fil [OF del] new [unfolded millis_of_def] millis_of_def
          split: option.split)
  qed
qed (simp add: Allow_def split: option.split)

lemma commit_inv:
  assumes "map_ok (rm_windows m)" "\<forall>(k, w)\<in>set (rm_windows m). window_ok w"
    and "int (length (rm_windows m)) \<le> rm_maxEntries m" "1 \<le> rm_maxEntries m"
    and "map_get (rm_windows m) key \<noteq> None \<or> int (length (rm_windows m)) < rm_maxEntries m"
    and w: "window_ok w" "in_range clock" "Normalize l0 = Inr l" "w_millis w = millis_of l"
  shows "rate_inv (snd (commit id c3 l clock key w m))"
proof (cases c3)
  case None
  obtain r w' where a: "admit id l clock w = (r, w')" by fastforce
  with admit_exact(2) [OF w] have w': "window_ok w'" by simp
  from set_map_put [of key w' "rm_windows m"] assms(1-5) w' show ?thesis
    by (auto simp: commit_def None a rate_inv_def map_ok_put length_map_put)
qed (use assms in \<open>simp add: commit_def rate_inv_def\<close>)

lemma Allow_inv:
  assumes inv: "rate_inv m" and clock: "in_range clock"
  shows "rate_inv (snd (Allow id c1 c2 c3 clock key l0 m))"
proof (cases "checkKey c1 key = None \<and> c2 = None \<and> (\<exists>l. Normalize l0 = Inr l)")
  case True
  then obtain l where l: "Normalize l0 = Inr l" by blast
  have ok: "map_ok (rm_windows m)" using inv by (simp add: rate_inv_def)
  let ?m = "m\<lparr>rm_windows := collected clock key m\<rparr>"
  have m': "map_ok (rm_windows ?m)" "\<forall>(k, w)\<in>set (rm_windows ?m). window_ok w"
    "int (length (rm_windows ?m)) \<le> rm_maxEntries ?m" "1 \<le> rm_maxEntries ?m"
    using collected_ok [OF ok, of clock key] collected_sub [of clock key m] inv by (auto simp: rate_inv_def)
  show ?thesis
  proof (cases "map_get (collected clock key m) key")
    case None
    have "rate_inv (snd (commit id c3 l clock key (new_window clock (millis_of l)) ?m))"
      if "int (length (collected clock key m)) < rm_maxEntries m"
      using that clock Normalize_ok(1) [OF l] Normalize_small [OF l]
      by (intro commit_inv [OF m' _ _ _ l] new_window_ok) (auto simp: new_window_def)
    with None True m' show ?thesis by (simp add: Allow_id [OF ok _ l] Let_def rate_inv_def)
  next
    case (Some w)
    then have "window_ok w" using m'(2) by (auto dest!: map_of_SomeD)
    then have "rate_inv (snd (commit id c3 l clock key w ?m))" if "w_millis w = millis_of l"
      using Some clock that by (intro commit_inv [OF m' _ _ _ l]) auto
    with Some True m' show ?thesis by (simp add: Allow_id [OF ok _ l] Let_def rate_inv_def)
  qed
qed (use inv in \<open>auto simp: Allow_def split: option.splits sum.splits\<close>)

section \<open>Histories of one key\<close>

datatype rate_op =
    RAllow error error error int string limit
  | RReset error error string

fun rate_step :: "rate_op \<Rightarrow> rate_memory \<Rightarrow> rate_memory" where
  "rate_step (RAllow c1 c2 c3 clock key l) m = snd (Memory_Allow c1 c2 c3 clock key l m)"
| "rate_step (RReset c1 c2 key) m = snd (Memory_Reset c1 c2 key m)"

text \<open>The admission of \<open>key\<close> by a call, if it is one, with the bucket it is charged to.\<close>

fun admission :: "string \<Rightarrow> rate_op \<Rightarrow> rate_memory \<Rightarrow> (int \<times> int) list" where
  "admission key (RAllow c1 c2 c3 clock k l) m =
     (case Memory_Allow c1 c2 c3 clock k l m of
        (Inr r, m') \<Rightarrow> if k = key \<and> r_Allowed r then [(w_start (the (map_get (rm_windows m') key)), clock)] else []
      | _ \<Rightarrow> [])"
| "admission key (RReset c1 c2 k) m = []"

fun admissions :: "string \<Rightarrow> rate_op list \<Rightarrow> rate_memory \<Rightarrow> (int \<times> int) list" where
  "admissions key [] m = []"
| "admissions key (op # ops) m = admission key op m @ admissions key ops (rate_step op m)"

text \<open>Calls whose clock does not run backwards and stays in range.\<close>

fun ticking :: "int \<Rightarrow> rate_op list \<Rightarrow> bool" where
  "ticking t [] \<longleftrightarrow> True"
| "ticking t (RAllow c1 c2 c3 clock k l # ops) \<longleftrightarrow> t \<le> clock \<and> in_range clock \<and> ticking clock ops"
| "ticking t (RReset c1 c2 k # ops) \<longleftrightarrow> ticking t ops"

text \<open>Calls that do not reset \<open>key\<close> and ask for it with one window and at most one ceiling.\<close>

fun budgeted :: "string \<Rightarrow> int \<Rightarrow> int \<Rightarrow> rate_op \<Rightarrow> bool" where
  "budgeted key d c (RAllow c1 c2 c3 clock k l0) \<longleftrightarrow>
     (k = key \<longrightarrow> (case Normalize l0 of Inl e \<Rightarrow> True | Inr l \<Rightarrow> millis_of l = d \<and> ceiling_of l \<le> c))"
| "budgeted key d c (RReset c1 c2 k) \<longleftrightarrow> k \<noteq> key"

definition bucket_size :: "int \<Rightarrow> (int \<times> int) list \<Rightarrow> int" where
  "bucket_size b tags = int (length (filter (\<lambda>(b', t). b' = b) tags))"

text \<open>The ledger of a key: what its admissions so far have in common with its stored window.\<close>

definition ledger :: "int \<Rightarrow> int \<Rightarrow> int \<Rightarrow> (int \<times> int) list \<Rightarrow> window option \<Rightarrow> bool" where
  "ledger d c t0 tags stored \<longleftrightarrow>
     (\<forall>b. bucket_size b tags \<le> c) \<and>
     (\<forall>(b, t)\<in>set tags. b \<le> t \<and> t < b + d) \<and>
     (\<forall>b\<in>fst ` set tags. \<forall>b'\<in>fst ` set tags. b \<noteq> b' \<longrightarrow> b + d \<le> b' \<or> b' + d \<le> b) \<and>
     (case stored of
        None \<Rightarrow> \<forall>b\<in>fst ` set tags. b + d \<le> t0
      | Some w \<Rightarrow> w_millis w = d \<and> w_updated w \<le> t0 \<and> bucket_size (w_start w) tags = w_count w \<and>
          (\<forall>b\<in>fst ` set tags. b = w_start w \<or> b + d \<le> w_start w))"

lemma bucket_size_0: "b \<notin> fst ` set tags \<Longrightarrow> bucket_size b tags = 0"
  by (auto simp: bucket_size_def filter_empty_conv image_iff)

lemma bucket_size_append: "bucket_size b (xs @ ys) = bucket_size b xs + bucket_size b ys"
  by (simp add: bucket_size_def)

lemma ledger_later: "ledger d c t0 tags stored \<Longrightarrow> t0 \<le> now \<Longrightarrow> ledger d c now tags stored"
  by (auto simp: ledger_def split: option.splits)

lemma ledger_drop:
  "ledger d c t0 tags (Some w) \<Longrightarrow> w_start w + 2 * d \<le> t0 \<Longrightarrow> 0 < d \<Longrightarrow> ledger d c t0 tags None"
  by (force simp: ledger_def)

lemma ledger_new:
  assumes "ledger d c clock tags None" and "0 < d"
  shows "ledger d c clock tags (Some (new_window clock d))"
proof -
  have "clock \<notin> fst ` set tags" using assms by (auto simp: ledger_def)
  with assms show ?thesis by (simp add: ledger_def new_window_def bucket_size_0)
qed

lemma ledger_roll:
  assumes L: "ledger d c t0 tags (Some w)" and w: "window_ok w" and clock: "in_range clock" "t0 \<le> clock"
  shows "ledger d c clock tags (Some (roll id clock w\<lparr>w_updated := clock\<rparr>))"
proof -
  have "w_updated w \<le> clock" using L clock(2) by (simp add: ledger_def)
  note roll = roll_exact [OF w clock(1) this]
  have d: "w_millis w = d" "0 < d" using L w by (auto simp: ledger_def window_ok_def)
  have tags: "b = w_start w \<or> b + d \<le> w_start w" if "b \<in> fst ` set tags" for b
    using L that by (auto simp: ledger_def)
  from roll(4) consider "roll id clock w = w"
    | "w_start w + w_millis w \<le> w_start (roll id clock w)" "w_count (roll id clock w) = 0" by blast
  then show ?thesis
  proof cases
    assume "roll id clock w = w"
    with ledger_later [OF L clock(2)] show ?thesis by (simp add: ledger_def)
  next
    let ?v = "roll id clock w"
    assume v: "w_start w + w_millis w \<le> w_start ?v" "w_count ?v = 0"
    have "b + d \<le> w_start ?v" if "b \<in> fst ` set tags" for b using tags [OF that] v(1) d by auto
    moreover from this have "w_start ?v \<notin> fst ` set tags" using d(2) by fastforce
    ultimately show ?thesis
      using ledger_later [OF L clock(2)] roll(3) d v(2) by (simp add: ledger_def bucket_size_0)
  qed
qed

lemma ledger_admit:
  assumes L: "ledger d c t0 tags (Some w)" and w: "window_ok w" and clock: "in_range clock" "t0 \<le> clock"
    and l: "Normalize l0 = Inr l" "millis_of l = d" "ceiling_of l \<le> c" and a: "admit id l clock w = (r, w')"
  shows "ledger d c clock (tags @ (if r_Allowed r then [(w_start w', clock)] else [])) (Some w')"
proof -
  have "w_updated w \<le> clock" using L clock(2) by (simp add: ledger_def)
  then have now: "max clock (w_updated w) = clock" by simp
  define v where "v = roll id clock w"
  note b = bucket_exact [OF w clock(1), unfolded now, folded v_def]
  have R: "ledger d c clock tags (Some (v\<lparr>w_updated := clock\<rparr>))"
    unfolding v_def by (rule ledger_roll [OF L w clock])
  have d: "w_millis v = d" "0 < d" using R b(4,5) by (auto simp: ledger_def)
  have ceil: "l_Requests l + l_Burst l = ceiling_of l" by (simp add: ceiling_of_def)
  show ?thesis
  proof (cases "effective id clock v < ceiling_of l")
    case True
    with a have r: "r_Allowed r" "w' = v\<lparr>w_count := w_count v + 1, w_updated := clock\<rparr>"
      by (auto simp: admit_def Let_def now v_def [symmetric] ceil)
    have size: "bucket_size x [(w_start v, clock)] = of_bool (x = w_start v)" for x
      by (simp add: bucket_size_def)
    from True b(10) l(3) have "w_count v + 1 \<le> c" by simp
    with R b(4,5) d r show ?thesis
      by (auto simp: ledger_def bucket_size_append size)
  next
    case False
    with a have "\<not> r_Allowed r" "w' = v\<lparr>w_updated := clock\<rparr>"
      by (auto simp: admit_def Let_def now v_def [symmetric] ceil)
    with R show ?thesis by simp
  qed
qed

lemma Allow_other:
  assumes "map_ok (rm_windows m)" and "k \<noteq> key"
  shows "map_get (rm_windows (snd (Allow id c1 c2 c3 clock k l0 m))) key = map_get (rm_windows m) key \<or>
    map_get (rm_windows (snd (Allow id c1 c2 c3 clock k l0 m))) key = None \<and>
    (\<exists>w. map_get (rm_windows m) key = Some w \<and> expires id w \<le> clock)"
proof (cases "checkKey c1 k = None \<and> c2 = None \<and> (\<exists>l. Normalize l0 = Inr l)")
  case True
  then obtain l where l: "Normalize l0 = Inr l" by blast
  from collected_get [OF assms(1), of clock k key] show ?thesis
    using True assms(2)
    by (auto simp: Allow_id [OF assms(1) _ l] Let_def commit_def split: option.splits prod.splits)
qed (auto simp: Allow_def split: option.splits sum.splits)

lemma Allow_self:
  assumes ok: "map_ok (rm_windows m)"
  obtains (refused) e m' where "Allow id c1 c2 c3 clock key l0 m = (Inl e, m')"
      "map_get (rm_windows m') key = map_get (rm_windows m) key \<or>
       map_get (rm_windows m') key = None \<and> (\<exists>w. map_get (rm_windows m) key = Some w \<and> expires id w \<le> clock)"
    | (known) l w r w' m' where "Normalize l0 = Inr l" "Allow id c1 c2 c3 clock key l0 m = (Inr r, m')"
      "map_get (rm_windows m) key = Some w" "w_millis w = millis_of l" "admit id l clock w = (r, w')"
      "map_get (rm_windows m') key = Some w'"
    | (fresh) l r w' m' where "Normalize l0 = Inr l" "Allow id c1 c2 c3 clock key l0 m = (Inr r, m')"
      "map_get (rm_windows m) key = None \<or> (\<exists>w. map_get (rm_windows m) key = Some w \<and> expires id w \<le> clock)"
      "admit id l clock (new_window clock (millis_of l)) = (r, w')" "map_get (rm_windows m') key = Some w'"
proof (cases "checkKey c1 key = None \<and> c2 = None \<and> (\<exists>l. Normalize l0 = Inr l)")
  case True
  then obtain l where l: "Normalize l0 = Inr l" by blast
  let ?m = "m\<lparr>rm_windows := collected clock key m\<rparr>"
  note eq = Allow_id [OF ok _ l, of c1 key c2 c3 clock, unfolded Let_def]
  note get = collected_get [OF ok, of clock key key]
  show thesis
  proof (cases "map_get (collected clock key m) key")
    case None
    show thesis
    proof (cases "rm_maxEntries m \<le> int (length (collected clock key m)) \<or> c3 \<noteq> None")
      case True
      with \<open>checkKey c1 key = None \<and> _\<close> None eq
      have "\<exists>e. Allow id c1 c2 c3 clock key l0 m = (Inl e, ?m)" by (auto simp: commit_def split: option.splits)
      with get None show thesis by (auto intro: refused)
    next
      case False
      obtain r w' where a: "admit id l clock (new_window clock (millis_of l)) = (r, w')" by fastforce
      from None get have "map_get (rm_windows m) key = None \<or> (\<exists>w. map_get (rm_windows m) key = Some w \<and> expires id w \<le> clock)"
        by auto
      with False \<open>checkKey c1 key = None \<and> _\<close> None eq a show thesis
        by (intro fresh [OF l _ _ a, of "?m\<lparr>rm_windows := map_put key w' (collected clock key m)\<rparr>"])
          (auto simp: commit_def)
    qed
  next
    case (Some w)
    with get have g: "map_get (rm_windows m) key = Some w" by auto
    show thesis
    proof (cases "w_millis w \<noteq> millis_of l \<or> c3 \<noteq> None")
      case True
      with \<open>checkKey c1 key = None \<and> _\<close> Some eq
      have "\<exists>e. Allow id c1 c2 c3 clock key l0 m = (Inl e, ?m)" by (auto simp: commit_def split: option.splits)
      with get Some show thesis by (auto intro: refused)
    next
      case False
      obtain r w' where a: "admit id l clock w = (r, w')" by fastforce
      with False \<open>checkKey c1 key = None \<and> _\<close> Some eq show thesis
        by (intro known [OF l _ g _ a, of "?m\<lparr>rm_windows := map_put key w' (collected clock key m)\<rparr>"])
          (auto simp: commit_def)
    qed
  qed
next
  case False
  then have "\<exists>e. Allow id c1 c2 c3 clock key l0 m = (Inl e, m)"
    by (auto simp: Allow_def split: option.splits sum.splits)
  with refused show thesis by auto
qed

lemma ledger_step:
  assumes L: "ledger d c t0 tags (map_get (rm_windows m) key)" and inv: "rate_inv m"
    and op: "ticking t0 [op]" "budgeted key d c op" and d: "0 < d" and t: "t = (case op of RAllow _ _ _ clock _ _ \<Rightarrow> clock | _ \<Rightarrow> t0)"
  shows "ledger d c t (tags @ admission key op m) (map_get (rm_windows (rate_step op m)) key) \<and>
    rate_inv (rate_step op m) \<and> t0 \<le> t"
proof (cases op)
  case (RReset c1 c2 k)
  with op L inv t set_map_del [of k "rm_windows m"] length_map_del [of k "rm_windows m"] show ?thesis
    by (auto simp: Memory_Reset_def rate_inv_def map_ok_del split: option.splits)
next
  case (RAllow c1 c2 c3 clock k l0)
  have ok: "map_ok (rm_windows m)" using inv by (simp add: rate_inv_def)
  have clock: "in_range clock" "t0 \<le> clock" and t: "t = clock" using op RAllow t by simp_all
  note exact = Memory_Allow_def Allow_exact [OF inv clock(1)]
  have inv': "rate_inv (rate_step op m)" using Allow_inv [OF inv clock(1)] by (simp add: RAllow exact)
  have L': "ledger d c clock tags (map_get (rm_windows m) key)" by (rule ledger_later [OF L clock(2)])
  have gone: "ledger d c clock tags None" if "map_get (rm_windows m) key = Some w" "expires id w \<le> clock" for w
    using that L' d by (intro ledger_drop [of d c clock tags w]) (auto simp: expires_def ledger_def)
  have "ledger d c clock (tags @ admission key op m) (map_get (rm_windows (rate_step op m)) key)"
  proof (cases "k = key")
    case False
    then have "admission key op m = []" by (simp add: RAllow split: prod.splits sum.splits)
    with Allow_other [OF ok False, of c1 c2 c3 clock l0] L' gone show ?thesis by (auto simp: RAllow exact)
  next
    case True
    from ok show ?thesis
    proof (cases rule: Allow_self [where ?c1.0 = c1 and ?c2.0 = c2 and ?c3.0 = c3 and clock = clock and key = key and ?l0.0 = l0])
      case (refused e m')
      with L' gone show ?thesis by (auto simp: RAllow True exact)
    next
      case (known l w r w' m')
      from op(2) known(1) True RAllow have l: "millis_of l = d" "ceiling_of l \<le> c" by simp_all
      from ledger_admit [OF _ rate_inv_get [OF inv known(3)] clock(1) _ known(1) l known(5), of clock tags] L' known
      show ?thesis by (auto simp: RAllow True exact)
    next
      case (fresh l r w' m')
      from op(2) fresh(1) True RAllow have l: "millis_of l = d" "ceiling_of l \<le> c" by simp_all
      have "ledger d c clock tags None" using fresh(3) L' gone by auto
      note N = ledger_new [OF this d]
      have "window_ok (new_window clock d)"
        using clock(1) d Normalize_small [OF fresh(1)] l by (intro new_window_ok) auto
      from ledger_admit [OF N this clock(1) _ fresh(1) l, of r w'] fresh l
      show ?thesis by (auto simp: RAllow True exact)
    qed
  qed
  with inv' clock(2) t show ?thesis by simp
qed

lemma ledger_run:
  assumes "ledger d c t0 tags (map_get (rm_windows m) key)" and "rate_inv m"
    and "ticking t0 ops" "\<forall>op\<in>set ops. budgeted key d c op" and "0 < d"
  shows "\<exists>t w. ledger d c t (tags @ admissions key ops m) w"
  using assms
proof (induction ops arbitrary: t0 tags m)
  case (Cons op ops)
  let ?t = "case op of RAllow _ _ _ clock _ _ \<Rightarrow> clock | _ \<Rightarrow> t0"
  have op: "ticking t0 [op]" "budgeted key d c op" and rest: "ticking ?t ops"
    using Cons.prems by (cases op; simp)+
  from ledger_step [OF Cons.prems(1,2) op Cons.prems(5) refl]
  have step: "ledger d c ?t (tags @ admission key op m) (map_get (rm_windows (rate_step op m)) key)"
    "rate_inv (rate_step op m)" by blast+
  from Cons.IH [OF step rest] Cons.prems(4,5) show ?case by simp
qed auto

lemma spaced_card:
  fixes S :: "int set"
  assumes "finite S" and "\<forall>b\<in>S. a - d < b \<and> b < a + d" and "\<forall>b\<in>S. \<forall>b'\<in>S. b \<noteq> b' \<longrightarrow> b + d \<le> b' \<or> b' + d \<le> b"
    and "0 < d"
  shows "card S \<le> 2"
proof (rule ccontr)
  assume "\<not> card S \<le> 2"
  then have "3 \<le> card S" by simp
  then obtain T where "T \<subseteq> S" "card T = 3" by (metis obtain_subset_with_card_n)
  then obtain x y z where "x \<in> S" "y \<in> S" "z \<in> S" "x \<noteq> y" "x \<noteq> z" "y \<noteq> z"
    by (auto simp: card_3_iff)
  with assms(2,3) have "a - d < x" "x < a + d" "a - d < y" "y < a + d" "a - d < z" "z < a + d"
    "x + d \<le> y \<or> y + d \<le> x" "x + d \<le> z \<or> z + d \<le> x" "y + d \<le> z \<or> z + d \<le> y" by blast+
  with assms(4) show False by linarith
qed

lemma length_by_bucket:
  "finite S \<Longrightarrow> fst ` set tags \<subseteq> S \<Longrightarrow> int (length tags) = (\<Sum>b\<in>S. bucket_size b tags)"
proof (induction tags)
  case (Cons x tags)
  have "bucket_size b (x # tags) = of_bool (b = fst x) + bucket_size b tags" for b
    by (cases x) (simp add: bucket_size_def)
  with Cons show ?case by (simp add: sum.distrib)
qed (simp add: bucket_size_def)

lemma ledger_bound:
  assumes "ledger d c t tags w" and d: "0 < d" and c: "0 \<le> c"
  shows "int (length (filter (\<lambda>(b, t). a \<le> t \<and> t < a + d) tags)) \<le> 2 * c"
proof -
  let ?F = "filter (\<lambda>(b, t). a \<le> t \<and> t < a + d) tags" and ?S = "fst ` set (filter (\<lambda>(b, t). a \<le> t \<and> t < a + d) tags)"
  have card: "card ?S \<le> 2"
    using assms(1) by (intro spaced_card [of _ a d]) (fastforce simp: ledger_def d)+
  have size: "bucket_size b ?F \<le> c" for b
  proof -
    have "bucket_size b ?F \<le> bucket_size b tags" by (induction tags) (auto simp: bucket_size_def)
    with assms(1) show ?thesis by (auto simp: ledger_def intro: order_trans)
  qed
  have "int (length ?F) = (\<Sum>b\<in>?S. bucket_size b ?F)" by (rule length_by_bucket) auto
  also have "\<dots> \<le> int (card ?S) * c" using sum_bounded_above [of ?S "\<lambda>b. bucket_size b ?F" c] size by simp
  also have "\<dots> \<le> 2 * c" using card c by (intro mult_right_mono) auto
  finally show ?thesis .
qed

section \<open>A waiter that is not disturbed\<close>

text \<open>A call that neither the context, nor the capacity, nor another window can refuse.\<close>

definition clear_for :: "string \<Rightarrow> limit \<Rightarrow> int \<Rightarrow> rate_memory \<Rightarrow> bool" where
  "clear_for key l t m \<longleftrightarrow> rate_inv m \<and>
     (case map_get (rm_windows m) key of
        None \<Rightarrow> int (length (rm_windows m)) < rm_maxEntries m
      | Some w \<Rightarrow> w_millis w = millis_of l \<and> w_updated w \<le> t)"

lemma collected_room:
  assumes "map_ok (rm_windows m)" "int (length (rm_windows m)) \<le> rm_maxEntries m"
    and "map_get (rm_windows m) key = None \<longrightarrow> int (length (rm_windows m)) < rm_maxEntries m"
    and "map_get (collected t key m) key = None"
  shows "int (length (collected t key m)) < rm_maxEntries m"
proof -
  have "length (map_del key (rm_windows m)) < length (rm_windows m)" if "map_get (rm_windows m) key = Some w" for w
    using that by (auto simp: AList.delete_eq dest!: map_of_SomeD intro: length_filter_less)
  then show ?thesis
    using assms le_less_trans [OF length_filter_le]
    by (fastforce simp: collected_def Let_def split: option.splits if_splits)
qed

lemma fresh_admitted:
  assumes "Normalize l0 = Inr l"
  shows "r_Allowed (fst (admit id l t (new_window t (millis_of l))))"
  using Normalize_ok(1,3) [OF assms]
  by (simp add: admit_def Let_def roll_def new_window_def effective_def remaining_millis_def go_div_def ceiling_of_def)

lemma Allow_clear:
  assumes clear: "clear_for key l t m" and t: "in_range t" and key: "key \<noteq> []" and l: "Normalize l0 = Inr l"
  obtains r m' where "Memory_Allow None None None t key l0 m = (Inr r, m')" "rate_inv m'"
    "r_Allowed r \<or> (\<exists>w. map_get (rm_windows m) key = Some w \<and> t < w_start w + 2 * millis_of l \<and>
       map_get (rm_windows m') key = Some (roll id t w\<lparr>w_updated := t\<rparr>) \<and>
       r_RetryAfter r = (w_start (roll id t w) + millis_of l - t) * Millisecond \<and>
       ceiling_of l \<le> effective id t (roll id t w))"
proof -
  from clear have inv: "rate_inv m" and ok: "map_ok (rm_windows m)"
    and len: "int (length (rm_windows m)) \<le> rm_maxEntries m" by (auto simp: clear_for_def rate_inv_def)
  let ?C = "collected t key m"
  let ?w = "case map_get ?C key of None \<Rightarrow> new_window t (millis_of l) | Some w \<Rightarrow> w"
  obtain r w' where a: "admit id l t ?w = (r, w')" by fastforce
  have room: "int (length ?C) < rm_maxEntries m" if "map_get ?C key = None"
    using that clear by (intro collected_room [OF ok len]) (auto simp: clear_for_def split: option.splits)
  have same: "map_get (rm_windows m) key = Some w" "t < expires id w" if "map_get ?C key = Some w" for w
    using that collected_self [OF ok, of t key] by (auto split: option.splits if_splits)
  have "w_millis w = millis_of l" if "map_get ?C key = Some w" for w
    using same(1) [OF that] clear by (simp add: clear_for_def)
  with room a have eq: "Allow id None None None t key l0 m = (Inr r, m\<lparr>rm_windows := map_put key w' ?C\<rparr>)"
    using key by (auto simp: Allow_id [OF ok _ l] checkKey_def Let_def commit_def split: option.splits)
  show thesis
  proof (rule that)
    show "Memory_Allow None None None t key l0 m = (Inr r, m\<lparr>rm_windows := map_put key w' ?C\<rparr>)"
      by (simp add: Memory_Allow_def Allow_exact [OF inv t] eq)
    show "rate_inv (m\<lparr>rm_windows := map_put key w' ?C\<rparr>)"
      using Allow_inv [OF inv t, of None None None key l0] by (simp add: eq)
    show "r_Allowed r \<or> (\<exists>w. map_get (rm_windows m) key = Some w \<and> t < w_start w + 2 * millis_of l \<and>
        map_get (rm_windows (m\<lparr>rm_windows := map_put key w' ?C\<rparr>)) key = Some (roll id t w\<lparr>w_updated := t\<rparr>) \<and>
        r_RetryAfter r = (w_start (roll id t w) + millis_of l - t) * Millisecond \<and>
        ceiling_of l \<le> effective id t (roll id t w))"
    proof (cases "map_get ?C key")
      case None
      with a fresh_admitted [OF l, of t] show ?thesis by simp
    next
      case (Some w)
      note w = same [OF Some]
      have up: "max t (w_updated w) = t" "w_millis w = millis_of l" "w_updated w \<le> t"
        using w(1) clear by (simp_all add: clear_for_def)
      have rest: "remaining_millis id t (roll id t w) = w_start (roll id t w) + millis_of l - t"
        using roll_exact(3) [OF rate_inv_get [OF inv w(1)] t up(3)] up(2) by (simp add: remaining_millis_def)
      from a Some up rest w show ?thesis
        by (auto simp: admit_def Let_def ceiling_of_def expires_def split: if_splits)
    qed
  qed
qed

text \<open>Rolling a window exactly one bucket forward.\<close>

lemma roll_next:
  assumes "w_millis w = d" "0 < d" "w_start w + d \<le> t" "t < w_start w + 2 * d"
  shows "roll id t w = w\<lparr>w_previous := w_count w, w_count := 0, w_start := w_start w + d\<rparr>"
proof -
  have "(t - w_start w) div d = 1"
    using assms(2-4) div_add_self1 [of d "t - w_start w - d"] div_pos_pos_trivial [of "t - w_start w - d" d] by simp
  moreover have "go_div (t - w_start w) d = (t - w_start w) div d" using assms by (intro go_div_pos) auto
  ultimately show ?thesis using assms by (simp add: roll_def Let_def)
qed

text \<open>A second attempt, made after the wait of a first denial, and a third.\<close>

definition denied :: "limit \<Rightarrow> string \<Rightarrow> int \<Rightarrow> rate_result \<Rightarrow> rate_memory \<Rightarrow> window \<Rightarrow> bool" where
  "denied l key t r m w \<longleftrightarrow> rate_inv m \<and> map_get (rm_windows m) key = Some w \<and> w_millis w = millis_of l \<and>
     w_updated w = t \<and> r_RetryAfter r = (w_start w + millis_of l - t) * Millisecond"

lemma Allow_attempt:
  assumes "clear_for key l t m" "in_range t" "key \<noteq> []" "Normalize l0 = Inr l"
  obtains (allowed) r m' where "Memory_Allow None None None t key l0 m = (Inr r, m')" "r_Allowed r"
    | (wait) r m' w where "Memory_Allow None None None t key l0 m = (Inr r, m')" "\<not> r_Allowed r"
      "denied l key t r m' w"
      "\<And>w0. map_get (rm_windows m) key = Some w0 \<Longrightarrow> w_start w0 + millis_of l \<le> t \<Longrightarrow>
         w_count w = 0 \<and> w_count w0 \<noteq> 0"
proof -
  obtain r m' where m': "Memory_Allow None None None t key l0 m = (Inr r, m')" "rate_inv m'"
    and or: "r_Allowed r \<or> (\<exists>w. map_get (rm_windows m) key = Some w \<and> t < w_start w + 2 * millis_of l \<and>
       map_get (rm_windows m') key = Some (roll id t w\<lparr>w_updated := t\<rparr>) \<and>
       r_RetryAfter r = (w_start (roll id t w) + millis_of l - t) * Millisecond \<and>
       ceiling_of l \<le> effective id t (roll id t w))"
    by (rule Allow_clear [OF assms])
  note N = Normalize_ok(1,3) [OF assms(4)]
  show thesis
  proof (cases "r_Allowed r")
    case True
    with m' allowed show thesis by blast
  next
    case False
    with or obtain w0 where w0: "map_get (rm_windows m) key = Some w0" "t < w_start w0 + 2 * millis_of l"
      "map_get (rm_windows m') key = Some (roll id t w0\<lparr>w_updated := t\<rparr>)"
      "r_RetryAfter r = (w_start (roll id t w0) + millis_of l - t) * Millisecond"
      "ceiling_of l \<le> effective id t (roll id t w0)" by blast
    have w0': "window_ok w0" "w_millis w0 = millis_of l" "w_updated w0 \<le> t"
      using assms(1) w0(1) rate_inv_get by (auto simp: clear_for_def)
    let ?w = "roll id t w0\<lparr>w_updated := t\<rparr>"
    have "denied l key t r m' ?w"
      using m'(2) w0(3,4) roll_exact(3) [OF w0'(1) assms(2) w0'(3)] w0'(2) by (simp add: denied_def)
    moreover have "w_count ?w = 0 \<and> w_count w1 \<noteq> 0"
      if "map_get (rm_windows m) key = Some w1" "w_start w1 + millis_of l \<le> t" for w1
    proof -
      from that(1) w0(1) have w1: "w1 = w0" by simp
      note nxt = roll_next [OF w0'(2) N(1) that(2) [unfolded w1] w0(2)]
      from w0(5) N have "w_count w0 \<noteq> 0"
        by (auto simp: nxt effective_def remaining_millis_def go_div_def)
      then show ?thesis by (simp add: nxt w1)
    qed
    ultimately show thesis using wait m'(1) False by blast
  qed
qed

lemma Normalize_idem: "Normalize l0 = Inr l \<Longrightarrow> Normalize l = Inr l"
proof -
  assume N: "Normalize l0 = Inr l"
  note n = Normalize_ok [OF N]
  have W: "l_Window l = millis_of l * Millisecond" "0 < millis_of l" by (fact n)+
  have d: "go_div (l_Window l) Millisecond = millis_of l" "l_Window l mod Millisecond = 0"
    by (simp_all add: millis_of_def n(2) [unfolded millis_of_def, symmetric]) (simp add: W)
  have "ceiling_of l \<le> maxWindowProduct div millis_of l"
    using n(1) zdiv_mono1 [OF n(5) n(1)] by simp
  then have p: "\<not> go_div maxWindowProduct (millis_of l) < ceiling_of l"
    using n(1) by (simp add: go_div_pos maxWindowProduct_def)
  have i: "int64 (millis_of l * Millisecond) = millis_of l * Millisecond"
    using n(1,10) by (intro int64_small) (simp_all add: MaxWindow_def)
  have r: "l_Requests l > 0" "l_Burst l \<ge> 0" "l_Burst l \<le> MaxCeiling" "l_Requests l \<le> MaxCeiling - l_Burst l"
    using N n(6,7) by (auto simp: Normalize_def Let_def split: if_splits)
  have "l\<lparr>l_Window := l_Window l\<rparr> = l" by (cases l) simp
  then have u: "l\<lparr>l_Window := millis_of l * Millisecond\<rparr> = l" by (simp only: W(1) [symmetric])
  have w: "0 < l_Window l" "l_Window l \<le> MaxWindow" using n(1,10) W by simp_all
  show ?thesis
    unfolding Normalize_def Let_def d using r p i u w by (simp add: ceiling_of_def)
qed

text \<open>The limiter and a clock in milliseconds: a sleep takes at least as long as asked.\<close>

definition timed_allow :: "string \<Rightarrow> limit \<Rightarrow> rate_memory \<times> int \<Rightarrow> rate_result res \<times> rate_memory \<times> int" where
  "timed_allow key l s =
     (case Memory_Allow None None None (snd s) key l (fst s) of (res, m) \<Rightarrow> (res, m, snd s))"

definition timed_sleep :: "(int \<Rightarrow> int) \<Rightarrow> duration \<Rightarrow> rate_memory \<times> int \<Rightarrow> rate_memory \<times> int" where
  "timed_sleep late d s = (fst s, snd s + d div Millisecond + late (snd s))"

definition quiet :: acquire_turn where
  "quiet = \<lparr>at_before = None, at_after = None, at_wait = None\<rparr>"

lemma Acquire_quiet:
  "Acquire_loop (timed_allow key l) sleep (quiet # ts) (m, t) =
     (case Memory_Allow None None None t key l m of
        (Inl e, m') \<Rightarrow> Some (Some (Wrapped (''ratelimiter: acquire: '' @ error_text e) e), m', t)
      | (Inr r, m') \<Rightarrow> if r_Allowed r then Some (None, m', t)
          else Acquire_loop (timed_allow key l) sleep ts (sleep (max (r_RetryAfter r) minRetryWait) (m', t)))"
  by (simp add: quiet_def timed_allow_def split: prod.splits sum.splits)

lemma denied_sleep:
  assumes "denied l key t r m w" and "0 \<le> late t"
  shows "timed_sleep late (max (r_RetryAfter r) minRetryWait) (m, t) =
      (m, w_start w + millis_of l + late t)"
    and "clear_for key l (w_start w + millis_of l + late t) m"
    and "w_start w \<le> t"
proof -
  have "window_ok w" using assms(1) rate_inv_get by (auto simp: denied_def)
  then have t: "t < w_start w + millis_of l" "w_start w \<le> t" using assms(1) by (auto simp: denied_def window_ok_def)
  then show "timed_sleep late (max (r_RetryAfter r) minRetryWait) (m, t) = (m, w_start w + millis_of l + late t)"
    using assms(1) by (simp add: timed_sleep_def denied_def minRetryWait_def)
  show "clear_for key l (w_start w + millis_of l + late t) m" "w_start w \<le> t"
    using assms t by (auto simp: clear_for_def denied_def)
qed

section \<open>Properties of the limiter\<close>

text \<open>
  Property C35.  The limiter's 64-bit arithmetic never overflows: from every state that calls can
  reach, and for every clock reading within \<open>2^61\<close> milliseconds of the epoch, \<open>Allow\<close> computes the
  same answer and the same state as the same code over unbounded integers, and keeps the invariant:
  at most \<open>maxEntries\<close> tracked keys, and for each window nonnegative counts whose product with the
  window length stays below \<open>2^52\<close>.
\<close>

theorem Allow_no_overflow:
  assumes "rate_inv m" and "in_range clock"
  shows "Memory_Allow c1 c2 c3 clock key l m = Allow id c1 c2 c3 clock key l m \<and>
    rate_inv (snd (Memory_Allow c1 c2 c3 clock key l m))"
  using Allow_exact [OF assms] Allow_inv [OF assms] by (simp add: Memory_Allow_def)

definition demo_rate :: rate_memory where
  "demo_rate = projr (rate_NewMemory [Some 2])"

theorem Allow_no_overflow_witness:
  "rate_inv demo_rate \<and> in_range 1700000000000 \<and>
   Memory_Allow None None None 1700000000000 ''k'' (PerMinute 3) demo_rate =
     Allow id None None None 1700000000000 ''k'' (PerMinute 3) demo_rate"
proof -
  have inv: "rate_inv demo_rate" by code_simp
  have "in_range 1700000000000" by code_simp
  with inv Allow_no_overflow [OF inv this] show ?thesis by blast
qed

text \<open>
  Property C17.  The budget holds.  Over any history of calls from a new limiter, with any other keys
  interleaved and a clock that does not run backwards: if every request for a key uses one window of
  \<open>d\<close> milliseconds and a ceiling of at most \<open>c\<close>, and the key is not reset, then in every interval of
  \<open>d\<close> milliseconds at most \<open>2 * c\<close> requests for the key are admitted.
\<close>

theorem admission_bound:
  assumes "rate_NewMemory opts = Inr m" and "ticking t0 ops" and "\<forall>op\<in>set ops. budgeted key d c op"
    and "0 < d" and "0 \<le> c"
  shows "int (length (filter (\<lambda>(b, t). a \<le> t \<and> t < a + d) (admissions key ops m))) \<le> 2 * c"
proof -
  have m: "rm_windows m = []" using assms(1) by (auto simp: rate_NewMemory_def Let_def split: if_splits)
  then have "ledger d c t0 [] (map_get (rm_windows m) key)" using assms(5) by (simp add: ledger_def bucket_size_def)
  from ledger_run [OF this rate_inv_New [OF assms(1)] assms(2-4)]
  obtain t w where "ledger d c t (admissions key ops m) w" by auto
  from ledger_bound [OF this assms(4,5)] show ?thesis .
qed

theorem admission_bound_witness:
  "let ops = [RAllow None None None 100 ''k'' (PerSecond 1), RAllow None None None 150 ''j'' (PerMinute 1),
              RAllow None None None 900 ''k'' (PerSecond 1), RAllow None None None 1500 ''k'' (PerSecond 1)] in
   map snd (admissions ''k'' ops demo_rate) = [100, 1500] \<and>
   int (length (filter (\<lambda>(b, t). 1000 \<le> t \<and> t < 1000 + 1000) (admissions ''k'' ops demo_rate))) \<le> 2 * 1"
proof -
  let ?ops = "[RAllow None None None 100 ''k'' (PerSecond 1), RAllow None None None 150 ''j'' (PerMinute 1),
              RAllow None None None 900 ''k'' (PerSecond 1), RAllow None None None 1500 ''k'' (PerSecond 1)]"
  have "rate_NewMemory [Some 2] = Inr demo_rate" "ticking 0 ?ops" "\<forall>op\<in>set ?ops. budgeted ''k'' 1000 1 op"
    by code_simp+
  from admission_bound [OF this, of 1000]
  have "int (length (filter (\<lambda>(b, t). 1000 \<le> t \<and> t < 1000 + 1000) (admissions ''k'' ?ops demo_rate))) \<le> 2 * 1"
    by simp
  moreover have "map snd (admissions ''k'' ?ops demo_rate) = [100, 1500]" by code_simp
  ultimately show ?thesis by simp
qed

text \<open>
  Property C34.  A waiter gets in.  Take a consistent limiter in which nothing but the count can
  refuse the key: the limiter has room for one more key, or it already holds a window for this key,
  of the length the limit asks for and last touched no later than the clock.  If the waiter's context
  stays live, nobody else uses the limiter meanwhile, the clock lies within \<open>2 ^ 60\<close> milliseconds of the
  epoch and no timer is more than \<open>2 ^ 58\<close> milliseconds late, then \<open>Acquire\<close> returns nil at the latest on
  its third attempt, however many calls the window and the one before it have counted: the first
  denial waits out the running bucket, a second one the bucket that still carries the previous count,
  and the next bucket carries none.
\<close>

theorem Acquire_admitted:
  assumes clear: "clear_for key l t m" and l: "Normalize l0 = Inr l" and key: "key \<noteq> []"
    and t: "- (2 ^ 60) \<le> t" "t \<le> 2 ^ 60" and late: "\<forall>x. 0 \<le> late x \<and> late x \<le> 2 ^ 58"
  shows "\<exists>s. Acquire None (timed_allow key) (timed_sleep late) key l0 [quiet, quiet, quiet] (m, t) = Some (None, s)"
proof -
  let ?d = "millis_of l"
  let ?loop = "Acquire_loop (timed_allow key l) (timed_sleep late)"
  have d: "0 < ?d" "?d \<le> 2 ^ 52" using Normalize_ok(1) [OF l] Normalize_small [OF l] by (simp_all add: maxWindowProduct_def)
  have late': "0 \<le> late x" "late x \<le> 2 ^ 58" for x using late by blast+
  note idem = Normalize_idem [OF l]
  have start: "Acquire None (timed_allow key) (timed_sleep late) key l0 [quiet, quiet, quiet] (m, t) =
      ?loop [quiet, quiet, quiet] (m, t)" using key l by (simp add: Acquire_def checkKey_def del: Acquire_loop.simps)
  have r0: "in_range t" using t by (simp add: in_range_def)
  from clear r0 key idem show ?thesis unfolding start
  proof (cases rule: Allow_attempt)
    case (allowed r m')
    then show "\<exists>s. ?loop [quiet, quiet, quiet] (m, t) = Some (None, s)" by (simp add: Acquire_quiet del: Acquire_loop.simps)
  next
    case (wait r1 m1 w1)
    define t1 where "t1 = w_start w1 + ?d + late t"
    note s1 = denied_sleep [where late = late, OF wait(3) late'(1), folded t1_def]
    have r1: "in_range t1" and b1: "t1 \<le> 2 ^ 60 + 2 ^ 52 + 2 ^ 58"
      using s1(3) d late'(1,2) [of t] wait(3) t by (auto simp: t1_def in_range_def denied_def window_ok_def dest!: rate_inv_get)
    have "\<exists>s. ?loop [quiet, quiet] (m1, t1) = Some (None, s)"
      using s1(2) r1 key idem
    proof (cases rule: Allow_attempt)
      case (allowed r m')
      then show ?thesis by (simp add: Acquire_quiet del: Acquire_loop.simps)
    next
      case wait2: (wait r2 m2 w2)
      have "map_get (rm_windows m1) key = Some w1" using wait(3) by (simp add: denied_def)
      from wait2(4) [OF this] have zero: "w_count w2 = 0" using late'(1) by (simp add: t1_def)
      define t2 where "t2 = w_start w2 + ?d + late t1"
      note s2 = denied_sleep [where late = late, OF wait2(3) late'(1), folded t2_def]
      have r2: "in_range t2"
        using s2(3) d late'(1,2) [of t1] wait2(3) b1
        by (auto simp: t2_def in_range_def denied_def window_ok_def dest!: rate_inv_get)
      have "\<exists>s. ?loop [quiet] (m2, t2) = Some (None, s)"
        using s2(2) r2 key idem
      proof (cases rule: Allow_attempt)
        case (allowed r m')
        then show ?thesis by (simp add: Acquire_quiet del: Acquire_loop.simps)
      next
        case wait3: (wait r3 m3 w3)
        have "map_get (rm_windows m2) key = Some w2" using wait2(3) by (simp add: denied_def)
        from wait3(4) [OF this] zero late'(1) show ?thesis by (simp add: t2_def)
      qed
      with wait2 s2(1) show ?thesis by (simp add: Acquire_quiet del: Acquire_loop.simps)
    qed
    with wait s1(1) show "\<exists>s. ?loop [quiet, quiet, quiet] (m, t) = Some (None, s)" by (simp add: Acquire_quiet del: Acquire_loop.simps)
  qed
qed

definition demo_busy :: rate_memory where
  "demo_busy = rate_step (RAllow None None None 100 ''k'' (PerSecond 1)) demo_rate"

theorem Acquire_admitted_witness:
  "clear_for ''k'' (PerSecond 1) 900 demo_busy \<and>
   (\<exists>s. Acquire None (timed_allow ''k'') (timed_sleep (\<lambda>x. 7)) ''k'' (PerSecond 1) [quiet, quiet, quiet] (demo_busy, 900) =
      Some (None, s)) \<and>
   Acquire None (timed_allow ''k'') (timed_sleep (\<lambda>x. 7)) ''k'' (PerSecond 1) [quiet] (demo_busy, 900) = None"
proof -
  have clear: "clear_for ''k'' (PerSecond 1) 900 demo_busy" by code_simp
  have norm: "Normalize (PerSecond 1) = Inr (PerSecond 1)" by code_simp
  have "Acquire None (timed_allow ''k'') (timed_sleep (\<lambda>x. 7)) ''k'' (PerSecond 1) [quiet] (demo_busy, 900) = None"
    by code_simp
  with clear Acquire_admitted [OF clear norm, of "\<lambda>x. 7"] show ?thesis by simp
qed

text \<open>
  Without \<open>FailOpen\<close> a request reaches the downstream handler only through a granted admission of its
  own key under the validated limit, and only while its caller is still there.
\<close>

lemma Middleware_fail_closed:
  assumes "Middleware lim cfg ctx1 ctx2 ctx3 ctx4 req s = (Serve, s')" and "\<not> mw_FailOpen cfg"
  shows "\<exists>allow key l r. lim = Some allow \<and> mw_Key cfg = Some key \<and> Normalize (mw_Limit cfg) = Inr l \<and>
    key req \<noteq> [] \<and> allow (key req) l s = (Inr r, s') \<and> r_Allowed r \<and> ctx1 = None \<and> ctx3 = None"
  using assms
  by (auto simp: Middleware_def checkKey_def split: if_splits option.splits sum.splits prod.splits)

end
