(* ===== verification/Cacher.thy ===== *)
theory Cacher
  imports Prelude
begin

text \<open>
  The in-process cache of \<open>src/sdk/capabilities/cacher\<close>: \<open>memory.go\<close> with its map of pointers into
  a doubly linked recency list, the disabled store of \<open>noop.go\<close>, and the namespacing front
  \<open>Cache\<close> of \<open>cacher.go\<close>.  A list element is a cell of the heap \<open>ca_elems\<close>; the map \<open>ca_data\<close> and the
  list \<open>ca_lru\<close> (front first) hold cell numbers, as the Go structures hold element pointers.  An
  expiry of zero means no expiry, as the zero \<open>time.Time\<close> does.
\<close>

section \<open>The memory store\<close>

record mem_entry =
  me_key :: string
  me_value :: bytes
  me_expires :: time

record cache_memory =
  ca_data :: "(string, nat) go_map"
  ca_lru :: "nat list"
  ca_elems :: "nat \<Rightarrow> mem_entry"
  ca_next :: nat   \<comment> \<open>the next cell to allocate\<close>
  ca_maxEntries :: int

definition defaultMaxEntries :: int where
  "defaultMaxEntries = 10000"

text \<open>The options are the successive \<open>WithMaxEntries\<close> values; the last one counts.\<close>

definition cache_NewMemory :: "int option list \<Rightarrow> string + cache_memory" where
  "cache_NewMemory opts =
     (if None \<in> set opts then Inl ''cacher.NewMemory: nil option''
      else
        let n = (if opts = [] then 0 else the (last opts))
        in Inr \<lparr>ca_data = [], ca_lru = [], ca_elems = (\<lambda>_. \<lparr>me_key = [], me_value = [], me_expires = zero_time\<rparr>),
                ca_next = 0, ca_maxEntries = (if n \<le> 0 then defaultMaxEntries else n)\<rparr>)"

definition expired :: "time \<Rightarrow> mem_entry \<Rightarrow> bool" where
  "expired now e \<longleftrightarrow> me_expires e \<noteq> zero_time \<and> \<not> now < me_expires e"

definition cache_remove :: "nat \<Rightarrow> cache_memory \<Rightarrow> cache_memory" where
  "cache_remove c m =
     m\<lparr>ca_data := map_del (me_key (ca_elems m c)) (ca_data m), ca_lru := remove1 c (ca_lru m)\<rparr>"

definition MoveToFront :: "nat \<Rightarrow> cache_memory \<Rightarrow> cache_memory" where
  "MoveToFront c m = m\<lparr>ca_lru := c # remove1 c (ca_lru m)\<rparr>"

definition cache_get :: "string \<Rightarrow> time \<Rightarrow> cache_memory \<Rightarrow> bytes option \<times> cache_memory" where
  "cache_get key now m =
     (case map_get (ca_data m) key of
        None \<Rightarrow> (None, m)
      | Some c \<Rightarrow>
          if expired now (ca_elems m c) then (None, cache_remove c m)
          else (Some (me_value (ca_elems m c)), MoveToFront c m))"

definition cache_Get :: "error \<Rightarrow> string \<Rightarrow> time \<Rightarrow> cache_memory \<Rightarrow> bytes option res \<times> cache_memory" where
  "cache_Get ctxErr key now m =
     (case ctxErr of
        Some e \<Rightarrow> (Inl e, m)
      | None \<Rightarrow> let (v, m') = cache_get key now m in (Inr v, m'))"

fun get_many :: "string list \<Rightarrow> time \<Rightarrow> cache_memory \<Rightarrow> (string, bytes) go_map \<Rightarrow> (string, bytes) go_map \<times> cache_memory" where
  "get_many [] now m out = (out, m)"
| "get_many (key # keys) now m out =
     (case cache_get key now m of
        (Some v, m') \<Rightarrow> get_many keys now m' (map_put key v out)
      | (None, m') \<Rightarrow> get_many keys now m' out)"

definition cache_GetMany :: "error \<Rightarrow> string list \<Rightarrow> time \<Rightarrow> cache_memory \<Rightarrow> (string, bytes) go_map res \<times> cache_memory" where
  "cache_GetMany ctxErr keys now m =
     (case ctxErr of
        Some e \<Rightarrow> (Inl e, m)
      | None \<Rightarrow> let (out, m') = get_many keys now m [] in (Inr out, m'))"

definition errNegativeTTL :: go_error where
  "errNegativeTTL = Wrapped ''cacher: TTL must not be negative: invalid input'' ErrInvalidInput"

definition validateSet :: "error \<Rightarrow> duration \<Rightarrow> error" where
  "validateSet ctxErr ttl =
     (case ctxErr of Some e \<Rightarrow> Some e | None \<Rightarrow> if ttl < 0 then Some errNegativeTTL else None)"

text \<open>
  The two loops that range over the map while they remove elements from it: the sweep of \<open>Set\<close> at
  capacity and \<open>DeletePrefix\<close>.
\<close>

fun remove_where :: "(string \<Rightarrow> mem_entry \<Rightarrow> bool) \<Rightarrow> (string \<times> nat) list \<Rightarrow> cache_memory \<Rightarrow> cache_memory" where
  "remove_where P [] m = m"
| "remove_where P ((k, c) # rest) m = remove_where P rest (if P k (ca_elems m c) then cache_remove c m else m)"

definition make_room :: "time \<Rightarrow> cache_memory \<Rightarrow> cache_memory" where
  "make_room now m =
     (if ca_maxEntries m \<le> int (length (ca_data m)) then
        let m1 = remove_where (\<lambda>k. expired now) (ca_data m) m
        in if ca_maxEntries m1 \<le> int (length (ca_data m1)) then cache_remove (last (ca_lru m1)) m1 else m1
      else m)"

definition PushFront :: "mem_entry \<Rightarrow> cache_memory \<Rightarrow> nat \<times> cache_memory" where
  "PushFront e m =
     (ca_next m, m\<lparr>ca_elems := (ca_elems m)(ca_next m := e), ca_lru := ca_next m # ca_lru m, ca_next := Suc (ca_next m)\<rparr>)"

definition cache_Set :: "error \<Rightarrow> string \<Rightarrow> bytes \<Rightarrow> duration \<Rightarrow> time \<Rightarrow> cache_memory \<Rightarrow> error \<times> cache_memory" where
  "cache_Set ctxErr key value ttl now m =
     (case validateSet ctxErr ttl of
        Some e \<Rightarrow> (Some e, m)
      | None \<Rightarrow>
          let entry = \<lparr>me_key = key, me_value = value, me_expires = (if 0 < ttl then now + ttl else zero_time)\<rparr>
          in (case map_get (ca_data m) key of
                Some c \<Rightarrow> (None, MoveToFront c (m\<lparr>ca_elems := (ca_elems m)(c := entry)\<rparr>))
              | None \<Rightarrow>
                  let (c, m2) = PushFront entry (make_room now m)
                  in (None, m2\<lparr>ca_data := map_put key c (ca_data m2)\<rparr>)))"

definition cache_Delete :: "error \<Rightarrow> string \<Rightarrow> cache_memory \<Rightarrow> error \<times> cache_memory" where
  "cache_Delete ctxErr key m =
     (case ctxErr of
        Some e \<Rightarrow> (Some e, m)
      | None \<Rightarrow> (None, case map_get (ca_data m) key of None \<Rightarrow> m | Some c \<Rightarrow> cache_remove c m))"

definition HasPrefix :: "string \<Rightarrow> string \<Rightarrow> bool" where
  "HasPrefix s p \<longleftrightarrow> take (length p) s = p"

definition cache_DeletePrefix :: "error \<Rightarrow> string \<Rightarrow> cache_memory \<Rightarrow> error \<times> cache_memory" where
  "cache_DeletePrefix ctxErr p m =
     (case ctxErr of
        Some e \<Rightarrow> (Some e, m)
      | None \<Rightarrow> (None, remove_where (\<lambda>k e. HasPrefix k p) (ca_data m) m))"

section \<open>The namespacing front\<close>

text \<open>
  \<open>Storer\<close> with the optional \<open>PrefixDeleter\<close>, over a state.  Each method of \<open>Cache\<close> reads the context
  before the store call and again after it.
\<close>

record 's storer =
  so_Get :: "error \<Rightarrow> string \<Rightarrow> 's \<Rightarrow> bytes option res \<times> 's"
  so_GetMany :: "error \<Rightarrow> string list \<Rightarrow> 's \<Rightarrow> (string, bytes) go_map res \<times> 's"
  so_Set :: "error \<Rightarrow> string \<Rightarrow> bytes \<Rightarrow> duration \<Rightarrow> 's \<Rightarrow> error \<times> 's"
  so_Delete :: "error \<Rightarrow> string \<Rightarrow> 's \<Rightarrow> error \<times> 's"
  so_DeletePrefix :: "(error \<Rightarrow> string \<Rightarrow> 's \<Rightarrow> error \<times> 's) option"

definition memory_storer :: "time \<Rightarrow> cache_memory storer" where
  "memory_storer now =
     \<lparr>so_Get = (\<lambda>ctx key. cache_Get ctx key now), so_GetMany = (\<lambda>ctx keys. cache_GetMany ctx keys now),
      so_Set = (\<lambda>ctx key v ttl. cache_Set ctx key v ttl now), so_Delete = cache_Delete,
      so_DeletePrefix = Some cache_DeletePrefix\<rparr>"

definition Noop :: "'s storer" where
  "Noop =
     \<lparr>so_Get = (\<lambda>ctx key s. (case ctx of Some e \<Rightarrow> Inl e | None \<Rightarrow> Inr None, s)),
      so_GetMany = (\<lambda>ctx keys s. (case ctx of Some e \<Rightarrow> Inl e | None \<Rightarrow> Inr [], s)),
      so_Set = (\<lambda>ctx key v ttl s. (validateSet ctx ttl, s)),
      so_Delete = (\<lambda>ctx key s. (ctx, s)),
      so_DeletePrefix = Some (\<lambda>ctx p s. (ctx, s))\<rparr>"

record 's cache =
  c_storer :: "'s storer"
  c_prefix :: string

definition frame :: "string \<Rightarrow> string" where
  "frame ns = print_int (int (length ns)) @ '':'' @ ns @ '':''"

text \<open>\<open>New\<close>: the options are the successive \<open>WithNamespace\<close> values.\<close>

definition NewCache :: "'s storer option \<Rightarrow> string option list \<Rightarrow> string + 's cache" where
  "NewCache st opts =
     (if None \<in> set opts then Inl ''cacher.New: nil option''
      else
        let ns = (if opts = [] then [] else the (last opts))
        in Inr \<lparr>c_storer = (case st of None \<Rightarrow> Noop | Some x \<Rightarrow> x), c_prefix = frame ns\<rparr>)"

definition finish :: "error \<Rightarrow> error \<Rightarrow> error" where
  "finish ctxAfter err = (case ctxAfter of Some e \<Rightarrow> Some e | None \<Rightarrow> err)"

definition finish_res :: "error \<Rightarrow> 'a res \<Rightarrow> 'a res" where
  "finish_res ctxAfter r =
     (case finish ctxAfter (case r of Inl e \<Rightarrow> Some e | Inr _ \<Rightarrow> None) of Some e \<Rightarrow> Inl e | None \<Rightarrow> r)"

definition Cache_Get :: "'s cache \<Rightarrow> error \<Rightarrow> error \<Rightarrow> error \<Rightarrow> string \<Rightarrow> 's \<Rightarrow> bytes option res \<times> 's" where
  "Cache_Get c ctx1 ctx2 ctx3 key s =
     (case ctx1 of
        Some e \<Rightarrow> (Inl e, s)
      | None \<Rightarrow> let (r, s') = so_Get (c_storer c) ctx2 (c_prefix c @ key) s in (finish_res ctx3 r, s'))"

fun collect_found :: "string \<Rightarrow> string list \<Rightarrow> (string, bytes) go_map \<Rightarrow> (string, bytes) go_map \<Rightarrow> (string, bytes) go_map" where
  "collect_found p [] vals out = out"
| "collect_found p (k # ks) vals out =
     collect_found p ks vals (case map_get vals (p @ k) of Some v \<Rightarrow> map_put k v out | None \<Rightarrow> out)"

definition Cache_GetMany :: "'s cache \<Rightarrow> error \<Rightarrow> error \<Rightarrow> error \<Rightarrow> string list \<Rightarrow> 's \<Rightarrow> (string, bytes) go_map res \<times> 's" where
  "Cache_GetMany c ctx1 ctx2 ctx3 keys s =
     (case ctx1 of
        Some e \<Rightarrow> (Inl e, s)
      | None \<Rightarrow>
          let (r, s') = so_GetMany (c_storer c) ctx2 (map (\<lambda>k. c_prefix c @ k) keys) s
          in (case finish_res ctx3 r of
                Inl e \<Rightarrow> (Inl e, s')
              | Inr vals \<Rightarrow> (Inr (collect_found (c_prefix c) keys vals []), s')))"

definition Cache_Set :: "'s cache \<Rightarrow> error \<Rightarrow> error \<Rightarrow> error \<Rightarrow> string \<Rightarrow> bytes \<Rightarrow> duration \<Rightarrow> 's \<Rightarrow> error \<times> 's" where
  "Cache_Set c ctx1 ctx2 ctx3 key v ttl s =
     (case validateSet ctx1 ttl of
        Some e \<Rightarrow> (Some e, s)
      | None \<Rightarrow> let (r, s') = so_Set (c_storer c) ctx2 (c_prefix c @ key) v ttl s in (finish ctx3 r, s'))"

definition Cache_Delete :: "'s cache \<Rightarrow> error \<Rightarrow> error \<Rightarrow> error \<Rightarrow> string \<Rightarrow> 's \<Rightarrow> error \<times> 's" where
  "Cache_Delete c ctx1 ctx2 ctx3 key s =
     (case ctx1 of
        Some e \<Rightarrow> (Some e, s)
      | None \<Rightarrow> let (r, s') = so_Delete (c_storer c) ctx2 (c_prefix c @ key) s in (finish ctx3 r, s'))"

definition ErrUnsupported :: go_error where
  "ErrUnsupported = ForeignError ''unsupported operation''"

definition InvalidatePrefix :: "'s cache \<Rightarrow> error \<Rightarrow> error \<Rightarrow> error \<Rightarrow> string \<Rightarrow> 's \<Rightarrow> error \<times> 's" where
  "InvalidatePrefix c ctx1 ctx2 ctx3 p s =
     (case ctx1 of
        Some e \<Rightarrow> (Some e, s)
      | None \<Rightarrow>
     (case so_DeletePrefix (c_storer c) of
        None \<Rightarrow> (Some ErrUnsupported, s)
      | Some del \<Rightarrow> let (r, s') = del ctx2 (c_prefix c @ p) s in (finish ctx3 r, s')))"

section \<open>The abstract cache\<close>

text \<open>
  What the store promises: a list of entries with distinct keys, most recently used first.  A full
  list first drops what has expired, and only then its last entry.
\<close>

definition lru_remove :: "string \<Rightarrow> mem_entry list \<Rightarrow> mem_entry list" where
  "lru_remove k es = filter (\<lambda>e. me_key e \<noteq> k) es"

definition lru_find :: "string \<Rightarrow> mem_entry list \<Rightarrow> mem_entry option" where
  "lru_find k es = find (\<lambda>e. me_key e = k) es"

definition lru_get :: "string \<Rightarrow> time \<Rightarrow> mem_entry list \<Rightarrow> bytes option \<times> mem_entry list" where
  "lru_get k now es =
     (case lru_find k es of
        None \<Rightarrow> (None, es)
      | Some e \<Rightarrow> if expired now e then (None, lru_remove k es) else (Some (me_value e), e # lru_remove k es))"

definition lru_room :: "int \<Rightarrow> time \<Rightarrow> mem_entry list \<Rightarrow> mem_entry list" where
  "lru_room n now es =
     (if n \<le> int (length es) then
        let es1 = filter (\<lambda>e. \<not> expired now e) es in if n \<le> int (length es1) then butlast es1 else es1
      else es)"

definition lru_set :: "int \<Rightarrow> time \<Rightarrow> mem_entry \<Rightarrow> mem_entry list \<Rightarrow> mem_entry list" where
  "lru_set n now e es =
     (case lru_find (me_key e) es of
        Some _ \<Rightarrow> e # lru_remove (me_key e) es
      | None \<Rightarrow> e # lru_room n now es)"

section \<open>The map and the list stay in step\<close>

definition contents :: "cache_memory \<Rightarrow> mem_entry list" where
  "contents m = map (ca_elems m) (ca_lru m)"

abbreviation cell_key :: "cache_memory \<Rightarrow> nat \<Rightarrow> string" where
  "cell_key m c \<equiv> me_key (ca_elems m c)"

definition cache_ok :: "cache_memory \<Rightarrow> bool" where
  "cache_ok m \<longleftrightarrow> distinct (ca_lru m) \<and> map_ok (ca_data m) \<and>
     (\<forall>k c. map_get (ca_data m) k = Some c \<longleftrightarrow> c \<in> set (ca_lru m) \<and> cell_key m c = k) \<and>
     (\<forall>c\<in>set (ca_lru m). c < ca_next m)"

lemma cell_key_inj:
  "cache_ok m \<Longrightarrow> c \<in> set (ca_lru m) \<Longrightarrow> c' \<in> set (ca_lru m) \<Longrightarrow> cell_key m c = cell_key m c' \<Longrightarrow> c = c'"
  unfolding cache_ok_def by (metis option.inject)

lemma contents_remove_gen:
  "distinct cs \<Longrightarrow> c \<in> set cs \<Longrightarrow> inj_on (\<lambda>c. me_key (f c)) (set cs) \<Longrightarrow>
     map f (remove1 c cs) = lru_remove (me_key (f c)) (map f cs)"
  unfolding distinct_remove1_removeAll removeAll_filter_not_eq lru_remove_def filter_map o_def
  by (intro arg_cong [of _ _ "map f"] filter_cong) (auto simp: inj_on_def)

lemma find_map_unique:
  "c \<in> set cs \<Longrightarrow> P (f c) \<Longrightarrow> (\<And>c'. c' \<in> set cs \<Longrightarrow> P (f c') \<Longrightarrow> c' = c) \<Longrightarrow> find P (map f cs) = Some (f c)"
proof (induction cs)
  case (Cons a cs)
  show ?case
  proof (cases "P (f a)")
    case True
    with Cons.prems(3) [of a] show ?thesis by simp
  next
    case False
    with Cons.prems(1,2) have "c \<in> set cs" by auto
    from Cons.IH [OF this Cons.prems(2)] Cons.prems(3) False show ?thesis by simp
  qed
qed simp

lemma remove_contents:
  assumes "cache_ok m" "c \<in> set (ca_lru m)"
  shows "contents (cache_remove c m) = lru_remove (cell_key m c) (contents m)"
  using assms cell_key_inj [OF assms(1)]
  by (simp add: contents_def cache_remove_def contents_remove_gen cache_ok_def inj_on_def)

lemma remove_ok:
  assumes "cache_ok m" "c \<in> set (ca_lru m)"
  shows "cache_ok (cache_remove c m)"
  using assms cell_key_inj [OF assms(1) _ assms(2)]
  by (auto simp: cache_ok_def cache_remove_def map_ok_del set_remove1_eq split: if_splits)

lemma length_data:
  assumes "cache_ok m"
  shows "length (ca_data m) = length (ca_lru m)"
proof -
  have "card (dom (map_get (ca_data m))) = length (ca_data m)"
    using assms by (simp add: cache_ok_def dom_map_of_conv_image_fst distinct_card [of "map fst (ca_data m)", simplified])
  moreover have "dom (map_get (ca_data m)) = cell_key m ` set (ca_lru m)"
    using assms by (auto simp: cache_ok_def dom_def)
  moreover have "card (cell_key m ` set (ca_lru m)) = card (set (ca_lru m))"
    using cell_key_inj [OF assms] by (intro card_image) (auto simp: inj_on_def)
  ultimately show ?thesis using assms by (simp add: cache_ok_def distinct_card)
qed

lemma find_contents:
  assumes "cache_ok m"
  shows "lru_find k (contents m) = map_option (ca_elems m) (map_get (ca_data m) k)"
proof (cases "map_get (ca_data m) k")
  case None
  then have "\<forall>c\<in>set (ca_lru m). cell_key m c \<noteq> k" using assms unfolding cache_ok_def by (metis option.distinct(1))
  with None show ?thesis by (simp add: lru_find_def find_None_iff contents_def)
next
  case (Some c)
  then have c: "c \<in> set (ca_lru m)" "cell_key m c = k" using assms by (simp_all add: cache_ok_def)
  have "find (\<lambda>e. me_key e = k) (map (ca_elems m) (ca_lru m)) = Some (ca_elems m c)"
    using c cell_key_inj [OF assms _ c(1)] by (intro find_map_unique) blast+
  with Some show ?thesis by (simp add: lru_find_def contents_def)
qed

lemma move_contents:
  assumes "cache_ok m" "c \<in> set (ca_lru m)"
  shows "contents (MoveToFront c m) = ca_elems m c # lru_remove (cell_key m c) (contents m)"
    and "cache_ok (MoveToFront c m)"
  using assms cell_key_inj [OF assms(1)]
  by (simp_all add: contents_def MoveToFront_def contents_remove_gen cache_ok_def inj_on_def)
    (auto simp: set_remove1_eq)

lemma get_refines:
  assumes "cache_ok m" and "cache_get k now m = (r, m')"
  shows "lru_get k now (contents m) = (r, contents m') \<and> cache_ok m' \<and> ca_maxEntries m' = ca_maxEntries m"
proof (cases "map_get (ca_data m) k")
  case None
  with assms show ?thesis by (simp add: cache_get_def lru_get_def find_contents)
next
  case (Some c)
  then have "c \<in> set (ca_lru m)" "cell_key m c = k" using assms(1) by (simp_all add: cache_ok_def)
  with Some assms remove_contents [OF assms(1)] remove_ok [OF assms(1)] move_contents [OF assms(1)] show ?thesis
    by (auto simp: cache_get_def lru_get_def find_contents cache_remove_def MoveToFront_def split: if_splits)
qed

lemma remove_where_refines:
  assumes "cache_ok m" and "distinct (map fst rest)" and "\<forall>(k, c)\<in>set rest. map_get (ca_data m) k = Some c"
  shows "contents (remove_where P rest m) =
      filter (\<lambda>e. \<not> (P (me_key e) e \<and> me_key e \<in> fst ` set rest)) (contents m) \<and>
    cache_ok (remove_where P rest m) \<and> ca_maxEntries (remove_where P rest m) = ca_maxEntries m \<and>
    ca_next (remove_where P rest m) = ca_next m"
  using assms
proof (induction P rest m rule: remove_where.induct)
  case (2 P k c rest m)
  have c: "c \<in> set (ca_lru m)" "cell_key m c = k" using "2.prems"(1,3) by (auto simp: cache_ok_def)
  let ?m = "if P k (ca_elems m c) then cache_remove c m else m"
  have ok: "cache_ok ?m" using "2.prems"(1) remove_ok c by simp
  have "map_get (ca_data ?m) k' = Some c'" if "(k', c') \<in> set rest" for k' c'
  proof -
    have "k' \<noteq> k" using "2.prems"(2) that by (force simp: image_iff)
    then show ?thesis using "2.prems"(3) that c(2) by (auto simp: cache_remove_def)
  qed
  then have rest: "\<forall>(k', c')\<in>set rest. map_get (ca_data ?m) k' = Some c'" by blast
  note IH = "2.IH" [OF ok _ rest]
  have only: "e = ca_elems m c" if "e \<in> set (contents m)" "me_key e = k" for e
    using that c cell_key_inj [OF "2.prems"(1)] by (auto simp: contents_def)
  have "contents (remove_where P rest ?m) =
      filter (\<lambda>e. \<not> (P (me_key e) e \<and> me_key e \<in> fst ` set rest)) (contents ?m)"
    using IH "2.prems"(2) by simp
  also have "\<dots> = filter (\<lambda>e. \<not> (P (me_key e) e \<and> me_key e \<in> fst ` set ((k, c) # rest))) (contents m)"
  proof (cases "P k (ca_elems m c)")
    case True
    have "filter (\<lambda>e. \<not> (P (me_key e) e \<and> me_key e \<in> fst ` set rest)) (lru_remove k (contents m)) =
        filter (\<lambda>e. \<not> (P (me_key e) e \<and> me_key e \<in> fst ` set ((k, c) # rest))) (contents m)"
      unfolding lru_remove_def filter_filter using only True c(2) by (intro filter_cong) auto
    with True remove_contents [OF "2.prems"(1) c(1)] c(2) show ?thesis by simp
  next
    case False
    have "filter (\<lambda>e. \<not> (P (me_key e) e \<and> me_key e \<in> fst ` set rest)) (contents m) =
        filter (\<lambda>e. \<not> (P (me_key e) e \<and> me_key e \<in> fst ` set ((k, c) # rest))) (contents m)"
      using only False by (intro filter_cong) auto
    with False show ?thesis by simp
  qed
  finally show ?case using IH "2.prems"(2) by (simp add: cache_remove_def)
qed simp

lemma remove_all_where:
  assumes "cache_ok m"
  shows "contents (remove_where P (ca_data m) m) = filter (\<lambda>e. \<not> P (me_key e) e) (contents m)"
    and "cache_ok (remove_where P (ca_data m) m)"
    and "ca_maxEntries (remove_where P (ca_data m) m) = ca_maxEntries m"
proof -
  have "map_ok (ca_data m)" using assms by (simp add: cache_ok_def)
  then have "\<forall>(k, c)\<in>set (ca_data m). map_get (ca_data m) k = Some c" by auto
  note R = remove_where_refines [OF assms \<open>map_ok (ca_data m)\<close> this, of P]
  have key: "me_key e \<in> fst ` set (ca_data m)" if "e \<in> set (contents m)" for e
  proof -
    from that obtain c where "c \<in> set (ca_lru m)" "e = ca_elems m c" by (auto simp: contents_def)
    then have "map_get (ca_data m) (me_key e) = Some c" using assms by (simp add: cache_ok_def)
    then show ?thesis by (metis map_of_SomeD fst_conv image_eqI)
  qed
  have "filter (\<lambda>e. \<not> (P (me_key e) e \<and> me_key e \<in> fst ` set (ca_data m))) (contents m) =
      filter (\<lambda>e. \<not> P (me_key e) e) (contents m)"
    by (intro filter_cong refl) (use key in blast)
  then show "contents (remove_where P (ca_data m) m) = filter (\<lambda>e. \<not> P (me_key e) e) (contents m)"
    using R by simp
  show "cache_ok (remove_where P (ca_data m) m)" "ca_maxEntries (remove_where P (ca_data m) m) = ca_maxEntries m"
    using R by blast+
qed

lemma remove1_last: "distinct xs \<Longrightarrow> xs \<noteq> [] \<Longrightarrow> remove1 (last xs) xs = butlast xs"
  by (induction xs) auto

lemma length_contents: "cache_ok m \<Longrightarrow> length (ca_data m) = length (contents m)"
  by (simp add: length_data contents_def)

lemma room_refines:
  assumes ok: "cache_ok m" and n: "1 \<le> ca_maxEntries m"
  shows "contents (make_room now m) = lru_room (ca_maxEntries m) now (contents m)"
    and "cache_ok (make_room now m)" and "ca_maxEntries (make_room now m) = ca_maxEntries m"
proof -
  define m1 where "m1 = remove_where (\<lambda>k. expired now) (ca_data m) m"
  note R = remove_all_where [OF ok, of "\<lambda>k. expired now", folded m1_def]
  have last: "contents (cache_remove (last (ca_lru m1)) m1) = butlast (contents m1) \<and>
      cache_ok (cache_remove (last (ca_lru m1)) m1)" if "ca_lru m1 \<noteq> []"
  proof -
    have "last (ca_lru m1) \<in> set (ca_lru m1)" using that by simp
    moreover have "remove1 (last (ca_lru m1)) (ca_lru m1) = butlast (ca_lru m1)"
      using R(2) that by (intro remove1_last) (simp_all add: cache_ok_def)
    ultimately show ?thesis
      using remove_ok [OF R(2), of "last (ca_lru m1)"] by (simp add: contents_def cache_remove_def map_butlast)
  qed
  have ne: "ca_lru m1 \<noteq> []" if "ca_maxEntries m \<le> int (length (ca_data m1))"
    using that n length_data [OF R(2)] by auto
  have cr: "ca_maxEntries (cache_remove c m) = ca_maxEntries m" for c m by (simp add: cache_remove_def)
  show "contents (make_room now m) = lru_room (ca_maxEntries m) now (contents m)"
    "cache_ok (make_room now m)" "ca_maxEntries (make_room now m) = ca_maxEntries m"
    using ok R last ne length_contents [OF ok] length_contents [OF R(2)]
    by (auto simp: make_room_def lru_room_def Let_def m1_def [symmetric] cr)
qed

lemma set_refines:
  assumes ok: "cache_ok m" and n: "1 \<le> ca_maxEntries m"
    and step: "cache_Set ctx k v ttl now m = (err, m')"
  shows "contents m' = (if validateSet ctx ttl = None
      then lru_set (ca_maxEntries m) now \<lparr>me_key = k, me_value = v, me_expires = (if 0 < ttl then now + ttl else zero_time)\<rparr> (contents m)
      else contents m) \<and>
    cache_ok m' \<and> ca_maxEntries m' = ca_maxEntries m \<and> err = validateSet ctx ttl"
proof (cases "validateSet ctx ttl")
  case (Some e)
  with ok step show ?thesis by (auto simp: cache_Set_def)
next
  case valid: None
  define x where "x = \<lparr>me_key = k, me_value = v, me_expires = (if 0 < ttl then now + ttl else zero_time)\<rparr>"
  have x: "me_key x = k" by (simp add: x_def)
  show ?thesis
  proof (cases "map_get (ca_data m) k")
    case (Some c)
    then have c: "c \<in> set (ca_lru m)" "cell_key m c = k" using ok by (simp_all add: cache_ok_def)
    let ?m = "m\<lparr>ca_elems := (ca_elems m)(c := x)\<rparr>"
    have ok': "cache_ok ?m" using ok c x by (auto simp: cache_ok_def)
    have "lru_remove k (contents ?m) = lru_remove k (contents m)"
      unfolding lru_remove_def contents_def filter_map o_def using c x
      by (auto intro!: arg_cong [of _ _ "map (ca_elems m)"] filter_cong simp: map_eq_conv)
    with move_contents [OF ok'] c x have
      "contents (MoveToFront c ?m) = x # lru_remove k (contents m)" "cache_ok (MoveToFront c ?m)" by simp_all
    moreover have "m' = MoveToFront c ?m" "err = None" using step valid Some by (simp_all add: cache_Set_def x_def Let_def)
    ultimately show ?thesis
      using valid Some by (simp add: lru_set_def find_contents [OF ok] x_def [symmetric] x MoveToFront_def)
  next
    case None
    let ?r = "make_room now m"
    note R = room_refines [OF ok n, of now]
    have absent: "map_get (ca_data ?r) k = None"
    proof -
      have "set (contents ?r) \<subseteq> set (contents m)"
        unfolding R(1) by (auto simp: lru_room_def Let_def dest: in_set_butlastD)
      moreover have "\<forall>e\<in>set (contents m). me_key e \<noteq> k"
        using find_contents [OF ok, of k] None by (auto simp: lru_find_def find_None_iff)
      ultimately have "lru_find k (contents ?r) = None" by (auto simp: lru_find_def find_None_iff)
      with find_contents [OF R(2), of k] show ?thesis by simp
    qed
    have fresh: "ca_next ?r \<notin> set (ca_lru ?r)" using R(2) by (auto simp: cache_ok_def)
    let ?e = "(ca_elems ?r)(ca_next ?r := x)"
    have m': "m' = ?r\<lparr>ca_elems := ?e, ca_lru := ca_next ?r # ca_lru ?r, ca_next := Suc (ca_next ?r),
        ca_data := map_put k (ca_next ?r) (ca_data ?r)\<rparr>" "err = None"
      using step valid None by (simp_all add: cache_Set_def PushFront_def x_def Let_def)
    have "contents m' = x # contents ?r" using fresh by (simp add: m' contents_def)
    moreover have "cache_ok m'"
      using R(2) fresh absent x by (auto simp: m' cache_ok_def map_ok_put less_Suc_eq split: if_splits)
    ultimately show ?thesis
      using valid None R by (simp add: lru_set_def find_contents [OF ok] x_def [symmetric] x m')
  qed
qed

section \<open>Histories\<close>

datatype cache_op =
    CGet error string time
  | CGetMany error "string list" time
  | CSet error string bytes duration time
  | CDelete error string
  | CDeletePrefix error string

datatype cache_out = OutBytes "bytes option res" | OutMany "(string, bytes) go_map res" | OutErr error

fun cache_exec :: "cache_op \<Rightarrow> cache_memory \<Rightarrow> cache_out \<times> cache_memory" where
  "cache_exec (CGet ctx k now) m = apfst OutBytes (cache_Get ctx k now m)"
| "cache_exec (CGetMany ctx ks now) m = apfst OutMany (cache_GetMany ctx ks now m)"
| "cache_exec (CSet ctx k v ttl now) m = apfst OutErr (cache_Set ctx k v ttl now m)"
| "cache_exec (CDelete ctx k) m = apfst OutErr (cache_Delete ctx k m)"
| "cache_exec (CDeletePrefix ctx p) m = apfst OutErr (cache_DeletePrefix ctx p m)"

fun lru_get_many :: "string list \<Rightarrow> time \<Rightarrow> mem_entry list \<Rightarrow> (string, bytes) go_map \<Rightarrow> (string, bytes) go_map \<times> mem_entry list" where
  "lru_get_many [] now es out = (out, es)"
| "lru_get_many (k # ks) now es out =
     (case lru_get k now es of (r, es') \<Rightarrow>
        lru_get_many ks now es' (case r of Some v \<Rightarrow> map_put k v out | None \<Rightarrow> out))"

fun lru_exec :: "int \<Rightarrow> cache_op \<Rightarrow> mem_entry list \<Rightarrow> cache_out \<times> mem_entry list" where
  "lru_exec n (CGet ctx k now) es =
     (case ctx of Some e \<Rightarrow> (OutBytes (Inl e), es) | None \<Rightarrow> apfst (OutBytes \<circ> Inr) (lru_get k now es))"
| "lru_exec n (CGetMany ctx ks now) es =
     (case ctx of Some e \<Rightarrow> (OutMany (Inl e), es) | None \<Rightarrow> apfst (OutMany \<circ> Inr) (lru_get_many ks now es []))"
| "lru_exec n (CSet ctx k v ttl now) es =
     (OutErr (validateSet ctx ttl),
      if validateSet ctx ttl = None
      then lru_set n now \<lparr>me_key = k, me_value = v, me_expires = (if 0 < ttl then now + ttl else zero_time)\<rparr> es
      else es)"
| "lru_exec n (CDelete ctx k) es = (OutErr ctx, if ctx = None then lru_remove k es else es)"
| "lru_exec n (CDeletePrefix ctx p) es =
     (OutErr ctx, if ctx = None then filter (\<lambda>e. \<not> HasPrefix (me_key e) p) es else es)"

fun cache_run :: "cache_op list \<Rightarrow> cache_memory \<Rightarrow> cache_out list \<times> cache_memory" where
  "cache_run [] m = ([], m)"
| "cache_run (op # ops) m =
     (case cache_exec op m of (r, m1) \<Rightarrow> (case cache_run ops m1 of (rs, m2) \<Rightarrow> (r # rs, m2)))"

fun lru_run :: "int \<Rightarrow> cache_op list \<Rightarrow> mem_entry list \<Rightarrow> cache_out list \<times> mem_entry list" where
  "lru_run n [] es = ([], es)"
| "lru_run n (op # ops) es =
     (case lru_exec n op es of (r, es1) \<Rightarrow> (case lru_run n ops es1 of (rs, es2) \<Rightarrow> (r # rs, es2)))"

lemma get_many_refines:
  "cache_ok m \<Longrightarrow> get_many ks now m out = (r, m') \<Longrightarrow>
    lru_get_many ks now (contents m) out = (r, contents m') \<and> cache_ok m' \<and> ca_maxEntries m' = ca_maxEntries m"
proof (induction ks now m out rule: get_many.induct)
  case (2 k ks now m out)
  obtain x m1 where g: "cache_get k now m = (x, m1)" by fastforce
  note R = get_refines [OF "2.prems"(1) g]
  from "2.IH"(1) [OF g [symmetric]] "2.IH"(2) [OF g [symmetric]] "2.prems"(2) R g show ?case by (cases x) auto
qed simp

lemma exec_refines:
  assumes ok: "cache_ok m" and n: "1 \<le> ca_maxEntries m" and step: "cache_exec op m = (r, m')"
  shows "lru_exec (ca_maxEntries m) op (contents m) = (r, contents m') \<and> cache_ok m' \<and>
    ca_maxEntries m' = ca_maxEntries m"
proof (cases op)
  case (CGet ctx k now)
  obtain x m1 where g: "cache_get k now m = (x, m1)" by fastforce
  from get_refines [OF ok g] g step ok show ?thesis by (auto simp: CGet cache_Get_def split: option.splits)
next
  case (CGetMany ctx ks now)
  obtain x m1 where g: "get_many ks now m [] = (x, m1)" by fastforce
  from get_many_refines [OF ok g] g step ok show ?thesis
    by (auto simp: CGetMany cache_GetMany_def split: option.splits)
next
  case (CSet ctx k v ttl now)
  obtain err m1 where s: "cache_Set ctx k v ttl now m = (err, m1)" by fastforce
  from set_refines [OF ok n s] s step show ?thesis by (simp add: CSet)
next
  case (CDelete ctx k)
  show ?thesis
  proof (cases "map_get (ca_data m) k")
    case None
    then have "lru_remove k (contents m) = contents m"
      using find_contents [OF ok, of k] by (simp add: lru_find_def find_None_iff lru_remove_def)
    with None step ok show ?thesis by (auto simp: CDelete cache_Delete_def split: option.splits)
  next
    case (Some c)
    then have "c \<in> set (ca_lru m)" "cell_key m c = k" using ok by (simp_all add: cache_ok_def)
    with remove_contents [OF ok] remove_ok [OF ok] Some step ok show ?thesis
      by (auto simp: CDelete cache_Delete_def cache_remove_def split: option.splits)
  qed
next
  case (CDeletePrefix ctx p)
  with remove_all_where [OF ok, of "\<lambda>k e. HasPrefix k p"] step ok show ?thesis
    by (auto simp: cache_DeletePrefix_def split: option.splits)
qed

lemma run_refines:
  "cache_ok m \<Longrightarrow> 1 \<le> ca_maxEntries m \<Longrightarrow> cache_run ops m = (rs, m') \<Longrightarrow>
    lru_run (ca_maxEntries m) ops (contents m) = (rs, contents m') \<and> cache_ok m' \<and> ca_maxEntries m' = ca_maxEntries m"
proof (induction ops arbitrary: m rs)
  case (Cons op ops)
  obtain r m1 rs' where e: "cache_exec op m = (r, m1)" and "cache_run ops m1 = (rs', m')" "rs = r # rs'"
    using Cons.prems(3) by (auto split: prod.splits)
  with exec_refines [OF Cons.prems(1,2) e] Cons.IH [of m1 rs'] Cons.prems(2) show ?case by simp
qed simp

text \<open>What the history last wrote under a key, with its expiry.\<close>

fun written :: "cache_op list \<Rightarrow> string \<Rightarrow> (bytes \<times> time) option" where
  "written [] k = None"
| "written (CSet ctx k' v ttl now # past) k =
     (if validateSet ctx ttl = None \<and> k' = k then Some (v, if 0 < ttl then now + ttl else zero_time) else written past k)"
| "written (CDelete ctx k' # past) k = (if ctx = None \<and> k' = k then None else written past k)"
| "written (CDeletePrefix ctx p # past) k = (if ctx = None \<and> HasPrefix k p then None else written past k)"
| "written (_ # past) k = written past k"

definition faithful :: "cache_op list \<Rightarrow> mem_entry list \<Rightarrow> bool" where
  "faithful past es \<longleftrightarrow> (\<forall>e\<in>set es. written past (me_key e) = Some (me_value e, me_expires e))"

lemma lru_get_sub: "lru_get k now es = (r, es') \<Longrightarrow> set es' \<subseteq> set es"
  by (auto simp: lru_get_def lru_remove_def lru_find_def find_Some_iff split: option.splits if_splits)

lemma lru_get_many_sub: "lru_get_many ks now es out = (r, es') \<Longrightarrow> set es' \<subseteq> set es"
proof (induction ks now es out rule: lru_get_many.induct)
  case (2 k ks now es out)
  obtain x es1 where g: "lru_get k now es = (x, es1)" by fastforce
  from "2.IH" [OF g [symmetric]] "2.prems" g lru_get_sub [OF g] show ?case by auto
qed simp

lemma lru_set_sub:
  "e' \<in> set (lru_set n now e es) \<Longrightarrow> e' = e \<or> e' \<in> set es \<and> me_key e' \<noteq> me_key e"
  by (auto simp: lru_set_def lru_room_def lru_remove_def lru_find_def Let_def find_None_iff
      dest: in_set_butlastD split: option.splits if_splits)

lemma faithful_exec:
  assumes "faithful past es" and "lru_exec n op es = (r, es')"
  shows "faithful (op # past) es'"
proof (cases op)
  case (CGet ctx k now)
  obtain x es1 where g: "lru_get k now es = (x, es1)" by fastforce
  from assms CGet g lru_get_sub [OF g] show ?thesis by (auto simp: faithful_def split: option.splits)
next
  case (CGetMany ctx ks now)
  obtain x es1 where g: "lru_get_many ks now es [] = (x, es1)" by fastforce
  from assms CGetMany g lru_get_many_sub [OF g] show ?thesis by (auto simp: faithful_def split: option.splits)
next
  case (CSet ctx k v ttl now)
  let ?e = "\<lparr>me_key = k, me_value = v, me_expires = (if 0 < ttl then now + ttl else zero_time)\<rparr>"
  show ?thesis
  proof (cases "validateSet ctx ttl = None")
    case True
    with assms(2) CSet have es': "es' = lru_set n now ?e es" by simp
    have "written (op # past) (me_key e') = Some (me_value e', me_expires e')" if "e' \<in> set es'" for e'
      using lru_set_sub [OF that [unfolded es']] assms(1) CSet True by (auto simp: faithful_def)
    then show ?thesis by (simp add: faithful_def)
  next
    case False
    with assms CSet show ?thesis by (auto simp: faithful_def)
  qed
qed (use assms in \<open>auto simp: faithful_def lru_remove_def split: if_splits\<close>)

lemma faithful_run:
  "faithful past es \<Longrightarrow> lru_run n ops es = (rs, es') \<Longrightarrow> faithful (rev ops @ past) es'"
proof (induction ops arbitrary: past es rs)
  case (Cons op ops)
  obtain r es1 rs' where e: "lru_exec n op es = (r, es1)" "lru_run n ops es1 = (rs', es')"
    using Cons.prems(2) by (auto split: prod.splits)
  from Cons.IH [OF faithful_exec [OF Cons.prems(1) e(1)] e(2)] show ?case by simp
qed simp

lemma length_remove1_le: "length (remove1 c cs) \<le> length cs"
  by (induction cs) auto

lemma length_move: "c \<in> set cs \<Longrightarrow> Suc (length (remove1 c cs)) = length cs"
  by (induction cs) auto

lemma get_bound: "cache_ok m \<Longrightarrow> cache_get k now m = (r, m') \<Longrightarrow> length (ca_lru m') \<le> length (ca_lru m)"
  by (auto simp: cache_get_def cache_remove_def MoveToFront_def cache_ok_def length_move intro: length_remove1_le
      split: option.splits if_splits)

lemma get_many_bound:
  "cache_ok m \<Longrightarrow> get_many ks now m out = (r, m') \<Longrightarrow> length (ca_lru m') \<le> length (ca_lru m)"
proof (induction ks now m out rule: get_many.induct)
  case (2 k ks now m out)
  obtain x m1 where g: "cache_get k now m = (x, m1)" by fastforce
  from "2.IH"(1) [OF g [symmetric]] "2.IH"(2) [OF g [symmetric]] "2.prems" get_refines [OF "2.prems"(1) g]
    get_bound [OF "2.prems"(1) g] g show ?case by (cases x) auto
qed simp

lemma lru_room_bound:
  assumes "1 \<le> n" "int (length es) \<le> n"
  shows "int (length (lru_room n now es)) < n"
proof -
  define fs where "fs = filter (\<lambda>e. \<not> expired now e) es"
  have "length fs \<le> length es" by (simp add: fs_def)
  with assms show ?thesis by (auto simp: lru_room_def Let_def fs_def [symmetric])
qed

lemma room_bound:
  assumes "cache_ok m" "1 \<le> ca_maxEntries m" "int (length (ca_lru m)) \<le> ca_maxEntries m"
  shows "int (length (ca_lru (make_room now m))) < ca_maxEntries m"
proof -
  have "int (length (contents m)) \<le> ca_maxEntries m" using assms(3) by (simp add: contents_def)
  from lru_room_bound [OF assms(2) this, of now]
  have "int (length (lru_room (ca_maxEntries m) now (contents m))) < ca_maxEntries m" .
  with room_refines(1) [OF assms(1,2), of now] show ?thesis by (simp add: contents_def) (metis length_map)
qed

lemma exec_bound:
  assumes ok: "cache_ok m" "1 \<le> ca_maxEntries m" and len: "int (length (ca_lru m)) \<le> ca_maxEntries m"
    and step: "cache_exec op m = (r, m')"
  shows "int (length (ca_lru m')) \<le> ca_maxEntries m"
proof (cases op)
  case (CGet ctx k now)
  obtain x m1 where g: "cache_get k now m = (x, m1)" by fastforce
  with get_bound [OF ok(1) g] step len show ?thesis by (auto simp: CGet cache_Get_def split: option.splits)
next
  case (CGetMany ctx ks now)
  obtain x m1 where g: "get_many ks now m [] = (x, m1)" by fastforce
  with get_many_bound [OF ok(1) g] step len show ?thesis
    by (auto simp: CGetMany cache_GetMany_def split: option.splits)
next
  case (CSet ctx k v ttl now)
  with room_bound [OF ok len, of now] step len ok(1) show ?thesis
    by (auto simp: cache_Set_def PushFront_def MoveToFront_def cache_ok_def Let_def length_move split: option.splits)
next
  case (CDelete ctx k)
  have "int (length (remove1 x (ca_lru m))) \<le> ca_maxEntries m" for x
    using length_remove1_le [of x "ca_lru m"] len by linarith
  with CDelete step len show ?thesis by (auto simp: cache_Delete_def cache_remove_def split: option.splits)
next
  case (CDeletePrefix ctx p)
  have "length (contents (remove_where (\<lambda>k e. HasPrefix k p) (ca_data m) m)) \<le> length (contents m)"
    unfolding remove_all_where(1) [OF ok(1)] by (rule length_filter_le)
  with CDeletePrefix step len show ?thesis
    by (auto simp: cache_DeletePrefix_def contents_def split: option.splits)
qed

lemma run_bound:
  "cache_ok m \<Longrightarrow> 1 \<le> ca_maxEntries m \<Longrightarrow> int (length (ca_lru m)) \<le> ca_maxEntries m \<Longrightarrow> cache_run ops m = (rs, m') \<Longrightarrow>
    int (length (ca_lru m')) \<le> ca_maxEntries m"
proof (induction ops arbitrary: m rs)
  case (Cons op ops)
  obtain r m1 rs' where e: "cache_exec op m = (r, m1)" and "cache_run ops m1 = (rs', m')" "rs = r # rs'"
    using Cons.prems(4) by (auto split: prod.splits)
  with exec_refines [OF Cons.prems(1,2) e] exec_bound [OF Cons.prems(1-3) e] Cons.IH [of m1 rs'] Cons.prems(2)
  show ?case by simp
qed simp

section \<open>Framed keys\<close>

text \<open>
  The frame of a namespace starts with the namespace's length, so no frame is a prefix of what
  another frame starts.
\<close>

lemma split_at_colon:
  assumes "a @ '':'' @ x = b @ '':'' @ y" "CHR '':'' \<notin> set a" "CHR '':'' \<notin> set b"
  shows "a = b \<and> x = y"
  using assms
proof (induction a arbitrary: b)
  case Nil
  then show ?case by (cases b) auto
next
  case (Cons c a)
  then show ?case by (cases b) auto
qed

lemma frame_prefix:
  assumes "frame ns @ x = frame ns' @ y"
  shows "ns = ns' \<and> x = y"
proof -
  from assms have "print_int (int (length ns)) @ '':'' @ ns @ '':'' @ x = print_int (int (length ns')) @ '':'' @ ns' @ '':'' @ y"
    by (simp add: frame_def)
  from split_at_colon [OF this print_int_colon print_int_colon]
  have "length ns = length ns'" "ns @ '':'' @ x = ns' @ '':'' @ y" using print_int_inj by force+
  then show ?thesis by simp
qed

lemma HasPrefix_iff: "HasPrefix s p \<longleftrightarrow> (\<exists>r. s = p @ r)"
  unfolding HasPrefix_def by (metis append_eq_conv_conj append_take_drop_id)

lemma frame_HasPrefix: "HasPrefix (frame ns @ k) (frame ns' @ p) \<longleftrightarrow> ns = ns' \<and> HasPrefix k p"
proof
  assume "HasPrefix (frame ns @ k) (frame ns' @ p)"
  then obtain r where "frame ns @ k = frame ns' @ p @ r" by (auto simp: HasPrefix_iff)
  from frame_prefix [OF this] show "ns = ns' \<and> HasPrefix k p" by (auto simp: HasPrefix_iff)
qed (auto simp: HasPrefix_iff)

section \<open>Properties of the cache\<close>

lemma cache_NewMemory_ok:
  "cache_NewMemory opts = Inr m \<Longrightarrow> cache_ok m \<and> 1 \<le> ca_maxEntries m \<and> contents m = [] \<and> ca_lru m = []"
  by (auto simp: cache_NewMemory_def cache_ok_def contents_def defaultMaxEntries_def Let_def split: if_splits)

text \<open>
  Property C18.  The store is an LRU cache with expiry.  For every history of calls, each call returns
  exactly what the abstract list of entries returns, although the code keeps a map of pointers into
  a linked list; the map always has one entry per list element, the cache never holds more than
  \<open>maxEntries\<close> entries, and at capacity it drops expired entries before the least recently used one.
\<close>

theorem cache_refines_lru:
  assumes "cache_NewMemory opts = Inr m" and "cache_run ops m = (rs, m')"
  shows "lru_run (ca_maxEntries m) ops [] = (rs, contents m') \<and> length (ca_data m') = length (contents m') \<and>
    int (length (contents m')) \<le> ca_maxEntries m"
proof -
  from cache_NewMemory_ok [OF assms(1)] have m: "cache_ok m" "1 \<le> ca_maxEntries m" "contents m = []" "ca_lru m = []"
    by auto
  from run_refines [OF m(1,2) assms(2)] run_bound [OF m(1,2) _ assms(2)] m length_contents [of m'] show ?thesis
    by (simp add: contents_def)
qed

definition demo_cache :: cache_memory where
  "demo_cache = projr (cache_NewMemory [Some 2])"

definition demo_cache_ops :: "cache_op list" where
  "demo_cache_ops = [CSet None ''a'' ''1'' 0 10, CSet None ''b'' ''2'' 0 10, CGet None ''a'' 11,
     CSet None ''c'' ''3'' 5 12, CGet None ''b'' 13, CGet None ''a'' 13, CGet None ''c'' 17]"

theorem cache_refines_lru_witness:
  "fst (lru_run 2 demo_cache_ops []) =
     [OutErr None, OutErr None, OutBytes (Inr (Some ''1'')), OutErr None, OutBytes (Inr None),
      OutBytes (Inr (Some ''1'')), OutBytes (Inr None)]"
proof -
  have new: "cache_NewMemory [Some 2] = Inr demo_cache"
    by (simp add: demo_cache_def cache_NewMemory_def Let_def)
  obtain rs m' where run: "cache_run demo_cache_ops demo_cache = (rs, m')" by fastforce
  have "fst (cache_run demo_cache_ops demo_cache) =
     [OutErr None, OutErr None, OutBytes (Inr (Some ''1'')), OutErr None, OutBytes (Inr None),
      OutBytes (Inr (Some ''1'')), OutBytes (Inr None)]" by code_simp
  moreover have "ca_maxEntries demo_cache = 2" by code_simp
  ultimately show ?thesis using cache_refines_lru [OF new run] run by simp
qed

text \<open>
  A hit is never stale.  Whatever the history, the value a read returns is the one last
  written under that very key, not deleted since by key or by prefix, and not past its expiry.
\<close>

theorem cache_hit_fresh:
  assumes "cache_NewMemory opts = Inr m" and "cache_run ops m = (rs, m')" and "fst (cache_get k now m') = Some v"
  shows "\<exists>x. written (rev ops) k = Some (v, x) \<and> (x = zero_time \<or> now < x)"
proof -
  from cache_NewMemory_ok [OF assms(1)] have m: "cache_ok m" "1 \<le> ca_maxEntries m" "contents m = []" by auto
  from run_refines [OF m(1,2) assms(2)] m(3)
  have lru: "lru_run (ca_maxEntries m) ops [] = (rs, contents m')" and ok: "cache_ok m'" by simp_all
  have F: "faithful (rev ops) (contents m')" using faithful_run [OF _ lru, of "[]"] by (simp add: faithful_def)
  from assms(3) obtain c where c: "map_get (ca_data m') k = Some c" "\<not> expired now (ca_elems m' c)" "me_value (ca_elems m' c) = v"
    by (auto simp: cache_get_def split: option.splits if_splits)
  then have "ca_elems m' c \<in> set (contents m')" "cell_key m' c = k" using ok by (auto simp: cache_ok_def contents_def)
  with F c show ?thesis by (auto simp: faithful_def expired_def)
qed

theorem cache_hit_fresh_witness:
  "written (rev demo_cache_ops) ''a'' = Some (''1'', 0)"
proof -
  have new: "cache_NewMemory [Some 2] = Inr demo_cache"
    by (simp add: demo_cache_def cache_NewMemory_def Let_def)
  obtain rs m' where run: "cache_run demo_cache_ops demo_cache = (rs, m')" by fastforce
  have "fst (cache_get ''a'' 20 (snd (cache_run demo_cache_ops demo_cache))) = Some ''1''" by code_simp
  with run have "fst (cache_get ''a'' 20 m') = Some ''1''" by simp
  from cache_hit_fresh [OF new run this] obtain x where
    "written (rev demo_cache_ops) ''a'' = Some (''1'', x)" by blast
  moreover have "map_option snd (written (rev demo_cache_ops) ''a'') = Some 0" by code_simp
  ultimately show ?thesis by simp
qed

text \<open>
  Namespaces are isolated.  Two caches over one store never meet, whatever bytes their
  namespaces and keys contain: a logical key of one is never the physical key of the other, and
  invalidating a prefix in one namespace (the empty prefix included) removes exactly the keys of
  that namespace with that prefix.
\<close>

theorem cache_namespaces_isolated:
  assumes "NewCache st1 [Some ns1] = Inr c1" and "NewCache st2 [Some ns2] = Inr c2"
  shows "(c_prefix c1 @ k1 = c_prefix c2 @ k2 \<longleftrightarrow> ns1 = ns2 \<and> k1 = k2) \<and>
    (HasPrefix (c_prefix c1 @ k1) (c_prefix c2 @ p) \<longleftrightarrow> ns1 = ns2 \<and> HasPrefix k1 p)"
proof -
  from assms have c: "c_prefix c1 = frame ns1" "c_prefix c2 = frame ns2"
    by (auto simp: NewCache_def Let_def)
  show ?thesis using frame_prefix [of ns1 k1 ns2 k2] by (auto simp: c frame_HasPrefix)
qed

theorem cache_namespaces_isolated_witness:
  "frame ''1:a'' @ ''k'' \<noteq> frame ''1'' @ ''a:k''"
proof -
  have "NewCache None [Some ''1:a''] = Inr \<lparr>c_storer = (Noop :: unit storer), c_prefix = frame ''1:a''\<rparr>"
    "NewCache None [Some ''1''] = Inr \<lparr>c_storer = (Noop :: unit storer), c_prefix = frame ''1''\<rparr>"
    by (simp_all add: NewCache_def Let_def)
  from cache_namespaces_isolated [OF this, of "''k''" "''a:k''"] show ?thesis by simp
qed

end
