(* ===== verification/Encodings.thy ===== *)
theory Encodings
  imports Prelude
begin

text \<open>
  The text encodings of Go's standard library that the code stores its bytes in:
  \<open>base64.RawURLEncoding\<close>, \<open>hex\<close>, fixed-width hexadecimal numbers (\<open>%016x\<close>) and UTF-8, and the two
  shapes of input checks the secrets code uses, an anchored one-line pattern and
  \<open>strings.TrimSpace\<close>/\<open>Cut\<close>/\<open>Split\<close>.  Each encoder comes with its decoder, exactly as lenient as
  Go's, and a round trip.
\<close>

section \<open>base64url without padding\<close>

definition b64_alphabet :: string where
  "b64_alphabet = ''ABCDEFGHIJKLMNOPQRSTUVWXYZabcdefghijklmnopqrstuvwxyz0123456789-_''"

definition b64_char :: "nat \<Rightarrow> char" where
  "b64_char n = b64_alphabet ! n"

definition b64_val :: "char \<Rightarrow> nat option" where
  "b64_val c = map_of (zip b64_alphabet [0..<64]) c"

abbreviation byte_val :: "char \<Rightarrow> nat" where
  "byte_val c \<equiv> of_char c"

fun b64_values :: "bytes \<Rightarrow> nat list" where
  "b64_values [] = []"
| "b64_values [a] = [byte_val a div 4, byte_val a mod 4 * 16]"
| "b64_values [a, b] =
     [byte_val a div 4, byte_val a mod 4 * 16 + byte_val b div 16, byte_val b mod 16 * 4]"
| "b64_values (a # b # c # rest) =
     byte_val a div 4 # (byte_val a mod 4 * 16 + byte_val b div 16) #
     (byte_val b mod 16 * 4 + byte_val c div 64) # byte_val c mod 64 # b64_values rest"

definition b64_encode :: "bytes \<Rightarrow> string" where
  "b64_encode bs = map b64_char (b64_values bs)"

text \<open>The decoder skips line breaks and, not being strict, ignores the unused bits of the last character.\<close>

fun b64_quanta :: "nat list \<Rightarrow> bytes option" where
  "b64_quanta [] = Some []"
| "b64_quanta [w] = None"
| "b64_quanta [w, x] = Some [char_of (w * 4 + x div 16)]"
| "b64_quanta [w, x, y] = Some [char_of (w * 4 + x div 16), char_of (x mod 16 * 16 + y div 4)]"
| "b64_quanta (w # x # y # z # rest) =
     map_option (\<lambda>bs. char_of (w * 4 + x div 16) # char_of (x mod 16 * 16 + y div 4) #
                       char_of (y mod 4 * 64 + z) # bs) (b64_quanta rest)"

fun all_some :: "'a option list \<Rightarrow> 'a list option" where
  "all_some [] = Some []"
| "all_some (x # xs) = (case x of None \<Rightarrow> None | Some y \<Rightarrow> map_option ((#) y) (all_some xs))"

definition b64_decode :: "string \<Rightarrow> bytes option" where
  "b64_decode s =
     (case all_some (map b64_val (filter (\<lambda>c. c \<noteq> CHR 0x0A \<and> c \<noteq> CHR 0x0D) s)) of
        None \<Rightarrow> None
      | Some vs \<Rightarrow> b64_quanta vs)"

lemma b64_char_table:
  "list_all (\<lambda>n. b64_val (b64_char n) = Some n \<and> b64_char n \<noteq> CHR 0x0A \<and> b64_char n \<noteq> CHR 0x0D \<and>
      b64_char n \<noteq> CHR ''.'') [0..<64]"
  by code_simp

lemma b64_char_val:
  assumes "n < 64"
  shows "b64_val (b64_char n) = Some n" and "b64_char n \<noteq> CHR 0x0A" and "b64_char n \<noteq> CHR 0x0D"
    and "b64_char n \<noteq> CHR ''.''"
  using b64_char_table assms by (auto simp: list_all_iff)

lemma byte_div:
  "byte_val c div 4 < 64" "byte_val c div 16 < 16" "byte_val c div 64 < 4"
  using nat_of_char_less_256 [of c] by (simp_all add: div_less_iff_less_mult)

lemma b64_values_small: "n \<in> set (b64_values bs) \<Longrightarrow> n < 64"
proof (induction bs rule: b64_values.induct)
  case (2 a)
  have "byte_val a mod 4 * 16 \<le> 3 * 16" by (intro mult_right_mono) auto
  with 2 byte_div(1) [of a] show ?case by auto
next
  case (3 a b)
  have "byte_val a mod 4 * 16 \<le> 3 * 16" "byte_val b mod 16 * 4 \<le> 15 * 4" by (intro mult_right_mono; auto)+
  with 3 byte_div [of a] byte_div [of b] show ?case by auto
next
  case (4 a b c rest)
  have "byte_val a mod 4 * 16 \<le> 3 * 16" "byte_val b mod 16 * 4 \<le> 15 * 4" by (intro mult_right_mono; auto)+
  with 4 byte_div [of a] byte_div [of b] byte_div [of c] show ?case by auto
qed simp

lemma b64_chars: "c \<in> set (b64_encode bs) \<Longrightarrow> c \<noteq> CHR ''.''"
  using b64_char_val(4) [OF b64_values_small] by (auto simp: b64_encode_def)

lemma all_some_map: "(\<And>x. x \<in> set xs \<Longrightarrow> f x = Some (g x)) \<Longrightarrow> all_some (map f xs) = Some (map g xs)"
  by (induction xs) auto

lemma b64_quanta_values: "b64_quanta (b64_values bs) = Some bs"
proof -
  have join: "(n div 4) * 4 + (n mod 4 * 16 + m) div 16 = n" if "m < 16" for n m :: nat
    using that by simp
  have mid: "(k * 16 + n div 16) mod 16 * 16 + (n mod 16 * 4 + m) div 4 = n" if "n < 256" "m < 4" for k n m :: nat
  proof -
    have "n div 16 < 16" using that by auto
    then show ?thesis using that by simp
  qed
  have low: "(k * 4 + n div 64) mod 4 * 64 + n mod 64 = n" if "n < 256" for k n :: nat
  proof -
    have "n div 64 < 4" using that by auto
    then show ?thesis using that by simp
  qed
  note mid0 = mid [of _ 0, simplified] and join0 = join [of 0, simplified]
  show ?thesis
  proof (induction bs rule: b64_values.induct)
    case (2 a)
    show ?case by (simp add: join0)
  next
    case (3 a b)
    show ?case using byte_div [of b] by (simp add: join mid0)
  next
    case (4 a b c rest)
    then show ?case using byte_div [of b] byte_div [of c] by (simp add: join mid low)
  qed simp
qed

lemma b64_roundtrip [simp]: "b64_decode (b64_encode bs) = Some bs"
proof -
  have "filter (\<lambda>c. c \<noteq> CHR 0x0A \<and> c \<noteq> CHR 0x0D) (b64_encode bs) = b64_encode bs"
    using b64_char_val(2,3) [OF b64_values_small] by (auto simp: b64_encode_def filter_id_conv)
  moreover have "all_some (map b64_val (b64_encode bs)) = Some (b64_values bs)"
    using all_some_map [of "b64_values bs" "b64_val \<circ> b64_char" id]
    by (simp add: b64_encode_def b64_char_val b64_values_small)
  ultimately show ?thesis by (simp add: b64_decode_def b64_quanta_values)
qed

lemma b64_encode_Nil: "b64_encode bs = [] \<longleftrightarrow> bs = []"
  by (cases bs rule: b64_values.cases) (auto simp: b64_encode_def)

section \<open>Hexadecimal\<close>

definition hex_digit :: "nat \<Rightarrow> char" where
  "hex_digit n = ''0123456789abcdef'' ! n"

definition hex_val :: "char \<Rightarrow> nat option" where
  "hex_val c = map_of (zip ''0123456789abcdefABCDEF'' ([0..<16] @ [10..<16])) c"

fun hex_encode :: "bytes \<Rightarrow> string" where
  "hex_encode [] = []"
| "hex_encode (b # bs) = hex_digit (byte_val b div 16) # hex_digit (byte_val b mod 16) # hex_encode bs"

fun hex_decode :: "string \<Rightarrow> bytes option" where
  "hex_decode [] = Some []"
| "hex_decode [c] = None"
| "hex_decode (c # d # rest) =
     (case (hex_val c, hex_val d) of
        (Some h, Some l) \<Rightarrow> map_option ((#) (char_of (h * 16 + l))) (hex_decode rest)
      | _ \<Rightarrow> None)"

lemma hex_digit_table: "list_all (\<lambda>n. hex_val (hex_digit n) = Some n) [0..<16]"
  by code_simp

lemma hex_digit_val [simp]: "n < 16 \<Longrightarrow> hex_val (hex_digit n) = Some n"
  using hex_digit_table by (auto simp: list_all_iff)

lemma hex_roundtrip [simp]: "hex_decode (hex_encode bs) = Some bs"
proof (induction bs)
  case (Cons b bs)
  then show ?case using byte_div [of b] by simp
qed simp

lemma hex_encode_length [simp]: "length (hex_encode bs) = 2 * length bs"
  by (induction bs) auto

text \<open>
  Numbers of fixed width.  \<open>hex_fixed w n\<close> is the low \<open>w\<close> hexadecimal digits of \<open>n\<close>; for \<open>n < 16 ^ w\<close>
  it is what \<open>%0wx\<close> prints, and comparing two of them as strings compares the numbers.
\<close>

fun hex_fixed :: "nat \<Rightarrow> int \<Rightarrow> string" where
  "hex_fixed 0 n = []"
| "hex_fixed (Suc w) n = hex_fixed w (n div 16) @ [hex_digit (nat (n mod 16))]"

text \<open>\<open>%016x\<close> of an \<open>int64\<close>: a minus sign takes one of the sixteen places.\<close>

definition sprintf_016x :: "int \<Rightarrow> string" where
  "sprintf_016x n =
     (if 0 \<le> n then hex_fixed 16 n
      else if - n < 16 ^ 15 then CHR ''-'' # hex_fixed 15 (- n)
      else CHR ''-'' # hex_fixed 16 (- n))"

lemma length_hex_fixed [simp]: "length (hex_fixed w n) = w"
  by (induction w n rule: hex_fixed.induct) auto

lemma hex_digit_mono_table:
  "list_all (\<lambda>m. list_all (\<lambda>n. (hex_digit m < hex_digit n) = (m < n)) [0..<16]) [0..<16]"
  by code_simp

lemma hex_digit_less: "m < 16 \<Longrightarrow> n < 16 \<Longrightarrow> hex_digit m < hex_digit n \<longleftrightarrow> m < n"
  using hex_digit_mono_table by (auto simp: list_all_iff)

lemma lex_append_less:
  fixes a b :: "'a::linorder list"
  assumes "length a = length b"
  shows "a @ c < b @ d \<longleftrightarrow> a < b \<or> a = b \<and> c < d"
  using assms by (induction a b rule: list_induct2) auto

lemma div_mod_less: "m < n \<longleftrightarrow> m div 16 < n div 16 \<or> m div 16 = n div 16 \<and> m mod 16 < n mod 16" for m n :: int
proof -
  have m: "m = 16 * (m div 16) + m mod 16" "0 \<le> m mod 16" "m mod 16 < 16"
    and n: "n = 16 * (n div 16) + n mod 16" "0 \<le> n mod 16" "n mod 16 < 16" by auto
  show ?thesis
    by (cases "m div 16" "n div 16" rule: linorder_cases) (use m n in linarith)+
qed

lemma hex_fixed_less:
  assumes "0 \<le> m" and "m < 16 ^ w" and "0 \<le> n" and "n < 16 ^ w"
  shows "hex_fixed w m < hex_fixed w n \<longleftrightarrow> m < n"
  using assms
proof (induction w arbitrary: m n)
  case (Suc w)
  have eq: "hex_fixed w a = hex_fixed w b \<longleftrightarrow> a = b"
    if "0 \<le> a" "a < 16 ^ w" "0 \<le> b" "b < 16 ^ w" for a b
    using Suc.IH [OF that] Suc.IH [OF that(3,4,1,2)] by (metis less_irrefl linorder_neqE)
  have bounds: "0 \<le> m div 16" "m div 16 < 16 ^ w" "0 \<le> n div 16" "n div 16 < 16 ^ w"
    using Suc.prems by auto
  have digits: "hex_digit (nat (m mod 16)) < hex_digit (nat (n mod 16)) \<longleftrightarrow> m mod 16 < n mod 16"
    by (subst hex_digit_less) (auto simp: nat_less_iff)
  have "m < n \<longleftrightarrow> m div 16 < n div 16 \<or> m div 16 = n div 16 \<and> m mod 16 < n mod 16"
    by (rule div_mod_less)
  with Suc.IH [OF bounds] eq [OF bounds] digits show ?case by (simp add: lex_append_less)
qed simp

section \<open>Input checks\<close>

text \<open>The pattern \<open>^[first][rest]{0,n}$\<close>; both classes are ASCII, so runes are bytes.\<close>

definition matches_class :: "(char \<Rightarrow> bool) \<Rightarrow> (char \<Rightarrow> bool) \<Rightarrow> nat \<Rightarrow> string \<Rightarrow> bool" where
  "matches_class first rest n s =
     (case s of [] \<Rightarrow> False | c # cs \<Rightarrow> first c \<and> length cs \<le> n \<and> list_all rest cs)"

definition is_lower :: "char \<Rightarrow> bool" where
  "is_lower c \<longleftrightarrow> CHR ''a'' \<le> c \<and> c \<le> CHR ''z''"

definition is_upper :: "char \<Rightarrow> bool" where
  "is_upper c \<longleftrightarrow> CHR ''A'' \<le> c \<and> c \<le> CHR ''Z''"

definition is_digit :: "char \<Rightarrow> bool" where
  "is_digit c \<longleftrightarrow> CHR ''0'' \<le> c \<and> c \<le> CHR ''9''"

lemma matches_class_chars:
  "matches_class first rest n s \<Longrightarrow> c \<in> set s \<Longrightarrow> first c \<or> rest c"
  by (cases s) (auto simp: matches_class_def list_all_iff)

lemma matches_class_nonempty: "matches_class first rest n s \<Longrightarrow> s \<noteq> []"
  by (auto simp: matches_class_def)

text \<open>\<open>strings.Cut\<close> at the first occurrence of one byte: the part before it and, if found, the part after.\<close>

fun cut_at :: "char \<Rightarrow> string \<Rightarrow> string \<times> string option" where
  "cut_at sep [] = ([], None)"
| "cut_at sep (c # cs) = (if c = sep then ([], Some cs) else apfst ((#) c) (cut_at sep cs))"

lemma cut_at_append: "sep \<notin> set a \<Longrightarrow> cut_at sep (a @ sep # b) = (a, Some b)"
  by (induction a) auto

lemma cut_at_absent: "sep \<notin> set a \<Longrightarrow> cut_at sep a = (a, None)"
  by (induction a) auto

lemma cut_at_SomeD: "cut_at sep s = (a, Some b) \<Longrightarrow> s = a @ sep # b \<and> sep \<notin> set a"
  by (induction s arbitrary: a) (auto split: if_splits simp: apfst_def map_prod_def split: prod.splits)

text \<open>\<open>strings.Split\<close> at one byte.\<close>

fun split_at :: "char \<Rightarrow> string \<Rightarrow> string list" where
  "split_at sep [] = [[]]"
| "split_at sep (c # cs) =
     (if c = sep then [] # split_at sep cs
      else case split_at sep cs of [] \<Rightarrow> [[c]] | w # ws \<Rightarrow> (c # w) # ws)"

fun join_with :: "char \<Rightarrow> string list \<Rightarrow> string" where
  "join_with sep [] = []"
| "join_with sep [w] = w"
| "join_with sep (w # ws) = w @ sep # join_with sep ws"

lemma split_at_append: "sep \<notin> set a \<Longrightarrow> split_at sep (a @ sep # b) = a # split_at sep b"
  by (induction a) auto

lemma split_at_single: "sep \<notin> set a \<Longrightarrow> split_at sep a = [a]"
  by (induction a) auto

lemma split_join:
  "ws \<noteq> [] \<Longrightarrow> (\<And>w. w \<in> set ws \<Longrightarrow> sep \<notin> set w) \<Longrightarrow> split_at sep (join_with sep ws) = ws"
  by (induction sep ws rule: join_with.induct) (auto simp: split_at_append split_at_single)

text \<open>
  \<open>strings.TrimSpace\<close>: white-space runes are dropped from both ends, here by their UTF-8 encodings
  (the ASCII ones, U+0085, U+00A0, U+1680, U+2000 to U+200A, U+2028, U+2029, U+202F, U+205F, U+3000).
\<close>

definition white_space :: "string list" where
  "white_space =
     map (map char_of)
       ([[9 :: nat], [10], [11], [12], [13], [32], [0xC2, 0x85], [0xC2, 0xA0], [0xE1, 0x9A, 0x80]] @
        map (\<lambda>k. [0xE2, 0x80, 0x80 + k]) [0..<11] @
        [[0xE2, 0x80, 0xA8], [0xE2, 0x80, 0xA9], [0xE2, 0x80, 0xAF], [0xE2, 0x81, 0x9F], [0xE3, 0x80, 0x80]])"

definition leading :: "string list \<Rightarrow> string \<Rightarrow> nat" where
  "leading ws s = (case filter (\<lambda>w. take (length w) s = w) ws of [] \<Rightarrow> 0 | w # _ \<Rightarrow> length w)"

function trim_leading :: "string list \<Rightarrow> string \<Rightarrow> string" where
  "trim_leading ws s =
     (if leading ws s = 0 \<or> s = [] then s else trim_leading ws (drop (leading ws s) s))"
  by auto

termination
  by (relation "measure (length \<circ> snd)") auto

declare trim_leading.simps [simp del]

definition TrimSpace :: "string \<Rightarrow> string" where
  "TrimSpace s = rev (trim_leading (map rev white_space) (rev (trim_leading white_space s)))"

text \<open>A string whose ends are plain, that is graphic ASCII characters, is its own trimming.\<close>

definition plain :: "char \<Rightarrow> bool" where
  "plain c \<longleftrightarrow> 32 < byte_val c \<and> byte_val c < 127"

lemma white_space_ends:
  "list_all (\<lambda>w. w \<noteq> [] \<and> \<not> plain (hd w) \<and> \<not> plain (last w)) white_space"
  by code_simp

lemma leading_plain:
  assumes "list_all (\<lambda>w. w \<noteq> [] \<and> \<not> plain (hd w)) ws" and "s \<noteq> []" and "plain (hd s)"
  shows "leading ws s = 0"
proof -
  have "take (length w) s \<noteq> w" if "w \<in> set ws" for w
  proof
    assume "take (length w) s = w"
    moreover have "w \<noteq> []" "\<not> plain (hd w)" using assms(1) that by (auto simp: list_all_iff)
    ultimately show False using assms(2,3) by (metis hd_take length_greater_0_conv)
  qed
  then have "filter (\<lambda>w. take (length w) s = w) ws = []" by (simp add: filter_empty_conv)
  then show ?thesis by (simp add: leading_def)
qed

lemma TrimSpace_plain:
  assumes "s = [] \<or> plain (hd s) \<and> plain (last s)"
  shows "TrimSpace s = s"
proof (cases "s = []")
  case False
  have "list_all (\<lambda>w. w \<noteq> [] \<and> \<not> plain (hd w)) white_space"
    and "list_all (\<lambda>w. w \<noteq> [] \<and> \<not> plain (hd w)) (map rev white_space)"
    using white_space_ends by (auto simp: list_all_iff hd_rev)
  with False assms show ?thesis
    by (simp add: TrimSpace_def trim_leading.simps [of _ s] trim_leading.simps [of _ "rev s"] leading_plain hd_rev)
qed (simp add: TrimSpace_def trim_leading.simps)

section \<open>UTF-8\<close>

text \<open>\<open>utf8.ValidString\<close>.\<close>

fun valid_utf8 :: "nat list \<Rightarrow> bool" where
  "valid_utf8 [] = True"
| "valid_utf8 (a # s) =
     (if a < 0x80 then valid_utf8 s
      else if 0xC2 \<le> a \<and> a \<le> 0xDF then
        (case s of b # s' \<Rightarrow> 0x80 \<le> b \<and> b \<le> 0xBF \<and> valid_utf8 s' | _ \<Rightarrow> False)
      else if 0xE0 \<le> a \<and> a \<le> 0xEF then
        (case s of
           b # c # s' \<Rightarrow>
             (if a = 0xE0 then 0xA0 else 0x80) \<le> b \<and> b \<le> (if a = 0xED then 0x9F else 0xBF) \<and>
             0x80 \<le> c \<and> c \<le> 0xBF \<and> valid_utf8 s'
         | _ \<Rightarrow> False)
      else if 0xF0 \<le> a \<and> a \<le> 0xF4 then
        (case s of
           b # c # d # s' \<Rightarrow>
             (if a = 0xF0 then 0x90 else 0x80) \<le> b \<and> b \<le> (if a = 0xF4 then 0x8F else 0xBF) \<and>
             0x80 \<le> c \<and> c \<le> 0xBF \<and> 0x80 \<le> d \<and> d \<le> 0xBF \<and> valid_utf8 s'
         | _ \<Rightarrow> False)
      else False)"

text \<open>The runes a \<open>range\<close> loop visits in valid UTF-8.\<close>

fun utf8_runes :: "nat list \<Rightarrow> nat list" where
  "utf8_runes [] = []"
| "utf8_runes (a # s) =
     (if a < 0x80 then a # utf8_runes s
      else if a < 0xE0 then
        (case s of b # s' \<Rightarrow> ((a - 0xC0) * 64 + (b - 0x80)) # utf8_runes s' | [] \<Rightarrow> [])
      else if a < 0xF0 then
        (case s of
           b # c # s' \<Rightarrow> ((a - 0xE0) * 4096 + (b - 0x80) * 64 + (c - 0x80)) # utf8_runes s'
         | _ \<Rightarrow> [])
      else
        (case s of
           b # c # d # s' \<Rightarrow>
             ((a - 0xF0) * 262144 + (b - 0x80) * 4096 + (c - 0x80) * 64 + (d - 0x80)) # utf8_runes s'
         | _ \<Rightarrow> []))"

end
