(* ===== verification/Vault_Types.thy ===== *)
theory Vault_Types
  imports Encodings
begin

text \<open>
  The data of the secrets pocket and the checks on it, \<open>src/pockets/secrets/logic/vault/vault.go\<close>:
  owners, references, sources, owner keys, sealed secrets, audit records and filters, and the
  \<open>Repository\<close> port as a record of operations.  The lemmas say that \<open>Owner.String\<close> and \<open>Ref.String\<close>,
  under which stores index and which seals authenticate, are unambiguous on validated values.  The
  text of an error is the constant part of its format.
\<close>

section \<open>Vocabulary\<close>

definition MaxValueBytes :: int where
  "MaxValueBytes = 65536"

definition MaxReasonLen :: int where
  "MaxReasonLen = 512"

definition maxCorrelationIDLen :: int where
  "maxCorrelationIDLen = 128"

type_synonym action = string

definition ActionOwnerKeyCreated :: action where
  "ActionOwnerKeyCreated = ''owner_key_created''"

definition ActionOwnerKeyRewrapped :: action where
  "ActionOwnerKeyRewrapped = ''owner_key_rewrapped''"

definition ActionOwnerKeyRotated :: action where
  "ActionOwnerKeyRotated = ''owner_key_rotated''"

definition ActionOwnerKeyDestroyed :: action where
  "ActionOwnerKeyDestroyed = ''owner_key_destroyed''"

definition ActionSecretPut :: action where
  "ActionSecretPut = ''secret_put''"

definition ActionSecretRead :: action where
  "ActionSecretRead = ''secret_read''"

definition ActionSecretDeleted :: action where
  "ActionSecretDeleted = ''secret_deleted''"

type_synonym audit_outcome = string

definition OutcomeOK :: audit_outcome where
  "OutcomeOK = ''ok''"

definition OutcomeDenied :: audit_outcome where
  "OutcomeDenied = ''denied''"

definition ErrRepositoryRequired :: go_error where
  "ErrRepositoryRequired = Wrapped ''secrets: repository is required: invalid input'' ErrInvalidInput"

definition ErrWrapperRequired :: go_error where
  "ErrWrapperRequired = Wrapped ''secrets: wrapper is required: invalid input'' ErrInvalidInput"

definition ErrSourceRequired :: go_error where
  "ErrSourceRequired = Wrapped ''secrets: source requires exactly one actor or system: invalid input'' ErrInvalidInput"

definition ErrValueEmpty :: go_error where
  "ErrValueEmpty = Wrapped ''secrets: value is empty: invalid input'' ErrInvalidInput"

definition ErrValueTooLarge :: go_error where
  "ErrValueTooLarge = Wrapped ''secrets: value exceeds 65536 bytes: invalid input'' ErrInvalidInput"

definition namePattern :: "string \<Rightarrow> bool" where
  "namePattern =
     matches_class (\<lambda>c. is_lower c \<or> is_digit c)
       (\<lambda>c. is_lower c \<or> is_digit c \<or> c = CHR ''.'' \<or> c = CHR ''_'' \<or> c = CHR ''-'') 127"

definition actorPattern :: "string \<Rightarrow> bool" where
  "actorPattern =
     matches_class (\<lambda>c. is_upper c \<or> is_lower c \<or> is_digit c)
       (\<lambda>c. is_upper c \<or> is_lower c \<or> is_digit c \<or> c = CHR ''.'' \<or> c = CHR ''_'' \<or> c = CHR '':'' \<or>
            c = CHR ''@'' \<or> c = CHR ''-'') 127"

definition audit_actions :: "action list" where
  "audit_actions =
     [ActionOwnerKeyCreated, ActionOwnerKeyRewrapped, ActionOwnerKeyRotated, ActionOwnerKeyDestroyed,
      ActionSecretPut, ActionSecretRead, ActionSecretDeleted]"

definition audit_outcomes :: "audit_outcome list" where
  "audit_outcomes = [OutcomeOK, OutcomeDenied]"

section \<open>Data\<close>

record owner =
  ow_Type :: string
  ow_ID :: string

record secret_ref =
  rf_Owner :: owner
  rf_Name :: string

record secret_meta =
  sm_Ref :: secret_ref
  sm_Version :: int
  sm_KeyID :: string
  sm_CreatedAt :: time
  sm_UpdatedAt :: time

record source =
  so_ActorType :: string
  so_ActorID :: string
  so_System :: string
  so_Reason :: string

record owner_key =
  ok_Owner :: owner
  ok_KeyID :: string
  ok_WrappedKey :: string
  ok_WrapperKeyID :: string
  ok_CreatedAt :: time
  ok_RotatedAt :: time

record sealed_secret =
  ss_Ref :: secret_ref
  ss_Version :: int
  ss_KeyID :: string
  ss_Ciphertext :: string
  ss_CreatedAt :: time
  ss_UpdatedAt :: time

record audit_record =
  au_ID :: string
  au_OccurredAt :: time
  au_Action :: action
  au_Outcome :: audit_outcome
  au_Owner :: owner
  au_Name :: string
  au_Version :: int
  au_KeyID :: string
  au_Source :: source
  au_RequestID :: string
  au_TraceID :: string

record audit_filter =
  af_Owner :: "owner option"
  af_Name :: string
  af_Action :: action
  af_Outcome :: audit_outcome
  af_Since :: time
  af_Until :: time
  af_ActorType :: string
  af_ActorID :: string
  af_System :: string

text \<open>\<open>Wrapper\<close>: the nonce is the randomness of a \<open>Wrap\<close> call.\<close>

record wrapper =
  wr_Wrap :: "bytes \<Rightarrow> bytes \<Rightarrow> (string \<times> string) res"
  wr_Unwrap :: "string \<Rightarrow> bytes res"
  wr_ActiveKeyID :: string

text \<open>\<open>Repository\<close>: the first argument of an operation is \<open>ctx.Err()\<close> when it is called.\<close>

record 's vault_repo =
  vr_GetOwnerKey :: "error \<Rightarrow> owner \<Rightarrow> 's \<Rightarrow> owner_key res \<times> 's"
  vr_CreateOwnerKey :: "error \<Rightarrow> owner_key \<Rightarrow> audit_record list \<Rightarrow> 's \<Rightarrow> error \<times> 's"
  vr_ReplaceOwnerKey ::
    "error \<Rightarrow> owner_key \<Rightarrow> string \<Rightarrow> sealed_secret list \<Rightarrow> audit_record list \<Rightarrow> 's \<Rightarrow> error \<times> 's"
  vr_ListOwnerKeys :: "error \<Rightarrow> string \<Rightarrow> int \<Rightarrow> 's \<Rightarrow> (owner_key list \<times> string) res \<times> 's"
  vr_GetSecret :: "error \<Rightarrow> secret_ref \<Rightarrow> audit_record list \<Rightarrow> 's \<Rightarrow> sealed_secret res \<times> 's"
  vr_PutSecret :: "error \<Rightarrow> sealed_secret \<Rightarrow> audit_record \<Rightarrow> 's \<Rightarrow> sealed_secret res \<times> 's"
  vr_DeleteSecret :: "error \<Rightarrow> secret_ref \<Rightarrow> audit_record list \<Rightarrow> 's \<Rightarrow> error \<times> 's"
  vr_DeleteOwner :: "error \<Rightarrow> owner \<Rightarrow> string list \<Rightarrow> audit_record list \<Rightarrow> 's \<Rightarrow> error \<times> 's"
  vr_ListSecrets :: "error \<Rightarrow> owner \<Rightarrow> 's \<Rightarrow> secret_meta list res \<times> 's"
  vr_ListSealedSecrets :: "error \<Rightarrow> owner \<Rightarrow> 's \<Rightarrow> sealed_secret list res \<times> 's"
  vr_ListAudit :: "error \<Rightarrow> audit_filter \<Rightarrow> string \<Rightarrow> int \<Rightarrow> 's \<Rightarrow> (audit_record list \<times> string) res \<times> 's"
  vr_AppendAudit :: "error \<Rightarrow> audit_record list \<Rightarrow> 's \<Rightarrow> error \<times> 's"

section \<open>Checks\<close>

definition Owner_Validate :: "owner \<Rightarrow> error" where
  "Owner_Validate ow =
     (if \<not> namePattern (ow_Type ow) then Some (Wrapped ''secrets: owner type'' ErrInvalidInput)
      else if \<not> namePattern (ow_ID ow) then Some (Wrapped ''secrets: owner id'' ErrInvalidInput)
      else None)"

definition Owner_String :: "owner \<Rightarrow> string" where
  "Owner_String ow = ow_Type ow @ CHR '':'' # ow_ID ow"

definition Ref_Validate :: "secret_ref \<Rightarrow> error" where
  "Ref_Validate rf =
     (case Owner_Validate (rf_Owner rf) of
        Some err \<Rightarrow> Some err
      | None \<Rightarrow>
          if \<not> namePattern (rf_Name rf) then Some (Wrapped ''secrets: name'' ErrInvalidInput) else None)"

definition Ref_String :: "secret_ref \<Rightarrow> string" where
  "Ref_String rf = Owner_String (rf_Owner rf) @ CHR ''/'' # rf_Name rf"

definition Source_Validate :: "source \<Rightarrow> error" where
  "Source_Validate s =
     (let actor = (so_ActorType s \<noteq> [] \<or> so_ActorID s \<noteq> [])
      in if actor = (so_System s \<noteq> []) then Some ErrSourceRequired
         else if actor \<and> (\<not> actorPattern (so_ActorType s) \<or> \<not> actorPattern (so_ActorID s))
         then Some (Wrapped ''secrets: actor type and id'' ErrInvalidInput)
         else if \<not> actor \<and> \<not> actorPattern (so_System s) then Some (Wrapped ''secrets: system'' ErrInvalidInput)
         else if int (length (so_Reason s)) > MaxReasonLen \<or> \<not> valid_utf8 (map byte_val (so_Reason s)) \<or>
                 CHR 0x00 \<in> set (so_Reason s)
         then Some (Wrapped ''secrets: reason'' ErrInvalidInput)
         else None)"

definition AuditFilter_Validate :: "audit_filter \<Rightarrow> error" where
  "AuditFilter_Validate f =
     (case (case af_Owner f of None \<Rightarrow> None | Some ow \<Rightarrow> Owner_Validate ow) of
        Some err \<Rightarrow> Some err
      | None \<Rightarrow>
          if af_Name f \<noteq> [] \<and> \<not> namePattern (af_Name f)
          then Some (Wrapped ''secrets: audit name filter'' ErrInvalidInput)
          else if af_Action f \<noteq> [] \<and> af_Action f \<notin> set audit_actions
          then Some (Wrapped ''secrets: unknown audit action'' ErrInvalidInput)
          else if af_Outcome f \<noteq> [] \<and> af_Outcome f \<notin> set audit_outcomes
          then Some (Wrapped ''secrets: unknown audit outcome'' ErrInvalidInput)
          else if \<exists>v\<in>set [af_ActorType f, af_ActorID f, af_System f]. v \<noteq> [] \<and> \<not> actorPattern v
          then Some (Wrapped ''secrets: audit source filter'' ErrInvalidInput)
          else if af_Since f \<noteq> zero_time \<and> af_Until f \<noteq> zero_time \<and> \<not> af_Until f > af_Since f
          then Some (Wrapped ''secrets: audit until must be after since'' ErrInvalidInput)
          else None)"

definition AuditFilter_Matches :: "audit_filter \<Rightarrow> audit_record \<Rightarrow> bool" where
  "AuditFilter_Matches f r =
     (if af_Owner f \<noteq> None \<and> af_Owner f \<noteq> Some (au_Owner r) then False
      else if af_Name f \<noteq> [] \<and> af_Name f \<noteq> au_Name r then False
      else if af_Action f \<noteq> [] \<and> af_Action f \<noteq> au_Action r then False
      else if af_Outcome f \<noteq> [] \<and> af_Outcome f \<noteq> au_Outcome r then False
      else if af_Since f \<noteq> zero_time \<and> au_OccurredAt r < af_Since f then False
      else if af_Until f \<noteq> zero_time \<and> \<not> au_OccurredAt r < af_Until f then False
      else if af_ActorType f \<noteq> [] \<and> af_ActorType f \<noteq> so_ActorType (au_Source r) then False
      else if af_ActorID f \<noteq> [] \<and> af_ActorID f \<noteq> so_ActorID (au_Source r) then False
      else if af_System f \<noteq> [] \<and> af_System f \<noteq> so_System (au_Source r) then False
      else True)"

definition correlationID :: "string \<Rightarrow> string" where
  "correlationID cid =
     (if int (length cid) > maxCorrelationIDLen then []
      else if \<exists>c\<in>set cid. byte_val c < 0x20 \<or> byte_val c > 0x7E then []
      else cid)"

definition Correlate :: "string \<Rightarrow> string \<Rightarrow> audit_record list \<Rightarrow> audit_record list" where
  "Correlate requestID traceID records =
     map (\<lambda>r. r\<lparr>au_RequestID := correlationID requestID, au_TraceID := correlationID traceID\<rparr>) records"

section \<open>Unambiguous names\<close>

lemma namePattern_chars:
  assumes "namePattern s" and "c \<in> set s"
  shows "c \<noteq> CHR '':''" and "c \<noteq> CHR ''/''"
proof -
  have "is_lower c \<or> is_digit c \<or> c = CHR ''.'' \<or> c = CHR ''_'' \<or> c = CHR ''-''"
    using matches_class_chars [of _ _ _ s c] assms by (auto simp: namePattern_def)
  then show "c \<noteq> CHR '':''" "c \<noteq> CHR ''/''"
    by (auto simp: is_lower_def is_digit_def less_eq_char_def)
qed

lemma namePattern_nonempty: "namePattern s \<Longrightarrow> s \<noteq> []"
  by (auto simp: namePattern_def dest: matches_class_nonempty)

lemma Owner_Validate_iff: "Owner_Validate ow = None \<longleftrightarrow> namePattern (ow_Type ow) \<and> namePattern (ow_ID ow)"
  by (auto simp: Owner_Validate_def)

lemma Ref_Validate_iff: "Ref_Validate rf = None \<longleftrightarrow> Owner_Validate (rf_Owner rf) = None \<and> namePattern (rf_Name rf)"
  by (auto simp: Ref_Validate_def split: option.splits)

lemma Owner_String_inj:
  assumes "Owner_String a = Owner_String b" and "Owner_Validate a = None" and "Owner_Validate b = None"
  shows "a = b"
proof -
  have ab: "CHR '':'' \<notin> set (ow_Type a)" "CHR '':'' \<notin> set (ow_Type b)"
    using assms(2,3) namePattern_chars(1) by (auto simp: Owner_Validate_iff)
  have "(ow_Type a, Some (ow_ID a)) = cut_at (CHR '':'') (Owner_String a)"
    unfolding Owner_String_def by (rule cut_at_append [OF ab(1), symmetric])
  also have "\<dots> = (ow_Type b, Some (ow_ID b))"
    unfolding assms(1) unfolding Owner_String_def by (rule cut_at_append [OF ab(2)])
  finally show ?thesis by (auto intro!: owner.equality)
qed

lemma Ref_String_inj:
  assumes "Ref_String a = Ref_String b" and "Ref_Validate a = None" and "Ref_Validate b = None"
  shows "a = b"
proof -
  have valid: "Owner_Validate (rf_Owner a) = None" "Owner_Validate (rf_Owner b) = None"
    using assms(2,3) by (auto simp: Ref_Validate_iff)
  have ab: "CHR ''/'' \<notin> set (Owner_String (rf_Owner a))" "CHR ''/'' \<notin> set (Owner_String (rf_Owner b))"
    using valid namePattern_chars(2) by (auto simp: Owner_Validate_iff Owner_String_def)
  have "(Owner_String (rf_Owner a), Some (rf_Name a)) = cut_at (CHR ''/'') (Ref_String a)"
    unfolding Ref_String_def by (rule cut_at_append [OF ab(1), symmetric])
  also have "\<dots> = (Owner_String (rf_Owner b), Some (rf_Name b))"
    unfolding assms(1) unfolding Ref_String_def by (rule cut_at_append [OF ab(2)])
  finally show ?thesis
    using Owner_String_inj [OF _ valid] by (auto intro!: secret_ref.equality)
qed

end
