(* ===== verification/Vault_Port.thy ===== *)
theory Vault_Port
  imports Vault_Types
begin

text \<open>
  The contract of the secrets pocket's \<open>Repository\<close> port, as the comments of
  \<open>src/pockets/secrets/logic/vault/vault.go\<close> state it, over three views of a store: the key of an
  owner, the secret of a reference and the audit log.  The services are verified against this locale;
  the reference store interprets it (Secrets_Memory).  The first section holds what the contract says
  a store writes: microsecond times, resealed secrets, stamped records.
\<close>

section \<open>What a store writes\<close>

definition utc :: "time \<Rightarrow> time" where
  "utc t = t - t mod Microsecond"

definition normalizeKey :: "owner_key \<Rightarrow> owner_key" where
  "normalizeKey key = key\<lparr>ok_CreatedAt := utc (ok_CreatedAt key), ok_RotatedAt := utc (ok_RotatedAt key)\<rparr>"

definition recorded :: "audit_record \<Rightarrow> audit_record" where
  "recorded r = r\<lparr>au_OccurredAt := utc (au_OccurredAt r)\<rparr>"

definition stamped :: "audit_record list \<Rightarrow> action \<Rightarrow> sealed_secret \<Rightarrow> audit_record list" where
  "stamped audit act sec =
     map (\<lambda>r. if au_Action r = act \<and> au_Owner r = rf_Owner (ss_Ref sec) \<and> au_Name r = rf_Name (ss_Ref sec)
              then r\<lparr>au_Version := ss_Version sec, au_KeyID := ss_KeyID sec\<rparr> else r) audit"

definition reseal :: "sealed_secret \<Rightarrow> sealed_secret \<Rightarrow> sealed_secret" where
  "reseal sec stored =
     stored\<lparr>ss_Ciphertext := ss_Ciphertext sec, ss_KeyID := ss_KeyID sec, ss_UpdatedAt := utc (ss_UpdatedAt sec)\<rparr>"

definition metadata :: "sealed_secret \<Rightarrow> secret_meta" where
  "metadata s =
     \<lparr>sm_Ref = ss_Ref s, sm_Version = ss_Version s, sm_KeyID = ss_KeyID s, sm_CreatedAt = ss_CreatedAt s,
      sm_UpdatedAt = ss_UpdatedAt s\<rparr>"

text \<open>What \<open>PutSecret\<close> stores over the secret it replaces, if any.\<close>

definition put_over :: "sealed_secret option \<Rightarrow> sealed_secret \<Rightarrow> sealed_secret" where
  "put_over prev sealed =
     \<lparr>ss_Ref = ss_Ref sealed, ss_Version = (case prev of None \<Rightarrow> 1 | Some p \<Rightarrow> ss_Version p + 1),
      ss_KeyID = ss_KeyID sealed, ss_Ciphertext = ss_Ciphertext sealed,
      ss_CreatedAt = (case prev of None \<Rightarrow> utc (ss_CreatedAt sealed) | Some p \<Rightarrow> ss_CreatedAt p),
      ss_UpdatedAt = utc (ss_UpdatedAt sealed)\<rparr>"

text \<open>The secrets after a list of reseals.\<close>

definition resealed_over :: "sealed_secret list \<Rightarrow> (secret_ref \<Rightarrow> sealed_secret option) \<Rightarrow> secret_ref \<Rightarrow> sealed_secret option" where
  "resealed_over resealed m =
     foldl (\<lambda>m sec. m(ss_Ref sec := map_option (reseal sec) (m (ss_Ref sec)))) m resealed"

text \<open>The records of a \<open>DeleteOwner\<close>: every deletion names the version and the key removed.\<close>

definition deletion_record :: "owner \<Rightarrow> (secret_ref \<Rightarrow> sealed_secret option) \<Rightarrow> audit_record \<Rightarrow> audit_record" where
  "deletion_record ow m r =
     (if au_Action r = ActionSecretDeleted \<and> au_Owner r = ow
      then case m \<lparr>rf_Owner = ow, rf_Name = au_Name r\<rparr> of
             None \<Rightarrow> r
           | Some sec \<Rightarrow> r\<lparr>au_Version := ss_Version sec, au_KeyID := ss_KeyID sec\<rparr>
      else r)"

text \<open>Records a store accepts: an id not yet used, an action and an outcome of the vocabulary.\<close>

definition acceptable :: "audit_record list \<Rightarrow> audit_record list \<Rightarrow> bool" where
  "acceptable au log \<longleftrightarrow>
     (\<forall>r\<in>set au. au_ID r \<noteq> [] \<and> au_Action r \<in> set audit_actions \<and> au_Outcome r \<in> set audit_outcomes \<and>
        au_ID r \<notin> au_ID ` set log) \<and> distinct (map au_ID au)"

lemma deletion_record_fields [simp]:
  "au_ID (deletion_record ow m r) = au_ID r" "au_Action (deletion_record ow m r) = au_Action r"
  "au_Outcome (deletion_record ow m r) = au_Outcome r"
  by (simp_all add: deletion_record_def split: option.splits)

lemma acceptable_deletion [simp]: "acceptable (map (deletion_record ow m) au) log = acceptable au log"
  by (simp add: acceptable_def comp_def)

definition appended :: "audit_record list \<Rightarrow> audit_record list \<Rightarrow> audit_record list \<Rightarrow> bool" where
  "appended log au log' \<longleftrightarrow> mset log' = mset log + mset (map recorded au)"

section \<open>The contract\<close>

text \<open>
  The error \<open>c\<close> is \<open>ctx.Err()\<close>: a cancelled read answers with it.  Every mutation either fails and
  changes nothing or has exactly the stated effect, records included; it succeeds when the context
  is live, the state allows it and the records are acceptable.
\<close>

locale vault_repository =
  fixes repo :: "'s vault_repo"
    and inv :: "'s \<Rightarrow> bool"
    and key_of :: "'s \<Rightarrow> owner \<Rightarrow> owner_key option"
    and secret_of :: "'s \<Rightarrow> secret_ref \<Rightarrow> sealed_secret option"
    and log_of :: "'s \<Rightarrow> audit_record list"
  assumes key_owner: "inv s \<Longrightarrow> key_of s ow = Some k \<Longrightarrow> ok_Owner k = ow \<and> Owner_Validate ow = None"
    and secret_ref_of: "inv s \<Longrightarrow> secret_of s rf = Some sec \<Longrightarrow> ss_Ref sec = rf \<and> Ref_Validate rf = None"
    and secret_has_key: "inv s \<Longrightarrow> secret_of s rf = Some sec \<Longrightarrow> key_of s (rf_Owner rf) \<noteq> None"
    and finite_keys: "inv s \<Longrightarrow> finite {ow. key_of s ow \<noteq> None}"
    and get_key: "inv s \<Longrightarrow> Owner_Validate ow = None \<Longrightarrow> vr_GetOwnerKey repo c ow s =
      (case c of Some e \<Rightarrow> Inl e | None \<Rightarrow> (case key_of s ow of None \<Rightarrow> Inl ErrNotFound | Some k \<Rightarrow> Inr k), s)"
    and get_secret: "inv s \<Longrightarrow> Ref_Validate rf = None \<Longrightarrow> vr_GetSecret repo c rf [] s =
      (case c of Some e \<Rightarrow> Inl e | None \<Rightarrow> (case secret_of s rf of None \<Rightarrow> Inl ErrNotFound | Some x \<Rightarrow> Inr x), s)"
    and list_sealed: "inv s \<Longrightarrow> vr_ListSealedSecrets repo c ow s = (l, s') \<Longrightarrow>
      s' = s \<and> (case c of Some e \<Rightarrow> l = Inl e | None \<Rightarrow> \<exists>secs. l = Inr secs \<and>
        sorted_wrt (\<lambda>a b. rf_Name (ss_Ref a) < rf_Name (ss_Ref b)) secs \<and>
        set secs = {sec. secret_of s (ss_Ref sec) = Some sec \<and> rf_Owner (ss_Ref sec) = ow})"
    and list_secrets: "inv s \<Longrightarrow> vr_ListSecrets repo c ow s = (m, s') \<Longrightarrow>
      s' = s \<and> (case c of Some e \<Rightarrow> m = Inl e | None \<Rightarrow> \<exists>secs. m = Inr (map metadata secs) \<and>
        sorted_wrt (\<lambda>a b. rf_Name (ss_Ref a) < rf_Name (ss_Ref b)) secs \<and>
        set secs = {sec. secret_of s (ss_Ref sec) = Some sec \<and> rf_Owner (ss_Ref sec) = ow})"
    and list_keys: "inv s \<Longrightarrow> 0 < limit \<Longrightarrow> vr_ListOwnerKeys repo c after limit s = (g, s') \<Longrightarrow>
      s' = s \<and> (case c of Some e \<Rightarrow> g = Inl e | None \<Rightarrow> \<exists>ks nxt. g = Inr (ks, nxt) \<and> (nxt = [] \<or> after < nxt \<and> ks \<noteq> []) \<and>
        distinct ks \<and>
        set ks = {k. key_of s (ok_Owner k) = Some k \<and> after < Owner_String (ok_Owner k) \<and>
                     (nxt = [] \<or> Owner_String (ok_Owner k) \<le> nxt)})"
    and create_key: "inv s \<Longrightarrow> Owner_Validate (ok_Owner k) = None \<Longrightarrow> vr_CreateOwnerKey repo c k au s = (r, s') \<Longrightarrow>
      r \<noteq> None \<and> s' = s \<or>
      r = None \<and> inv s' \<and> key_of s (ok_Owner k) = None \<and> key_of s' = (key_of s)(ok_Owner k \<mapsto> normalizeKey k) \<and>
      secret_of s' = secret_of s \<and> appended (log_of s) au (log_of s')"
    and create_key_ok: "inv s \<Longrightarrow> Owner_Validate (ok_Owner k) = None \<Longrightarrow> key_of s (ok_Owner k) = None \<Longrightarrow>
      acceptable au (log_of s) \<Longrightarrow> fst (vr_CreateOwnerKey repo None k au s) = None"
    and replace_key: "inv s \<Longrightarrow> Owner_Validate (ok_Owner k) = None \<Longrightarrow>
      vr_ReplaceOwnerKey repo c k expected resealed au s = (r, s') \<Longrightarrow>
      r \<noteq> None \<and> s' = s \<or>
      r = None \<and> inv s' \<and> (\<exists>cur. key_of s (ok_Owner k) = Some cur \<and> ok_KeyID cur = expected) \<and>
      (\<forall>sec\<in>set resealed. rf_Owner (ss_Ref sec) = ok_Owner k) \<and>
      key_of s' = (key_of s)(ok_Owner k \<mapsto> normalizeKey k) \<and>
      secret_of s' = resealed_over resealed (secret_of s) \<and> appended (log_of s) au (log_of s')"
    and replace_key_ok: "inv s \<Longrightarrow> key_of s (ok_Owner k) = Some cur \<Longrightarrow>
      \<forall>sec\<in>set resealed. rf_Owner (ss_Ref sec) = ok_Owner k \<and> secret_of s (ss_Ref sec) \<noteq> None \<Longrightarrow>
      acceptable au (log_of s) \<Longrightarrow> fst (vr_ReplaceOwnerKey repo None k (ok_KeyID cur) resealed au s) = None"
    and put_secret: "inv s \<Longrightarrow> Ref_Validate (ss_Ref x) = None \<Longrightarrow> vr_PutSecret repo c x rec s = (q, s') \<Longrightarrow>
      (\<exists>e. q = Inl e) \<and> s' = s \<or>
      q = Inr (put_over (secret_of s (ss_Ref x)) x) \<and> inv s' \<and> key_of s (rf_Owner (ss_Ref x)) \<noteq> None \<and>
      key_of s' = key_of s \<and> secret_of s' = (secret_of s)(ss_Ref x \<mapsto> put_over (secret_of s (ss_Ref x)) x) \<and>
      appended (log_of s) [rec\<lparr>au_Version := ss_Version (put_over (secret_of s (ss_Ref x)) x)\<rparr>] (log_of s')"
    and put_secret_ok: "inv s \<Longrightarrow> Ref_Validate (ss_Ref x) = None \<Longrightarrow> key_of s (rf_Owner (ss_Ref x)) \<noteq> None \<Longrightarrow>
      acceptable [rec] (log_of s) \<Longrightarrow> \<exists>y. fst (vr_PutSecret repo None x rec s) = Inr y"
    and delete_secret: "inv s \<Longrightarrow> Ref_Validate rf = None \<Longrightarrow> vr_DeleteSecret repo c rf au s = (r, s') \<Longrightarrow>
      r \<noteq> None \<and> s' = s \<or>
      r = None \<and> inv s' \<and> (\<exists>sec. secret_of s rf = Some sec \<and>
        appended (log_of s) (stamped au ActionSecretDeleted sec) (log_of s')) \<and>
      key_of s' = key_of s \<and> secret_of s' = (secret_of s)(rf := None)"
    and delete_owner: "inv s \<Longrightarrow> Owner_Validate ow = None \<Longrightarrow> vr_DeleteOwner repo c ow names au s = (r, s') \<Longrightarrow>
      r \<noteq> None \<and> s' = s \<or>
      r = None \<and> inv s' \<and> key_of s ow \<noteq> None \<and>
      set names = {rf_Name rf | rf. rf_Owner rf = ow \<and> secret_of s rf \<noteq> None} \<and>
      key_of s' = (key_of s)(ow := None) \<and>
      secret_of s' = (\<lambda>rf. if rf_Owner rf = ow then None else secret_of s rf) \<and>
      appended (log_of s) (map (deletion_record ow (secret_of s)) au) (log_of s')"
    and delete_owner_ok: "inv s \<Longrightarrow> Owner_Validate ow = None \<Longrightarrow> key_of s ow \<noteq> None \<Longrightarrow>
      set names = {rf_Name rf | rf. rf_Owner rf = ow \<and> secret_of s rf \<noteq> None} \<Longrightarrow>
      acceptable au (log_of s) \<Longrightarrow> fst (vr_DeleteOwner repo None ow names au s) = None"
    and append_audit: "inv s \<Longrightarrow> vr_AppendAudit repo c au s = (r, s') \<Longrightarrow>
      r \<noteq> None \<and> s' = s \<or>
      r = None \<and> inv s' \<and> key_of s' = key_of s \<and> secret_of s' = secret_of s \<and> appended (log_of s) au (log_of s')"
    and append_audit_ok: "inv s \<Longrightarrow> acceptable au (log_of s) \<Longrightarrow> fst (vr_AppendAudit repo None au s) = None"

end
