(* ===== verification/Secrets_Memory.thy ===== *)
theory Secrets_Memory
  imports Vault_Port
begin

text \<open>
  The secrets pocket's reference store, \<open>src/pockets/secrets/stores/memory/memory.go\<close>: owner keys,
  sealed secrets and the audit log under one mutex, so every method is one atomic step that writes
  its change and its audit records together or not at all.  The theory proves the store's invariant
  and each method's effect on three views, the key of an owner, the secret of a reference and the log,
  which is what the \<open>Repository\<close> contract (the locale of theory Vault_Port) speaks about.
\<close>

section \<open>State\<close>

record secret_store =
  sto_keys :: "(string, owner_key) go_map"
  sto_secrets :: "(string, sealed_secret) go_map"
  sto_audit :: "audit_record list"
  sto_auditID :: "string set"

definition New_store :: secret_store where
  "New_store = \<lparr>sto_keys = [], sto_secrets = [], sto_audit = [], sto_auditID = {}\<rparr>"

section \<open>The audit log\<close>

definition zero_filter :: audit_filter where
  "zero_filter =
     \<lparr>af_Owner = None, af_Name = [], af_Action = [], af_Outcome = [], af_Since = zero_time, af_Until = zero_time,
      af_ActorType = [], af_ActorID = [], af_System = []\<rparr>"

fun checkAudit_loop :: "string set \<Rightarrow> string set \<Rightarrow> audit_record list \<Rightarrow> error" where
  "checkAudit_loop used seen [] = None"
| "checkAudit_loop used seen (r # rest) =
     (if au_ID r = [] then Some (Wrapped ''secrets memory: audit record without id'' ErrInvalidInput)
      else if au_Action r = [] \<or> au_Outcome r = [] \<or>
              AuditFilter_Validate (zero_filter\<lparr>af_Action := au_Action r, af_Outcome := au_Outcome r\<rparr>) \<noteq> None
      then Some (Wrapped ''secrets memory: audit record has action and outcome'' ErrInvalidInput)
      else if au_ID r \<in> used \<or> au_ID r \<in> seen
      then Some (Wrapped ''secrets memory: audit record already recorded'' ErrAlreadyExists)
      else checkAudit_loop used (insert (au_ID r) seen) rest)"

definition checkAudit :: "audit_record list \<Rightarrow> secret_store \<Rightarrow> error" where
  "checkAudit records st = checkAudit_loop (sto_auditID st) {} records"

definition audit_before :: "audit_record \<Rightarrow> audit_record \<Rightarrow> bool" where
  "audit_before a b =
     (if au_OccurredAt a \<noteq> au_OccurredAt b then au_OccurredAt a < au_OccurredAt b else au_ID a < au_ID b)"

definition appendAudit :: "audit_record list \<Rightarrow> secret_store \<Rightarrow> secret_store" where
  "appendAudit records st =
     st\<lparr>sto_audit := sort_slice audit_before (sto_audit st @ map recorded records),
        sto_auditID := sto_auditID st \<union> set (map au_ID records)\<rparr>"

section \<open>Methods\<close>

definition Store_GetOwnerKey :: "error \<Rightarrow> owner \<Rightarrow> secret_store \<Rightarrow> owner_key res \<times> secret_store" where
  "Store_GetOwnerKey ctxErr ow st =
     (case ctxErr of
        Some err \<Rightarrow> (Inl err, st)
      | None \<Rightarrow>
          (case map_get (sto_keys st) (Owner_String ow) of
             None \<Rightarrow> (Inl ErrNotFound, st)
           | Some key \<Rightarrow> (Inr key, st)))"

definition Store_CreateOwnerKey ::
    "error \<Rightarrow> owner_key \<Rightarrow> audit_record list \<Rightarrow> secret_store \<Rightarrow> error \<times> secret_store" where
  "Store_CreateOwnerKey ctxErr key audit st =
     (case ctxErr of
        Some err \<Rightarrow> (Some err, st)
      | None \<Rightarrow>
          if map_get (sto_keys st) (Owner_String (ok_Owner key)) \<noteq> None then (Some ErrAlreadyExists, st)
          else case checkAudit audit st of
            Some err \<Rightarrow> (Some err, st)
          | None \<Rightarrow>
              (None, appendAudit audit
                 (st\<lparr>sto_keys := map_put (Owner_String (ok_Owner key)) (normalizeKey key) (sto_keys st)\<rparr>)))"

fun check_resealed :: "owner \<Rightarrow> (string, sealed_secret) go_map \<Rightarrow> sealed_secret list \<Rightarrow> error" where
  "check_resealed ow secrets [] = None"
| "check_resealed ow secrets (sec # rest) =
     (if rf_Owner (ss_Ref sec) \<noteq> ow
      then Some (Wrapped ''secrets memory: resealed belongs to another owner'' ErrInvalidInput)
      else if map_get secrets (Ref_String (ss_Ref sec)) = None
      then Some (Wrapped ''secrets memory: resealed does not exist'' ErrNotFound)
      else check_resealed ow secrets rest)"

fun write_resealed :: "sealed_secret list \<Rightarrow> (string, sealed_secret) go_map \<Rightarrow> (string, sealed_secret) go_map" where
  "write_resealed [] secrets = secrets"
| "write_resealed (sec # rest) secrets =
     (let k = Ref_String (ss_Ref sec)
      in write_resealed rest
           (case map_get secrets k of
              None \<Rightarrow> secrets \<comment> \<open>excluded by \<open>check_resealed\<close>\<close>
            | Some stored \<Rightarrow> map_put k (reseal sec stored) secrets))"

definition Store_ReplaceOwnerKey ::
    "error \<Rightarrow> owner_key \<Rightarrow> string \<Rightarrow> sealed_secret list \<Rightarrow> audit_record list \<Rightarrow> secret_store \<Rightarrow>
     error \<times> secret_store" where
  "Store_ReplaceOwnerKey ctxErr key expectedKeyID resealed audit st =
     (case ctxErr of
        Some err \<Rightarrow> (Some err, st)
      | None \<Rightarrow>
          (case map_get (sto_keys st) (Owner_String (ok_Owner key)) of
             None \<Rightarrow> (Some ErrNotFound, st)
           | Some current \<Rightarrow>
               if ok_KeyID current \<noteq> expectedKeyID
               then (Some (Wrapped ''secrets memory: owner key is not the expected one'' ErrConflict), st)
               else case check_resealed (ok_Owner key) (sto_secrets st) resealed of
                 Some err \<Rightarrow> (Some err, st)
               | None \<Rightarrow>
                   (case checkAudit audit st of
                      Some err \<Rightarrow> (Some err, st)
                    | None \<Rightarrow>
                        (None, appendAudit audit
                           (st\<lparr>sto_keys := map_put (Owner_String (ok_Owner key)) (normalizeKey key) (sto_keys st),
                               sto_secrets := write_resealed resealed (sto_secrets st)\<rparr>)))))"

text \<open>The paging loop of \<open>ListOwnerKeys\<close> and \<open>ListAudit\<close>.\<close>

fun page_loop :: "('a \<Rightarrow> bool) \<Rightarrow> ('a \<Rightarrow> string) \<Rightarrow> int \<Rightarrow> 'a list \<Rightarrow> 'a list \<Rightarrow> 'a list \<times> string" where
  "page_loop skip token limit out [] = (out, [])"
| "page_loop skip token limit out (x # xs) =
     (if skip x then page_loop skip token limit out xs
      else if int (length out) = limit then (out, token (last out))
      else page_loop skip token limit (out @ [x]) xs)"

definition Store_ListOwnerKeys ::
    "error \<Rightarrow> string \<Rightarrow> int \<Rightarrow> secret_store \<Rightarrow> (owner_key list \<times> string) res \<times> secret_store" where
  "Store_ListOwnerKeys ctxErr after limit st =
     (case ctxErr of
        Some err \<Rightarrow> (Inl err, st)
      | None \<Rightarrow>
          if limit \<le> 0 then (Inl (Wrapped ''secrets memory: limit must be positive'' ErrInvalidInput), st)
          else let owners = sort_slice (\<lambda>a b. fst a < fst b) (filter (\<lambda>e. after < fst e) (sto_keys st))
               in (Inr (page_loop (\<lambda>_. False) (\<lambda>key. Owner_String (ok_Owner key)) limit [] (map snd owners)), st))"

definition Store_GetSecret ::
    "error \<Rightarrow> secret_ref \<Rightarrow> audit_record list \<Rightarrow> secret_store \<Rightarrow> sealed_secret res \<times> secret_store" where
  "Store_GetSecret ctxErr rf audit st =
     (case ctxErr of
        Some err \<Rightarrow> (Inl err, st)
      | None \<Rightarrow>
          (case map_get (sto_secrets st) (Ref_String rf) of
             None \<Rightarrow> (Inl ErrNotFound, st)
           | Some sec \<Rightarrow>
               let audit' = stamped audit ActionSecretRead sec
               in case checkAudit audit' st of
                    Some err \<Rightarrow> (Inl err, st)
                  | None \<Rightarrow> (Inr sec, appendAudit audit' st)))"

definition Store_PutSecret ::
    "error \<Rightarrow> sealed_secret \<Rightarrow> audit_record \<Rightarrow> secret_store \<Rightarrow> sealed_secret res \<times> secret_store" where
  "Store_PutSecret ctxErr sealed audit st =
     (case ctxErr of
        Some err \<Rightarrow> (Inl err, st)
      | None \<Rightarrow>
          if map_get (sto_keys st) (Owner_String (rf_Owner (ss_Ref sealed))) = None
          then (Inl (Wrapped ''secrets memory: owner has no key'' ErrInvalidReference), st)
          else
            let k = Ref_String (ss_Ref sealed);
                fresh = \<lparr>ss_Ref = ss_Ref sealed, ss_Version = 1, ss_KeyID = ss_KeyID sealed,
                         ss_Ciphertext = ss_Ciphertext sealed, ss_CreatedAt = utc (ss_CreatedAt sealed),
                         ss_UpdatedAt = utc (ss_UpdatedAt sealed)\<rparr>;
                stored = (case map_get (sto_secrets st) k of
                            Some prev \<Rightarrow> fresh\<lparr>ss_Version := ss_Version prev + 1, ss_CreatedAt := ss_CreatedAt prev\<rparr>
                          | None \<Rightarrow> fresh);
                audit' = audit\<lparr>au_Version := ss_Version stored\<rparr>
            in case checkAudit [audit'] st of
                 Some err \<Rightarrow> (Inl err, st)
               | None \<Rightarrow> (Inr stored, appendAudit [audit'] (st\<lparr>sto_secrets := map_put k stored (sto_secrets st)\<rparr>)))"

definition Store_DeleteSecret ::
    "error \<Rightarrow> secret_ref \<Rightarrow> audit_record list \<Rightarrow> secret_store \<Rightarrow> error \<times> secret_store" where
  "Store_DeleteSecret ctxErr rf audit st =
     (case ctxErr of
        Some err \<Rightarrow> (Some err, st)
      | None \<Rightarrow>
          (case map_get (sto_secrets st) (Ref_String rf) of
             None \<Rightarrow> (Some ErrNotFound, st)
           | Some sec \<Rightarrow>
               let audit' = stamped audit ActionSecretDeleted sec
               in case checkAudit audit' st of
                    Some err \<Rightarrow> (Some err, st)
                  | None \<Rightarrow>
                      (None, appendAudit audit' (st\<lparr>sto_secrets := map_del (Ref_String rf) (sto_secrets st)\<rparr>))))"

definition owned :: "owner \<Rightarrow> secret_store \<Rightarrow> sealed_secret list" where
  "owned ow st = filter (\<lambda>sec. rf_Owner (ss_Ref sec) = ow) (map_vals (sto_secrets st))"

definition Store_DeleteOwner ::
    "error \<Rightarrow> owner \<Rightarrow> string list \<Rightarrow> audit_record list \<Rightarrow> secret_store \<Rightarrow> error \<times> secret_store" where
  "Store_DeleteOwner ctxErr ow expected audit st =
     (case ctxErr of
        Some err \<Rightarrow> (Some err, st)
      | None \<Rightarrow>
          if map_get (sto_keys st) (Owner_String ow) = None then (Some ErrNotFound, st)
          else
            let removed = foldl (\<lambda>m sec. map_put (rf_Name (ss_Ref sec)) sec m) [] (owned ow st);
                want = remdups expected
            in if length want \<noteq> length removed
               then (Some (Wrapped ''secrets memory: owner holds a different number of secrets'' ErrConflict), st)
               else if \<exists>name\<in>set want. map_get removed name = None
               then (Some (Wrapped ''secrets memory: owner holds no such secret'' ErrConflict), st)
               else
                 let audit' = foldl (\<lambda>au sec. stamped au ActionSecretDeleted sec) audit (map_vals removed)
                 in case checkAudit audit' st of
                      Some err \<Rightarrow> (Some err, st)
                    | None \<Rightarrow>
                        (None, appendAudit audit'
                           (st\<lparr>sto_secrets := filter (\<lambda>(k, sec). rf_Owner (ss_Ref sec) \<noteq> ow) (sto_secrets st),
                               sto_keys := map_del (Owner_String ow) (sto_keys st)\<rparr>)))"

definition Store_ListSealedSecrets ::
    "error \<Rightarrow> owner \<Rightarrow> secret_store \<Rightarrow> sealed_secret list res \<times> secret_store" where
  "Store_ListSealedSecrets ctxErr ow st =
     (case ctxErr of
        Some err \<Rightarrow> (Inl err, st)
      | None \<Rightarrow> (Inr (sort_slice (\<lambda>a b. rf_Name (ss_Ref a) < rf_Name (ss_Ref b)) (owned ow st)), st))"

definition Store_ListSecrets :: "error \<Rightarrow> owner \<Rightarrow> secret_store \<Rightarrow> secret_meta list res \<times> secret_store" where
  "Store_ListSecrets ctxErr ow st =
     (case Store_ListSealedSecrets ctxErr ow st of
        (Inl err, st') \<Rightarrow> (Inl err, st')
      | (Inr secs, st') \<Rightarrow> (Inr (map metadata secs), st'))"

definition Store_AppendAudit :: "error \<Rightarrow> audit_record list \<Rightarrow> secret_store \<Rightarrow> error \<times> secret_store" where
  "Store_AppendAudit ctxErr records st =
     (case ctxErr of
        Some err \<Rightarrow> (Some err, st)
      | None \<Rightarrow>
          (case checkAudit records st of
             Some err \<Rightarrow> (Some err, st)
           | None \<Rightarrow> (None, appendAudit records st)))"

definition Store_ListAudit ::
    "error \<Rightarrow> audit_filter \<Rightarrow> string \<Rightarrow> int \<Rightarrow> secret_store \<Rightarrow> (audit_record list \<times> string) res \<times> secret_store" where
  "Store_ListAudit ctxErr f after limit st =
     (case ctxErr of
        Some err \<Rightarrow> (Inl err, st)
      | None \<Rightarrow>
          if limit \<le> 0 then (Inl (Wrapped ''secrets memory: limit must be positive'' ErrInvalidInput), st)
          else case AuditFilter_Validate f of
            Some err \<Rightarrow> (Inl err, st)
          | None \<Rightarrow>
              (Inr (page_loop (\<lambda>r. au_ID r \<le> after \<or> \<not> AuditFilter_Matches f r) au_ID limit [] (sto_audit st)), st))"

definition memory_vault :: "secret_store vault_repo" where
  "memory_vault =
     \<lparr>vr_GetOwnerKey = Store_GetOwnerKey, vr_CreateOwnerKey = Store_CreateOwnerKey,
      vr_ReplaceOwnerKey = Store_ReplaceOwnerKey, vr_ListOwnerKeys = Store_ListOwnerKeys,
      vr_GetSecret = Store_GetSecret, vr_PutSecret = Store_PutSecret, vr_DeleteSecret = Store_DeleteSecret,
      vr_DeleteOwner = Store_DeleteOwner, vr_ListSecrets = Store_ListSecrets,
      vr_ListSealedSecrets = Store_ListSealedSecrets, vr_ListAudit = Store_ListAudit,
      vr_AppendAudit = Store_AppendAudit\<rparr>"

section \<open>Invariant and views\<close>

definition store_key :: "secret_store \<Rightarrow> owner \<Rightarrow> owner_key option" where
  "store_key st ow = (if Owner_Validate ow = None then map_get (sto_keys st) (Owner_String ow) else None)"

definition store_secret :: "secret_store \<Rightarrow> secret_ref \<Rightarrow> sealed_secret option" where
  "store_secret st rf = (if Ref_Validate rf = None then map_get (sto_secrets st) (Ref_String rf) else None)"

text \<open>
  Both maps are keyed by the rendering of valid owners and references, every secret has a key, and
  the log is in its order with distinct ids, which are the ids remembered as used.
\<close>

definition store_inv :: "secret_store \<Rightarrow> bool" where
  "store_inv st \<longleftrightarrow>
     map_ok (sto_keys st) \<and> map_ok (sto_secrets st) \<and>
     (\<forall>(k, key)\<in>set (sto_keys st). k = Owner_String (ok_Owner key) \<and> Owner_Validate (ok_Owner key) = None) \<and>
     (\<forall>(k, sec)\<in>set (sto_secrets st). k = Ref_String (ss_Ref sec) \<and> Ref_Validate (ss_Ref sec) = None \<and>
        Owner_String (rf_Owner (ss_Ref sec)) \<in> fst ` set (sto_keys st)) \<and>
     sto_auditID st = au_ID ` set (sto_audit st) \<and> distinct (map au_ID (sto_audit st)) \<and>
     sorted_wrt audit_before (sto_audit st)"

lemma New_store_inv: "store_inv New_store"
  by (simp add: store_inv_def New_store_def)

interpretation audit_order: picker audit_before au_ID
  by unfold_locales (auto simp: audit_before_def split: if_splits)

lemma store_key_entry:
  assumes "store_inv st"
  shows "store_key st ow = Some k \<longleftrightarrow> (Owner_String ow, k) \<in> set (sto_keys st) \<and> Owner_Validate ow = None"
  using assms by (auto simp: store_key_def store_inv_def)

lemma store_secret_entry:
  assumes "store_inv st"
  shows "store_secret st rf = Some x \<longleftrightarrow> (Ref_String rf, x) \<in> set (sto_secrets st) \<and> Ref_Validate rf = None"
  using assms by (auto simp: store_secret_def store_inv_def)

lemma store_key_owner:
  assumes "store_inv st" and "store_key st ow = Some k"
  shows "ok_Owner k = ow" and "Owner_Validate ow = None"
proof -
  have "(Owner_String ow, k) \<in> set (sto_keys st)" and valid: "Owner_Validate ow = None"
    using assms(2) store_key_entry [OF assms(1)] by auto
  then have "Owner_String ow = Owner_String (ok_Owner k)" "Owner_Validate (ok_Owner k) = None"
    using assms(1) by (auto simp: store_inv_def)
  with valid show "ok_Owner k = ow" "Owner_Validate ow = None"
    by (auto dest: Owner_String_inj)
qed

lemma store_secret_ref:
  assumes "store_inv st" and "store_secret st rf = Some x"
  shows "ss_Ref x = rf" and "Ref_Validate rf = None"
proof -
  have "(Ref_String rf, x) \<in> set (sto_secrets st)" and valid: "Ref_Validate rf = None"
    using assms(2) store_secret_entry [OF assms(1)] by auto
  then have "Ref_String rf = Ref_String (ss_Ref x)" "Ref_Validate (ss_Ref x) = None"
    using assms(1) by (auto simp: store_inv_def)
  with valid show "ss_Ref x = rf" "Ref_Validate rf = None"
    by (auto dest: Ref_String_inj)
qed

lemma store_secret_has_key:
  assumes "store_inv st" and "store_secret st rf = Some x"
  shows "store_key st (rf_Owner rf) \<noteq> None"
proof -
  have "(Ref_String rf, x) \<in> set (sto_secrets st)" "Ref_Validate rf = None" and ref: "ss_Ref x = rf"
    using assms store_secret_entry [OF assms(1)] store_secret_ref [OF assms] by auto
  then have "Owner_String (rf_Owner rf) \<in> fst ` set (sto_keys st)" "Owner_Validate (rf_Owner rf) = None"
    using assms(1) by (auto simp: store_inv_def Ref_Validate_iff)
  then show ?thesis by (auto simp: store_key_def map_of_eq_None_iff)
qed

text \<open>Updates of the two maps, as updates of the views.\<close>

lemma store_key_put:
  assumes "Owner_Validate ow = None"
  shows "store_key (st\<lparr>sto_keys := map_put (Owner_String ow) k (sto_keys st)\<rparr>) = (store_key st)(ow \<mapsto> k)"
  using assms Owner_String_inj [OF _ _ assms] by (auto simp: store_key_def fun_eq_iff update_conv')

lemma store_key_del:
  assumes "Owner_Validate ow = None"
  shows "store_key (st\<lparr>sto_keys := map_del (Owner_String ow) (sto_keys st)\<rparr>) = (store_key st)(ow := None)"
  using assms Owner_String_inj [OF _ _ assms] by (auto simp: store_key_def fun_eq_iff delete_conv')

lemma store_secret_put:
  assumes "Ref_Validate rf = None"
  shows "store_secret (st\<lparr>sto_secrets := map_put (Ref_String rf) x (sto_secrets st)\<rparr>) = (store_secret st)(rf \<mapsto> x)"
  using assms Ref_String_inj [OF _ _ assms] by (auto simp: store_secret_def fun_eq_iff update_conv')

lemma store_secret_del:
  assumes "Ref_Validate rf = None"
  shows "store_secret (st\<lparr>sto_secrets := map_del (Ref_String rf) (sto_secrets st)\<rparr>) = (store_secret st)(rf := None)"
  using assms Ref_String_inj [OF _ _ assms] by (auto simp: store_secret_def fun_eq_iff delete_conv')

section \<open>The log\<close>

lemma AuditFilter_Validate_vocabulary:
  "AuditFilter_Validate (zero_filter\<lparr>af_Action := act, af_Outcome := out\<rparr>) = None \<longleftrightarrow>
     (act = [] \<or> act \<in> set audit_actions) \<and> (out = [] \<or> out \<in> set audit_outcomes)"
  by (auto simp: AuditFilter_Validate_def zero_filter_def)

lemma vocabulary_nonempty: "[] \<notin> set audit_actions" "[] \<notin> set audit_outcomes"
  by code_simp+

lemma checkAudit_loop_iff:
  "checkAudit_loop used seen au = None \<longleftrightarrow>
     (\<forall>r\<in>set au. au_ID r \<noteq> [] \<and> au_Action r \<in> set audit_actions \<and> au_Outcome r \<in> set audit_outcomes \<and>
        au_ID r \<notin> used \<and> au_ID r \<notin> seen) \<and> distinct (map au_ID au)"
proof (induction au arbitrary: seen)
  case (Cons r rest)
  have fresh: "(\<forall>x\<in>set rest. au_ID x \<notin> insert (au_ID r) seen) \<longleftrightarrow>
      (\<forall>x\<in>set rest. au_ID x \<notin> seen) \<and> au_ID r \<notin> set (map au_ID rest)"
    by (auto simp: image_iff dest: sym)
  have "checkAudit_loop used seen (r # rest) = None \<longleftrightarrow>
      au_ID r \<noteq> [] \<and> au_Action r \<in> set audit_actions \<and> au_Outcome r \<in> set audit_outcomes \<and>
      au_ID r \<notin> used \<and> au_ID r \<notin> seen \<and> checkAudit_loop used (insert (au_ID r) seen) rest = None"
    using vocabulary_nonempty by (auto simp: AuditFilter_Validate_vocabulary)
  then show ?case
    using fresh unfolding Cons.IH by (simp add: ball_conj_distrib) blast
qed simp

lemma checkAudit_iff: "store_inv st \<Longrightarrow> checkAudit au st = None \<longleftrightarrow> acceptable au (sto_audit st)"
  by (simp add: checkAudit_def checkAudit_loop_iff acceptable_def store_inv_def)

lemma appendAudit_simps [simp]:
  "sto_keys (appendAudit au st) = sto_keys st" "sto_secrets (appendAudit au st) = sto_secrets st"
  "store_key (appendAudit au st) = store_key st" "store_secret (appendAudit au st) = store_secret st"
  by (simp_all add: appendAudit_def store_key_def store_secret_def fun_eq_iff)

lemma recorded_ID [simp]: "au_ID (recorded r) = au_ID r"
  by (simp add: recorded_def)

lemma appendAudit_appended: "appended (sto_audit st) au (sto_audit (appendAudit au st))"
  by (simp add: appended_def appendAudit_def)

lemma appendAudit_inv:
  assumes "store_inv st" and "acceptable au (sto_audit st)"
  shows "store_inv (appendAudit au st)"
proof -
  let ?xs = "sto_audit st @ map recorded au"
  have "distinct (map au_ID ?xs)"
  proof -
    have "i \<notin> au_ID ` set (sto_audit st)" if "i \<in> au_ID ` set au" for i
    proof -
      from that obtain r where "r \<in> set au" and i: "i = au_ID r" by auto
      then show ?thesis using assms(2) by (simp add: acceptable_def)
    qed
    then have "au_ID ` set (sto_audit st) \<inter> au_ID ` set au = {}" by auto
    moreover have "distinct (map au_ID (sto_audit st))" "distinct (map au_ID au)"
      using assms by (simp_all only: store_inv_def acceptable_def)
    moreover have "map au_ID (map recorded au) = map au_ID au" by simp
    ultimately show ?thesis by (simp only: map_append distinct_append set_map)
  qed
  then have sorted: "sorted_wrt audit_before (sort_slice audit_before ?xs)"
    by (rule audit_order.sorted_sort_slice)
  have "mset (map au_ID (sort_slice audit_before ?xs)) = mset (map au_ID ?xs)"
    by (simp only: mset_map mset_sort_slice)
  then have "distinct (map au_ID (sort_slice audit_before ?xs))"
    using \<open>distinct (map au_ID ?xs)\<close> by (rule mset_eq_imp_distinct_iff [THEN iffD2])
  note this sorted
  with assms(1) show ?thesis
    unfolding store_inv_def appendAudit_def by (auto simp: image_Un image_image)
qed

lemma appendAudit_nil: "store_inv st \<Longrightarrow> appendAudit [] st = st"
proof -
  assume "store_inv st"
  then have "sort_slice audit_before (sto_audit st) = sto_audit st"
    by (intro audit_order.sort_slice_sorted) (auto simp: store_inv_def)
  then show ?thesis by (simp add: appendAudit_def)
qed

section \<open>The effect of each method\<close>

text \<open>Storing, replacing and removing entries keeps the invariant.\<close>

lemma map_put_keys: "fst ` set (map_put k v m) = insert k (fst ` set m)"
  by (simp add: dom_update [symmetric] flip: dom_map_of_conv_image_fst)

lemma store_inv_put_key:
  assumes "store_inv st" and "Owner_Validate ow = None" and "ok_Owner k = ow"
  shows "store_inv (st\<lparr>sto_keys := map_put (Owner_String ow) k (sto_keys st)\<rparr>)"
  using assms set_map_put [of "Owner_String ow" k "sto_keys st"]
  by (auto simp: store_inv_def map_ok_put map_put_keys)

lemma store_inv_put_secret:
  assumes "store_inv st" and "Ref_Validate rf = None" and "ss_Ref x = rf"
    and "map_get (sto_keys st) (Owner_String (rf_Owner rf)) \<noteq> None"
  shows "store_inv (st\<lparr>sto_secrets := map_put (Ref_String rf) x (sto_secrets st)\<rparr>)"
  using assms set_map_put [of "Ref_String rf" x "sto_secrets st"]
  by (auto simp: store_inv_def map_ok_put map_of_eq_None_iff)

lemma store_inv_del_secret:
  assumes "store_inv st"
  shows "store_inv (st\<lparr>sto_secrets := map_del k (sto_secrets st)\<rparr>)"
  using assms set_map_del [of k "sto_secrets st"] by (auto simp: store_inv_def map_ok_del)

lemma Store_GetOwnerKey_spec:
  assumes "Owner_Validate ow = None"
  shows "Store_GetOwnerKey c ow st =
    (case c of Some e \<Rightarrow> Inl e | None \<Rightarrow> (case store_key st ow of None \<Rightarrow> Inl ErrNotFound | Some k \<Rightarrow> Inr k), st)"
  using assms by (simp add: Store_GetOwnerKey_def store_key_def split: option.splits)

lemma stamped_Nil [simp]: "stamped [] act sec = []"
  by (simp add: stamped_def)

lemma checkAudit_Nil [simp]: "checkAudit [] st = None"
  by (simp add: checkAudit_def)

lemma Store_GetSecret_spec:
  assumes "store_inv st" and "Ref_Validate rf = None"
  shows "Store_GetSecret c rf [] st =
    (case c of Some e \<Rightarrow> Inl e | None \<Rightarrow> (case store_secret st rf of None \<Rightarrow> Inl ErrNotFound | Some x \<Rightarrow> Inr x), st)"
  using assms by (simp add: Store_GetSecret_def store_secret_def appendAudit_nil split: option.splits)

lemma Store_CreateOwnerKey_spec:
  assumes "store_inv st" and "Owner_Validate (ok_Owner k) = None" and "Store_CreateOwnerKey c k au st = (r, st')"
  shows "r \<noteq> None \<and> st' = st \<or>
    r = None \<and> store_inv st' \<and> store_key st (ok_Owner k) = None \<and>
    store_key st' = (store_key st)(ok_Owner k \<mapsto> normalizeKey k) \<and> store_secret st' = store_secret st \<and>
    appended (sto_audit st) au (sto_audit st')"
proof (cases r)
  case None
  let ?st = "st\<lparr>sto_keys := map_put (Owner_String (ok_Owner k)) (normalizeKey k) (sto_keys st)\<rparr>"
  have st': "st' = appendAudit au ?st" "checkAudit au st = None"
    "map_get (sto_keys st) (Owner_String (ok_Owner k)) = None"
    using assms(3) None by (auto simp: Store_CreateOwnerKey_def split: option.splits if_splits)
  have "store_inv ?st" using assms(1,2) by (intro store_inv_put_key) (simp_all add: normalizeKey_def)
  moreover have "acceptable au (sto_audit ?st)" using st'(2) assms(1) by (simp add: checkAudit_iff)
  ultimately have "store_inv st'" unfolding st'(1) by (rule appendAudit_inv)
  moreover have "store_secret ?st = store_secret st" by (simp add: store_secret_def fun_eq_iff)
  moreover have "appended (sto_audit st) au (sto_audit st')"
    using appendAudit_appended [of ?st au] st'(1) by simp
  ultimately show ?thesis
    using None st' assms(2) store_key_put [OF assms(2)] by (simp add: store_key_def [of st "ok_Owner k"])
qed (use assms(3) in \<open>auto simp: Store_CreateOwnerKey_def split: option.splits if_splits\<close>)

lemma Store_CreateOwnerKey_ok:
  assumes "store_inv st" and "Owner_Validate (ok_Owner k) = None" and "store_key st (ok_Owner k) = None"
    and "acceptable au (sto_audit st)"
  shows "fst (Store_CreateOwnerKey None k au st) = None"
proof -
  have "checkAudit au st = None" using assms(1,4) by (simp add: checkAudit_iff)
  then show ?thesis using assms(2,3) by (simp add: Store_CreateOwnerKey_def store_key_def)
qed

lemma Store_AppendAudit_spec:
  assumes "store_inv st" and "Store_AppendAudit c au st = (r, st')"
  shows "r \<noteq> None \<and> st' = st \<or>
    r = None \<and> store_inv st' \<and> store_key st' = store_key st \<and> store_secret st' = store_secret st \<and>
    appended (sto_audit st) au (sto_audit st')"
proof (cases r)
  case None
  then have st': "st' = appendAudit au st" and "checkAudit au st = None"
    using assms(2) by (auto simp: Store_AppendAudit_def split: option.splits)
  then have "store_inv st'"
    using assms(1) by (simp add: appendAudit_inv checkAudit_iff)
  then show ?thesis using None st' appendAudit_appended by simp
qed (use assms(2) in \<open>auto simp: Store_AppendAudit_def split: option.splits\<close>)

lemma Store_AppendAudit_ok:
  "store_inv st \<Longrightarrow> acceptable au (sto_audit st) \<Longrightarrow> fst (Store_AppendAudit None au st) = None"
  by (simp add: Store_AppendAudit_def flip: checkAudit_iff)

lemma Store_DeleteSecret_spec:
  assumes "store_inv st" and "Ref_Validate rf = None" and "Store_DeleteSecret c rf au st = (r, st')"
  shows "r \<noteq> None \<and> st' = st \<or>
    r = None \<and> store_inv st' \<and> (\<exists>sec. store_secret st rf = Some sec \<and>
      appended (sto_audit st) (stamped au ActionSecretDeleted sec) (sto_audit st')) \<and>
    store_key st' = store_key st \<and> store_secret st' = (store_secret st)(rf := None)"
proof (cases r)
  case None
  let ?st = "st\<lparr>sto_secrets := map_del (Ref_String rf) (sto_secrets st)\<rparr>"
  obtain sec where sec: "map_get (sto_secrets st) (Ref_String rf) = Some sec"
    and ok: "checkAudit (stamped au ActionSecretDeleted sec) st = None"
    and st': "st' = appendAudit (stamped au ActionSecretDeleted sec) ?st"
    using assms(3) None by (auto simp: Store_DeleteSecret_def Let_def split: option.splits)
  have "acceptable (stamped au ActionSecretDeleted sec) (sto_audit ?st)"
    using ok assms(1) by (simp add: checkAudit_iff)
  then have "store_inv st'"
    unfolding st' by (intro appendAudit_inv store_inv_del_secret assms(1))
  moreover have "store_key ?st = store_key st" by (simp add: store_key_def fun_eq_iff)
  moreover have "appended (sto_audit st) (stamped au ActionSecretDeleted sec) (sto_audit st')"
    using appendAudit_appended [of ?st] st' by simp
  ultimately show ?thesis
    using None sec st' store_secret_del [OF assms(2)] assms(2) by (auto simp: store_secret_def [of st rf])
qed (use assms(3) in \<open>auto simp: Store_DeleteSecret_def Let_def split: option.splits if_splits\<close>)

lemma Store_PutSecret_spec:
  assumes "store_inv st" and "Ref_Validate (ss_Ref x) = None" and "Store_PutSecret c x rec st = (q, st')"
  defines "new \<equiv> put_over (store_secret st (ss_Ref x)) x"
  shows "(\<exists>e. q = Inl e) \<and> st' = st \<or>
    q = Inr new \<and> store_inv st' \<and> store_key st (rf_Owner (ss_Ref x)) \<noteq> None \<and> store_key st' = store_key st \<and>
    store_secret st' = (store_secret st)(ss_Ref x \<mapsto> new) \<and>
    appended (sto_audit st) [rec\<lparr>au_Version := ss_Version new\<rparr>] (sto_audit st')"
proof (cases q)
  case (Inr y)
  let ?st = "st\<lparr>sto_secrets := map_put (Ref_String (ss_Ref x)) new (sto_secrets st)\<rparr>"
  let ?au = "[rec\<lparr>au_Version := ss_Version new\<rparr>]"
  have new: "new = put_over (map_get (sto_secrets st) (Ref_String (ss_Ref x))) x"
    using assms(2) by (simp add: new_def store_secret_def)
  have key: "map_get (sto_keys st) (Owner_String (rf_Owner (ss_Ref x))) \<noteq> None" and ok: "checkAudit ?au st = None"
    and st': "st' = appendAudit ?au ?st" and y: "y = new"
    using assms(3) Inr unfolding new
    by (auto simp: Store_PutSecret_def Let_def put_over_def split: option.splits if_splits)
  have "acceptable ?au (sto_audit ?st)"
    using ok assms(1) by (simp add: checkAudit_iff)
  then have "store_inv st'"
    unfolding st' by (intro appendAudit_inv store_inv_put_secret assms(1,2) key) (simp_all add: new_def put_over_def)
  moreover have "store_key ?st = store_key st" by (simp add: store_key_def fun_eq_iff)
  moreover have "store_key st (rf_Owner (ss_Ref x)) \<noteq> None"
    using key assms(2) by (simp add: store_key_def Ref_Validate_iff)
  moreover have "appended (sto_audit st) ?au (sto_audit st')"
    using appendAudit_appended [of ?st] st' by simp
  ultimately show ?thesis
    using Inr y st' store_secret_put [OF assms(2)] by simp
qed (use assms(3) in \<open>auto simp: Store_PutSecret_def Let_def split: option.splits if_splits\<close>)

lemma Store_PutSecret_ok:
  assumes "store_inv st" and "Ref_Validate (ss_Ref x) = None" and "store_key st (rf_Owner (ss_Ref x)) \<noteq> None"
    and "acceptable [rec] (sto_audit st)"
  shows "\<exists>y. fst (Store_PutSecret None x rec st) = Inr y"
proof -
  have "checkAudit [rec\<lparr>au_Version := v\<rparr>] st = None" for v
    using assms(1,4) by (simp add: checkAudit_iff acceptable_def)
  then show ?thesis
    using assms(2,3) by (auto simp: Store_PutSecret_def Let_def store_key_def split: if_splits)
qed

subsection \<open>Replacing a key\<close>

lemma Ref_String_owner: "rf_Owner a = rf_Owner b \<Longrightarrow> Ref_String a = Ref_String b \<Longrightarrow> a = b"
  by (auto simp: Ref_String_def intro!: secret_ref.equality)

lemma write_resealed_get:
  "map_get (write_resealed rs m) k = Some y \<Longrightarrow> \<exists>x. map_get m k = Some x \<and> ss_Ref y = ss_Ref x"
proof (induction rs m arbitrary: y rule: write_resealed.induct)
  case (2 sec rest m)
  then obtain x where x: "map_get (case map_get m (Ref_String (ss_Ref sec)) of None \<Rightarrow> m
        | Some stored \<Rightarrow> map_put (Ref_String (ss_Ref sec)) (reseal sec stored) m) k = Some x" "ss_Ref y = ss_Ref x"
    by (auto simp: Let_def)
  then show ?case
    by (cases "map_get m (Ref_String (ss_Ref sec))") (auto simp: update_conv' reseal_def split: if_splits)
qed simp

lemma write_resealed_ok: "map_ok m \<Longrightarrow> map_ok (write_resealed rs m)"
  by (induction rs m rule: write_resealed.induct) (auto simp: Let_def map_ok_put split: option.splits)

definition secret_view :: "(string, sealed_secret) go_map \<Rightarrow> secret_ref \<Rightarrow> sealed_secret option" where
  "secret_view m rf = (if Ref_Validate rf = None then map_get m (Ref_String rf) else None)"

lemma store_secret_view: "store_secret st = secret_view (sto_secrets st)"
  by (simp add: fun_eq_iff store_secret_def secret_view_def)

lemma write_resealed_view:
  "\<forall>sec\<in>set rs. Ref_Validate (ss_Ref sec) = None \<Longrightarrow>
     secret_view (write_resealed rs m) = resealed_over rs (secret_view m)"
proof (induction rs arbitrary: m)
  case (Cons sec rs)
  let ?k = "Ref_String (ss_Ref sec)"
  let ?m = "case map_get m ?k of None \<Rightarrow> m | Some stored \<Rightarrow> map_put ?k (reseal sec stored) m"
  have valid: "Ref_Validate (ss_Ref sec) = None" using Cons.prems by simp
  have "secret_view ?m = (secret_view m)(ss_Ref sec := map_option (reseal sec) (secret_view m (ss_Ref sec)))"
    using valid Ref_String_inj [OF _ _ valid]
    by (auto simp: fun_eq_iff secret_view_def update_conv' split: option.splits)
  then show ?case
    using Cons by (simp add: Let_def resealed_over_def)
qed (simp add: resealed_over_def)

lemma check_resealed_iff:
  "check_resealed ow m rs = None \<longleftrightarrow>
     (\<forall>sec\<in>set rs. rf_Owner (ss_Ref sec) = ow \<and> map_get m (Ref_String (ss_Ref sec)) \<noteq> None)"
  by (induction ow m rs rule: check_resealed.induct) auto

lemma resealed_valid:
  assumes "store_inv st" and "Owner_Validate ow = None" and "rf_Owner (ss_Ref sec) = ow"
    and "map_get (sto_secrets st) (Ref_String (ss_Ref sec)) = Some x"
  shows "Ref_Validate (ss_Ref sec) = None"
proof -
  have x: "Ref_String (ss_Ref sec) = Ref_String (ss_Ref x)" "Ref_Validate (ss_Ref x) = None"
    using assms(1) map_of_SomeD [OF assms(4)] by (auto simp: store_inv_def)
  have "Owner_String ow @ CHR ''/'' # rf_Name (ss_Ref sec) =
      Owner_String (rf_Owner (ss_Ref x)) @ CHR ''/'' # rf_Name (ss_Ref x)"
    using x(1) assms(3) by (simp add: Ref_String_def)
  moreover have "CHR ''/'' \<notin> set (Owner_String ow)" "CHR ''/'' \<notin> set (Owner_String (rf_Owner (ss_Ref x)))"
    using assms(2) x(2) namePattern_chars(2) by (auto simp: Owner_Validate_iff Ref_Validate_iff Owner_String_def)
  ultimately have "rf_Name (ss_Ref sec) = rf_Name (ss_Ref x)"
    using cut_at_append by (metis option.inject prod.inject)
  then show ?thesis using assms(2,3) x(2) by (simp add: Ref_Validate_iff)
qed

lemma store_inv_reseal:
  assumes "store_inv st"
  shows "store_inv (st\<lparr>sto_secrets := write_resealed rs (sto_secrets st)\<rparr>)"
proof -
  have ok: "map_ok (sto_secrets st)" using assms by (simp add: store_inv_def)
  note ok' = write_resealed_ok [OF ok, of rs]
  have "k = Ref_String (ss_Ref y) \<and> Ref_Validate (ss_Ref y) = None \<and>
      Owner_String (rf_Owner (ss_Ref y)) \<in> fst ` set (sto_keys st)"
    if entry: "(k, y) \<in> set (write_resealed rs (sto_secrets st))" for k y
  proof -
    obtain x where "(k, x) \<in> set (sto_secrets st)" and ref: "ss_Ref y = ss_Ref x"
      using write_resealed_get [of rs "sto_secrets st" k y] entry ok ok' by auto
    then have "k = Ref_String (ss_Ref x) \<and> Ref_Validate (ss_Ref x) = None \<and>
        Owner_String (rf_Owner (ss_Ref x)) \<in> fst ` set (sto_keys st)"
      using assms by (auto simp: store_inv_def)
    then show ?thesis by (simp only: ref)
  qed
  then have "\<forall>(k, y)\<in>set (write_resealed rs (sto_secrets st)). k = Ref_String (ss_Ref y) \<and>
      Ref_Validate (ss_Ref y) = None \<and> Owner_String (rf_Owner (ss_Ref y)) \<in> fst ` set (sto_keys st)"
    by blast
  then show ?thesis using assms ok' by (simp add: store_inv_def)
qed

lemma Store_ReplaceOwnerKey_spec:
  assumes "store_inv st" and "Owner_Validate (ok_Owner k) = None"
    and "Store_ReplaceOwnerKey c k expected rs au st = (r, st')"
  shows "r \<noteq> None \<and> st' = st \<or>
    r = None \<and> store_inv st' \<and> (\<exists>cur. store_key st (ok_Owner k) = Some cur \<and> ok_KeyID cur = expected) \<and>
    (\<forall>sec\<in>set rs. rf_Owner (ss_Ref sec) = ok_Owner k) \<and>
    store_key st' = (store_key st)(ok_Owner k \<mapsto> normalizeKey k) \<and>
    store_secret st' = resealed_over rs (store_secret st) \<and> appended (sto_audit st) au (sto_audit st')"
proof (cases r)
  case None
  let ?s1 = "st\<lparr>sto_keys := map_put (Owner_String (ok_Owner k)) (normalizeKey k) (sto_keys st)\<rparr>"
  let ?st = "?s1\<lparr>sto_secrets := write_resealed rs (sto_secrets ?s1)\<rparr>"
  obtain cur where cur: "map_get (sto_keys st) (Owner_String (ok_Owner k)) = Some cur" "ok_KeyID cur = expected"
    and rs: "check_resealed (ok_Owner k) (sto_secrets st) rs = None" and ok: "checkAudit au st = None"
    and st': "st' = appendAudit au ?st"
    using assms(3) None by (auto simp: Store_ReplaceOwnerKey_def split: option.splits if_splits)
  have valid: "\<forall>sec\<in>set rs. Ref_Validate (ss_Ref sec) = None"
    using rs resealed_valid [OF assms(1,2)] by (auto simp: check_resealed_iff)
  have "store_inv ?st"
    by (intro store_inv_reseal store_inv_put_key assms(1,2)) (simp add: normalizeKey_def)
  moreover have "acceptable au (sto_audit ?st)" using ok assms(1) by (simp add: checkAudit_iff)
  ultimately have "store_inv st'" unfolding st' by (rule appendAudit_inv)
  moreover have "store_secret ?st = resealed_over rs (store_secret st)"
    using write_resealed_view [OF valid, of "sto_secrets st"] by (simp add: store_secret_view)
  moreover have "store_key ?st = store_key ?s1" by (simp add: store_key_def fun_eq_iff)
  then have "store_key ?st = (store_key st)(ok_Owner k \<mapsto> normalizeKey k)"
    using store_key_put [OF assms(2), where st = st and k = "normalizeKey k"] by simp
  moreover have "appended (sto_audit st) au (sto_audit st')"
    using appendAudit_appended [of ?st au] st' by simp
  moreover have "store_key st (ok_Owner k) = Some cur" using cur(1) assms(2) by (simp add: store_key_def)
  ultimately show ?thesis
    using None st' cur(2) rs by (simp add: check_resealed_iff)
qed (use assms(3) in \<open>auto simp: Store_ReplaceOwnerKey_def split: option.splits if_splits\<close>)

lemma Store_ReplaceOwnerKey_ok:
  assumes "store_inv st" and "store_key st (ok_Owner k) = Some cur"
    and "\<forall>sec\<in>set rs. rf_Owner (ss_Ref sec) = ok_Owner k \<and> store_secret st (ss_Ref sec) \<noteq> None"
    and "acceptable au (sto_audit st)"
  shows "fst (Store_ReplaceOwnerKey None k (ok_KeyID cur) rs au st) = None"
proof -
  have "checkAudit au st = None" using assms(1,4) by (simp add: checkAudit_iff)
  moreover have "check_resealed (ok_Owner k) (sto_secrets st) rs = None"
    using assms(3) by (auto simp: check_resealed_iff store_secret_def split: if_splits)
  moreover have "map_get (sto_keys st) (Owner_String (ok_Owner k)) = Some cur"
    using assms(2) by (simp add: store_key_def split: if_splits)
  ultimately show ?thesis by (simp add: Store_ReplaceOwnerKey_def)
qed

subsection \<open>Listing and deleting an owner's secrets\<close>

lemma store_inv_secret:
  "store_inv st \<Longrightarrow> (k, sec) \<in> set (sto_secrets st) \<Longrightarrow>
     k = Ref_String (ss_Ref sec) \<and> Ref_Validate (ss_Ref sec) = None"
  by (auto simp: store_inv_def)

lemma store_inv_maps: "store_inv st \<Longrightarrow> map_ok (sto_keys st) \<and> map_ok (sto_secrets st)"
  by (simp add: store_inv_def)

lemma owned_set:
  assumes "store_inv st"
  shows "set (owned ow st) = {sec. store_secret st (ss_Ref sec) = Some sec \<and> rf_Owner (ss_Ref sec) = ow}"
proof -
  have "sec \<in> set (map_vals (sto_secrets st)) \<longleftrightarrow> store_secret st (ss_Ref sec) = Some sec" for sec
  proof
    assume "sec \<in> set (map_vals (sto_secrets st))"
    then obtain k where k: "(k, sec) \<in> set (sto_secrets st)" by auto
    with store_inv_secret [OF assms k] show "store_secret st (ss_Ref sec) = Some sec"
      by (simp add: store_secret_entry [OF assms])
  next
    assume "store_secret st (ss_Ref sec) = Some sec"
    then have "(Ref_String (ss_Ref sec), sec) \<in> set (sto_secrets st)"
      by (simp add: store_secret_entry [OF assms])
    then show "sec \<in> set (map_vals (sto_secrets st))" by force
  qed
  then show ?thesis by (simp add: owned_def)
qed

lemma owned_distinct:
  assumes "store_inv st"
  shows "distinct (map (\<lambda>sec. rf_Name (ss_Ref sec)) (owned ow st))"
proof -
  have "map fst (sto_secrets st) = map (\<lambda>sec. Ref_String (ss_Ref sec)) (map_vals (sto_secrets st))"
    using store_inv_secret [OF assms] by auto
  with store_inv_maps [OF assms]
  have "distinct (map (\<lambda>sec. Ref_String (ss_Ref sec)) (map_vals (sto_secrets st)))"
    by (simp only:)
  then have "distinct (map (\<lambda>sec. Ref_String (ss_Ref sec)) (owned ow st))"
    unfolding owned_def by (rule distinct_map_filter)
  moreover have "map (\<lambda>sec. Ref_String (ss_Ref sec)) (owned ow st) =
      map (\<lambda>n. Owner_String ow @ CHR ''/'' # n) (map (\<lambda>sec. rf_Name (ss_Ref sec)) (owned ow st))"
    by (auto simp: owned_def Ref_String_def)
  ultimately show ?thesis by (metis distinct_map)
qed

interpretation key_order: picker "\<lambda>a b. fst a < (fst b :: string)" fst
  by unfold_locales auto

interpretation name_order: picker "\<lambda>a b. rf_Name (ss_Ref a) < rf_Name (ss_Ref b)" "\<lambda>sec. rf_Name (ss_Ref sec)"
  by unfold_locales auto

lemma Store_ListSealedSecrets_spec:
  assumes "store_inv st" and "Store_ListSealedSecrets c ow st = (l, st')"
  shows "st' = st \<and> (case c of Some e \<Rightarrow> l = Inl e | None \<Rightarrow> \<exists>secs. l = Inr secs \<and>
    sorted_wrt (\<lambda>a b. rf_Name (ss_Ref a) < rf_Name (ss_Ref b)) secs \<and>
    set secs = {sec. store_secret st (ss_Ref sec) = Some sec \<and> rf_Owner (ss_Ref sec) = ow})"
  using assms(2) name_order.sorted_sort_slice [OF owned_distinct [OF assms(1)], of ow] owned_set [OF assms(1), of ow]
  by (auto simp: Store_ListSealedSecrets_def split: option.splits)

lemma Store_ListSecrets_spec:
  assumes "store_inv st" and "Store_ListSecrets c ow st = (l, st')"
  shows "st' = st \<and> (case c of Some e \<Rightarrow> l = Inl e | None \<Rightarrow> \<exists>secs. l = Inr (map metadata secs) \<and>
    sorted_wrt (\<lambda>a b. rf_Name (ss_Ref a) < rf_Name (ss_Ref b)) secs \<and>
    set secs = {sec. store_secret st (ss_Ref sec) = Some sec \<and> rf_Owner (ss_Ref sec) = ow})"
proof (cases "Store_ListSealedSecrets c ow st")
  case (Pair l0 st0)
  with Store_ListSealedSecrets_spec [OF assms(1) Pair] assms(2) show ?thesis
    by (auto simp: Store_ListSecrets_def split: option.splits)
qed

lemma foldl_map_put:
  "distinct (map f xs) \<Longrightarrow> fst ` set acc \<inter> f ` set xs = {} \<Longrightarrow>
     foldl (\<lambda>m x. map_put (f x) x m) acc xs = acc @ map (\<lambda>x. (f x, x)) xs"
proof (induction xs arbitrary: acc)
  case (Cons x xs)
  then have "map_put (f x) x acc = acc @ [(f x, x)]" by (intro map_put_fresh) auto
  with Cons show ?case by (auto simp: image_iff)
qed simp

definition stamp :: "action \<Rightarrow> sealed_secret \<Rightarrow> audit_record \<Rightarrow> audit_record" where
  "stamp act sec r =
     (if au_Action r = act \<and> au_Owner r = rf_Owner (ss_Ref sec) \<and> au_Name r = rf_Name (ss_Ref sec)
      then r\<lparr>au_Version := ss_Version sec, au_KeyID := ss_KeyID sec\<rparr> else r)"

lemma stamped_fold: "foldl (\<lambda>au sec. stamped au act sec) au secs = map (\<lambda>r. foldl (\<lambda>r sec. stamp act sec r) r secs) au"
  by (induction secs arbitrary: au) (auto simp: stamped_def stamp_def comp_def)

lemma stamp_fold:
  assumes "distinct (map (\<lambda>sec. rf_Name (ss_Ref sec)) secs)" and "\<forall>sec\<in>set secs. rf_Owner (ss_Ref sec) = ow"
  shows "foldl (\<lambda>r sec. stamp act sec r) r secs =
    (if au_Action r = act \<and> au_Owner r = ow
     then case map_of (map (\<lambda>sec. (rf_Name (ss_Ref sec), sec)) secs) (au_Name r) of
            None \<Rightarrow> r
          | Some sec \<Rightarrow> r\<lparr>au_Version := ss_Version sec, au_KeyID := ss_KeyID sec\<rparr>
     else r)"
  using assms
proof (induction secs arbitrary: r)
  case (Cons sec secs)
  let ?m = "map_of (map (\<lambda>sec. (rf_Name (ss_Ref sec), sec)) secs)"
  let ?r = "r\<lparr>au_Version := ss_Version sec, au_KeyID := ss_KeyID sec\<rparr>"
  have none: "?m (rf_Name (ss_Ref sec)) = None"
    using Cons.prems(1) by (auto simp: map_of_eq_None_iff image_iff)
  have owner: "rf_Owner (ss_Ref sec) = ow" using Cons.prems(2) by simp
  have hyps: "distinct (map (\<lambda>sec. rf_Name (ss_Ref sec)) secs)" "\<forall>sec\<in>set secs. rf_Owner (ss_Ref sec) = ow"
    using Cons.prems by simp_all
  note IH = Cons.IH [OF hyps]
  show ?case
  proof (cases "au_Action r = act \<and> au_Owner r = ow \<and> au_Name r = rf_Name (ss_Ref sec)")
    case True
    then have "stamp act sec r = ?r" by (simp add: stamp_def owner)
    then show ?thesis using True none IH [of ?r] by simp
  next
    case False
    then have "stamp act sec r = r" by (auto simp: stamp_def owner)
    then show ?thesis using False IH [of r] by auto
  qed
qed simp

lemma store_inv_del_owner:
  assumes "store_inv st" and "Owner_Validate ow = None"
  shows "store_inv (st\<lparr>sto_secrets := filter (\<lambda>(k, sec). rf_Owner (ss_Ref sec) \<noteq> ow) (sto_secrets st),
                       sto_keys := map_del (Owner_String ow) (sto_keys st)\<rparr>)"
proof -
  have keep: "k \<in> fst ` set (map_del (Owner_String ow) (sto_keys st))"
    if "k \<in> fst ` set (sto_keys st)" "k \<noteq> Owner_String ow" for k
    using that by (simp add: delete_keys flip: set_map)
  have owner_ne: "Owner_String (rf_Owner (ss_Ref sec)) \<noteq> Owner_String ow"
    if "Ref_Validate (ss_Ref sec) = None" "rf_Owner (ss_Ref sec) \<noteq> ow" for sec
    using that Owner_String_inj [OF _ _ assms(2)] by (auto simp: Ref_Validate_iff)
  have "k = Ref_String (ss_Ref sec) \<and> Ref_Validate (ss_Ref sec) = None \<and>
      Owner_String (rf_Owner (ss_Ref sec)) \<in> fst ` set (map_del (Owner_String ow) (sto_keys st))"
    if entry: "(k, sec) \<in> set (sto_secrets st)" and other: "rf_Owner (ss_Ref sec) \<noteq> ow" for k sec
  proof -
    have "k = Ref_String (ss_Ref sec)" "Ref_Validate (ss_Ref sec) = None"
      "Owner_String (rf_Owner (ss_Ref sec)) \<in> fst ` set (sto_keys st)"
      using assms(1) entry by (auto simp: store_inv_def)
    then show ?thesis using other owner_ne [of sec] keep by simp
  qed
  with assms(1) set_map_del [of "Owner_String ow" "sto_keys st"] show ?thesis
    unfolding store_inv_def by (auto simp: map_ok_del distinct_map_filter simp del: delete_simps)
qed

lemma owner_refs: "{rf_Name rf | rf. rf_Owner rf = ow \<and> P rf} = {n. P \<lparr>rf_Owner = ow, rf_Name = n\<rparr>}"
proof -
  have "rf = \<lparr>rf_Owner = ow, rf_Name = rf_Name rf\<rparr>" if "rf_Owner rf = ow" for rf
    using that by (auto intro!: secret_ref.equality)
  then show ?thesis by (auto, metis, metis secret_ref.select_convs)
qed

definition owner_names :: "owner \<Rightarrow> secret_store \<Rightarrow> string set" where
  "owner_names ow st = {rf_Name rf | rf. rf_Owner rf = ow \<and> store_secret st rf \<noteq> None}"

text \<open>The map of removed secrets that \<open>DeleteOwner\<close> builds.\<close>

lemma removed_facts:
  assumes "store_inv st" and "removed = foldl (\<lambda>m sec. map_put (rf_Name (ss_Ref sec)) sec m) [] (owned ow st)"
  shows "length removed = card (owner_names ow st)"
    and "map_get removed n = None \<longleftrightarrow> n \<notin> owner_names ow st"
    and "foldl (\<lambda>au sec. stamped au ActionSecretDeleted sec) au (map_vals removed) =
      map (deletion_record ow (store_secret st)) au"
proof -
  define secs where "secs = owned ow st"
  have dist: "distinct (map (\<lambda>sec. rf_Name (ss_Ref sec)) secs)"
    using owned_distinct [OF assms(1)] by (simp add: secs_def)
  have removed: "removed = map (\<lambda>sec. (rf_Name (ss_Ref sec), sec)) secs"
    unfolding assms(2) secs_def [symmetric] using foldl_map_put [OF dist, of "[]"] by simp
  have sec: "sec \<in> set secs \<longleftrightarrow> store_secret st (ss_Ref sec) = Some sec \<and> rf_Owner (ss_Ref sec) = ow" for sec
    using owned_set [OF assms(1)] by (auto simp: secs_def)
  have removed_get: "map_get removed n = store_secret st \<lparr>rf_Owner = ow, rf_Name = n\<rparr>" for n
  proof (cases "store_secret st \<lparr>rf_Owner = ow, rf_Name = n\<rparr>")
    case (Some x)
    then have "ss_Ref x = \<lparr>rf_Owner = ow, rf_Name = n\<rparr>" using store_secret_ref [OF assms(1)] by blast
    with Some have "(n, x) \<in> set removed" using sec [of x] by (auto simp: removed image_iff intro!: bexI [of _ x])
    then show ?thesis using Some dist by (auto simp: removed comp_def intro!: map_of_is_SomeI)
  next
    case None
    have "n \<notin> fst ` set removed"
    proof
      assume "n \<in> fst ` set removed"
      then obtain x where "x \<in> set secs" "n = rf_Name (ss_Ref x)" by (auto simp: removed)
      then have "store_secret st \<lparr>rf_Owner = ow, rf_Name = n\<rparr> = Some x"
        using sec [of x] by (cases "ss_Ref x") simp
      with None show False by simp
    qed
    with None show ?thesis by (simp add: map_of_eq_None_iff)
  qed
  then show none: "map_get removed n = None \<longleftrightarrow> n \<notin> owner_names ow st" for n
    by (simp add: owner_names_def owner_refs)
  have "fst ` set removed = owner_names ow st"
  proof (rule set_eqI)
    fix n show "n \<in> fst ` set removed \<longleftrightarrow> n \<in> owner_names ow st"
      using none [of n] by (simp add: map_of_eq_None_iff)
  qed
  moreover have "distinct (map fst removed)" using dist by (simp add: removed comp_def)
  ultimately show "length removed = card (owner_names ow st)"
    by (metis distinct_card length_map set_map)
  show "foldl (\<lambda>au sec. stamped au ActionSecretDeleted sec) au (map_vals removed) =
      map (deletion_record ow (store_secret st)) au"
    using stamp_fold [OF dist, of ow ActionSecretDeleted] sec removed_get
    by (simp add: removed stamped_fold deletion_record_def comp_def)
qed

lemma Store_DeleteOwner_spec:
  assumes "store_inv st" and "Owner_Validate ow = None" and "Store_DeleteOwner c ow names au st = (r, st')"
  shows "r \<noteq> None \<and> st' = st \<or>
    r = None \<and> store_inv st' \<and> store_key st ow \<noteq> None \<and>
    set names = {rf_Name rf | rf. rf_Owner rf = ow \<and> store_secret st rf \<noteq> None} \<and>
    store_key st' = (store_key st)(ow := None) \<and>
    store_secret st' = (\<lambda>rf. if rf_Owner rf = ow then None else store_secret st rf) \<and>
    appended (sto_audit st) (map (deletion_record ow (store_secret st)) au) (sto_audit st')"
proof (cases r)
  case None
  define removed where "removed = foldl (\<lambda>m sec. map_put (rf_Name (ss_Ref sec)) sec m) [] (owned ow st)"
  define au' where "au' = map (deletion_record ow (store_secret st)) au"
  note facts = removed_facts [OF assms(1) removed_def]
  let ?names = "owner_names ow st"
  let ?st = "st\<lparr>sto_secrets := filter (\<lambda>(k, sec). rf_Owner (ss_Ref sec) \<noteq> ow) (sto_secrets st),
                sto_keys := map_del (Owner_String ow) (sto_keys st)\<rparr>"
  have key: "map_get (sto_keys st) (Owner_String ow) \<noteq> None"
    and count: "length (remdups names) = length removed"
    and sub: "\<forall>n\<in>set names. map_get removed n \<noteq> None"
    and ok: "checkAudit au' st = None" and st': "st' = appendAudit au' ?st"
    using assms(3) None unfolding Store_DeleteOwner_def Let_def removed_def [symmetric] facts(3) au'_def [symmetric]
    by (auto split: option.splits if_splits)
  have names: "set names = ?names"
  proof (rule card_subset_eq)
    show "finite ?names"
    proof (rule finite_subset)
      show "?names \<subseteq> fst ` set removed"
      proof
        fix n assume "n \<in> ?names"
        then show "n \<in> fst ` set removed" using facts(2) [of n] by (simp add: map_of_eq_None_iff)
      qed
    qed simp
    show "set names \<subseteq> ?names" using sub facts(2) by blast
    show "card (set names) = card ?names" using count facts(1) by (simp add: length_remdups_card_conv)
  qed
  have "store_inv ?st" by (rule store_inv_del_owner [OF assms(1,2)])
  moreover have "acceptable au' (sto_audit ?st)" using ok assms(1) by (simp add: checkAudit_iff)
  ultimately have "store_inv st'" unfolding st' by (rule appendAudit_inv)
  moreover have "store_secret ?st = (\<lambda>rf. if rf_Owner rf = ow then None else store_secret st rf)"
  proof
    fix rf
    have "store_secret ?st rf = (if Ref_Validate rf = None then
        map_get (filter (\<lambda>(k, sec). rf_Owner (ss_Ref sec) \<noteq> ow) (sto_secrets st)) (Ref_String rf) else None)"
      by (simp add: store_secret_def)
    also have "\<dots> = (case store_secret st rf of None \<Rightarrow> None | Some v \<Rightarrow> if rf_Owner (ss_Ref v) \<noteq> ow then Some v else None)"
      using store_inv_maps [OF assms(1)] by (simp add: store_secret_def map_get_filter split: option.splits)
    also have "\<dots> = (if rf_Owner rf = ow then None else store_secret st rf)"
      using store_secret_ref(1) [OF assms(1), of rf] by (auto split: option.splits)
    finally show "store_secret ?st rf = (if rf_Owner rf = ow then None else store_secret st rf)" .
  qed
  moreover have "store_key ?st = (store_key st)(ow := None)"
  proof -
    have "store_key ?st = store_key (st\<lparr>sto_keys := map_del (Owner_String ow) (sto_keys st)\<rparr>)"
      by (simp add: store_key_def fun_eq_iff)
    then show ?thesis using store_key_del [OF assms(2), of st] by simp
  qed
  moreover have "appended (sto_audit st) au' (sto_audit st')"
    using appendAudit_appended [of ?st au'] st' by simp
  moreover have "store_key st ow \<noteq> None" using key assms(2) by (simp add: store_key_def)
  ultimately show ?thesis using None names st' by (simp add: au'_def owner_names_def)
qed (use assms(3) in \<open>auto simp: Store_DeleteOwner_def Let_def split: option.splits if_splits\<close>)

lemma Store_DeleteOwner_ok:
  assumes "store_inv st" and "Owner_Validate ow = None" and "store_key st ow \<noteq> None"
    and names: "set names = {rf_Name rf | rf. rf_Owner rf = ow \<and> store_secret st rf \<noteq> None}"
    and "acceptable au (sto_audit st)"
  shows "fst (Store_DeleteOwner None ow names au st) = None"
proof -
  define removed where "removed = foldl (\<lambda>m sec. map_put (rf_Name (ss_Ref sec)) sec m) [] (owned ow st)"
  note facts = removed_facts [OF assms(1) removed_def]
  have "checkAudit (map (deletion_record ow (store_secret st)) au) st = None"
    using assms(1,5) by (simp add: checkAudit_iff)
  moreover have "map_get (sto_keys st) (Owner_String ow) \<noteq> None" using assms(2,3) by (simp add: store_key_def)
  moreover have "length (remdups names) = length removed"
    unfolding length_remdups_card_conv names owner_names_def [symmetric] facts(1) ..
  moreover have "\<not> (\<exists>name\<in>set (remdups names). map_get removed name = None)"
    using facts(2) by (simp only: set_remdups names owner_names_def [symmetric]) blast
  ultimately show ?thesis
    unfolding Store_DeleteOwner_def Let_def removed_def [symmetric] facts(3) by simp
qed

subsection \<open>Pages\<close>

lemma page_loop_skip: "page_loop skip token limit out xs = page_loop (\<lambda>_. False) token limit out (filter (\<lambda>x. \<not> skip x) xs)"
  by (induction skip token limit out xs rule: page_loop.induct) auto

lemma page_loop_all:
  "int (length out) \<le> limit \<Longrightarrow>
     page_loop (\<lambda>_. False) token limit out xs =
       (if int (length (out @ xs)) \<le> limit then (out @ xs, [])
        else (take (nat limit) (out @ xs), token (last (take (nat limit) (out @ xs)))))"
proof (induction xs arbitrary: out)
  case (Cons x xs)
  show ?case
  proof (cases "int (length out) = limit")
    case True
    then have "nat limit = length out" by simp
    with True show ?thesis by simp
  next
    case False
    with Cons show ?thesis by simp
  qed
qed simp

text \<open>
  One page over a list sorted by token: it is everything, or a nonempty prefix up to and including the
  token it returns.
\<close>

lemma page_spec:
  assumes "sorted_wrt (\<lambda>a b. token a < token b) xs" and "0 < limit"
    and "page_loop (\<lambda>_. False) token limit [] xs = (ys, nxt)"
  shows "ys = xs \<and> nxt = [] \<or>
    ys \<noteq> [] \<and> nxt = token (last ys) \<and> last ys \<in> set xs \<and> (\<exists>n. ys = take n xs) \<and>
    ys = filter (\<lambda>x. token x \<le> nxt) xs"
proof (cases "int (length xs) \<le> limit")
  case False
  define n where "n = nat limit"
  have n: "0 < n" "n < length xs" using assms(2) False by (auto simp: n_def)
  have ys: "ys = take n xs" "nxt = token (last ys)"
    using assms(2,3) False page_loop_all [of "[]" limit token xs] by (auto simp: n_def)
  have "ys \<noteq> []" using n ys(1) by (cases xs) auto
  then have last: "last ys \<in> set ys" by simp
  have "xs = ys @ drop n xs" by (simp add: ys(1))
  then have sorted: "sorted_wrt (\<lambda>a b. token a < token b) ys"
    "\<forall>a\<in>set ys. \<forall>b\<in>set (drop n xs). token a < token b"
    using assms(1) by (metis sorted_wrt_append)+
  have "\<forall>a\<in>set ys. token a \<le> token (last ys)"
    using sorted(1) \<open>ys \<noteq> []\<close>
    by (metis append_butlast_last_id in_set_butlast_appendI order.strict_implies_order order_refl sorted_wrt_append
        list.set_intros(1) in_set_conv_decomp last_in_set rotate1.simps(2) set_rotate1 set_ConsD)
  moreover have "\<forall>b\<in>set (drop n xs). \<not> token b \<le> token (last ys)"
    using sorted(2) last by (auto simp: not_le)
  ultimately have "filter (\<lambda>x. token x \<le> nxt) (ys @ drop n xs) = ys"
    unfolding ys(2) filter_append by (simp add: filter_empty_conv)
  then have "ys = filter (\<lambda>x. token x \<le> nxt) xs" by (simp add: ys(1))
  moreover have "last ys \<in> set xs" using last ys(1) by (metis in_set_takeD)
  ultimately show ?thesis using ys \<open>ys \<noteq> []\<close> by blast
qed (use assms page_loop_all [of "[]" limit token xs] in auto)

lemma sorted_token_distinct: "sorted_wrt (\<lambda>a b. token a < (token b :: string)) xs \<Longrightarrow> distinct xs"
  by (induction xs) auto

lemma Store_ListOwnerKeys_spec:
  assumes "store_inv st" and "0 < limit" and "Store_ListOwnerKeys c after limit st = (g, st')"
  shows "st' = st \<and> (case c of Some e \<Rightarrow> g = Inl e | None \<Rightarrow> \<exists>ks nxt. g = Inr (ks, nxt) \<and> (nxt = [] \<or> after < nxt \<and> ks \<noteq> []) \<and>
    distinct ks \<and>
    set ks = {k. store_key st (ok_Owner k) = Some k \<and> after < Owner_String (ok_Owner k) \<and>
                 (nxt = [] \<or> Owner_String (ok_Owner k) \<le> nxt)})"
proof (cases c)
  case None
  define es where "es = filter (\<lambda>e. after < fst e) (sto_keys st)"
  define token where "token = (\<lambda>k :: owner_key. Owner_String (ok_Owner k))"
  define xs where "xs = map snd (sort_slice (\<lambda>a b. fst a < fst b) es)"
  have entry: "k = token key \<and> Owner_Validate (ok_Owner key) = None" if "(k, key) \<in> set (sto_keys st)" for k key
    using assms(1) that by (auto simp: store_inv_def token_def)
  have "distinct (map fst es)"
    using store_inv_maps [OF assms(1)] unfolding es_def by (intro distinct_map_filter) simp
  then have "sorted_wrt (\<lambda>a b. fst a < fst b) (sort_slice (\<lambda>a b. fst a < fst b) es)"
    by (intro key_order.sorted_sort_slice)
  then have "sorted_wrt (\<lambda>a b. token (snd a) < token (snd b)) (sort_slice (\<lambda>a b. fst a < fst b) es)"
    by (rule sorted_wrt_mono_rel [rotated]) (use entry in \<open>auto simp: es_def\<close>)
  then have sorted: "sorted_wrt (\<lambda>a b. token a < token b) xs"
    by (simp add: xs_def sorted_wrt_map)
  then have "distinct xs" by (rule sorted_token_distinct)
  have set_xs: "set xs = {k. store_key st (ok_Owner k) = Some k \<and> after < token k}"
  proof -
    have "k \<in> set xs \<longleftrightarrow> store_key st (ok_Owner k) = Some k \<and> after < token k" for k
    proof -
      have "k \<in> set xs \<longleftrightarrow> (\<exists>s. (s, k) \<in> set (sto_keys st) \<and> after < s)"
        by (force simp: xs_def es_def)
      also have "\<dots> \<longleftrightarrow> (token k, k) \<in> set (sto_keys st) \<and> after < token k" using entry by blast
      also have "\<dots> \<longleftrightarrow> store_key st (ok_Owner k) = Some k \<and> after < token k"
        using entry [of "token k" k] by (auto simp: store_key_entry [OF assms(1)] token_def)
      finally show ?thesis .
    qed
    then show ?thesis by blast
  qed
  obtain ks nxt where page: "page_loop (\<lambda>_. False) token limit [] xs = (ks, nxt)" by fastforce
  have "g = Inr (ks, nxt)" "st' = st"
    using assms(2,3) None page by (auto simp: Store_ListOwnerKeys_def Let_def xs_def es_def token_def)
  moreover have tok_ne: "token k \<noteq> []" for k by (simp add: token_def Owner_String_def)
  have "(nxt = [] \<or> after < nxt \<and> ks \<noteq> []) \<and> distinct ks \<and> set ks = {k \<in> set xs. nxt = [] \<or> token k \<le> nxt}"
    using page_spec [OF sorted assms(2) page]
  proof
    assume "ks = xs \<and> nxt = []"
    then show ?thesis using \<open>distinct xs\<close> by simp
  next
    assume more: "ks \<noteq> [] \<and> nxt = token (last ks) \<and> last ks \<in> set xs \<and> (\<exists>n. ks = take n xs) \<and>
      ks = filter (\<lambda>x. token x \<le> nxt) xs"
    then have nxt: "nxt = token (last ks)" and last: "last ks \<in> set xs"
      and ks: "ks = filter (\<lambda>x. token x \<le> nxt) xs" by blast+
    have "after < nxt" using last set_xs nxt by simp
    moreover have "nxt \<noteq> []" using tok_ne nxt by simp
    moreover have "distinct ks" by (subst ks, rule distinct_filter [OF \<open>distinct xs\<close>])
    moreover have "set ks = {k \<in> set xs. token k \<le> nxt}" by (subst ks, rule set_filter)
    moreover have "ks \<noteq> []" using more by blast
    ultimately show ?thesis by simp
  qed
  ultimately show ?thesis using set_xs None by (auto simp: token_def)
qed (use assms in \<open>auto simp: Store_ListOwnerKeys_def\<close>)

section \<open>The store meets the contract\<close>

lemma store_key_owner_conj: "store_inv st \<Longrightarrow> store_key st ow = Some k \<Longrightarrow> ok_Owner k = ow \<and> Owner_Validate ow = None"
  using store_key_owner by blast

lemma store_secret_ref_conj: "store_inv st \<Longrightarrow> store_secret st rf = Some x \<Longrightarrow> ss_Ref x = rf \<and> Ref_Validate rf = None"
  using store_secret_ref by blast

lemma finite_store_keys: "store_inv st \<Longrightarrow> finite {ow. store_key st ow \<noteq> None}"
proof -
  assume inv: "store_inv st"
  have "{ow. store_key st ow \<noteq> None} \<subseteq> (\<lambda>e. ok_Owner (snd e)) ` set (sto_keys st)"
  proof
    fix ow assume "ow \<in> {ow. store_key st ow \<noteq> None}"
    then obtain k where k: "store_key st ow = Some k" by auto
    then have "(Owner_String ow, k) \<in> set (sto_keys st)" using store_key_entry [OF inv] by blast
    moreover have "ok_Owner k = ow" using k inv store_key_owner by blast
    ultimately show "ow \<in> (\<lambda>e. ok_Owner (snd e)) ` set (sto_keys st)" by force
  qed
  then show ?thesis by (rule finite_subset) simp
qed

lemmas store_contract =
  store_key_owner_conj store_secret_ref_conj store_secret_has_key finite_store_keys Store_GetOwnerKey_spec Store_GetSecret_spec
  Store_ListSealedSecrets_spec Store_ListSecrets_spec Store_ListOwnerKeys_spec Store_CreateOwnerKey_spec
  Store_CreateOwnerKey_ok Store_ReplaceOwnerKey_spec Store_ReplaceOwnerKey_ok Store_PutSecret_spec
  Store_PutSecret_ok Store_DeleteSecret_spec Store_DeleteOwner_spec Store_DeleteOwner_ok
  Store_AppendAudit_spec Store_AppendAudit_ok

interpretation memory: vault_repository memory_vault store_inv store_key store_secret sto_audit
  by (unfold_locales, unfold memory_vault_def vault_repo.select_convs) (rule store_contract; assumption)+

end
