(* ===== verification/Aes_Gcm.thy ===== *)
theory Aes_Gcm
  imports Encodings "HOL-Library.Word"
begin

text \<open>
  AES-256-GCM as \<open>crypto/aes\<close> and \<open>crypto/cipher\<close> of Go's standard library compute it (FIPS 197, NIST SP
  800-38D), in the form of \<open>cipher.NewGCMWithRandomNonce\<close>: the sealed message is the 12-byte random
  nonce, the ciphertext and the 16-byte tag.  The random nonce is an argument.  The theory shows that
  what was sealed opens again under the same key and the same additional data; that nothing else
  opens is a cryptographic assumption and no theorem of the development uses it.
\<close>

unbundle bit_operations_syntax

section \<open>Bytes and blocks\<close>

type_synonym octet = "8 word"
type_synonym block = "128 word"

definition octets :: "bytes \<Rightarrow> octet list" where
  "octets bs = map (\<lambda>c. word_of_nat (byte_val c)) bs"

definition chars :: "octet list \<Rightarrow> bytes" where
  "chars ws = map (\<lambda>w. char_of (unat w)) ws"

definition block_octets :: "block \<Rightarrow> octet list" where
  "block_octets b = map (\<lambda>i. ucast (drop_bit (8 * (15 - i)) b)) [0..<16]"

definition octets_block :: "octet list \<Rightarrow> block" where
  "octets_block ws = foldl (\<lambda>b w. push_bit 8 b OR ucast w) 0 ws"

definition xor_octets :: "octet list \<Rightarrow> octet list \<Rightarrow> octet list" where
  "xor_octets xs ys = map2 (XOR) xs ys"

section \<open>The block cipher\<close>

definition sbox_table :: "octet list" where
  "sbox_table =
     [99, 124, 119, 123, 242, 107, 111, 197, 48, 1, 103, 43, 254, 215, 171, 118,
      202, 130, 201, 125, 250, 89, 71, 240, 173, 212, 162, 175, 156, 164, 114, 192,
      183, 253, 147, 38, 54, 63, 247, 204, 52, 165, 229, 241, 113, 216, 49, 21,
      4, 199, 35, 195, 24, 150, 5, 154, 7, 18, 128, 226, 235, 39, 178, 117,
      9, 131, 44, 26, 27, 110, 90, 160, 82, 59, 214, 179, 41, 227, 47, 132,
      83, 209, 0, 237, 32, 252, 177, 91, 106, 203, 190, 57, 74, 76, 88, 207,
      208, 239, 170, 251, 67, 77, 51, 133, 69, 249, 2, 127, 80, 60, 159, 168,
      81, 163, 64, 143, 146, 157, 56, 245, 188, 182, 218, 33, 16, 255, 243, 210,
      205, 12, 19, 236, 95, 151, 68, 23, 196, 167, 126, 61, 100, 93, 25, 115,
      96, 129, 79, 220, 34, 42, 144, 136, 70, 238, 184, 20, 222, 94, 11, 219,
      224, 50, 58, 10, 73, 6, 36, 92, 194, 211, 172, 98, 145, 149, 228, 121,
      231, 200, 55, 109, 141, 213, 78, 169, 108, 86, 244, 234, 101, 122, 174, 8,
      186, 120, 37, 46, 28, 166, 180, 198, 232, 221, 116, 31, 75, 189, 139, 138,
      112, 62, 181, 102, 72, 3, 246, 14, 97, 53, 87, 185, 134, 193, 29, 158,
      225, 248, 152, 17, 105, 217, 142, 148, 155, 30, 135, 233, 206, 85, 40, 223,
      140, 161, 137, 13, 191, 230, 66, 104, 65, 153, 45, 15, 176, 84, 187, 22]"

definition sbox :: "octet \<Rightarrow> octet" where
  "sbox w = sbox_table ! unat w"

definition xtime :: "octet \<Rightarrow> octet" where
  "xtime w = push_bit 1 w XOR (if bit w 7 then 0x1B else 0)"

text \<open>The key schedule builds its 60 four-byte words in reverse, the latest first.\<close>

fun expand_key :: "nat \<Rightarrow> nat \<Rightarrow> octet \<Rightarrow> octet list list \<Rightarrow> octet list list" where
  "expand_key 0 i rcon acc = rev acc"
| "expand_key (Suc n) i rcon acc =
     (let prev = hd acc;
          t = (if i mod 8 = 0 then xor_octets (map sbox (rotate1 prev)) [rcon, 0, 0, 0]
               else if i mod 8 = 4 then map sbox prev
               else prev)
      in expand_key n (Suc i) (if i mod 8 = 0 then xtime rcon else rcon) (xor_octets (acc ! 7) t # acc))"

fun chunks :: "nat \<Rightarrow> nat \<Rightarrow> 'a list \<Rightarrow> 'a list list" where
  "chunks n 0 xs = []"
| "chunks n (Suc k) xs = take n xs # chunks n k (drop n xs)"

definition round_keys :: "octet list \<Rightarrow> octet list list" where
  "round_keys key = chunks 16 15 (concat (expand_key 52 8 1 (rev (chunks 4 8 key))))"

definition shift_rows :: "octet list \<Rightarrow> octet list" where
  "shift_rows s = map (\<lambda>i. s ! ((i + 4 * (i mod 4)) mod 16)) [0..<16]"

fun mix_column :: "octet list \<Rightarrow> octet list" where
  "mix_column [a, b, c, d] =
     [xtime a XOR xtime b XOR b XOR c XOR d, a XOR xtime b XOR xtime c XOR c XOR d,
      a XOR b XOR xtime c XOR xtime d XOR d, xtime a XOR a XOR b XOR c XOR xtime d]"
| "mix_column _ = []"

definition mix_columns :: "octet list \<Rightarrow> octet list" where
  "mix_columns s = concat (map mix_column (chunks 4 4 s))"

fun aes_rounds :: "octet list list \<Rightarrow> octet list \<Rightarrow> octet list" where
  "aes_rounds [] s = s"
| "aes_rounds [k] s = xor_octets (shift_rows (map sbox s)) k"
| "aes_rounds (k # ks) s = aes_rounds ks (xor_octets (mix_columns (shift_rows (map sbox s))) k)"

definition aes_encrypt :: "octet list \<Rightarrow> octet list \<Rightarrow> octet list" where
  "aes_encrypt key inp =
     (case round_keys key of [] \<Rightarrow> inp | k # ks \<Rightarrow> aes_rounds ks (xor_octets inp k))"

definition aes_block :: "bytes \<Rightarrow> octet list \<Rightarrow> block" where
  "aes_block key inp = octets_block (aes_encrypt (octets key) inp)"

section \<open>Galois/counter mode\<close>

fun gf_mult_loop :: "nat \<Rightarrow> block \<Rightarrow> block \<Rightarrow> block \<Rightarrow> block" where
  "gf_mult_loop 0 x z v = z"
| "gf_mult_loop (Suc n) x z v =
     gf_mult_loop n x (if bit x n then z XOR v else z)
       (if bit v 0 then drop_bit 1 v XOR push_bit 120 0xE1 else drop_bit 1 v)"

definition gf_mult :: "block \<Rightarrow> block \<Rightarrow> block" where
  "gf_mult x y = gf_mult_loop 128 x 0 y"

definition pad16 :: "octet list \<Rightarrow> octet list" where
  "pad16 xs = xs @ replicate ((16 - length xs mod 16) mod 16) 0"

definition length64 :: "nat \<Rightarrow> octet list" where
  "length64 n = map (\<lambda>i. word_of_int (int n * 8 div 256 ^ (7 - i))) [0..<8]"

definition ghash :: "block \<Rightarrow> octet list \<Rightarrow> octet list \<Rightarrow> block" where
  "ghash h aad ct =
     (let input = pad16 aad @ pad16 ct @ length64 (length aad) @ length64 (length ct)
      in foldl (\<lambda>y x. gf_mult (y XOR octets_block x) h) 0 (chunks 16 (length input div 16) input))"

definition counter_block :: "bytes \<Rightarrow> nat \<Rightarrow> octet list" where
  "counter_block nonce i = octets nonce @ map (\<lambda>k. word_of_int (int i div 256 ^ (3 - k))) [0..<4]"

definition keystream :: "bytes \<Rightarrow> bytes \<Rightarrow> nat \<Rightarrow> octet list" where
  "keystream key nonce n =
     concat (map (\<lambda>i. block_octets (aes_block key (counter_block nonce (i + 2)))) [0..<(n + 15) div 16])"

definition gcm_tag :: "bytes \<Rightarrow> bytes \<Rightarrow> bytes \<Rightarrow> octet list \<Rightarrow> bytes" where
  "gcm_tag key nonce aad ct =
     chars (block_octets (ghash (aes_block key (replicate 16 0)) (octets aad) ct XOR
                          aes_block key (counter_block nonce 1)))"

definition gcm_crypt :: "bytes \<Rightarrow> bytes \<Rightarrow> octet list \<Rightarrow> octet list" where
  "gcm_crypt key nonce p = xor_octets p (keystream key nonce (length p))"

text \<open>\<open>gcm.Seal(nil, nil, p, aad)\<close> and \<open>gcm.Open(nil, nil, c, aad)\<close> of the random-nonce mode.\<close>

definition gcm_seal :: "bytes \<Rightarrow> bytes \<Rightarrow> bytes \<Rightarrow> bytes \<Rightarrow> bytes" where
  "gcm_seal key nonce p aad =
     (let ct = gcm_crypt key nonce (octets p) in nonce @ chars ct @ gcm_tag key nonce aad ct)"

definition gcm_open :: "bytes \<Rightarrow> bytes \<Rightarrow> bytes \<Rightarrow> bytes option" where
  "gcm_open key c aad =
     (if length c < 28 then None
      else let nonce = take 12 c;
               tag = drop (length c - 16) c;
               ct = octets (take (length c - 28) (drop 12 c))
           in if gcm_tag key nonce aad ct = tag then Some (chars (gcm_crypt key nonce ct)) else None)"

section \<open>What was sealed opens\<close>

lemma chars_octets [simp]: "chars (octets bs) = bs"
proof -
  have "unat (word_of_nat (byte_val c) :: octet) = byte_val c" for c
    using nat_of_char_less_256 [of c] by (simp add: unat_of_nat take_bit_nat_eq_self_iff)
  then show ?thesis by (simp add: chars_def octets_def map_idI)
qed

lemma octets_chars [simp]: "octets (chars ws) = ws"
proof -
  have "of_char (char_of (unat w) :: char) = unat w" for w :: octet
    using unsigned_less [where 'a = nat, of w] by (simp add: of_char_of)
  then show ?thesis by (simp add: chars_def octets_def map_idI comp_def)
qed

lemma length_octets [simp]: "length (octets bs) = length bs"
  by (simp add: octets_def)

lemma length_chars [simp]: "length (chars ws) = length ws"
  by (simp add: chars_def)

lemma length_block_octets [simp]: "length (block_octets b) = 16"
  by (simp add: block_octets_def)

lemma length_keystream: "n \<le> length (keystream key nonce n)"
proof -
  have "length (keystream key nonce n) = 16 * ((n + 15) div 16)"
    by (simp add: keystream_def length_concat comp_def sum_list_triv)
  moreover have "n \<le> 16 * ((n + 15) div 16)" by presburger
  ultimately show ?thesis by simp
qed

lemma length_gcm_crypt [simp]: "length (gcm_crypt key nonce p) = length p"
  using length_keystream [of "length p" key nonce] by (simp add: gcm_crypt_def xor_octets_def)

lemma length_gcm_tag [simp]: "length (gcm_tag key nonce aad ct) = 16"
  by (simp add: gcm_tag_def)

lemma xor_octets_twice: "length p \<le> length k \<Longrightarrow> xor_octets (xor_octets p k) k = p"
proof (induction p arbitrary: k)
  case (Cons x p)
  then obtain y k' where "k = y # k'" by (cases k) auto
  with Cons show ?case by (simp add: xor_octets_def xor.assoc)
qed (simp add: xor_octets_def)

lemma gcm_crypt_twice [simp]: "gcm_crypt key nonce (gcm_crypt key nonce p) = p"
proof -
  have "gcm_crypt key nonce (gcm_crypt key nonce p) =
      xor_octets (xor_octets p (keystream key nonce (length p))) (keystream key nonce (length p))"
    using length_gcm_crypt [of key nonce p] by (simp add: gcm_crypt_def)
  then show ?thesis by (simp add: xor_octets_twice length_keystream)
qed

lemma length_gcm_seal [simp]: "length (gcm_seal key nonce p aad) = length nonce + length p + 16"
  by (simp add: gcm_seal_def Let_def)

lemma gcm_open_seal [simp]:
  assumes "length nonce = 12"
  shows "gcm_open key (gcm_seal key nonce p aad) aad = Some p"
  using assms by (simp add: gcm_open_def gcm_seal_def Let_def)

end
