(* ===== verification/Keyring.thy ===== *)
theory Keyring
  imports Aes_Gcm
begin

text \<open>
  Key rings and keyed ciphertext, \<open>src/sdk/pkg/cryptids/{cryptids,aesgcm,keyring}.go\<close>.  A ring names
  AES-256-GCM keys by id; \<open>AESGCMRing\<close> encrypts under the active one and writes its id into the
  ciphertext, so any later ring that still holds the key opens it.  A ring may also name a legacy key
  that opens the unprefixed single-key form.  The random nonce of an encryption is an argument.  The
  text of an error is the constant part of its format; only what it wraps is ever inspected.
\<close>

section \<open>The single-key cipher\<close>

text \<open>An \<open>AESGCM\<close> is determined by its key.\<close>

type_synonym aesgcm = bytes

definition NewAESGCM :: "bytes \<Rightarrow> aesgcm res" where
  "NewAESGCM key =
     (if length key \<noteq> 32 then Inl (Wrapped ''aesgcm: key must be exactly 32 bytes'' ErrInvalidInput) else Inr key)"

definition AESGCM_Encrypt :: "aesgcm \<Rightarrow> bytes \<Rightarrow> string \<Rightarrow> string res" where
  "AESGCM_Encrypt e nonce plaintext =
     (if plaintext = [] then Inl (Wrapped ''aesgcm: plaintext cannot be empty'' ErrInvalidInput)
      else Inr (b64_encode (gcm_seal e nonce plaintext [])))"

definition AESGCM_Decrypt :: "aesgcm \<Rightarrow> string \<Rightarrow> string res" where
  "AESGCM_Decrypt e ciphertext =
     (if ciphertext = [] then Inl (Wrapped ''aesgcm: ciphertext cannot be empty'' ErrInvalidInput)
      else case b64_decode ciphertext of
        None \<Rightarrow> Inl (Wrapped ''aesgcm: decode base64'' (ForeignError ''illegal base64 data''))
      | Some dat \<Rightarrow>
          if length dat < 12 then Inl (Wrapped ''aesgcm: ciphertext too short'' ErrInvalidInput)
          else case gcm_open e dat [] of
            None \<Rightarrow> Inl (Wrapped ''aesgcm: decrypt'' (ForeignError ''cipher: message authentication failed''))
          | Some plaintext \<Rightarrow> Inr plaintext)"

section \<open>Key rings\<close>

definition ErrKeyRingEmpty :: go_error where
  "ErrKeyRingEmpty = Wrapped ''cryptids: key ring has no keys: invalid input'' ErrInvalidInput"

definition ErrKeyRingActiveMissing :: go_error where
  "ErrKeyRingActiveMissing = Wrapped ''cryptids: active key is not in the ring: invalid input'' ErrInvalidInput"

definition ErrKeyMalformed :: go_error where
  "ErrKeyMalformed = Wrapped ''cryptids: key malformed: invalid input'' ErrInvalidInput"

definition ErrUnknownScheme :: go_error where
  "ErrUnknownScheme = Wrapped ''cryptids: unknown ciphertext scheme: invalid input'' ErrInvalidInput"

definition ErrUnknownKeyID :: go_error where
  "ErrUnknownKeyID = Wrapped ''cryptids: ciphertext names a key that is not in the ring: invalid input'' ErrInvalidInput"

definition ErrCiphertextMalformed :: go_error where
  "ErrCiphertextMalformed = Wrapped ''cryptids: ciphertext malformed: invalid input'' ErrInvalidInput"

definition ErrCiphertextAuthFailed :: go_error where
  "ErrCiphertextAuthFailed = Wrapped ''cryptids: ciphertext authentication failed: conflict'' ErrConflict"

definition ErrLegacyKeyMissing :: go_error where
  "ErrLegacyKeyMissing = Wrapped ''cryptids: legacy key is not in the ring: invalid input'' ErrInvalidInput"

definition ringScheme :: string where
  "ringScheme = ''v1''"

definition ringKeyBytes :: int where
  "ringKeyBytes = 32"

definition keyIDPattern :: "string \<Rightarrow> bool" where
  "keyIDPattern =
     matches_class (\<lambda>c. is_lower c \<or> is_digit c) (\<lambda>c. is_lower c \<or> is_digit c \<or> c = CHR ''_'' \<or> c = CHR ''-'') 31"

record key_ring =
  kr_Active :: string
  kr_Keys :: "(string, bytes) go_map"

fun validate_keys :: "(int \<Rightarrow> bool) \<Rightarrow> (string, bytes) go_map \<Rightarrow> error" where
  "validate_keys lengthOK [] = None"
| "validate_keys lengthOK ((kid, raw) # rest) =
     (if \<not> keyIDPattern kid then Some (Wrapped ''key id'' ErrKeyMalformed)
      else if \<not> lengthOK (int (length raw)) then Some (Wrapped ''key length'' ErrKeyMalformed)
      else validate_keys lengthOK rest)"

definition KeyRing_validate :: "(int \<Rightarrow> bool) \<Rightarrow> key_ring \<Rightarrow> error" where
  "KeyRing_validate lengthOK r =
     (if kr_Keys r = [] then Some ErrKeyRingEmpty
      else case validate_keys lengthOK (kr_Keys r) of
        Some err \<Rightarrow> Some err
      | None \<Rightarrow>
          if map_get (kr_Keys r) (kr_Active r) = None then Some (Wrapped ''active'' ErrKeyRingActiveMissing)
          else None)"

definition KeyRing_Validate :: "key_ring \<Rightarrow> error" where
  "KeyRing_Validate r = KeyRing_validate (\<lambda>n. n = ringKeyBytes) r"

definition KeyRing_ValidateMinimum :: "int \<Rightarrow> key_ring \<Rightarrow> error" where
  "KeyRing_ValidateMinimum mini r = KeyRing_validate (\<lambda>n. n \<ge> max mini ringKeyBytes) r"

fun parse_entries :: "string list \<Rightarrow> (string, bytes) go_map \<Rightarrow> (string, bytes) go_map res" where
  "parse_entries [] keys = Inr keys"
| "parse_entries (entry0 # rest) keys =
     (let entry = TrimSpace entry0
      in if entry = [] then parse_entries rest keys
         else let (kid0, material) = cut_at (CHR '':'') entry;
                  kid = TrimSpace kid0
              in case material of
                   None \<Rightarrow> Inl (Wrapped ''entry is not id:hex with a valid id'' ErrKeyMalformed)
                 | Some mat \<Rightarrow>
                     if \<not> keyIDPattern kid then Inl (Wrapped ''entry is not id:hex with a valid id'' ErrKeyMalformed)
                     else if map_get keys kid \<noteq> None then Inl (Wrapped ''key appears twice'' ErrKeyMalformed)
                     else case hex_decode (TrimSpace mat) of
                            None \<Rightarrow> Inl (Wrapped ''key is not valid hex'' ErrKeyMalformed)
                          | Some raw \<Rightarrow> parse_entries rest (map_put kid raw keys))"

definition parseKeyRing :: "string \<Rightarrow> string \<Rightarrow> key_ring res" where
  "parseKeyRing keys active =
     (case parse_entries (split_at (CHR '','') keys) [] of
        Inl err \<Rightarrow> Inl err
      | Inr ks \<Rightarrow> Inr \<lparr>kr_Active = TrimSpace active, kr_Keys = ks\<rparr>)"

definition ParseKeyRing :: "string \<Rightarrow> string \<Rightarrow> key_ring res" where
  "ParseKeyRing keys active =
     (case parseKeyRing keys active of
        Inl err \<Rightarrow> Inl err
      | Inr ring \<Rightarrow> (case KeyRing_Validate ring of Some err \<Rightarrow> Inl err | None \<Rightarrow> Inr ring))"

definition ParseKeyRingMinimum :: "string \<Rightarrow> string \<Rightarrow> int \<Rightarrow> key_ring res" where
  "ParseKeyRingMinimum keys active mini =
     (case parseKeyRing keys active of
        Inl err \<Rightarrow> Inl err
      | Inr ring \<Rightarrow> (case KeyRing_ValidateMinimum mini ring of Some err \<Rightarrow> Inl err | None \<Rightarrow> Inr ring))"

section \<open>The keyed cipher\<close>

record aesgcm_ring =
  ar_active :: string
  ar_legacy :: string
  ar_keys :: "(string, aesgcm) go_map"

definition WithLegacyKeyID :: "string \<Rightarrow> aesgcm_ring \<Rightarrow> aesgcm_ring" where
  "WithLegacyKeyID kid r = r\<lparr>ar_legacy := kid\<rparr>"

fun ring_ciphers :: "(string, bytes) go_map \<Rightarrow> (string, aesgcm) go_map \<Rightarrow> (string, aesgcm) go_map res" where
  "ring_ciphers [] acc = Inr acc"
| "ring_ciphers ((kid, raw) # rest) acc =
     (case NewAESGCM raw of
        Inl err \<Rightarrow> Inl (Wrapped ''cryptids: key'' err)
      | Inr gcm \<Rightarrow> ring_ciphers rest (map_put kid gcm acc))"

definition NewAESGCMRing :: "key_ring \<Rightarrow> (aesgcm_ring \<Rightarrow> aesgcm_ring) list \<Rightarrow> aesgcm_ring res" where
  "NewAESGCMRing ring opts =
     (case KeyRing_Validate ring of
        Some err \<Rightarrow> Inl err
      | None \<Rightarrow>
          let r = foldl (\<lambda>r opt. opt r) \<lparr>ar_active = kr_Active ring, ar_legacy = [], ar_keys = []\<rparr> opts
          in if ar_legacy r \<noteq> [] \<and> map_get (kr_Keys ring) (ar_legacy r) = None
             then Inl (Wrapped ''legacy'' ErrLegacyKeyMissing)
             else case ring_ciphers (kr_Keys ring) (ar_keys r) of
                    Inl err \<Rightarrow> Inl err
                  | Inr ks \<Rightarrow> Inr (r\<lparr>ar_keys := ks\<rparr>))"

text \<open>A ring without its active key would dereference a nil pointer; \<open>NewAESGCMRing\<close> builds none.\<close>

definition nil_dereference :: go_error where
  "nil_dereference = ForeignError ''invalid memory address or nil pointer dereference''"

definition AESGCMRing_Encrypt :: "aesgcm_ring \<Rightarrow> bytes \<Rightarrow> string \<Rightarrow> string res" where
  "AESGCMRing_Encrypt r nonce plaintext =
     (case map_get (ar_keys r) (ar_active r) of
        None \<Rightarrow> Inl nil_dereference
      | Some gcm \<Rightarrow>
          (case AESGCM_Encrypt gcm nonce plaintext of
             Inl err \<Rightarrow> Inl err
           | Inr payload \<Rightarrow>
               if ar_active r = ar_legacy r then Inr payload
               else Inr (ringScheme @ CHR ''.'' # ar_active r @ CHR ''.'' # payload)))"

text \<open>\<open>strings.SplitN(ciphertext, ".", 3)\<close> is two cuts.\<close>

definition splitKeyed :: "string \<Rightarrow> (string \<times> string) res" where
  "splitKeyed ciphertext =
     (let (scheme, rest) = cut_at (CHR ''.'') ciphertext;
          (kid, payload) = (case rest of None \<Rightarrow> ([], None) | Some s \<Rightarrow> cut_at (CHR ''.'') s)
      in case payload of
           None \<Rightarrow> Inl (Wrapped ''want scheme.key.payload'' ErrCiphertextMalformed)
         | Some p \<Rightarrow>
             if p = [] then Inl (Wrapped ''want scheme.key.payload'' ErrCiphertextMalformed)
             else if scheme \<noteq> ringScheme then Inl (Wrapped ''scheme'' ErrUnknownScheme)
             else if \<not> keyIDPattern kid then Inl (Wrapped ''key id'' ErrCiphertextMalformed)
             else Inr (kid, p))"

definition AESGCMRing_split :: "aesgcm_ring \<Rightarrow> string \<Rightarrow> (string \<times> string) res" where
  "AESGCMRing_split r ciphertext =
     (if ar_legacy r \<noteq> [] \<and> ciphertext \<noteq> [] \<and> CHR ''.'' \<notin> set ciphertext then Inr (ar_legacy r, ciphertext)
      else splitKeyed ciphertext)"

definition AESGCMRing_Decrypt :: "aesgcm_ring \<Rightarrow> string \<Rightarrow> string res" where
  "AESGCMRing_Decrypt r ciphertext =
     (case AESGCMRing_split r ciphertext of
        Inl err \<Rightarrow> Inl err
      | Inr (kid, payload) \<Rightarrow>
          (case map_get (ar_keys r) kid of
             None \<Rightarrow> Inl (Wrapped ''key'' ErrUnknownKeyID)
           | Some gcm \<Rightarrow>
               if b64_decode payload = None then Inl (Wrapped ''payload is not base64url'' ErrCiphertextMalformed)
               else case AESGCM_Decrypt gcm payload of
                      Inl err \<Rightarrow>
                        if errors_is err ErrInvalidInput then Inl (Wrapped ''payload'' ErrCiphertextMalformed)
                        else Inl (Wrapped ''key'' ErrCiphertextAuthFailed)
                    | Inr plaintext \<Rightarrow> Inr plaintext))"

definition AESGCMRing_KeyIDOf :: "aesgcm_ring \<Rightarrow> string \<Rightarrow> string res" where
  "AESGCMRing_KeyIDOf r ciphertext =
     (case AESGCMRing_split r ciphertext of Inl err \<Rightarrow> Inl err | Inr (kid, _) \<Rightarrow> Inr kid)"

definition AESGCMRing_KeyIDs :: "aesgcm_ring \<Rightarrow> string list" where
  "AESGCMRing_KeyIDs r = sort_slice (<) (map fst (ar_keys r))"

text \<open>The port \<open>KeyedEncrypter\<close> and the ring behind it.\<close>

record keyed_encrypter =
  ke_Encrypt :: "bytes \<Rightarrow> string \<Rightarrow> string res"
  ke_Decrypt :: "string \<Rightarrow> string res"
  ke_ActiveKeyID :: string
  ke_KeyIDOf :: "string \<Rightarrow> string res"

definition ring_encrypter :: "aesgcm_ring \<Rightarrow> keyed_encrypter" where
  "ring_encrypter r =
     \<lparr>ke_Encrypt = AESGCMRing_Encrypt r, ke_Decrypt = AESGCMRing_Decrypt r, ke_ActiveKeyID = ar_active r,
      ke_KeyIDOf = AESGCMRing_KeyIDOf r\<rparr>"

section \<open>Rings that validate\<close>

lemma ring_ciphers_append:
  "map_ok (acc @ ks) \<Longrightarrow> list_all (\<lambda>(_, raw). length raw = 32) ks \<Longrightarrow> ring_ciphers ks acc = Inr (acc @ ks)"
  by (induction ks acc rule: ring_ciphers.induct) (auto simp: NewAESGCM_def map_put_fresh)

lemma validate_keys_iff:
  "validate_keys ok ks = None \<longleftrightarrow> list_all (\<lambda>(kid, raw). keyIDPattern kid \<and> ok (int (length raw))) ks"
  by (induction ok ks rule: validate_keys.induct) auto

lemma KeyRing_Validate_iff:
  "KeyRing_Validate r = None \<longleftrightarrow>
     map_get (kr_Keys r) (kr_Active r) \<noteq> None \<and>
     list_all (\<lambda>(kid, raw). keyIDPattern kid \<and> length raw = 32) (kr_Keys r)"
proof -
  have len: "int n = ringKeyBytes \<longleftrightarrow> n = 32" for n
    by (auto simp: ringKeyBytes_def)
  have "validate_keys (\<lambda>n. n = ringKeyBytes) (kr_Keys r) = None \<longleftrightarrow>
      list_all (\<lambda>(kid, raw). keyIDPattern kid \<and> length raw = 32) (kr_Keys r)"
    by (simp add: validate_keys_iff len)
  then show ?thesis
    by (cases "validate_keys (\<lambda>n. n = ringKeyBytes) (kr_Keys r)")
      (auto simp: KeyRing_Validate_def KeyRing_validate_def)
qed

lemma apply_legacy:
  "foldl (\<lambda>r opt. opt r) (r :: aesgcm_ring) (map WithLegacyKeyID ls) =
     (if ls = [] then r else r\<lparr>ar_legacy := last ls\<rparr>)"
  by (induction ls rule: rev_induct) (auto simp: WithLegacyKeyID_def)

text \<open>What \<open>NewAESGCMRing\<close> builds, and the form of its key ids.\<close>

lemma NewAESGCMRing_built:
  assumes "NewAESGCMRing ring (map WithLegacyKeyID ls) = Inr r" and "map_ok (kr_Keys ring)"
  shows "ar_active r = kr_Active ring" and "ar_keys r = kr_Keys ring"
    and "ar_legacy r = (if ls = [] then [] else last ls)"
    and "KeyRing_Validate ring = None"
    and "ar_legacy r = [] \<or> map_get (ar_keys r) (ar_legacy r) \<noteq> None"
proof -
  have valid: "KeyRing_Validate ring = None"
    using assms(1) by (auto simp: NewAESGCMRing_def split: option.splits)
  then have "ring_ciphers (kr_Keys ring) [] = Inr (kr_Keys ring)"
    using ring_ciphers_append [of "[]" "kr_Keys ring"] assms(2)
    by (auto simp: KeyRing_Validate_iff list_all_iff)
  with assms(1) valid show "ar_active r = kr_Active ring" "ar_keys r = kr_Keys ring"
    "ar_legacy r = (if ls = [] then [] else last ls)"
    "ar_legacy r = [] \<or> map_get (ar_keys r) (ar_legacy r) \<noteq> None"
    by (auto simp: NewAESGCMRing_def apply_legacy Let_def split: if_splits)
  show "KeyRing_Validate ring = None" by (rule valid)
qed

lemma keyIDPattern_chars:
  assumes "keyIDPattern kid" and "c \<in> set kid"
  shows "plain c" and "c \<noteq> CHR ''.''" and "c \<noteq> CHR '':''" and "c \<noteq> CHR '',''"
proof -
  have "is_lower c \<or> is_digit c \<or> c = CHR ''_'' \<or> c = CHR ''-''"
    using matches_class_chars [of _ _ _ kid c] assms by (auto simp: keyIDPattern_def)
  then show "plain c" "c \<noteq> CHR ''.''" "c \<noteq> CHR '':''" "c \<noteq> CHR '',''"
    by (auto simp: plain_def is_lower_def is_digit_def less_eq_char_def)
qed

lemma valid_key:
  assumes "KeyRing_Validate ring = None" and "map_get (kr_Keys ring) kid = Some raw"
  shows "keyIDPattern kid" and "kid \<noteq> []" and "length raw = 32"
  using assms map_of_SomeD [OF assms(2)]
  by (auto simp: KeyRing_Validate_iff list_all_iff keyIDPattern_def dest: matches_class_nonempty)

section \<open>Keyed ciphertext\<close>

lemma AESGCM_roundtrip:
  assumes "length nonce = 12" and "plaintext \<noteq> []"
  shows "\<exists>c. AESGCM_Encrypt e nonce plaintext = Inr c \<and> c \<noteq> [] \<and> CHR ''.'' \<notin> set c \<and>
    b64_decode c \<noteq> None \<and> AESGCM_Decrypt e c = Inr plaintext"
proof -
  let ?c = "b64_encode (gcm_seal e nonce plaintext [])"
  have "\<not> length (gcm_seal e nonce plaintext []) < 12" "gcm_seal e nonce plaintext [] \<noteq> []"
    using length_gcm_seal [of e nonce plaintext "[]"] assms by (auto simp del: length_gcm_seal)
  then show ?thesis
    using assms b64_chars [of "CHR ''.''" "gcm_seal e nonce plaintext []"]
    by (intro exI [of _ ?c]) (auto simp: AESGCM_Encrypt_def AESGCM_Decrypt_def b64_encode_Nil)
qed

lemma splitKeyed_join:
  "keyIDPattern kid \<Longrightarrow> p \<noteq> [] \<Longrightarrow> splitKeyed (ringScheme @ CHR ''.'' # kid @ CHR ''.'' # p) = Inr (kid, p)"
proof -
  assume kid: "keyIDPattern kid" and p: "p \<noteq> []"
  have "cut_at (CHR ''.'') (ringScheme @ CHR ''.'' # kid @ CHR ''.'' # p) = (ringScheme, Some (kid @ CHR ''.'' # p))"
    by (rule cut_at_append) (simp add: ringScheme_def)
  moreover have "cut_at (CHR ''.'') (kid @ CHR ''.'' # p) = (kid, Some p)"
    using keyIDPattern_chars(2) [OF kid] by (auto intro: cut_at_append)
  ultimately show ?thesis using kid p by (simp add: splitKeyed_def)
qed

text \<open>
  What a ring encrypts: the keyed form unless the active key is the legacy one.  Either form opens
  under any ring with the same key under that id.
\<close>

lemma ring_ciphertext:
  assumes "NewAESGCMRing ring (map WithLegacyKeyID ls) = Inr r" and "map_ok (kr_Keys ring)"
    and "length nonce = 12" and "plaintext \<noteq> []"
  obtains key payload c where "map_get (kr_Keys ring) (ar_active r) = Some key"
    and "AESGCM_Encrypt key nonce plaintext = Inr payload" and "AESGCM_Decrypt key payload = Inr plaintext"
    and "payload \<noteq> []" and "CHR ''.'' \<notin> set payload" and "b64_decode payload \<noteq> None"
    and "keyIDPattern (ar_active r)" and "AESGCMRing_Encrypt r nonce plaintext = Inr c"
    and "c = (if ar_active r = ar_legacy r then payload
              else ringScheme @ CHR ''.'' # ar_active r @ CHR ''.'' # payload)"
proof -
  note built = NewAESGCMRing_built [OF assms(1,2)]
  obtain key where key: "map_get (kr_Keys ring) (ar_active r) = Some key"
    using built(1,4) by (auto simp: KeyRing_Validate_iff)
  obtain payload where "AESGCM_Encrypt key nonce plaintext = Inr payload"
    "AESGCM_Decrypt key payload = Inr plaintext" "payload \<noteq> []" "CHR ''.'' \<notin> set payload" "b64_decode payload \<noteq> None"
    using AESGCM_roundtrip [OF assms(3,4), of key] by auto
  with key built valid_key [OF built(4) key] show ?thesis
    by (intro that [of key payload]) (auto simp: AESGCMRing_Encrypt_def)
qed

lemma ring_split:
  assumes "keyIDPattern kid" and "p \<noteq> []" and "CHR ''.'' \<notin> set p"
  shows "AESGCMRing_split r (ringScheme @ CHR ''.'' # kid @ CHR ''.'' # p) = Inr (kid, p)"
    and "ar_legacy r \<noteq> [] \<Longrightarrow> AESGCMRing_split r p = Inr (ar_legacy r, p)"
  using assms splitKeyed_join [OF assms(1,2)] by (auto simp: AESGCMRing_split_def)

lemma ring_opens:
  assumes "NewAESGCMRing ring (map WithLegacyKeyID ls) = Inr r" and "map_ok (kr_Keys ring)"
    and "NewAESGCMRing ring' (map WithLegacyKeyID ls') = Inr r'" and "map_ok (kr_Keys ring')"
    and "map_get (kr_Keys ring') (kr_Active ring) = map_get (kr_Keys ring) (kr_Active ring)"
    and "ar_legacy r = ar_active r \<longrightarrow> ar_legacy r' = ar_active r"
    and "length nonce = 12" and "plaintext \<noteq> []"
  shows "\<exists>c. AESGCMRing_Encrypt r nonce plaintext = Inr c \<and> AESGCMRing_Decrypt r' c = Inr plaintext \<and>
    AESGCMRing_KeyIDOf r' c = Inr (ar_active r)"
proof -
  obtain key payload c where c: "map_get (kr_Keys ring) (ar_active r) = Some key"
    "AESGCM_Decrypt key payload = Inr plaintext" "payload \<noteq> []" "CHR ''.'' \<notin> set payload" "b64_decode payload \<noteq> None"
    "keyIDPattern (ar_active r)" "AESGCMRing_Encrypt r nonce plaintext = Inr c"
    "c = (if ar_active r = ar_legacy r then payload else ringScheme @ CHR ''.'' # ar_active r @ CHR ''.'' # payload)"
    using ring_ciphertext [OF assms(1,2,7,8)] by metis
  note built = NewAESGCMRing_built [OF assms(1,2)] and built' = NewAESGCMRing_built [OF assms(3,4)]
  have key': "map_get (ar_keys r') (ar_active r) = Some key"
    using c(1) assms(5) built(1) built'(2) by simp
  have "ar_active r \<noteq> []" using c(6) by (auto simp: keyIDPattern_def dest: matches_class_nonempty)
  then have "AESGCMRing_split r' c = Inr (ar_active r, payload)"
    using ring_split [OF c(6,3,4), of r'] assms(6) c(8) by auto
  with c key' show ?thesis
    by (auto simp: AESGCMRing_Decrypt_def AESGCMRing_KeyIDOf_def)
qed

lemma ring_opens_again:
  assumes "NewAESGCMRing ring (map WithLegacyKeyID ls) = Inr r" and "map_ok (kr_Keys ring)"
    and "length nonce = 12" and "plaintext \<noteq> []"
  shows "\<exists>c. AESGCMRing_Encrypt r nonce plaintext = Inr c \<and> AESGCMRing_Decrypt r c = Inr plaintext"
  using ring_opens [OF assms(1,2,1,2) refl _ assms(3,4)] by blast

text \<open>
  Values survive every change of the key ring that keeps the key they were written
  under: whatever a ring encrypts under its active key opens, to the same text, under any later ring
  that still holds that key under that id, whichever key is active there, and \<open>KeyIDOf\<close> names the key
  without decrypting.  If the first ring wrote the unprefixed legacy form (its active key is its legacy
  key) the later ring must name the same legacy key.
\<close>

theorem ring_opens_after_rotation:
  assumes "NewAESGCMRing ring (map WithLegacyKeyID ls) = Inr r" and "map_ok (kr_Keys ring)"
    and "NewAESGCMRing ring' (map WithLegacyKeyID ls') = Inr r'" and "map_ok (kr_Keys ring')"
    and "map_get (kr_Keys ring') (kr_Active ring) = map_get (kr_Keys ring) (kr_Active ring)"
    and "ar_legacy r = ar_active r \<longrightarrow> ar_legacy r' = ar_active r"
    and "length nonce = 12" and "plaintext \<noteq> []"
  shows "\<exists>c. AESGCMRing_Encrypt r nonce plaintext = Inr c \<and> AESGCMRing_Decrypt r' c = Inr plaintext \<and>
    AESGCMRing_KeyIDOf r' c = Inr (ar_active r)"
  using ring_opens [OF assms] .

text \<open>Once the key has left the ring, its keyed ciphertext is refused as naming an unknown key.\<close>

lemma retired_key_refused:
  assumes "NewAESGCMRing ring (map WithLegacyKeyID ls) = Inr r" and "map_ok (kr_Keys ring)"
    and "NewAESGCMRing ring' (map WithLegacyKeyID ls') = Inr r'" and "map_ok (kr_Keys ring')"
    and "map_get (kr_Keys ring') (kr_Active ring) = None" and "ar_legacy r \<noteq> ar_active r"
    and "AESGCMRing_Encrypt r nonce plaintext = Inr c" and "length nonce = 12"
  shows "AESGCMRing_Decrypt r' c = Inl (Wrapped ''key'' ErrUnknownKeyID)"
proof -
  have "plaintext \<noteq> []"
    using assms(7) by (auto simp: AESGCMRing_Encrypt_def AESGCM_Encrypt_def split: option.splits)
  then obtain payload where "payload \<noteq> []" "CHR ''.'' \<notin> set payload" "keyIDPattern (ar_active r)"
    "c = ringScheme @ CHR ''.'' # ar_active r @ CHR ''.'' # payload"
    using ring_ciphertext [OF assms(1,2,8)] assms(6,7) by (metis sum.inject(2))
  then show ?thesis
    using ring_split(1) [of "ar_active r" payload r'] assms(5) NewAESGCMRing_built [OF assms(1,2)]
      NewAESGCMRing_built [OF assms(3,4)]
    by (auto simp: AESGCMRing_Decrypt_def)
qed

section \<open>Reading a ring from the environment\<close>

text \<open>The textual form \<open>id:hex,id:hex\<close> of a ring's keys.\<close>

definition key_entry :: "string \<times> bytes \<Rightarrow> string" where
  "key_entry e = fst e @ CHR '':'' # hex_encode (snd e)"

definition print_keys :: "(string, bytes) go_map \<Rightarrow> string" where
  "print_keys ks = join_with (CHR '','') (map key_entry ks)"

lemma hex_digit_plain_table:
  "list_all (\<lambda>n. plain (hex_digit n) \<and> hex_digit n \<noteq> CHR '','' \<and> hex_digit n \<noteq> CHR '':'') [0..<16]"
  by code_simp

lemma hex_chars:
  "c \<in> set (hex_encode bs) \<Longrightarrow> plain c \<and> c \<noteq> CHR '','' \<and> c \<noteq> CHR '':''"
proof (induction bs)
  case (Cons b bs)
  have "byte_val b div 16 < 16" "byte_val b mod 16 < 16" using byte_div [of b] by auto
  then show ?case
    using Cons hex_digit_plain_table by (auto simp: list_all_iff)
qed simp

lemma key_entry_ends:
  assumes "keyIDPattern kid"
  shows "key_entry (kid, raw) \<noteq> []" and "TrimSpace (key_entry (kid, raw)) = key_entry (kid, raw)"
    and "CHR '','' \<notin> set (key_entry (kid, raw))"
    and "cut_at (CHR '':'') (key_entry (kid, raw)) = (kid, Some (hex_encode raw))"
    and "TrimSpace kid = kid" and "TrimSpace (hex_encode raw) = hex_encode raw"
proof -
  have ne: "kid \<noteq> []" using assms by (auto simp: keyIDPattern_def dest: matches_class_nonempty)
  have colon: "plain (CHR '':'')" by code_simp
  have "plain c" if "c \<in> set (key_entry (kid, raw))" for c
    using that keyIDPattern_chars(1) [OF assms] hex_chars [of c raw] colon by (auto simp: key_entry_def)
  then have all_plain: "list_all plain (key_entry (kid, raw))" "list_all plain kid" "list_all plain (hex_encode raw)"
    by (auto simp: key_entry_def list_all_iff)
  have trim: "TrimSpace s = s" if "list_all plain s" for s
    using that by (intro TrimSpace_plain) (auto simp: list_all_iff)
  show "key_entry (kid, raw) \<noteq> []" by (simp add: key_entry_def)
  show "TrimSpace (key_entry (kid, raw)) = key_entry (kid, raw)" "TrimSpace kid = kid"
    "TrimSpace (hex_encode raw) = hex_encode raw"
    using all_plain by (auto intro: trim)
  show "CHR '','' \<notin> set (key_entry (kid, raw))"
    using keyIDPattern_chars(4) [OF assms] hex_chars [of _ raw] by (auto simp: key_entry_def)
  show "cut_at (CHR '':'') (key_entry (kid, raw)) = (kid, Some (hex_encode raw))"
    using keyIDPattern_chars(3) [OF assms] by (auto simp: key_entry_def intro: cut_at_append)
qed

lemma parse_entries_print:
  assumes "list_all (\<lambda>(kid, raw). keyIDPattern kid) ks" and "map_ok (acc @ ks)"
  shows "parse_entries (map key_entry ks) acc = Inr (acc @ ks)"
  using assms
proof (induction ks arbitrary: acc)
  case (Cons e ks)
  obtain kid raw where e: "e = (kid, raw)" by (cases e)
  have "keyIDPattern kid" using Cons.prems e by simp
  note ends = key_entry_ends [OF this]
  have "map_get acc kid = None" using Cons.prems e by (auto simp: map_of_eq_None_iff)
  moreover have "parse_entries (map key_entry ks) (acc @ [(kid, raw)]) = Inr (acc @ (kid, raw) # ks)"
    using Cons.IH [of "acc @ [(kid, raw)]"] Cons.prems e by simp
  ultimately show ?case
    using e ends \<open>keyIDPattern kid\<close> Cons.prems by (simp add: map_put_fresh)
qed simp

text \<open>
  Property C31.  Reading a ring back: the two environment values written for a valid ring, its keys as
  \<open>id:hex\<close> entries joined by commas and its active id, parse to exactly that ring.
\<close>

theorem ParseKeyRing_print:
  assumes "KeyRing_Validate ring = None" and "map_ok (kr_Keys ring)"
  shows "ParseKeyRing (print_keys (kr_Keys ring)) (kr_Active ring) = Inr ring"
proof -
  obtain raw where active: "map_get (kr_Keys ring) (kr_Active ring) = Some raw"
    using assms(1) by (auto simp: KeyRing_Validate_iff)
  then have ne: "kr_Keys ring \<noteq> []" by auto
  have ids: "list_all (\<lambda>(kid, raw). keyIDPattern kid) (kr_Keys ring)"
    using assms(1) by (auto simp: KeyRing_Validate_iff list_all_iff)
  have "split_at (CHR '','') (print_keys (kr_Keys ring)) = map key_entry (kr_Keys ring)"
    unfolding print_keys_def
    by (rule split_join) (use ne ids key_entry_ends(3) in \<open>auto simp: list_all_iff\<close>)
  then show ?thesis
    using parse_entries_print [of "kr_Keys ring" "[]"] ids assms
      key_entry_ends(5) [OF valid_key(1) [OF assms(1) active]]
    by (cases ring) (simp add: ParseKeyRing_def parseKeyRing_def)
qed

section \<open>Witnesses\<close>

definition demo_ring :: key_ring where
  "demo_ring = \<lparr>kr_Active = ''k1'', kr_Keys = [(''k1'', replicate 32 (CHR ''a''))]\<rparr>"

definition demo_ring2 :: key_ring where
  "demo_ring2 = \<lparr>kr_Active = ''k2'', kr_Keys = [(''k1'', replicate 32 (CHR ''a'')), (''k2'', replicate 32 (CHR ''b''))]\<rparr>"

definition demo_cipher :: "key_ring \<Rightarrow> aesgcm_ring" where
  "demo_cipher ring = \<lparr>ar_active = kr_Active ring, ar_legacy = [], ar_keys = kr_Keys ring\<rparr>"

lemma demo_rings:
  "NewAESGCMRing demo_ring [] = Inr (demo_cipher demo_ring)"
  "NewAESGCMRing demo_ring2 [] = Inr (demo_cipher demo_ring2)"
  "KeyRing_Validate demo_ring2 = None"
  by code_simp+

theorem ring_opens_after_rotation_witness:
  "\<exists>c. AESGCMRing_Encrypt (demo_cipher demo_ring) (replicate 12 (CHR ''n'')) ''secret'' = Inr c \<and>
     AESGCMRing_Decrypt (demo_cipher demo_ring2) c = Inr ''secret'' \<and>
     AESGCMRing_KeyIDOf (demo_cipher demo_ring2) c = Inr ''k1''"
  using ring_opens_after_rotation [of demo_ring "[]" "demo_cipher demo_ring" demo_ring2 "[]" "demo_cipher demo_ring2"
      "replicate 12 (CHR ''n'')" "''secret''"] demo_rings
  by (simp add: demo_ring_def demo_ring2_def demo_cipher_def)

theorem ParseKeyRing_print_witness:
  "ParseKeyRing (print_keys (kr_Keys demo_ring2)) ''k2'' = Inr demo_ring2"
  using ParseKeyRing_print [of demo_ring2] demo_rings(3) by (simp add: demo_ring2_def)

end
