(* ===== verification/Vault.thy ===== *)
theory Vault
  imports Keyring Vault_Port
begin

text \<open>
  Sealing and the vault service, \<open>src/pockets/secrets/logic/vault/{seal,service}.go\<close>, over any
  \<open>Repository\<close> and \<open>Wrapper\<close>.  What an operation draws from its surroundings is collected in
  \<open>vault_env\<close>, indexed by the position of the call in the operation: \<open>ctx.Err()\<close> at each repository
  call, the clock readings, the random reads.  The error texts are the constant parts of their formats.
\<close>

section \<open>Sealing\<close>

definition dekBytes :: nat where
  "dekBytes = 32"

definition ErrSealedValueCorrupt :: go_error where
  "ErrSealedValueCorrupt = Wrapped ''secrets: sealed value failed authentication: conflict'' ErrConflict"

definition NewRingWrapper :: "keyed_encrypter option \<Rightarrow> keyed_encrypter res" where
  "NewRingWrapper enc =
     (case enc of None \<Rightarrow> Inl (Wrapped ''secrets: nil keyed encrypter'' ErrInvalidInput) | Some e \<Rightarrow> Inr e)"

definition RingWrapper_Wrap :: "keyed_encrypter \<Rightarrow> bytes \<Rightarrow> bytes \<Rightarrow> (string \<times> string) res" where
  "RingWrapper_Wrap enc nonce dek =
     (if length dek \<noteq> dekBytes then Inl (Wrapped ''secrets: data key must be 32 bytes'' ErrInvalidInput)
      else case ke_Encrypt enc nonce (hex_encode dek) of
        Inl err \<Rightarrow> Inl (Wrapped ''secrets: wrap data key'' err)
      | Inr blob \<Rightarrow> Inr (blob, ke_ActiveKeyID enc))"

definition RingWrapper_Unwrap :: "keyed_encrypter \<Rightarrow> string \<Rightarrow> bytes res" where
  "RingWrapper_Unwrap enc blob =
     (case ke_Decrypt enc blob of
        Inl err \<Rightarrow> Inl (Wrapped ''secrets: unwrap data key'' err)
      | Inr encoded \<Rightarrow>
          (case hex_decode encoded of
             None \<Rightarrow> Inl (Wrapped ''secrets: unwrapped data key malformed'' ErrInvalidInput)
           | Some dek \<Rightarrow>
               if length dek \<noteq> dekBytes then Inl (Wrapped ''secrets: unwrapped data key malformed'' ErrInvalidInput)
               else Inr dek))"

definition ring_wrapper :: "keyed_encrypter \<Rightarrow> wrapper" where
  "ring_wrapper enc =
     \<lparr>wr_Wrap = RingWrapper_Wrap enc, wr_Unwrap = RingWrapper_Unwrap enc, wr_ActiveKeyID = ke_ActiveKeyID enc\<rparr>"

definition dataKeyCipher :: "bytes \<Rightarrow> bytes res" where
  "dataKeyCipher dek =
     (if length dek \<noteq> dekBytes then Inl (Wrapped ''secrets: data key must be 32 bytes'' ErrInvalidInput) else Inr dek)"

definition Seal :: "bytes \<Rightarrow> bytes \<Rightarrow> secret_ref \<Rightarrow> bytes \<Rightarrow> string res" where
  "Seal nonce dek rf value =
     (case dataKeyCipher dek of
        Inl err \<Rightarrow> Inl err
      | Inr gcm \<Rightarrow> Inr (b64_encode (gcm_seal gcm nonce value (Ref_String rf))))"

definition Open :: "bytes \<Rightarrow> secret_ref \<Rightarrow> string \<Rightarrow> bytes res" where
  "Open dek rf ciphertext =
     (case dataKeyCipher dek of
        Inl err \<Rightarrow> Inl err
      | Inr gcm \<Rightarrow>
          (case b64_decode ciphertext of
             None \<Rightarrow> Inl (Wrapped ''secrets: sealed value is not base64url'' ErrInvalidInput)
           | Some raw \<Rightarrow>
               (case gcm_open gcm raw (Ref_String rf) of
                  None \<Rightarrow> Inl ErrSealedValueCorrupt
                | Some value \<Rightarrow> Inr value)))"

section \<open>Surroundings of an operation\<close>

record vault_env =
  ve_err :: "nat \<Rightarrow> error"           \<comment> \<open>\<open>ctx.Err()\<close> at the n-th repository call\<close>
  ve_requestID :: string
  ve_traceID :: string
  ve_now :: "nat \<Rightarrow> time"            \<comment> \<open>the n-th reading of the clock\<close>
  ve_rand :: "nat \<Rightarrow> nat \<Rightarrow> char"    \<comment> \<open>the bytes of the n-th random read\<close>
  ve_randErr :: "nat \<Rightarrow> error"

definition random_bytes :: "vault_env \<Rightarrow> nat \<Rightarrow> nat \<Rightarrow> bytes" where
  "random_bytes env i n = map (ve_rand env i) [0..<n]"

definition rand_Read :: "vault_env \<Rightarrow> nat \<Rightarrow> nat \<Rightarrow> bytes res" where
  "rand_Read env i n = (case ve_randErr env i of Some err \<Rightarrow> Inl err | None \<Rightarrow> Inr (random_bytes env i n))"

definition NewDataKey :: "vault_env \<Rightarrow> nat \<Rightarrow> bytes res" where
  "NewDataKey env i =
     (case rand_Read env i dekBytes of
        Inl err \<Rightarrow> Inl (Wrapped ''secrets: generate data key'' err) | Inr dek \<Rightarrow> Inr dek)"

definition NewOwnerKeyID :: "vault_env \<Rightarrow> nat \<Rightarrow> string res" where
  "NewOwnerKeyID env i =
     (case rand_Read env i 8 of
        Inl err \<Rightarrow> Inl (Wrapped ''secrets: generate key id'' err) | Inr b \<Rightarrow> Inr (''k_'' @ hex_encode b))"

text \<open>\<open>UnixNano\<close> wraps to 64 bits.\<close>

definition UnixNano :: "time \<Rightarrow> int" where
  "UnixNano t = int64 (t - 62135596800 * Second)"

definition NewAuditRecord ::
    "vault_env \<Rightarrow> nat \<Rightarrow> time \<Rightarrow> action \<Rightarrow> owner \<Rightarrow> string \<Rightarrow> int \<Rightarrow> string \<Rightarrow> source \<Rightarrow> audit_record res" where
  "NewAuditRecord env i now act ow name version keyID src =
     (case rand_Read env i 8 of
        Inl err \<Rightarrow> Inl (Wrapped ''secrets: generate audit id'' err)
      | Inr b \<Rightarrow>
          Inr \<lparr>au_ID = sprintf_016x (UnixNano (utc now)) @ hex_encode b, au_OccurredAt = utc now,
               au_Action = act, au_Outcome = OutcomeOK, au_Owner = ow, au_Name = name, au_Version = version,
               au_KeyID = keyID, au_Source = src, au_RequestID = [], au_TraceID = []\<rparr>)"

definition correlated :: "vault_env \<Rightarrow> audit_record list \<Rightarrow> audit_record list" where
  "correlated env records = Correlate (ve_requestID env) (ve_traceID env) records"

section \<open>The service\<close>

text \<open>\<open>NewService\<close>: the ports are checked first, then the options, none of which may be nil.\<close>

definition vault_NewService ::
    "'s vault_repo option \<Rightarrow> wrapper option \<Rightarrow> bool list \<Rightarrow> ('s vault_repo \<times> wrapper) res" where
  "vault_NewService repo w opts =
     (case repo of
        None \<Rightarrow> Inl ErrRepositoryRequired
      | Some r \<Rightarrow>
          (case w of
             None \<Rightarrow> Inl ErrWrapperRequired
           | Some w' \<Rightarrow>
               if False \<in> set opts then Inl (Wrapped ''secrets: nil option'' ErrInvalidInput) else Inr (r, w')))"

definition validateRequest :: "error \<Rightarrow> source \<Rightarrow> error" where
  "validateRequest target src = (case target of Some err \<Rightarrow> Some err | None \<Rightarrow> Source_Validate src)"

definition wrapKey :: "wrapper \<Rightarrow> vault_env \<Rightarrow> owner \<Rightarrow> bytes \<Rightarrow> owner_key res" where
  "wrapKey w env ow dek =
     (case NewOwnerKeyID env 1 of
        Inl err \<Rightarrow> Inl err
      | Inr keyID \<Rightarrow>
          (case wr_Wrap w (random_bytes env 2 12) dek of
             Inl err \<Rightarrow> Inl err
           | Inr (blob, wrapperKeyID) \<Rightarrow>
               let now = utc (ve_now env 0)
               in Inr \<lparr>ok_Owner = ow, ok_KeyID = keyID, ok_WrappedKey = blob, ok_WrapperKeyID = wrapperKeyID,
                       ok_CreatedAt = now, ok_RotatedAt = now\<rparr>))"

text \<open>\<open>ownerKey\<close> with \<open>create = false\<close>, whose repository call is the operation's \<open>i\<close>-th, then in full.\<close>

definition loadOwnerKey ::
    "'s vault_repo \<Rightarrow> wrapper \<Rightarrow> vault_env \<Rightarrow> nat \<Rightarrow> owner \<Rightarrow> 's \<Rightarrow> (owner_key \<times> bytes) res \<times> 's" where
  "loadOwnerKey repo w env i ow s =
     (case vr_GetOwnerKey repo (ve_err env i) ow s of
        (Inl err, s1) \<Rightarrow> (Inl err, s1)
      | (Inr key, s1) \<Rightarrow>
          (case wr_Unwrap w (ok_WrappedKey key) of
             Inl err \<Rightarrow> (Inl err, s1)
           | Inr dek \<Rightarrow> (Inr (key, dek), s1)))"

definition ownerKey ::
    "'s vault_repo \<Rightarrow> wrapper \<Rightarrow> vault_env \<Rightarrow> owner \<Rightarrow> source \<Rightarrow> 's \<Rightarrow> (owner_key \<times> bytes) res \<times> 's" where
  "ownerKey repo w env ow src s =
     (case vr_GetOwnerKey repo (ve_err env 0) ow s of
        (Inr key, s1) \<Rightarrow>
          (case wr_Unwrap w (ok_WrappedKey key) of
             Inl err \<Rightarrow> (Inl err, s1)
           | Inr dek \<Rightarrow> (Inr (key, dek), s1))
      | (Inl err, s1) \<Rightarrow>
          if \<not> errors_is err ErrNotFound then (Inl err, s1)
          else
            (case NewDataKey env 0 of
               Inl e \<Rightarrow> (Inl e, s1)
             | Inr dek \<Rightarrow>
                 (case wrapKey w env ow dek of
                    Inl e \<Rightarrow> (Inl e, s1)
                  | Inr key \<Rightarrow>
                      (case NewAuditRecord env 3 (ok_CreatedAt key) ActionOwnerKeyCreated ow [] 0 (ok_KeyID key) src of
                         Inl e \<Rightarrow> (Inl e, s1)
                       | Inr rec \<Rightarrow>
                           (case vr_CreateOwnerKey repo (ve_err env 1) key (correlated env [rec]) s1 of
                              (None, s2) \<Rightarrow> (Inr (key, dek), s2)
                            | (Some e, s2) \<Rightarrow>
                                if errors_is e ErrAlreadyExists then loadOwnerKey repo w env 2 ow s2
                                else (Inl e, s2))))))"

definition Vault_Put ::
    "'s vault_repo \<Rightarrow> wrapper \<Rightarrow> vault_env \<Rightarrow> secret_ref \<Rightarrow> bytes \<Rightarrow> source \<Rightarrow> 's \<Rightarrow> secret_meta res \<times> 's" where
  "Vault_Put repo w env rf value src s =
     (case validateRequest (Ref_Validate rf) src of
        Some err \<Rightarrow> (Inl err, s)
      | None \<Rightarrow>
          if value = [] then (Inl ErrValueEmpty, s)
          else if int (length value) > MaxValueBytes then (Inl ErrValueTooLarge, s)
          else
            (case ownerKey repo w env (rf_Owner rf) src s of
               (Inl err, s1) \<Rightarrow> (Inl err, s1)
             | (Inr (key, dek), s1) \<Rightarrow>
                 (case Seal (random_bytes env 4 12) dek rf value of
                    Inl err \<Rightarrow> (Inl err, s1)
                  | Inr ciphertext \<Rightarrow>
                      let now = ve_now env 1
                      in (case NewAuditRecord env 5 now ActionSecretPut (rf_Owner rf) (rf_Name rf) 0 (ok_KeyID key) src of
                            Inl err \<Rightarrow> (Inl err, s1)
                          | Inr rec \<Rightarrow>
                              (case vr_PutSecret repo (ve_err env 3)
                                      \<lparr>ss_Ref = rf, ss_Version = 0, ss_KeyID = ok_KeyID key,
                                       ss_Ciphertext = ciphertext, ss_CreatedAt = now, ss_UpdatedAt = now\<rparr>
                                      (hd (correlated env [rec])) s1 of
                                 (Inl err, s2) \<Rightarrow> (Inl err, s2)
                               | (Inr stored, s2) \<Rightarrow> (Inr (metadata stored), s2))))))"

text \<open>\<open>open\<close>: a value, or whether the failure is recorded as denied and its error.\<close>

definition vault_open :: "wrapper \<Rightarrow> owner_key \<Rightarrow> secret_ref \<Rightarrow> sealed_secret \<Rightarrow> (bool \<times> go_error) + bytes" where
  "vault_open w key rf sealed =
     (case wr_Unwrap w (ok_WrappedKey key) of
        Inl err \<Rightarrow> Inl (errors_is err ErrInvalidInput, err)
      | Inr dek \<Rightarrow>
          if ss_KeyID sealed \<noteq> ok_KeyID key
          then Inl (True, Wrapped ''secrets: value is sealed under a key the owner no longer holds'' ErrConflict)
          else case Open dek rf (ss_Ciphertext sealed) of
            Inl err \<Rightarrow> Inl (True, err)
          | Inr value \<Rightarrow> Inr value)"

definition Vault_Get ::
    "'s vault_repo \<Rightarrow> wrapper \<Rightarrow> vault_env \<Rightarrow> secret_ref \<Rightarrow> source \<Rightarrow> 's \<Rightarrow> bytes res \<times> 's" where
  "Vault_Get repo w env rf src s =
     (case validateRequest (Ref_Validate rf) src of
        Some err \<Rightarrow> (Inl err, s)
      | None \<Rightarrow>
          (case vr_GetOwnerKey repo (ve_err env 0) (rf_Owner rf) s of
             (Inl err, s1) \<Rightarrow> (Inl err, s1)
           | (Inr key, s1) \<Rightarrow>
               (case vr_GetSecret repo (ve_err env 1) rf [] s1 of
                  (Inl err, s2) \<Rightarrow> (Inl err, s2)
                | (Inr sealed, s2) \<Rightarrow>
                    let opened = vault_open w key rf sealed
                    in (case opened of
                          Inl (False, openErr) \<Rightarrow> (Inl openErr, s2)
                        | _ \<Rightarrow>
                            (case NewAuditRecord env 0 (ve_now env 0) ActionSecretRead (rf_Owner rf) (rf_Name rf)
                                    (ss_Version sealed) (ss_KeyID sealed) src of
                               Inl err \<Rightarrow> (Inl err, s2)
                             | Inr rec0 \<Rightarrow>
                                 let rec = (case opened of Inl _ \<Rightarrow> rec0\<lparr>au_Outcome := OutcomeDenied\<rparr> | Inr _ \<Rightarrow> rec0)
                                 in (case vr_AppendAudit repo (ve_err env 2) (correlated env [rec]) s2 of
                                       (Some err, s3) \<Rightarrow> (Inl err, s3)
                                     | (None, s3) \<Rightarrow>
                                         (case opened of
                                            Inl (_, openErr) \<Rightarrow> (Inl openErr, s3)
                                          | Inr value \<Rightarrow> (Inr value, s3))))))))"

definition Vault_Delete ::
    "'s vault_repo \<Rightarrow> vault_env \<Rightarrow> secret_ref \<Rightarrow> source \<Rightarrow> 's \<Rightarrow> error \<times> 's" where
  "Vault_Delete repo env rf src s =
     (case validateRequest (Ref_Validate rf) src of
        Some err \<Rightarrow> (Some err, s)
      | None \<Rightarrow>
          (case NewAuditRecord env 0 (ve_now env 0) ActionSecretDeleted (rf_Owner rf) (rf_Name rf) 0 [] src of
             Inl err \<Rightarrow> (Some err, s)
           | Inr rec \<Rightarrow> vr_DeleteSecret repo (ve_err env 0) rf (correlated env [rec]) s))"

fun deletion_records ::
    "vault_env \<Rightarrow> nat \<Rightarrow> time \<Rightarrow> owner \<Rightarrow> source \<Rightarrow> secret_meta list \<Rightarrow> audit_record list res" where
  "deletion_records env i now ow src [] = Inr []"
| "deletion_records env i now ow src (sec # rest) =
     (case NewAuditRecord env i now ActionSecretDeleted ow (rf_Name (sm_Ref sec)) (sm_Version sec) (sm_KeyID sec) src of
        Inl err \<Rightarrow> Inl err
      | Inr rec \<Rightarrow>
          (case deletion_records env (Suc i) now ow src rest of
             Inl err \<Rightarrow> Inl err
           | Inr recs \<Rightarrow> Inr (rec # recs)))"

definition deleteOwner ::
    "'s vault_repo \<Rightarrow> vault_env \<Rightarrow> owner \<Rightarrow> source \<Rightarrow> 's \<Rightarrow> error \<times> 's" where
  "deleteOwner repo env ow src s =
     (case vr_GetOwnerKey repo (ve_err env 0) ow s of
        (Inl err, s1) \<Rightarrow> (Some err, s1)
      | (Inr key, s1) \<Rightarrow>
          (case vr_ListSecrets repo (ve_err env 1) ow s1 of
             (Inl err, s2) \<Rightarrow> (Some err, s2)
           | (Inr secrets, s2) \<Rightarrow>
               let now = ve_now env 0
               in (case deletion_records env 0 now ow src secrets of
                     Inl err \<Rightarrow> (Some err, s2)
                   | Inr records \<Rightarrow>
                       (case NewAuditRecord env (length secrets) now ActionOwnerKeyDestroyed ow [] 0 (ok_KeyID key) src of
                          Inl err \<Rightarrow> (Some err, s2)
                        | Inr rec \<Rightarrow>
                            vr_DeleteOwner repo (ve_err env 2) ow (map (\<lambda>sec. rf_Name (sm_Ref sec)) secrets)
                              (correlated env (records @ [rec])) s2))))"

definition deleteOwnerRetries :: nat where
  "deleteOwnerRetries = 3"

text \<open>The retry loop, with the number of retries left; attempt \<open>i\<close> has its own surroundings.\<close>

fun DeleteOwner_loop ::
    "nat \<Rightarrow> 's vault_repo \<Rightarrow> (nat \<Rightarrow> vault_env) \<Rightarrow> nat \<Rightarrow> owner \<Rightarrow> source \<Rightarrow> 's \<Rightarrow> error \<times> 's" where
  "DeleteOwner_loop left repo envs i ow src s =
     (let (err, s1) = deleteOwner repo (envs i) ow src s
      in case left of
           0 \<Rightarrow> (err, s1)
         | Suc left' \<Rightarrow>
             if \<not> (case err of None \<Rightarrow> False | Some e \<Rightarrow> errors_is e ErrConflict) then (err, s1)
             else DeleteOwner_loop left' repo envs (Suc i) ow src s1)"

definition Vault_DeleteOwner ::
    "'s vault_repo \<Rightarrow> (nat \<Rightarrow> vault_env) \<Rightarrow> owner \<Rightarrow> source \<Rightarrow> 's \<Rightarrow> error \<times> 's" where
  "Vault_DeleteOwner repo envs ow src s =
     (case validateRequest (Owner_Validate ow) src of
        Some err \<Rightarrow> (Some err, s)
      | None \<Rightarrow> DeleteOwner_loop deleteOwnerRetries repo envs 0 ow src s)"

definition Vault_List :: "'s vault_repo \<Rightarrow> vault_env \<Rightarrow> owner \<Rightarrow> 's \<Rightarrow> secret_meta list res \<times> 's" where
  "Vault_List repo env ow s =
     (case Owner_Validate ow of Some err \<Rightarrow> (Inl err, s) | None \<Rightarrow> vr_ListSecrets repo (ve_err env 0) ow s)"

definition Vault_Audit ::
    "'s vault_repo \<Rightarrow> vault_env \<Rightarrow> audit_filter \<Rightarrow> string \<Rightarrow> int \<Rightarrow> 's \<Rightarrow> (audit_record list \<times> string) res \<times> 's" where
  "Vault_Audit repo env f after limit s =
     (case AuditFilter_Validate f of
        Some err \<Rightarrow> (Inl err, s)
      | None \<Rightarrow> vr_ListAudit repo (ve_err env 0) f after (if limit \<le> 0 then 100 else limit) s)"

section \<open>Sealing and wrapping undo\<close>

lemma length_random_bytes [simp]: "length (random_bytes env i n) = n"
  by (simp add: random_bytes_def)

lemma Open_Seal:
  assumes "length dek = 32" and "length nonce = 12"
  shows "\<exists>c. Seal nonce dek rf value = Inr c \<and> Open dek rf c = Inr value"
  using assms by (simp add: Seal_def Open_def dataKeyCipher_def dekBytes_def)

text \<open>
  The contract of the \<open>Wrapper\<close> port, for a family of wrappers (one per key ring): a wrapped data key
  comes back, and only data keys do; a blob names the wrapper key it is under (\<open>label_of\<close>), and reads
  the same under every wrapper that shares that key.
\<close>

locale wrappers =
  fixes wrapper_of :: "'r \<Rightarrow> wrapper"
    and built :: "'r \<Rightarrow> bool"
    and label_of :: "'r \<Rightarrow> string \<Rightarrow> string option"
    and shares :: "'r \<Rightarrow> 'r \<Rightarrow> string \<Rightarrow> bool"
  assumes wrap_ok: "built r \<Longrightarrow> length dek = 32 \<Longrightarrow> length nonce = 12 \<Longrightarrow>
      \<exists>blob. wr_Wrap (wrapper_of r) nonce dek = Inr (blob, wr_ActiveKeyID (wrapper_of r)) \<and>
        wr_Unwrap (wrapper_of r) blob = Inr dek \<and> label_of r blob = Some (wr_ActiveKeyID (wrapper_of r))"
    and unwrap_length: "wr_Unwrap (wrapper_of r) blob = Inr dek \<Longrightarrow> length dek = 32"
    and unwrap_shared: "shares r r' kid \<Longrightarrow> label_of r blob = Some kid \<Longrightarrow>
      wr_Unwrap (wrapper_of r') blob = wr_Unwrap (wrapper_of r) blob \<and> label_of r' blob = Some kid"

text \<open>Wrappers over the rings that \<open>NewAESGCMRing\<close> builds.\<close>

definition ring_built :: "aesgcm_ring \<Rightarrow> bool" where
  "ring_built r \<longleftrightarrow> (\<exists>ring ls. map_ok (kr_Keys ring) \<and> NewAESGCMRing ring (map WithLegacyKeyID ls) = Inr r)"

definition ring_label :: "aesgcm_ring \<Rightarrow> string \<Rightarrow> string option" where
  "ring_label r blob = (case AESGCMRing_KeyIDOf r blob of Inl _ \<Rightarrow> None | Inr kid \<Rightarrow> Some kid)"

text \<open>The second ring holds the same key under that id, and still names it for the unprefixed form.\<close>

definition ring_shares :: "aesgcm_ring \<Rightarrow> aesgcm_ring \<Rightarrow> string \<Rightarrow> bool" where
  "ring_shares r r' kid \<longleftrightarrow>
     map_get (ar_keys r') kid = map_get (ar_keys r) kid \<and> (ar_legacy r = kid \<longrightarrow> ar_legacy r' = kid)"

lemma hex_encode_Nil: "hex_encode bs = [] \<longleftrightarrow> bs = []"
  by (cases bs) auto

lemma keyed_has_dot: "splitKeyed blob = Inr (kid, p) \<Longrightarrow> CHR ''.'' \<in> set blob"
  by (rule ccontr) (auto simp: splitKeyed_def cut_at_absent split: if_splits)

lemma ring_split_shared:
  assumes "ring_shares r r' kid" and "AESGCMRing_split r blob = Inr (kid, p)"
  shows "AESGCMRing_split r' blob = Inr (kid, p)"
  using assms keyed_has_dot by (auto simp: AESGCMRing_split_def ring_shares_def split: if_splits)

interpretation rings: wrappers "\<lambda>r. ring_wrapper (ring_encrypter r)" ring_built ring_label ring_shares
proof
  fix r and dek nonce :: bytes
  assume "ring_built r" and dek: "length dek = 32" and nonce: "length nonce = 12"
  then obtain ring ls where ring: "NewAESGCMRing ring (map WithLegacyKeyID ls) = Inr r" "map_ok (kr_Keys ring)"
    by (auto simp: ring_built_def)
  have "hex_encode dek \<noteq> []" using dek by (auto simp: hex_encode_Nil)
  then obtain c where "AESGCMRing_Encrypt r nonce (hex_encode dek) = Inr c" "AESGCMRing_Decrypt r c = Inr (hex_encode dek)"
    "AESGCMRing_KeyIDOf r c = Inr (ar_active r)"
    using ring_opens [OF ring ring refl _ nonce] by blast
  then show "\<exists>blob. wr_Wrap (ring_wrapper (ring_encrypter r)) nonce dek =
        Inr (blob, wr_ActiveKeyID (ring_wrapper (ring_encrypter r))) \<and>
      wr_Unwrap (ring_wrapper (ring_encrypter r)) blob = Inr dek \<and>
      ring_label r blob = Some (wr_ActiveKeyID (ring_wrapper (ring_encrypter r)))"
    using dek by (simp add: ring_wrapper_def ring_encrypter_def RingWrapper_Wrap_def RingWrapper_Unwrap_def dekBytes_def
        ring_label_def)
next
  fix r blob dek
  assume "wr_Unwrap (ring_wrapper (ring_encrypter r)) blob = Inr dek"
  then show "length dek = 32"
    by (auto simp: ring_wrapper_def RingWrapper_Unwrap_def dekBytes_def split: sum.splits option.splits if_splits)
next
  fix r r' kid blob
  assume shares: "ring_shares r r' kid" and "ring_label r blob = Some kid"
  then obtain p where p: "AESGCMRing_split r blob = Inr (kid, p)"
    by (auto simp: ring_label_def AESGCMRing_KeyIDOf_def split: sum.splits)
  then show "wr_Unwrap (ring_wrapper (ring_encrypter r')) blob = wr_Unwrap (ring_wrapper (ring_encrypter r)) blob \<and>
      ring_label r' blob = Some kid"
    using ring_split_shared [OF shares p] shares
    by (simp add: ring_label_def AESGCMRing_KeyIDOf_def AESGCMRing_Decrypt_def ring_wrapper_def ring_encrypter_def
        RingWrapper_Unwrap_def ring_shares_def)
qed

lemma NewAuditRecord_fields:
  "NewAuditRecord env i now act ow name version keyID src = Inr rec \<Longrightarrow>
     au_Action rec = act \<and> au_Outcome rec = OutcomeOK \<and> au_Owner rec = ow \<and> au_Name rec = name \<and>
     au_Version rec = version \<and> au_KeyID rec = keyID \<and> au_Source rec = src"
  by (auto simp: NewAuditRecord_def split: sum.splits)

lemma deletion_records_fields:
  "deletion_records env i now ow src secs = Inr recs \<Longrightarrow>
     map au_Name recs = map (\<lambda>sec. rf_Name (sm_Ref sec)) secs \<and>
     (\<forall>rec\<in>set recs. au_Action rec = ActionSecretDeleted \<and> au_Outcome rec = OutcomeOK \<and> au_Owner rec = ow \<and>
        au_Source rec = src)"
  by (induction secs arbitrary: i recs) (auto split: sum.splits dest: NewAuditRecord_fields)

section \<open>What a vault holds\<close>

text \<open>The value readable under a reference: what \<open>Get\<close> would open.\<close>

definition readable :: "wrapper \<Rightarrow> owner_key option \<Rightarrow> sealed_secret option \<Rightarrow> secret_ref \<Rightarrow> bytes option" where
  "readable w key sealed rf =
     (case (key, sealed) of
        (Some k, Some sec) \<Rightarrow> (case vault_open w k rf sec of Inl _ \<Rightarrow> None | Inr v \<Rightarrow> Some v)
      | _ \<Rightarrow> None)"

lemma utc_utc [simp]: "utc (utc t) = utc t"
  by (simp add: utc_def)

definition only_grows :: "audit_record list \<Rightarrow> audit_record list \<Rightarrow> bool" where
  "only_grows log log' \<longleftrightarrow> mset log \<subseteq># mset log'"

lemma only_grows_refl [simp]: "only_grows log log"
  by (simp add: only_grows_def)

lemma only_grows_trans: "only_grows a b \<Longrightarrow> only_grows b c \<Longrightarrow> only_grows a c"
  by (auto simp: only_grows_def intro: subset_mset.trans)

lemma appended_grows: "appended log au log' \<Longrightarrow> only_grows log log'"
  by (simp add: appended_def only_grows_def)

text \<open>An audit record of one access, and a log that gained it.\<close>

definition access_record ::
    "action \<Rightarrow> audit_outcome \<Rightarrow> secret_ref \<Rightarrow> int \<Rightarrow> string \<Rightarrow> source \<Rightarrow> audit_record \<Rightarrow> bool" where
  "access_record act out rf version keyID src rec \<longleftrightarrow>
     au_Action rec = act \<and> au_Outcome rec = out \<and> au_Owner rec = rf_Owner rf \<and> au_Name rec = rf_Name rf \<and>
     au_Version rec = version \<and> au_KeyID rec = keyID \<and> au_Source rec = src"

definition gained :: "audit_record list \<Rightarrow> (audit_record \<Rightarrow> bool) \<Rightarrow> audit_record list \<Rightarrow> bool" where
  "gained log P log' \<longleftrightarrow> (\<exists>rec. P rec \<and> mset log + {#rec#} \<subseteq># mset log')"

lemma gained_appended: "only_grows log log1 \<Longrightarrow> appended log1 [rec] log2 \<Longrightarrow> P (recorded rec) \<Longrightarrow> gained log P log2"
  unfolding gained_def appended_def only_grows_def by (metis (no_types, lifting) add.right_neutral add_mset_add_single
      image_mset_single mset.simps(1) mset.simps(2) mset_map subset_mset.add_right_mono)

lemma gained_member:
  assumes "appended log au log'" and "rec \<in> set au" and "P (recorded rec)"
  shows "gained log P log'"
proof -
  have "{#recorded rec#} \<subseteq># mset (map recorded au)" using assms(2) by simp
  then have "mset log + {#recorded rec#} \<subseteq># mset log'"
    using assms(1) by (simp only: appended_def subset_mset.add_left_mono)
  then show ?thesis using assms(3) unfolding gained_def by blast
qed

lemma gained_grows: "gained log P log' \<Longrightarrow> only_grows log log'"
  unfolding gained_def only_grows_def by (auto dest: mset_subset_eq_insertD intro: subset_mset.less_imp_le)

locale vault = vault_repository repo inv key_of secret_of log_of + wrappers wrapper_of built label_of shares
  for repo :: "'s vault_repo" and inv :: "'s \<Rightarrow> bool" and key_of :: "'s \<Rightarrow> owner \<Rightarrow> owner_key option"
    and secret_of :: "'s \<Rightarrow> secret_ref \<Rightarrow> sealed_secret option" and log_of :: "'s \<Rightarrow> audit_record list"
    and wrapper_of :: "'r \<Rightarrow> wrapper" and built :: "'r \<Rightarrow> bool"
    and label_of :: "'r \<Rightarrow> string \<Rightarrow> string option" and shares :: "'r \<Rightarrow> 'r \<Rightarrow> string \<Rightarrow> bool"
begin

definition held :: "'r \<Rightarrow> 's \<Rightarrow> secret_ref \<Rightarrow> bytes option" where
  "held r s rf = readable (wrapper_of r) (key_of s (rf_Owner rf)) (secret_of s rf) rf"

text \<open>
  Every owner key unwraps and is under the wrapper key it names, and every stored secret is readable.
\<close>

definition usable :: "'r \<Rightarrow> owner_key \<Rightarrow> bool" where
  "usable r k \<longleftrightarrow>
     (\<exists>dek. wr_Unwrap (wrapper_of r) (ok_WrappedKey k) = Inr dek) \<and> label_of r (ok_WrappedKey k) = Some (ok_WrapperKeyID k)"

definition sound :: "'r \<Rightarrow> 's \<Rightarrow> bool" where
  "sound r s \<longleftrightarrow> inv s \<and>
     (\<forall>ow k. key_of s ow = Some k \<longrightarrow> usable r k) \<and>
     (\<forall>rf. secret_of s rf \<noteq> None \<longrightarrow> held r s rf \<noteq> None)"

lemma sound_inv: "sound r s \<Longrightarrow> inv s"
  by (simp add: sound_def)

lemma held_None: "secret_of s rf = None \<Longrightarrow> held r s rf = None"
  by (simp add: held_def readable_def split: option.splits)

lemma held_Some:
  "held r s rf = Some v \<longleftrightarrow>
     (\<exists>k sec. key_of s (rf_Owner rf) = Some k \<and> secret_of s rf = Some sec \<and>
        vault_open (wrapper_of r) k rf sec = Inr v)"
  by (auto simp: held_def readable_def split: option.splits sum.splits)

text \<open>A key created for an owner without one changes nothing that is held.\<close>

lemma create_key_sound:
  assumes "sound r s" and "inv s'" and "key_of s ow = None" and "key_of s' = (key_of s)(ow \<mapsto> k)"
    and "secret_of s' = secret_of s" and "usable r k"
  shows "sound r s' \<and> held r s' = held r s"
proof -
  have no_secret: "secret_of s rf = None" if "rf_Owner rf = ow" for rf
    using secret_has_key [OF sound_inv [OF assms(1)], of rf] assms(3) that by (cases "secret_of s rf") auto
  have held: "held r s' rf = held r s rf" for rf
    using no_secret [of rf] assms(4,5) by (cases "rf_Owner rf = ow") (auto simp: held_def readable_def split: option.splits)
  moreover have "sound r s'"
    using assms held by (auto simp: sound_def)
  ultimately show ?thesis by blast
qed

lemma wrapKey_built:
  assumes "built r" and "length dek = 32" and "wrapKey (wrapper_of r) env ow dek = Inr k"
  shows "ok_Owner k = ow" and "normalizeKey k = k" and "wr_Unwrap (wrapper_of r) (ok_WrappedKey k) = Inr dek"
    and "usable r k"
proof -
  obtain blob where "wr_Wrap (wrapper_of r) (random_bytes env 2 12) dek = Inr (blob, wr_ActiveKeyID (wrapper_of r))"
    "wr_Unwrap (wrapper_of r) blob = Inr dek" "label_of r blob = Some (wr_ActiveKeyID (wrapper_of r))"
    using wrap_ok [OF assms(1,2), of "random_bytes env 2 12"] by auto
  then show "ok_Owner k = ow" "normalizeKey k = k" "wr_Unwrap (wrapper_of r) (ok_WrappedKey k) = Inr dek"
    "usable r k"
    using assms(3) by (auto simp: wrapKey_def normalizeKey_def usable_def Let_def split: sum.splits)
qed

lemma NewDataKey_length: "NewDataKey env i = Inr dek \<Longrightarrow> length dek = 32"
  by (auto simp: NewDataKey_def rand_Read_def dekBytes_def split: sum.splits option.splits)

lemma loadOwnerKey_spec:
  assumes "inv s" and "Owner_Validate ow = None" and "loadOwnerKey repo w env i ow s = (res, s')"
  shows "s' = s \<and> (\<forall>k dek. res = Inr (k, dek) \<longrightarrow> key_of s ow = Some k \<and> wr_Unwrap w (ok_WrappedKey k) = Inr dek)"
  using assms by (auto simp: loadOwnerKey_def get_key split: option.splits sum.splits)

lemma ownerKey_spec:
  assumes "sound r s" and "built r" and "Owner_Validate ow = None"
    and "ownerKey repo (wrapper_of r) env ow src s = (res, s')"
  shows "sound r s' \<and> held r s' = held r s \<and> secret_of s' = secret_of s \<and> only_grows (log_of s) (log_of s') \<and>
    (\<forall>ow'. ow' \<noteq> ow \<or> key_of s ow' \<noteq> None \<longrightarrow> key_of s' ow' = key_of s ow') \<and>
    (\<forall>k dek. res = Inr (k, dek) \<longrightarrow> key_of s' ow = Some k \<and> wr_Unwrap (wrapper_of r) (ok_WrappedKey k) = Inr dek)"
proof -
  note inv = sound_inv [OF assms(1)]
  show ?thesis
  proof (cases "\<exists>e0. vr_GetOwnerKey repo (ve_err env 0) ow s = (Inl e0, s) \<and> errors_is e0 ErrNotFound")
    case False
    then show ?thesis
      using assms(1,4) get_key [OF inv assms(3)]
      by (auto simp: ownerKey_def split: option.splits sum.splits if_splits)
  next
    case True
    then obtain e0 where got: "vr_GetOwnerKey repo (ve_err env 0) ow s = (Inl e0, s)" "errors_is e0 ErrNotFound"
      by blast
    show ?thesis
    proof (cases "NewDataKey env 0")
      case (Inl e)
      with assms(1,4) got show ?thesis by (auto simp: ownerKey_def)
    next
      case dek: (Inr dek)
      show ?thesis
      proof (cases "wrapKey (wrapper_of r) env ow dek")
        case (Inl e)
        with assms(1,4) got dek show ?thesis by (auto simp: ownerKey_def)
      next
        case k: (Inr k)
        note built = wrapKey_built [OF assms(2) NewDataKey_length [OF dek] k]
        show ?thesis
        proof (cases "NewAuditRecord env 3 (ok_CreatedAt k) ActionOwnerKeyCreated ow [] 0 (ok_KeyID k) src")
          case (Inl e)
          with assms(1,4) got dek k show ?thesis by (auto simp: ownerKey_def)
        next
          case rec: (Inr rec)
          obtain e s2 where create: "vr_CreateOwnerKey repo (ve_err env 1) k (correlated env [rec]) s = (e, s2)"
            by fastforce
          have eff: "e \<noteq> None \<and> s2 = s \<or>
              e = None \<and> inv s2 \<and> key_of s ow = None \<and> key_of s2 = (key_of s)(ow \<mapsto> k) \<and>
              secret_of s2 = secret_of s \<and> appended (log_of s) (correlated env [rec]) (log_of s2)"
            using create_key [OF inv _ create] assms(3) built by auto
          then show ?thesis
          proof
            assume "e \<noteq> None \<and> s2 = s"
            then obtain e' where e': "e = Some e'" "s2 = s" by auto
            show ?thesis
            proof (cases "errors_is e' ErrAlreadyExists")
              case True
              then have "loadOwnerKey repo (wrapper_of r) env 2 ow s = (res, s')"
                using assms(4) got dek k rec create e' by (simp add: ownerKey_def)
              from loadOwnerKey_spec [OF inv assms(3) this] assms(1) show ?thesis by simp
            next
              case False
              then show ?thesis using assms(1,4) got dek k rec create e' by (auto simp: ownerKey_def)
            qed
          next
            assume ok: "e = None \<and> inv s2 \<and> key_of s ow = None \<and> key_of s2 = (key_of s)(ow \<mapsto> k) \<and>
              secret_of s2 = secret_of s \<and> appended (log_of s) (correlated env [rec]) (log_of s2)"
            then have "sound r s2 \<and> held r s2 = held r s"
              using create_key_sound [OF assms(1), of s2 ow k] built(4) by blast
            then show ?thesis
              using ok assms(4) got dek k rec create built(3) by (auto simp: ownerKey_def intro: appended_grows)
          qed
        qed
      qed
    qed
  qed
qed


lemma put_sound:
  assumes "sound r s" and "inv s'" and "key_of s (rf_Owner rf) = Some k" and "key_of s' = key_of s"
    and "wr_Unwrap (wrapper_of r) (ok_WrappedKey k) = Inr dek" and "secret_of s' = (secret_of s)(rf \<mapsto> x)"
    and "ss_KeyID x = ok_KeyID k" and "Open dek rf (ss_Ciphertext x) = Inr v"
  shows "sound r s' \<and> held r s' = (held r s)(rf \<mapsto> v)"
proof -
  have "held r s' rf = Some v"
    using assms by (simp add: held_def readable_def vault_open_def)
  moreover have "held r s' rf' = held r s rf'" if "rf' \<noteq> rf" for rf'
    using that assms(4,6) by (simp add: held_def)
  ultimately have held: "held r s' = (held r s)(rf \<mapsto> v)" by auto
  moreover have "sound r s'"
    using assms(1,2,4,6) by (simp add: sound_def held)
  ultimately show ?thesis by blast
qed

lemma Put_spec:
  assumes "sound r s" and "built r" and "Vault_Put repo (wrapper_of r) env rf v src s = (res, s')"
  shows "sound r s' \<and> only_grows (log_of s) (log_of s') \<and>
    (\<forall>ow. ow \<noteq> rf_Owner rf \<or> key_of s ow \<noteq> None \<longrightarrow> key_of s' ow = key_of s ow) \<and>
    (case res of
       Inl e \<Rightarrow> held r s' = held r s
     | Inr m \<Rightarrow> held r s' = (held r s)(rf \<mapsto> v) \<and> secret_of s' rf \<noteq> None \<and>
         m = metadata (the (secret_of s' rf)) \<and>
         sm_Version m = (case secret_of s rf of None \<Rightarrow> 1 | Some p \<Rightarrow> ss_Version p + 1) \<and>
         gained (log_of s) (access_record ActionSecretPut OutcomeOK rf (sm_Version m) (sm_KeyID m) src) (log_of s'))"
proof (cases "validateRequest (Ref_Validate rf) src = None \<and> v \<noteq> [] \<and> int (length v) \<le> MaxValueBytes")
  case False
  with assms show ?thesis by (auto simp: Vault_Put_def split: option.splits if_splits)
next
  case True
  then have valid: "Ref_Validate rf = None" "Owner_Validate (rf_Owner rf) = None"
    by (auto simp: validateRequest_def Ref_Validate_iff split: option.splits)
  obtain res1 s1 where key: "ownerKey repo (wrapper_of r) env (rf_Owner rf) src s = (res1, s1)" by fastforce
  note spec = ownerKey_spec [OF assms(1,2) valid(2) key]
  show ?thesis
  proof (cases res1)
    case (Inl e)
    with assms(3) True key spec show ?thesis by (auto simp: Vault_Put_def split: if_splits)
  next
    case (Inr kd)
    obtain k dek where kd: "kd = (k, dek)" by (cases kd)
    have k: "key_of s1 (rf_Owner rf) = Some k" "wr_Unwrap (wrapper_of r) (ok_WrappedKey k) = Inr dek"
      using spec Inr kd by auto
    have s1: "sound r s1" "held r s1 = held r s" "secret_of s1 = secret_of s" "only_grows (log_of s) (log_of s1)"
      "\<And>ow. ow \<noteq> rf_Owner rf \<or> key_of s ow \<noteq> None \<Longrightarrow> key_of s1 ow = key_of s ow"
      using spec by auto
    obtain c where c: "Seal (random_bytes env 4 12) dek rf v = Inr c" "Open dek rf c = Inr v"
      using Open_Seal [OF unwrap_length [OF k(2)]] by (metis length_random_bytes)
    show ?thesis
    proof (cases "NewAuditRecord env 5 (ve_now env 1) ActionSecretPut (rf_Owner rf) (rf_Name rf) 0 (ok_KeyID k) src")
      case e: (Inl e)
      with assms(3) True key Inr kd c s1 show ?thesis by (auto simp: Vault_Put_def split: if_splits)
    next
      case rec: (Inr rec)
      define x where "x = \<lparr>ss_Ref = rf, ss_Version = 0, ss_KeyID = ok_KeyID k, ss_Ciphertext = c,
          ss_CreatedAt = ve_now env 1, ss_UpdatedAt = ve_now env 1\<rparr>"
      define rec' where "rec' = hd (correlated env [rec])"
      define new where "new = put_over (secret_of s rf) x"
      obtain q s2 where store: "vr_PutSecret repo (ve_err env 3) x rec' s1 = (q, s2)" by fastforce
      have res: "res = (case q of Inl err \<Rightarrow> Inl err | Inr y \<Rightarrow> Inr (metadata y))" "s' = s2"
        using assms(3) True key Inr kd c rec store
        by (auto simp: Vault_Put_def Let_def x_def rec'_def split: if_splits sum.splits)
      have "(\<exists>e. q = Inl e) \<and> s2 = s1 \<or>
          q = Inr new \<and> inv s2 \<and> key_of s2 = key_of s1 \<and> secret_of s2 = (secret_of s1)(rf \<mapsto> new) \<and>
          appended (log_of s1) [rec'\<lparr>au_Version := ss_Version new\<rparr>] (log_of s2)"
        using put_secret [OF sound_inv [OF s1(1)] _ store] valid(1) s1(3) by (auto simp: x_def new_def)
      then show ?thesis
      proof
        assume "(\<exists>e. q = Inl e) \<and> s2 = s1"
        with res s1 show ?thesis by auto
      next
        assume ok: "q = Inr new \<and> inv s2 \<and> key_of s2 = key_of s1 \<and> secret_of s2 = (secret_of s1)(rf \<mapsto> new) \<and>
          appended (log_of s1) [rec'\<lparr>au_Version := ss_Version new\<rparr>] (log_of s2)"
        then have "sound r s2 \<and> held r s2 = (held r s1)(rf \<mapsto> v)"
          using put_sound [OF s1(1) _ k(1) _ k(2), of s2 new v] c(2) by (simp add: new_def put_over_def x_def)
        moreover have "gained (log_of s) (access_record ActionSecretPut OutcomeOK rf (ss_Version new) (ss_KeyID new) src) (log_of s2)"
          by (rule gained_appended [OF s1(4)]) (use ok rec in \<open>auto simp: access_record_def recorded_def rec'_def
              correlated_def Correlate_def NewAuditRecord_def new_def put_over_def x_def split: sum.splits\<close>)
        ultimately show ?thesis
          using res ok s1 gained_grows
          by (auto simp: metadata_def new_def put_over_def split: option.splits)
      qed
    qed
  qed
qed


text \<open>\<open>Get\<close> changes nothing but the log, and a value only comes with its record.\<close>

lemma Get_spec:
  assumes "inv s" and "Vault_Get repo w env rf src s = (res, s')"
  shows "inv s' \<and> key_of s' = key_of s \<and> secret_of s' = secret_of s \<and> only_grows (log_of s) (log_of s') \<and>
    (\<forall>v. res = Inr v \<longrightarrow> readable w (key_of s (rf_Owner rf)) (secret_of s rf) rf = Some v \<and>
       (\<exists>sec. secret_of s rf = Some sec \<and>
          gained (log_of s) (access_record ActionSecretRead OutcomeOK rf (ss_Version sec) (ss_KeyID sec) src) (log_of s')))"
proof (cases "validateRequest (Ref_Validate rf) src")
  case (Some e)
  with assms show ?thesis by (auto simp: Vault_Get_def)
next
  case None
  then have valid: "Ref_Validate rf = None" "Owner_Validate (rf_Owner rf) = None"
    by (auto simp: validateRequest_def Ref_Validate_iff split: option.splits)
  show ?thesis
  proof (cases "vr_GetOwnerKey repo (ve_err env 0) (rf_Owner rf) s")
    case getk: (Pair rk s1)
    show ?thesis
    proof (cases "\<exists>k. rk = Inr k \<and> (\<exists>sec. vr_GetSecret repo (ve_err env 1) rf [] s1 = (Inr sec, s1))")
      case False
      then show ?thesis
        using assms(2) None getk get_key [OF assms(1) valid(2), of "ve_err env 0"]
          get_secret [OF assms(1) valid(1), of "ve_err env 1"] assms(1)
        by (auto simp: Vault_Get_def split: sum.splits option.splits)
    next
      case True
      then obtain k sec where rk: "rk = Inr k" and gets: "vr_GetSecret repo (ve_err env 1) rf [] s1 = (Inr sec, s1)" by blast
      have s1: "s1 = s" and k: "key_of s (rf_Owner rf) = Some k"
        using getk rk get_key [OF assms(1) valid(2), of "ve_err env 0"] by (auto split: option.splits)
      then have sec: "secret_of s rf = Some sec"
        using gets get_secret [OF assms(1) valid(1), of "ve_err env 1"] by (auto split: option.splits)
      define opened where "opened = vault_open w k rf sec"
      define rec where "rec = NewAuditRecord env 0 (ve_now env 0) ActionSecretRead (rf_Owner rf) (rf_Name rf)
          (ss_Version sec) (ss_KeyID sec) src"
      show ?thesis
      proof (cases "(\<exists>e. opened = Inl (False, e)) \<or> (\<exists>e. rec = Inl e)")
        case True
        then have "s' = s \<and> (\<exists>e. res = Inl e)"
          using assms(2) None getk gets rk s1
          by (auto simp: Vault_Get_def opened_def [symmetric] rec_def [symmetric] Let_def split: sum.splits bool.splits)
        then show ?thesis using assms(1) by auto
      next
        case False
        then obtain rec0 where rec0: "rec = Inr rec0" by (cases rec) auto
        define rec1 where "rec1 = (case opened of Inl _ \<Rightarrow> rec0\<lparr>au_Outcome := OutcomeDenied\<rparr> | Inr _ \<Rightarrow> rec0)"
        obtain e s3 where app: "vr_AppendAudit repo (ve_err env 2) (correlated env [rec1]) s = (e, s3)" by fastforce
        have res: "s' = s3" "res = (case e of Some err \<Rightarrow> Inl err | None \<Rightarrow> (case opened of Inl (_, err) \<Rightarrow> Inl err | Inr v \<Rightarrow> Inr v))"
          using assms(2) None getk gets rk s1 rec0 app [unfolded rec1_def] False
          by (cases opened; auto simp: Vault_Get_def opened_def [symmetric] rec_def [symmetric] Let_def
              split: bool.splits option.splits)+
        have "e \<noteq> None \<and> s3 = s \<or> e = None \<and> inv s3 \<and> key_of s3 = key_of s \<and> secret_of s3 = secret_of s \<and>
            appended (log_of s) (correlated env [rec1]) (log_of s3)"
          using append_audit [OF assms(1) app] .
        then show ?thesis
        proof
          assume "e \<noteq> None \<and> s3 = s"
          with res assms(1) show ?thesis by auto
        next
          assume ok: "e = None \<and> inv s3 \<and> key_of s3 = key_of s \<and> secret_of s3 = secret_of s \<and>
            appended (log_of s) (correlated env [rec1]) (log_of s3)"
          have "gained (log_of s) (access_record ActionSecretRead OutcomeOK rf (ss_Version sec) (ss_KeyID sec) src) (log_of s3)"
            if "opened = Inr v" for v
            by (rule gained_appended [OF only_grows_refl])
              (use ok that rec0 in \<open>auto simp: correlated_def Correlate_def access_record_def recorded_def rec1_def
                rec_def NewAuditRecord_def split: sum.splits\<close>)
          moreover have "readable w (key_of s (rf_Owner rf)) (secret_of s rf) rf = Some v" if "opened = Inr v" for v
            using that k sec by (simp add: readable_def opened_def)
          ultimately show ?thesis
            using ok res sec appended_grows by (auto split: sum.splits)
        qed
      qed
    qed
  qed
qed

lemma sound_views: "sound r s \<Longrightarrow> inv s' \<Longrightarrow> key_of s' = key_of s \<Longrightarrow> secret_of s' = secret_of s \<Longrightarrow>
    sound r s' \<and> held r s' = held r s"
  by (auto simp: sound_def held_def fun_eq_iff)

lemma held_remove:
  assumes "sound r s" and "inv s'" and "\<And>ow. key_of s' ow = key_of s ow \<or> key_of s' ow = None \<and> (\<forall>rf. rf_Owner rf = ow \<longrightarrow> gone rf)"
    and "secret_of s' = (\<lambda>rf. if gone rf then None else secret_of s rf)"
  shows "sound r s' \<and> held r s' = (\<lambda>rf. if gone rf then None else held r s rf)"
proof -
  have held: "held r s' rf = (if gone rf then None else held r s rf)" for rf
    using assms(3) [of "rf_Owner rf"] assms(4) by (auto simp: held_def readable_def split: option.splits)
  moreover have "sound r s'"
    unfolding sound_def
  proof (intro conjI allI impI)
    fix ow k assume "key_of s' ow = Some k"
    then have "key_of s ow = Some k" using assms(3) [of ow] by auto
    then show "usable r k" using assms(1) by (auto simp: sound_def)
  next
    fix rf assume "secret_of s' rf \<noteq> None"
    then show "held r s' rf \<noteq> None" using assms(1,4) held by (auto simp: sound_def split: if_splits)
  qed (rule assms(2))
  ultimately show ?thesis by blast
qed

lemma Delete_spec:
  assumes "sound r s" and "Vault_Delete repo env rf src s = (e, s')"
  shows "sound r s' \<and> only_grows (log_of s) (log_of s') \<and>
    (if e = None then held r s' = (held r s)(rf := None) \<and> held r s rf \<noteq> None \<and> secret_of s' rf = None \<and>
       (\<exists>sec. secret_of s rf = Some sec \<and>
          gained (log_of s) (access_record ActionSecretDeleted OutcomeOK rf (ss_Version sec) (ss_KeyID sec) src) (log_of s'))
     else s' = s)"
proof (cases "validateRequest (Ref_Validate rf) src")
  case (Some err)
  with assms show ?thesis by (auto simp: Vault_Delete_def)
next
  case None
  then have valid: "Ref_Validate rf = None"
    by (auto simp: validateRequest_def split: option.splits)
  show ?thesis
  proof (cases "NewAuditRecord env 0 (ve_now env 0) ActionSecretDeleted (rf_Owner rf) (rf_Name rf) 0 [] src")
    case (Inl err)
    with assms None show ?thesis by (auto simp: Vault_Delete_def)
  next
    case rec: (Inr rec)
    then have del: "vr_DeleteSecret repo (ve_err env 0) rf (correlated env [rec]) s = (e, s')"
      using assms(2) None by (simp add: Vault_Delete_def)
    from delete_secret [OF sound_inv [OF assms(1)] valid del] show ?thesis
    proof
      assume "e \<noteq> None \<and> s' = s"
      with assms(1) show ?thesis by auto
    next
      assume ok: "e = None \<and> inv s' \<and> (\<exists>sec. secret_of s rf = Some sec \<and>
        appended (log_of s) (stamped (correlated env [rec]) ActionSecretDeleted sec) (log_of s')) \<and>
        key_of s' = key_of s \<and> secret_of s' = (secret_of s)(rf := None)"
      then obtain sec where sec: "secret_of s rf = Some sec"
        "appended (log_of s) (stamped (correlated env [rec]) ActionSecretDeleted sec) (log_of s')" by blast
      have ref: "ss_Ref sec = rf" using secret_ref_of [OF sound_inv [OF assms(1)] sec(1)] by blast
      have "sound r s' \<and> held r s' = (\<lambda>rf'. if rf' = rf then None else held r s rf')"
        by (rule held_remove [OF assms(1)]) (use ok in auto)
      moreover have "gained (log_of s) (access_record ActionSecretDeleted OutcomeOK rf (ss_Version sec) (ss_KeyID sec) src) (log_of s')"
        by (rule gained_appended [OF only_grows_refl])
          (use sec(2) rec ref in \<open>auto simp: stamped_def correlated_def Correlate_def access_record_def recorded_def
            NewAuditRecord_def split: sum.splits\<close>)
      moreover have "held r s rf \<noteq> None" using assms(1) sec(1) by (simp add: sound_def)
      ultimately show ?thesis using ok sec gained_grows by (auto simp: fun_eq_iff)
    qed
  qed
qed


text \<open>What a successful \<open>DeleteOwner\<close> has done.\<close>

definition offboarded :: "'r \<Rightarrow> owner \<Rightarrow> source \<Rightarrow> 's \<Rightarrow> 's \<Rightarrow> bool" where
  "offboarded r ow src s s' \<longleftrightarrow> sound r s' \<and> only_grows (log_of s) (log_of s') \<and>
     held r s' = (\<lambda>rf. if rf_Owner rf = ow then None else held r s rf) \<and>
     key_of s' = (key_of s)(ow := None) \<and>
     secret_of s' = (\<lambda>rf. if rf_Owner rf = ow then None else secret_of s rf) \<and>
     (\<exists>k. key_of s ow = Some k \<and>
        gained (log_of s) (access_record ActionOwnerKeyDestroyed OutcomeOK \<lparr>rf_Owner = ow, rf_Name = []\<rparr> 0 (ok_KeyID k) src)
          (log_of s')) \<and>
     (\<forall>rf sec. rf_Owner rf = ow \<longrightarrow> secret_of s rf = Some sec \<longrightarrow>
        gained (log_of s) (access_record ActionSecretDeleted OutcomeOK rf (ss_Version sec) (ss_KeyID sec) src) (log_of s'))"

lemma deleteOwner_spec:
  assumes "sound r s" and "Owner_Validate ow = None" and "deleteOwner repo env ow src s = (e, s')"
  shows "if e = None then offboarded r ow src s s' else s' = s"
proof (cases "vr_GetOwnerKey repo (ve_err env 0) ow s")
  case getk: (Pair rk s1)
  note inv = sound_inv [OF assms(1)]
  have s1: "s1 = s" using getk get_key [OF inv assms(2)] by simp
  show ?thesis
  proof (cases rk)
    case (Inl err)
    with assms(3) getk s1 show ?thesis by (auto simp: deleteOwner_def)
  next
    case k: (Inr k)
    obtain l s2 where list: "vr_ListSecrets repo (ve_err env 1) ow s = (l, s2)" by fastforce
    note listed = list_secrets [OF inv list]
    show ?thesis
    proof (cases l)
      case (Inl err)
      with assms(3) getk s1 k list listed show ?thesis by (auto simp: deleteOwner_def)
    next
      case secs: (Inr secs)
      show ?thesis
      proof (cases "(\<exists>err. deletion_records env 0 (ve_now env 0) ow src secs = Inl err) \<or>
          (\<exists>err. NewAuditRecord env (length secs) (ve_now env 0) ActionOwnerKeyDestroyed ow [] 0 (ok_KeyID k) src = Inl err)")
        case True
        then have "s' = s \<and> e \<noteq> None"
          using assms(3) getk s1 k list listed secs by (auto simp: deleteOwner_def Let_def split: sum.splits)
        then show ?thesis by auto
      next
        case False
        then obtain recs rec where recs: "deletion_records env 0 (ve_now env 0) ow src secs = Inr recs"
          and rec: "NewAuditRecord env (length secs) (ve_now env 0) ActionOwnerKeyDestroyed ow [] 0 (ok_KeyID k) src = Inr rec"
          by (metis sum.exhaust)
        let ?au = "correlated env (recs @ [rec])"
        have "vr_DeleteOwner repo (ve_err env 2) ow (map (\<lambda>sec. rf_Name (sm_Ref sec)) secs) ?au s = (e, s')"
          using assms(3) getk s1 k list listed secs recs rec by (simp add: deleteOwner_def Let_def)
        from delete_owner [OF inv assms(2) this] show ?thesis
        proof
          assume "e \<noteq> None \<and> s' = s"
          then show ?thesis by auto
        next
          assume ok: "e = None \<and> inv s' \<and> key_of s ow \<noteq> None \<and>
            set (map (\<lambda>sec. rf_Name (sm_Ref sec)) secs) = {rf_Name rf | rf. rf_Owner rf = ow \<and> secret_of s rf \<noteq> None} \<and>
            key_of s' = (key_of s)(ow := None) \<and>
            secret_of s' = (\<lambda>rf. if rf_Owner rf = ow then None else secret_of s rf) \<and>
            appended (log_of s) (map (deletion_record ow (secret_of s)) ?au) (log_of s')"
          have kept: "sound r s' \<and> held r s' = (\<lambda>rf. if rf_Owner rf = ow then None else held r s rf)"
            by (rule held_remove [OF assms(1)]) (use ok in auto)
          have removed: "gained (log_of s) (access_record ActionSecretDeleted OutcomeOK rf (ss_Version sec) (ss_KeyID sec) src) (log_of s')"
            if rf: "rf_Owner rf = ow" and sec: "secret_of s rf = Some sec" for rf sec
          proof -
            have "rf_Name rf \<in> set (map (\<lambda>sec. rf_Name (sm_Ref sec)) secs)"
              using ok rf sec by blast
            then have "rf_Name rf \<in> set (map au_Name recs)"
              using deletion_records_fields [OF recs] by simp
            then obtain d where d: "d \<in> set recs" "au_Name d = rf_Name rf" by auto
            let ?d = "d\<lparr>au_RequestID := correlationID (ve_requestID env), au_TraceID := correlationID (ve_traceID env)\<rparr>"
            have "?d \<in> set ?au" using d(1) by (auto simp: correlated_def Correlate_def)
            then have "deletion_record ow (secret_of s) ?d \<in> set (map (deletion_record ow (secret_of s)) ?au)" by auto
            moreover have "rf = \<lparr>rf_Owner = ow, rf_Name = rf_Name rf\<rparr>"
              using rf by (auto intro!: secret_ref.equality)
            then have "secret_of s \<lparr>rf_Owner = ow, rf_Name = rf_Name rf\<rparr> = Some sec" using sec by metis
            then have "access_record ActionSecretDeleted OutcomeOK rf (ss_Version sec) (ss_KeyID sec) src
                (recorded (deletion_record ow (secret_of s) ?d))"
              using d deletion_records_fields [OF recs] rf
              by (auto simp: access_record_def recorded_def deletion_record_def)
            ultimately show ?thesis using gained_member ok by blast
          qed
          have destroyed: "gained (log_of s)
              (access_record ActionOwnerKeyDestroyed OutcomeOK \<lparr>rf_Owner = ow, rf_Name = []\<rparr> 0 (ok_KeyID k) src) (log_of s')"
          proof -
            let ?d = "rec\<lparr>au_RequestID := correlationID (ve_requestID env), au_TraceID := correlationID (ve_traceID env)\<rparr>"
            have "?d \<in> set ?au" by (auto simp: correlated_def Correlate_def)
            then have "deletion_record ow (secret_of s) ?d \<in> set (map (deletion_record ow (secret_of s)) ?au)" by auto
            moreover have "access_record ActionOwnerKeyDestroyed OutcomeOK \<lparr>rf_Owner = ow, rf_Name = []\<rparr> 0 (ok_KeyID k) src
                (recorded (deletion_record ow (secret_of s) ?d))"
              using NewAuditRecord_fields [OF rec]
              by (simp add: access_record_def recorded_def deletion_record_def ActionOwnerKeyDestroyed_def ActionSecretDeleted_def)
            ultimately show ?thesis using gained_member ok by blast
          qed
          have key: "key_of s ow = Some k"
            using getk k get_key [OF inv assms(2), of "ve_err env 0"] by (auto split: option.splits)
          have "offboarded r ow src s s'"
            unfolding offboarded_def using kept removed destroyed key ok appended_grows
            by (intro conjI exI [of _ k] allI impI) (blast | simp only:)+
          then show ?thesis using ok by simp
        qed
      qed
    qed
  qed
qed

lemma DeleteOwner_loop_spec:
  assumes "sound r s" and "Owner_Validate ow = None" and "DeleteOwner_loop left repo envs i ow src s = (e, s')"
  shows "if e = None then offboarded r ow src s s' else s' = s"
  using assms(3)
proof (induction left arbitrary: i)
  case 0
  then show ?case using deleteOwner_spec [OF assms(1,2)] by (auto split: prod.splits)
next
  case (Suc left)
  obtain e1 s1 where d: "deleteOwner repo (envs i) ow src s = (e1, s1)" by fastforce
  note spec = deleteOwner_spec [OF assms(1,2) d]
  show ?case
  proof (cases e1)
    case None
    with Suc.prems d have "e = None \<and> s' = s1" by simp
    with spec None show ?thesis by simp
  next
    case (Some e')
    with spec have "s1 = s" by simp
    with Suc Some d show ?thesis by (cases "errors_is e' ErrConflict") auto
  qed
qed

lemma DeleteOwner_spec:
  assumes "sound r s" and "Vault_DeleteOwner repo envs ow src s = (e, s')"
  shows "if e = None then offboarded r ow src s s' else s' = s"
proof (cases "validateRequest (Owner_Validate ow) src")
  case (Some err)
  with assms show ?thesis by (auto simp: Vault_DeleteOwner_def)
next
  case None
  then have "Owner_Validate ow = None" by (auto simp: validateRequest_def split: option.splits)
  with None show ?thesis
    using DeleteOwner_loop_spec [OF assms(1)] assms(2) by (simp add: Vault_DeleteOwner_def)
qed


text \<open>
  When the context stays live, the random source works and the new audit id is unused, \<open>Get\<close> answers
  with what is held.
\<close>

lemma Get_live:
  assumes "sound r s" and "held r s rf = Some v" and "Source_Validate src = None"
    and "\<And>i. ve_err env i = None" and "ve_randErr env 0 = None"
    and "sprintf_016x (UnixNano (utc (ve_now env 0))) @ hex_encode (random_bytes env 0 8) \<notin> au_ID ` set (log_of s)"
  shows "fst (Vault_Get repo (wrapper_of r) env rf src s) = Inr v"
proof -
  note inv = sound_inv [OF assms(1)]
  obtain k sec where k: "key_of s (rf_Owner rf) = Some k" and sec: "secret_of s rf = Some sec"
    and opens: "vault_open (wrapper_of r) k rf sec = Inr v"
    using assms(2) by (auto simp: held_Some)
  have valid: "Ref_Validate rf = None" "Owner_Validate (rf_Owner rf) = None"
    using secret_ref_of [OF inv sec] by (auto simp: Ref_Validate_iff)
  obtain rec where rec: "NewAuditRecord env 0 (ve_now env 0) ActionSecretRead (rf_Owner rf) (rf_Name rf)
      (ss_Version sec) (ss_KeyID sec) src = Inr rec"
    and rec_id: "au_ID rec = sprintf_016x (UnixNano (utc (ve_now env 0))) @ hex_encode (random_bytes env 0 8)"
    using assms(5) by (auto simp: NewAuditRecord_def rand_Read_def)
  have "au_ID rec \<noteq> []" by (simp add: rec_id hex_encode_Nil random_bytes_def)
  moreover have "ActionSecretRead \<in> set audit_actions" "OutcomeOK \<in> set audit_outcomes" by code_simp+
  ultimately have "acceptable (correlated env [rec]) (log_of s)"
    using NewAuditRecord_fields [OF rec] assms(6) rec_id
    by (simp add: acceptable_def correlated_def Correlate_def)
  then have "fst (vr_AppendAudit repo None (correlated env [rec]) s) = None" by (rule append_audit_ok [OF inv])
  then obtain s3 where "vr_AppendAudit repo None (correlated env [rec]) s = (None, s3)" by (cases "vr_AppendAudit repo None (correlated env [rec]) s") auto
  then show ?thesis
    using valid assms(3,4) k sec opens rec get_key [OF inv valid(2)] get_secret [OF inv valid(1)]
    by (simp add: Vault_Get_def validateRequest_def Let_def)
qed

end

end
