(* ===== verification/Rotation.thy ===== *)
theory Rotation
  imports Vault
begin

text \<open>
  Rotating keys, \<open>src/pockets/secrets/logic/rotation/rotation.go\<close>: \<open>RewrapOwnerKeys\<close> walks the pages of
  owner keys and rewraps those not under the active wrapper key; \<open>RotateOwnerKey\<close> gives an owner a new
  data key and reseals its secrets.  The paging loop is a \<open>partial_function\<close>: that it ends is a theorem.
\<close>

section \<open>The service\<close>

definition DefaultPage :: int where
  "DefaultPage = 200"

record rewrap_options =
  ro_Page :: int
  ro_DryRun :: bool

record rewrap_report =
  rp_Scanned :: int
  rp_Rewrapped :: int
  rp_Skipped :: int
  rp_Failed :: "owner list"

definition rotation_NewService ::
    "'s vault_repo option \<Rightarrow> wrapper option \<Rightarrow> bool list \<Rightarrow> ('s vault_repo \<times> wrapper) res" where
  "rotation_NewService repo w opts =
     (case repo of
        None \<Rightarrow> Inl ErrRepositoryRequired
      | Some r \<Rightarrow>
          (case w of
             None \<Rightarrow> Inl ErrWrapperRequired
           | Some w' \<Rightarrow>
               if False \<in> set opts then Inl (Wrapped ''secrets rotation: nil option'' ErrInvalidInput) else Inr (r, w')))"

definition rewrap ::
    "'s vault_repo \<Rightarrow> wrapper \<Rightarrow> vault_env \<Rightarrow> owner_key \<Rightarrow> source \<Rightarrow> 's \<Rightarrow> error \<times> 's" where
  "rewrap repo w env key src s =
     (case wr_Unwrap w (ok_WrappedKey key) of
        Inl err \<Rightarrow> (Some err, s)
      | Inr dek \<Rightarrow>
          (case wr_Wrap w (random_bytes env 0 12) dek of
             Inl err \<Rightarrow> (Some err, s)
           | Inr (blob, wrapperKeyID) \<Rightarrow>
               (case NewAuditRecord env 1 (ve_now env 0) ActionOwnerKeyRewrapped (ok_Owner key) [] 0 (ok_KeyID key) src of
                  Inl err \<Rightarrow> (Some err, s)
                | Inr rec \<Rightarrow>
                    vr_ReplaceOwnerKey repo (ve_err env 0)
                      (key\<lparr>ok_WrappedKey := blob, ok_WrapperKeyID := wrapperKeyID\<rparr>) (ok_KeyID key) []
                      (correlated env [rec]) s)))"

text \<open>
  One key of a page: \<open>env1\<close> and \<open>env2\<close> are the surroundings of the attempt and of its retry, \<open>getErr\<close> is
  \<open>ctx.Err()\<close> at the read between them.  The loop variable \<open>key\<close> is overwritten by that read, with the
  zero key when it fails.  The result says whether the run goes on.
\<close>

definition zero_owner_key :: owner_key where
  "zero_owner_key =
     \<lparr>ok_Owner = \<lparr>ow_Type = [], ow_ID = []\<rparr>, ok_KeyID = [], ok_WrappedKey = [], ok_WrapperKeyID = [],
      ok_CreatedAt = zero_time, ok_RotatedAt = zero_time\<rparr>"

definition error_is :: "error \<Rightarrow> go_error \<Rightarrow> bool" where
  "error_is err target = (case err of None \<Rightarrow> False | Some e \<Rightarrow> errors_is e target)"

definition rewrap_one ::
    "'s vault_repo \<Rightarrow> wrapper \<Rightarrow> vault_env \<times> error \<times> vault_env \<Rightarrow> string \<Rightarrow> bool \<Rightarrow> source \<Rightarrow> owner_key \<Rightarrow>
     rewrap_report \<times> 's \<Rightarrow> error \<times> rewrap_report \<times> 's" where
  "rewrap_one repo w envs active dryRun src key0 st =
     (case (envs, st) of ((env1, getErr, env2), (report0, s)) \<Rightarrow>
        let report = report0\<lparr>rp_Scanned := rp_Scanned report0 + 1\<rparr>
        in if ok_WrapperKeyID key0 = active then (None, report\<lparr>rp_Skipped := rp_Skipped report + 1\<rparr>, s)
           else if dryRun then (None, report\<lparr>rp_Rewrapped := rp_Rewrapped report + 1\<rparr>, s)
           else
             let (err1, s1) = rewrap repo w env1 key0 src s;
                 (key, err, s3) =
                   (if error_is err1 ErrConflict
                    then case vr_GetOwnerKey repo getErr (ok_Owner key0) s1 of
                           (Inl e, s2) \<Rightarrow> (zero_owner_key, Some e, s2)
                         | (Inr k, s2) \<Rightarrow> (let (err2, s3) = rewrap repo w env2 k src s2 in (k, err2, s3))
                    else (key0, err1, s1))
             in case err of
                  None \<Rightarrow> (None, report\<lparr>rp_Rewrapped := rp_Rewrapped report + 1\<rparr>, s3)
                | Some e \<Rightarrow>
                    if errors_is e ErrInvalidInput \<or> errors_is e ErrConflict \<or> errors_is e ErrNotFound
                    then (None, report\<lparr>rp_Failed := rp_Failed report @ [ok_Owner key]\<rparr>, s3)
                    else (Some e, report, s3))"

fun rewrap_page ::
    "'s vault_repo \<Rightarrow> wrapper \<Rightarrow> (int \<Rightarrow> vault_env \<times> error \<times> vault_env) \<Rightarrow> string \<Rightarrow> bool \<Rightarrow> source \<Rightarrow> owner_key list \<Rightarrow>
     rewrap_report \<times> 's \<Rightarrow> error \<times> rewrap_report \<times> 's" where
  "rewrap_page repo w envs active dryRun src [] st = (None, st)"
| "rewrap_page repo w envs active dryRun src (key # rest) st =
     (case rewrap_one repo w (envs (rp_Scanned (fst st))) active dryRun src key st of
        (Some e, st') \<Rightarrow> (Some e, st')
      | (None, st') \<Rightarrow> rewrap_page repo w envs active dryRun src rest st')"

text \<open>The paging loop; page \<open>n\<close> is listed under \<open>listErr n\<close>.\<close>

partial_function (option) rewrap_loop ::
    "'s vault_repo \<Rightarrow> wrapper \<Rightarrow> (nat \<Rightarrow> error) \<Rightarrow> (int \<Rightarrow> vault_env \<times> error \<times> vault_env) \<Rightarrow> string \<Rightarrow> int \<Rightarrow> bool \<Rightarrow>
     source \<Rightarrow> nat \<Rightarrow> string \<Rightarrow> rewrap_report \<times> 's \<Rightarrow> (error \<times> rewrap_report \<times> 's) option" where
  [code]: "rewrap_loop repo w listErr envs active page dryRun src n after st =
     (case vr_ListOwnerKeys repo (listErr n) after page (snd st) of
        (Inl err, s1) \<Rightarrow> Some (Some err, fst st, s1)
      | (Inr (keys, nxt), s1) \<Rightarrow>
          (case rewrap_page repo w envs active dryRun src keys (fst st, s1) of
             (Some err, st') \<Rightarrow> Some (Some err, st')
           | (None, st') \<Rightarrow>
               if nxt = [] then Some (None, st')
               else rewrap_loop repo w listErr envs active page dryRun src (Suc n) nxt st'))"

definition zero_report :: rewrap_report where
  "zero_report = \<lparr>rp_Scanned = 0, rp_Rewrapped = 0, rp_Skipped = 0, rp_Failed = []\<rparr>"

definition RewrapOwnerKeys ::
    "'s vault_repo \<Rightarrow> wrapper \<Rightarrow> (nat \<Rightarrow> error) \<Rightarrow> (int \<Rightarrow> vault_env \<times> error \<times> vault_env) \<Rightarrow> source \<Rightarrow> rewrap_options \<Rightarrow> 's \<Rightarrow>
     (error \<times> rewrap_report \<times> 's) option" where
  "RewrapOwnerKeys repo w listErr envs src opts s =
     (case Source_Validate src of
        Some err \<Rightarrow> Some (Some err, zero_report, s)
      | None \<Rightarrow>
          rewrap_loop repo w listErr envs (wr_ActiveKeyID w) (if ro_Page opts \<le> 0 then DefaultPage else ro_Page opts)
            (ro_DryRun opts) src 0 [] (zero_report, s))"

fun reseal_all ::
    "vault_env \<Rightarrow> nat \<Rightarrow> time \<Rightarrow> owner_key \<Rightarrow> bytes \<Rightarrow> string \<Rightarrow> bytes \<Rightarrow> sealed_secret list \<Rightarrow> sealed_secret list res" where
  "reseal_all env i now old oldDEK keyID newDEK [] = Inr []"
| "reseal_all env i now old oldDEK keyID newDEK (sec # rest) =
     (if ss_KeyID sec \<noteq> ok_KeyID old
      then Inl (Wrapped ''secrets rotation: secret is not sealed under the owner's key'' ErrConflict)
      else case Open oldDEK (ss_Ref sec) (ss_Ciphertext sec) of
        Inl err \<Rightarrow> Inl err
      | Inr value \<Rightarrow>
          (case Seal (random_bytes env i 12) newDEK (ss_Ref sec) value of
             Inl err \<Rightarrow> Inl err
           | Inr c \<Rightarrow>
               (case reseal_all env (Suc i) now old oldDEK keyID newDEK rest of
                  Inl err \<Rightarrow> Inl err
                | Inr secs \<Rightarrow> Inr (sec\<lparr>ss_Ciphertext := c, ss_KeyID := keyID, ss_UpdatedAt := now\<rparr> # secs))))"

definition RotateOwnerKey ::
    "'s vault_repo \<Rightarrow> wrapper \<Rightarrow> vault_env \<Rightarrow> owner \<Rightarrow> source \<Rightarrow> 's \<Rightarrow> error \<times> 's" where
  "RotateOwnerKey repo w env ow src s =
     (case validateRequest (Owner_Validate ow) src of
        Some err \<Rightarrow> (Some err, s)
      | None \<Rightarrow>
          (case vr_GetOwnerKey repo (ve_err env 0) ow s of
             (Inl err, s1) \<Rightarrow> (Some err, s1)
           | (Inr old, s1) \<Rightarrow>
               (case wr_Unwrap w (ok_WrappedKey old) of
                  Inl err \<Rightarrow> (Some err, s1)
                | Inr oldDEK \<Rightarrow>
                    (case vr_ListSealedSecrets repo (ve_err env 1) ow s1 of
                       (Inl err, s2) \<Rightarrow> (Some err, s2)
                     | (Inr sealed, s2) \<Rightarrow>
                         (case NewDataKey env 0 of
                            Inl err \<Rightarrow> (Some err, s2)
                          | Inr newDEK \<Rightarrow>
                              (case NewOwnerKeyID env 1 of
                                 Inl err \<Rightarrow> (Some err, s2)
                               | Inr keyID \<Rightarrow>
                                   let now = utc (ve_now env 0)
                                   in (case reseal_all env 4 now old oldDEK keyID newDEK sealed of
                                         Inl err \<Rightarrow> (Some err, s2)
                                       | Inr resealed \<Rightarrow>
                                           (case wr_Wrap w (random_bytes env 2 12) newDEK of
                                              Inl err \<Rightarrow> (Some err, s2)
                                            | Inr (blob, wrapperKeyID) \<Rightarrow>
                                                (case NewAuditRecord env 3 now ActionOwnerKeyRotated ow [] 0 keyID src of
                                                   Inl err \<Rightarrow> (Some err, s2)
                                                 | Inr rec \<Rightarrow>
                                                     vr_ReplaceOwnerKey repo (ve_err env 2)
                                                       \<lparr>ok_Owner = ow, ok_KeyID = keyID, ok_WrappedKey = blob,
                                                        ok_WrapperKeyID = wrapperKeyID, ok_CreatedAt = ok_CreatedAt old,
                                                        ok_RotatedAt = now\<rparr>
                                                       (ok_KeyID old) resealed (correlated env [rec]) s2)))))))))"

text \<open>
  When the second read finds the owner's key gone, the loop variable is already the zero key: the report
  lists an empty owner instead of the one that failed.
\<close>

lemma rewrap_one_forgets_owner:
  assumes "ok_WrapperKeyID key \<noteq> active" and "rewrap repo w env1 key src s = (Some e, s1)" and "errors_is e ErrConflict"
    and "vr_GetOwnerKey repo getErr (ok_Owner key) s1 = (Inl ErrNotFound, s2)"
  shows "rewrap_one repo w (env1, getErr, env2) active False src key (rep, s) =
    (None, rep\<lparr>rp_Scanned := rp_Scanned rep + 1, rp_Failed := rp_Failed rep @ [\<lparr>ow_Type = [], ow_ID = []\<rparr>]\<rparr>, s2)"
  using assms by (simp add: rewrap_one_def error_is_def zero_owner_key_def Let_def)

section \<open>Resealing\<close>

lemma RotateOwnerKey_calls:
  assumes "validateRequest (Owner_Validate ow) src = None"
    and "vr_GetOwnerKey repo (ve_err env 0) ow s = (Inr old, s1)"
    and "wr_Unwrap w (ok_WrappedKey old) = Inr oldDEK"
    and "vr_ListSealedSecrets repo (ve_err env 1) ow s1 = (Inr secs, s2)"
    and "NewDataKey env 0 = Inr newDEK" and "NewOwnerKeyID env 1 = Inr keyID"
    and "reseal_all env 4 (utc (ve_now env 0)) old oldDEK keyID newDEK secs = Inr cs"
    and "wr_Wrap w (random_bytes env 2 12) newDEK = Inr (blob, kid)"
    and "NewAuditRecord env 3 (utc (ve_now env 0)) ActionOwnerKeyRotated ow [] 0 keyID src = Inr rec"
  shows "RotateOwnerKey repo w env ow src s =
    vr_ReplaceOwnerKey repo (ve_err env 2)
      \<lparr>ok_Owner = ow, ok_KeyID = keyID, ok_WrappedKey = blob, ok_WrapperKeyID = kid, ok_CreatedAt = ok_CreatedAt old,
       ok_RotatedAt = utc (ve_now env 0)\<rparr> (ok_KeyID old) cs (correlated env [rec]) s2"
  using assms by (simp add: RotateOwnerKey_def Let_def)

lemma resealed_over_other: "rf \<notin> ss_Ref ` set secs \<Longrightarrow> resealed_over secs m rf = m rf"
  unfolding resealed_over_def by (induction secs arbitrary: m) auto

lemma resealed_over_at:
  "distinct (map ss_Ref secs) \<Longrightarrow> sec \<in> set secs \<Longrightarrow>
     resealed_over secs m (ss_Ref sec) = map_option (reseal sec) (m (ss_Ref sec))"
proof (induction secs arbitrary: m)
  case (Cons x secs)
  let ?m = "m(ss_Ref x := map_option (reseal x) (m (ss_Ref x)))"
  have step: "resealed_over (x # secs) m = resealed_over secs ?m" by (simp add: resealed_over_def)
  show ?case
  proof (cases "sec = x")
    case True
    with Cons.prems have "ss_Ref sec \<notin> ss_Ref ` set secs" by auto
    then show ?thesis using True step resealed_over_other [of "ss_Ref sec" secs ?m] by simp
  next
    case False
    with Cons.prems have "ss_Ref sec \<in> ss_Ref ` set secs" by simp
    with Cons.prems have "ss_Ref sec \<noteq> ss_Ref x" by (simp, metis)
    with False Cons show ?thesis by (simp add: step)
  qed
qed simp

text \<open>\<open>c\<close> is \<open>sec\<close> resealed: the same reference and value, under the new key.\<close>

definition resealed_as :: "string \<Rightarrow> bytes \<Rightarrow> string \<Rightarrow> bytes \<Rightarrow> sealed_secret \<Rightarrow> sealed_secret \<Rightarrow> bool" where
  "resealed_as oldID oldDEK keyID newDEK sec c \<longleftrightarrow>
     ss_Ref c = ss_Ref sec \<and> ss_KeyID sec = oldID \<and> ss_KeyID c = keyID \<and>
     (\<exists>v. Open oldDEK (ss_Ref sec) (ss_Ciphertext sec) = Inr v \<and> Open newDEK (ss_Ref sec) (ss_Ciphertext c) = Inr v)"

lemma reseal_all_spec:
  assumes "length newDEK = 32"
  shows "reseal_all env i now old oldDEK keyID newDEK secs = Inr cs \<Longrightarrow>
     list_all2 (resealed_as (ok_KeyID old) oldDEK keyID newDEK) secs cs"
proof (induction secs arbitrary: i cs)
  case (Cons sec secs)
  then obtain v where v: "Open oldDEK (ss_Ref sec) (ss_Ciphertext sec) = Inr v" and kid: "ss_KeyID sec = ok_KeyID old"
    by (auto split: if_splits sum.splits)
  obtain c where c: "Seal (random_bytes env i 12) newDEK (ss_Ref sec) v = Inr c" "Open newDEK (ss_Ref sec) c = Inr v"
    using Open_Seal [OF assms] length_random_bytes by meson
  show ?case
    using Cons v kid c by (auto simp: resealed_as_def split: sum.splits)
qed simp

lemma list_all2_left: "list_all2 P xs ys \<Longrightarrow> x \<in> set xs \<Longrightarrow> \<exists>y\<in>set ys. P x y"
  by (induction rule: list_all2_induct) auto

definition tallied :: "rewrap_report \<Rightarrow> bool" where
  "tallied rep \<longleftrightarrow> rp_Scanned rep = rp_Rewrapped rep + rp_Skipped rep + int (length (rp_Failed rep))"

context vault begin

lemma listed_refs_distinct:
  assumes "sorted_wrt (\<lambda>a b. rf_Name (ss_Ref a) < rf_Name (ss_Ref b)) secs"
  shows "distinct (map ss_Ref secs)"
proof -
  have "sorted_wrt (\<lambda>x y. x \<noteq> y) (map ss_Ref secs)"
    using assms unfolding sorted_wrt_map by (rule sorted_wrt_mono_rel [rotated]) auto
  then show ?thesis by (induction "map ss_Ref secs" arbitrary: secs) (auto simp: distinct_map)
qed

text \<open>
  The key of one owner replaced together with the reseal of all its secrets keeps every value and
  version readable, and leaves all of the owner's secrets under the new key.
\<close>

lemma rotated_sound:
  assumes "sound r s" and "inv s'" and "key_of s ow = Some old" and "wr_Unwrap (wrapper_of r) (ok_WrappedKey old) = Inr oldDEK"
    and "set secs = {sec. secret_of s (ss_Ref sec) = Some sec \<and> rf_Owner (ss_Ref sec) = ow}"
    and "distinct (map ss_Ref secs)"
    and "list_all2 (resealed_as (ok_KeyID old) oldDEK (ok_KeyID k) newDEK) secs cs"
    and "key_of s' = (key_of s)(ow \<mapsto> k)" and "secret_of s' = resealed_over cs (secret_of s)"
    and "usable r k" and "wr_Unwrap (wrapper_of r) (ok_WrappedKey k) = Inr newDEK"
  shows "sound r s' \<and> held r s' = held r s \<and>
    (\<forall>rf. map_option ss_Version (secret_of s' rf) = map_option ss_Version (secret_of s rf)) \<and>
    (\<forall>rf. rf_Owner rf \<noteq> ow \<longrightarrow> secret_of s' rf = secret_of s rf) \<and>
    (\<forall>rf sec. rf_Owner rf = ow \<longrightarrow> secret_of s' rf = Some sec \<longrightarrow> ss_KeyID sec = ok_KeyID k)"
proof -
  note inv = sound_inv [OF assms(1)]
  have refs: "map ss_Ref cs = map ss_Ref secs"
    using assms(7) by (induction rule: list_all2_induct) (auto simp: resealed_as_def)
  have same: "secret_of s' rf = secret_of s rf" if "rf_Owner rf \<noteq> ow" for rf
  proof -
    have "rf \<notin> ss_Ref ` set cs" using that assms(5) refs by (metis (mono_tags, lifting) image_iff list.set_map mem_Collect_eq)
    then show ?thesis using assms(9) by (simp add: resealed_over_other)
  qed
  have new: "\<exists>c. secret_of s' rf = Some (reseal c sec) \<and> resealed_as (ok_KeyID old) oldDEK (ok_KeyID k) newDEK sec c"
    if rf: "rf_Owner rf = ow" "secret_of s rf = Some sec" for rf sec
  proof -
    have ref: "ss_Ref sec = rf" using secret_ref_of [OF inv rf(2)] by blast
    then have "sec \<in> set secs" using rf assms(5) by auto
    then obtain c where c: "c \<in> set cs" "resealed_as (ok_KeyID old) oldDEK (ok_KeyID k) newDEK sec c"
      using list_all2_left [OF assms(7)] by blast
    moreover have "secret_of s' rf = map_option (reseal c) (secret_of s rf)"
      using resealed_over_at [of cs c "secret_of s"] c assms(6,9) refs ref by (simp add: resealed_as_def)
    ultimately show ?thesis using rf by auto
  qed
  have held: "held r s' rf = held r s rf" for rf
  proof (cases "rf_Owner rf = ow \<and> secret_of s rf \<noteq> None")
    case True
    then obtain sec c where sec: "secret_of s rf = Some sec" and c: "secret_of s' rf = Some (reseal c sec)"
      "resealed_as (ok_KeyID old) oldDEK (ok_KeyID k) newDEK sec c" using new by blast
    have "ss_Ref sec = rf" using secret_ref_of [OF inv sec] by blast
    then show ?thesis
      using True sec c assms(3,4,8,11) by (auto simp: held_def readable_def vault_open_def resealed_as_def reseal_def)
  next
    case False
    show ?thesis
    proof (cases "rf_Owner rf = ow")
      case True
      with False have none: "secret_of s rf = None" by blast
      have "secret_of s' rf = None"
      proof -
        have "rf \<notin> ss_Ref ` set cs"
          using none assms(5) refs by (metis (mono_tags, lifting) image_iff list.set_map mem_Collect_eq option.distinct(1))
        then show ?thesis using assms(9) none by (simp add: resealed_over_other)
      qed
      with none show ?thesis by (simp add: held_None)
    next
      case False
      then show ?thesis using same assms(8) by (simp add: held_def)
    qed
  qed
  have present: "secret_of s' rf \<noteq> None \<Longrightarrow> secret_of s rf \<noteq> None" for rf
    using assms(9) resealed_over_other [of rf cs "secret_of s"] resealed_over_at [of cs _ "secret_of s"] assms(6) refs
    by (cases "rf \<in> ss_Ref ` set cs") auto
  have "sound r s'"
    unfolding sound_def using assms(1,2,8,10) held present by (auto simp: sound_def)
  moreover have "map_option ss_Version (secret_of s' rf) = map_option ss_Version (secret_of s rf)" for rf
    using same [of rf] new [of rf] present [of rf]
    by (cases "rf_Owner rf = ow"; cases "secret_of s rf"; cases "secret_of s' rf") (auto simp: reseal_def)
  moreover have "ss_KeyID sec = ok_KeyID k" if "rf_Owner rf = ow" "secret_of s' rf = Some sec" for rf sec
    using that new [of rf] present [of rf] by (auto simp: reseal_def resealed_as_def)
  ultimately show ?thesis using held same by blast
qed


lemma new_key_usable:
  assumes "built r" and "length dek = 32" and "length nonce = 12" and "wr_Wrap (wrapper_of r) nonce dek = Inr (blob, kid)"
    and "ok_WrappedKey k = blob" and "ok_WrapperKeyID k = kid"
  shows "usable r k \<and> wr_Unwrap (wrapper_of r) blob = Inr dek \<and> kid = wr_ActiveKeyID (wrapper_of r)"
  using wrap_ok [OF assms(1-3)] assms(4-6) by (auto simp: usable_def)

lemma RotateOwnerKey_spec:
  assumes "sound r s" and "built r" and "RotateOwnerKey repo (wrapper_of r) env ow src s = (e, s')"
  shows "if e = None then sound r s' \<and> held r s' = held r s \<and> only_grows (log_of s) (log_of s') \<and>
       (\<forall>rf. map_option ss_Version (secret_of s' rf) = map_option ss_Version (secret_of s rf)) \<and>
       (\<forall>ow'. ow' \<noteq> ow \<longrightarrow> key_of s' ow' = key_of s ow') \<and>
       (\<forall>rf. rf_Owner rf \<noteq> ow \<longrightarrow> secret_of s' rf = secret_of s rf) \<and>
       (\<exists>k. key_of s' ow = Some k \<and> ok_WrapperKeyID k = wr_ActiveKeyID (wrapper_of r) \<and>
          NewOwnerKeyID env 1 = Inr (ok_KeyID k) \<and>
          (\<exists>dek. NewDataKey env 0 = Inr dek \<and> wr_Unwrap (wrapper_of r) (ok_WrappedKey k) = Inr dek) \<and>
          (\<forall>rf sec. rf_Owner rf = ow \<longrightarrow> secret_of s' rf = Some sec \<longrightarrow> ss_KeyID sec = ok_KeyID k) \<and>
          gained (log_of s) (access_record ActionOwnerKeyRotated OutcomeOK \<lparr>rf_Owner = ow, rf_Name = []\<rparr> 0 (ok_KeyID k) src) (log_of s'))
     else s' = s"
proof (cases "validateRequest (Owner_Validate ow) src")
  case (Some err)
  with assms show ?thesis by (auto simp: RotateOwnerKey_def)
next
  case None
  then have valid: "Owner_Validate ow = None" by (auto simp: validateRequest_def split: option.splits)
  note inv = sound_inv [OF assms(1)]
  obtain rk where getk: "vr_GetOwnerKey repo (ve_err env 0) ow s = (rk, s)" by (simp add: get_key [OF inv valid])
  obtain l s2 where list: "vr_ListSealedSecrets repo (ve_err env 1) ow s = (l, s2)" by fastforce
  note listed = list_sealed [OF inv list]
  then have s2: "s2 = s" by simp
  define found where "found = (case rk of Inl _ \<Rightarrow> None | Inr old \<Rightarrow>
      (case wr_Unwrap (wrapper_of r) (ok_WrappedKey old) of Inl _ \<Rightarrow> None | Inr oldDEK \<Rightarrow>
        (case l of Inl _ \<Rightarrow> None | Inr sealed \<Rightarrow> Some (old, oldDEK, sealed))))"
  show ?thesis
  proof (cases "found = None \<or> (\<exists>x. NewDataKey env 0 = Inl x) \<or> (\<exists>x. NewOwnerKeyID env 1 = Inl x)")
    case True
    then have "e \<noteq> None \<and> s' = s"
      using assms(3) None getk list s2 by (auto simp: RotateOwnerKey_def found_def Let_def split: sum.splits)
    then show ?thesis by auto
  next
    case False
    then obtain old oldDEK sealed newDEK keyID where found: "rk = Inr old"
      "wr_Unwrap (wrapper_of r) (ok_WrappedKey old) = Inr oldDEK" "l = Inr sealed"
      and newDEK: "NewDataKey env 0 = Inr newDEK" and keyID: "NewOwnerKeyID env 1 = Inr keyID"
      by (cases "NewDataKey env 0"; cases "NewOwnerKeyID env 1") (auto simp: found_def split: sum.splits)
    define now where "now = utc (ve_now env 0)"
    have len: "length newDEK = 32" by (rule NewDataKey_length [OF newDEK])
    obtain blob where wrap: "wr_Wrap (wrapper_of r) (random_bytes env 2 12) newDEK = Inr (blob, wr_ActiveKeyID (wrapper_of r))"
      using wrap_ok [OF assms(2) len, of "random_bytes env 2 12"] by auto
    define k where "k = \<lparr>ok_Owner = ow, ok_KeyID = keyID, ok_WrappedKey = blob,
        ok_WrapperKeyID = wr_ActiveKeyID (wrapper_of r), ok_CreatedAt = ok_CreatedAt old, ok_RotatedAt = now\<rparr>"
    define rec where "rec = NewAuditRecord env 3 now ActionOwnerKeyRotated ow [] 0 keyID src"
    show ?thesis
    proof (cases "(\<exists>x. reseal_all env 4 now old oldDEK keyID newDEK sealed = Inl x) \<or> (\<exists>x. rec = Inl x)")
      case True
      then have "e \<noteq> None \<and> s' = s"
        using assms(3) None getk list s2 found newDEK keyID wrap
        by (auto simp: RotateOwnerKey_def now_def rec_def Let_def split: sum.splits)
      then show ?thesis by auto
    next
      case False
      then obtain cs rc where cs: "reseal_all env 4 now old oldDEK keyID newDEK sealed = Inr cs" and rc: "rec = Inr rc"
        by (metis sum.exhaust)
      have "vr_ReplaceOwnerKey repo (ve_err env 2) k (ok_KeyID old) cs (correlated env [rc]) s = (e, s')"
        using RotateOwnerKey_calls [OF None getk [unfolded found(1)] found(2) _ newDEK keyID _ wrap, of sealed s2] list s2 found(3) cs rc assms(3)
        by (simp add: now_def rec_def k_def)
      from replace_key [OF inv _ this] valid
      have "e \<noteq> None \<and> s' = s \<or>
          e = None \<and> inv s' \<and> key_of s' = (key_of s)(ow \<mapsto> normalizeKey k) \<and>
          secret_of s' = resealed_over cs (secret_of s) \<and> appended (log_of s) (correlated env [rc]) (log_of s')"
        by (auto simp: k_def)
      then show ?thesis
      proof
        assume "e \<noteq> None \<and> s' = s"
        then show ?thesis by auto
      next
        assume ok: "e = None \<and> inv s' \<and> key_of s' = (key_of s)(ow \<mapsto> normalizeKey k) \<and>
          secret_of s' = resealed_over cs (secret_of s) \<and> appended (log_of s) (correlated env [rc]) (log_of s')"
        have usable: "usable r (normalizeKey k)" "wr_Unwrap (wrapper_of r) (ok_WrappedKey (normalizeKey k)) = Inr newDEK"
          using new_key_usable [OF assms(2) len _ wrap, of "normalizeKey k"] by (auto simp: k_def normalizeKey_def)
        have old: "key_of s ow = Some old"
          using getk found get_key [OF inv valid, of "ve_err env 0"] by (auto split: option.splits)
        have secs: "set sealed = {sec. secret_of s (ss_Ref sec) = Some sec \<and> rf_Owner (ss_Ref sec) = ow}"
          "distinct (map ss_Ref sealed)"
          using listed found listed_refs_distinct by (auto split: option.splits)
        have "sound r s' \<and> held r s' = held r s \<and>
          (\<forall>rf. map_option ss_Version (secret_of s' rf) = map_option ss_Version (secret_of s rf)) \<and>
          (\<forall>rf. rf_Owner rf \<noteq> ow \<longrightarrow> secret_of s' rf = secret_of s rf) \<and>
          (\<forall>rf sec. rf_Owner rf = ow \<longrightarrow> secret_of s' rf = Some sec \<longrightarrow> ss_KeyID sec = ok_KeyID (normalizeKey k))"
          by (rule rotated_sound [OF assms(1) _ old found(2) secs _ _ _ usable])
            (use ok reseal_all_spec [OF len cs] in \<open>auto simp: k_def normalizeKey_def\<close>)
        moreover have "gained (log_of s) (access_record ActionOwnerKeyRotated OutcomeOK \<lparr>rf_Owner = ow, rf_Name = []\<rparr> 0 keyID src) (log_of s')"
          by (rule gained_appended [OF only_grows_refl])
            (use ok rc in \<open>auto simp: correlated_def Correlate_def access_record_def recorded_def rec_def
              NewAuditRecord_def split: sum.splits\<close>)
        moreover have "key_of s' ow = Some (normalizeKey k)" "ok_KeyID (normalizeKey k) = keyID"
          "ok_WrapperKeyID (normalizeKey k) = wr_ActiveKeyID (wrapper_of r)"
          using ok by (auto simp: k_def normalizeKey_def)
        ultimately show ?thesis using ok appended_grows keyID newDEK usable(2) by auto
      qed
    qed
  qed
qed

text \<open>
  Rewrapping: the values, the secrets and the ids of the data keys stay as they are.
\<close>

definition rekeyed :: "'r \<Rightarrow> 's \<Rightarrow> 's \<Rightarrow> bool" where
  "rekeyed r s s' \<longleftrightarrow> sound r s' \<and> held r s' = held r s \<and> secret_of s' = secret_of s \<and>
     only_grows (log_of s) (log_of s') \<and> (\<forall>ow. map_option ok_KeyID (key_of s' ow) = map_option ok_KeyID (key_of s ow))"

lemma rekeyed_refl: "sound r s \<Longrightarrow> rekeyed r s s"
  by (simp add: rekeyed_def)

lemma rekeyed_trans: "rekeyed r s s1 \<Longrightarrow> rekeyed r s1 s2 \<Longrightarrow> rekeyed r s s2"
  by (auto simp: rekeyed_def intro: only_grows_trans)

lemma rekeyed_dom: "rekeyed r s s' \<Longrightarrow> key_of s' ow = None \<longleftrightarrow> key_of s ow = None"
  unfolding rekeyed_def by (metis option.map_disc_iff)

definition up_to_date :: "'r \<Rightarrow> 's \<Rightarrow> owner \<Rightarrow> bool" where
  "up_to_date r s ow \<longleftrightarrow> map_option ok_WrapperKeyID (key_of s ow) = Some (wr_ActiveKeyID (wrapper_of r))"

text \<open>
  What a run adds to its report for the owners \<open>V\<close> it went over: those already under the active key are
  skipped, those it brought there (or would bring, in a dry run) rewrapped, those left behind failed.  A
  failed owner is listed by its name, or as the empty owner when the second read fails.
\<close>

definition tally :: "'r \<Rightarrow> bool \<Rightarrow> 's \<Rightarrow> 's \<Rightarrow> owner set \<Rightarrow> rewrap_report \<Rightarrow> rewrap_report \<Rightarrow> bool" where
  "tally r dry s s' V rep rep' \<longleftrightarrow>
     rp_Skipped rep' = rp_Skipped rep + int (card {ow \<in> V. up_to_date r s ow}) \<and>
     rp_Rewrapped rep' =
       rp_Rewrapped rep + int (card {ow \<in> V. \<not> up_to_date r s ow \<and> (dry \<or> up_to_date r s' ow)}) \<and>
     int (length (rp_Failed rep')) =
       int (length (rp_Failed rep)) + int (card {ow \<in> V. \<not> dry \<and> \<not> up_to_date r s' ow}) \<and>
     set (rp_Failed rep') \<subseteq>
       set (rp_Failed rep) \<union> {ow \<in> V. \<not> dry \<and> \<not> up_to_date r s' ow} \<union> {ok_Owner zero_owner_key}"

lemma tally_join:
  assumes "tally r dry s s1 A rep rep1" and "tally r dry s1 s' B rep1 rep'"
    and "A \<inter> B = {}" and "finite A" and "finite B"
    and "\<And>ow. ow \<in> A \<Longrightarrow> key_of s' ow = key_of s1 ow" and "\<And>ow. ow \<in> B \<Longrightarrow> key_of s1 ow = key_of s ow"
  shows "tally r dry s s' (A \<union> B) rep rep'"
proof -
  have split: "card {ow \<in> A \<union> B. Q ow} = card {ow \<in> A. Q ow} + card {ow \<in> B. Q ow}" for Q
  proof -
    have "{ow \<in> A \<union> B. Q ow} = {ow \<in> A. Q ow} \<union> {ow \<in> B. Q ow}" by blast
    moreover have "{ow \<in> A. Q ow} \<inter> {ow \<in> B. Q ow} = {}" using assms(3) by blast
    ultimately show ?thesis using assms(4,5) by (simp add: card_Un_disjoint)
  qed
  have same: "up_to_date r s1 ow = up_to_date r s' ow" if "ow \<in> A" for ow
    using assms(6) [OF that] by (simp add: up_to_date_def)
  have same': "up_to_date r s1 ow = up_to_date r s ow" if "ow \<in> B" for ow
    using assms(7) [OF that] by (simp add: up_to_date_def)
  have A: "{ow \<in> A. \<not> up_to_date r s ow \<and> (dry \<or> up_to_date r s1 ow)} =
      {ow \<in> A. \<not> up_to_date r s ow \<and> (dry \<or> up_to_date r s' ow)}"
    "{ow \<in> A. \<not> dry \<and> \<not> up_to_date r s1 ow} = {ow \<in> A. \<not> dry \<and> \<not> up_to_date r s' ow}"
    using same by auto
  have B: "{ow \<in> B. up_to_date r s1 ow} = {ow \<in> B. up_to_date r s ow}"
    "{ow \<in> B. \<not> up_to_date r s1 ow \<and> (dry \<or> up_to_date r s' ow)} =
      {ow \<in> B. \<not> up_to_date r s ow \<and> (dry \<or> up_to_date r s' ow)}"
    using same' by auto
  show ?thesis
    using assms(1,2) unfolding tally_def split A B by auto
qed

lemma rewrap_spec:
  assumes "sound r s" and "built r" and "key_of s ow = Some key"
    and "rewrap repo (wrapper_of r) env key src s = (e, s')"
  shows "if e = None then rekeyed r s s' \<and> up_to_date r s' ow \<and> (\<forall>ow'. ow' \<noteq> ow \<longrightarrow> key_of s' ow' = key_of s ow')
    else s' = s"
proof -
  note inv = sound_inv [OF assms(1)]
  have owner: "ok_Owner key = ow" "Owner_Validate ow = None" using key_owner [OF inv assms(3)] by auto
  have "usable r key" using assms(1,3) by (simp add: sound_def)
  then obtain dek where dek: "wr_Unwrap (wrapper_of r) (ok_WrappedKey key) = Inr dek"
    by (auto simp: usable_def)
  obtain blob where wrap: "wr_Wrap (wrapper_of r) (random_bytes env 0 12) dek = Inr (blob, wr_ActiveKeyID (wrapper_of r))"
    using wrap_ok [OF assms(2) unwrap_length [OF dek], of "random_bytes env 0 12"] by auto
  define k where "k = key\<lparr>ok_WrappedKey := blob, ok_WrapperKeyID := wr_ActiveKeyID (wrapper_of r)\<rparr>"
  show ?thesis
  proof (cases "NewAuditRecord env 1 (ve_now env 0) ActionOwnerKeyRewrapped (ok_Owner key) [] 0 (ok_KeyID key) src")
    case (Inl err)
    with assms(4) dek wrap show ?thesis by (auto simp: rewrap_def)
  next
    case (Inr rec)
    then have "vr_ReplaceOwnerKey repo (ve_err env 0) k (ok_KeyID key) [] (correlated env [rec]) s = (e, s')"
      using assms(4) dek wrap by (simp add: rewrap_def k_def)
    from replace_key [OF inv _ this] owner
    have "e \<noteq> None \<and> s' = s \<or>
        e = None \<and> inv s' \<and> key_of s' = (key_of s)(ow \<mapsto> normalizeKey k) \<and> secret_of s' = secret_of s \<and>
        appended (log_of s) (correlated env [rec]) (log_of s')"
      by (auto simp: k_def resealed_over_def)
    then show ?thesis
    proof
      assume "e \<noteq> None \<and> s' = s"
      then show ?thesis by auto
    next
      assume ok: "e = None \<and> inv s' \<and> key_of s' = (key_of s)(ow \<mapsto> normalizeKey k) \<and> secret_of s' = secret_of s \<and>
        appended (log_of s) (correlated env [rec]) (log_of s')"
      have new: "usable r (normalizeKey k)" "wr_Unwrap (wrapper_of r) (ok_WrappedKey (normalizeKey k)) = Inr dek"
        using new_key_usable [OF assms(2) unwrap_length [OF dek] _ wrap, of "normalizeKey k"]
        by (auto simp: k_def normalizeKey_def)
      have id: "ok_KeyID (normalizeKey k) = ok_KeyID key" "ok_WrapperKeyID (normalizeKey k) = wr_ActiveKeyID (wrapper_of r)"
        by (simp_all add: k_def normalizeKey_def)
      have held: "held r s' rf = held r s rf" for rf
        using ok new(2) id dek assms(3)
        by (cases "rf_Owner rf = ow") (auto simp: held_def readable_def vault_open_def split: option.splits)
      moreover have "sound r s'"
        unfolding sound_def using ok assms(1) new(1) held by (auto simp: sound_def)
      ultimately show ?thesis
        using ok id assms(3) appended_grows by (auto simp: rekeyed_def up_to_date_def)
    qed
  qed
qed

lemma tally_one:
  "tally r dry s s' {ow} rep rep' \<longleftrightarrow>
     rp_Skipped rep' = rp_Skipped rep + (if up_to_date r s ow then 1 else 0) \<and>
     rp_Rewrapped rep' = rp_Rewrapped rep + (if \<not> up_to_date r s ow \<and> (dry \<or> up_to_date r s' ow) then 1 else 0) \<and>
     int (length (rp_Failed rep')) = int (length (rp_Failed rep)) + (if \<not> dry \<and> \<not> up_to_date r s' ow then 1 else 0) \<and>
     set (rp_Failed rep') \<subseteq> set (rp_Failed rep) \<union> (if \<not> dry \<and> \<not> up_to_date r s' ow then {ow} else {}) \<union>
       {ok_Owner zero_owner_key}"
proof -
  have one: "{o' \<in> {ow}. P o'} = (if P ow then {ow} else {})" for P by auto
  show ?thesis unfolding tally_def one by simp
qed

lemma rewrap_one_spec:
  assumes "sound r s" and "built r" and "key_of s ow = Some key" and "tallied rep"
    and "rewrap_one repo (wrapper_of r) envs (wr_ActiveKeyID (wrapper_of r)) dryRun src key (rep, s) = (e, rep', s')"
  shows "rekeyed r s s' \<and> (\<forall>ow'. ow' \<noteq> ow \<longrightarrow> key_of s' ow' = key_of s ow') \<and> (dryRun \<longrightarrow> s' = s) \<and>
    rp_Scanned rep' = rp_Scanned rep + 1 \<and>
    (e = None \<longrightarrow> tallied rep' \<and> (rp_Failed rep' = [] \<longrightarrow> rp_Failed rep = [] \<and> (dryRun \<or> up_to_date r s' ow)) \<and>
       tally r dryRun s s' {ow} rep rep')"
proof (cases "ok_WrapperKeyID key = wr_ActiveKeyID (wrapper_of r) \<or> dryRun")
  case True
  obtain env1 getErr env2 where "envs = (env1, getErr, env2)" by (cases envs)
  with True have "e = None \<and> s' = s \<and> (dryRun \<or> up_to_date r s ow) \<and>
      rep' = (if up_to_date r s ow then rep\<lparr>rp_Scanned := rp_Scanned rep + 1, rp_Skipped := rp_Skipped rep + 1\<rparr>
        else rep\<lparr>rp_Scanned := rp_Scanned rep + 1, rp_Rewrapped := rp_Rewrapped rep + 1\<rparr>)"
    using assms(3,5)
    by (cases "ok_WrapperKeyID key = wr_ActiveKeyID (wrapper_of r)") (simp_all add: rewrap_one_def up_to_date_def Let_def)
  then show ?thesis using assms(1,4) by (auto simp: rekeyed_refl tallied_def tally_one)
next
  case False
  obtain env1 getErr env2 where envs: "envs = (env1, getErr, env2)" by (cases envs)
  obtain e1 s1 where one: "rewrap repo (wrapper_of r) env1 key src s = (e1, s1)" by fastforce
  note first = rewrap_spec [OF assms(1-3) one]
  have owner: "ok_Owner key = ow" "Owner_Validate ow = None" using key_owner [OF sound_inv [OF assms(1)] assms(3)] by auto
  define ended where "ended = (\<lambda>e2 s2. if e2 = (None :: error) then
      rekeyed r s s2 \<and> up_to_date r s2 ow \<and> (\<forall>ow'. ow' \<noteq> ow \<longrightarrow> key_of s2 ow' = key_of s ow') else s2 = s)"
  obtain k :: owner_key and e2 s2 where tried: "ended e2 s2" "k = key \<or> k = zero_owner_key"
    "(e, rep', s') = (case e2 of
        None \<Rightarrow> (None, rep\<lparr>rp_Scanned := rp_Scanned rep + 1, rp_Rewrapped := rp_Rewrapped rep + 1\<rparr>, s2)
      | Some x \<Rightarrow>
          if errors_is x ErrInvalidInput \<or> errors_is x ErrConflict \<or> errors_is x ErrNotFound
          then (None, rep\<lparr>rp_Scanned := rp_Scanned rep + 1, rp_Failed := rp_Failed rep @ [ok_Owner k]\<rparr>, s2)
          else (Some x, rep\<lparr>rp_Scanned := rp_Scanned rep + 1\<rparr>, s2))"
  proof (cases "error_is e1 ErrConflict")
    case conflict: True
    then have s1: "s1 = s" using first by (auto simp: error_is_def split: option.splits)
    obtain got s2 where get: "vr_GetOwnerKey repo getErr ow s = (got, s2)" by fastforce
    then have s2: "s2 = s" "\<And>k. got = Inr k \<Longrightarrow> k = key"
      using get_key [OF sound_inv [OF assms(1)] owner(2), of getErr] assms(3) by (auto split: option.splits)
    show ?thesis
    proof (cases got)
      case (Inl x)
      then show ?thesis
        using that [of "Some x" s zero_owner_key] assms(5) False envs one conflict s1 get s2 owner
        by (auto simp: rewrap_one_def ended_def Let_def cong: if_cong option.case_cong)
    next
      case (Inr k)
      obtain e3 s3 where two: "rewrap repo (wrapper_of r) env2 key src s = (e3, s3)" by fastforce
      show ?thesis
        using that [of e3 s3 key] rewrap_spec [OF assms(1-3) two] assms(5) False envs one conflict s1 get s2 owner Inr two
        by (auto simp: rewrap_one_def ended_def Let_def cong: if_cong option.case_cong)
    qed
  next
    case calm: False
    then show ?thesis
      using that [of e1 s1 key] first assms(5) False envs one by (auto simp: rewrap_one_def ended_def Let_def cong: if_cong option.case_cong)
  qed
  have behind: "\<not> up_to_date r s ow" using False assms(3) by (simp add: up_to_date_def)
  show ?thesis
  proof (cases e2)
    case None
    then have "rep' = rep\<lparr>rp_Scanned := rp_Scanned rep + 1, rp_Rewrapped := rp_Rewrapped rep + 1\<rparr>" "e = None" "s' = s2"
      using tried(3) by simp_all
    then show ?thesis
      using tried(1) None behind False assms(4) by (auto simp: ended_def tallied_def tally_one)
  next
    case (Some x)
    then have "s' = s" "rep' = rep\<lparr>rp_Scanned := rp_Scanned rep + 1, rp_Failed := rp_Failed rep @ [ok_Owner k]\<rparr> \<and> e = None \<or>
        rep' = rep\<lparr>rp_Scanned := rp_Scanned rep + 1\<rparr> \<and> e = Some x"
      using tried(1,3) by (auto simp: ended_def split: if_splits)
    then show ?thesis
      using tried(2) behind False assms(4) owner rekeyed_refl [OF assms(1)]
      by (auto simp: tallied_def tally_one)
  qed
qed


lemma rewrap_page_spec:
  "sound r s \<Longrightarrow> built r \<Longrightarrow> tallied rep \<Longrightarrow> distinct (map ok_Owner keys) \<Longrightarrow>
     (\<And>k. k \<in> set keys \<Longrightarrow> key_of s (ok_Owner k) = Some k) \<Longrightarrow>
     rewrap_page repo (wrapper_of r) envs (wr_ActiveKeyID (wrapper_of r)) dryRun src keys (rep, s) = (e, rep', s') \<Longrightarrow>
   rekeyed r s s' \<and> (\<forall>ow. ow \<notin> ok_Owner ` set keys \<longrightarrow> key_of s' ow = key_of s ow) \<and> (dryRun \<longrightarrow> s' = s) \<and>
   (e = None \<longrightarrow> tallied rep' \<and> rp_Scanned rep' = rp_Scanned rep + int (length keys) \<and>
     (rp_Failed rep' = [] \<longrightarrow> rp_Failed rep = [] \<and> (dryRun \<or> (\<forall>k\<in>set keys. up_to_date r s' (ok_Owner k)))) \<and>
     tally r dryRun s s' (ok_Owner ` set keys) rep rep')"
proof (induction keys arbitrary: rep s)
  case Nil
  then show ?case by (auto simp: rekeyed_refl tally_def)
next
  case (Cons key keys)
  have "key_of s (ok_Owner key) = Some key" using Cons.prems(5) by simp
  obtain e1 rep1 s1 where one: "rewrap_one repo (wrapper_of r) (envs (rp_Scanned rep)) (wr_ActiveKeyID (wrapper_of r)) dryRun
      src key (rep, s) = (e1, rep1, s1)" by (metis prod_cases3)
  note first = rewrap_one_spec [OF Cons.prems(1,2) \<open>key_of s (ok_Owner key) = Some key\<close> Cons.prems(3) one]
  have others: "ow \<noteq> ok_Owner key \<Longrightarrow> key_of s1 ow = key_of s ow" for ow using first by simp
  show ?case
  proof (cases e1)
    case (Some x)
    then have "e = e1 \<and> rep' = rep1 \<and> s' = s1" using Cons.prems(6) one by simp
    then show ?thesis using first Some by auto
  next
    case None
    then have rest: "rewrap_page repo (wrapper_of r) envs (wr_ActiveKeyID (wrapper_of r)) dryRun src keys (rep1, s1) = (e, rep', s')"
      using Cons.prems(6) one by simp
    have "key_of s1 (ok_Owner k) = Some k" if "k \<in> set keys" for k
    proof -
      have "ok_Owner k \<in> ok_Owner ` set keys" using that by simp
      moreover have "ok_Owner key \<notin> ok_Owner ` set keys" using Cons.prems(4) by simp
      ultimately have "ok_Owner k \<noteq> ok_Owner key" by metis
      then show ?thesis using others that Cons.prems(5) by simp
    qed
    then have ih: "rekeyed r s1 s' \<and> (\<forall>ow. ow \<notin> ok_Owner ` set keys \<longrightarrow> key_of s' ow = key_of s1 ow) \<and> (dryRun \<longrightarrow> s' = s1) \<and>
      (e = None \<longrightarrow> tallied rep' \<and> rp_Scanned rep' = rp_Scanned rep1 + int (length keys) \<and>
        (rp_Failed rep' = [] \<longrightarrow> rp_Failed rep1 = [] \<and> (dryRun \<or> (\<forall>k\<in>set keys. up_to_date r s' (ok_Owner k)))) \<and>
        tally r dryRun s1 s' (ok_Owner ` set keys) rep1 rep')"
      by (intro Cons.IH [OF _ Cons.prems(2) _ _ _ rest]) (use first None Cons.prems(4) in \<open>auto simp: rekeyed_def\<close>)
    have "ok_Owner key \<notin> ok_Owner ` set keys" using Cons.prems(4) by simp
    then have kept: "key_of s' (ok_Owner key) = key_of s1 (ok_Owner key)" using ih by blast
    have "tally r dryRun s s' ({ok_Owner key} \<union> ok_Owner ` set keys) rep rep'" if "e = None"
    proof (rule tally_join)
      show "tally r dryRun s s1 {ok_Owner key} rep rep1" using first None by blast
      show "tally r dryRun s1 s' (ok_Owner ` set keys) rep1 rep'" using ih that by blast
      show "key_of s1 ow = key_of s ow" if "ow \<in> ok_Owner ` set keys" for ow
        using others that \<open>ok_Owner key \<notin> ok_Owner ` set keys\<close> by metis
    qed (use kept \<open>ok_Owner key \<notin> ok_Owner ` set keys\<close> in auto)
    moreover have "up_to_date r s' (ok_Owner key) \<longleftrightarrow> up_to_date r s1 (ok_Owner key)" using kept by (simp add: up_to_date_def)
    ultimately show ?thesis using first None ih rekeyed_trans others by (auto simp del: rewrap_page.simps)
  qed
qed

text \<open>A page of owner keys behind a cursor.\<close>

definition owner_page :: "'s \<Rightarrow> string \<Rightarrow> owner_key list \<Rightarrow> string \<Rightarrow> bool" where
  "owner_page s after ks nxt \<longleftrightarrow> (nxt = [] \<or> after < nxt \<and> ks \<noteq> []) \<and> distinct ks \<and>
     set ks = {k. key_of s (ok_Owner k) = Some k \<and> after < Owner_String (ok_Owner k) \<and>
       (nxt = [] \<or> Owner_String (ok_Owner k) \<le> nxt)}"

lemma list_page:
  assumes "inv s" and "0 < limit" and "vr_ListOwnerKeys repo c after limit s = (g, s')"
  shows "s' = s" and "\<And>ks nxt. g = Inr (ks, nxt) \<Longrightarrow> owner_page s after ks nxt"
    and "c = None \<Longrightarrow> \<exists>ks nxt. g = Inr (ks, nxt)"
  using list_keys [OF assms] by (auto simp: owner_page_def split: option.splits)

definition owners_behind :: "'s \<Rightarrow> string \<Rightarrow> owner set" where
  "owners_behind s after = {ow. key_of s ow \<noteq> None \<and> after < Owner_String ow}"

lemma owner_page_facts:
  assumes "inv s" and "owner_page s after ks nxt"
  shows "\<And>k. k \<in> set ks \<Longrightarrow> key_of s (ok_Owner k) = Some k"
    and "distinct (map ok_Owner ks)"
    and "ok_Owner ` set ks = {ow \<in> owners_behind s after. nxt = [] \<or> Owner_String ow \<le> nxt}"
    and "nxt = [] \<Longrightarrow> card (owners_behind s after) = length ks"
    and "nxt \<noteq> [] \<Longrightarrow> card (owners_behind s after) = length ks + card (owners_behind s nxt)"
    and "nxt \<noteq> [] \<Longrightarrow> after < nxt \<and> 0 < length ks"
proof -
  have ks: "nxt = [] \<or> after < nxt \<and> ks \<noteq> []" "distinct ks"
    "set ks = {k. key_of s (ok_Owner k) = Some k \<and> after < Owner_String (ok_Owner k) \<and>
      (nxt = [] \<or> Owner_String (ok_Owner k) \<le> nxt)}"
    using assms(2) by (auto simp: owner_page_def)
  show current: "k \<in> set ks \<Longrightarrow> key_of s (ok_Owner k) = Some k" for k using ks(3) by blast
  then have inj: "inj_on ok_Owner (set ks)" by (intro inj_onI) (metis option.inject)
  with ks(2) show "distinct (map ok_Owner ks)" by (simp add: distinct_map)
  show owners: "ok_Owner ` set ks = {ow \<in> owners_behind s after. nxt = [] \<or> Owner_String ow \<le> nxt}"
  proof
    show "{ow \<in> owners_behind s after. nxt = [] \<or> Owner_String ow \<le> nxt} \<subseteq> ok_Owner ` set ks"
    proof
      fix ow assume ow: "ow \<in> {ow \<in> owners_behind s after. nxt = [] \<or> Owner_String ow \<le> nxt}"
      then obtain k where k: "key_of s ow = Some k" by (auto simp: owners_behind_def)
      moreover have "ok_Owner k = ow" using key_owner [OF assms(1) k] by blast
      ultimately show "ow \<in> ok_Owner ` set ks" using ow ks(3) by (force simp: owners_behind_def)
    qed
  qed (use ks(3) in \<open>auto simp: owners_behind_def\<close>)
  have count: "card (ok_Owner ` set ks) = length ks" using ks(2) inj by (simp add: card_image distinct_card)
  show "nxt = [] \<Longrightarrow> card (owners_behind s after) = length ks" using owners count by simp
  show more: "nxt \<noteq> [] \<Longrightarrow> after < nxt \<and> 0 < length ks" using ks(1) by auto
  show "card (owners_behind s after) = length ks + card (owners_behind s nxt)" if ne: "nxt \<noteq> []"
  proof -
    have split: "owners_behind s after = ok_Owner ` set ks \<union> owners_behind s nxt" "ok_Owner ` set ks \<inter> owners_behind s nxt = {}"
      using owners more [OF ne] ne by (auto simp: owners_behind_def)
    have "finite (owners_behind s nxt)"
      by (rule finite_subset [OF _ finite_keys [OF assms(1)]]) (auto simp: owners_behind_def)
    then have "card (owners_behind s after) = card (ok_Owner ` set ks) + card (owners_behind s nxt)"
      unfolding split(1) using card_Un_disjoint [OF _ _ split(2)] by simp
    then show ?thesis using count by simp
  qed
qed

lemma rekeyed_behind: "rekeyed r s s' \<Longrightarrow> owners_behind s' after = owners_behind s after"
  using rekeyed_dom by (simp add: owners_behind_def del: not_None_eq)

text \<open>
  The loop ends: every page that is not the last has a key, and the next one starts behind it.  It
  visits every owner behind its cursor.
\<close>

lemma rewrap_loop_spec:
  assumes "built r" and "0 < page"
  shows "sound r s \<Longrightarrow> tallied rep \<Longrightarrow>
    \<exists>e rep' s'. rewrap_loop repo (wrapper_of r) listErr envs (wr_ActiveKeyID (wrapper_of r)) page dryRun src n after (rep, s) =
        Some (e, rep', s') \<and>
      rekeyed r s s' \<and> (\<forall>ow. Owner_String ow \<le> after \<longrightarrow> key_of s' ow = key_of s ow) \<and> (dryRun \<longrightarrow> s' = s) \<and>
      (e = None \<longrightarrow> tallied rep' \<and> rp_Scanned rep' = rp_Scanned rep + int (card (owners_behind s after)) \<and>
        (rp_Failed rep' = [] \<longrightarrow> rp_Failed rep = [] \<and> (dryRun \<or> (\<forall>ow\<in>owners_behind s after. up_to_date r s' ow))) \<and>
        tally r dryRun s s' (owners_behind s after) rep rep')"
proof (induction "card (owners_behind s after)" arbitrary: s rep n after rule: less_induct)
  case less
  note inv = sound_inv [OF less.prems(1)]
  let ?loop = "rewrap_loop repo (wrapper_of r) listErr envs (wr_ActiveKeyID (wrapper_of r)) page dryRun src"
  obtain g s1 where list: "vr_ListOwnerKeys repo (listErr n) after page s = (g, s1)" by fastforce
  note listed = list_page [OF inv assms(2) list]
  show ?case
  proof (cases g)
    case (Inl x)
    then have "?loop n after (rep, s) = Some (Some x, rep, s)"
      using list listed(1) by (subst rewrap_loop.simps) simp
    then show ?thesis using rekeyed_refl [OF less.prems(1)] by auto
  next
    case (Inr kn)
    then obtain ks nxt where g: "g = Inr (ks, nxt)" by (cases kn) auto
    note ks = owner_page_facts [OF inv listed(2) [OF g]]
    obtain e1 rep1 s2 where page: "rewrap_page repo (wrapper_of r) envs (wr_ActiveKeyID (wrapper_of r)) dryRun src ks (rep, s) =
        (e1, rep1, s2)" by (metis prod_cases3)
    note paged = rewrap_page_spec [OF less.prems(1) assms(1) less.prems(2) ks(2,1) page]
    have behind: "key_of s2 ow = key_of s ow" if "Owner_String ow \<le> after" for ow
    proof -
      have "ow \<notin> ok_Owner ` set ks" using that ks(3) by (auto simp: owners_behind_def not_less [symmetric])
      then show ?thesis using paged by blast
    qed
    have visited: "up_to_date r s2 ow"
      if "rp_Failed rep1 = []" "e1 = None" "\<not> dryRun" "ow \<in> ok_Owner ` set ks" for ow
      using that paged by auto
    have step: "?loop n after (rep, s) =
        (case e1 of Some x \<Rightarrow> Some (Some x, rep1, s2)
         | None \<Rightarrow> if nxt = [] then Some (None, rep1, s2) else ?loop (Suc n) nxt (rep1, s2))"
      using list listed(1) g page by (subst rewrap_loop.simps) (simp split: option.splits)
    show ?thesis
    proof (cases "e1 = None \<and> nxt \<noteq> []")
      case False
      show ?thesis
      proof (cases e1)
        case (Some x)
        then show ?thesis using step paged behind by auto
      next
        case None
        with False have last: "nxt = []" by simp
        then have all: "ok_Owner ` set ks = owners_behind s after" using ks(3) by simp
        then have "rp_Failed rep1 = [] \<longrightarrow> \<not> dryRun \<longrightarrow> (\<forall>ow\<in>owners_behind s after. up_to_date r s2 ow)"
          using visited None by blast
        moreover have "tally r dryRun s s2 (owners_behind s after) rep rep1" using paged None all by auto
        ultimately show ?thesis using step paged behind ks(4) [OF last] None last by auto
      qed
    next
      case True
      then have same: "owners_behind s2 nxt = owners_behind s nxt" using rekeyed_behind paged by blast
      then have card: "card (owners_behind s after) = length ks + card (owners_behind s2 nxt)" using ks(5) True by simp
      then have "card (owners_behind s2 nxt) < card (owners_behind s after)" using ks(6) True by simp
      from less.hyps [OF this, of rep1 "Suc n"] paged True
      obtain e rep' s' where ih: "?loop (Suc n) nxt (rep1, s2) = Some (e, rep', s')"
        "rekeyed r s2 s'" "\<forall>ow. Owner_String ow \<le> nxt \<longrightarrow> key_of s' ow = key_of s2 ow" "dryRun \<longrightarrow> s' = s2"
        "e = None \<longrightarrow> tallied rep' \<and> rp_Scanned rep' = rp_Scanned rep1 + int (card (owners_behind s2 nxt)) \<and>
          (rp_Failed rep' = [] \<longrightarrow> rp_Failed rep1 = [] \<and> (dryRun \<or> (\<forall>ow\<in>owners_behind s2 nxt. up_to_date r s' ow))) \<and>
          tally r dryRun s2 s' (owners_behind s2 nxt) rep1 rep'"
        by (auto simp: rekeyed_def)
      have "up_to_date r s' ow"
        if ok: "rp_Failed rep' = []" "e = None" "\<not> dryRun" and ow: "ow \<in> owners_behind s after" for ow
      proof (cases "Owner_String ow \<le> nxt")
        case in_page: True
        then have "up_to_date r s2 ow" using visited ih(5) True ok ow ks(3) by blast
        then show ?thesis using ih(3) in_page by (simp add: up_to_date_def)
      next
        case False
        then have "ow \<in> owners_behind s2 nxt" using ow same by (auto simp: owners_behind_def)
        then show ?thesis using ok ih(5) by blast
      qed
      moreover have "tally r dryRun s s' (owners_behind s after) rep rep'" if "e = None"
      proof -
        have "owners_behind s after = ok_Owner ` set ks \<union> owners_behind s2 nxt"
          "ok_Owner ` set ks \<inter> owners_behind s2 nxt = {}"
          using ks(3,6) True unfolding same by (auto simp: owners_behind_def)
        moreover have "finite (owners_behind s2 nxt)"
          unfolding same by (rule finite_subset [OF _ finite_keys [OF inv]]) (auto simp: owners_behind_def)
        moreover have "key_of s' ow = key_of s2 ow" if "ow \<in> ok_Owner ` set ks" for ow
          using that ks(3) True ih(3) by blast
        moreover have "key_of s2 ow = key_of s ow" if "ow \<in> owners_behind s2 nxt" for ow
          using that calculation(2) paged by blast
        ultimately show ?thesis
          using tally_join [of r dryRun s s2 "ok_Owner ` set ks" rep rep1 s' "owners_behind s2 nxt" rep'] paged ih(5) True that
          by simp
      qed
      moreover have "key_of s' ow = key_of s ow" if "Owner_String ow \<le> after" for ow
      proof -
        have "Owner_String ow \<le> nxt" using that True ks(6) by auto
        then show ?thesis using ih(3) behind [OF that] by simp
      qed
      moreover have "rekeyed r s s'" using rekeyed_trans paged ih(2) by blast
      ultimately show ?thesis
        using step True ih paged card by auto
    qed
  qed
qed

lemma RewrapOwnerKeys_spec:
  assumes "sound r s" and "built r"
  shows "\<exists>e rep s'. RewrapOwnerKeys repo (wrapper_of r) listErr envs src opts s = Some (e, rep, s') \<and>
    rekeyed r s s' \<and> (ro_DryRun opts \<longrightarrow> s' = s) \<and>
    (e = None \<longrightarrow> tallied rep \<and> rp_Scanned rep = int (card {ow. key_of s ow \<noteq> None}) \<and>
      (rp_Failed rep = [] \<longrightarrow> ro_DryRun opts \<or> (\<forall>ow. key_of s' ow \<noteq> None \<longrightarrow> up_to_date r s' ow)) \<and>
      tally r (ro_DryRun opts) s s' {ow. key_of s ow \<noteq> None} zero_report rep)"
proof (cases "Source_Validate src")
  case (Some err)
  then show ?thesis using rekeyed_refl [OF assms(1)] by (simp add: RewrapOwnerKeys_def)
next
  case None
  have "[] < Owner_String ow" for ow by (cases "ow_Type ow") (auto simp: Owner_String_def)
  then have all: "owners_behind s [] = {ow. key_of s ow \<noteq> None}" by (auto simp: owners_behind_def)
  have page: "0 < (if ro_Page opts \<le> 0 then DefaultPage else ro_Page opts)" by (simp add: DefaultPage_def)
  obtain e rep s' where run: "RewrapOwnerKeys repo (wrapper_of r) listErr envs src opts s = Some (e, rep, s')"
    "rekeyed r s s'" "ro_DryRun opts \<longrightarrow> s' = s"
    "e = None \<longrightarrow> tallied rep \<and> rp_Scanned rep = int (card {ow. key_of s ow \<noteq> None}) \<and>
      (rp_Failed rep = [] \<longrightarrow> ro_DryRun opts \<or> (\<forall>ow. key_of s ow \<noteq> None \<longrightarrow> up_to_date r s' ow)) \<and>
      tally r (ro_DryRun opts) s s' {ow. key_of s ow \<noteq> None} zero_report rep"
    using rewrap_loop_spec [OF assms(2) page assms(1), of zero_report listErr envs "ro_DryRun opts" src 0 "[]"] None all
    by (auto simp: RewrapOwnerKeys_def tallied_def zero_report_def)
  have "key_of s' ow = None \<longleftrightarrow> key_of s ow = None" for ow using rekeyed_dom run(2) by blast
  then show ?thesis using run by (simp del: not_None_eq)
qed

text \<open>
  Changing the wrapper: a store whose keys are all under wrapper keys that the second wrapper shares
  holds the same under the second.
\<close>

lemma held_shared:
  assumes "sound r s" and "\<And>ow k. key_of s ow = Some k \<Longrightarrow> shares r r' (ok_WrapperKeyID k)"
  shows "sound r' s \<and> held r' s = held r s"
proof -
  have key: "wr_Unwrap (wrapper_of r') (ok_WrappedKey k) = wr_Unwrap (wrapper_of r) (ok_WrappedKey k) \<and> usable r' k"
    if "key_of s ow = Some k" for ow k
  proof -
    have "usable r k" using assms(1) that by (simp add: sound_def)
    then show ?thesis using unwrap_shared [OF assms(2) [OF that]] by (auto simp: usable_def)
  qed
  have "held r' s rf = held r s rf" for rf
    using key by (auto simp: held_def readable_def vault_open_def split: option.splits)
  then have "held r' s = held r s" by blast
  moreover have "sound r' s" using assms(1) key calculation by (auto simp: sound_def)
  ultimately show ?thesis by blast
qed

end

end
