(* ===== verification/Vault_Live.thy ===== *)
theory Vault_Live
  imports Rotation
begin

text \<open>
  When the operations of the secrets services succeed: with the context live, the random source working
  and the new audit ids unused, on any repository and wrapper that meet their contracts.  Without this
  the results of theories Vault and Rotation, which say what a success means, could hold for services
  that always fail.
\<close>

definition live :: "vault_env \<Rightarrow> bool" where
  "live env \<longleftrightarrow> (\<forall>i. ve_err env i = None) \<and> (\<forall>i. ve_randErr env i = None)"

text \<open>The id \<open>NewAuditRecord\<close> gives: the time in hex, then eight random bytes in hex.\<close>

definition audit_id :: "vault_env \<Rightarrow> nat \<Rightarrow> time \<Rightarrow> string" where
  "audit_id env i t = sprintf_016x (UnixNano (utc t)) @ hex_encode (random_bytes env i 8)"

lemma audit_id_utc [simp]: "audit_id env i (utc t) = audit_id env i t"
  by (simp add: audit_id_def)

lemma NewAuditRecord_live:
  assumes "live env"
  obtains rec where "NewAuditRecord env i now act ow name version keyID src = Inr rec"
    and "au_ID rec = audit_id env i now" and "au_Action rec = act" and "au_Outcome rec = OutcomeOK"
  using assms by (simp add: NewAuditRecord_def rand_Read_def live_def audit_id_def)

lemma audit_id_ne: "audit_id env i t \<noteq> []"
  by (simp add: audit_id_def hex_encode_Nil random_bytes_def)

lemma correlated_one:
  "map au_ID (correlated env [rec]) = [au_ID rec]" "map au_ID (map recorded (correlated env [rec])) = [au_ID rec]"
  by (simp_all add: correlated_def Correlate_def recorded_def)

lemma new_record_acceptable:
  assumes "au_ID rec = audit_id env i t" and "audit_id env i t \<notin> au_ID ` set log"
    and "au_Action rec \<in> set audit_actions" and "au_Outcome rec = OutcomeOK"
  shows "acceptable (correlated env' [rec]) log"
proof -
  have "OutcomeOK \<in> set audit_outcomes" by code_simp
  then show ?thesis
    using assms audit_id_ne [of env i t] by (simp add: acceptable_def correlated_def Correlate_def)
qed

lemma service_actions:
  "ActionOwnerKeyCreated \<in> set audit_actions" "ActionSecretPut \<in> set audit_actions"
  "ActionOwnerKeyRotated \<in> set audit_actions" "ActionOwnerKeyRewrapped \<in> set audit_actions"
  by code_simp+

lemma appended_ids: "appended log au log' \<Longrightarrow> au_ID ` set log' = au_ID ` set log \<union> au_ID ` set au"
proof -
  assume "appended log au log'"
  then have "image_mset au_ID (mset log') = image_mset au_ID (mset log) + image_mset au_ID (mset (map recorded au))"
    unfolding appended_def by simp
  then have "set_mset (image_mset au_ID (mset log')) =
      set_mset (image_mset au_ID (mset log)) \<union> set_mset (image_mset au_ID (mset (map recorded au)))" by simp
  then show ?thesis by (simp add: recorded_def image_image)
qed

text \<open>Rewrapping; attempt \<open>i\<close> of a run records under \<open>rewrap_id envs i\<close>.\<close>

definition rewrap_id :: "(int \<Rightarrow> vault_env \<times> error \<times> vault_env) \<Rightarrow> int \<Rightarrow> string" where
  "rewrap_id envs i = audit_id (fst (envs i)) 1 (ve_now (fst (envs i)) 0)"

context vault begin

lemma ownerKey_live:
  assumes "sound r s" and "built r" and "Owner_Validate ow = None" and "live env"
    and "audit_id env 3 (ve_now env 0) \<notin> au_ID ` set (log_of s)"
  shows "\<exists>k dek s'. ownerKey repo (wrapper_of r) env ow src s = (Inr (k, dek), s') \<and>
    au_ID ` set (log_of s') \<subseteq> insert (audit_id env 3 (ve_now env 0)) (au_ID ` set (log_of s))"
proof -
  note inv = sound_inv [OF assms(1)]
  have errs: "ve_err env i = None" "ve_randErr env i = None" for i using assms(4) by (auto simp: live_def)
  show ?thesis
  proof (cases "key_of s ow")
    case (Some k)
    moreover have "usable r k" using assms(1) Some by (simp add: sound_def)
    ultimately show ?thesis
      using errs get_key [OF inv assms(3)] by (auto simp: ownerKey_def usable_def)
  next
    case None
    then have got: "vr_GetOwnerKey repo (ve_err env 0) ow s = (Inl ErrNotFound, s)" "errors_is ErrNotFound ErrNotFound"
      using errs get_key [OF inv assms(3)] by auto
    obtain dek where dek: "NewDataKey env 0 = Inr dek" using errs by (simp add: NewDataKey_def rand_Read_def)
    obtain k where k: "wrapKey (wrapper_of r) env ow dek = Inr k"
      using errs wrap_ok [OF assms(2) NewDataKey_length [OF dek], of "random_bytes env 2 12"]
      by (auto simp: wrapKey_def NewOwnerKeyID_def rand_Read_def Let_def)
    have created: "ok_CreatedAt k = utc (ve_now env 0)"
      using k by (auto simp: wrapKey_def Let_def split: sum.splits)
    obtain rec where rec: "NewAuditRecord env 3 (ok_CreatedAt k) ActionOwnerKeyCreated ow [] 0 (ok_KeyID k) src = Inr rec"
      "au_ID rec = audit_id env 3 (ve_now env 0)" "au_Action rec = ActionOwnerKeyCreated" "au_Outcome rec = OutcomeOK"
      using NewAuditRecord_live [OF assms(4)] created by (metis audit_id_utc)
    note built = wrapKey_built [OF assms(2) NewDataKey_length [OF dek] k]
    obtain e s2 where create: "vr_CreateOwnerKey repo None k (correlated env [rec]) s = (e, s2)" by fastforce
    have "acceptable (correlated env [rec]) (log_of s)"
      by (rule new_record_acceptable [OF rec(2) assms(5)]) (use rec service_actions in auto)
    then have "e = None"
      using create_key_ok [OF inv, of k "correlated env [rec]"] None built(1) assms(3) create by simp
    then have "appended (log_of s) (correlated env [rec]) (log_of s2)"
      using create_key [OF inv _ create] built(1) assms(3) by auto
    from appended_ids [OF this] have "au_ID ` set (log_of s2) = insert (au_ID rec) (au_ID ` set (log_of s))"
      by (simp add: correlated_def Correlate_def)
    then show ?thesis
      using got dek k rec create \<open>e = None\<close> errs by (auto simp: ownerKey_def)
  qed
qed

lemma Put_live:
  assumes "sound r s" and "built r" and "Ref_Validate rf = None" and "Source_Validate src = None" and "live env"
    and "v \<noteq> []" and "int (length v) \<le> MaxValueBytes"
    and "audit_id env 3 (ve_now env 0) \<notin> au_ID ` set (log_of s)"
    and "audit_id env 5 (ve_now env 1) \<notin> insert (audit_id env 3 (ve_now env 0)) (au_ID ` set (log_of s))"
  shows "\<exists>m s'. Vault_Put repo (wrapper_of r) env rf v src s = (Inr m, s') \<and>
    au_ID ` set (log_of s') \<subseteq>
      {audit_id env 3 (ve_now env 0), audit_id env 5 (ve_now env 1)} \<union> au_ID ` set (log_of s)"
proof -
  have valid: "Owner_Validate (rf_Owner rf) = None" using assms(3) by (simp add: Ref_Validate_iff)
  obtain k dek s1 where key: "ownerKey repo (wrapper_of r) env (rf_Owner rf) src s = (Inr (k, dek), s1)"
    "au_ID ` set (log_of s1) \<subseteq> insert (audit_id env 3 (ve_now env 0)) (au_ID ` set (log_of s))"
    using ownerKey_live [OF assms(1,2) valid assms(5,8)] by blast
  note spec = ownerKey_spec [OF assms(1,2) valid key(1)]
  then have s1: "sound r s1" "key_of s1 (rf_Owner rf) = Some k" "wr_Unwrap (wrapper_of r) (ok_WrappedKey k) = Inr dek" by auto
  obtain c where c: "Seal (random_bytes env 4 12) dek rf v = Inr c"
    using Open_Seal [OF unwrap_length [OF s1(3)], of "random_bytes env 4 12"] by auto
  obtain rec where rec: "NewAuditRecord env 5 (ve_now env 1) ActionSecretPut (rf_Owner rf) (rf_Name rf) 0 (ok_KeyID k) src = Inr rec"
    "au_ID rec = audit_id env 5 (ve_now env 1)" "au_Action rec = ActionSecretPut" "au_Outcome rec = OutcomeOK"
    using NewAuditRecord_live [OF assms(5)] by metis
  define x where "x = \<lparr>ss_Ref = rf, ss_Version = 0, ss_KeyID = ok_KeyID k, ss_Ciphertext = c,
      ss_CreatedAt = ve_now env 1, ss_UpdatedAt = ve_now env 1\<rparr>"
  have "acceptable (correlated env [rec]) (log_of s1)"
    by (rule new_record_acceptable [OF rec(2)]) (use rec key(2) assms(9) service_actions in auto)
  moreover have "correlated env [rec] = [hd (correlated env [rec])]" by (simp add: correlated_def Correlate_def)
  ultimately obtain y where "fst (vr_PutSecret repo None x (hd (correlated env [rec])) s1) = Inr y"
    using put_secret_ok [OF sound_inv [OF s1(1)], of x "hd (correlated env [rec])"] assms(3) s1(2)
    by (auto simp: x_def)
  then obtain s2 where put: "vr_PutSecret repo None x (hd (correlated env [rec])) s1 = (Inr y, s2)"
    by (metis prod.collapse)
  then obtain ver where app: "appended (log_of s1) [(hd (correlated env [rec]))\<lparr>au_Version := ver\<rparr>] (log_of s2)"
    using put_secret [OF sound_inv [OF s1(1)] _ put] assms(3) by (auto simp: x_def)
  then have "au_ID ` set (log_of s2) = insert (au_ID rec) (au_ID ` set (log_of s1))"
    using appended_ids [OF app] by (simp add: correlated_def Correlate_def)
  then have "au_ID ` set (log_of s2) \<subseteq>
      {audit_id env 3 (ve_now env 0), audit_id env 5 (ve_now env 1)} \<union> au_ID ` set (log_of s)"
    unfolding rec(2) using key(2) by (auto simp del: image_iff)
  then show ?thesis
    using assms(3-7) key(1) c rec(1) put by (simp add: Vault_Put_def validateRequest_def Let_def x_def live_def)
qed

lemma sealed_under_key:
  assumes "sound r s" and "key_of s (rf_Owner rf) = Some k" and "secret_of s rf = Some sec"
    and "wr_Unwrap (wrapper_of r) (ok_WrappedKey k) = Inr dek"
  shows "ss_KeyID sec = ok_KeyID k \<and> (\<exists>v. held r s rf = Some v \<and> Open dek rf (ss_Ciphertext sec) = Inr v)"
proof -
  have "held r s rf \<noteq> None" using assms(1,3) by (simp add: sound_def)
  then show ?thesis
    using assms(2-4) by (auto simp: held_def readable_def vault_open_def split: if_splits sum.splits)
qed

lemma reseal_all_live:
  assumes "length newDEK = 32"
  shows "(\<And>sec. sec \<in> set secs \<Longrightarrow> ss_KeyID sec = ok_KeyID old \<and> (\<exists>v. Open oldDEK (ss_Ref sec) (ss_Ciphertext sec) = Inr v)) \<Longrightarrow>
     \<exists>cs. reseal_all env i now old oldDEK keyID newDEK secs = Inr cs"
proof (induction secs arbitrary: i)
  case (Cons sec secs)
  then obtain v where v: "ss_KeyID sec = ok_KeyID old" "Open oldDEK (ss_Ref sec) (ss_Ciphertext sec) = Inr v"
    by (meson list.set_intros(1))
  obtain c where "Seal (random_bytes env i 12) newDEK (ss_Ref sec) v = Inr c"
    using Open_Seal [OF assms] length_random_bytes by meson
  moreover obtain cs where "reseal_all env (Suc i) now old oldDEK keyID newDEK secs = Inr cs"
    using Cons by (meson list.set_intros(2))
  ultimately show ?case using v by simp
qed simp

text \<open>What a rotation has prepared when it comes to replace the key.\<close>

lemma rotation_prepares:
  assumes "sound r s" and "built r" and "key_of s ow = Some old" and "live env"
  obtains oldDEK secs newDEK keyID cs blob rec where
    "wr_Unwrap (wrapper_of r) (ok_WrappedKey old) = Inr oldDEK"
    "vr_ListSealedSecrets repo None ow s = (Inr secs, s)"
    "set secs = {sec. secret_of s (ss_Ref sec) = Some sec \<and> rf_Owner (ss_Ref sec) = ow}"
    "distinct (map ss_Ref secs)" "NewDataKey env 0 = Inr newDEK" "NewOwnerKeyID env 1 = Inr keyID"
    "reseal_all env 4 (utc (ve_now env 0)) old oldDEK keyID newDEK secs = Inr cs"
    "wr_Wrap (wrapper_of r) (random_bytes env 2 12) newDEK = Inr (blob, wr_ActiveKeyID (wrapper_of r))"
    "NewAuditRecord env 3 (utc (ve_now env 0)) ActionOwnerKeyRotated ow [] 0 keyID src = Inr rec"
    "au_ID rec = audit_id env 3 (ve_now env 0)" "au_Action rec = ActionOwnerKeyRotated" "au_Outcome rec = OutcomeOK"
    "ss_Ref ` set cs = ss_Ref ` set secs"
proof -
  note inv = sound_inv [OF assms(1)]
  have errs: "ve_randErr env i = None" for i using assms(4) by (auto simp: live_def)
  have "usable r old" using assms(1,3) by (simp add: sound_def)
  then obtain oldDEK where oldDEK: "wr_Unwrap (wrapper_of r) (ok_WrappedKey old) = Inr oldDEK" by (auto simp: usable_def)
  obtain l s2 where list: "vr_ListSealedSecrets repo None ow s = (l, s2)" by fastforce
  from list_sealed [OF inv list] obtain secs where secs: "l = Inr secs" "s2 = s"
    "set secs = {sec. secret_of s (ss_Ref sec) = Some sec \<and> rf_Owner (ss_Ref sec) = ow}" "distinct (map ss_Ref secs)"
    using listed_refs_distinct by auto
  have listed: "secret_of s (ss_Ref sec) = Some sec" "rf_Owner (ss_Ref sec) = ow" if "sec \<in> set secs" for sec
    using that secs(3) by simp_all
  have old: "ss_KeyID sec = ok_KeyID old \<and> (\<exists>v. Open oldDEK (ss_Ref sec) (ss_Ciphertext sec) = Inr v)"
    if "sec \<in> set secs" for sec
    using sealed_under_key [OF assms(1) _ listed(1) [OF that] oldDEK] listed(2) [OF that] assms(3) by blast
  obtain newDEK where dek: "NewDataKey env 0 = Inr newDEK" using errs by (simp add: NewDataKey_def rand_Read_def)
  obtain keyID where kid: "NewOwnerKeyID env 1 = Inr keyID" using errs by (simp add: NewOwnerKeyID_def rand_Read_def)
  obtain cs where cs: "reseal_all env 4 (utc (ve_now env 0)) old oldDEK keyID newDEK secs = Inr cs"
    using reseal_all_live [OF NewDataKey_length [OF dek] old] by blast
  obtain blob where wrap: "wr_Wrap (wrapper_of r) (random_bytes env 2 12) newDEK = Inr (blob, wr_ActiveKeyID (wrapper_of r))"
    using wrap_ok [OF assms(2) NewDataKey_length [OF dek], of "random_bytes env 2 12"] by auto
  obtain rec where rec: "NewAuditRecord env 3 (utc (ve_now env 0)) ActionOwnerKeyRotated ow [] 0 keyID src = Inr rec"
    "au_ID rec = audit_id env 3 (ve_now env 0)" "au_Action rec = ActionOwnerKeyRotated" "au_Outcome rec = OutcomeOK"
    using NewAuditRecord_live [OF assms(4)] by (metis audit_id_utc)
  have "map ss_Ref cs = map ss_Ref secs"
    using reseal_all_spec [OF NewDataKey_length [OF dek] cs] by (induction rule: list_all2_induct) (auto simp: resealed_as_def)
  then have "ss_Ref ` set cs = ss_Ref ` set secs" by (metis list.set_map)
  then show ?thesis
    using that [of oldDEK secs newDEK keyID cs blob rec] oldDEK list secs dek kid cs wrap rec by blast
qed

lemma RotateOwnerKey_live:
  assumes "sound r s" and "built r" and "key_of s ow = Some old" and "Source_Validate src = None" and "live env"
    and "audit_id env 3 (ve_now env 0) \<notin> au_ID ` set (log_of s)"
  shows "\<exists>s'. RotateOwnerKey repo (wrapper_of r) env ow src s = (None, s') \<and>
    au_ID ` set (log_of s') = insert (audit_id env 3 (ve_now env 0)) (au_ID ` set (log_of s))"
proof -
  note inv = sound_inv [OF assms(1)]
  have errs: "ve_err env i = None" for i using assms(5) by (auto simp: live_def)
  have owner: "Owner_Validate ow = None" using key_owner [OF inv assms(3)] by blast
  obtain oldDEK secs newDEK keyID cs blob rec where prep:
    "wr_Unwrap (wrapper_of r) (ok_WrappedKey old) = Inr oldDEK"
    "vr_ListSealedSecrets repo None ow s = (Inr secs, s)"
    "set secs = {sec. secret_of s (ss_Ref sec) = Some sec \<and> rf_Owner (ss_Ref sec) = ow}"
    "NewDataKey env 0 = Inr newDEK" "NewOwnerKeyID env 1 = Inr keyID"
    "reseal_all env 4 (utc (ve_now env 0)) old oldDEK keyID newDEK secs = Inr cs"
    "wr_Wrap (wrapper_of r) (random_bytes env 2 12) newDEK = Inr (blob, wr_ActiveKeyID (wrapper_of r))"
    "NewAuditRecord env 3 (utc (ve_now env 0)) ActionOwnerKeyRotated ow [] 0 keyID src = Inr rec"
    "au_ID rec = audit_id env 3 (ve_now env 0)" "au_Action rec = ActionOwnerKeyRotated" "au_Outcome rec = OutcomeOK"
    "ss_Ref ` set cs = ss_Ref ` set secs"
    by (rule rotation_prepares [OF assms(1-3,5), of src])
  have refs: "rf_Owner (ss_Ref c) = ow \<and> secret_of s (ss_Ref c) \<noteq> None" if "c \<in> set cs" for c
  proof -
    have "ss_Ref c \<in> ss_Ref ` set secs" using that prep(12) by blast
    then obtain sec where "sec \<in> set secs" "ss_Ref c = ss_Ref sec" by (rule imageE)
    then show ?thesis using prep(3) by simp
  qed
  have "acceptable (correlated env [rec]) (log_of s)"
    by (rule new_record_acceptable [OF prep(9) assms(6)]) (use prep service_actions in auto)
  moreover define k where "k = \<lparr>ok_Owner = ow, ok_KeyID = keyID, ok_WrappedKey = blob,
      ok_WrapperKeyID = wr_ActiveKeyID (wrapper_of r), ok_CreatedAt = ok_CreatedAt old, ok_RotatedAt = utc (ve_now env 0)\<rparr>"
  ultimately have ok: "fst (vr_ReplaceOwnerKey repo None k (ok_KeyID old) cs (correlated env [rec]) s) = None"
    by (intro replace_key_ok [OF inv]) (use refs assms(3) in \<open>auto simp: k_def\<close>)
  then obtain s' where replace: "vr_ReplaceOwnerKey repo None k (ok_KeyID old) cs (correlated env [rec]) s = (None, s')"
    by (metis prod.collapse)
  then have "appended (log_of s) (correlated env [rec]) (log_of s')"
    using replace_key [OF inv _ replace] owner by (auto simp: k_def)
  from appended_ids [OF this] have "au_ID ` set (log_of s') = insert (au_ID rec) (au_ID ` set (log_of s))"
    by (simp add: correlated_def Correlate_def)
  then show ?thesis
    using replace RotateOwnerKey_calls [of ow src repo env s old s _ oldDEK secs s newDEK keyID cs blob _ rec]
      assms(3,4) owner prep get_key [OF inv owner] errs by (simp add: validateRequest_def k_def)
qed

text \<open>Offboarding: one record per secret, numbered from zero, and one for the key.\<close>

lemma deletion_records_live:
  assumes "live env"
  shows "\<exists>recs. deletion_records env i now ow src secs = Inr recs \<and> length recs = length secs \<and>
    map au_ID recs = map (\<lambda>j. audit_id env j now) [i..<i + length secs]"
proof (induction secs arbitrary: i)
  case (Cons sec secs)
  obtain rec where "NewAuditRecord env i now ActionSecretDeleted ow (rf_Name (sm_Ref sec)) (sm_Version sec) (sm_KeyID sec) src =
      Inr rec" "au_ID rec = audit_id env i now"
    using NewAuditRecord_live [OF assms] by metis
  moreover obtain recs where "deletion_records env (Suc i) now ow src secs = Inr recs" "length recs = length secs"
    "map au_ID recs = map (\<lambda>j. audit_id env j now) [Suc i..<Suc i + length secs]"
    using Cons.IH [of "Suc i"] by blast
  ultimately show ?case by (simp add: upt_conv_Cons del: upt_Suc)
qed simp

lemma DeleteOwner_live:
  assumes "sound r s" and "key_of s ow = Some k" and "Source_Validate src = None" and "live (envs 0)"
    and "n = card {rf_Name rf | rf. rf_Owner rf = ow \<and> secret_of s rf \<noteq> None}"
    and "inj_on (\<lambda>i. audit_id (envs 0) i (ve_now (envs 0) 0)) {0..n}"
    and "(\<lambda>i. audit_id (envs 0) i (ve_now (envs 0) 0)) ` {0..n} \<inter> au_ID ` set (log_of s) = {}"
  shows "\<exists>s'. Vault_DeleteOwner repo envs ow src s = (None, s')"
proof -
  note inv = sound_inv [OF assms(1)]
  let ?now = "ve_now (envs 0) 0"
  let ?names = "{rf_Name rf | rf. rf_Owner rf = ow \<and> secret_of s rf \<noteq> None}"
  have owner: "Owner_Validate ow = None" using key_owner [OF inv assms(2)] by blast
  have errs: "ve_err (envs 0) i = None" for i using assms(4) by (simp add: live_def)
  obtain l s2 where list: "vr_ListSecrets repo None ow s = (l, s2)" by fastforce
  from list_secrets [OF inv list] obtain secs where secs: "s2 = s" "l = Inr (map metadata secs)"
    "sorted_wrt (\<lambda>a b. rf_Name (ss_Ref a) < rf_Name (ss_Ref b)) secs"
    "set secs = {sec. secret_of s (ss_Ref sec) = Some sec \<and> rf_Owner (ss_Ref sec) = ow}"
    by auto
  have names: "set (map (\<lambda>sec. rf_Name (ss_Ref sec)) secs) = ?names"
  proof
    show "?names \<subseteq> set (map (\<lambda>sec. rf_Name (ss_Ref sec)) secs)"
    proof
      fix x assume "x \<in> ?names"
      then obtain rf sec where "x = rf_Name rf" "rf_Owner rf = ow" "secret_of s rf = Some sec" by auto
      moreover from this have "ss_Ref sec = rf" using secret_ref_of [OF inv] by blast
      ultimately show "x \<in> set (map (\<lambda>sec. rf_Name (ss_Ref sec)) secs)" using secs(4) by force
    qed
  qed (use secs(4) in auto)
  have "sorted_wrt (\<lambda>a b. rf_Name (ss_Ref a) < rf_Name (ss_Ref b)) xs \<Longrightarrow> distinct (map (\<lambda>sec. rf_Name (ss_Ref sec)) xs)" for xs
    by (induction xs) force+
  then have "distinct (map (\<lambda>sec. rf_Name (ss_Ref sec)) secs)" using secs(3) by blast
  then have n: "n = length secs"
    unfolding assms(5) names [symmetric] using distinct_card [of "map (\<lambda>sec. rf_Name (ss_Ref sec)) secs"] by simp
  obtain recs where recs: "deletion_records (envs 0) 0 ?now ow src (map metadata secs) = Inr recs"
    "map au_ID recs = map (\<lambda>j. audit_id (envs 0) j ?now) [0..<n]"
    using deletion_records_live [OF assms(4), of 0 ?now ow src "map metadata secs"] n by auto
  obtain rec where rec: "NewAuditRecord (envs 0) n ?now ActionOwnerKeyDestroyed ow [] 0 (ok_KeyID k) src = Inr rec"
    "au_ID rec = audit_id (envs 0) n ?now"
    using NewAuditRecord_live [OF assms(4)] by metis
  let ?au = "correlated (envs 0) (recs @ [rec])"
  have "map au_ID ?au = map (\<lambda>j. audit_id (envs 0) j ?now) [0..<Suc n]"
    using recs(2) rec(2) by (simp add: correlated_def Correlate_def comp_def)
  moreover have "set [0..<Suc n] = {0..n}" by auto
  ultimately have ids: "distinct (map au_ID ?au)" "au_ID ` set ?au \<inter> au_ID ` set (log_of s) = {}"
    using assms(6,7) by (metis distinct_map distinct_upt, metis list.set_map)
  have "au_ID r' \<noteq> [] \<and> au_Action r' \<in> set audit_actions \<and> au_Outcome r' \<in> set audit_outcomes" if "r' \<in> set ?au" for r'
  proof -
    have "ActionSecretDeleted \<in> set audit_actions" "ActionOwnerKeyDestroyed \<in> set audit_actions"
      "OutcomeOK \<in> set audit_outcomes" by code_simp+
    moreover have "au_ID r' \<in> (\<lambda>j. audit_id (envs 0) j ?now) ` set [0..<Suc n]"
      using that \<open>map au_ID ?au = _\<close> by (metis imageI list.set_map)
    then have "au_ID r' \<noteq> []" using audit_id_ne by auto
    ultimately show ?thesis
      using that deletion_records_fields [OF recs(1)] NewAuditRecord_fields [OF rec(1)]
      by (auto simp: correlated_def Correlate_def)
  qed
  then have "acceptable ?au (log_of s)" using ids by (auto simp: acceptable_def)
  from delete_owner_ok [OF inv owner _ names this] assms(2)
  obtain s' where "vr_DeleteOwner repo None ow (map (\<lambda>sec. rf_Name (ss_Ref sec)) secs) ?au s = (None, s')"
    by (metis option.distinct(1) prod.collapse)
  moreover have "rf_Name \<circ> sm_Ref \<circ> metadata = (\<lambda>sec. rf_Name (ss_Ref sec))" by (simp add: metadata_def fun_eq_iff)
  ultimately have "deleteOwner repo (envs 0) ow src s = (None, s')"
    using get_key [OF inv owner, of None] assms(2) list secs(1,2) recs(1) rec(1) n errs
    by (simp add: deleteOwner_def Let_def comp_def metadata_def)
  then show ?thesis
    using assms(3) owner
    by (simp add: Vault_DeleteOwner_def validateRequest_def deleteOwnerRetries_def numeral_3_eq_3 split: nat.splits)
qed

lemma rewrap_live:
  assumes "sound r s" and "built r" and "key_of s ow = Some key" and "live env"
    and "audit_id env 1 (ve_now env 0) \<notin> au_ID ` set (log_of s)"
  shows "\<exists>s'. rewrap repo (wrapper_of r) env key src s = (None, s') \<and>
    au_ID ` set (log_of s') = insert (audit_id env 1 (ve_now env 0)) (au_ID ` set (log_of s))"
proof -
  note inv = sound_inv [OF assms(1)]
  have owner: "ok_Owner key = ow" "Owner_Validate ow = None" using key_owner [OF inv assms(3)] by auto
  have "usable r key" using assms(1,3) by (simp add: sound_def)
  then obtain dek where dek: "wr_Unwrap (wrapper_of r) (ok_WrappedKey key) = Inr dek" by (auto simp: usable_def)
  obtain blob where wrap: "wr_Wrap (wrapper_of r) (random_bytes env 0 12) dek = Inr (blob, wr_ActiveKeyID (wrapper_of r))"
    using wrap_ok [OF assms(2) unwrap_length [OF dek], of "random_bytes env 0 12"] by auto
  obtain rec where rec: "NewAuditRecord env 1 (ve_now env 0) ActionOwnerKeyRewrapped ow [] 0 (ok_KeyID key) src = Inr rec"
    "au_ID rec = audit_id env 1 (ve_now env 0)" "au_Action rec = ActionOwnerKeyRewrapped" "au_Outcome rec = OutcomeOK"
    using NewAuditRecord_live [OF assms(4)] by metis
  define k where "k = key\<lparr>ok_WrappedKey := blob, ok_WrapperKeyID := wr_ActiveKeyID (wrapper_of r)\<rparr>"
  obtain e s' where replace: "vr_ReplaceOwnerKey repo None k (ok_KeyID key) [] (correlated env [rec]) s = (e, s')" by fastforce
  have "acceptable (correlated env [rec]) (log_of s)"
    by (rule new_record_acceptable [OF rec(2) assms(5)]) (use rec service_actions in auto)
  then have "fst (vr_ReplaceOwnerKey repo None k (ok_KeyID key) [] (correlated env [rec]) s) = None"
    by (intro replace_key_ok [OF inv]) (use owner assms(3) in \<open>auto simp: k_def\<close>)
  then have "e = None" by (simp add: replace)
  then have "appended (log_of s) (correlated env [rec]) (log_of s')"
    using replace_key [OF inv _ replace] owner by (auto simp: k_def)
  from appended_ids [OF this] have "au_ID ` set (log_of s') = insert (au_ID rec) (au_ID ` set (log_of s))"
    by (simp add: correlated_def Correlate_def)
  then show ?thesis
    using dek wrap rec(1,2) replace owner \<open>e = None\<close> assms(4) by (simp add: rewrap_def k_def live_def)
qed

lemma rewrap_one_live:
  assumes "sound r s" and "built r" and "key_of s ow = Some key" and "live (fst (envs i))"
    and "rewrap_id envs i \<notin> au_ID ` set (log_of s)"
  shows "\<exists>rep' s'. rewrap_one repo (wrapper_of r) (envs i) (wr_ActiveKeyID (wrapper_of r)) dryRun src key (rep, s) =
      (None, rep', s') \<and> rp_Failed rep' = rp_Failed rep \<and>
    au_ID ` set (log_of s') \<subseteq> insert (rewrap_id envs i) (au_ID ` set (log_of s))"
proof -
  obtain env1 getErr env2 where envs: "envs i = (env1, getErr, env2)" by (cases "envs i")
  have "live env1" "audit_id env1 1 (ve_now env1 0) \<notin> au_ID ` set (log_of s)"
    using assms(4,5) envs by (simp_all add: rewrap_id_def)
  from rewrap_live [OF assms(1-3) this, of src] obtain s' where "rewrap repo (wrapper_of r) env1 key src s = (None, s')"
    "au_ID ` set (log_of s') = insert (audit_id env1 1 (ve_now env1 0)) (au_ID ` set (log_of s))"
    by blast
  then show ?thesis by (auto simp: rewrap_one_def envs Let_def error_is_def rewrap_id_def)
qed

lemma image_step: "A1 \<subseteq> insert (f i) A \<Longrightarrow> i \<in> R \<Longrightarrow> A1 \<union> f ` (R - {i}) \<subseteq> A \<union> f ` R"
  by blast

lemma rewrap_page_live:
  "sound r s \<Longrightarrow> built r \<Longrightarrow> tallied rep \<Longrightarrow> distinct (map ok_Owner keys) \<Longrightarrow>
     (\<And>k. k \<in> set keys \<Longrightarrow> key_of s (ok_Owner k) = Some k) \<Longrightarrow>
     (\<And>i. i \<in> {rp_Scanned rep..<rp_Scanned rep + int (length keys)} \<Longrightarrow>
        live (fst (envs i)) \<and> rewrap_id envs i \<notin> au_ID ` set (log_of s)) \<Longrightarrow>
     inj_on (rewrap_id envs) {rp_Scanned rep..<rp_Scanned rep + int (length keys)} \<Longrightarrow>
   \<exists>rep' s'. rewrap_page repo (wrapper_of r) envs (wr_ActiveKeyID (wrapper_of r)) dryRun src keys (rep, s) = (None, rep', s') \<and>
     rp_Failed rep' = rp_Failed rep \<and>
     au_ID ` set (log_of s') \<subseteq>
       au_ID ` set (log_of s) \<union> rewrap_id envs ` {rp_Scanned rep..<rp_Scanned rep + int (length keys)}"
proof (induction keys arbitrary: rep s)
  case (Cons key keys)
  let ?i = "rp_Scanned rep"
  let ?range = "{?i..<?i + int (length (key # keys))}"
  have key: "key_of s (ok_Owner key) = Some key" using Cons.prems(5) by simp
  have first: "?i \<in> ?range" by simp
  obtain rep1 s1 where one: "rewrap_one repo (wrapper_of r) (envs ?i) (wr_ActiveKeyID (wrapper_of r)) dryRun src key (rep, s) =
      (None, rep1, s1)" "rp_Failed rep1 = rp_Failed rep"
    "au_ID ` set (log_of s1) \<subseteq> insert (rewrap_id envs ?i) (au_ID ` set (log_of s))"
    using rewrap_one_live [OF Cons.prems(1,2) key, of envs ?i] Cons.prems(6) [OF first] by blast
  note spec = rewrap_one_spec [OF Cons.prems(1,2) key Cons.prems(3) one(1)]
  then have s1: "sound r s1" "tallied rep1" "rp_Scanned rep1 = ?i + 1" by (auto simp: rekeyed_def)
  have rest: "{rp_Scanned rep1..<rp_Scanned rep1 + int (length keys)} = ?range - {?i}"
    using s1(3) by auto
  have "key_of s1 (ok_Owner k) = Some k" if "k \<in> set keys" for k
  proof -
    have "ok_Owner k \<in> ok_Owner ` set keys" using that by simp
    moreover have "ok_Owner key \<notin> ok_Owner ` set keys" using Cons.prems(4) by simp
    ultimately have "ok_Owner k \<noteq> ok_Owner key" by metis
    then show ?thesis using spec that Cons.prems(5) by simp
  qed
  moreover have "live (fst (envs i)) \<and> rewrap_id envs i \<notin> au_ID ` set (log_of s1)" if i: "i \<in> ?range - {?i}" for i
  proof -
    have "rewrap_id envs i \<noteq> rewrap_id envs ?i" using i first inj_onD [OF Cons.prems(7)] by blast
    then show ?thesis using i Cons.prems(6) [of i] one(3) by blast
  qed
  moreover have "inj_on (rewrap_id envs) (?range - {?i})" by (rule inj_on_diff [OF Cons.prems(7)])
  moreover have "distinct (map ok_Owner keys)" using Cons.prems(4) by simp
  ultimately obtain rep' s' where rest_run:
    "rewrap_page repo (wrapper_of r) envs (wr_ActiveKeyID (wrapper_of r)) dryRun src keys (rep1, s1) = (None, rep', s')"
    "rp_Failed rep' = rp_Failed rep1"
    "au_ID ` set (log_of s') \<subseteq> au_ID ` set (log_of s1) \<union> rewrap_id envs ` (?range - {?i})"
    using Cons.IH [OF s1(1) Cons.prems(2) s1(2)] unfolding rest by blast
  note ids = order_trans [OF rest_run(3) image_step [where f = "rewrap_id envs" and i = "?i" and R = "?range", OF one(3) first]]
  have "rewrap_page repo (wrapper_of r) envs (wr_ActiveKeyID (wrapper_of r)) dryRun src (key # keys) (rep, s) = (None, rep', s')"
    using one(1) rest_run(1) by simp
  moreover have "rp_Failed rep' = rp_Failed rep" using one(2) rest_run(2) by simp
  ultimately show ?case using ids by blast
qed simp

lemma rewrap_loop_live:
  assumes "built r" and "0 < page" and "\<And>n. listErr n = None"
  shows "sound r s \<Longrightarrow> tallied rep \<Longrightarrow> N = int (card (owners_behind s after)) \<Longrightarrow>
    (\<And>i. i \<in> {rp_Scanned rep..<rp_Scanned rep + N} \<Longrightarrow>
       live (fst (envs i)) \<and> rewrap_id envs i \<notin> au_ID ` set (log_of s)) \<Longrightarrow>
    inj_on (rewrap_id envs) {rp_Scanned rep..<rp_Scanned rep + N} \<Longrightarrow>
    \<exists>rep' s'. rewrap_loop repo (wrapper_of r) listErr envs (wr_ActiveKeyID (wrapper_of r)) page dryRun src n after (rep, s) =
        Some (None, rep', s') \<and> rp_Failed rep' = rp_Failed rep"
proof (induction "card (owners_behind s after)" arbitrary: s rep n after N rule: less_induct)
  case less
  note inv = sound_inv [OF less.prems(1)]
  obtain g s1 where list: "vr_ListOwnerKeys repo (listErr n) after page s = (g, s1)" by fastforce
  note pages = list_page [OF inv assms(2) list]
  obtain ks nxt where g: "g = Inr (ks, nxt)" using pages(3) [OF assms(3)] by blast
  note ks = owner_page_facts [OF inv pages(2) [OF g]]
  let ?seen = "{rp_Scanned rep..<rp_Scanned rep + int (length ks)}"
  have range: "?seen \<subseteq> {rp_Scanned rep..<rp_Scanned rep + N}"
    using less.prems(3) ks(4,5) by (cases "nxt = []") auto
  obtain rep1 s2 where paged: "rewrap_page repo (wrapper_of r) envs (wr_ActiveKeyID (wrapper_of r)) dryRun src ks (rep, s) =
      (None, rep1, s2)" "rp_Failed rep1 = rp_Failed rep"
    "au_ID ` set (log_of s2) \<subseteq> au_ID ` set (log_of s) \<union> rewrap_id envs ` ?seen"
    using rewrap_page_live [OF less.prems(1) assms(1) less.prems(2) ks(2,1) _ inj_on_subset [OF less.prems(5) range]]
      less.prems(4) range by blast
  note spec = rewrap_page_spec [OF less.prems(1) assms(1) less.prems(2) ks(2,1) paged(1)]
  then have s2: "sound r s2" "tallied rep1" "rp_Scanned rep1 = rp_Scanned rep + int (length ks)" by (auto simp: rekeyed_def)
  show ?case
  proof (cases "nxt = []")
    case True
    then show ?thesis using list pages(1) g paged by (subst rewrap_loop.simps) simp
  next
    case False
    have same: "owners_behind s2 nxt = owners_behind s nxt" using rekeyed_behind spec by blast
    let ?M = "int (card (owners_behind s2 nxt))"
    have M: "N = int (length ks) + ?M" using less.prems(3) ks(5) [OF False] same by simp
    have fewer: "card (owners_behind s2 nxt) < card (owners_behind s after)"
      using ks(5,6) [OF False] same by simp
    have behind: "{rp_Scanned rep1..<rp_Scanned rep1 + ?M} \<subseteq> {rp_Scanned rep..<rp_Scanned rep + N}"
      "{rp_Scanned rep1..<rp_Scanned rep1 + ?M} \<inter> ?seen = {}"
      using s2(3) M by auto
    have fresh: "live (fst (envs i)) \<and> rewrap_id envs i \<notin> au_ID ` set (log_of s2)"
      if i: "i \<in> {rp_Scanned rep1..<rp_Scanned rep1 + ?M}" for i
    proof -
      have ran: "i \<in> {rp_Scanned rep..<rp_Scanned rep + N}" using i behind(1) by blast
      moreover have "rewrap_id envs i \<notin> rewrap_id envs ` ?seen"
        using inj_on_image_mem_iff [OF less.prems(5) ran range] i behind(2) by blast
      ultimately show ?thesis using less.prems(4) [of i] paged(3) by blast
    qed
    obtain rep' s' where "rewrap_loop repo (wrapper_of r) listErr envs (wr_ActiveKeyID (wrapper_of r)) page dryRun src (Suc n) nxt
        (rep1, s2) = Some (None, rep', s')" "rp_Failed rep' = rp_Failed rep1"
      using less.hyps [OF fewer s2(1,2) refl fresh inj_on_subset [OF less.prems(5) behind(1)]] by blast
    then show ?thesis
      using list pages(1) g paged False by (subst rewrap_loop.simps) simp
  qed
qed

lemma RewrapOwnerKeys_live:
  assumes "sound r s" and "built r" and "Source_Validate src = None" and "\<And>n. listErr n = None"
    and "\<And>i. 0 \<le> i \<Longrightarrow> i < int (card {ow. key_of s ow \<noteq> None}) \<Longrightarrow>
       live (fst (envs i)) \<and> rewrap_id envs i \<notin> au_ID ` set (log_of s)"
    and "inj_on (rewrap_id envs) {0..<int (card {ow. key_of s ow \<noteq> None})}"
  shows "\<exists>rep s'. RewrapOwnerKeys repo (wrapper_of r) listErr envs src opts s = Some (None, rep, s') \<and> rp_Failed rep = []"
proof -
  have "[] < Owner_String ow" for ow by (cases "ow_Type ow") (auto simp: Owner_String_def)
  then have all: "owners_behind s [] = {ow. key_of s ow \<noteq> None}" by (auto simp: owners_behind_def)
  have page: "0 < (if ro_Page opts \<le> 0 then DefaultPage else ro_Page opts)" by (simp add: DefaultPage_def)
  show ?thesis
    using rewrap_loop_live [OF assms(2) page assms(4) assms(1), where rep = zero_report and after = "[]" and envs = envs and
        dryRun = "ro_DryRun opts" and src = src and n = 0] assms(3,5,6)
    by (simp add: RewrapOwnerKeys_def tallied_def zero_report_def all)
qed

end

end
