(* ===== verification/Secrets.thy ===== *)
theory Secrets
  imports Secrets_Memory Vault_Live
begin

text \<open>
  The secrets pocket assembled: the vault and rotation services over the reference store and a key
  ring, \<open>src/pockets/secrets/secrets.go\<close>.  The services' lemmas are interpreted on these, and the
  properties are stated over histories of operations from an empty store.
\<close>

section \<open>The assembled services\<close>

interpretation mv: vault memory_vault store_inv store_key store_secret sto_audit
    "\<lambda>r. ring_wrapper (ring_encrypter r)" ring_built ring_label ring_shares
  by intro_locales

datatype vault_op =
    PutOp vault_env secret_ref bytes source
  | GetOp vault_env secret_ref source
  | DeleteOp vault_env secret_ref source
  | DeleteOwnerOp "nat \<Rightarrow> vault_env" owner source
  | RotateOp vault_env owner source
  | RewrapOp "nat \<Rightarrow> error" "int \<Rightarrow> vault_env \<times> error \<times> vault_env" source rewrap_options

datatype vault_out =
    PutOut "secret_meta res"
  | GetOut "bytes res"
  | ErrOut error
  | RewrapOut "(error \<times> rewrap_report) option"

fun exec_vault :: "aesgcm_ring \<Rightarrow> vault_op \<Rightarrow> secret_store \<Rightarrow> vault_out \<times> secret_store" where
  "exec_vault r (PutOp env rf v src) st =
     apfst PutOut (Vault_Put memory_vault (ring_wrapper (ring_encrypter r)) env rf v src st)"
| "exec_vault r (GetOp env rf src) st =
     apfst GetOut (Vault_Get memory_vault (ring_wrapper (ring_encrypter r)) env rf src st)"
| "exec_vault r (DeleteOp env rf src) st = apfst ErrOut (Vault_Delete memory_vault env rf src st)"
| "exec_vault r (DeleteOwnerOp envs ow src) st = apfst ErrOut (Vault_DeleteOwner memory_vault envs ow src st)"
| "exec_vault r (RotateOp env ow src) st =
     apfst ErrOut (RotateOwnerKey memory_vault (ring_wrapper (ring_encrypter r)) env ow src st)"
| "exec_vault r (RewrapOp listErr envs src opts) st =
     (case RewrapOwnerKeys memory_vault (ring_wrapper (ring_encrypter r)) listErr envs src opts st of
        None \<Rightarrow> (RewrapOut None, st)
      | Some (e, rep, st') \<Rightarrow> (RewrapOut (Some (e, rep)), st'))"

fun run_vault :: "aesgcm_ring \<Rightarrow> vault_op list \<Rightarrow> secret_store \<Rightarrow> vault_out list \<times> secret_store" where
  "run_vault r [] st = ([], st)"
| "run_vault r (op # ops) st =
     (let (out, st1) = exec_vault r op st; (outs, st2) = run_vault r ops st1 in (out # outs, st2))"

text \<open>What a store holds for a ring: the value \<open>Get\<close> would open under each reference.\<close>

definition value_of :: "aesgcm_ring \<Rightarrow> secret_store \<Rightarrow> secret_ref \<Rightarrow> bytes option" where
  "value_of r st rf =
     readable (ring_wrapper (ring_encrypter r)) (store_key st (rf_Owner rf)) (store_secret st rf) rf"

lemma held_value_of [simp]: "mv.held r st = value_of r st"
  by (simp add: mv.held_def value_of_def fun_eq_iff)

lemma New_store_sound: "mv.sound r New_store"
  by (simp add: mv.sound_def New_store_inv) (simp add: store_key_def store_secret_def New_store_def)

section \<open>The specification\<close>

text \<open>
  The abstract vault is a map from references to values.  \<open>spec_step\<close> is its move for an operation
  and the outcome its caller saw, \<open>None\<close> when that outcome is impossible: a value read is the value
  held, a deleted secret was held.
\<close>

fun spec_step :: "vault_op \<Rightarrow> vault_out \<Rightarrow> (secret_ref \<Rightarrow> bytes option) \<Rightarrow> (secret_ref \<Rightarrow> bytes option) option" where
  "spec_step (PutOp env rf v src) (PutOut (Inr meta)) m = Some (m(rf \<mapsto> v))"
| "spec_step (PutOp env rf v src) (PutOut (Inl err)) m = Some m"
| "spec_step (GetOp env rf src) (GetOut (Inr v)) m = (if m rf = Some v then Some m else None)"
| "spec_step (GetOp env rf src) (GetOut (Inl err)) m = Some m"
| "spec_step (DeleteOp env rf src) (ErrOut None) m = (if m rf = None then None else Some (m(rf := None)))"
| "spec_step (DeleteOp env rf src) (ErrOut (Some err)) m = Some m"
| "spec_step (DeleteOwnerOp envs ow src) (ErrOut None) m = Some (\<lambda>rf. if rf_Owner rf = ow then None else m rf)"
| "spec_step (DeleteOwnerOp envs ow src) (ErrOut (Some err)) m = Some m"
| "spec_step (RotateOp env ow src) (ErrOut err) m = Some m"
| "spec_step (RewrapOp listErr envs src opts) (RewrapOut (Some rep)) m = Some m"
| "spec_step op out m = None"

fun spec_run :: "vault_op list \<Rightarrow> vault_out list \<Rightarrow> (secret_ref \<Rightarrow> bytes option) \<Rightarrow> (secret_ref \<Rightarrow> bytes option) option" where
  "spec_run [] [] m = Some m"
| "spec_run (op # ops) (out # outs) m = (case spec_step op out m of None \<Rightarrow> None | Some m' \<Rightarrow> spec_run ops outs m')"
| "spec_run ops outs m = None"

section \<open>Accounts of the accesses\<close>

text \<open>The access an outcome shows to the caller, and the access an audit record names.\<close>

fun shown :: "vault_op \<Rightarrow> vault_out \<Rightarrow> (action \<times> owner \<times> string \<times> source) option" where
  "shown (PutOp env rf v src) (PutOut (Inr meta)) = Some (ActionSecretPut, rf_Owner rf, rf_Name rf, src)"
| "shown (GetOp env rf src) (GetOut (Inr v)) = Some (ActionSecretRead, rf_Owner rf, rf_Name rf, src)"
| "shown (DeleteOp env rf src) (ErrOut None) = Some (ActionSecretDeleted, rf_Owner rf, rf_Name rf, src)"
| "shown (RotateOp env ow src) (ErrOut None) = Some (ActionOwnerKeyRotated, ow, [], src)"
| "shown op out = None"

definition named :: "audit_record \<Rightarrow> (action \<times> owner \<times> string \<times> source) option" where
  "named rec = (if au_Outcome rec = OutcomeOK then Some (au_Action rec, au_Owner rec, au_Name rec, au_Source rec) else None)"

definition audited :: "audit_record list \<Rightarrow> (action \<times> owner \<times> string \<times> source) option multiset" where
  "audited log = image_mset named (mset log)"

definition accesses :: "vault_op list \<Rightarrow> vault_out list \<Rightarrow> (action \<times> owner \<times> string \<times> source) option multiset" where
  "accesses ops outs = filter_mset (\<lambda>acc. acc \<noteq> None) (mset (map2 shown ops outs))"

lemma accesses_simps [simp]:
  "accesses [] outs = {#}"
  "accesses (op # ops) (out # outs) = filter_mset (\<lambda>acc. acc \<noteq> None) {#shown op out#} + accesses ops outs"
  by (simp_all add: accesses_def)

lemma audited_grows: "only_grows log log' \<Longrightarrow> audited log \<subseteq># audited log'"
  by (simp add: audited_def only_grows_def image_mset_subseteq_mono)

lemma gained_audited:
  assumes "gained log (access_record act OutcomeOK rf ver kid src) log'"
  shows "audited log + {#Some (act, rf_Owner rf, rf_Name rf, src)#} \<subseteq># audited log'"
proof -
  obtain rec where rec: "access_record act OutcomeOK rf ver kid src rec" "mset log + {#rec#} \<subseteq># mset log'"
    using assms by (auto simp: gained_def)
  have "named rec = Some (act, rf_Owner rf, rf_Name rf, src)"
    using rec(1) by (auto simp: access_record_def named_def)
  then show ?thesis
    using image_mset_subseteq_mono [OF rec(2), of named] by (simp add: audited_def)
qed

text \<open>One operation: the store stays sound, moves as the specification says, and records what it shows.\<close>

definition step_ok :: "aesgcm_ring \<Rightarrow> vault_op \<Rightarrow> vault_out \<Rightarrow> secret_store \<Rightarrow> secret_store \<Rightarrow> bool" where
  "step_ok r op out st st' \<longleftrightarrow>
     mv.sound r st' \<and> only_grows (sto_audit st) (sto_audit st') \<and>
     spec_step op out (value_of r st) = Some (value_of r st') \<and>
     (\<forall>acc. shown op out = Some acc \<longrightarrow> audited (sto_audit st) + {#Some acc#} \<subseteq># audited (sto_audit st'))"

lemma exec_ok:
  assumes "mv.sound r st" and "ring_built r" and "exec_vault r op st = (out, st')"
  shows "step_ok r op out st st'"
proof (cases op)
  case (PutOp env rf v src)
  obtain res where res: "Vault_Put memory_vault (ring_wrapper (ring_encrypter r)) env rf v src st = (res, st')" "out = PutOut res"
    using assms(3) PutOp by (auto simp: apfst_def map_prod_def split: prod.splits)
  show ?thesis
    using mv.Put_spec [OF assms(1,2) res(1)] res(2) PutOp gained_audited
    by (cases res) (auto simp: step_ok_def)
next
  case (GetOp env rf src)
  obtain res where res: "Vault_Get memory_vault (ring_wrapper (ring_encrypter r)) env rf src st = (res, st')" "out = GetOut res"
    using assms(3) GetOp by (auto simp: apfst_def map_prod_def split: prod.splits)
  note spec = mv.Get_spec [OF mv.sound_inv [OF assms(1)] res(1)]
  have "mv.sound r st' \<and> mv.held r st' = mv.held r st"
    using spec by (intro mv.sound_views [OF assms(1)]) auto
  then show ?thesis
    using spec res(2) GetOp gained_audited by (cases res) (auto simp: step_ok_def value_of_def fun_eq_iff)
next
  case (DeleteOp env rf src)
  obtain res where res: "Vault_Delete memory_vault env rf src st = (res, st')" "out = ErrOut res"
    using assms(3) DeleteOp by (auto simp: apfst_def map_prod_def split: prod.splits)
  show ?thesis
    using mv.Delete_spec [OF assms(1) res(1)] res(2) DeleteOp gained_audited
    by (cases res) (auto simp: step_ok_def)
next
  case (DeleteOwnerOp envs ow src)
  obtain res where res: "Vault_DeleteOwner memory_vault envs ow src st = (res, st')" "out = ErrOut res"
    using assms(3) DeleteOwnerOp by (auto simp: apfst_def map_prod_def split: prod.splits)
  show ?thesis
    using mv.DeleteOwner_spec [OF assms(1) res(1)] res(2) DeleteOwnerOp assms(1)
    by (cases res) (auto simp: step_ok_def mv.offboarded_def)
next
  case (RotateOp env ow src)
  obtain res where res: "RotateOwnerKey memory_vault (ring_wrapper (ring_encrypter r)) env ow src st = (res, st')" "out = ErrOut res"
    using assms(3) RotateOp by (auto simp: apfst_def map_prod_def split: prod.splits)
  show ?thesis
  proof (cases res)
    case None
    note spec = mv.RotateOwnerKey_spec [OF assms(1,2) res(1)]
    then obtain kid where "gained (sto_audit st) (access_record ActionOwnerKeyRotated OutcomeOK \<lparr>rf_Owner = ow, rf_Name = []\<rparr> 0 kid src) (sto_audit st')"
      using None by auto
    from gained_audited [OF this] spec show ?thesis
      using res(2) RotateOp None by (auto simp: step_ok_def)
  next
    case (Some e)
    then show ?thesis
      using mv.RotateOwnerKey_spec [OF assms(1,2) res(1)] res(2) RotateOp assms(1) by (auto simp: step_ok_def)
  qed
next
  case (RewrapOp listErr envs src opts)
  obtain e rep s' where run: "RewrapOwnerKeys memory_vault (ring_wrapper (ring_encrypter r)) listErr envs src opts st = Some (e, rep, s')"
    "mv.rekeyed r st s'"
    using mv.RewrapOwnerKeys_spec [OF assms(1,2), of listErr envs src opts] by blast
  then show ?thesis
    using assms(3) RewrapOp by (auto simp: step_ok_def mv.rekeyed_def)
qed

lemma run_ok:
  assumes "ring_built r"
  shows "mv.sound r st \<Longrightarrow> run_vault r ops st = (outs, st') \<Longrightarrow>
    mv.sound r st' \<and> only_grows (sto_audit st) (sto_audit st') \<and>
    spec_run ops outs (value_of r st) = Some (value_of r st') \<and>
    audited (sto_audit st) + accesses ops outs \<subseteq># audited (sto_audit st')"
proof (induction ops arbitrary: st outs)
  case (Cons op ops)
  obtain out st1 where one: "exec_vault r op st = (out, st1)" by fastforce
  obtain outs' where rest: "run_vault r ops st1 = (outs', st')" "outs = out # outs'"
    using Cons.prems(2) one by (auto split: prod.splits)
  have ok: "step_ok r op out st st1" by (rule exec_ok [OF Cons.prems(1) assms one])
  note ih = Cons.IH [OF _ rest(1)]
  have ih: "mv.sound r st' \<and> only_grows (sto_audit st1) (sto_audit st') \<and>
      spec_run ops outs' (value_of r st1) = Some (value_of r st') \<and>
      audited (sto_audit st1) + accesses ops outs' \<subseteq># audited (sto_audit st')"
    by (rule ih) (use ok in \<open>simp add: step_ok_def\<close>)
  have "audited (sto_audit st) + filter_mset (\<lambda>acc. acc \<noteq> None) {#shown op out#} \<subseteq># audited (sto_audit st1)"
    using ok audited_grows [of "sto_audit st" "sto_audit st1"]
    by (cases "shown op out") (simp_all add: step_ok_def)
  then have "audited (sto_audit st) + accesses (op # ops) outs \<subseteq># audited (sto_audit st1) + accesses ops outs'"
    unfolding rest(2) accesses_simps add.assoc [symmetric] by (rule subset_mset.add_right_mono)
  then have "audited (sto_audit st) + accesses (op # ops) outs \<subseteq># audited (sto_audit st')"
    using ih by (auto intro: subset_mset.order_trans)
  moreover have "only_grows (sto_audit st) (sto_audit st')"
    using ok ih only_grows_trans by (auto simp: step_ok_def)
  moreover have "spec_run (op # ops) outs (value_of r st) = Some (value_of r st')"
    using ok ih rest(2) by (simp add: step_ok_def)
  ultimately show ?case using ih by blast
qed simp

end
