(* ===== verification/Secrets_Guarantees.thy ===== *)
theory Secrets_Guarantees
  imports Secrets
begin

text \<open>
  What the assembled secrets pocket guarantees, over every history of operations from an empty store,
  with witnesses on a one-owner vault.
\<close>

section \<open>A vault to witness on\<close>

definition demo_env :: "nat \<Rightarrow> vault_env" where
  "demo_env j =
     \<lparr>ve_err = \<lambda>_. None, ve_requestID = [], ve_traceID = [], ve_now = \<lambda>_. 0, ve_rand = \<lambda>i _. char_of (16 * j + i),
      ve_randErr = \<lambda>_. None\<rparr>"

definition demo_secret :: secret_ref where
  "demo_secret = \<lparr>rf_Owner = \<lparr>ow_Type = ''tenant'', ow_ID = ''a''\<rparr>, rf_Name = ''token''\<rparr>"

definition demo_source :: source where
  "demo_source = \<lparr>so_ActorType = [], so_ActorID = [], so_System = ''cli'', so_Reason = []\<rparr>"

definition demo_cipher3 :: aesgcm_ring where
  "demo_cipher3 = demo_cipher \<lparr>kr_Active = ''k2'', kr_Keys = [(''k2'', replicate 32 (CHR ''b''))]\<rparr>"

abbreviation r1 :: aesgcm_ring where
  "r1 \<equiv> demo_cipher demo_ring"

abbreviation r2 :: aesgcm_ring where
  "r2 \<equiv> demo_cipher demo_ring2"

lemma demo_valid:
  "Ref_Validate demo_secret = None" "Owner_Validate (rf_Owner demo_secret) = None" "Source_Validate demo_source = None"
  "int (length ''hello'') \<le> MaxValueBytes" "int (length ''again'') \<le> MaxValueBytes"
  by code_simp+

lemma demo_live [simp]: "live (demo_env j)"
  by (simp add: live_def demo_env_def)

lemma hex_encode_inj: "hex_encode a = hex_encode b \<longleftrightarrow> a = b"
  by (metis hex_roundtrip option.inject)

lemma demo_ids:
  assumes "16 * j + i < 256" and "16 * j' + i' < 256"
  shows "audit_id (demo_env j) i t = audit_id (demo_env j') i' t \<longleftrightarrow> 16 * j + i = 16 * j' + i'"
proof -
  have "(char_of (16 * j + i) = char_of (16 * j' + i')) = (16 * j + i = 16 * j' + i')"
    using assms by (metis mod_less of_char_of)
  then show ?thesis
    by (simp add: audit_id_def random_bytes_def demo_env_def hex_encode_inj map_replicate_const)
qed

lemma demo_now [simp]: "ve_now (demo_env j) i = 0"
  by (simp add: demo_env_def)

lemma kr_Keys_single: "map_ok (kr_Keys \<lparr>kr_Active = a, kr_Keys = [e]\<rparr>)"
  by simp

lemma demo_built: "ring_built r1" "ring_built r2" "ring_built demo_cipher3"
proof -
  have "NewAESGCMRing \<lparr>kr_Active = ''k2'', kr_Keys = [(''k2'', replicate 32 (CHR ''b''))]\<rparr> [] = Inr demo_cipher3"
    by code_simp
  then have "NewAESGCMRing \<lparr>kr_Active = ''k2'', kr_Keys = [(''k2'', replicate 32 (CHR ''b''))]\<rparr> (map WithLegacyKeyID []) =
      Inr demo_cipher3" by simp
  then show "ring_built demo_cipher3"
    unfolding ring_built_def by (metis kr_Keys_single)
  have "map_ok (kr_Keys demo_ring)" "map_ok (kr_Keys demo_ring2)" by (simp_all add: demo_ring_def demo_ring2_def)
  then show "ring_built r1" "ring_built r2"
    unfolding ring_built_def using demo_rings(1,2) by (metis list.map_disc_iff)+
qed

text \<open>One value put into the empty store, then read.\<close>

lemma demo_put:
  obtains meta st where
    "Vault_Put memory_vault (ring_wrapper (ring_encrypter r1)) (demo_env 0) demo_secret ''hello'' demo_source New_store =
       (Inr meta, st)"
    "mv.sound r1 st" "value_of r1 st demo_secret = Some ''hello''" "store_secret st demo_secret \<noteq> None"
    "au_ID ` set (sto_audit st) \<subseteq> {audit_id (demo_env 0) 3 0, audit_id (demo_env 0) 5 0}"
    "{ow. store_key st ow \<noteq> None} = {rf_Owner demo_secret}"
    "run_vault r1 [PutOp (demo_env 0) demo_secret ''hello'' demo_source] New_store = ([PutOut (Inr meta)], st)"
proof -
  let ?put = "Vault_Put memory_vault (ring_wrapper (ring_encrypter r1)) (demo_env 0) demo_secret ''hello'' demo_source New_store"
  have empty: "sto_audit New_store = []" "store_key New_store ow = None" for ow
    by (simp_all add: New_store_def store_key_def)
  obtain meta st where put: "?put = (Inr meta, st)"
    "au_ID ` set (sto_audit st) \<subseteq> {audit_id (demo_env 0) 3 0, audit_id (demo_env 0) 5 0} \<union> au_ID ` set (sto_audit New_store)"
    using mv.Put_live [OF New_store_sound demo_built(1) demo_valid(1,3) demo_live [of 0], of "''hello''"]
      demo_valid(4) demo_ids [of 0 5 0 3] empty(1) by auto
  note spec = mv.Put_spec [OF New_store_sound demo_built(1) put(1)]
  then have st: "mv.sound r1 st" "value_of r1 st demo_secret = Some ''hello''" "store_secret st demo_secret \<noteq> None"
    "\<And>ow. ow \<noteq> rf_Owner demo_secret \<Longrightarrow> store_key st ow = None"
    using empty by auto
  have "store_key st (rf_Owner demo_secret) \<noteq> None"
    using store_secret_has_key [OF mv.sound_inv [OF st(1)]] st(3) by blast
  then have "store_key st ow \<noteq> None \<longleftrightarrow> ow = rf_Owner demo_secret" for ow
    using st(4) [of ow] by (cases "ow = rf_Owner demo_secret") auto
  then have "{ow. store_key st ow \<noteq> None} = {rf_Owner demo_secret}" by (simp del: not_None_eq)
  moreover have "run_vault r1 [PutOp (demo_env 0) demo_secret ''hello'' demo_source] New_store = ([PutOut (Inr meta)], st)"
    using put(1) by simp
  ultimately show ?thesis
    using that [OF put(1) st(1-3)] put(2) empty(1) by simp
qed

lemma ring_wrapper_active [simp]: "wr_ActiveKeyID (ring_wrapper (ring_encrypter r)) = ar_active r"
  by (simp add: ring_wrapper_def ring_encrypter_def)

section \<open>Values\<close>

text \<open>
  Property C2.  The vault is a map.  After any history of \<open>Put\<close>, \<open>Get\<close>, \<open>Delete\<close>, \<open>DeleteOwner\<close>,
  \<open>RotateOwnerKey\<close> and \<open>RewrapOwnerKeys\<close> on an empty store, with any cancellation, clock and random
  bytes, the outcomes the callers saw are those of a map from references to values: a \<open>Put\<close> sets its
  reference exactly when it reports success, a value read is the one held, a failed operation changes
  nothing, and rotations change nothing.  What the store then holds is that map.
\<close>

theorem vault_refines_map:
  assumes "ring_built r" and "run_vault r ops New_store = (outs, st)"
  shows "spec_run ops outs (\<lambda>_. None) = Some (value_of r st)"
proof -
  have "value_of r New_store = (\<lambda>_. None)"
    by (simp add: value_of_def readable_def store_key_def New_store_def fun_eq_iff)
  then show ?thesis using run_ok [OF assms(1) New_store_sound assms(2)] by simp
qed

text \<open>
  Property C10.  No access without its record.  For every \<open>Put\<close>, \<open>Get\<close> and \<open>Delete\<close> and every owner key
  rotation whose success a caller saw, the audit log holds a record of its own with outcome ok, naming the
  action, the owner, the secret and the source the caller gave: counted with multiplicity, the accesses
  shown to callers are among the recorded ones.
\<close>

theorem every_access_recorded:
  assumes "ring_built r" and "run_vault r ops New_store = (outs, st)"
  shows "accesses ops outs \<subseteq># audited (sto_audit st)"
proof -
  have "audited (sto_audit New_store) = {#}" by (simp add: audited_def New_store_def)
  then show ?thesis using run_ok [OF assms(1) New_store_sound assms(2)] by simp
qed

text \<open>
  Property C21.  The audit log only grows: whatever is done next, every record stays, unchanged; ids
  stay unique and the log stays in order of time and id.
\<close>

theorem audit_log_permanent:
  assumes "ring_built r" and "run_vault r ops New_store = (outs, st)" and "run_vault r ops' st = (outs', st')"
  shows "mset (sto_audit st) \<subseteq># mset (sto_audit st') \<and> distinct (map au_ID (sto_audit st')) \<and>
    sorted_wrt audit_before (sto_audit st')"
proof -
  have "mv.sound r st" using run_ok [OF assms(1) New_store_sound assms(2)] by blast
  from run_ok [OF assms(1) this assms(3)] have "only_grows (sto_audit st) (sto_audit st')" "mv.sound r st'" by auto
  then show ?thesis using mv.sound_inv [of r st'] by (simp add: only_grows_def store_inv_def)
qed

text \<open>
  Property C23.  What is put comes back.  From any reachable store, with the context live, the random
  source working and the new audit ids unused, \<open>Put\<close> of a valid value succeeds and a following \<open>Get\<close>
  returns that value.
\<close>

theorem put_then_get:
  assumes "ring_built r" and "run_vault r ops New_store = (outs, st)"
    and "Ref_Validate rf = None" and "Source_Validate src = None" and "Source_Validate src' = None"
    and "v \<noteq> []" and "int (length v) \<le> MaxValueBytes" and "live env" and "live env'"
    and "distinct [audit_id env 3 (ve_now env 0), audit_id env 5 (ve_now env 1), audit_id env' 0 (ve_now env' 0)]"
    and "{audit_id env 3 (ve_now env 0), audit_id env 5 (ve_now env 1), audit_id env' 0 (ve_now env' 0)} \<inter>
      sto_auditID st = {}"
  shows "\<exists>meta st1 st2.
    Vault_Put memory_vault (ring_wrapper (ring_encrypter r)) env rf v src st = (Inr meta, st1) \<and>
    Vault_Get memory_vault (ring_wrapper (ring_encrypter r)) env' rf src' st1 = (Inr v, st2)"
proof -
  have sound: "mv.sound r st" using run_ok [OF assms(1) New_store_sound assms(2)] by blast
  then have ids: "sto_auditID st = au_ID ` set (sto_audit st)" using mv.sound_inv by (simp add: store_inv_def)
  obtain meta st1 where put: "Vault_Put memory_vault (ring_wrapper (ring_encrypter r)) env rf v src st = (Inr meta, st1)"
    "au_ID ` set (sto_audit st1) \<subseteq>
      {audit_id env 3 (ve_now env 0), audit_id env 5 (ve_now env 1)} \<union> au_ID ` set (sto_audit st)"
    using mv.Put_live [OF sound assms(1,3,4,8,6,7)] assms(10,11) ids by auto
  then have st1: "mv.sound r st1" "value_of r st1 rf = Some v"
    using mv.Put_spec [OF sound assms(1) put(1)] by auto
  have "audit_id env' 0 (ve_now env' 0) \<notin> au_ID ` set (sto_audit st1)"
    using put(2) assms(10,11) ids by auto
  then have "fst (Vault_Get memory_vault (ring_wrapper (ring_encrypter r)) env' rf src' st1) = Inr v"
    using mv.Get_live [OF st1(1) _ assms(5), of rf v env'] st1(2) assms(9) by (simp add: live_def audit_id_def)
  then show ?thesis using put(1) by (metis prod.collapse)
qed

text \<open>
  Property C29.  Offboarding an owner: when \<open>DeleteOwner\<close> reports success the owner's data key and every
  sealed secret row of the owner are gone from the store, every other owner's key and secrets are the
  ones that were there, so everyone else's values are as before, and the log has gained a record of the
  key's destruction and one of the removal of each of the owner's secrets, with the version and key id
  removed; when it reports an error nothing has changed, its retries included.
\<close>

theorem DeleteOwner_destroys:
  assumes "ring_built r" and "run_vault r ops New_store = (outs, st)"
    and "Vault_DeleteOwner memory_vault envs ow src st = (e, st')"
  shows "if e = None
    then store_key st' = (store_key st)(ow := None) \<and>
      store_secret st' = (\<lambda>rf. if rf_Owner rf = ow then None else store_secret st rf) \<and> owned ow st' = [] \<and>
      value_of r st' = (\<lambda>rf. if rf_Owner rf = ow then None else value_of r st rf) \<and>
      (\<exists>k. store_key st ow = Some k \<and>
         gained (sto_audit st)
           (access_record ActionOwnerKeyDestroyed OutcomeOK \<lparr>rf_Owner = ow, rf_Name = []\<rparr> 0 (ok_KeyID k) src) (sto_audit st')) \<and>
      (\<forall>rf sec. rf_Owner rf = ow \<longrightarrow> store_secret st rf = Some sec \<longrightarrow>
         gained (sto_audit st) (access_record ActionSecretDeleted OutcomeOK rf (ss_Version sec) (ss_KeyID sec) src)
           (sto_audit st'))
    else st' = st"
proof (cases e)
  case None
  have "mv.sound r st" using run_ok [OF assms(1) New_store_sound assms(2)] by blast
  from mv.DeleteOwner_spec [OF this assms(3)] None have gone: "mv.offboarded r ow src st st'" by simp
  then have "store_inv st'" using mv.sound_inv unfolding mv.offboarded_def by blast
  then have "set (owned ow st') = {}"
    using owned_set [of st' ow] gone by (auto simp: mv.offboarded_def)
  then have "owned ow st' = []" by simp
  then show ?thesis using gone None unfolding mv.offboarded_def held_value_of by simp
next
  case (Some err)
  have "mv.sound r st" using run_ok [OF assms(1) New_store_sound assms(2)] by blast
  from mv.DeleteOwner_spec [OF this assms(3)] Some show ?thesis by simp
qed

section \<open>Rotation\<close>

text \<open>
  Property C28.  Rotating an owner's data key: when \<open>RotateOwnerKey\<close> reports success the owner has the key
  drawn in this call, under the id drawn in this call: its wrapped form unwraps to the new data key and is
  wrapped under the ring's active key.  Every secret of the owner is sealed under that key, and opening it
  with the new data key gives the value it had before; under every reference, of every owner, value and
  version are as before; the other owners' keys and secrets are untouched; and the rotation is recorded.
  When it reports an error nothing has changed.
\<close>

theorem RotateOwnerKey_keeps_values:
  assumes "ring_built r" and "run_vault r ops New_store = (outs, st)"
    and "RotateOwnerKey memory_vault (ring_wrapper (ring_encrypter r)) env ow src st = (e, st')"
  shows "if e = None
    then value_of r st' = value_of r st \<and>
      (\<forall>rf. map_option ss_Version (store_secret st' rf) = map_option ss_Version (store_secret st rf)) \<and>
      (\<forall>ow'. ow' \<noteq> ow \<longrightarrow> store_key st' ow' = store_key st ow') \<and>
      (\<forall>rf. rf_Owner rf \<noteq> ow \<longrightarrow> store_secret st' rf = store_secret st rf) \<and>
      (\<exists>k dek. store_key st' ow = Some k \<and> ok_WrapperKeyID k = ar_active r \<and>
         NewOwnerKeyID env 1 = Inr (ok_KeyID k) \<and> NewDataKey env 0 = Inr dek \<and>
         wr_Unwrap (ring_wrapper (ring_encrypter r)) (ok_WrappedKey k) = Inr dek \<and>
         (\<forall>rf sec. rf_Owner rf = ow \<longrightarrow> store_secret st' rf = Some sec \<longrightarrow>
            ss_KeyID sec = ok_KeyID k \<and>
            (\<exists>v. value_of r st rf = Some v \<and> Open dek rf (ss_Ciphertext sec) = Inr v)) \<and>
         gained (sto_audit st)
           (access_record ActionOwnerKeyRotated OutcomeOK \<lparr>rf_Owner = ow, rf_Name = []\<rparr> 0 (ok_KeyID k) src) (sto_audit st'))
    else st' = st"
proof (cases e)
  case None
  have "mv.sound r st" using run_ok [OF assms(1) New_store_sound assms(2)] by blast
  from mv.RotateOwnerKey_spec [OF this assms(1,3)] None obtain k dek where
    st': "mv.sound r st'" "value_of r st' = value_of r st"
      "\<forall>rf. map_option ss_Version (store_secret st' rf) = map_option ss_Version (store_secret st rf)"
      "\<forall>ow'. ow' \<noteq> ow \<longrightarrow> store_key st' ow' = store_key st ow'"
      "\<forall>rf. rf_Owner rf \<noteq> ow \<longrightarrow> store_secret st' rf = store_secret st rf"
    and k: "store_key st' ow = Some k" "ok_WrapperKeyID k = ar_active r" "NewOwnerKeyID env 1 = Inr (ok_KeyID k)"
    and dek: "NewDataKey env 0 = Inr dek" "wr_Unwrap (ring_wrapper (ring_encrypter r)) (ok_WrappedKey k) = Inr dek"
    and log: "gained (sto_audit st)
      (access_record ActionOwnerKeyRotated OutcomeOK \<lparr>rf_Owner = ow, rf_Name = []\<rparr> 0 (ok_KeyID k) src) (sto_audit st')"
    by auto
  have "ss_KeyID sec = ok_KeyID k \<and> (\<exists>v. value_of r st rf = Some v \<and> Open dek rf (ss_Ciphertext sec) = Inr v)"
    if "rf_Owner rf = ow" "store_secret st' rf = Some sec" for rf sec
    using mv.sealed_under_key [OF st'(1) _ that(2) dek(2)] that(1) k(1) st'(2) by simp
  with st'(2-5) k dek log None show ?thesis by auto
next
  case (Some err)
  have "mv.sound r st" using run_ok [OF assms(1) New_store_sound assms(2)] by blast
  from mv.RotateOwnerKey_spec [OF this assms(1,3)] Some show ?thesis by simp
qed

text \<open>A ring that still holds every key of another.\<close>

definition ring_extends :: "aesgcm_ring \<Rightarrow> aesgcm_ring \<Rightarrow> bool" where
  "ring_extends r r' \<longleftrightarrow> (\<forall>kid\<in>fst ` set (ar_keys r). ring_shares r r' kid)"

lemma label_in_ring:
  assumes "ring_label r blob = Some kid" and "wr_Unwrap (ring_wrapper (ring_encrypter r)) blob = Inr dek"
  shows "kid \<in> fst ` set (ar_keys r)"
proof -
  have "\<exists>gcm. map_get (ar_keys r) kid = Some gcm"
    using assms
    by (auto simp: ring_label_def AESGCMRing_KeyIDOf_def ring_wrapper_def ring_encrypter_def RingWrapper_Unwrap_def
        AESGCMRing_Decrypt_def split: sum.splits prod.splits option.splits)
  then show ?thesis by (auto dest: map_of_SomeD intro: rev_image_eqI)
qed

lemma extends_sound:
  assumes "mv.sound r st" and "ring_extends r r'"
  shows "mv.sound r' st \<and> value_of r' st = value_of r st"
proof -
  have "ring_shares r r' (ok_WrapperKeyID k)" if "store_key st ow = Some k" for ow k
  proof -
    have "mv.usable r k" using assms(1) that by (simp add: mv.sound_def)
    then have "ok_WrapperKeyID k \<in> fst ` set (ar_keys r)"
      unfolding mv.usable_def using label_in_ring [of r "ok_WrappedKey k" "ok_WrapperKeyID k"] by blast
    then show ?thesis using assms(2) unfolding ring_extends_def by blast
  qed
  from mv.held_shared [OF assms(1) this] show ?thesis by simp
qed

text \<open>The owners whose key is not under the active key of a ring.\<close>

definition outdated :: "aesgcm_ring \<Rightarrow> secret_store \<Rightarrow> owner set" where
  "outdated r st = {ow. \<exists>k. store_key st ow = Some k \<and> ok_WrapperKeyID k \<noteq> ar_active r}"

lemma not_up_to_date: "ow \<in> {ow. store_key st ow \<noteq> None} \<Longrightarrow> mv.up_to_date r st ow \<longleftrightarrow> ow \<notin> outdated r st"
  by (auto simp: mv.up_to_date_def outdated_def)

lemma outdated_has_key: "outdated r st \<subseteq> {ow. store_key st ow \<noteq> None}"
  by (auto simp: outdated_def)

text \<open>The report of a run, in terms of the owners that were and that stay outdated.\<close>

lemma tally_outdated:
  assumes "mv.tally r dry st st' {ow. store_key st ow \<noteq> None} zero_report rep"
    and "{ow. store_key st' ow \<noteq> None} = {ow. store_key st ow \<noteq> None}" and "dry \<longrightarrow> st' = st"
  shows "rp_Skipped rep = int (card ({ow. store_key st ow \<noteq> None} - outdated r st)) \<and>
    rp_Rewrapped rep = int (card (if dry then outdated r st else outdated r st - outdated r st')) \<and>
    int (length (rp_Failed rep)) = int (card (if dry then {} else outdated r st')) \<and>
    set (rp_Failed rep) \<subseteq> (if dry then {} else outdated r st' \<union> {ok_Owner zero_owner_key})"
proof -
  let ?O = "{ow. store_key st ow \<noteq> None}"
  have up: "mv.up_to_date r st ow \<longleftrightarrow> ow \<notin> outdated r st" "mv.up_to_date r st' ow \<longleftrightarrow> ow \<notin> outdated r st'"
    if "ow \<in> ?O" for ow
    using not_up_to_date [of ow st r] not_up_to_date [of ow st' r] that unfolding assms(2) by blast+
  have sub: "outdated r st \<subseteq> ?O" "outdated r st' \<subseteq> ?O"
    using outdated_has_key [of r st] outdated_has_key [of r st'] unfolding assms(2) by blast+
  have sets: "{ow \<in> ?O. mv.up_to_date r st ow} = ?O - outdated r st"
    "{ow \<in> ?O. \<not> mv.up_to_date r st ow \<and> (dry \<or> mv.up_to_date r st' ow)} =
      (if dry then outdated r st else outdated r st - outdated r st')"
    "{ow \<in> ?O. \<not> dry \<and> \<not> mv.up_to_date r st' ow} = (if dry then {} else outdated r st')"
    using up sub by auto
  have counts: "rp_Skipped rep = int (card (?O - outdated r st))"
    "rp_Rewrapped rep = int (card (if dry then outdated r st else outdated r st - outdated r st'))"
    "int (length (rp_Failed rep)) = int (card (if dry then {} else outdated r st'))"
    "set (rp_Failed rep) \<subseteq> (if dry then {} else outdated r st') \<union> {ok_Owner zero_owner_key}"
    using assms(1) unfolding mv.tally_def sets by (simp_all add: zero_report_def)
  then show ?thesis by (cases dry) simp_all
qed

text \<open>
  Property C25.  \<open>RewrapOwnerKeys\<close>, run under a ring that extends the one the vault was used with, so that
  any of the owner keys may still be under a retired key: it ends, whatever its page size, the
  cancellations and the failures it meets, and leaves every value, every sealed secret and every data key
  id as it was; a dry run changes nothing at all.  A run without error has scanned every owner once and its
  report is exact: skipped are the owners already under the new active key, rewrapped those that were not
  and now are (in a dry run: all that are not), and failed exactly as many as are left outdated, each
  listed by name or, the code's quirk, as the empty owner.  So when no owner is listed as failed, every key
  is wrapped under the new active key.
\<close>

theorem RewrapOwnerKeys_ends:
  assumes "ring_built r" and "run_vault r ops New_store = (outs, st)" and "ring_built r'" and "ring_extends r r'"
  shows "\<exists>e rep st'.
    RewrapOwnerKeys memory_vault (ring_wrapper (ring_encrypter r')) listErr envs src opts st = Some (e, rep, st') \<and>
    value_of r' st' = value_of r st \<and> store_secret st' = store_secret st \<and>
    (\<forall>ow. map_option ok_KeyID (store_key st' ow) = map_option ok_KeyID (store_key st ow)) \<and>
    (ro_DryRun opts \<longrightarrow> st' = st) \<and>
    (e = None \<longrightarrow>
       rp_Scanned rep = rp_Rewrapped rep + rp_Skipped rep + int (length (rp_Failed rep)) \<and>
       rp_Scanned rep = int (card {ow. store_key st ow \<noteq> None}) \<and>
       rp_Skipped rep = int (card ({ow. store_key st ow \<noteq> None} - outdated r' st)) \<and>
       rp_Rewrapped rep =
         int (card (if ro_DryRun opts then outdated r' st else outdated r' st - outdated r' st')) \<and>
       int (length (rp_Failed rep)) = int (card (if ro_DryRun opts then {} else outdated r' st')) \<and>
       set (rp_Failed rep) \<subseteq> (if ro_DryRun opts then {} else outdated r' st' \<union> {ok_Owner zero_owner_key}) \<and>
       (rp_Failed rep = [] \<longrightarrow> ro_DryRun opts \<or> outdated r' st' = {}))"
proof -
  have "mv.sound r st" using run_ok [OF assms(1) New_store_sound assms(2)] by blast
  then have moved: "mv.sound r' st" "value_of r' st = value_of r st" using extends_sound assms(4) by auto
  obtain e rep st' where run:
    "RewrapOwnerKeys memory_vault (ring_wrapper (ring_encrypter r')) listErr envs src opts st = Some (e, rep, st')"
    "mv.rekeyed r' st st'" "ro_DryRun opts \<longrightarrow> st' = st"
    "e = None \<longrightarrow> tallied rep \<and> rp_Scanned rep = int (card {ow. store_key st ow \<noteq> None}) \<and>
      (rp_Failed rep = [] \<longrightarrow> ro_DryRun opts \<or> (\<forall>ow. store_key st' ow \<noteq> None \<longrightarrow> mv.up_to_date r' st' ow)) \<and>
      mv.tally r' (ro_DryRun opts) st st' {ow. store_key st ow \<noteq> None} zero_report rep"
    using mv.RewrapOwnerKeys_spec [OF moved(1) assms(3), of listErr envs src opts] by blast
  have dom: "{ow. store_key st' ow \<noteq> None} = {ow. store_key st ow \<noteq> None}"
    using mv.rekeyed_dom [OF run(2)] by simp
  have report: "e = None \<longrightarrow>
       rp_Scanned rep = rp_Rewrapped rep + rp_Skipped rep + int (length (rp_Failed rep)) \<and>
       rp_Scanned rep = int (card {ow. store_key st ow \<noteq> None})"
    using run(4) unfolding tallied_def by blast
  have ended: "e = None \<and> rp_Failed rep = [] \<longrightarrow> ro_DryRun opts \<or> outdated r' st' = {}"
    using run(4) not_up_to_date [of _ st' r'] outdated_has_key [of r' st'] by blast
  have tally: "e = None \<longrightarrow>
       rp_Skipped rep = int (card ({ow. store_key st ow \<noteq> None} - outdated r' st)) \<and>
       rp_Rewrapped rep =
         int (card (if ro_DryRun opts then outdated r' st else outdated r' st - outdated r' st')) \<and>
       int (length (rp_Failed rep)) = int (card (if ro_DryRun opts then {} else outdated r' st')) \<and>
       set (rp_Failed rep) \<subseteq> (if ro_DryRun opts then {} else outdated r' st' \<union> {ok_Owner zero_owner_key})"
    using tally_outdated [OF _ dom run(3)] run(4) by blast
  have "value_of r' st' = value_of r st" "store_secret st' = store_secret st"
    "\<forall>ow. map_option ok_KeyID (store_key st' ow) = map_option ok_KeyID (store_key st ow)"
    using run(2) moved(2) by (simp_all add: mv.rekeyed_def)
  with run(1,3) report tally ended show ?thesis by blast
qed

text \<open>
  Property C9.  Retiring a master key, end to end: a vault used under one ring, then moved to a ring that
  adds a key and makes it active, then rewrapped by a run that reports no error and no failed owner, holds
  exactly the same values under any later ring that shares only the new active key.  So the old key can be
  dropped.
\<close>

theorem master_key_retired:
  assumes "ring_built r" and "run_vault r ops New_store = (outs, st)"
    and "ring_built r'" and "ring_extends r r'"
    and "RewrapOwnerKeys memory_vault (ring_wrapper (ring_encrypter r')) listErr envs src opts st = Some (None, rep, st')"
    and "rp_Failed rep = []" and "\<not> ro_DryRun opts" and "ring_shares r' r'' (ar_active r')"
  shows "value_of r'' st' = value_of r st"
proof -
  have "mv.sound r st" using run_ok [OF assms(1) New_store_sound assms(2)] by blast
  then have moved: "mv.sound r' st" "value_of r' st = value_of r st" using extends_sound assms(4) by auto
  from mv.RewrapOwnerKeys_spec [OF moved(1) assms(3), of listErr envs src opts] assms(5-7)
  have run: "mv.rekeyed r' st st'" "\<And>ow. store_key st' ow \<noteq> None \<Longrightarrow> mv.up_to_date r' st' ow" by auto
  have "ring_shares r' r'' (ok_WrapperKeyID k)" if "store_key st' ow = Some k" for ow k
    using run(2) [of ow] that assms(8) by (simp add: mv.up_to_date_def)
  from mv.held_shared [OF _ this] have "value_of r'' st' = value_of r' st'"
    using run(1) by (simp add: mv.rekeyed_def)
  then show ?thesis using run(1) moved(2) by (simp add: mv.rekeyed_def)
qed

section \<open>Reading the audit log\<close>

text \<open>
  Ids begin with their time in hex: between 1970 and 2262 they order like the times.  Every id comes
  from \<open>NewAuditRecord\<close>, which makes dated records.
\<close>

definition unix_range :: "time \<Rightarrow> bool" where
  "unix_range t \<longleftrightarrow> 62135596800 * Second \<le> t \<and> t < 62135596800 * Second + 2 ^ 63"

definition dated :: "audit_record \<Rightarrow> bool" where
  "dated rec \<longleftrightarrow> unix_range (au_OccurredAt rec) \<and>
     take 16 (au_ID rec) = sprintf_016x (UnixNano (au_OccurredAt rec))"

lemma unix_nano:
  assumes "unix_range t"
  shows "UnixNano t = t - 62135596800 * Second" and "0 \<le> UnixNano t" and "UnixNano t < 16 ^ 16"
proof -
  have range: "0 \<le> t - 62135596800 * Second" "t - 62135596800 * Second < 2 ^ 63"
    using assms by (auto simp: unix_range_def)
  then show nano: "UnixNano t = t - 62135596800 * Second" by (simp add: UnixNano_def int64_small)
  show "0 \<le> UnixNano t" "UnixNano t < 16 ^ 16" using range by (simp_all add: nano)
qed

lemma NewAuditRecord_dated:
  assumes "NewAuditRecord env i now act ow name version keyID src = Inr rec" and "unix_range now"
  shows "dated rec"
proof -
  have "62135596800 * Second div 1000 \<le> now div 1000"
    by (rule zdiv_mono1) (use assms(2) in \<open>auto simp: unix_range_def\<close>)
  moreover have "utc now = 1000 * (now div 1000)" "utc now \<le> now" by (auto simp: utc_def minus_mod_eq_mult_div)
  ultimately have "unix_range (utc now)"
    using assms(2) by (auto simp: unix_range_def)
  then show ?thesis
    using assms(1) unix_nano [of "utc now"]
    by (auto simp: NewAuditRecord_def dated_def sprintf_016x_def split: sum.splits)
qed

lemma dated_less:
  assumes "dated a" and "dated b" and "au_OccurredAt a < au_OccurredAt b"
  shows "au_ID a < au_ID b"
proof -
  have range: "unix_range (au_OccurredAt a)" "unix_range (au_OccurredAt b)" using assms by (auto simp: dated_def)
  note a = unix_nano [OF range(1)] and b = unix_nano [OF range(2)]
  have "hex_fixed 16 (UnixNano (au_OccurredAt a)) < hex_fixed 16 (UnixNano (au_OccurredAt b))"
    by (subst hex_fixed_less) (use a(2,3) b(2,3) assms(3) in \<open>simp_all add: a(1) b(1)\<close>)
  moreover have "take 16 (au_ID a) = hex_fixed 16 (UnixNano (au_OccurredAt a))"
    "take 16 (au_ID b) = hex_fixed 16 (UnixNano (au_OccurredAt b))"
    using assms(1,2) a(2) b(2) by (simp_all add: dated_def sprintf_016x_def)
  ultimately have "take 16 (au_ID a) @ drop 16 (au_ID a) < take 16 (au_ID b) @ drop 16 (au_ID b)"
    by (subst lex_append_less) simp_all
  then show ?thesis by simp
qed

lemma log_by_id:
  assumes "store_inv st" and "\<forall>rec\<in>set (sto_audit st). dated rec"
  shows "sorted_wrt (\<lambda>a b. au_ID a < au_ID b) (sto_audit st)"
  by (rule sorted_wrt_mono_rel [of _ audit_before])
    (use assms dated_less in \<open>auto simp: store_inv_def audit_before_def split: if_splits\<close>)

lemma sorted_filter_wrt: "sorted_wrt P xs \<Longrightarrow> sorted_wrt P (filter Q xs)"
  by (induction xs) auto

lemma filter_split_sorted:
  fixes k :: "'a \<Rightarrow> string"
  shows "sorted_wrt (\<lambda>a b. k a < k b) xs \<Longrightarrow> filter (\<lambda>x. k x \<le> c) xs @ filter (\<lambda>x. \<not> k x \<le> c) xs = xs"
proof (induction xs)
  case (Cons x xs)
  show ?case
  proof (cases "k x \<le> c")
    case False
    then have "\<forall>y\<in>set xs. \<not> k y \<le> c" using Cons.prems by (auto simp: not_le intro: less_trans)
    then show ?thesis using False by (simp add: filter_empty_conv)
  qed (use Cons in simp)
qed simp

text \<open>
  Property C30.  Paging through the audit log misses nothing and repeats nothing: a page has at most
  \<open>limit\<close> records, and the page followed by the matching records behind its cursor is exactly the matching
  records behind the previous cursor, in order; without a cursor it is the last page.
\<close>

theorem audit_pages_partition:
  assumes "store_inv st" and "\<forall>rec\<in>set (sto_audit st). dated rec"
    and "Vault_Audit memory_vault env f after limit st = (Inr (recs, nxt), st')"
  shows "st' = st \<and> int (length recs) \<le> (if limit \<le> 0 then 100 else limit) \<and>
    recs @ (if nxt = [] then [] else filter (\<lambda>rec. nxt < au_ID rec \<and> AuditFilter_Matches f rec) (sto_audit st)) =
      filter (\<lambda>rec. after < au_ID rec \<and> AuditFilter_Matches f rec) (sto_audit st)"
proof -
  define n where "n = (if limit \<le> 0 then 100 else limit)"
  define xs where "xs = filter (\<lambda>rec. after < au_ID rec \<and> AuditFilter_Matches f rec) (sto_audit st)"
  have n: "0 < n" by (simp add: n_def)
  have "page_loop (\<lambda>r. au_ID r \<le> after \<or> \<not> AuditFilter_Matches f r) au_ID n [] (sto_audit st) = (recs, nxt)"
    and same: "st' = st"
    using assms(3) by (auto simp: Vault_Audit_def memory_vault_def Store_ListAudit_def n_def split: option.splits if_splits)
  moreover have "filter (\<lambda>r. \<not> (au_ID r \<le> after \<or> \<not> AuditFilter_Matches f r)) (sto_audit st) = xs"
    by (simp add: xs_def not_le)
  ultimately have page: "page_loop (\<lambda>_. False) au_ID n [] xs = (recs, nxt)"
    using page_loop_skip [of "\<lambda>r. au_ID r \<le> after \<or> \<not> AuditFilter_Matches f r" au_ID n "[]" "sto_audit st"] by metis
  have sorted: "sorted_wrt (\<lambda>a b. au_ID a < au_ID b) xs"
    unfolding xs_def by (rule sorted_filter_wrt [OF log_by_id [OF assms(1,2)]])
  have size: "int (length recs) \<le> n"
    using page n page_loop_all [of "[]" n au_ID xs] by (auto split: if_splits)
  have ids: "au_ID rec \<noteq> []" if "rec \<in> set (sto_audit st)" for rec
  proof -
    have "dated rec" using assms(2) that by blast
    then have "take 16 (au_ID rec) = hex_fixed 16 (UnixNano (au_OccurredAt rec))"
      using unix_nano(2) [of "au_OccurredAt rec"] by (simp add: dated_def sprintf_016x_def)
    then have "length (take 16 (au_ID rec)) = 16" by (simp only: length_hex_fixed)
    then show ?thesis by auto
  qed
  from page_spec [OF sorted n page] have "recs @ (if nxt = [] then [] else filter (\<lambda>rec. nxt < au_ID rec) xs) = xs"
  proof
    assume "recs = xs \<and> nxt = []" then show ?thesis by simp
  next
    assume more: "recs \<noteq> [] \<and> nxt = au_ID (last recs) \<and> last recs \<in> set xs \<and> (\<exists>n. recs = take n xs) \<and>
      recs = filter (\<lambda>x. au_ID x \<le> nxt) xs"
    then have nxt: "nxt = au_ID (last recs)" and last: "last recs \<in> set xs" and recs: "recs = filter (\<lambda>x. au_ID x \<le> nxt) xs"
      by blast+
    have "last recs \<in> set (sto_audit st)" using last by (simp add: xs_def)
    then have "nxt \<noteq> []" unfolding nxt by (rule ids)
    have "filter (\<lambda>x. au_ID x \<le> nxt) xs @ filter (\<lambda>x. \<not> au_ID x \<le> nxt) xs = xs"
      using sorted by (rule filter_split_sorted)
    then show ?thesis unfolding recs [symmetric] using \<open>nxt \<noteq> []\<close> by (simp add: not_le)
  qed
  moreover have "filter (\<lambda>rec. nxt < au_ID rec) xs = filter (\<lambda>rec. nxt < au_ID rec \<and> AuditFilter_Matches f rec) (sto_audit st)"
    if "nxt \<noteq> []"
  proof -
    have "nxt = au_ID (last recs)" "last recs \<in> set xs" using page_spec [OF sorted n page] that by blast+
    then have "after < nxt" by (simp add: xs_def)
    then have "(after < au_ID rec \<and> AuditFilter_Matches f rec) \<and> nxt < au_ID rec \<longleftrightarrow>
        nxt < au_ID rec \<and> AuditFilter_Matches f rec" for rec
      using less_trans [of after nxt "au_ID rec"] by auto
    then show ?thesis unfolding xs_def filter_filter by (rule filter_cong [OF refl])
  qed
  ultimately have "recs @ (if nxt = [] then [] else filter (\<lambda>rec. nxt < au_ID rec \<and> AuditFilter_Matches f rec) (sto_audit st)) = xs"
    by (cases "nxt = []") simp_all
  then show ?thesis using same size unfolding n_def xs_def by blast
qed

section \<open>Witnesses\<close>

lemma demo_put_get:
  obtains meta st where
    "run_vault r1 [PutOp (demo_env 0) demo_secret ''hello'' demo_source, GetOp (demo_env 1) demo_secret demo_source] New_store =
       ([PutOut (Inr meta), GetOut (Inr ''hello'')], st)"
proof -
  obtain meta st where put:
    "Vault_Put memory_vault (ring_wrapper (ring_encrypter r1)) (demo_env 0) demo_secret ''hello'' demo_source New_store =
       (Inr meta, st)"
    "mv.sound r1 st" "value_of r1 st demo_secret = Some ''hello''"
    "au_ID ` set (sto_audit st) \<subseteq> {audit_id (demo_env 0) 3 0, audit_id (demo_env 0) 5 0}"
    using demo_put by metis
  have "audit_id (demo_env 1) 0 0 \<notin> au_ID ` set (sto_audit st)"
    using put(4) demo_ids [of 1 0 0 3] demo_ids [of 1 0 0 5] by auto
  then have "fst (Vault_Get memory_vault (ring_wrapper (ring_encrypter r1)) (demo_env 1) demo_secret demo_source st) =
      Inr ''hello''"
    using mv.Get_live [OF put(2), of demo_secret "''hello''" demo_source "demo_env 1"] put(3) demo_valid(3) demo_live [of 1]
    by (simp add: live_def audit_id_def)
  then obtain st2 where
    "Vault_Get memory_vault (ring_wrapper (ring_encrypter r1)) (demo_env 1) demo_secret demo_source st = (Inr ''hello'', st2)"
    by (metis prod.collapse)
  then show ?thesis using that put(1) by simp
qed

theorem vault_refines_map_witness:
  "\<exists>meta st. run_vault r1 [PutOp (demo_env 0) demo_secret ''hello'' demo_source, GetOp (demo_env 1) demo_secret demo_source]
       New_store = ([PutOut (Inr meta), GetOut (Inr ''hello'')], st) \<and>
     spec_run [PutOp (demo_env 0) demo_secret ''hello'' demo_source, GetOp (demo_env 1) demo_secret demo_source]
       [PutOut (Inr meta), GetOut (Inr ''hello'')] (\<lambda>_. None) = Some (value_of r1 st)"
proof -
  obtain meta st where run:
    "run_vault r1 [PutOp (demo_env 0) demo_secret ''hello'' demo_source, GetOp (demo_env 1) demo_secret demo_source] New_store =
       ([PutOut (Inr meta), GetOut (Inr ''hello'')], st)" by (rule demo_put_get)
  with vault_refines_map [OF demo_built(1) run] show ?thesis by blast
qed

theorem every_access_recorded_witness:
  "\<exists>meta st. run_vault r1 [PutOp (demo_env 0) demo_secret ''hello'' demo_source, GetOp (demo_env 1) demo_secret demo_source]
       New_store = ([PutOut (Inr meta), GetOut (Inr ''hello'')], st) \<and>
     {#Some (ActionSecretPut, rf_Owner demo_secret, ''token'', demo_source),
       Some (ActionSecretRead, rf_Owner demo_secret, ''token'', demo_source)#} \<subseteq># audited (sto_audit st)"
proof -
  obtain meta st where run:
    "run_vault r1 [PutOp (demo_env 0) demo_secret ''hello'' demo_source, GetOp (demo_env 1) demo_secret demo_source] New_store =
       ([PutOut (Inr meta), GetOut (Inr ''hello'')], st)" by (rule demo_put_get)
  moreover have "rf_Name demo_secret = ''token''" by (simp add: demo_secret_def)
  ultimately show ?thesis
    using every_access_recorded [OF demo_built(1) run] by (intro exI conjI) (simp_all add: add_mset_commute)
qed

theorem audit_log_permanent_witness:
  "\<exists>meta st outs st'. run_vault r1 [PutOp (demo_env 0) demo_secret ''hello'' demo_source] New_store = ([PutOut (Inr meta)], st) \<and>
     run_vault r1 [DeleteOp (demo_env 1) demo_secret demo_source] st = (outs, st') \<and>
     mset (sto_audit st) \<subseteq># mset (sto_audit st') \<and> distinct (map au_ID (sto_audit st')) \<and>
     sorted_wrt audit_before (sto_audit st')"
proof -
  obtain meta st where run:
    "run_vault r1 [PutOp (demo_env 0) demo_secret ''hello'' demo_source] New_store = ([PutOut (Inr meta)], st)"
    using demo_put by metis
  obtain outs st' where more: "run_vault r1 [DeleteOp (demo_env 1) demo_secret demo_source] st = (outs, st')" by fastforce
  from audit_log_permanent [OF demo_built(1) run more] run more show ?thesis by blast
qed

theorem put_then_get_witness:
  "\<exists>meta st1 st2.
    Vault_Put memory_vault (ring_wrapper (ring_encrypter r1)) (demo_env 0) demo_secret ''hello'' demo_source New_store =
      (Inr meta, st1) \<and>
    Vault_Get memory_vault (ring_wrapper (ring_encrypter r1)) (demo_env 1) demo_secret demo_source st1 = (Inr ''hello'', st2)"
  by (rule put_then_get [OF demo_built(1), of "[]" "[]"])
    (use demo_valid demo_ids [of 0 3 0 5] demo_ids [of 0 3 1 0] demo_ids [of 0 5 1 0] in \<open>simp_all add: New_store_def\<close>)

theorem DeleteOwner_destroys_witness:
  "\<exists>meta st st'. run_vault r1 [PutOp (demo_env 0) demo_secret ''hello'' demo_source] New_store = ([PutOut (Inr meta)], st) \<and>
     Vault_DeleteOwner memory_vault (\<lambda>_. demo_env 2) (rf_Owner demo_secret) demo_source st = (None, st') \<and>
     store_secret st demo_secret \<noteq> None \<and> store_secret st' demo_secret = None \<and>
     store_key st' (rf_Owner demo_secret) = None \<and> owned (rf_Owner demo_secret) st' = []"
proof -
  obtain meta st where put:
    "Vault_Put memory_vault (ring_wrapper (ring_encrypter r1)) (demo_env 0) demo_secret ''hello'' demo_source New_store =
       (Inr meta, st)"
    "mv.sound r1 st" "store_secret st demo_secret \<noteq> None"
    "au_ID ` set (sto_audit st) \<subseteq> {audit_id (demo_env 0) 3 0, audit_id (demo_env 0) 5 0}"
    "{ow. store_key st ow \<noteq> None} = {rf_Owner demo_secret}"
    "run_vault r1 [PutOp (demo_env 0) demo_secret ''hello'' demo_source] New_store = ([PutOut (Inr meta)], st)"
    using demo_put by metis
  obtain k where k: "store_key st (rf_Owner demo_secret) = Some k" using put(5) by auto
  have "value_of r1 New_store rf = None" for rf
    by (simp add: value_of_def readable_def store_key_def New_store_def)
  then have held: "value_of r1 st rf = None" if "rf \<noteq> demo_secret" for rf
    using mv.Put_spec [OF New_store_sound demo_built(1) put(1)] that by simp
  have "store_secret st rf \<noteq> None \<longleftrightarrow> rf = demo_secret" for rf
    using held [of rf] put(2,3) unfolding mv.sound_def held_value_of by metis
  then have names: "1 = card {rf_Name rf | rf. rf_Owner rf = rf_Owner demo_secret \<and> store_secret st rf \<noteq> None}"
    by (simp del: not_None_eq)
  have inj: "inj_on (\<lambda>i. audit_id (demo_env 2) i (ve_now (demo_env 2) 0)) {0..1}"
    by (auto simp: inj_on_def demo_ids)
  have fresh: "(\<lambda>i. audit_id (demo_env 2) i (ve_now (demo_env 2) 0)) ` {0..1} \<inter> au_ID ` set (sto_audit st) = {}"
    using put(4) demo_ids [of 2 _ 0 3] demo_ids [of 2 _ 0 5] by auto
  obtain st' where del: "Vault_DeleteOwner memory_vault (\<lambda>_. demo_env 2) (rf_Owner demo_secret) demo_source st = (None, st')"
    using mv.DeleteOwner_live [OF put(2) k demo_valid(3) demo_live [of 2] names inj fresh] by blast
  from DeleteOwner_destroys [OF demo_built(1) put(6) del] put(3,6) del show ?thesis by auto
qed

theorem RotateOwnerKey_keeps_values_witness:
  "\<exists>meta st st' k dek. run_vault r1 [PutOp (demo_env 0) demo_secret ''hello'' demo_source] New_store = ([PutOut (Inr meta)], st) \<and>
     RotateOwnerKey memory_vault (ring_wrapper (ring_encrypter r1)) (demo_env 2) (rf_Owner demo_secret) demo_source st = (None, st') \<and>
     value_of r1 st' demo_secret = Some ''hello'' \<and> store_key st' (rf_Owner demo_secret) = Some k \<and>
     NewDataKey (demo_env 2) 0 = Inr dek \<and> wr_Unwrap (ring_wrapper (ring_encrypter r1)) (ok_WrappedKey k) = Inr dek"
proof -
  obtain meta st where put: "mv.sound r1 st" "value_of r1 st demo_secret = Some ''hello''"
    "au_ID ` set (sto_audit st) \<subseteq> {audit_id (demo_env 0) 3 0, audit_id (demo_env 0) 5 0}"
    "{ow. store_key st ow \<noteq> None} = {rf_Owner demo_secret}"
    and run: "run_vault r1 [PutOp (demo_env 0) demo_secret ''hello'' demo_source] New_store = ([PutOut (Inr meta)], st)"
    using demo_put by metis
  obtain k where k: "store_key st (rf_Owner demo_secret) = Some k" using put(4) by auto
  have "audit_id (demo_env 2) 3 0 \<notin> au_ID ` set (sto_audit st)"
    using put(3) demo_ids [of 2 3 0 3] demo_ids [of 2 3 0 5] by auto
  then obtain st' where rot: "RotateOwnerKey memory_vault (ring_wrapper (ring_encrypter r1)) (demo_env 2) (rf_Owner demo_secret)
      demo_source st = (None, st')"
    using mv.RotateOwnerKey_live [OF put(1) demo_built(1) k demo_valid(3) demo_live [of 2]] by auto
  from RotateOwnerKey_keeps_values [OF demo_built(1) run rot] obtain k' dek where
    "value_of r1 st' = value_of r1 st" "store_key st' (rf_Owner demo_secret) = Some k'" "NewDataKey (demo_env 2) 0 = Inr dek"
    "wr_Unwrap (ring_wrapper (ring_encrypter r1)) (ok_WrappedKey k') = Inr dek" by auto
  with put(2) run rot show ?thesis by auto
qed

definition demo_attempts :: "int \<Rightarrow> vault_env \<times> error \<times> vault_env" where
  "demo_attempts i = (demo_env 4, None, demo_env 5)"

lemma demo_rewrap:
  obtains meta st rep st' where
    "run_vault r1 [PutOp (demo_env 0) demo_secret ''hello'' demo_source] New_store = ([PutOut (Inr meta)], st)"
    "value_of r1 st demo_secret = Some ''hello''"
    "RewrapOwnerKeys memory_vault (ring_wrapper (ring_encrypter r2)) (\<lambda>_. None) demo_attempts demo_source
       \<lparr>ro_Page = 0, ro_DryRun = False\<rparr> st = Some (None, rep, st')" "rp_Failed rep = []"
    "{ow. store_key st ow \<noteq> None} = {rf_Owner demo_secret}"
proof -
  obtain meta st where put: "mv.sound r1 st" "value_of r1 st demo_secret = Some ''hello''"
    "au_ID ` set (sto_audit st) \<subseteq> {audit_id (demo_env 0) 3 0, audit_id (demo_env 0) 5 0}"
    "{ow. store_key st ow \<noteq> None} = {rf_Owner demo_secret}"
    and run: "run_vault r1 [PutOp (demo_env 0) demo_secret ''hello'' demo_source] New_store = ([PutOut (Inr meta)], st)"
    using demo_put by metis
  have "ring_extends r1 r2" by code_simp
  then have sound: "mv.sound r2 st" using extends_sound put(1) by blast
  have ids: "rewrap_id demo_attempts i = audit_id (demo_env 4) 1 0" for i
    by (simp add: rewrap_id_def demo_attempts_def)
  have fresh: "live (fst (demo_attempts i)) \<and> rewrap_id demo_attempts i \<notin> au_ID ` set (sto_audit st)" for i
    unfolding ids using put(3) demo_ids [of 4 1 0 3] demo_ids [of 4 1 0 5] by (auto simp: demo_attempts_def)
  have "inj_on (rewrap_id demo_attempts) {0..<int (card {ow. store_key st ow \<noteq> None})}"
    unfolding put(4) by (auto simp: inj_on_def)
  then obtain rep st' where "RewrapOwnerKeys memory_vault (ring_wrapper (ring_encrypter r2)) (\<lambda>_. None) demo_attempts demo_source
       \<lparr>ro_Page = 0, ro_DryRun = False\<rparr> st = Some (None, rep, st')" "rp_Failed rep = []"
    using mv.RewrapOwnerKeys_live [OF sound demo_built(2) demo_valid(3), of "\<lambda>_. None" demo_attempts] fresh by blast
  then show ?thesis using that run put(2,4) by blast
qed

theorem RewrapOwnerKeys_ends_witness:
  "\<exists>meta st rep st'. run_vault r1 [PutOp (demo_env 0) demo_secret ''hello'' demo_source] New_store = ([PutOut (Inr meta)], st) \<and>
     RewrapOwnerKeys memory_vault (ring_wrapper (ring_encrypter r2)) (\<lambda>_. None) demo_attempts demo_source
       \<lparr>ro_Page = 0, ro_DryRun = False\<rparr> st = Some (None, rep, st') \<and>
     outdated r2 st = {rf_Owner demo_secret} \<and> outdated r2 st' = {} \<and> rp_Scanned rep = 1 \<and> rp_Rewrapped rep = 1 \<and>
     rp_Failed rep = [] \<and> value_of r2 st' demo_secret = Some ''hello''"
proof -
  obtain meta st rep st' where run:
    "run_vault r1 [PutOp (demo_env 0) demo_secret ''hello'' demo_source] New_store = ([PutOut (Inr meta)], st)"
    "value_of r1 st demo_secret = Some ''hello''"
    "RewrapOwnerKeys memory_vault (ring_wrapper (ring_encrypter r2)) (\<lambda>_. None) demo_attempts demo_source
       \<lparr>ro_Page = 0, ro_DryRun = False\<rparr> st = Some (None, rep, st')" "rp_Failed rep = []"
    "{ow. store_key st ow \<noteq> None} = {rf_Owner demo_secret}" by (rule demo_rewrap)
  have sound: "mv.sound r1 st" using run_ok [OF demo_built(1) New_store_sound run(1)] by blast
  obtain k where k: "store_key st (rf_Owner demo_secret) = Some k" using run(5) by auto
  then have "mv.usable r1 k" using sound by (simp add: mv.sound_def)
  then have "ok_WrapperKeyID k \<in> fst ` set (ar_keys r1)"
    unfolding mv.usable_def using label_in_ring [of r1 "ok_WrappedKey k" "ok_WrapperKeyID k"] by blast
  moreover have "ar_active r2 \<notin> fst ` set (ar_keys r1)" by code_simp
  ultimately have "ok_WrapperKeyID k \<noteq> ar_active r2" by metis
  then have "rf_Owner demo_secret \<in> outdated r2 st" using k by (simp add: outdated_def)
  then have old: "outdated r2 st = {rf_Owner demo_secret}" using outdated_has_key [of r2 st] run(5) by blast
  have "ring_extends r1 r2" by code_simp
  from RewrapOwnerKeys_ends [OF demo_built(1) run(1) demo_built(2) this, of "\<lambda>_. None" demo_attempts demo_source
      "\<lparr>ro_Page = 0, ro_DryRun = False\<rparr>"] run(3,4)
  have "value_of r2 st' = value_of r1 st" "rp_Scanned rep = int (card {ow. store_key st ow \<noteq> None})"
    "rp_Rewrapped rep = int (card (outdated r2 st - outdated r2 st'))" "outdated r2 st' = {}"
    by auto
  with run old show ?thesis by auto
qed

theorem master_key_retired_witness:
  "\<exists>meta st rep st'.
     run_vault r1 [PutOp (demo_env 0) demo_secret ''hello'' demo_source] New_store = ([PutOut (Inr meta)], st) \<and>
     RewrapOwnerKeys memory_vault (ring_wrapper (ring_encrypter r2)) (\<lambda>_. None) demo_attempts demo_source
       \<lparr>ro_Page = 0, ro_DryRun = False\<rparr> st = Some (None, rep, st') \<and> value_of demo_cipher3 st' demo_secret = Some ''hello''"
proof -
  have rings: "ring_extends r1 r2" "ring_shares r2 demo_cipher3 (ar_active r2)" by code_simp+
  obtain meta st rep st' where run:
    "run_vault r1 [PutOp (demo_env 0) demo_secret ''hello'' demo_source] New_store = ([PutOut (Inr meta)], st)"
    "value_of r1 st demo_secret = Some ''hello''"
    "RewrapOwnerKeys memory_vault (ring_wrapper (ring_encrypter r2)) (\<lambda>_. None) demo_attempts demo_source
       \<lparr>ro_Page = 0, ro_DryRun = False\<rparr> st = Some (None, rep, st')" "rp_Failed rep = []" using demo_rewrap by metis
  from master_key_retired [OF demo_built(1) run(1) demo_built(2) rings(1) run(3,4) _ rings(2)] run
  show ?thesis by auto
qed

definition demo_record :: "int \<Rightarrow> audit_record" where
  "demo_record n =
     \<lparr>au_ID = sprintf_016x (n * Second) @ ''0000000000000000'', au_OccurredAt = 62135596800 * Second + n * Second,
      au_Action = ActionSecretRead, au_Outcome = OutcomeOK, au_Owner = rf_Owner demo_secret, au_Name = ''token'',
      au_Version = 1, au_KeyID = ''k_1'', au_Source = demo_source, au_RequestID = [], au_TraceID = []\<rparr>"

theorem audit_pages_partition_witness:
  "Vault_Audit memory_vault (demo_env 0) zero_filter [] 1 (appendAudit [demo_record 2, demo_record 1] New_store) =
     (Inr ([demo_record 1], au_ID (demo_record 1)), appendAudit [demo_record 2, demo_record 1] New_store) \<and>
   [demo_record 1] @ filter (\<lambda>rec. au_ID (demo_record 1) < au_ID rec \<and> AuditFilter_Matches zero_filter rec) [demo_record 1, demo_record 2] =
     filter (\<lambda>rec. [] < au_ID rec \<and> AuditFilter_Matches zero_filter rec) [demo_record 1, demo_record 2]"
proof -
  define st where "st = appendAudit [demo_record 2, demo_record 1] New_store"
  have log: "sto_audit st = [demo_record 1, demo_record 2]" unfolding st_def by code_simp
  have "acceptable [demo_record 2, demo_record 1] (sto_audit New_store)" by code_simp
  then have inv: "store_inv st" unfolding st_def by (rule appendAudit_inv [OF New_store_inv])
  have "list_all dated [demo_record 1, demo_record 2]" by code_simp
  then have dated: "\<forall>rec\<in>set (sto_audit st). dated rec" by (simp add: log)
  have page: "Vault_Audit memory_vault (demo_env 0) zero_filter [] 1 st = (Inr ([demo_record 1], au_ID (demo_record 1)), st)"
    unfolding st_def by code_simp
  have "au_ID (demo_record 1) \<noteq> []" by code_simp
  then show ?thesis
    using audit_pages_partition [OF inv dated page, unfolded log] page [unfolded st_def]
    by (simp only: if_False)
qed

end
