(* ===== verification/Secrets_Races.thy ===== *)
theory Secrets_Races
  imports Secrets_Guarantees
begin

text \<open>
  Interleavings.  A store method is atomic, a service operation is not: other callers' operations run
  between its repository calls.  \<open>interleaved\<close> makes that explicit: the state carries the steps others
  take, one before each call.  The theory shows what a key rotation does to a write that lands between
  its reads and its replacement.
\<close>

section \<open>Steps of others between the calls\<close>

type_synonym 's interleaving = "'s \<times> ('s \<Rightarrow> 's) list"

definition next_call :: "('s \<Rightarrow> 'a \<times> 's) \<Rightarrow> 's interleaving \<Rightarrow> 'a \<times> 's interleaving" where
  "next_call call st =
     (case snd st of
        [] \<Rightarrow> (let (x, s') = call (fst st) in (x, (s', [])))
      | step # steps \<Rightarrow> (let (x, s') = call (step (fst st)) in (x, (s', steps))))"

definition interleaved :: "'s vault_repo \<Rightarrow> 's interleaving vault_repo" where
  "interleaved repo =
     \<lparr>vr_GetOwnerKey = \<lambda>c ow. next_call (vr_GetOwnerKey repo c ow),
      vr_CreateOwnerKey = \<lambda>c k au. next_call (vr_CreateOwnerKey repo c k au),
      vr_ReplaceOwnerKey = \<lambda>c k kid secs au. next_call (vr_ReplaceOwnerKey repo c k kid secs au),
      vr_ListOwnerKeys = \<lambda>c after n. next_call (vr_ListOwnerKeys repo c after n),
      vr_GetSecret = \<lambda>c rf au. next_call (vr_GetSecret repo c rf au),
      vr_PutSecret = \<lambda>c sec rec. next_call (vr_PutSecret repo c sec rec),
      vr_DeleteSecret = \<lambda>c rf au. next_call (vr_DeleteSecret repo c rf au),
      vr_DeleteOwner = \<lambda>c ow names au. next_call (vr_DeleteOwner repo c ow names au),
      vr_ListSecrets = \<lambda>c ow. next_call (vr_ListSecrets repo c ow),
      vr_ListSealedSecrets = \<lambda>c ow. next_call (vr_ListSealedSecrets repo c ow),
      vr_ListAudit = \<lambda>c f after n. next_call (vr_ListAudit repo c f after n),
      vr_AppendAudit = \<lambda>c au. next_call (vr_AppendAudit repo c au)\<rparr>"

context vault begin

lemma rotation_overwrites:
  assumes "sound r s" and "built r" and "key_of s (rf_Owner rf) = Some old" and "held r s rf = Some v"
    and "Source_Validate src = None" and "live env"
    and "sound r s1" and "key_of s1 (rf_Owner rf) = Some old"
    and "\<And>rf'. secret_of s rf' \<noteq> None \<Longrightarrow> secret_of s1 rf' \<noteq> None"
    and "audit_id env 3 (ve_now env 0) \<notin> au_ID ` set (log_of s1)"
    and "step s = s1"
  shows "\<exists>s2. RotateOwnerKey (interleaved repo) (wrapper_of r) env (rf_Owner rf) src (s, [id, id, step]) = (None, (s2, [])) \<and>
    held r s2 rf = Some v \<and> map_option ss_Version (secret_of s2 rf) = map_option ss_Version (secret_of s1 rf)"
proof -
  note inv = sound_inv [OF assms(1)] and inv1 = sound_inv [OF assms(7)]
  have errs: "ve_err env i = None" for i using assms(6) by (auto simp: live_def)
  have owner: "Owner_Validate (rf_Owner rf) = None" using key_owner [OF inv assms(3)] by blast
  obtain oldDEK secs newDEK keyID cs blob rec where prep:
    "wr_Unwrap (wrapper_of r) (ok_WrappedKey old) = Inr oldDEK"
    "vr_ListSealedSecrets repo None (rf_Owner rf) s = (Inr secs, s)"
    "set secs = {sec. secret_of s (ss_Ref sec) = Some sec \<and> rf_Owner (ss_Ref sec) = rf_Owner rf}"
    "distinct (map ss_Ref secs)" "NewDataKey env 0 = Inr newDEK" "NewOwnerKeyID env 1 = Inr keyID"
    "reseal_all env 4 (utc (ve_now env 0)) old oldDEK keyID newDEK secs = Inr cs"
    "wr_Wrap (wrapper_of r) (random_bytes env 2 12) newDEK = Inr (blob, wr_ActiveKeyID (wrapper_of r))"
    "NewAuditRecord env 3 (utc (ve_now env 0)) ActionOwnerKeyRotated (rf_Owner rf) [] 0 keyID src = Inr rec"
    "au_ID rec = audit_id env 3 (ve_now env 0)" "au_Action rec = ActionOwnerKeyRotated" "au_Outcome rec = OutcomeOK"
    "ss_Ref ` set cs = ss_Ref ` set secs"
    by (rule rotation_prepares [OF assms(1-3,6), of src])
  define k where "k = \<lparr>ok_Owner = rf_Owner rf, ok_KeyID = keyID, ok_WrappedKey = blob,
      ok_WrapperKeyID = wr_ActiveKeyID (wrapper_of r), ok_CreatedAt = ok_CreatedAt old, ok_RotatedAt = utc (ve_now env 0)\<rparr>"
  obtain e s2 where replace: "vr_ReplaceOwnerKey repo None k (ok_KeyID old) cs (correlated env [rec]) s1 = (e, s2)" by fastforce
  have refs: "rf_Owner (ss_Ref c) = rf_Owner rf \<and> secret_of s1 (ss_Ref c) \<noteq> None" if "c \<in> set cs" for c
  proof -
    have "ss_Ref c \<in> ss_Ref ` set secs" using that prep(13) by blast
    then obtain sec where "sec \<in> set secs" "ss_Ref c = ss_Ref sec" by (rule imageE)
    then show ?thesis using prep(3) assms(9) [of "ss_Ref c"] by simp
  qed
  have "acceptable (correlated env [rec]) (log_of s1)"
    by (rule new_record_acceptable [OF prep(10) assms(10)]) (use prep service_actions in auto)
  then have "fst (vr_ReplaceOwnerKey repo None k (ok_KeyID old) cs (correlated env [rec]) s1) = None"
    by (intro replace_key_ok [OF inv1]) (use refs assms(8) in \<open>auto simp: k_def\<close>)
  then have "e = None" by (simp add: replace)
  then have s2: "key_of s2 (rf_Owner rf) = Some (normalizeKey k)" "secret_of s2 = resealed_over cs (secret_of s1)"
    using replace_key [OF inv1 _ replace] owner by (auto simp: k_def)
  have run: "RotateOwnerKey (interleaved repo) (wrapper_of r) env (rf_Owner rf) src (s, [id, id, step]) = (None, (s2, []))"
    using RotateOwnerKey_calls [of "rf_Owner rf" src "interleaved repo" env "(s, [id, id, step])" old "(s, [id, step])" _ oldDEK secs
        "(s, [step])" newDEK keyID cs blob _ rec]
      assms(3,5,11) owner prep get_key [OF inv owner] errs replace \<open>e = None\<close>
    by (simp add: validateRequest_def interleaved_def next_call_def k_def)
  obtain sec where sec: "secret_of s rf = Some sec" using assms(4) by (auto simp: held_Some)
  have ref: "ss_Ref sec = rf" using secret_ref_of [OF inv sec] by blast
  have opens: "Open oldDEK rf (ss_Ciphertext sec) = Inr v"
    using assms(3,4) sec prep(1) by (auto simp: held_def readable_def vault_open_def split: if_splits sum.splits)
  have "sec \<in> set secs" using prep(3) sec ref by simp
  then obtain c where c: "c \<in> set cs" "resealed_as (ok_KeyID old) oldDEK keyID newDEK sec c"
    using list_all2_left [OF reseal_all_spec [OF NewDataKey_length [OF prep(5)] prep(7)]] by blast
  have "map ss_Ref cs = map ss_Ref secs"
    using reseal_all_spec [OF NewDataKey_length [OF prep(5)] prep(7)]
    by (induction rule: list_all2_induct) (auto simp: resealed_as_def)
  then have "distinct (map ss_Ref cs)" using prep(4) by simp
  moreover have "ss_Ref c = rf" using c(2) ref by (simp add: resealed_as_def)
  ultimately have at: "secret_of s2 rf = map_option (reseal c) (secret_of s1 rf)"
    using resealed_over_at [OF _ c(1), of "secret_of s1"] s2(2) by simp
  have "secret_of s1 rf \<noteq> None" using assms(9) [of rf] sec by simp
  then obtain sec1 where sec1: "secret_of s1 rf = Some sec1" by auto
  have "wr_Unwrap (wrapper_of r) blob = Inr newDEK"
    using new_key_usable [OF assms(2) NewDataKey_length [OF prep(5)] _ prep(8), of k] by (simp add: k_def)
  then have "held r s2 rf = Some v"
    using at sec1 s2(1) c(2) opens ref
    by (simp add: held_def readable_def vault_open_def resealed_as_def reseal_def k_def normalizeKey_def)
  moreover have "map_option ss_Version (secret_of s2 rf) = map_option ss_Version (secret_of s1 rf)"
    using at sec1 by (simp add: reseal_def)
  ultimately show ?thesis using run by blast
qed

lemma stale_put:
  assumes "sound r s" and "key_of s (rf_Owner rf) = Some k" and "Ref_Validate rf = None" and "Source_Validate src = None"
    and "live env" and "v \<noteq> []" and "int (length v) \<le> MaxValueBytes"
    and "sound r s1" and "key_of s1 (rf_Owner rf) = Some k'" and "ok_KeyID k' \<noteq> ok_KeyID k"
    and "audit_id env 5 (ve_now env 1) \<notin> au_ID ` set (log_of s1)" and "step s = s1"
  shows "\<exists>m s2. Vault_Put (interleaved repo) (wrapper_of r) env rf v src (s, [id, step]) = (Inr m, (s2, [])) \<and>
    secret_of s2 rf \<noteq> None \<and> held r s2 rf = None"
proof -
  note inv = sound_inv [OF assms(1)] and inv1 = sound_inv [OF assms(8)]
  have errs: "ve_err env i = None" for i using assms(5) by (auto simp: live_def)
  have owner: "Owner_Validate (rf_Owner rf) = None" using assms(3) by (simp add: Ref_Validate_iff)
  have "usable r k" using assms(1,2) by (simp add: sound_def)
  then obtain dek where dek: "wr_Unwrap (wrapper_of r) (ok_WrappedKey k) = Inr dek" by (auto simp: usable_def)
  have key: "ownerKey (interleaved repo) (wrapper_of r) env (rf_Owner rf) src (s, [id, step]) = (Inr (k, dek), (s, [step]))"
    using get_key [OF inv owner] errs assms(2) dek by (simp add: ownerKey_def interleaved_def next_call_def)
  obtain c where c: "Seal (random_bytes env 4 12) dek rf v = Inr c"
    using Open_Seal [OF unwrap_length [OF dek], of "random_bytes env 4 12"] by auto
  obtain rec where rec: "NewAuditRecord env 5 (ve_now env 1) ActionSecretPut (rf_Owner rf) (rf_Name rf) 0 (ok_KeyID k) src = Inr rec"
    "au_ID rec = audit_id env 5 (ve_now env 1)" "au_Action rec = ActionSecretPut" "au_Outcome rec = OutcomeOK"
    using NewAuditRecord_live [OF assms(5)] by metis
  define x where "x = \<lparr>ss_Ref = rf, ss_Version = 0, ss_KeyID = ok_KeyID k, ss_Ciphertext = c,
      ss_CreatedAt = ve_now env 1, ss_UpdatedAt = ve_now env 1\<rparr>"
  have "acceptable (correlated env [rec]) (log_of s1)"
    by (rule new_record_acceptable [OF rec(2) assms(11)]) (use rec service_actions in auto)
  moreover have "correlated env [rec] = [hd (correlated env [rec])]" by (simp add: correlated_def Correlate_def)
  ultimately obtain y where "fst (vr_PutSecret repo None x (hd (correlated env [rec])) s1) = Inr y"
    using put_secret_ok [OF inv1, of x "hd (correlated env [rec])"] assms(3,9) by (auto simp: x_def)
  then obtain s2 where put: "vr_PutSecret repo None x (hd (correlated env [rec])) s1 = (Inr y, s2)"
    by (metis prod.collapse)
  then have s2: "key_of s2 = key_of s1" "secret_of s2 rf = Some (put_over (secret_of s1 rf) x)"
    using put_secret [OF inv1 _ put] assms(3) by (auto simp: x_def)
  have "Vault_Put (interleaved repo) (wrapper_of r) env rf v src (s, [id, step]) = (Inr (metadata y), (s2, []))"
    using assms(3,4,6,7,12) key c rec(1) put errs
    by (simp add: Vault_Put_def validateRequest_def Let_def x_def) (simp add: interleaved_def next_call_def)
  moreover have "held r s2 rf = None"
    using s2 assms(9,10)
    by (auto simp: held_def readable_def vault_open_def put_over_def x_def split: sum.splits)
  ultimately show ?thesis using s2(2) by blast
qed

end

section \<open>A write lost to a rotation\<close>

text \<open>
  Property C26.  A rotation silently undoes a concurrent write.  Take any reachable store with a value
  \<open>old\<close>, and a \<open>RotateOwnerKey\<close> of its owner during which another caller's \<open>Put\<close> of a new value runs
  between the listing of the secrets and the replacement of the key.  Both report success, the \<open>Put\<close> with
  its new version; afterwards the store holds the old value again, under the new version number.  The
  replacement compares the key id only, which the \<open>Put\<close> did not change.
\<close>

theorem rotation_undoes_concurrent_put:
  assumes "ring_built r" and "run_vault r ops New_store = (outs, st)" and "value_of r st rf = Some old"
    and "Source_Validate src = None" and "Source_Validate src' = None" and "live env" and "live env'"
    and "v \<noteq> []" and "int (length v) \<le> MaxValueBytes"
    and "distinct [audit_id env' 3 (ve_now env' 0), audit_id env' 5 (ve_now env' 1), audit_id env 3 (ve_now env 0)]"
    and "{audit_id env' 3 (ve_now env' 0), audit_id env' 5 (ve_now env' 1), audit_id env 3 (ve_now env 0)} \<inter>
      sto_auditID st = {}"
  shows "\<exists>meta st1 st2.
    Vault_Put memory_vault (ring_wrapper (ring_encrypter r)) env' rf v src' st = (Inr meta, st1) \<and>
    value_of r st1 rf = Some v \<and>
    RotateOwnerKey (interleaved memory_vault) (ring_wrapper (ring_encrypter r)) env (rf_Owner rf) src
      (st, [id, id, \<lambda>s. snd (Vault_Put memory_vault (ring_wrapper (ring_encrypter r)) env' rf v src' s)]) =
      (None, (st2, [])) \<and>
    value_of r st2 rf = Some old \<and> map_option ss_Version (store_secret st2 rf) = Some (sm_Version meta)"
proof -
  have sound: "mv.sound r st" using run_ok [OF assms(1) New_store_sound assms(2)] by blast
  note inv = mv.sound_inv [OF sound]
  then have ids: "sto_auditID st = au_ID ` set (sto_audit st)" by (simp add: store_inv_def)
  obtain k sec where k: "store_key st (rf_Owner rf) = Some k" and sec: "store_secret st rf = Some sec"
    using assms(3) by (auto simp: value_of_def readable_def split: option.splits)
  have valid: "Ref_Validate rf = None" using store_secret_ref_conj [OF inv sec] by blast
  obtain meta st1 where put: "Vault_Put memory_vault (ring_wrapper (ring_encrypter r)) env' rf v src' st = (Inr meta, st1)"
    "au_ID ` set (sto_audit st1) \<subseteq>
      {audit_id env' 3 (ve_now env' 0), audit_id env' 5 (ve_now env' 1)} \<union> au_ID ` set (sto_audit st)"
    using mv.Put_live [OF sound assms(1) valid assms(5,7,8,9)] assms(10,11) ids by auto
  note spec = mv.Put_spec [OF sound assms(1) put(1)]
  then have st1: "mv.sound r st1" "value_of r st1 = (value_of r st)(rf \<mapsto> v)" "store_key st1 (rf_Owner rf) = Some k"
    "store_secret st1 rf \<noteq> None" "meta = metadata (the (store_secret st1 rf))"
    using k by auto
  have kept: "store_secret st1 rf' \<noteq> None" if "store_secret st rf' \<noteq> None" for rf'
  proof -
    have "value_of r st rf' \<noteq> None" using sound that by (simp add: mv.sound_def)
    then have "value_of r st1 rf' \<noteq> None" by (simp add: st1(2))
    then show ?thesis by (auto simp: value_of_def readable_def split: option.splits)
  qed
  have fresh: "audit_id env 3 (ve_now env 0) \<notin> au_ID ` set (sto_audit st1)"
    using put(2) assms(10,11) ids by auto
  obtain st2 where st2:
    "RotateOwnerKey (interleaved memory_vault) (ring_wrapper (ring_encrypter r)) env (rf_Owner rf) src
      (st, [id, id, \<lambda>s. snd (Vault_Put memory_vault (ring_wrapper (ring_encrypter r)) env' rf v src' s)]) = (None, (st2, []))"
    "value_of r st2 rf = Some old" "map_option ss_Version (store_secret st2 rf) = map_option ss_Version (store_secret st1 rf)"
    using mv.rotation_overwrites [OF sound assms(1) k _ assms(4,6) st1(1,3) kept fresh,
        of old "\<lambda>s. snd (Vault_Put memory_vault (ring_wrapper (ring_encrypter r)) env' rf v src' s)"] assms(3) put(1)
    by auto
  have "map_option ss_Version (store_secret st1 rf) = Some (sm_Version meta)"
    using st1(4,5) by (auto simp: metadata_def)
  then show ?thesis using put(1) st1(2) st2
    by (intro exI [of _ meta] exI [of _ st1] exI [of _ st2] conjI) simp_all
qed

theorem rotation_undoes_concurrent_put_witness:
  "\<exists>meta0 st meta st1 st2. run_vault r1 [PutOp (demo_env 0) demo_secret ''hello'' demo_source] New_store = ([PutOut (Inr meta0)], st) \<and>
    Vault_Put memory_vault (ring_wrapper (ring_encrypter r1)) (demo_env 1) demo_secret ''again'' demo_source st = (Inr meta, st1) \<and>
    value_of r1 st1 demo_secret = Some ''again'' \<and>
    RotateOwnerKey (interleaved memory_vault) (ring_wrapper (ring_encrypter r1)) (demo_env 2) (rf_Owner demo_secret) demo_source
      (st, [id, id, \<lambda>s. snd (Vault_Put memory_vault (ring_wrapper (ring_encrypter r1)) (demo_env 1) demo_secret ''again'' demo_source s)]) =
      (None, (st2, [])) \<and>
    value_of r1 st2 demo_secret = Some ''hello''"
proof -
  obtain meta0 st where st: "mv.sound r1 st" "value_of r1 st demo_secret = Some ''hello''"
    "au_ID ` set (sto_audit st) \<subseteq> {audit_id (demo_env 0) 3 0, audit_id (demo_env 0) 5 0}"
    and run: "run_vault r1 [PutOp (demo_env 0) demo_secret ''hello'' demo_source] New_store = ([PutOut (Inr meta0)], st)"
    using demo_put by metis
  have "sto_auditID st = au_ID ` set (sto_audit st)" using mv.sound_inv [OF st(1)] by (simp add: store_inv_def)
  then have ids: "sto_auditID st \<subseteq> {audit_id (demo_env 0) 3 0, audit_id (demo_env 0) 5 0}" using st(3) by simp
  have "distinct [audit_id (demo_env 1) 3 0, audit_id (demo_env 1) 5 0, audit_id (demo_env 2) 3 0]"
    using demo_ids [of 1 3 1 5] demo_ids [of 1 3 2 3] demo_ids [of 1 5 2 3] by simp
  moreover have "{audit_id (demo_env 1) 3 0, audit_id (demo_env 1) 5 0, audit_id (demo_env 2) 3 0} \<inter> sto_auditID st = {}"
    using ids demo_ids [of 1 3 0 3] demo_ids [of 1 3 0 5] demo_ids [of 1 5 0 3] demo_ids [of 1 5 0 5]
      demo_ids [of 2 3 0 3] demo_ids [of 2 3 0 5] by auto
  ultimately show ?thesis
    using rotation_undoes_concurrent_put [OF demo_built(1) run st(2) demo_valid(3,3) demo_live [of 2] demo_live [of 1], of "''again''"]
      demo_valid(5) run by (simp only: demo_now) blast
qed

text \<open>
  Property C27.  A write that read the owner key before a rotation and stores after it is lost.  \<open>Put\<close>
  loads the data key, another caller's \<open>RotateOwnerKey\<close> succeeds, and the store accepts the sealed value
  all the same, for \<open>PutSecret\<close> does not compare its key id with the owner's: \<open>Put\<close> reports success, the
  secret is there, and no one can read it, for the key it is sealed under is destroyed.
\<close>

theorem put_under_destroyed_key:
  assumes "ring_built r" and "run_vault r ops New_store = (outs, st)" and "store_key st (rf_Owner rf) = Some k"
    and "RotateOwnerKey memory_vault (ring_wrapper (ring_encrypter r)) env (rf_Owner rf) src st = (None, st1)"
    and "NewOwnerKeyID env 1 \<noteq> Inr (ok_KeyID k)"
    and "Ref_Validate rf = None" and "Source_Validate src' = None" and "live env'"
    and "v \<noteq> []" and "int (length v) \<le> MaxValueBytes" and "audit_id env' 5 (ve_now env' 1) \<notin> sto_auditID st1"
  shows "\<exists>meta st2.
    Vault_Put (interleaved memory_vault) (ring_wrapper (ring_encrypter r)) env' rf v src'
      (st, [id, \<lambda>s. snd (RotateOwnerKey memory_vault (ring_wrapper (ring_encrypter r)) env (rf_Owner rf) src s)]) =
      (Inr meta, (st2, [])) \<and>
    store_secret st2 rf \<noteq> None \<and> value_of r st2 rf = None"
proof -
  have sound: "mv.sound r st" using run_ok [OF assms(1) New_store_sound assms(2)] by blast
  from mv.RotateOwnerKey_spec [OF sound assms(1,4)] obtain k' where st1: "mv.sound r st1"
    "store_key st1 (rf_Owner rf) = Some k'" "NewOwnerKeyID env 1 = Inr (ok_KeyID k')" by auto
  have "audit_id env' 5 (ve_now env' 1) \<notin> au_ID ` set (sto_audit st1)"
    using mv.sound_inv [OF st1(1)] assms(11) by (simp add: store_inv_def)
  moreover have "ok_KeyID k' \<noteq> ok_KeyID k" using st1(3) assms(5) by simp
  ultimately show ?thesis
    using mv.stale_put [OF sound assms(3,6,7,8,9,10) st1(1,2)] assms(4) by simp
qed

theorem put_under_destroyed_key_witness:
  "\<exists>meta0 st env st1 meta st2.
    run_vault r1 [PutOp (demo_env 0) demo_secret ''hello'' demo_source] New_store = ([PutOut (Inr meta0)], st) \<and>
    RotateOwnerKey memory_vault (ring_wrapper (ring_encrypter r1)) env (rf_Owner demo_secret) demo_source st = (None, st1) \<and>
    Vault_Put (interleaved memory_vault) (ring_wrapper (ring_encrypter r1)) (demo_env 1) demo_secret ''again'' demo_source
      (st, [id, \<lambda>s. snd (RotateOwnerKey memory_vault (ring_wrapper (ring_encrypter r1)) env (rf_Owner demo_secret) demo_source s)]) =
      (Inr meta, (st2, [])) \<and>
    store_secret st2 demo_secret \<noteq> None \<and> value_of r1 st2 demo_secret = None"
proof -
  obtain meta0 st where st: "mv.sound r1 st"
    "au_ID ` set (sto_audit st) \<subseteq> {audit_id (demo_env 0) 3 0, audit_id (demo_env 0) 5 0}"
    "{ow. store_key st ow \<noteq> None} = {rf_Owner demo_secret}"
    and run: "run_vault r1 [PutOp (demo_env 0) demo_secret ''hello'' demo_source] New_store = ([PutOut (Inr meta0)], st)"
    using demo_put by metis
  obtain k where k: "store_key st (rf_Owner demo_secret) = Some k" using st(3) by auto
  have "NewOwnerKeyID (demo_env 2) 1 \<noteq> NewOwnerKeyID (demo_env 3) 1" by code_simp
  then obtain j :: nat where j: "j = 2 \<or> j = 3" "NewOwnerKeyID (demo_env j) 1 \<noteq> Inr (ok_KeyID k)" by metis
  have "audit_id (demo_env j) 3 0 \<notin> au_ID ` set (sto_audit st)"
    using st(2) j(1) demo_ids [of j 3 0 3] demo_ids [of j 3 0 5] by auto
  then obtain st1 where rot: "RotateOwnerKey memory_vault (ring_wrapper (ring_encrypter r1)) (demo_env j) (rf_Owner demo_secret)
      demo_source st = (None, st1)" and ids: "au_ID ` set (sto_audit st1) = insert (audit_id (demo_env j) 3 0) (au_ID ` set (sto_audit st))"
    using mv.RotateOwnerKey_live [OF st(1) demo_built(1) k demo_valid(3) demo_live [of j]] by auto
  have "mv.sound r1 st1" using mv.RotateOwnerKey_spec [OF st(1) demo_built(1) rot] by simp
  from mv.sound_inv [OF this] have "sto_auditID st1 = insert (audit_id (demo_env j) 3 0) (au_ID ` set (sto_audit st))"
    using ids by (simp add: store_inv_def)
  then have "audit_id (demo_env 1) 5 0 \<notin> sto_auditID st1"
    using st(2) j(1) demo_ids [of 1 5 0 3] demo_ids [of 1 5 0 5] demo_ids [of 1 5 j 3] by auto
  with put_under_destroyed_key [OF demo_built(1) run k rot j(2) demo_valid(1,3) demo_live [of 1], of "''again''"]
    demo_valid(5) run rot show ?thesis by (simp only: demo_now) blast
qed

end
