(* ===== verification/Tuples.thy ===== *)
theory Tuples
  imports Encodings "HOL-Library.Product_Lexorder" "HOL-Library.Word"
begin

text \<open>
  The facts of the authorization pocket, \<open>src/pockets/authorization/logic/tuples\<close>: opaque
  reference components and their validation (\<open>reference.go\<close>), scopes (\<open>scope.go\<close>),
  subjects (\<open>subject.go\<close>), tuples with their total order \<open>Compare\<close> (\<open>tuple.go\<close>), and the
  set keys, queries and change sets of the store port (\<open>store.go\<close>).  The order makes tuples and
  subjects instances of \<open>linorder\<close>, so that sorting with \<open>slices.SortFunc\<close> is \<open>sort\<close>.
  A pointer field that may be nil is an option.
\<close>

section \<open>Reference components\<close>

definition MaxRefFieldLen :: int where
  "MaxRefFieldLen = 256"

definition ErrInvalidRef :: go_error where
  "ErrInvalidRef = Wrapped ''authorization reference: invalid input'' ErrInvalidInput"

text \<open>\<open>unicode.IsControl\<close> of a rune.\<close>

definition is_control :: "nat \<Rightarrow> bool" where
  "is_control r \<longleftrightarrow> r < 0x20 \<or> 0x7F \<le> r \<and> r < 0xA0"

definition ValidateRefField :: "string \<Rightarrow> string \<Rightarrow> error" where
  "ValidateRefField field value =
     (if value = [] then
        Some (Wrapped (field @ '' must not be empty: authorization reference: invalid input'') ErrInvalidRef)
      else if int (length value) > MaxRefFieldLen then
        Some (Wrapped (field @ '' exceeds 256 bytes: authorization reference: invalid input'') ErrInvalidRef)
      else if \<not> valid_utf8 (map byte_val value) then
        Some (Wrapped (field @ '' is not valid UTF-8: authorization reference: invalid input'') ErrInvalidRef)
      else if list_ex is_control (utf8_runes (map byte_val value)) then
        Some (Wrapped (field @ '' contains a control character: authorization reference: invalid input'')
          ErrInvalidRef)
      else None)"

text \<open>The first error of a sequence of validations, each run only when the earlier ones passed.\<close>

definition or_else :: "error \<Rightarrow> error \<Rightarrow> error" where
  "or_else a b = (case a of None \<Rightarrow> b | Some e \<Rightarrow> Some e)"

fun first_error :: "error list \<Rightarrow> error" where
  "first_error [] = None"
| "first_error (e # es) = or_else e (first_error es)"

section \<open>Scopes, subjects, tuples\<close>

type_synonym scope_kind = "8 word"

abbreviation (input) GlobalScope :: scope_kind where
  "GlobalScope \<equiv> 1"

abbreviation (input) ResourceScope :: scope_kind where
  "ResourceScope \<equiv> 2"

datatype scope = Scope (sc_Kind: scope_kind) (sc_Type: string) (sc_ID: string)

datatype subject_ref = SubjectRef (sj_Type: string) (sj_ID: string) (sj_Relation: string)

datatype tuple = Tuple (tp_Scope: scope) (tp_Relation: string) (tp_Subject: subject_ref)

definition Global :: scope where
  "Global = Scope GlobalScope [] []"

definition On :: "string \<Rightarrow> string \<Rightarrow> scope" where
  "On resourceType resourceID = Scope ResourceScope resourceType resourceID"

definition Scope_Validate :: "scope \<Rightarrow> error" where
  "Scope_Validate s =
     (if sc_Kind s = GlobalScope then
        if sc_Type s \<noteq> [] \<or> sc_ID s \<noteq> [] then
          Some (Wrapped ''global scope must not have resource coordinates: authorization reference: invalid input''
            ErrInvalidRef)
        else None
      else if sc_Kind s = ResourceScope then
        or_else (ValidateRefField ''resource type'' (sc_Type s)) (ValidateRefField ''resource id'' (sc_ID s))
      else
        Some (Wrapped (''unknown scope kind '' @ print_nat (uint (sc_Kind s)) @
          '': authorization reference: invalid input'') ErrInvalidRef))"

definition IsUserset :: "subject_ref \<Rightarrow> bool" where
  "IsUserset s \<longleftrightarrow> sj_Relation s \<noteq> []"

definition Subject_Validate :: "subject_ref \<Rightarrow> error" where
  "Subject_Validate s =
     or_else (ValidateRefField ''subject type'' (sj_Type s))
       (or_else (ValidateRefField ''subject id'' (sj_ID s))
         (if sj_Relation s \<noteq> [] then ValidateRefField ''subject relation'' (sj_Relation s) else None))"

definition Tuple_Validate :: "tuple \<Rightarrow> error" where
  "Tuple_Validate t =
     or_else (Scope_Validate (tp_Scope t))
       (or_else (ValidateRefField ''relation'' (tp_Relation t)) (Subject_Validate (tp_Subject t)))"

text \<open>\<open>cmp.Compare\<close> and \<open>cmp.Or\<close>.\<close>

definition cmp_compare :: "'a::linorder \<Rightarrow> 'a \<Rightarrow> int" where
  "cmp_compare a b = (if a < b then -1 else if b < a then 1 else 0)"

fun cmp_or :: "int list \<Rightarrow> int" where
  "cmp_or [] = 0"
| "cmp_or (c # cs) = (if c \<noteq> 0 then c else cmp_or cs)"

definition Compare :: "tuple \<Rightarrow> tuple \<Rightarrow> int" where
  "Compare a b =
     cmp_or
       [cmp_compare (sc_Kind (tp_Scope a)) (sc_Kind (tp_Scope b)),
        cmp_compare (sc_Type (tp_Scope a)) (sc_Type (tp_Scope b)),
        cmp_compare (sc_ID (tp_Scope a)) (sc_ID (tp_Scope b)),
        cmp_compare (tp_Relation a) (tp_Relation b),
        cmp_compare (sj_Type (tp_Subject a)) (sj_Type (tp_Subject b)),
        cmp_compare (sj_ID (tp_Subject a)) (sj_ID (tp_Subject b)),
        cmp_compare (sj_Relation (tp_Subject a)) (sj_Relation (tp_Subject b))]"

subsection \<open>The order of tuples and subjects\<close>

definition subject_key :: "subject_ref \<Rightarrow> string \<times> string \<times> string" where
  "subject_key s = (sj_Type s, sj_ID s, sj_Relation s)"

definition tuple_key :: "tuple \<Rightarrow> scope_kind \<times> string \<times> string \<times> string \<times> string \<times> string \<times> string" where
  "tuple_key t =
     (sc_Kind (tp_Scope t), sc_Type (tp_Scope t), sc_ID (tp_Scope t), tp_Relation t, subject_key (tp_Subject t))"

lemma subject_key_inj: "subject_key a = subject_key b \<longleftrightarrow> a = b"
  by (auto simp: subject_key_def intro: subject_ref.expand)

lemma tuple_key_inj: "tuple_key a = tuple_key b \<longleftrightarrow> a = b"
  by (auto simp: tuple_key_def subject_key_inj intro: tuple.expand scope.expand)

instantiation subject_ref :: linorder
begin

definition less_eq_subject_ref :: "subject_ref \<Rightarrow> subject_ref \<Rightarrow> bool" where
  "a \<le> b \<longleftrightarrow> subject_key a \<le> subject_key b"

definition less_subject_ref :: "subject_ref \<Rightarrow> subject_ref \<Rightarrow> bool" where
  "a < b \<longleftrightarrow> subject_key a < subject_key b"

instance
  by standard (auto simp: less_eq_subject_ref_def less_subject_ref_def subject_key_inj [symmetric])

end

instantiation tuple :: linorder
begin

definition less_eq_tuple :: "tuple \<Rightarrow> tuple \<Rightarrow> bool" where
  "a \<le> b \<longleftrightarrow> tuple_key a \<le> tuple_key b"

definition less_tuple :: "tuple \<Rightarrow> tuple \<Rightarrow> bool" where
  "a < b \<longleftrightarrow> tuple_key a < tuple_key b"

instance
  by standard (auto simp: less_eq_tuple_def less_tuple_def tuple_key_inj [symmetric])

end

lemma cmp_or_compare:
  "cmp_or (cmp_compare a b # cs) < 0 \<longleftrightarrow> a < b \<or> a = b \<and> cmp_or cs < 0"
  "cmp_or (cmp_compare a b # cs) > 0 \<longleftrightarrow> b < a \<or> b = a \<and> cmp_or cs > 0"
  by (auto simp: cmp_compare_def)

lemma pair_less: "(a, b) < (c, d) \<longleftrightarrow> a < c \<or> a = c \<and> b < d"
  for a c :: "'a::linorder" and b d :: "'b::linorder"
  by (auto simp: less_prod_simp)

lemma Compare_less: "Compare a b < 0 \<longleftrightarrow> a < b"
  unfolding Compare_def less_tuple_def tuple_key_def subject_key_def pair_less cmp_or_compare
  by simp

lemma Compare_greater: "Compare a b > 0 \<longleftrightarrow> b < a"
  unfolding Compare_def less_tuple_def tuple_key_def subject_key_def pair_less cmp_or_compare
  by simp

lemma Compare_eq: "Compare a b = 0 \<longleftrightarrow> a = b"
  using Compare_less [of a b] Compare_greater [of a b] by (metis linorder_less_linear less_irrefl)

section \<open>Set keys, queries, changes\<close>

record set_key =
  sk_Reverse :: bool
  sk_Scope :: scope
  sk_Relation :: string
  sk_Subject :: subject_ref

abbreviation (input) zero_scope :: scope where
  "zero_scope \<equiv> Scope 0 [] []"

abbreviation (input) zero_subject :: subject_ref where
  "zero_subject \<equiv> SubjectRef [] [] []"

definition forward_key :: "scope \<Rightarrow> string \<Rightarrow> set_key" where
  "forward_key sc rel = \<lparr>sk_Reverse = False, sk_Scope = sc, sk_Relation = rel, sk_Subject = zero_subject\<rparr>"

definition reverse_key :: "subject_ref \<Rightarrow> set_key" where
  "reverse_key sj = \<lparr>sk_Reverse = True, sk_Scope = zero_scope, sk_Relation = [], sk_Subject = sj\<rparr>"

definition SetKey_Validate :: "set_key \<Rightarrow> error" where
  "SetKey_Validate k =
     (if sk_Reverse k then
        if sk_Scope k \<noteq> zero_scope \<or> sk_Relation k \<noteq> [] then
          Some (Wrapped ''reverse tuple set has resource coordinates: invalid input'' ErrInvalidInput)
        else Subject_Validate (sk_Subject k)
      else if sk_Subject k \<noteq> zero_subject then
        Some (Wrapped ''forward tuple set has a subject: invalid input'' ErrInvalidInput)
      else or_else (Scope_Validate (sk_Scope k)) (ValidateRefField ''relation'' (sk_Relation k)))"

definition SetKey_holds :: "set_key \<Rightarrow> tuple \<Rightarrow> bool" where
  "SetKey_holds k f \<longleftrightarrow>
     (sk_Reverse k \<and> tp_Subject f = sk_Subject k) \<or>
     (\<not> sk_Reverse k \<and> tp_Scope f = sk_Scope k \<and> tp_Relation f = sk_Relation k)"

record tuple_query =
  tq_Scope :: "scope option"
  tq_ResourceOnly :: bool
  tq_ResourceType :: string
  tq_Relation :: string
  tq_Subject :: "subject_ref option"
  tq_SubjectType :: string
  tq_SubjectID :: string
  tq_ConcreteOnly :: bool
  tq_After :: "tuple option"
  tq_Limit :: int

definition Query_Validate :: "tuple_query \<Rightarrow> error" where
  "Query_Validate q =
     first_error
       [if tq_Limit q < 0 then Some (Wrapped ''negative tuple limit: invalid input'' ErrInvalidInput) else None,
        (case tq_Scope q of
           Some sc \<Rightarrow>
             or_else (Scope_Validate sc)
               (if tq_ResourceOnly q \<and> sc_Kind sc \<noteq> ResourceScope then
                  Some (Wrapped ''resource-only tuple query names global scope: invalid input'' ErrInvalidInput)
                else None)
         | None \<Rightarrow> None),
        if tq_ResourceType q \<noteq> [] then ValidateRefField ''resource type'' (tq_ResourceType q) else None,
        (case tq_Scope q of
           Some sc \<Rightarrow>
             if tq_ResourceType q \<noteq> [] \<and> (sc_Kind sc \<noteq> ResourceScope \<or> sc_Type sc \<noteq> tq_ResourceType q) then
               Some (Wrapped ''tuple scope and resource type disagree: invalid input'' ErrInvalidInput)
             else None
         | None \<Rightarrow> None),
        if tq_Relation q \<noteq> [] then ValidateRefField ''relation'' (tq_Relation q) else None,
        (case tq_Subject q of
           Some sj \<Rightarrow>
             or_else (Subject_Validate sj)
               (if tq_SubjectType q \<noteq> [] \<and> tq_SubjectType q \<noteq> sj_Type sj \<or>
                   tq_SubjectID q \<noteq> [] \<and> tq_SubjectID q \<noteq> sj_ID sj then
                  Some (Wrapped ''tuple subject filters disagree: invalid input'' ErrInvalidInput)
                else None)
         | None \<Rightarrow> None),
        if tq_SubjectType q \<noteq> [] then ValidateRefField ''subject type'' (tq_SubjectType q) else None,
        if tq_SubjectID q \<noteq> [] then ValidateRefField ''subject id'' (tq_SubjectID q) else None,
        (case tq_Subject q of
           Some sj \<Rightarrow>
             if tq_ConcreteOnly q \<and> IsUserset sj then
               Some (Wrapped ''concrete tuple query names a userset: invalid input'' ErrInvalidInput)
             else None
         | None \<Rightarrow> None),
        (case tq_After q of Some t \<Rightarrow> Tuple_Validate t | None \<Rightarrow> None)]"

definition Query_Matches :: "tuple_query \<Rightarrow> tuple \<Rightarrow> bool" where
  "Query_Matches q t \<longleftrightarrow>
     (tq_Scope q = None \<or> tq_Scope q = Some (tp_Scope t)) \<and>
     (\<not> tq_ResourceOnly q \<or> sc_Kind (tp_Scope t) = ResourceScope) \<and>
     (tq_ResourceType q = [] \<or>
      (sc_Kind (tp_Scope t) = ResourceScope \<and> tq_ResourceType q = sc_Type (tp_Scope t))) \<and>
     (tq_Relation q = [] \<or> tq_Relation q = tp_Relation t) \<and>
     (\<not> tq_ConcreteOnly q \<or> \<not> IsUserset (tp_Subject t)) \<and>
     (tq_SubjectType q = [] \<or> tq_SubjectType q = sj_Type (tp_Subject t)) \<and>
     (tq_SubjectID q = [] \<or> tq_SubjectID q = sj_ID (tp_Subject t)) \<and>
     (tq_Subject q = None \<or> tq_Subject q = Some (tp_Subject t))"

record tuple_changes =
  ch_Add :: "tuple list"
  ch_Remove :: "tuple list"

definition Changes_Validate :: "tuple_changes \<Rightarrow> error" where
  "Changes_Validate c =
     or_else (first_error (map Tuple_Validate (ch_Add c)))
       (first_error
         (map (\<lambda>t. or_else (Tuple_Validate t)
                (if t \<in> set (ch_Add c) then
                   Some (Wrapped ''tuple appears in both add and remove sets: invalid input'' ErrInvalidInput)
                 else None))
           (ch_Remove c)))"

section \<open>Facts about validation\<close>

lemma or_else_None [simp]: "or_else a b = None \<longleftrightarrow> a = None \<and> b = None"
  by (cases a) (simp_all add: or_else_def)

lemma first_error_None [simp]: "first_error es = None \<longleftrightarrow> (\<forall>e\<in>set es. e = None)"
  by (induction es) auto

definition valid_ref :: "string \<Rightarrow> bool" where
  "valid_ref s \<longleftrightarrow>
     s \<noteq> [] \<and> int (length s) \<le> MaxRefFieldLen \<and> valid_utf8 (map byte_val s) \<and>
     list_all (\<lambda>r. \<not> is_control r) (utf8_runes (map byte_val s))"

lemma ValidateRefField_None [simp]: "ValidateRefField field s = None \<longleftrightarrow> valid_ref s"
  by (auto simp: ValidateRefField_def valid_ref_def list_ex_iff list_all_iff)

lemma ValidateRefField_kind: "ValidateRefField field s = Some e \<Longrightarrow> errors_is e ErrInvalidRef"
  by (auto simp: ValidateRefField_def ErrInvalidRef_def split: if_splits)

lemma valid_ref_nonempty [simp]: "\<not> valid_ref []"
  by (simp add: valid_ref_def)

lemma valid_subject [simp]:
  "Subject_Validate (SubjectRef st i r) = None \<longleftrightarrow> valid_ref st \<and> valid_ref i \<and> (r = [] \<or> valid_ref r)"
  by (auto simp: Subject_Validate_def)

lemma valid_on [simp]: "Scope_Validate (On rt i) = None \<longleftrightarrow> valid_ref rt \<and> valid_ref i"
  by (simp add: Scope_Validate_def On_def)

lemma On_inject [simp]: "On a b = On c d \<longleftrightarrow> a = c \<and> b = d"
  by (simp add: On_def)

lemma On_sel [simp]: "sc_Kind (On rt i) = ResourceScope" "sc_Type (On rt i) = rt" "sc_ID (On rt i) = i"
  by (simp_all add: On_def)

lemma resource_scope_On: "sc_Kind s = ResourceScope \<Longrightarrow> s = On (sc_Type s) (sc_ID s)"
  by (cases s) (simp add: On_def)

lemma forward_key_holds [simp]:
  "SetKey_holds (forward_key sc rel) f \<longleftrightarrow> tp_Scope f = sc \<and> tp_Relation f = rel"
  by (simp add: SetKey_holds_def forward_key_def)

lemma reverse_key_holds [simp]: "SetKey_holds (reverse_key sj) f \<longleftrightarrow> tp_Subject f = sj"
  by (simp add: SetKey_holds_def reverse_key_def)

lemma forward_key_valid [simp]:
  "SetKey_Validate (forward_key sc rel) = None \<longleftrightarrow> Scope_Validate sc = None \<and> valid_ref rel"
  by (simp add: SetKey_Validate_def forward_key_def)

lemma reverse_key_valid [simp]: "SetKey_Validate (reverse_key sj) = Subject_Validate sj"
  by (simp add: SetKey_Validate_def reverse_key_def)

end
