(* ===== verification/Tuple_Reads.thy ===== *)
theory Tuple_Reads
  imports Tuples
begin

text \<open>
  Reading facts: the \<open>Reader\<close> port of \<open>logic/tuples/store.go\<close> as a record of operations, and the
  reads of the in-memory authority (\<open>src/pockets/authorization/stores/memory/tuples.go\<close>,
  \<open>read_snapshot.go\<close>).  The Go map of facts is a list, its order the order of a \<open>range\<close> loop; every
  read that ranges over it sorts what it returns.  The argument \<open>ctx\<close> is what \<open>ctx.Err()\<close>
  returns during the call.
\<close>

section \<open>The port\<close>

record tuple_reader =
  rd_Contains :: "tuple \<Rightarrow> bool res"
  rd_ContainsMany :: "tuple list \<Rightarrow> bool list res"
  rd_ReadSets :: "set_key list \<Rightarrow> int \<Rightarrow> tuple list list res"
  rd_Lookup :: "tuple_query \<Rightarrow> tuple list res"

definition ErrReadLimit :: go_error where
  "ErrReadLimit = Wrapped ''authorization tuple read limit exceeded: unavailable'' ErrUnavailable"

definition ErrSnapshotClosed :: go_error where
  "ErrSnapshotClosed = Wrapped ''authorization tuple snapshot closed: unavailable'' ErrUnavailable"

text \<open>A result that is an error when one of the checks before it failed.\<close>

definition guarded :: "error \<Rightarrow> 'a res \<Rightarrow> 'a res" where
  "guarded e r = (case e of Some err \<Rightarrow> Inl err | None \<Rightarrow> r)"

lemma guarded_simps [simp]: "guarded None r = r" "guarded (Some e) r = Inl e"
  by (simp_all add: guarded_def)

lemma guarded_Inr: "guarded e r = Inr x \<longleftrightarrow> e = None \<and> r = Inr x"
  by (cases e) simp_all

section \<open>The in-memory authority\<close>

definition Contains :: "error \<Rightarrow> tuple \<Rightarrow> tuple list \<Rightarrow> bool res" where
  "Contains ctx f facts = guarded (or_else (Tuple_Validate f) ctx) (Inr (f \<in> set facts))"

definition ContainsMany :: "error \<Rightarrow> tuple list \<Rightarrow> tuple list \<Rightarrow> bool list res" where
  "ContainsMany ctx fs facts =
     guarded (or_else (first_error (map Tuple_Validate fs)) ctx) (Inr (map (\<lambda>f. f \<in> set facts) fs))"

fun scan_facts :: "set_key \<Rightarrow> int \<Rightarrow> tuple list \<Rightarrow> int \<Rightarrow> tuple list \<Rightarrow> (int \<times> tuple list) res" where
  "scan_facts k maxResults [] held out = Inr (held, out)"
| "scan_facts k maxResults (f # fs) held out =
     (if SetKey_holds k f then
        if maxResults > 0 \<and> held + 1 > maxResults then Inl ErrReadLimit
        else scan_facts k maxResults fs (held + 1) (out @ [f])
      else scan_facts k maxResults fs held out)"

fun scan_keys :: "int \<Rightarrow> tuple list \<Rightarrow> set_key list \<Rightarrow> int \<Rightarrow> tuple list list res" where
  "scan_keys maxResults facts [] held = Inr []"
| "scan_keys maxResults facts (k # ks) held =
     (case scan_facts k maxResults facts held [] of
        Inl e \<Rightarrow> Inl e
      | Inr (held', out) \<Rightarrow>
          (case scan_keys maxResults facts ks held' of
             Inl e \<Rightarrow> Inl e
           | Inr outs \<Rightarrow> Inr (sort out # outs)))"

definition ReadSets :: "error \<Rightarrow> set_key list \<Rightarrow> int \<Rightarrow> tuple list \<Rightarrow> tuple list list res" where
  "ReadSets ctx ks maxResults facts =
     guarded
       (first_error
         [if maxResults < 0 then Some ErrInvalidInput else None,
          first_error (map SetKey_Validate ks), ctx])
       (scan_keys maxResults facts ks 0)"

definition Tuples_Lookup :: "error \<Rightarrow> tuple_query \<Rightarrow> tuple list \<Rightarrow> tuple list res" where
  "Tuples_Lookup ctx q facts =
     guarded (or_else (Query_Validate q) ctx)
       (Inr (let out = sort (filter (\<lambda>f. Query_Matches q f \<and>
                        (case tq_After q of None \<Rightarrow> True | Some a \<Rightarrow> Compare f a > 0)) facts)
             in if tq_Limit q > 0 \<and> int (length out) > tq_Limit q then take (nat (tq_Limit q)) out else out))"

text \<open>
  \<open>ReadTupleSnapshot\<close> clones the facts and hands out a view that reads the clone until the
  callback returns; \<open>closed\<close> says whether it has.
\<close>

definition snapshot_check :: "bool \<Rightarrow> error \<Rightarrow> error" where
  "snapshot_check closed ctx = (if closed then Some ErrSnapshotClosed else ctx)"

definition snapshot_reads :: "bool \<Rightarrow> error \<Rightarrow> tuple list \<Rightarrow> tuple_reader" where
  "snapshot_reads closed ctx facts =
     (let err = snapshot_check closed ctx in
      \<lparr>rd_Contains = \<lambda>f. guarded err (Contains ctx f facts),
       rd_ContainsMany = \<lambda>fs. guarded err (ContainsMany ctx fs facts),
       rd_ReadSets = \<lambda>ks n. guarded err (ReadSets ctx ks n facts),
       rd_Lookup = \<lambda>q. guarded err (Tuples_Lookup ctx q facts)\<rparr>)"

definition ReadTupleSnapshot ::
  "error \<Rightarrow> (tuple_reader \<Rightarrow> 'a res) \<Rightarrow> tuple list \<Rightarrow> 'a res" where
  "ReadTupleSnapshot ctx fn facts =
     guarded ctx
       (case fn (snapshot_reads False ctx facts) of Inl e \<Rightarrow> Inl e | Inr x \<Rightarrow> guarded ctx (Inr x))"

section \<open>What the reads return\<close>

lemma scan_facts_unbounded:
  "scan_facts k 0 fs held out =
     Inr (held + int (length (filter (SetKey_holds k) fs)), out @ filter (SetKey_holds k) fs)"
  by (induction fs arbitrary: held out) auto

lemma scan_facts_bounded:
  assumes "0 \<le> n"
  shows "scan_facts k n fs held out =
     (if 0 < n \<and> n < held + int (length (filter (SetKey_holds k) fs)) \<and> filter (SetKey_holds k) fs \<noteq> []
      then Inl ErrReadLimit
      else Inr (held + int (length (filter (SetKey_holds k) fs)), out @ filter (SetKey_holds k) fs))"
  using assms by (induction fs arbitrary: held out) auto

lemma scan_keys_unbounded:
  "scan_keys 0 facts ks held = Inr (map (\<lambda>k. sort (filter (SetKey_holds k) facts)) ks)"
  by (induction ks arbitrary: held) (simp_all add: scan_facts_unbounded)

definition held_rows :: "tuple list \<Rightarrow> set_key list \<Rightarrow> int" where
  "held_rows facts ks = (\<Sum>k\<leftarrow>ks. int (length (filter (SetKey_holds k) facts)))"

lemma held_rows_nonneg: "0 \<le> held_rows facts ks"
  by (induction ks) (simp_all add: held_rows_def)

lemma scan_keys_bounded:
  assumes "0 < n" "held \<le> n"
  shows "scan_keys n facts ks held =
     (if n < held + held_rows facts ks then Inl ErrReadLimit
      else Inr (map (\<lambda>k. sort (filter (SetKey_holds k) facts)) ks))"
  using assms(2)
proof (induction ks arbitrary: held)
  case (Cons k ks)
  let ?m = "int (length (filter (SetKey_holds k) facts))"
  show ?case
  proof (cases "n < held + ?m")
    case True
    then have "filter (SetKey_holds k) facts \<noteq> []" using Cons.prems by auto
    then show ?thesis
      using True assms(1) held_rows_nonneg [of facts ks]
      by (simp add: scan_facts_bounded held_rows_def)
  next
    case False
    then show ?thesis using assms(1) by (simp add: scan_facts_bounded Cons.IH held_rows_def add.assoc)
  qed
qed (use assms in \<open>simp add: held_rows_def\<close>)

lemma read_one_set:
  assumes "SetKey_Validate k = None"
  shows "ReadSets None [k] 0 facts = Inr [sort (filter (SetKey_holds k) facts)]"
  using assms by (simp add: ReadSets_def scan_facts_unbounded or_else_def)

lemma read_one_set_Inr:
  assumes "ReadSets ctx [k] 0 facts = Inr sets"
  shows "sets = [sort (filter (SetKey_holds k) facts)]"
  using assms by (auto simp: ReadSets_def scan_facts_unbounded guarded_Inr)

lemma sort_same:
  fixes xs ys :: "'a::linorder list"
  assumes "mset xs = mset ys"
  shows "sort (filter P xs) = sort (filter P ys)"
  using assms by (metis mset_filter sorted_list_of_multiset_mset)

lemma scan_keys_same:
  assumes "mset facts = mset facts'" "0 \<le> n" "0 < n \<longrightarrow> held \<le> n"
  shows "scan_keys n facts ks held = scan_keys n facts' ks held"
proof (cases "n = 0")
  case True
  then show ?thesis using sort_same [OF assms(1)] by (simp add: scan_keys_unbounded)
next
  case False
  have "held_rows facts ks = held_rows facts' ks"
    using assms(1) by (simp add: held_rows_def) (metis (no_types) mset_filter size_mset)
  moreover have "0 < n" using False assms(2) by simp
  ultimately show ?thesis
    using assms(3) sort_same [OF assms(1)] by (simp add: scan_keys_bounded)
qed

end
