(* ===== verification/Membership.thy ===== *)
theory Membership
  imports Tuple_Reads
begin

text \<open>
  Model-scoped graph reads: the tuple shapes a model allows
  (\<open>logic/relationships/read_model.go\<close>), the portable graph reader over raw facts
  (\<open>logic/decisions/tuple_graph_reader.go\<close>) and the in-memory relationship reader
  (\<open>stores/memory/memory.go\<close>).  Both expand a concrete subject to everything it holds a relation on,
  with a queue and a set of seen references; the loop they share is \<open>explore\<close>, shown to compute
  the reachable set, or to report overflow exactly when that set is larger than the bound.  The
  contract the decision engine relies on is the locale \<open>graph_reads\<close> of theory Graph_Reads, which
  both readers implement.
\<close>

section \<open>Allowed tuple shapes\<close>

type_synonym subject_rule = "string \<times> string \<times> string \<times> string"
  \<comment> \<open>resource type, relation, subject type, subject relation\<close>

datatype read_model = ReadModel (rm_allowed: "subject_rule list")

definition NewReadModel :: "subject_rule list \<Rightarrow> read_model" where
  "NewReadModel rules = ReadModel (remdups_adj (sort rules))"

definition Allows :: "read_model \<Rightarrow> string \<Rightarrow> string \<Rightarrow> string \<Rightarrow> string \<Rightarrow> bool" where
  "Allows m rt rel st srel \<longleftrightarrow> (rt, rel, st, srel) \<in> set (rm_allowed m)"

lemma Allows_NewReadModel [simp]:
  "Allows (NewReadModel rules) rt rel st srel \<longleftrightarrow> (rt, rel, st, srel) \<in> set rules"
  by (simp add: Allows_def NewReadModel_def)

definition ErrExpansionBudgetExceeded :: go_error where
  "ErrExpansionBudgetExceeded =
     Wrapped ''relationship: group-expansion budget exceeded: unavailable'' ErrUnavailable"

definition ErrEvaluationLimit :: go_error where
  "ErrEvaluationLimit = Wrapped ''authorization: evaluation budget exhausted: unavailable'' ErrUnavailable"

section \<open>The exploration loop\<close>

text \<open>
  The inner loop over the references found from the current one: a reference already seen is
  skipped, one more than the bound allows stops the whole walk.
\<close>

fun discover :: "int \<Rightarrow> 'a list \<Rightarrow> 'a list \<Rightarrow> 'a list \<Rightarrow> 'a list \<times> 'a list \<times> bool" where
  "discover bound [] seen queue = (seen, queue, False)"
| "discover bound (x # xs) seen queue =
     (if x \<in> set seen then discover bound xs seen queue
      else if bound > 0 \<and> int (length seen) \<ge> bound then (seen, queue, True)
      else discover bound xs (x # seen) (queue @ [x]))"

partial_function (option) explore ::
  "('a \<Rightarrow> 'a list res) \<Rightarrow> int \<Rightarrow> 'a list \<Rightarrow> 'a list \<Rightarrow> ('a list \<times> bool) res option" where
  "explore succs bound seen queue =
     (case queue of
        [] \<Rightarrow> Some (Inr (seen, False))
      | cur # rest \<Rightarrow>
          (case succs cur of
             Inl e \<Rightarrow> Some (Inl e)
           | Inr xs \<Rightarrow>
               (case discover bound xs seen rest of
                  (seen', queue', overflow) \<Rightarrow>
                    if overflow then Some (Inr (seen', True)) else explore succs bound seen' queue')))"

text \<open>The edges the loop follows, and what is reachable along them.\<close>

definition steps :: "('a \<Rightarrow> 'a list res) \<Rightarrow> ('a \<times> 'a) set" where
  "steps succs = {(a, b). \<exists>xs. succs a = Inr xs \<and> b \<in> set xs}"

definition reached :: "('a \<Rightarrow> 'a list res) \<Rightarrow> 'a \<Rightarrow> 'a set" where
  "reached succs a = (steps succs)\<^sup>* `` {a}"

text \<open>
  The invariant: the seen references are distinct and reachable, everything queued is seen, and
  a seen reference not queued any more has all its successors seen.
\<close>

definition exploring :: "('a \<Rightarrow> 'a list res) \<Rightarrow> int \<Rightarrow> 'a \<Rightarrow> 'a list \<Rightarrow> 'a list \<Rightarrow> bool" where
  "exploring succs bound a seen queue \<longleftrightarrow>
     distinct seen \<and> a \<in> set seen \<and> set seen \<subseteq> reached succs a \<and> set queue \<subseteq> set seen \<and>
     (0 < bound \<longrightarrow> int (length seen) \<le> bound) \<and>
     (\<forall>x\<in>set seen - set queue. \<forall>y. (x, y) \<in> steps succs \<longrightarrow> y \<in> set seen)"

lemma discover_spec:
  assumes "discover bound xs seen queue = (seen', queue', overflow)"
    and "distinct seen" and "0 < bound \<longrightarrow> int (length seen) \<le> bound"
  shows "distinct seen'" "set seen \<subseteq> set seen'" "set seen' \<subseteq> set seen \<union> set xs"
    "0 < bound \<longrightarrow> int (length seen') \<le> bound"
    "set queue' = set queue \<union> (set seen' - set seen)"
    "\<not> overflow \<Longrightarrow> set xs \<subseteq> set seen'"
    "overflow \<Longrightarrow> 0 < bound \<and> int (length seen') = bound \<and> (\<exists>x\<in>set xs. x \<notin> set seen')"
proof -
  have "distinct seen' \<and> set seen \<subseteq> set seen' \<and> set seen' \<subseteq> set seen \<union> set xs \<and>
      (0 < bound \<longrightarrow> int (length seen') \<le> bound) \<and> set queue' = set queue \<union> (set seen' - set seen) \<and>
      (\<not> overflow \<longrightarrow> set xs \<subseteq> set seen') \<and>
      (overflow \<longrightarrow> 0 < bound \<and> int (length seen') = bound \<and> (\<exists>x\<in>set xs. x \<notin> set seen'))"
    using assms
  proof (induction xs arbitrary: seen queue)
    case (Cons x xs)
    consider "x \<in> set seen" | "x \<notin> set seen" "bound > 0 \<and> int (length seen) \<ge> bound"
      | "x \<notin> set seen" "\<not> (bound > 0 \<and> int (length seen) \<ge> bound)" by blast
    then show ?case
    proof cases
      case 1
      then have "discover bound xs seen queue = (seen', queue', overflow)" using Cons.prems(1) by simp
      from Cons.IH [OF this Cons.prems(2,3)] 1 show ?thesis by auto
    next
      case 2
      then show ?thesis using Cons.prems by auto
    next
      case 3
      then have "discover bound xs (x # seen) (queue @ [x]) = (seen', queue', overflow)"
        using Cons.prems(1) by (auto split: if_splits)
      moreover have "distinct (x # seen)" "0 < bound \<longrightarrow> int (length (x # seen)) \<le> bound"
        using 3 Cons.prems(2) by auto
      ultimately have "distinct seen' \<and> set (x # seen) \<subseteq> set seen' \<and> set seen' \<subseteq> set (x # seen) \<union> set xs \<and>
          (0 < bound \<longrightarrow> int (length seen') \<le> bound) \<and>
          set queue' = set (queue @ [x]) \<union> (set seen' - set (x # seen)) \<and>
          (\<not> overflow \<longrightarrow> set xs \<subseteq> set seen') \<and>
          (overflow \<longrightarrow> 0 < bound \<and> int (length seen') = bound \<and> (\<exists>x\<in>set xs. x \<notin> set seen'))"
        by (rule Cons.IH)
      then show ?thesis using 3(1) by auto
    qed
  qed auto
  then show "distinct seen'" "set seen \<subseteq> set seen'" "set seen' \<subseteq> set seen \<union> set xs"
    "0 < bound \<longrightarrow> int (length seen') \<le> bound"
    "set queue' = set queue \<union> (set seen' - set seen)"
    "\<not> overflow \<Longrightarrow> set xs \<subseteq> set seen'"
    "overflow \<Longrightarrow> 0 < bound \<and> int (length seen') = bound \<and> (\<exists>x\<in>set xs. x \<notin> set seen')"
    by simp_all
qed

lemma reached_step: "x \<in> reached succs a \<Longrightarrow> (x, y) \<in> steps succs \<Longrightarrow> y \<in> reached succs a"
  by (auto simp: reached_def)

lemma exploring_step:
  assumes inv: "exploring succs bound a seen (cur # rest)"
    and succs: "succs cur = Inr xs"
    and disc: "discover bound xs seen rest = (seen', queue', overflow)"
  shows "set seen' \<subseteq> reached succs a" "\<not> overflow \<Longrightarrow> exploring succs bound a seen' queue'"
proof -
  note spec = discover_spec [OF disc]
  have i: "distinct seen" "a \<in> set seen" "set seen \<subseteq> reached succs a" "set rest \<subseteq> set seen" "cur \<in> set seen"
    "0 < bound \<longrightarrow> int (length seen) \<le> bound"
    using inv by (auto simp: exploring_def)
  have closed: "y \<in> set seen" if "x \<in> set seen" "x \<notin> set rest" "x \<noteq> cur" "(x, y) \<in> steps succs" for x y
    using inv that by (auto simp: exploring_def)
  have xs: "(cur, y) \<in> steps succs \<longleftrightarrow> y \<in> set xs" for y
    using succs by (auto simp: steps_def)
  have new: "set xs \<subseteq> reached succs a"
    using reached_step [of cur succs a] i(3,5) xs by blast
  show sub: "set seen' \<subseteq> reached succs a"
    using spec(3) [OF i(1,6)] i(3) new by blast
  assume ok: "\<not> overflow"
  have cl: "y \<in> set seen'" if x: "x \<in> set seen'" "x \<notin> set queue'" and step: "(x, y) \<in> steps succs" for x y
  proof -
    have "x \<in> set seen" "x \<notin> set rest" using x spec(5) [OF i(1,6)] by auto
    then show ?thesis
      using closed [of x y] step xs [of y] spec(6) [OF i(1,6) ok] spec(2) [OF i(1,6)] by blast
  qed
  have q: "set queue' \<subseteq> set seen'"
    using spec(5) [OF i(1,6)] spec(2) [OF i(1,6)] i(4) by blast
  show "exploring succs bound a seen' queue'"
    unfolding exploring_def
    using spec(1,2,4) [OF i(1,6)] i(2) sub q cl by blast
qed

definition explored :: "('a \<Rightarrow> 'a list res) \<Rightarrow> int \<Rightarrow> 'a \<Rightarrow> 'a list \<times> bool \<Rightarrow> bool" where
  "explored succs bound a r \<longleftrightarrow>
     (case r of (found, overflow) \<Rightarrow>
        distinct found \<and> set found \<subseteq> reached succs a \<and> (0 < bound \<longrightarrow> int (length found) \<le> bound) \<and>
        (if overflow then 0 < bound \<and> int (length found) = bound \<and> (\<exists>x\<in>reached succs a. x \<notin> set found)
         else set found = reached succs a))"

lemma exploring_done:
  assumes "exploring succs bound a seen []"
  shows "explored succs bound a (seen, False)"
proof -
  have "reached succs a \<subseteq> set seen"
  proof
    fix y assume "y \<in> reached succs a"
    then have "(a, y) \<in> (steps succs)\<^sup>*" by (simp add: reached_def)
    then show "y \<in> set seen"
      by (induction rule: rtrancl_induct) (use assms in \<open>auto simp: exploring_def\<close>)
  qed
  with assms show ?thesis by (auto simp: exploring_def explored_def)
qed

lemma explore_partial:
  assumes "explore succs bound seen queue = Some r"
  shows "\<forall>x. r = Inr x \<longrightarrow> exploring succs bound a seen queue \<longrightarrow> explored succs bound a x"
  using assms
proof (induction rule: explore.raw_induct [rotated, consumes 1, case_names step])
  case (step explore' succs bound seen queue r)
  show ?case
  proof (intro allI impI)
    fix x assume r: "r = Inr x" and inv: "exploring succs bound a seen queue"
    show "explored succs bound a x"
    proof (cases queue)
      case Nil
      then show ?thesis using step(2) r exploring_done [of succs bound a seen] inv by auto
    next
      case (Cons cur rest)
      then obtain xs where succs: "succs cur = Inr xs" using step(2) r by (cases "succs cur") auto
      obtain seen' queue' overflow where disc: "discover bound xs seen rest = (seen', queue', overflow)"
        by (cases "discover bound xs seen rest") auto
      have inv': "exploring succs bound a seen (cur # rest)" using inv Cons by simp
      show ?thesis
      proof (cases overflow)
        case True
        have "distinct seen" "0 < bound \<longrightarrow> int (length seen) \<le> bound" using inv by (auto simp: exploring_def)
        note spec = discover_spec [OF disc this]
        have "cur \<in> reached succs a" using inv' by (auto simp: exploring_def)
        then have "y \<in> reached succs a" if "y \<in> set xs" for y
          using reached_step [of cur succs a y] succs that by (auto simp: steps_def)
        then show ?thesis
          using step(2) r Cons succs disc True exploring_step(1) [OF inv' succs disc] spec(1,4,7)
          by (auto simp: explored_def)
      next
        case False
        then have "explore' succs bound seen' queue' = Some (Inr x)" using step(2) r Cons succs disc by simp
        from step(1) [OF this] exploring_step(2) [OF inv' succs disc False] show ?thesis by simp
      qed
    qed
  qed
qed

lemma explore_error:
  assumes "explore succs bound seen queue = Some r"
  shows "\<forall>e. r = Inl e \<longrightarrow> exploring succs bound a seen queue \<longrightarrow> (\<exists>x\<in>reached succs a. succs x = Inl e)"
  using assms
proof (induction rule: explore.raw_induct [rotated, consumes 1, case_names step])
  case (step explore' succs bound seen queue r)
  show ?case
  proof (intro allI impI)
    fix e assume r: "r = Inl e" and inv: "exploring succs bound a seen queue"
    obtain cur rest where q: "queue = cur # rest" using step(2) r by (cases queue) auto
    have cur: "cur \<in> reached succs a" using inv q by (auto simp: exploring_def)
    show "\<exists>x\<in>reached succs a. succs x = Inl e"
    proof (cases "succs cur")
      case (Inl e')
      then show ?thesis using step(2) r q cur by auto
    next
      case (Inr xs)
      obtain seen' queue' overflow where disc: "discover bound xs seen rest = (seen', queue', overflow)"
        by (cases "discover bound xs seen rest") auto
      have "\<not> overflow" and rec: "explore' succs bound seen' queue' = Some (Inl e)"
        using step(2) r q Inr disc by (auto split: if_splits)
      then have "exploring succs bound a seen' queue'"
        using exploring_step(2) [of succs bound a seen cur rest xs seen' queue' overflow] inv q Inr disc by simp
      with step(1) [OF rec] show ?thesis by simp
    qed
  qed
qed

text \<open>The walk ends: it meets an error, or at most as many references as are reachable.\<close>


lemma discover_queue:
  "discover bound xs seen queue = (seen', queue', overflow) \<Longrightarrow>
   length queue' + length seen = length queue + length seen'"
  by (induction xs arbitrary: seen queue) (fastforce split: if_splits)+

lemma explore_returns:
  assumes U: "finite U" "reached succs a \<subseteq> U" and "exploring succs bound a seen queue"
  shows "\<exists>r. explore succs bound seen queue = Some r"
  using assms(3)
proof (induction "card U - length seen + length queue" arbitrary: seen queue rule: less_induct)
  case less
  show ?case
  proof (cases queue)
    case Nil
    then show ?thesis by (simp add: explore.simps)
  next
    case (Cons cur rest)
    show ?thesis
    proof (cases "succs cur")
      case (Inl e)
      with Cons show ?thesis by (simp add: explore.simps)
    next
      case (Inr xs)
      obtain seen' queue' overflow where disc: "discover bound xs seen rest = (seen', queue', overflow)"
        by (cases "discover bound xs seen rest") auto
      show ?thesis
      proof (cases overflow)
        case True
        with Cons Inr disc show ?thesis by (simp add: explore.simps)
      next
        case False
        have inv0: "distinct seen" "0 < bound \<longrightarrow> int (length seen) \<le> bound"
          and inv: "exploring succs bound a (seen) (cur # rest)"
          using less.prems Cons by (auto simp: exploring_def)
        have inv': "exploring succs bound a seen' queue'" by (rule exploring_step(2) [OF inv Inr disc False])
        then have "length seen' = card (set seen')" "set seen' \<subseteq> U"
          using U(2) by (auto simp: exploring_def distinct_card)
        then have "length seen' \<le> card U" using U(1) by (simp add: card_mono)
        moreover have "card (set seen) \<le> card (set seen')"
          using discover_spec(2) [OF disc inv0] by (intro card_mono) auto
        then have "length seen \<le> card (set seen')" using inv0(1) by (simp add: distinct_card)
        moreover have "length queue' + length seen = length rest + length seen'"
          by (rule discover_queue [OF disc])
        ultimately have "card U - length seen' + length queue' < card U - length seen + length queue"
          using Cons \<open>length seen' = card (set seen')\<close> by simp
        then have "\<exists>r. explore succs bound seen' queue' = Some r" using inv' by (rule less.hyps)
        then show ?thesis using Cons Inr disc False by (simp add: explore.simps)
      qed
    qed
  qed
qed


section \<open>What a subject holds\<close>

text \<open>A resource fact the model allows leads from its subject to the userset of its resource and relation.\<close>

definition follows :: "read_model \<Rightarrow> subject_ref \<Rightarrow> tuple \<Rightarrow> bool" where
  "follows m current f \<longleftrightarrow>
     sc_Kind (tp_Scope f) = ResourceScope \<and>
     Allows m (sc_Type (tp_Scope f)) (tp_Relation f) (sj_Type current) (sj_Relation current)"

definition fact_ref :: "tuple \<Rightarrow> subject_ref" where
  "fact_ref f = SubjectRef (sc_Type (tp_Scope f)) (sc_ID (tp_Scope f)) (tp_Relation f)"

definition membership :: "tuple set \<Rightarrow> read_model \<Rightarrow> (subject_ref \<times> subject_ref) set" where
  "membership F m = {(tp_Subject f, fact_ref f) | f. f \<in> F \<and> follows m (tp_Subject f) f}"

definition holdings :: "tuple set \<Rightarrow> read_model \<Rightarrow> string \<Rightarrow> string \<Rightarrow> subject_ref set" where
  "holdings F m st sid = (membership F m)\<^sup>* `` {SubjectRef st sid []}"

definition relation_targets :: "tuple set \<Rightarrow> read_model \<Rightarrow> string \<Rightarrow> string \<Rightarrow> string \<Rightarrow> subject_ref set" where
  "relation_targets F m rt i rel =
     {sj. Tuple (On rt i) rel sj \<in> F \<and> Allows m rt rel (sj_Type sj) (sj_Relation sj)}"

definition valid_facts :: "tuple set \<Rightarrow> bool" where
  "valid_facts F \<longleftrightarrow> (\<forall>f\<in>F. Tuple_Validate f = None)"

lemma holdings_finite: "finite F \<Longrightarrow> finite (holdings F m st sid)"
proof -
  assume fin: "finite F"
  have "membership F m = (\<lambda>f. (tp_Subject f, fact_ref f)) ` {f \<in> F. follows m (tp_Subject f) f}"
    by (auto simp: membership_def)
  then have m: "finite (membership F m)" using fin by simp
  have "(membership F m)\<^sup>* `` {x} \<subseteq> insert x (snd ` membership F m)" for x
  proof
    fix y assume "y \<in> (membership F m)\<^sup>* `` {x}"
    then have "(x, y) \<in> (membership F m)\<^sup>*" by simp
    then show "y \<in> insert x (snd ` membership F m)" by (cases rule: rtranclE) force+
  qed
  then show ?thesis
    unfolding holdings_def using m by (meson finite.insertI finite_imageI finite_subset)
qed

text \<open>Every reference a principal holds, its own apart, is the userset of a stored fact.\<close>

lemma holdings_cases:
  "r \<in> holdings F m st sid \<Longrightarrow>
   r = SubjectRef st sid [] \<or> (\<exists>f\<in>F. follows m (tp_Subject f) f \<and> tp_Subject f \<in> holdings F m st sid \<and> r = fact_ref f)"
  unfolding holdings_def Image_singleton_iff
  by (cases rule: rtranclE) (auto simp: membership_def)

lemma holdings_step:
  "f \<in> F \<Longrightarrow> follows m (tp_Subject f) f \<Longrightarrow> tp_Subject f \<in> holdings F m st sid \<Longrightarrow>
   fact_ref f \<in> holdings F m st sid"
  by (auto simp: holdings_def membership_def intro: rtrancl_into_rtrancl)

lemma valid_tuple_resource:
  assumes "Tuple_Validate f = None" "sc_Kind (tp_Scope f) = ResourceScope"
  shows "valid_ref (sc_Type (tp_Scope f))" "valid_ref (sc_ID (tp_Scope f))" "valid_ref (tp_Relation f)"
    "Subject_Validate (tp_Subject f) = None"
  using assms by (auto simp: Tuple_Validate_def Scope_Validate_def split: if_splits)

lemma holdings_valid:
  assumes "valid_facts F" "valid_ref st" "valid_ref sid" "r \<in> holdings F m st sid"
  shows "Subject_Validate r = None"
  using holdings_cases [OF assms(4)] assms(1-3) valid_tuple_resource
  by (auto simp: valid_facts_def follows_def fact_ref_def)

section \<open>The portable reader\<close>

definition tuple_succs :: "tuple_reader \<Rightarrow> read_model \<Rightarrow> error \<Rightarrow> subject_ref \<Rightarrow> subject_ref list res" where
  "tuple_succs rd m ctx current =
     guarded ctx
       (case rd_ReadSets rd [reverse_key current] 0 of
          Inl e \<Rightarrow> Inl e
        | Inr sets \<Rightarrow>
            (if length sets \<noteq> 1 then Inl ErrEvaluationLimit
             else Inr (map fact_ref (filter (follows m current) (hd sets)))))"

definition reachable ::
  "tuple_reader \<Rightarrow> read_model \<Rightarrow> error \<Rightarrow> string \<Rightarrow> string \<Rightarrow> int \<Rightarrow> subject_ref list res option" where
  "reachable rd m ctx st sid bound =
     (let seed = SubjectRef st sid [] in
      case explore (tuple_succs rd m ctx) bound [seed] [seed] of
        None \<Rightarrow> None
      | Some (Inl e) \<Rightarrow> Some (Inl e)
      | Some (Inr (seen, overflow)) \<Rightarrow>
          Some (if overflow then Inl ErrExpansionBudgetExceeded else guarded ctx (Inr seen)))"

text \<open>The check-side reads of the engine: \<open>CheckReader\<close>.  A read that does not return is \<open>None\<close>.\<close>

record graph_reader =
  gr_CheckRelation ::
    "string \<Rightarrow> string \<Rightarrow> string \<Rightarrow> string \<Rightarrow> string \<Rightarrow> int \<Rightarrow> bool res option"
  gr_Targets :: "string \<Rightarrow> string \<Rightarrow> string \<Rightarrow> subject_ref list res"
  gr_BatchDirect ::
    "string \<Rightarrow> string list \<Rightarrow> string \<Rightarrow> string \<Rightarrow> string \<Rightarrow> int \<Rightarrow> (string, bool) go_map res option"

definition tuple_CheckRelation ::
  "tuple_reader \<Rightarrow> read_model \<Rightarrow> error \<Rightarrow> string \<Rightarrow> string \<Rightarrow> string \<Rightarrow> string \<Rightarrow> string \<Rightarrow> int \<Rightarrow> bool res option" where
  "tuple_CheckRelation rd m ctx rt i rel st sid bound =
     (case reachable rd m ctx st sid bound of
        None \<Rightarrow> None
      | Some (Inl e) \<Rightarrow> Some (Inl e)
      | Some (Inr seen) \<Rightarrow> Some (Inr (SubjectRef rt i rel \<in> set seen)))"

definition tuple_GetRelationTargets ::
  "tuple_reader \<Rightarrow> read_model \<Rightarrow> error \<Rightarrow> string \<Rightarrow> string \<Rightarrow> string \<Rightarrow> subject_ref list res" where
  "tuple_GetRelationTargets rd m ctx rt i rel =
     (case rd_ReadSets rd [forward_key (On rt i) rel] 0 of
        Inl e \<Rightarrow> Inl e
      | Inr sets \<Rightarrow>
          (if length sets \<noteq> 1 then Inl ErrEvaluationLimit
           else if hd sets \<noteq> [] \<and> ctx \<noteq> None then Inl (the ctx)
           else Inr (filter (\<lambda>sj. Allows m rt rel (sj_Type sj) (sj_Relation sj)) (map tp_Subject (hd sets)))))"

definition tuple_CheckBatchDirect ::
  "tuple_reader \<Rightarrow> read_model \<Rightarrow> error \<Rightarrow> string \<Rightarrow> string list \<Rightarrow> string \<Rightarrow> string \<Rightarrow> string \<Rightarrow> int \<Rightarrow>
   (string, bool) go_map res option" where
  "tuple_CheckBatchDirect rd m ctx rt ids rel st sid bound =
     (case reachable rd m ctx st sid bound of
        None \<Rightarrow> None
      | Some (Inl e) \<Rightarrow> Some (Inl e)
      | Some (Inr seen) \<Rightarrow>
          Some (Inr (fold (\<lambda>i. map_put i (SubjectRef rt i rel \<in> set seen)) ids [])))"

definition tuple_graph_reader :: "tuple_reader \<Rightarrow> read_model \<Rightarrow> error \<Rightarrow> graph_reader" where
  "tuple_graph_reader rd m ctx =
     \<lparr>gr_CheckRelation = tuple_CheckRelation rd m ctx,
      gr_Targets = tuple_GetRelationTargets rd m ctx,
      gr_BatchDirect = tuple_CheckBatchDirect rd m ctx\<rparr>"

section \<open>The in-memory relationship reader\<close>

record rel_row =
  rr_resourceType :: string
  rr_resourceID :: string
  rr_relation :: string
  rr_subjectType :: string
  rr_subjectID :: string
  rr_subjectRelation :: string

definition relationshipRows :: "tuple list \<Rightarrow> rel_row list" where
  "relationshipRows facts =
     map (\<lambda>t. \<lparr>rr_resourceType = sc_Type (tp_Scope t), rr_resourceID = sc_ID (tp_Scope t),
            rr_relation = tp_Relation t, rr_subjectType = sj_Type (tp_Subject t),
            rr_subjectID = sj_ID (tp_Subject t), rr_subjectRelation = sj_Relation (tp_Subject t)\<rparr>)
       (filter (\<lambda>t. sc_Kind (tp_Scope t) = ResourceScope) facts)"

text \<open>No model is \<open>None\<close>: the raw store's own reads.\<close>

definition row_allows :: "read_model option \<Rightarrow> rel_row \<Rightarrow> bool" where
  "row_allows m row =
     (case m of
        None \<Rightarrow> True
      | Some m \<Rightarrow> Allows m (rr_resourceType row) (rr_relation row) (rr_subjectType row) (rr_subjectRelation row))"

definition row_subject :: "rel_row \<Rightarrow> subject_ref" where
  "row_subject row = SubjectRef (rr_subjectType row) (rr_subjectID row) (rr_subjectRelation row)"

definition row_ref :: "rel_row \<Rightarrow> subject_ref" where
  "row_ref row = SubjectRef (rr_resourceType row) (rr_resourceID row) (rr_relation row)"

definition row_succs :: "read_model option \<Rightarrow> tuple list \<Rightarrow> subject_ref \<Rightarrow> subject_ref list res" where
  "row_succs m facts cur =
     Inr (map row_ref (filter (\<lambda>row. row_allows m row \<and> row_subject row = cur) (relationshipRows facts)))"

definition expandReachable ::
  "read_model option \<Rightarrow> tuple list \<Rightarrow> error \<Rightarrow> string \<Rightarrow> string \<Rightarrow> int \<Rightarrow> (subject_ref list \<times> bool) option" where
  "expandReachable m facts ctx st sid bound =
     (let start = SubjectRef st sid [] in
      if ctx \<noteq> None then Some ([start], False)
      else case explore (row_succs m facts) bound [start] [start] of Some (Inr r) \<Rightarrow> Some r | _ \<Rightarrow> None)"

definition memory_CheckRelation ::
  "read_model option \<Rightarrow> tuple list \<Rightarrow> error \<Rightarrow> string \<Rightarrow> string \<Rightarrow> string \<Rightarrow> string \<Rightarrow> string \<Rightarrow> int \<Rightarrow>
   bool res option" where
  "memory_CheckRelation m facts ctx rt i rel st sid bound =
     (case ctx of
        Some e \<Rightarrow> Some (Inl e)
      | None \<Rightarrow>
          (case expandReachable m facts ctx st sid bound of
             None \<Rightarrow> None
           | Some (seen, overflow) \<Rightarrow>
               Some (if overflow then Inl ErrExpansionBudgetExceeded
                     else Inr (list_ex (\<lambda>row. row_allows m row \<and> row_ref row = SubjectRef rt i rel \<and>
                                row_subject row \<in> set seen) (relationshipRows facts)))))"

definition memory_GetRelationTargets ::
  "read_model option \<Rightarrow> tuple list \<Rightarrow> error \<Rightarrow> string \<Rightarrow> string \<Rightarrow> string \<Rightarrow> subject_ref list res" where
  "memory_GetRelationTargets m facts ctx rt i rel =
     guarded ctx
       (Inr (map row_subject
          (filter (\<lambda>row. row_allows m row \<and> row_ref row = SubjectRef rt i rel) (relationshipRows facts))))"

definition memory_CheckBatchDirect ::
  "read_model option \<Rightarrow> tuple list \<Rightarrow> error \<Rightarrow> string \<Rightarrow> string list \<Rightarrow> string \<Rightarrow> string \<Rightarrow> string \<Rightarrow> int \<Rightarrow>
   (string, bool) go_map res option" where
  "memory_CheckBatchDirect m facts ctx rt ids rel st sid bound =
     (case ctx of
        Some e \<Rightarrow> Some (Inl e)
      | None \<Rightarrow>
          (case expandReachable m facts ctx st sid bound of
             None \<Rightarrow> None
           | Some (seen, overflow) \<Rightarrow>
               Some (if overflow then Inl ErrExpansionBudgetExceeded
                     else Inr (fold (\<lambda>row out.
                            if row_allows m row \<and> rr_resourceType row = rt \<and> rr_relation row = rel \<and>
                               rr_resourceID row \<in> set ids \<and> row_subject row \<in> set seen
                            then map_put (rr_resourceID row) True out else out)
                          (relationshipRows facts) (fold (\<lambda>i. map_put i False) ids [])))))"

definition memory_graph_reader :: "read_model option \<Rightarrow> tuple list \<Rightarrow> error \<Rightarrow> graph_reader" where
  "memory_graph_reader m facts ctx =
     \<lparr>gr_CheckRelation = memory_CheckRelation m facts ctx,
      gr_Targets = memory_GetRelationTargets m facts ctx,
      gr_BatchDirect = memory_CheckBatchDirect m facts ctx\<rparr>"

end
