(* ===== verification/Policy.thy ===== *)
theory Policy
  imports Membership
begin

text \<open>
  What a decision is about: requests and limits
  (\<open>src/pockets/authorization/logic/model/check.go\<close>, \<open>principal.go\<close>, \<open>limits.go\<close>), policy models
  and permission expressions (\<open>logic/decisions/model.go\<close>, \<open>resource_binding.go\<close>, \<open>builder.go\<close>),
  and the one validator of expressions that named models and ad hoc expressions share
  (\<open>expression_validation.go\<close>).  Nil slices and pointers are \<open>None\<close>.  The text of an error is the
  constant part of its format.
\<close>

section \<open>Requests\<close>

record resource =
  rs_Type :: string
  rs_ID :: string

record principal =
  pr_Type :: string
  pr_ID :: string

record check_request =
  rq_Principal :: principal
  rq_Permission :: string
  rq_Resource :: resource

definition ValidatePrincipal :: "principal \<Rightarrow> error" where
  "ValidatePrincipal p =
     or_else (ValidateRefField ''principal type'' (pr_Type p)) (ValidateRefField ''principal id'' (pr_ID p))"

definition ValidateCheckRequest :: "check_request \<Rightarrow> error" where
  "ValidateCheckRequest r =
     first_error
       [ValidatePrincipal (rq_Principal r),
        ValidateRefField ''permission'' (rq_Permission r),
        ValidateRefField ''resource type'' (rs_Type (rq_Resource r)),
        ValidateRefField ''resource id'' (rs_ID (rq_Resource r))]"

lemma ValidateCheckRequest_None:
  "ValidateCheckRequest r = None \<longleftrightarrow>
     valid_ref (pr_Type (rq_Principal r)) \<and> valid_ref (pr_ID (rq_Principal r)) \<and>
     valid_ref (rq_Permission r) \<and> valid_ref (rs_Type (rq_Resource r)) \<and> valid_ref (rs_ID (rq_Resource r))"
  by (auto simp: ValidateCheckRequest_def ValidatePrincipal_def)

section \<open>Limits\<close>

record evaluation_limits =
  MaxEvaluationSteps :: int
  MaxThroughDepth :: int
  MaxGraphStates :: int
  MaxRelationTargets :: int
  MaxBatchSize :: int
  MaxLookupResults :: int
  MaxFilterScan :: int

definition ErrInvalidLimits :: go_error where
  "ErrInvalidLimits = Wrapped ''authorization evaluation limits: invalid input'' ErrInvalidInput"

definition maxInt :: int where
  "maxInt = 2 ^ 63 - 1"

text \<open>One field: what it resolves to, and the error it contributes.\<close>

definition resolve_limit :: "string \<Rightarrow> int \<Rightarrow> int \<Rightarrow> int \<times> go_error list" where
  "resolve_limit name v dflt =
     (if v < 0 then (dflt, [ForeignError (name @ '' must not be negative, got '' @ print_int v)])
      else if v = 0 then (dflt, [])
      else (v, []))"

definition sentinel_error :: "string \<Rightarrow> int \<Rightarrow> go_error list" where
  "sentinel_error name v =
     (if v = maxInt
      then [ForeignError (name @ '' must be less than '' @ print_int maxInt @ '' to allow its +1 sentinel'')]
      else [])"

definition Resolve :: "evaluation_limits \<Rightarrow> evaluation_limits res" where
  "Resolve l =
     (let (steps, e1) = resolve_limit ''MaxEvaluationSteps'' (MaxEvaluationSteps l) 100000;
          (depth, e2) = resolve_limit ''MaxThroughDepth'' (MaxThroughDepth l) 10;
          (states, e3) = resolve_limit ''MaxGraphStates'' (MaxGraphStates l) 10000;
          (targets, e4) = resolve_limit ''MaxRelationTargets'' (MaxRelationTargets l) 1000;
          (batch, e5) = resolve_limit ''MaxBatchSize'' (MaxBatchSize l) 1000;
          (results, e6) = resolve_limit ''MaxLookupResults'' (MaxLookupResults l) 1000;
          (scan, e7) = resolve_limit ''MaxFilterScan'' (MaxFilterScan l) 20000;
          out = \<lparr>MaxEvaluationSteps = steps, MaxThroughDepth = depth, MaxGraphStates = states,
            MaxRelationTargets = targets, MaxBatchSize = batch, MaxLookupResults = results, MaxFilterScan = scan\<rparr>;
          errs = e1 @ e2 @ e3 @ e4 @ e5 @ e6 @ e7 @
            sentinel_error ''MaxEvaluationSteps'' steps @ sentinel_error ''MaxThroughDepth'' depth @
            sentinel_error ''MaxGraphStates'' states @ sentinel_error ''MaxLookupResults'' results
      in if errs \<noteq> []
         then Inl (Wrapped (error_text ErrInvalidLimits @ '': '' @ error_text (Joined errs))
                (Joined [ErrInvalidLimits, Joined errs]))
         else Inr out)"

section \<open>Expressions\<close>

record resource_slot =
  sl_Type :: string
  sl_Key :: string
  sl_Pure :: bool

datatype expression = Expression
  (ex_AnyOf: "expression list option")
  (ex_AllOf: "expression list option")
  (ex_Relation: string)
  (ex_Through: string)
  (ex_Permission: string)
  (ex_RoleName: string)
  (ex_CurrentResource: bool)
  (ex_Resource: "resource option")
  (ex_ResourceSlot: "resource_slot option")
  (ex_NamedPermission: string)
  (ex_remove: bool)
  (ex_invalidSelector: bool)

definition zero_expression :: expression where
  "zero_expression = Expression None None [] [] [] [] False None None [] False False"

definition Direct :: "string \<Rightarrow> expression" where
  "Direct relation = Expression None None relation [] [] [] False None None [] False False"

definition Through :: "string \<Rightarrow> string \<Rightarrow> expression" where
  "Through relation permission = Expression None None [] relation permission [] False None None [] False False"

definition Any :: "expression list \<Rightarrow> expression" where
  "Any es = Expression (Some es) None [] [] [] [] False None None [] False False"

definition All_of :: "expression list \<Rightarrow> expression" where
  "All_of es = Expression None (Some es) [] [] [] [] False None None [] False False"

definition Role :: "string \<Rightarrow> expression" where
  "Role label = Expression None None [] [] [] label False None None [] False False"

definition RoleIn :: "string \<Rightarrow> resource list \<Rightarrow> expression" where
  "RoleIn label resources =
     Expression (if length resources > 1 then Some [] else None) None [] [] [] label
       (length resources \<noteq> 1) (if length resources = 1 then Some (hd resources) else None) None [] False False"

definition Permission_named :: "string \<Rightarrow> expression" where
  "Permission_named name = Expression None None [] [] [] [] False None None name False False"

definition Remove :: expression where
  "Remove = Expression None None [] [] [] [] False None None [] True False"

text \<open>Binding a leaf to a resource, fixed or read from the request.\<close>

definition already_bound :: "expression \<Rightarrow> bool" where
  "already_bound leaf \<longleftrightarrow>
     ex_Resource leaf \<noteq> None \<or> ex_ResourceSlot leaf \<noteq> None \<or>
     (ex_CurrentResource leaf \<and> ex_RoleName leaf = [])"

fun rebind :: "bool \<Rightarrow> resource option \<Rightarrow> resource_slot option \<Rightarrow> bool \<Rightarrow> expression \<Rightarrow> expression" where
  "rebind current res slot invalid (Expression anyOf allOf rel thr perm role _ _ _ name rm _) =
     Expression anyOf allOf rel thr perm role current res slot name rm invalid"

definition On_resource :: "resource \<Rightarrow> expression \<Rightarrow> expression" where
  "On_resource r leaf =
     (if already_bound leaf then rebind (ex_CurrentResource leaf) (ex_Resource leaf) (ex_ResourceSlot leaf) True leaf
      else rebind False (Some r) (ex_ResourceSlot leaf) (ex_invalidSelector leaf) leaf)"

definition BindResource :: "string \<Rightarrow> string \<Rightarrow> expression \<Rightarrow> expression" where
  "BindResource rt key leaf =
     (if already_bound leaf then rebind (ex_CurrentResource leaf) (ex_Resource leaf) (ex_ResourceSlot leaf) True leaf
      else rebind False (ex_Resource leaf) (Some \<lparr>sl_Type = rt, sl_Key = key, sl_Pure = False\<rparr>)
        (ex_invalidSelector leaf) leaf)"

definition BindPureResource :: "string \<Rightarrow> string \<Rightarrow> expression \<Rightarrow> expression" where
  "BindPureResource rt key leaf =
     (let leaf' = BindResource rt key leaf in
      case ex_ResourceSlot leaf' of
        Some slot \<Rightarrow>
          (if ex_invalidSelector leaf' then leaf'
           else rebind (ex_CurrentResource leaf') (ex_Resource leaf') (Some (slot\<lparr>sl_Pure := True\<rparr>)) False leaf')
      | None \<Rightarrow> leaf')"

definition MaxExpressionDepth :: nat where
  "MaxExpressionDepth = 64"

definition MaxExpressionNodes :: nat where
  "MaxExpressionNodes = 4096"

text \<open>
  \<open>copyExpression\<close> counts the nodes it visits in order; past either bound it puts an empty \<open>AnyOf\<close>,
  which never grants.
\<close>

fun copy_node :: "expression \<Rightarrow> nat \<Rightarrow> nat \<Rightarrow> expression \<times> nat"
  and copy_nodes :: "expression list \<Rightarrow> nat \<Rightarrow> nat \<Rightarrow> expression list \<times> nat" where
  "copy_node (Expression anyOf allOf rel thr perm role cur res slot name rm bad) depth nodes =
     (let nodes = nodes + 1 in
      if depth > MaxExpressionDepth \<or> nodes > MaxExpressionNodes then (Any [], nodes)
      else
        (let (anyOf', nodes) =
               (case anyOf of None \<Rightarrow> (None, nodes)
                | Some es \<Rightarrow> (case copy_nodes es (depth + 1) nodes of (es', n) \<Rightarrow> (Some es', n)));
             (allOf', nodes) =
               (case allOf of None \<Rightarrow> (None, nodes)
                | Some es \<Rightarrow> (case copy_nodes es (depth + 1) nodes of (es', n) \<Rightarrow> (Some es', n)))
         in (Expression anyOf' allOf' rel thr perm role cur res slot name rm bad, nodes)))"
| "copy_nodes [] depth nodes = ([], nodes)"
| "copy_nodes (e # es) depth nodes =
     (case copy_node e depth nodes of
        (e', nodes') \<Rightarrow> (case copy_nodes es depth nodes' of (es', nodes'') \<Rightarrow> (e' # es', nodes'')))"

definition copyExpression :: "expression \<Rightarrow> expression" where
  "copyExpression e = fst (copy_node e 0 0)"

definition children :: "expression \<Rightarrow> expression list option" where
  "children e = (case ex_AnyOf e of Some es \<Rightarrow> Some es | None \<Rightarrow> ex_AllOf e)"

fun visit_leaves :: "expression \<Rightarrow> nat \<Rightarrow> nat \<Rightarrow> expression list \<times> nat"
  and visit_all_leaves :: "expression list \<Rightarrow> nat \<Rightarrow> nat \<Rightarrow> expression list \<times> nat" where
  "visit_leaves (Expression anyOf allOf rel thr perm role cur res slot name rm bad) depth nodes =
     (let nodes = nodes + 1 in
      if depth > MaxExpressionDepth \<or> nodes > MaxExpressionNodes then ([], nodes)
      else
        (case anyOf of
           Some es \<Rightarrow> visit_all_leaves es (depth + 1) nodes
         | None \<Rightarrow>
             (case allOf of
                Some es \<Rightarrow> visit_all_leaves es (depth + 1) nodes
              | None \<Rightarrow> ([Expression None None rel thr perm role cur res slot name rm bad], nodes))))"
| "visit_all_leaves [] depth nodes = ([], nodes)"
| "visit_all_leaves (e # es) depth nodes =
     (case visit_leaves e depth nodes of
        (out, nodes') \<Rightarrow>
          (case visit_all_leaves es depth nodes' of (out', nodes'') \<Rightarrow> (out @ out', nodes'')))"

definition expressionLeaves :: "expression \<Rightarrow> expression list" where
  "expressionLeaves e = fst (visit_leaves e 0 0)"

text \<open>The flat disjunction of graph leaves an expression is, if it is one (nil otherwise).\<close>

definition graphChecks :: "expression \<Rightarrow> expression list option" where
  "graphChecks e =
     (let checks = (case ex_AnyOf e of Some es \<Rightarrow> es | None \<Rightarrow> [e]) in
      if list_all (\<lambda>c. \<not> (ex_Relation c = [] \<and> ex_Through c = []) \<and> ex_AnyOf c = None \<and> ex_AllOf c = None) checks
      then Some checks else None)"

section \<open>Models\<close>

type_synonym subject_type_ref = "string \<times> string"  \<comment> \<open>type, userset relation\<close>

record resource_type_def =
  td_Relations :: "(string, subject_type_ref list) go_map"
  td_Permissions :: "(string, expression) go_map"

record policy_model =
  pm_ResourceTypes :: "(string, resource_type_def) go_map"
  pm_assemblyErrors :: "string list"

definition copyResourceType :: "resource_type_def \<Rightarrow> resource_type_def" where
  "copyResourceType rt =
     \<lparr>td_Relations = td_Relations rt, td_Permissions = map (\<lambda>(k, e). (k, copyExpression e)) (td_Permissions rt)\<rparr>"

definition mergeResourceType :: "resource_type_def \<Rightarrow> resource_type_def \<Rightarrow> resource_type_def" where
  "mergeResourceType base override =
     (let result = copyResourceType base; over = copyResourceType override in
      \<lparr>td_Relations = fold (\<lambda>(k, v). map_put k v) (td_Relations over) (td_Relations result),
       td_Permissions =
         fold (\<lambda>(k, e). if ex_remove e then map_del k else map_put k e)
           (td_Permissions over) (td_Permissions result)\<rparr>)"

definition add_schema :: "string \<times> resource_type_def \<Rightarrow> policy_model \<Rightarrow> policy_model" where
  "add_schema rs schema =
     (case rs of (name, def) \<Rightarrow>
        (case map_get (pm_ResourceTypes schema) name of
           Some existing \<Rightarrow>
             schema\<lparr>pm_assemblyErrors := pm_assemblyErrors schema @
                 [''duplicate permission declaration '' @ name @ ''.'' @ p.
                    p \<leftarrow> map fst (td_Permissions def), map_get (td_Permissions existing) p \<noteq> None],
               pm_ResourceTypes := map_put name (mergeResourceType existing def) (pm_ResourceTypes schema)\<rparr>
         | None \<Rightarrow> schema\<lparr>pm_ResourceTypes := map_put name (copyResourceType def) (pm_ResourceTypes schema)\<rparr>))"

definition NewSchema :: "(string \<times> resource_type_def) list list \<Rightarrow> policy_model" where
  "NewSchema slices =
     fold (fold add_schema) slices \<lparr>pm_ResourceTypes = [], pm_assemblyErrors = []\<rparr>"

section \<open>Validating an expression\<close>

record declarations =
  dc_resource :: "string \<Rightarrow> bool"
  dc_subjects :: "string \<Rightarrow> string \<Rightarrow> subject_type_ref list option"
  dc_permission :: "string \<Rightarrow> string \<Rightarrow> bool"

definition invalid_expression :: "string \<Rightarrow> error" where
  "invalid_expression msg = Some (Wrapped (''expression '' @ msg @ '': invalid input'') ErrInvalidInput)"

definition fail_if :: "bool \<Rightarrow> error \<Rightarrow> error" where
  "fail_if b e = (if b then e else None)"

definition truths :: "bool list \<Rightarrow> nat" where
  "truths bs = length (filter id bs)"

definition selectors :: "expression \<Rightarrow> nat" where
  "selectors e = truths [ex_CurrentResource e, ex_Resource e \<noteq> None, ex_ResourceSlot e \<noteq> None]"

text \<open>The checks of a node before it is known to be a leaf or to have children.\<close>

definition node_error :: "bool \<Rightarrow> expression \<Rightarrow> error" where
  "node_error adhoc e =
     first_error
       [fail_if
          (truths [ex_AnyOf e \<noteq> None, ex_AllOf e \<noteq> None, ex_Relation e \<noteq> [], ex_Through e \<noteq> [],
             ex_RoleName e \<noteq> [], ex_NamedPermission e \<noteq> []] \<noteq> 1 \<or> ex_remove e)
          (invalid_expression ''must name exactly one operation''),
        fail_if (ex_Through e = [] \<and> ex_Permission e \<noteq> []) (invalid_expression ''permission requires Through''),
        fail_if (selectors e > 1 \<or> ex_invalidSelector e) (invalid_expression ''has two resource selectors''),
        fail_if (\<not> adhoc \<and> ex_ResourceSlot e \<noteq> None)
          (invalid_expression ''runtime resource slots are not allowed in named models''),
        fail_if (\<not> adhoc \<and> ex_RoleName e = [] \<and> selectors e > 0)
          (invalid_expression ''exact resource selector requires RoleIn in named models''),
        fail_if (ex_CurrentResource e \<and> ex_RoleName e = [])
          (invalid_expression ''current resource selector requires RoleIn'')]"

definition through_error :: "declarations \<Rightarrow> bool \<Rightarrow> string \<Rightarrow> subject_type_ref list \<Rightarrow> error" where
  "through_error d adhoc permission subjects =
     (let targets = filter (\<lambda>s. dc_resource d (fst s)) subjects in
      first_error
        [ValidateRefField ''permission'' permission,
         fail_if (adhoc \<and> (\<exists>s\<in>set subjects. snd s \<noteq> [] \<or> \<not> dc_resource d (fst s)))
           (invalid_expression ''Through must contain concrete resource subjects only''),
         fail_if (\<exists>s\<in>set targets. \<not> dc_permission d (fst s) permission)
           (invalid_expression ''Through permission not found on target type(s)''),
         fail_if (targets = []) (invalid_expression ''Through has no resource targets'')])"

text \<open>The checks of a leaf, and the slot it declares.\<close>

definition slot_error :: "(string, string) go_map \<Rightarrow> resource_slot \<Rightarrow> error" where
  "slot_error slots slot =
     first_error
       [ValidateRefField ''resource slot type'' (sl_Type slot),
        ValidateRefField ''resource slot key'' (sl_Key slot),
        fail_if (map_get slots (sl_Key slot) \<notin> {None, Some (sl_Type slot)})
          (invalid_expression ''resource slot has conflicting types'')]"

definition target_type :: "expression \<Rightarrow> string \<Rightarrow> string" where
  "target_type e resourceType =
     (case ex_ResourceSlot e of
        Some slot \<Rightarrow> sl_Type slot
      | None \<Rightarrow> (case ex_Resource e of Some r \<Rightarrow> rs_Type r | None \<Rightarrow> resourceType))"

definition leaf_error ::
  "declarations \<Rightarrow> string \<Rightarrow> bool \<Rightarrow> expression \<Rightarrow> (string, string) go_map \<Rightarrow> error" where
  "leaf_error d resourceType adhoc e slots =
     (let target = target_type e resourceType;
          relation = (if ex_Relation e = [] then ex_Through e else ex_Relation e) in
      first_error
        [(case ex_Resource e of Some r \<Rightarrow> Scope_Validate (On (rs_Type r) (rs_ID r)) | None \<Rightarrow> None),
         (case ex_ResourceSlot e of Some slot \<Rightarrow> slot_error slots slot | None \<Rightarrow> None),
         (if ex_RoleName e \<noteq> [] then
            or_else (ValidateRefField ''role'' (ex_RoleName e))
              (fail_if (ex_CurrentResource e \<and> resourceType = [])
                (invalid_expression ''current resource is unavailable''))
          else
            first_error
              [fail_if (target = []) (invalid_expression ''graph or named permission needs a resource''),
               fail_if (\<not> dc_resource d target) (invalid_expression ''resource type is undeclared''),
               (if ex_NamedPermission e \<noteq> [] then
                  or_else (ValidateRefField ''permission'' (ex_NamedPermission e))
                    (fail_if (\<not> dc_permission d target (ex_NamedPermission e))
                      (invalid_expression ''named permission is undeclared''))
                else
                  or_else (ValidateRefField ''relation'' relation)
                    (case dc_subjects d target relation of
                       None \<Rightarrow> invalid_expression ''relation is undeclared''
                     | Some subjects \<Rightarrow>
                         (if ex_Through e \<noteq> [] then through_error d adhoc (ex_Permission e) subjects
                          else None)))])])"

definition leaf_slots :: "expression \<Rightarrow> (string, string) go_map \<Rightarrow> (string, string) go_map" where
  "leaf_slots e slots =
     (case ex_ResourceSlot e of Some slot \<Rightarrow> map_put (sl_Key slot) (sl_Type slot) slots | None \<Rightarrow> slots)"

text \<open>The walk: nodes seen and slots declared so far, and the first error.\<close>

fun validate_node ::
    "declarations \<Rightarrow> string \<Rightarrow> bool \<Rightarrow> expression \<Rightarrow> nat \<Rightarrow> nat \<times> (string, string) go_map \<Rightarrow>
     error \<times> nat \<times> (string, string) go_map"
  and validate_nodes ::
    "declarations \<Rightarrow> string \<Rightarrow> bool \<Rightarrow> expression list \<Rightarrow> nat \<Rightarrow> nat \<times> (string, string) go_map \<Rightarrow>
     error \<times> nat \<times> (string, string) go_map" where
  "validate_node d rt adhoc (Expression anyOf allOf rel thr perm role cur res slot name rm bad) depth (nodes, slots) =
     (let nodes = nodes + 1;
          e = Expression anyOf allOf rel thr perm role cur res slot name rm bad in
      if depth > MaxExpressionDepth \<or> nodes > MaxExpressionNodes then (Some ErrEvaluationLimit, nodes, slots)
      else
        (case node_error adhoc e of
           Some err \<Rightarrow> (Some err, nodes, slots)
         | None \<Rightarrow>
             (case (anyOf, allOf) of
                (None, None) \<Rightarrow>
                  (case leaf_error d rt adhoc e slots of
                     Some err \<Rightarrow> (Some err, nodes, slots)
                   | None \<Rightarrow> (None, nodes, leaf_slots e slots))
              | (Some cs, _) \<Rightarrow>
                  if selectors e \<noteq> 0 then (invalid_expression ''resource selectors require a leaf'', nodes, slots)
                  else if cs = [] then (invalid_expression ''cannot have empty All or Any'', nodes, slots)
                  else validate_nodes d rt adhoc cs (depth + 1) (nodes, slots)
              | (None, Some cs) \<Rightarrow>
                  if selectors e \<noteq> 0 then (invalid_expression ''resource selectors require a leaf'', nodes, slots)
                  else if cs = [] then (invalid_expression ''cannot have empty All or Any'', nodes, slots)
                  else validate_nodes d rt adhoc cs (depth + 1) (nodes, slots))))"
| "validate_nodes d rt adhoc [] depth st = (None, st)"
| "validate_nodes d rt adhoc (e # es) depth st =
     (case validate_node d rt adhoc e depth st of
        (Some err, st') \<Rightarrow> (Some err, st')
      | (None, st') \<Rightarrow> validate_nodes d rt adhoc es depth st')"

definition validateExpressionTree :: "expression \<Rightarrow> declarations \<Rightarrow> string \<Rightarrow> bool \<Rightarrow> bool \<times> error" where
  "validateExpressionTree e d rt adhoc =
     (case validate_node d rt adhoc e 0 (0, []) of (err, _, slots) \<Rightarrow> (slots \<noteq> [], err))"

definition model_declarations :: "policy_model \<Rightarrow> declarations" where
  "model_declarations model =
     \<lparr>dc_resource = \<lambda>rt. map_get (pm_ResourceTypes model) rt \<noteq> None,
      dc_subjects = \<lambda>rt rel. Option.bind (map_get (pm_ResourceTypes model) rt) (\<lambda>d. map_get (td_Relations d) rel),
      dc_permission = \<lambda>rt p. Option.bind (map_get (pm_ResourceTypes model) rt) (\<lambda>d. map_get (td_Permissions d) p) \<noteq> None\<rparr>"

definition validateExpression :: "expression \<Rightarrow> policy_model \<Rightarrow> string \<Rightarrow> bool \<Rightarrow> error" where
  "validateExpression e model rt adhoc = snd (validateExpressionTree e (model_declarations model) rt adhoc)"

end
