(* ===== verification/Model_Compiler.thy ===== *)
theory Model_Compiler
  imports Policy
begin

text \<open>
  Compiling a policy model, \<open>src/pockets/authorization/logic/decisions/compiler.go\<close> and the graph
  passes of \<open>schema_validator.go\<close>: validation of every name, relation and expression, the search
  for circular permission dependencies, the search for permissions that can never grant, and the
  compiled model with its accessors.  A map \<open>range\<close> follows the list; the errors are collected
  in that order (the code sorts their texts).  The digest and its encoding are not modelled.
\<close>

section \<open>The compiled model\<close>

datatype relation_kind = RelationDirect | RelationNavigational

record compiled_relation =
  cr_subjects :: "subject_type_ref list"
  cr_kind :: relation_kind
  cr_hasUsersets :: bool

record compiled_permission =
  cp_checks :: "expression list option"
  cp_expression :: expression

record compiled_resource_type =
  ct_relations :: "(string, compiled_relation) go_map"
  ct_permissions :: "(string, compiled_permission) go_map"
  ct_relationTargets :: "(string, string list) go_map"

type_synonym compiled_model = "(string, compiled_resource_type) go_map"

definition declaresPermission :: "compiled_model \<Rightarrow> string \<Rightarrow> string \<Rightarrow> bool" where
  "declaresPermission c rt p =
     (case map_get c rt of None \<Rightarrow> False | Some t \<Rightarrow> map_get (ct_permissions t) p \<noteq> None)"

definition permissionChecks :: "compiled_model \<Rightarrow> string \<Rightarrow> string \<Rightarrow> expression list option" where
  "permissionChecks c rt p =
     (case map_get c rt of
        None \<Rightarrow> None
      | Some t \<Rightarrow> (case map_get (ct_permissions t) p of None \<Rightarrow> None | Some cp \<Rightarrow> cp_checks cp))"

definition permission_expression :: "compiled_model \<Rightarrow> string \<Rightarrow> string \<Rightarrow> expression" where
  "permission_expression c rt p =
     (case map_get c rt of
        None \<Rightarrow> zero_expression
      | Some t \<Rightarrow> (case map_get (ct_permissions t) p of None \<Rightarrow> zero_expression | Some cp \<Rightarrow> cp_expression cp))"

text \<open>The subjects, whether the resource type is declared, whether the relation is.\<close>

definition relationSubjects :: "compiled_model \<Rightarrow> string \<Rightarrow> string \<Rightarrow> subject_type_ref list \<times> bool \<times> bool" where
  "relationSubjects c rt rel =
     (case map_get c rt of
        None \<Rightarrow> ([], False, False)
      | Some t \<Rightarrow>
          (case map_get (ct_relations t) rel of
             None \<Rightarrow> ([], True, False)
           | Some r \<Rightarrow> (cr_subjects r, True, True)))"

definition relationHasUsersets :: "compiled_model \<Rightarrow> string \<Rightarrow> string \<Rightarrow> bool" where
  "relationHasUsersets c rt rel =
     (case map_get c rt of
        None \<Rightarrow> True
      | Some t \<Rightarrow> (case map_get (ct_relations t) rel of None \<Rightarrow> True | Some r \<Rightarrow> cr_hasUsersets r))"

definition relationResourceTargets :: "compiled_model \<Rightarrow> string \<Rightarrow> string \<Rightarrow> string list" where
  "relationResourceTargets c rt rel =
     (case map_get c rt of
        None \<Rightarrow> []
      | Some t \<Rightarrow> (case map_get (ct_relationTargets t) rel of None \<Rightarrow> [] | Some ts \<Rightarrow> ts))"

definition compiled_readModel :: "compiled_model \<Rightarrow> read_model" where
  "compiled_readModel c =
     NewReadModel
       [(rt, rel, st, srel). (rt, t) \<leftarrow> c, (rel, r) \<leftarrow> ct_relations t, (st, srel) \<leftarrow> cr_subjects r]"

definition ErrInvalidRelation :: go_error where
  "ErrInvalidRelation = Wrapped ''authorization relation: invalid input'' ErrInvalidInput"

definition ValidateTuple :: "compiled_model \<Rightarrow> tuple \<Rightarrow> error" where
  "ValidateTuple c t =
     (case Tuple_Validate t of
        Some e \<Rightarrow> Some e
      | None \<Rightarrow>
          if sc_Kind (tp_Scope t) \<noteq> ResourceScope then None
          else
            (case relationSubjects c (sc_Type (tp_Scope t)) (tp_Relation t) of
               (subjects, _, constrained) \<Rightarrow>
                 if \<not> constrained then None
                 else if list_ex (\<lambda>(st, srel). st = sj_Type (tp_Subject t) \<and> srel = sj_Relation (tp_Subject t)) subjects
                 then None
                 else Some (Wrapped ''tuple violates declared subject shape'' ErrInvalidRelation)))"

section \<open>Relation declarations\<close>

definition subjectString :: "subject_type_ref \<Rightarrow> string" where
  "subjectString s = (if snd s = [] then fst s else fst s @ CHR ''#'' # snd s)"

definition dedupeSort :: "'a::linorder list \<Rightarrow> 'a list" where
  "dedupeSort xs = remdups_adj (sort xs)"

lemma set_dedupeSort [simp]: "set (dedupeSort xs) = set xs"
  by (simp add: dedupeSort_def)

definition error_line :: "string \<Rightarrow> error \<Rightarrow> string list" where
  "error_line prefix e = (case e of None \<Rightarrow> [] | Some err \<Rightarrow> [prefix @ error_text err])"

definition note_if :: "bool \<Rightarrow> string \<Rightarrow> string list" where
  "note_if b msg = (if b then [msg] else [])"

fun subject_notes ::
  "policy_model \<Rightarrow> string \<Rightarrow> bool \<Rightarrow> subject_type_ref list \<Rightarrow> subject_type_ref list \<Rightarrow> string list" where
  "subject_notes schema prefix nav [] seen = []"
| "subject_notes schema prefix nav (sub # subs) seen =
     (case ValidateRefField ''allowed subject type'' (fst sub) of
        Some err \<Rightarrow> (prefix @ error_text err) # subject_notes schema prefix nav subs seen
      | None \<Rightarrow>
          (if snd sub \<noteq> [] then error_line prefix (ValidateRefField ''allowed subject relation'' (snd sub)) else []) @
          note_if (sub \<in> set seen) (prefix @ ''duplicate allowed subject '' @ subjectString sub) @
          (if snd sub \<noteq> [] then
             (case map_get (pm_ResourceTypes schema) (fst sub) of
                None \<Rightarrow> [prefix @ ''userset subject '' @ subjectString sub @ '' references unknown resource type'']
              | Some t \<Rightarrow> note_if (map_get (td_Relations t) (snd sub) = None)
                  (prefix @ ''userset subject '' @ subjectString sub @ '' references unknown relation''))
           else []) @
          (if nav then
             (if snd sub \<noteq> [] then
                [prefix @ ''relation is used by a Through traversal and must contain concrete resource subjects only, but allows userset '' @ subjectString sub]
              else
                note_if (map_get (pm_ResourceTypes schema) (fst sub) = None)
                  (prefix @ ''relation is used by a Through traversal and must target a resource type, but allows '' @ fst sub))
           else []) @
          subject_notes schema prefix nav subs (sub # seen))"

text \<open>The relations some \<open>Through\<close> of the same resource type traverses.\<close>

definition navRefs :: "policy_model \<Rightarrow> (string \<times> string) list" where
  "navRefs schema =
     [(rt, ex_Through chk). (rt, t) \<leftarrow> pm_ResourceTypes schema, (p, rule) \<leftarrow> td_Permissions t,
        chk \<leftarrow> expressionLeaves rule, ex_Through chk \<noteq> []]"

definition compileRelations :: "policy_model \<Rightarrow> string \<Rightarrow> resource_type_def \<Rightarrow> string list" where
  "compileRelations schema rt t =
     concat (map (\<lambda>(rel, subs).
         error_line (rt @ '': '') (ValidateRefField ''relation name'' rel) @
         note_if (subs = []) (rt @ ''.'' @ rel @ '': relation has no allowed subjects'') @
         subject_notes schema (rt @ ''.'' @ rel @ '': '') ((rt, rel) \<in> set (navRefs schema)) subs [])
       (td_Relations t))"

definition compilePermissions :: "policy_model \<Rightarrow> string \<Rightarrow> resource_type_def \<Rightarrow> string list" where
  "compilePermissions schema rt t =
     concat (map (\<lambda>(p, e).
         error_line [] (ValidateRefField ''permission name'' p) @
         error_line (rt @ ''.'' @ p @ '': '') (validateExpression e schema rt False))
       (td_Permissions t))"

section \<open>Circular dependencies\<close>

type_synonym permission_key = "string \<times> string"  \<comment> \<open>resource type, permission\<close>

definition getTargetResourceTypes :: "subject_type_ref list \<Rightarrow> policy_model \<Rightarrow> string list" where
  "getTargetResourceTypes subjects schema =
     dedupeSort (filter (\<lambda>t. map_get (pm_ResourceTypes schema) t \<noteq> None) (map fst subjects))"

definition relation_def_subjects :: "resource_type_def \<Rightarrow> string \<Rightarrow> subject_type_ref list" where
  "relation_def_subjects t rel = (case map_get (td_Relations t) rel of None \<Rightarrow> [] | Some subs \<Rightarrow> subs)"

definition leaf_dependencies ::
  "policy_model \<Rightarrow> permission_key \<Rightarrow> resource_type_def \<Rightarrow> expression \<Rightarrow> permission_key list" where
  "leaf_dependencies schema key t leaf =
     (if ex_NamedPermission leaf \<noteq> [] then [(fst key, ex_NamedPermission leaf)]
      else if ex_Through leaf = [] then []
      else
        filter (\<lambda>target. target \<noteq> key \<and>
            dc_permission (model_declarations schema) (fst target) (snd target))
          (map (\<lambda>tt. (tt, ex_Permission leaf))
            (getTargetResourceTypes (relation_def_subjects t (ex_Through leaf)) schema)))"

definition throughGraph :: "policy_model \<Rightarrow> (permission_key, permission_key list) go_map" where
  "throughGraph schema =
     [((rt, p), sort (remdups (concat (map (leaf_dependencies schema (rt, p) t) (expressionLeaves rule))))).
        (rt, t) \<leftarrow> pm_ResourceTypes schema, (p, rule) \<leftarrow> td_Permissions t]"

text \<open>
  Depth-first search: a key on the active path closes a cycle, a finished key is skipped.  The
  result is the cycle found, if any, and the finished keys.
\<close>

function visit_key ::
    "('k, 'k list) go_map \<Rightarrow> 'k list \<Rightarrow> 'k list \<Rightarrow> 'k \<Rightarrow> 'k list option \<times> 'k list"
  and visit_keys ::
    "('k, 'k list) go_map \<Rightarrow> 'k list \<Rightarrow> 'k list \<Rightarrow> 'k list \<Rightarrow> 'k list option \<times> 'k list" where
  "visit_key graph path finished key =
     (if key \<in> set path then (Some (path @ [key]), finished)
      else if key \<in> set finished then (None, finished)
      else
        (case map_get graph key of
           None \<Rightarrow> (None, key # finished)
         | Some targets \<Rightarrow>
             (case visit_keys graph (path @ [key]) finished targets of
                (Some cycle, finished') \<Rightarrow> (Some cycle, finished')
              | (None, finished') \<Rightarrow> (None, key # finished'))))"
| "visit_keys graph path finished [] = (None, finished)"
| "visit_keys graph path finished (key # keys) =
     (case visit_key graph path finished key of
        (Some cycle, finished') \<Rightarrow> (Some cycle, finished')
      | (None, finished') \<Rightarrow> visit_keys graph path finished' keys)"
  by pat_completeness auto

termination
proof (relation "measures
    [case_sum (\<lambda>(g, path, f, k). card (set (map fst g) - set path)) (\<lambda>(g, path, f, ks). card (set (map fst g) - set path)),
     case_sum (\<lambda>_. 0) (\<lambda>(g, path, f, ks). Suc (length ks))]", goal_cases)
  case (2 graph path finished key targets)
  then have "key \<in> set (map fst graph)" "key \<notin> set path" by (force dest: map_of_SomeD)+
  then have "card (set (map fst graph) - set (path @ [key])) < card (set (map fst graph) - set path)"
    by (intro psubset_card_mono) auto
  then show ?case by simp
qed simp_all

declare visit_key.simps [simp del]

definition findThroughCycle :: "('k::linorder, 'k list) go_map \<Rightarrow> 'k list option" where
  "findThroughCycle graph = fst (visit_keys graph [] [] (sort (map fst graph)))"

fun join_keys :: "permission_key list \<Rightarrow> string" where
  "join_keys [] = []"
| "join_keys [k] = fst k @ CHR ''.'' # snd k"
| "join_keys (k # ks) = fst k @ CHR ''.'' # snd k @ '' -> '' @ join_keys ks"

definition detectCircularThrough :: "policy_model \<Rightarrow> string list" where
  "detectCircularThrough schema =
     (case findThroughCycle (throughGraph schema) of
        None \<Rightarrow> []
      | Some cycle \<Rightarrow> [''circular through-relation detected: '' @ join_keys cycle])"

section \<open>Permissions that can never grant\<close>

definition permission_keys :: "policy_model \<Rightarrow> permission_key list" where
  "permission_keys schema = [(rt, p). (rt, t) \<leftarrow> pm_ResourceTypes schema, (p, e) \<leftarrow> td_Permissions t]"

definition model_permission :: "policy_model \<Rightarrow> permission_key \<Rightarrow> expression option" where
  "model_permission schema key =
     Option.bind (map_get (pm_ResourceTypes schema) (fst key)) (\<lambda>t. map_get (td_Permissions t) (snd key))"

lemma model_permission_key: "model_permission schema key = Some e \<Longrightarrow> key \<in> set (permission_keys schema)"
  by (cases key) (force simp: model_permission_def permission_keys_def bind_eq_Some_conv dest: map_of_SomeD)

definition dependency_keys :: "policy_model \<Rightarrow> string \<Rightarrow> expression \<Rightarrow> permission_key list" where
  "dependency_keys schema rt e =
     (if ex_Through e \<noteq> [] then
        map (\<lambda>tt. (tt, ex_Permission e))
          (getTargetResourceTypes
            (case map_get (pm_ResourceTypes schema) rt of
               None \<Rightarrow> [] | Some t \<Rightarrow> relation_def_subjects t (ex_Through e)) schema)
      else [(rt, ex_NamedPermission e)])"

lemma child_smaller:
  "ex_AnyOf e = Some es \<Longrightarrow> c \<in> set es \<Longrightarrow> size c < size e"
  "ex_AllOf e = Some es \<Longrightarrow> c \<in> set es \<Longrightarrow> size c < size e"
  by (cases e; auto dest: size_list_estimation' [of _ _ "size c" size]; fail)+

text \<open>The stack holds the permissions being examined; the code's map is restored on return.\<close>

function possible :: "policy_model \<Rightarrow> string \<Rightarrow> expression \<Rightarrow> permission_key list \<Rightarrow> bool" where
  "possible schema rt e stack =
     (case ex_AnyOf e of
        Some es \<Rightarrow> list_ex (\<lambda>c. possible schema rt c stack) es
      | None \<Rightarrow>
          (case ex_AllOf e of
             Some es \<Rightarrow> es \<noteq> [] \<and> list_all (\<lambda>c. possible schema rt c stack) es
           | None \<Rightarrow>
               ex_RoleName e \<noteq> [] \<or> ex_Relation e \<noteq> [] \<or>
               list_ex (\<lambda>key.
                   if key \<in> set stack then False
                   else
                     (case model_permission schema key of
                        None \<Rightarrow> False
                      | Some body \<Rightarrow> possible schema (fst key) body (key # stack)))
                 (dependency_keys schema rt e)))"
  by pat_completeness auto

termination
proof (relation "measures
    [\<lambda>(schema, rt, e, stack). card (set (permission_keys schema) - set stack), \<lambda>(schema, rt, e, stack). size e]",
    goal_cases)
  case (2 schema rt e stack key body)
  then have "key \<in> set (permission_keys schema)" by (auto intro: model_permission_key)
  with 2 have "card (set (permission_keys schema) - set (key # stack)) < card (set (permission_keys schema) - set stack)"
    by (intro psubset_card_mono) auto
  then show ?case by simp
qed (auto simp: child_smaller)

declare possible.simps [simp del]

definition detectUnsatisfiable :: "policy_model \<Rightarrow> string list" where
  "detectUnsatisfiable schema =
     [''unsatisfiable through-relation detected: '' @ rt @ ''.'' @ p @ '' has no terminating grant''.
        (rt, t) \<leftarrow> pm_ResourceTypes schema, (p, e) \<leftarrow> td_Permissions t, \<not> possible schema rt e [(rt, p)]]"

section \<open>Compile\<close>

definition name_errors :: "policy_model \<Rightarrow> string list" where
  "name_errors schema =
     concat (map (\<lambda>(rt, t).
         error_line [] (ValidateRefField ''resource type name'' rt) @
         concat (map (\<lambda>(rel, _). error_line [] (ValidateRefField ''relation name'' rel)) (td_Relations t)) @
         concat (map (\<lambda>(p, e). error_line [] (ValidateRefField ''permission name'' p) @
             error_line (rt @ ''.'' @ p @ '': '') (validateExpression e schema rt False)) (td_Permissions t)))
       (pm_ResourceTypes schema))"

definition invalidExpression :: "policy_model \<Rightarrow> bool" where
  "invalidExpression schema =
     list_ex (\<lambda>(rt, t). list_ex (\<lambda>(p, e). validateExpression e schema rt False \<noteq> None) (td_Permissions t))
       (pm_ResourceTypes schema)"

definition compile_errors :: "policy_model \<Rightarrow> string list" where
  "compile_errors schema =
     pm_assemblyErrors schema @ name_errors schema @
     (if invalidExpression schema then []
      else
        concat (map (\<lambda>(rt, t).
            error_line [] (ValidateRefField ''resource type name'' rt) @
            compileRelations schema rt t @ compilePermissions schema rt t)
          (pm_ResourceTypes schema)) @
        detectCircularThrough schema @ detectUnsatisfiable schema)"

definition buildRelationTargets ::
  "(string, compiled_relation) go_map \<Rightarrow> (string \<Rightarrow> bool) \<Rightarrow> (string, string list) go_map" where
  "buildRelationTargets relations isResourceType =
     [(rel, dedupeSort (map fst (filter (\<lambda>s. snd s = [] \<and> isResourceType (fst s)) (cr_subjects r)))).
        (rel, r) \<leftarrow> relations, list_ex (\<lambda>s. snd s = [] \<and> isResourceType (fst s)) (cr_subjects r)]"

definition compile_relation ::
  "policy_model \<Rightarrow> string \<Rightarrow> string \<Rightarrow> subject_type_ref list \<Rightarrow> compiled_relation" where
  "compile_relation schema rt rel subs =
     \<lparr>cr_subjects = dedupeSort subs,
      cr_kind = (if (rt, rel) \<in> set (navRefs schema) then RelationNavigational else RelationDirect),
      cr_hasUsersets = list_ex (\<lambda>s. snd s \<noteq> []) (dedupeSort subs)\<rparr>"

definition compile_type :: "policy_model \<Rightarrow> string \<Rightarrow> resource_type_def \<Rightarrow> compiled_resource_type" where
  "compile_type schema rt t =
     (let relations = map (\<lambda>(rel, subs). (rel, compile_relation schema rt rel subs)) (td_Relations t) in
      \<lparr>ct_relations = relations,
       ct_permissions =
         map (\<lambda>(p, e). (p, \<lparr>cp_checks = graphChecks (copyExpression e), cp_expression = copyExpression e\<rparr>))
           (td_Permissions t),
       ct_relationTargets =
         buildRelationTargets relations (\<lambda>n. map_get (pm_ResourceTypes schema) n \<noteq> None)\<rparr>)"

definition Compile :: "policy_model \<Rightarrow> string list + compiled_model" where
  "Compile schema =
     (case compile_errors schema of
        [] \<Rightarrow> Inr (map (\<lambda>(rt, t). (rt, compile_type schema rt t)) (pm_ResourceTypes schema))
      | errs \<Rightarrow> Inl (dedupeSort errs))"

end
