(* ===== verification/Graph_Reads.thy ===== *)
theory Graph_Reads
  imports Membership
begin

text \<open>
  The contract of the graph reads the decision engine makes, as two locales: \<open>graph_reads\<close> says
  that an answer is right and that every read returns, \<open>live_graph_reads\<close> says in addition that the
  only failure is a membership expansion larger than its bound.  The portable reader over a
  snapshot and the in-memory relationship reader implement the second over the same facts, so
  they agree on every answer and on every overflow.
\<close>

section \<open>The contract\<close>

definition expansion :: "tuple set \<Rightarrow> read_model \<Rightarrow> string \<Rightarrow> string \<Rightarrow> int \<Rightarrow> 'a \<Rightarrow> 'a res" where
  "expansion F m st sid bound x =
     (if 0 < bound \<and> bound < int (card (holdings F m st sid)) then Inl ErrExpansionBudgetExceeded else Inr x)"

locale graph_reads =
  fixes rd :: graph_reader and F :: "tuple set" and m :: read_model
  assumes check_returns:
      "valid_facts F \<Longrightarrow> valid_ref st \<Longrightarrow> valid_ref sid \<Longrightarrow> rel \<noteq> [] \<Longrightarrow>
       \<exists>r. gr_CheckRelation rd rt i rel st sid bound = Some r"
    and check_right:
      "valid_facts F \<Longrightarrow> valid_ref st \<Longrightarrow> valid_ref sid \<Longrightarrow> rel \<noteq> [] \<Longrightarrow>
       gr_CheckRelation rd rt i rel st sid bound = Some (Inr b) \<Longrightarrow>
       b = (SubjectRef rt i rel \<in> holdings F m st sid)"
    and targets_right:
      "gr_Targets rd rt i rel = Inr ts \<Longrightarrow> set ts = relation_targets F m rt i rel"

locale live_graph_reads =
  fixes rd :: graph_reader and F :: "tuple set" and m :: read_model
  assumes check_exact:
      "valid_facts F \<Longrightarrow> valid_ref st \<Longrightarrow> valid_ref sid \<Longrightarrow> rel \<noteq> [] \<Longrightarrow>
       gr_CheckRelation rd rt i rel st sid bound =
         Some (expansion F m st sid bound (SubjectRef rt i rel \<in> holdings F m st sid))"
    and targets_returned:
      "valid_ref rt \<Longrightarrow> valid_ref i \<Longrightarrow> valid_ref rel \<Longrightarrow> \<exists>ts. gr_Targets rd rt i rel = Inr ts"
    and targets_exact:
      "gr_Targets rd rt i rel = Inr ts \<Longrightarrow> set ts = relation_targets F m rt i rel"
    and batch_exact:
      "valid_facts F \<Longrightarrow> valid_ref st \<Longrightarrow> valid_ref sid \<Longrightarrow> rel \<noteq> [] \<Longrightarrow>
       \<exists>out. gr_BatchDirect rd rt ids rel st sid bound = Some (expansion F m st sid bound out) \<and>
         (\<forall>i. map_get out i = (if i \<in> set ids then Some (SubjectRef rt i rel \<in> holdings F m st sid) else None))"
begin

lemma check_overflow:
  assumes "valid_facts F" "valid_ref st" "valid_ref sid" "rel \<noteq> []"
    and "gr_CheckRelation rd rt i rel st sid bound = Some (Inl e)"
  shows "e = ErrExpansionBudgetExceeded"
  using assms check_exact [of st sid rel rt i bound] by (auto simp: expansion_def split: if_splits)

end

sublocale live_graph_reads \<subseteq> sound: graph_reads rd F m
  by unfold_locales (auto simp: check_exact targets_exact expansion_def split: if_splits)

section \<open>Exploring a finite graph\<close>

lemma explore_exact:
  assumes "finite (reached succs a)" and total: "\<forall>x\<in>reached succs a. \<exists>xs. succs x = Inr xs"
  obtains seen where "explore succs bound [a] [a] = Some (Inr (seen, 0 < bound \<and> bound < int (card (reached succs a))))"
    "\<not> (0 < bound \<and> bound < int (card (reached succs a))) \<Longrightarrow> set seen = reached succs a"
proof -
  have a: "a \<in> reached succs a" by (simp add: reached_def)
  have inv: "exploring succs bound a [a] [a]" by (auto simp: exploring_def a)
  obtain r where r: "explore succs bound [a] [a] = Some r"
    using explore_returns [OF assms(1) order_refl inv] by blast
  have "\<forall>e. r \<noteq> Inl e" using explore_error [OF r, of a] inv total by (metis sum.distinct(1))
  then obtain seen overflow where found: "r = Inr (seen, overflow)" by (cases r) auto
  have ex: "explored succs bound a (seen, overflow)"
    using explore_partial [OF r, of a] inv found by blast
  have "overflow = (0 < bound \<and> bound < int (card (reached succs a)))"
  proof (cases overflow)
    case True
    then obtain x where x: "x \<in> reached succs a" "x \<notin> set seen"
      and s: "distinct seen" "set seen \<subseteq> reached succs a" "0 < bound" "int (length seen) = bound"
      using ex by (auto simp: explored_def)
    have "card (set seen) < card (reached succs a)"
      using x s(2) assms(1) by (intro psubset_card_mono) auto
    then show ?thesis using True s by (simp add: distinct_card)
  next
    case False
    then have "distinct seen" "set seen = reached succs a" "0 < bound \<longrightarrow> int (length seen) \<le> bound"
      using ex by (auto simp: explored_def)
    then show ?thesis using False by (auto simp: distinct_card [symmetric])
  qed
  moreover have "set seen = reached succs a" if "\<not> overflow" using ex that by (simp add: explored_def)
  ultimately show thesis using that r found by blast
qed

section \<open>The portable reader over a snapshot\<close>

lemma snapshot_sets:
  "rd_ReadSets (snapshot_reads False None facts) [k] 0 =
     (case SetKey_Validate k of Some e \<Rightarrow> Inl e | None \<Rightarrow> Inr [sort (filter (SetKey_holds k) facts)])"
  by (auto simp: snapshot_reads_def snapshot_check_def ReadSets_def scan_facts_unbounded or_else_def
      split: option.splits)

lemma tuple_succs_snapshot:
  "Subject_Validate x = None \<Longrightarrow>
   \<exists>ys. tuple_succs (snapshot_reads False None facts) m None x = Inr ys \<and>
     set ys = {y. (x, y) \<in> membership (set facts) m}"
  by (auto simp: tuple_succs_def snapshot_sets membership_def)

lemma reached_closure:
  assumes "\<And>x. x \<in> holdings F m st sid \<Longrightarrow> \<exists>ys. succs x = Inr ys \<and> set ys = {y. (x, y) \<in> membership F m}"
  shows "reached succs (SubjectRef st sid []) = holdings F m st sid"
    "\<forall>x\<in>holdings F m st sid. \<exists>ys. succs x = Inr ys"
proof -
  let ?s = "SubjectRef st sid []"
  have edge: "(x, y) \<in> steps succs \<longleftrightarrow> (x, y) \<in> membership F m" if "x \<in> holdings F m st sid" for x y
    using assms [OF that] by (auto simp: steps_def)
  have "x \<in> holdings F m st sid" if "(?s, x) \<in> (steps succs)\<^sup>*" for x
    using that
  proof (induction rule: rtrancl_induct)
    case (step y z)
    then have "(y, z) \<in> membership F m" using edge by simp
    with step show ?case by (auto simp: holdings_def)
  qed (simp add: holdings_def)
  moreover have "(?s, x) \<in> (steps succs)\<^sup>*" if "(?s, x) \<in> (membership F m)\<^sup>*" for x
    using that
  proof (induction rule: rtrancl_induct)
    case (step y z)
    then have "y \<in> holdings F m st sid" by (simp add: holdings_def)
    with step assms [OF this] have "(y, z) \<in> steps succs" by (auto simp: steps_def)
    with step show ?case by simp
  qed simp
  ultimately show "reached succs ?s = holdings F m st sid" by (auto simp: reached_def holdings_def)
  show "\<forall>x\<in>holdings F m st sid. \<exists>ys. succs x = Inr ys" using assms by blast
qed

lemma fold_map_put:
  "map_get (fold (\<lambda>i. map_put i (v i)) ids out) j = (if j \<in> set ids then Some (v j) else map_get out j)"
  by (induction ids arbitrary: out) auto

lemma reachable_exact:
  assumes "valid_facts (set facts)" "valid_ref st" "valid_ref sid"
  obtains seen where
    "reachable (snapshot_reads False None facts) m None st sid bound =
       Some (expansion (set facts) m st sid bound seen)"
    "\<not> (0 < bound \<and> bound < int (card (holdings (set facts) m st sid))) \<Longrightarrow>
       set seen = holdings (set facts) m st sid"
proof -
  let ?succs = "tuple_succs (snapshot_reads False None facts) m None"
  have ok: "\<exists>ys. ?succs x = Inr ys \<and> set ys = {y. (x, y) \<in> membership (set facts) m}"
    if "x \<in> holdings (set facts) m st sid" for x
    using tuple_succs_snapshot [of x facts m] holdings_valid [OF assms that] by blast
  note closure = reached_closure [of "set facts" m st sid ?succs, OF ok]
  have "finite (reached ?succs (SubjectRef st sid []))"
    using holdings_finite [of "set facts"] closure(1) by simp
  then obtain seen where "explore ?succs bound [SubjectRef st sid []] [SubjectRef st sid []] =
      Some (Inr (seen, 0 < bound \<and> bound < int (card (holdings (set facts) m st sid))))"
    and "\<not> (0 < bound \<and> bound < int (card (holdings (set facts) m st sid))) \<Longrightarrow>
       set seen = holdings (set facts) m st sid"
    using explore_exact [of ?succs "SubjectRef st sid []" bound thesis] closure by simp
  then show thesis by (intro that [of seen]) (auto simp: reachable_def expansion_def)
qed

lemma tuple_targets:
  assumes "tuple_GetRelationTargets (snapshot_reads False None facts) m None rt i rel = Inr ts"
  shows "set ts = relation_targets (set facts) m rt i rel"
proof -
  have "ts = filter (\<lambda>sj. Allows m rt rel (sj_Type sj) (sj_Relation sj))
      (map tp_Subject (sort (filter (SetKey_holds (forward_key (On rt i) rel)) facts)))"
    using assms by (auto simp: tuple_GetRelationTargets_def snapshot_sets split: option.splits)
  moreover have "(\<exists>f\<in>set facts. tp_Scope f = On rt i \<and> tp_Relation f = rel \<and> tp_Subject f = sj) \<longleftrightarrow>
      Tuple (On rt i) rel sj \<in> set facts" for sj
    by (metis tuple.collapse tuple.sel)
  ultimately show ?thesis
    unfolding relation_targets_def by (auto simp: image_iff Bex_def)
qed

interpretation portable: live_graph_reads
  "tuple_graph_reader (snapshot_reads False None facts) m None" "set facts" m for facts m
proof
  fix st sid rel rt i :: string and bound
  assume ok: "valid_facts (set facts)" "valid_ref st" "valid_ref sid" "rel \<noteq> []"
  obtain seen where seen: "reachable (snapshot_reads False None facts) m None st sid bound =
       Some (expansion (set facts) m st sid bound seen)"
    "\<not> (0 < bound \<and> bound < int (card (holdings (set facts) m st sid))) \<Longrightarrow>
       set seen = holdings (set facts) m st sid"
    using reachable_exact [OF ok(1-3)] by blast
  then show "gr_CheckRelation (tuple_graph_reader (snapshot_reads False None facts) m None) rt i rel st sid bound =
      Some (expansion (set facts) m st sid bound (SubjectRef rt i rel \<in> holdings (set facts) m st sid))"
    by (auto simp: tuple_graph_reader_def tuple_CheckRelation_def expansion_def)
next
  fix rt i rel :: string
  assume "valid_ref rt" "valid_ref i" "valid_ref rel"
  then have none: "SetKey_Validate (forward_key (On rt i) rel) = None" by simp
  show "\<exists>ts. gr_Targets (tuple_graph_reader (snapshot_reads False None facts) m None) rt i rel = Inr ts"
    by (simp add: tuple_graph_reader_def tuple_GetRelationTargets_def snapshot_sets none)
next
  fix rt i rel ts
  assume "gr_Targets (tuple_graph_reader (snapshot_reads False None facts) m None) rt i rel = Inr ts"
  then show "set ts = relation_targets (set facts) m rt i rel"
    by (simp add: tuple_graph_reader_def tuple_targets)
next
  fix st sid rel rt :: string and ids bound
  assume ok: "valid_facts (set facts)" "valid_ref st" "valid_ref sid" "rel \<noteq> []"
  obtain seen where seen: "reachable (snapshot_reads False None facts) m None st sid bound =
       Some (expansion (set facts) m st sid bound seen)"
    "\<not> (0 < bound \<and> bound < int (card (holdings (set facts) m st sid))) \<Longrightarrow>
       set seen = holdings (set facts) m st sid"
    using reachable_exact [OF ok(1-3)] by blast
  show "\<exists>out. gr_BatchDirect (tuple_graph_reader (snapshot_reads False None facts) m None) rt ids rel st sid bound =
        Some (expansion (set facts) m st sid bound out) \<and>
      (\<forall>i. map_get out i =
        (if i \<in> set ids then Some (SubjectRef rt i rel \<in> holdings (set facts) m st sid) else None))"
    by (rule exI [of _ "fold (\<lambda>i. map_put i (SubjectRef rt i rel \<in> holdings (set facts) m st sid)) ids []"])
      (use seen in \<open>auto simp: tuple_graph_reader_def tuple_CheckBatchDirect_def expansion_def fold_map_put\<close>)
qed

section \<open>The in-memory relationship reader\<close>

lemma mem_rows:
  "row \<in> set (relationshipRows facts) \<longleftrightarrow>
   (\<exists>t\<in>set facts. sc_Kind (tp_Scope t) = ResourceScope \<and> row_subject row = tp_Subject t \<and>
      row_ref row = fact_ref t)"
proof -
  have "row = \<lparr>rr_resourceType = sc_Type (tp_Scope t), rr_resourceID = sc_ID (tp_Scope t),
            rr_relation = tp_Relation t, rr_subjectType = sj_Type (tp_Subject t),
            rr_subjectID = sj_ID (tp_Subject t), rr_subjectRelation = sj_Relation (tp_Subject t)\<rparr> \<longleftrightarrow>
      row_subject row = tp_Subject t \<and> row_ref row = fact_ref t" for t
    by (cases row; cases "tp_Subject t") (auto simp: row_subject_def row_ref_def fact_ref_def)
  then show ?thesis by (auto simp: relationshipRows_def image_iff)
qed

lemma row_allows_follows:
  assumes "row_subject row = tp_Subject t" "row_ref row = fact_ref t" "sc_Kind (tp_Scope t) = ResourceScope"
  shows "row_allows (Some m) row \<longleftrightarrow> follows m (tp_Subject t) t"
  using assms by (cases "tp_Subject t") (auto simp: row_allows_def follows_def row_subject_def row_ref_def fact_ref_def)

text \<open>The rows the model allows are the edges of the membership relation.\<close>

lemma allowed_rows:
  "(\<exists>row\<in>set (relationshipRows facts). row_allows (Some m) row \<and> row_subject row = a \<and> row_ref row = b) \<longleftrightarrow>
   (a, b) \<in> membership (set facts) m"
proof -
  have "(\<exists>row\<in>set (relationshipRows facts). row_allows (Some m) row \<and> row_subject row = a \<and> row_ref row = b) \<longleftrightarrow>
      (\<exists>t\<in>set facts. follows m (tp_Subject t) t \<and> tp_Subject t = a \<and> fact_ref t = b)"
    (is "?l = ?r")
  proof
    assume ?l
    then obtain row where row: "row \<in> set (relationshipRows facts)" "row_allows (Some m) row"
      "row_subject row = a" "row_ref row = b" by blast
    then obtain t where "t \<in> set facts" "sc_Kind (tp_Scope t) = ResourceScope" "row_subject row = tp_Subject t"
      "row_ref row = fact_ref t" using mem_rows [of row facts] by blast
    then show ?r using row row_allows_follows by auto
  next
    assume ?r
    then obtain t where t: "t \<in> set facts" "follows m (tp_Subject t) t" "tp_Subject t = a" "fact_ref t = b" by blast
    let ?row = "\<lparr>rr_resourceType = sc_Type (tp_Scope t), rr_resourceID = sc_ID (tp_Scope t),
            rr_relation = tp_Relation t, rr_subjectType = sj_Type (tp_Subject t),
            rr_subjectID = sj_ID (tp_Subject t), rr_subjectRelation = sj_Relation (tp_Subject t)\<rparr>"
    have r: "row_subject ?row = tp_Subject t" "row_ref ?row = fact_ref t" "sc_Kind (tp_Scope t) = ResourceScope"
      using t(2) by (simp_all add: row_subject_def row_ref_def fact_ref_def follows_def)
    then have "?row \<in> set (relationshipRows facts)" "row_allows (Some m) ?row"
      using t row_allows_follows [OF r] mem_rows [of ?row facts] by blast+
    then show ?l using r t by blast
  qed
  moreover have "(a, b) \<in> membership (set facts) m \<longleftrightarrow>
      (\<exists>t\<in>set facts. follows m (tp_Subject t) t \<and> tp_Subject t = a \<and> fact_ref t = b)"
    unfolding membership_def by auto
  ultimately show ?thesis by simp
qed

lemma membership_targets:
  "{sj. (sj, SubjectRef rt i rel) \<in> membership F m} = relation_targets F m rt i rel"
proof -
  have "(sj, SubjectRef rt i rel) \<in> membership F m \<longleftrightarrow>
      Tuple (On rt i) rel sj \<in> F \<and> Allows m rt rel (sj_Type sj) (sj_Relation sj)" for sj
  proof
    assume "(sj, SubjectRef rt i rel) \<in> membership F m"
    then obtain f where f: "f \<in> F" "follows m (tp_Subject f) f" "sj = tp_Subject f" "SubjectRef rt i rel = fact_ref f"
      unfolding membership_def by blast
    from f(2,4) have eqs: "sc_Kind (tp_Scope f) = ResourceScope" "sc_Type (tp_Scope f) = rt"
      "sc_ID (tp_Scope f) = i" "tp_Relation f = rel" by (simp_all add: follows_def fact_ref_def)
    then have "tp_Scope f = On rt i" by (intro scope.expand) simp
    with eqs(4) f(3) have f': "f = Tuple (On rt i) rel sj" by (intro tuple.expand) simp
    from f(1,2) show "Tuple (On rt i) rel sj \<in> F \<and> Allows m rt rel (sj_Type sj) (sj_Relation sj)"
      unfolding f' by (simp add: follows_def)
  next
    assume "Tuple (On rt i) rel sj \<in> F \<and> Allows m rt rel (sj_Type sj) (sj_Relation sj)"
    then show "(sj, SubjectRef rt i rel) \<in> membership F m"
      unfolding membership_def
      by (intro CollectI exI [of _ "Tuple (On rt i) rel sj"]) (simp add: follows_def fact_ref_def)
  qed
  then show ?thesis by (simp add: relation_targets_def)
qed

lemma fold_map_hits:
  "map_get (fold (\<lambda>row out. if P row then map_put (k row) True out else out) rows out) i =
   (if \<exists>row\<in>set rows. P row \<and> k row = i then Some True else map_get out i)"
  by (induction rows arbitrary: out) auto

lemma row_succs_set:
  "\<exists>ys. row_succs (Some m) facts x = Inr ys \<and> set ys = {y. (x, y) \<in> membership (set facts) m}"
proof -
  have "set (map row_ref (filter (\<lambda>row. row_allows (Some m) row \<and> row_subject row = x) (relationshipRows facts))) =
      {y. \<exists>row\<in>set (relationshipRows facts). row_allows (Some m) row \<and> row_subject row = x \<and> row_ref row = y}"
    by auto
  then show ?thesis by (simp add: row_succs_def allowed_rows)
qed

lemma expandReachable_exact:
  obtains seen where
    "expandReachable (Some m) facts None st sid bound =
       Some (seen, 0 < bound \<and> bound < int (card (holdings (set facts) m st sid)))"
    "\<not> (0 < bound \<and> bound < int (card (holdings (set facts) m st sid))) \<Longrightarrow>
       set seen = holdings (set facts) m st sid"
proof -
  note closure = reached_closure [of "set facts" m st sid "row_succs (Some m) facts", OF row_succs_set]
  have "finite (reached (row_succs (Some m) facts) (SubjectRef st sid []))"
    using holdings_finite [of "set facts"] closure(1) by simp
  then obtain seen where
    "explore (row_succs (Some m) facts) bound [SubjectRef st sid []] [SubjectRef st sid []] =
      Some (Inr (seen, 0 < bound \<and> bound < int (card (holdings (set facts) m st sid))))"
    "\<not> (0 < bound \<and> bound < int (card (holdings (set facts) m st sid))) \<Longrightarrow>
       set seen = holdings (set facts) m st sid"
    using explore_exact [of "row_succs (Some m) facts" "SubjectRef st sid []" bound thesis] closure by simp
  then show thesis by (intro that [of seen]) (simp_all add: expandReachable_def)
qed

text \<open>A held userset is one whose resource and relation some allowed fact grants to something held.\<close>

lemma held_by_row:
  assumes "rel \<noteq> []"
  shows "(\<exists>row\<in>set (relationshipRows facts). row_allows (Some m) row \<and> row_ref row = SubjectRef rt i rel \<and>
      row_subject row \<in> holdings (set facts) m st sid) \<longleftrightarrow> SubjectRef rt i rel \<in> holdings (set facts) m st sid"
proof
  assume "\<exists>row\<in>set (relationshipRows facts). row_allows (Some m) row \<and> row_ref row = SubjectRef rt i rel \<and>
      row_subject row \<in> holdings (set facts) m st sid"
  then obtain row where row: "row \<in> set (relationshipRows facts)" "row_allows (Some m) row"
    "row_ref row = SubjectRef rt i rel" and held: "row_subject row \<in> holdings (set facts) m st sid" by blast
  have "(row_subject row, SubjectRef rt i rel) \<in> membership (set facts) m"
    using allowed_rows [of facts m "row_subject row" "SubjectRef rt i rel"] row by blast
  with held show "SubjectRef rt i rel \<in> holdings (set facts) m st sid"
    unfolding holdings_def Image_singleton_iff by (rule rtrancl_into_rtrancl)
next
  assume "SubjectRef rt i rel \<in> holdings (set facts) m st sid"
  then obtain f where f: "f \<in> set facts" "follows m (tp_Subject f) f" "tp_Subject f \<in> holdings (set facts) m st sid"
    "SubjectRef rt i rel = fact_ref f" using holdings_cases assms by blast
  then have "(tp_Subject f, SubjectRef rt i rel) \<in> membership (set facts) m" unfolding membership_def by blast
  then obtain row where "row \<in> set (relationshipRows facts)" "row_allows (Some m) row"
    "row_subject row = tp_Subject f" "row_ref row = SubjectRef rt i rel"
    using allowed_rows [of facts m "tp_Subject f" "SubjectRef rt i rel"] by (elim iffD2 [THEN bexE]) auto
  with f(3) show "\<exists>row\<in>set (relationshipRows facts). row_allows (Some m) row \<and> row_ref row = SubjectRef rt i rel \<and>
      row_subject row \<in> holdings (set facts) m st sid" by metis
qed

interpretation rows: live_graph_reads "memory_graph_reader (Some m) facts None" "set facts" m for facts m
proof
  fix st sid rel rt i :: string and bound
  assume ok: "valid_facts (set facts)" "valid_ref st" "valid_ref sid" "rel \<noteq> []"
  obtain seen where seen: "expandReachable (Some m) facts None st sid bound =
       Some (seen, 0 < bound \<and> bound < int (card (holdings (set facts) m st sid)))"
    "\<not> (0 < bound \<and> bound < int (card (holdings (set facts) m st sid))) \<Longrightarrow>
       set seen = holdings (set facts) m st sid"
    using expandReachable_exact [of m facts st sid bound thesis] by blast
  then show "gr_CheckRelation (memory_graph_reader (Some m) facts None) rt i rel st sid bound =
      Some (expansion (set facts) m st sid bound (SubjectRef rt i rel \<in> holdings (set facts) m st sid))"
    using held_by_row [OF ok(4), of facts m rt i st sid]
    by (simp add: memory_graph_reader_def memory_CheckRelation_def expansion_def list_ex_iff)
next
  fix rt i rel :: string
  show "\<exists>ts. gr_Targets (memory_graph_reader (Some m) facts None) rt i rel = Inr ts"
    by (simp add: memory_graph_reader_def memory_GetRelationTargets_def)
next
  fix rt i rel ts
  assume "gr_Targets (memory_graph_reader (Some m) facts None) rt i rel = Inr ts"
  then have "set ts = {sj. \<exists>row\<in>set (relationshipRows facts). row_allows (Some m) row \<and>
      row_subject row = sj \<and> row_ref row = SubjectRef rt i rel}"
    by (auto simp: memory_graph_reader_def memory_GetRelationTargets_def)
  also have "\<dots> = {sj. (sj, SubjectRef rt i rel) \<in> membership (set facts) m}"
    by (simp only: allowed_rows)
  also have "\<dots> = relation_targets (set facts) m rt i rel"
    by (simp only: membership_targets)
  finally show "set ts = relation_targets (set facts) m rt i rel" .
next
  fix st sid rel rt :: string and ids bound
  assume ok: "valid_facts (set facts)" "valid_ref st" "valid_ref sid" "rel \<noteq> []"
  obtain seen where seen: "expandReachable (Some m) facts None st sid bound =
       Some (seen, 0 < bound \<and> bound < int (card (holdings (set facts) m st sid)))"
    "\<not> (0 < bound \<and> bound < int (card (holdings (set facts) m st sid))) \<Longrightarrow>
       set seen = holdings (set facts) m st sid"
    using expandReachable_exact [of m facts st sid bound thesis] by blast
  let ?hit = "\<lambda>row. row_allows (Some m) row \<and> rr_resourceType row = rt \<and> rr_relation row = rel \<and>
      rr_resourceID row \<in> set ids \<and> row_subject row \<in> set seen"
  let ?out = "fold (\<lambda>row out. if ?hit row then map_put (rr_resourceID row) True out else out)
      (relationshipRows facts) (fold (\<lambda>i. map_put i False) ids [])"
  show "\<exists>out. gr_BatchDirect (memory_graph_reader (Some m) facts None) rt ids rel st sid bound =
        Some (expansion (set facts) m st sid bound out) \<and>
      (\<forall>i. map_get out i =
        (if i \<in> set ids then Some (SubjectRef rt i rel \<in> holdings (set facts) m st sid) else None))"
  proof (cases "0 < bound \<and> bound < int (card (holdings (set facts) m st sid))")
    case True
    then show ?thesis using seen(1)
      by (intro exI [of _ "fold (\<lambda>i. map_put i (SubjectRef rt i rel \<in> holdings (set facts) m st sid)) ids []"])
        (simp add: memory_graph_reader_def memory_CheckBatchDirect_def expansion_def fold_map_put)
  next
    case False
    have hit: "(\<exists>row\<in>set (relationshipRows facts). ?hit row \<and> rr_resourceID row = i) \<longleftrightarrow>
        i \<in> set ids \<and> SubjectRef rt i rel \<in> holdings (set facts) m st sid" for i
      using held_by_row [OF ok(4), of facts m rt i st sid] seen(2) False by (auto simp: row_ref_def)
    have get: "map_get ?out i =
        (if \<exists>row\<in>set (relationshipRows facts). ?hit row \<and> rr_resourceID row = i then Some True
         else if i \<in> set ids then Some False else None)" for i
      by (simp only: fold_map_hits fold_map_put map_of.simps)
    show ?thesis
      using seen(1) False get hit
      by (intro exI [of _ ?out])
        (auto simp: memory_graph_reader_def memory_CheckBatchDirect_def expansion_def)
  qed
qed

section \<open>Properties\<close>

text \<open>
  Property C12.  The two graph readers agree.  Over the same valid facts and the same allowed shapes,
  the portable reader, which asks a snapshot for the sets of a subject one page at a time, and the
  in-memory reader, which walks rows, return the same answer to every relation check, overflow
  included: the membership expansion fails exactly when it is bounded and the subject holds more
  references than the bound, and otherwise the answer is whether the relation is reachable from
  the subject along allowed facts, usersets of usersets and circles of groups included.  Neither
  ever fails to return.
\<close>

theorem graph_readers_agree:
  assumes "valid_facts (set facts)" "valid_ref st" "valid_ref sid" "rel \<noteq> []"
  shows "gr_CheckRelation (tuple_graph_reader (snapshot_reads False None facts) m None) rt i rel st sid bound =
      gr_CheckRelation (memory_graph_reader (Some m) facts None) rt i rel st sid bound \<and>
    gr_CheckRelation (memory_graph_reader (Some m) facts None) rt i rel st sid bound =
      Some (if 0 < bound \<and> bound < int (card {x. (SubjectRef st sid [], x) \<in> (membership (set facts) m)\<^sup>*})
            then Inl ErrExpansionBudgetExceeded
            else Inr ((SubjectRef st sid [], SubjectRef rt i rel) \<in> (membership (set facts) m)\<^sup>*))"
  unfolding portable.check_exact [OF assms] rows.check_exact [OF assms]
  by (simp add: expansion_def holdings_def Image_singleton)

lemma graph_readers_agree_witness:
  "let facts = [Tuple (On ''group'' ''g'') ''member'' (SubjectRef ''user'' ''u'' []),
                Tuple (On ''doc'' ''1'') ''viewer'' (SubjectRef ''group'' ''g'' ''member'')];
       m = ReadModel [(''group'', ''member'', ''user'', []), (''doc'', ''viewer'', ''group'', ''member'')]
   in gr_CheckRelation (tuple_graph_reader (snapshot_reads False None facts) m None) ''doc'' ''1'' ''viewer'' ''user'' ''u'' 0 =
        Some (Inr True) \<and>
      gr_CheckRelation (memory_graph_reader (Some m) facts None) ''doc'' ''1'' ''viewer'' ''user'' ''u'' 0 = Some (Inr True)"
proof -
  let ?facts = "[Tuple (On ''group'' ''g'') ''member'' (SubjectRef ''user'' ''u'' []),
                Tuple (On ''doc'' ''1'') ''viewer'' (SubjectRef ''group'' ''g'' ''member'')]"
    and ?m = "ReadModel [(''group'', ''member'', ''user'', []), (''doc'', ''viewer'', ''group'', ''member'')]"
  have "list_all (\<lambda>t. Tuple_Validate t = None) ?facts" by code_simp
  then have facts: "valid_facts (set ?facts)" by (simp add: valid_facts_def)
  have refs: "valid_ref ''user''" "valid_ref ''u''" by code_simp+
  have edge: "(tp_Subject f, fact_ref f) \<in> membership (set ?facts) ?m" if "f \<in> set ?facts" for f
    using that by (auto simp: membership_def follows_def Allows_def)
  have "(SubjectRef ''user'' ''u'' [], SubjectRef ''group'' ''g'' ''member'') \<in> membership (set ?facts) ?m"
    "(SubjectRef ''group'' ''g'' ''member'', SubjectRef ''doc'' ''1'' ''viewer'') \<in> membership (set ?facts) ?m"
    using edge [of "?facts ! 0"] edge [of "?facts ! 1"] by (simp_all add: fact_ref_def)
  then have "(SubjectRef ''user'' ''u'' [], SubjectRef ''doc'' ''1'' ''viewer'') \<in> (membership (set ?facts) ?m)\<^sup>*"
    by (meson r_into_rtrancl rtrancl_into_rtrancl)
  then show ?thesis
    using graph_readers_agree [OF facts refs, of "''viewer''" ?m "''doc''" "''1''" 0] by (simp add: Let_def)
qed

end
