(* ===== verification/Evaluator.thy ===== *)
theory Evaluator
  imports Model_Compiler Graph_Reads
begin

text \<open>
  The decision engine: the work budget (\<open>src/pockets/authorization/logic/decisions/budget.go\<close>), the
  memoized reads of one operation (\<open>batch_reader.go\<close>, \<open>memoFacts\<close> of \<open>check_operation.go\<close>), and the
  walk over a permission expression (\<open>evaluate.go\<close>, \<open>expression.go\<close>, \<open>diagnostic.go\<close>).  A step of
  the engine takes the mutable state of an operation and returns a Go result with the new state,
  or \<open>None\<close> when it does not return.  Recursion is bounded by fuel, one unit per call of
  \<open>evaluateExpression\<close>; each call charges a step of the budget, so a fuel above the step limit never
  runs out.  The set of states on the active path is passed as a list: the code adds a key before
  the recursive call and deletes it on return.
\<close>

section \<open>Results, traces, state\<close>

type_synonym reason = string

abbreviation (input) ReasonGranted :: reason where
  "ReasonGranted \<equiv> ''granted''"

abbreviation (input) ReasonDenied :: reason where
  "ReasonDenied \<equiv> ''denied''"

abbreviation (input) ReasonDirectHit :: reason where
  "ReasonDirectHit \<equiv> ''direct_hit''"

record check_result =
  ck_Allowed :: bool
  ck_ReasonCode :: reason
  ck_Reason :: string

definition decision :: "bool \<Rightarrow> string \<Rightarrow> check_result" where
  "decision allowed reason =
     \<lparr>ck_Allowed = allowed, ck_ReasonCode = (if allowed then ReasonGranted else ReasonDenied), ck_Reason = reason\<rparr>"

definition outcomeReason :: "bool \<Rightarrow> reason" where
  "outcomeReason allowed = (if allowed then ReasonGranted else ReasonDenied)"

record explain_step =
  xs_ResourceType :: string
  xs_ResourceID :: string
  xs_Permission :: string
  xs_Relation :: string
  xs_Kind :: string
  xs_Depth :: int
  xs_Outcome :: reason
  xs_Scope :: scope

datatype state_key = StateKey
  (key_resourceType: string) (key_resourceID: string) (key_permission: string) (key_kind: nat) (key_relation: string)

record leaf_target =
  lt_permission :: string
  lt_resource :: resource

record expression_target =
  et_composite :: bool
  et_first :: leaf_target
  et_firstDenied :: leaf_target
  et_leaves :: int
  et_denied :: int

record budget =
  bd_steps :: int
  bd_states :: "state_key list"
  bd_trace :: "explain_step list option"
  bd_diagnosticFacts :: "tuple list"
  bd_target :: "expression_target option"
  bd_targets :: "(string \<times> string \<times> string, subject_ref list) go_map"
  bd_direct :: "(string \<times> string \<times> string \<times> string \<times> string \<times> int, bool) go_map"
  bd_facts :: "(tuple, bool) go_map"
  bd_slots :: "(string, resource res) go_map"
  bd_probes :: int
  bd_globalGrant :: bool
  bd_polls :: nat

text \<open>
  What an operation reads: the bound facts and graph reader, the model, the limits, whether the
  direct short circuit is off, whether diagnostics are on, the resolver of runtime resources, and
  \<open>ctx.Err()\<close> at each of its polls.
\<close>

record view =
  vw_facts :: tuple_reader
  vw_reader :: graph_reader
  vw_compiled :: compiled_model
  vw_limits :: evaluation_limits
  vw_subjectFirst :: bool
  vw_diagnostics :: bool
  vw_resolve :: "string \<Rightarrow> resource res"
  vw_ctx :: "nat \<Rightarrow> error"

section \<open>Steps\<close>

type_synonym 'a run = "budget \<Rightarrow> ('a res \<times> budget) option"

definition ret :: "'a \<Rightarrow> 'a run" where
  "ret x b = Some (Inr x, b)"

definition fail :: "go_error \<Rightarrow> 'a run" where
  "fail e b = Some (Inl e, b)"

definition bind :: "'a run \<Rightarrow> ('a \<Rightarrow> 'b run) \<Rightarrow> 'b run" where
  "bind m f b =
     (case m b of
        None \<Rightarrow> None
      | Some (Inl e, b') \<Rightarrow> Some (Inl e, b')
      | Some (Inr x, b') \<Rightarrow> f x b')"

abbreviation (input) andthen :: "unit run \<Rightarrow> 'b run \<Rightarrow> 'b run" where
  "andthen m k \<equiv> bind m (\<lambda>_. k)"

definition poll :: "view \<Rightarrow> unit run" where
  "poll v b =
     (let b' = b\<lparr>bd_polls := Suc (bd_polls b)\<rparr> in
      case vw_ctx v (bd_polls b) of Some e \<Rightarrow> Some (Inl e, b') | None \<Rightarrow> Some (Inr (), b'))"

text \<open>A poll after a call, whatever it returned: a canceled context replaces its result.\<close>

definition then_poll :: "view \<Rightarrow> 'a run \<Rightarrow> 'a run" where
  "then_poll v m b =
     (case m b of
        None \<Rightarrow> None
      | Some (r, b') \<Rightarrow>
          (case poll v b' of
             Some (Inl e, b'') \<Rightarrow> Some (Inl e, b'')
           | Some (Inr _, b'') \<Rightarrow> Some (r, b'')
           | None \<Rightarrow> None))"

definition map_error :: "(go_error \<Rightarrow> go_error) \<Rightarrow> 'a run \<Rightarrow> 'a run" where
  "map_error f m b = (case m b of Some (Inl e, b') \<Rightarrow> Some (Inl (f e), b') | r \<Rightarrow> r)"

section \<open>The budget\<close>

definition chargeStep :: "view \<Rightarrow> unit run" where
  "chargeStep v b =
     (if bd_steps b \<ge> MaxEvaluationSteps (vw_limits v) then Some (Inl ErrEvaluationLimit, b)
      else Some (Inr (), b\<lparr>bd_steps := bd_steps b + 1\<rparr>))"

definition chargeKey :: "view \<Rightarrow> state_key \<Rightarrow> unit run" where
  "chargeKey v k b =
     (if k \<in> set (bd_states b) then Some (Inr (), b)
      else if int (length (bd_states b)) \<ge> MaxGraphStates (vw_limits v) then Some (Inl ErrEvaluationLimit, b)
      else Some (Inr (), b\<lparr>bd_states := k # bd_states b\<rparr>))"

definition chargePrimitiveState :: "view \<Rightarrow> resource \<Rightarrow> expression \<Rightarrow> unit run" where
  "chargePrimitiveState v r e =
     chargeKey v
       (if ex_Through e \<noteq> [] then StateKey (rs_Type r) (rs_ID r) (ex_Permission e) 2 (ex_Through e)
        else StateKey (rs_Type r) (rs_ID r) [] 1 (ex_Relation e))"

definition chargeFanout :: "view \<Rightarrow> nat \<Rightarrow> unit run" where
  "chargeFanout v n = (if int n > MaxRelationTargets (vw_limits v) then fail ErrEvaluationLimit else ret ())"

definition record_step :: "explain_step \<Rightarrow> unit run" where
  "record_step s b =
     Some (Inr (), case bd_trace b of None \<Rightarrow> b | Some t \<Rightarrow> b\<lparr>bd_trace := Some (t @ [s])\<rparr>)"

section \<open>Memoized reads\<close>

definition memo_CheckRelation ::
  "view \<Rightarrow> string \<Rightarrow> string \<Rightarrow> string \<Rightarrow> string \<Rightarrow> string \<Rightarrow> int \<Rightarrow> bool run" where
  "memo_CheckRelation v rt i rel st sid bound =
     andthen (poll v) (\<lambda>b.
       case map_get (bd_direct b) (rt, i, rel, st, sid, bound) of
         Some allowed \<Rightarrow> Some (Inr allowed, b)
       | None \<Rightarrow>
           (case gr_CheckRelation (vw_reader v) rt i rel st sid bound of
              None \<Rightarrow> None
            | Some (Inl e) \<Rightarrow> Some (Inl e, b)
            | Some (Inr allowed) \<Rightarrow>
                andthen (poll v) (\<lambda>b.
                  Some (Inr allowed, b\<lparr>bd_direct := map_put (rt, i, rel, st, sid, bound) allowed (bd_direct b)\<rparr>)) b))"

definition memo_GetRelationTargets :: "view \<Rightarrow> string \<Rightarrow> string \<Rightarrow> string \<Rightarrow> subject_ref list run" where
  "memo_GetRelationTargets v rt i rel =
     andthen (poll v) (\<lambda>b.
       case map_get (bd_targets b) (rt, i, rel) of
         Some targets \<Rightarrow> Some (Inr targets, b)
       | None \<Rightarrow>
           (case gr_Targets (vw_reader v) rt i rel of
              Inl e \<Rightarrow> Some (Inl e, b)
            | Inr targets \<Rightarrow>
                andthen (poll v) (\<lambda>b.
                  Some (Inr (sort targets), b\<lparr>bd_targets := map_put (rt, i, rel) (sort targets) (bd_targets b)\<rparr>)) b))"

definition memo_Contains :: "view \<Rightarrow> tuple \<Rightarrow> bool run" where
  "memo_Contains v t =
     andthen (poll v) (\<lambda>b.
       case map_get (bd_facts b) t of
         Some held \<Rightarrow> Some (Inr held, b)
       | None \<Rightarrow>
           (case rd_Contains (vw_facts v) t of
              Inl e \<Rightarrow> Some (Inl e, b)
            | Inr held \<Rightarrow> Some (Inr held, b\<lparr>bd_facts := map_put t held (bd_facts b)\<rparr>)))"

text \<open>
  A runtime resource is resolved once per operation; what the resolver returned, checked, is
  pinned.  \<open>None\<close> is an input that does not apply.
\<close>

definition ErrResourceNotApplicable :: go_error where
  "ErrResourceNotApplicable = ForeignError ''authorization resource not applicable''"

definition checked_resource :: "view \<Rightarrow> resource_slot \<Rightarrow> resource res" where
  "checked_resource v slot =
     (case vw_resolve v (sl_Key slot) of
        Inl e \<Rightarrow> Inl e
      | Inr r \<Rightarrow>
          (case Scope_Validate (On (rs_Type r) (rs_ID r)) of
             Some e \<Rightarrow> Inl e
           | None \<Rightarrow>
               if rs_Type r \<noteq> sl_Type slot
               then Inl (Wrapped ''resource slot resolved another type: invalid input'' ErrInvalidInput)
               else Inr r))"

definition resolveSlot :: "view \<Rightarrow> resource_slot \<Rightarrow> resource option run" where
  "resolveSlot v slot =
     andthen (poll v) (andthen (poll v) (\<lambda>b.
       (let (value, b) =
          (case map_get (bd_slots b) (sl_Key slot) of
             Some value \<Rightarrow> (value, b)
           | None \<Rightarrow>
               (checked_resource v slot,
                b\<lparr>bd_slots := map_put (sl_Key slot) (checked_resource v slot) (bd_slots b)\<rparr>))
        in andthen (poll v) (andthen (poll v) (\<lambda>b.
             case value of
               Inl e \<Rightarrow> if errors_is e ErrResourceNotApplicable then Some (Inr None, b) else Some (Inl e, b)
             | Inr r \<Rightarrow> Some (Inr (Some r), b))) b)))"

section \<open>Diagnostics\<close>

definition maxDiagnosticProbes :: int where
  "maxDiagnosticProbes = 8"

definition rememberScopedDenial :: "view \<Rightarrow> tuple \<Rightarrow> unit run" where
  "rememberScopedDenial v scoped b =
     (let global = Tuple Global (tp_Relation scoped) (tp_Subject scoped) in
      Some (Inr (),
        if \<not> vw_diagnostics v \<or> sc_Kind (tp_Scope scoped) \<noteq> ResourceScope \<or>
           int (length (bd_diagnosticFacts b)) \<ge> maxDiagnosticProbes \<or> global \<in> set (bd_diagnosticFacts b)
        then b
        else b\<lparr>bd_diagnosticFacts := bd_diagnosticFacts b @ [global]\<rparr>))"

text \<open>
  Whether a poll found the context canceled (the code only asks, it returns no error).
\<close>

definition canceled :: "view \<Rightarrow> budget \<Rightarrow> bool \<times> budget" where
  "canceled v b = (vw_ctx v (bd_polls b) \<noteq> None, b\<lparr>bd_polls := Suc (bd_polls b)\<rparr>)"

fun probe_facts :: "view \<Rightarrow> tuple list \<Rightarrow> budget \<Rightarrow> budget" where
  "probe_facts v [] b = b"
| "probe_facts v (f # facts) b =
     (if bd_probes b \<ge> maxDiagnosticProbes then b
      else
        (case canceled v b of
           (True, b) \<Rightarrow> b
         | (False, b) \<Rightarrow>
             (case memo_Contains v f (b\<lparr>bd_probes := bd_probes b + 1\<rparr>) of
                Some (Inr True, b) \<Rightarrow>
                  (case canceled v b of
                     (True, b) \<Rightarrow> probe_facts v facts b
                   | (False, b) \<Rightarrow> b\<lparr>bd_globalGrant := True\<rparr>)
              | Some (_, b) \<Rightarrow> probe_facts v facts b
              | None \<Rightarrow> b)))"

definition observeDenied :: "view \<Rightarrow> check_result res \<Rightarrow> budget \<Rightarrow> budget" where
  "observeDenied v r b =
     (case r of
        Inl _ \<Rightarrow> b
      | Inr result \<Rightarrow>
          if \<not> vw_diagnostics v \<or> ck_Allowed result \<or> bd_globalGrant b then b
          else
            (case canceled v b of
               (True, b) \<Rightarrow> b
             | (False, b) \<Rightarrow> probe_facts v (bd_diagnosticFacts b) b))"

section \<open>Leaves\<close>

definition view_allows :: "view \<Rightarrow> string \<Rightarrow> string \<Rightarrow> string \<Rightarrow> string \<Rightarrow> bool" where
  "view_allows v = Allows (compiled_readModel (vw_compiled v))"

definition shortCircuits :: "view \<Rightarrow> string \<Rightarrow> string \<Rightarrow> string \<Rightarrow> bool" where
  "shortCircuits v rt rel st \<longleftrightarrow> \<not> vw_subjectFirst v \<and> view_allows v rt rel st []"

definition directTuple :: "string \<Rightarrow> string \<Rightarrow> string \<Rightarrow> principal \<Rightarrow> tuple option" where
  "directTuple rt i rel p =
     (let tup = Tuple (On rt i) rel (SubjectRef (pr_Type p) (pr_ID p) []) in
      if Tuple_Validate tup = None then Some tup else None)"

definition leaf_step ::
  "check_request \<Rightarrow> int \<Rightarrow> string \<Rightarrow> string \<Rightarrow> string \<Rightarrow> reason \<Rightarrow> explain_step" where
  "leaf_step req depth permission relation kind outcome =
     \<lparr>xs_ResourceType = rs_Type (rq_Resource req), xs_ResourceID = rs_ID (rq_Resource req),
      xs_Permission = permission, xs_Relation = relation, xs_Kind = kind, xs_Depth = depth,
      xs_Outcome = outcome, xs_Scope = On (rs_Type (rq_Resource req)) (rs_ID (rq_Resource req))\<rparr>"

text \<open>\<open>directShortCircuit\<close>: the decision, or \<open>None\<close> when the caller must expand.\<close>

definition directShortCircuit :: "view \<Rightarrow> check_request \<Rightarrow> expression \<Rightarrow> int \<Rightarrow> check_result option run" where
  "directShortCircuit v req e depth =
     (if \<not> shortCircuits v (rs_Type (rq_Resource req)) (ex_Relation e) (pr_Type (rq_Principal req)) then ret None
      else
        (case directTuple (rs_Type (rq_Resource req)) (rs_ID (rq_Resource req)) (ex_Relation e) (rq_Principal req) of
           None \<Rightarrow> ret None
         | Some tup \<Rightarrow>
             bind (memo_Contains v tup) (\<lambda>found.
               andthen (poll v)
                 (if \<not> found \<and> relationHasUsersets (vw_compiled v) (rs_Type (rq_Resource req)) (ex_Relation e)
                  then ret None
                  else
                    andthen
                      (record_step (leaf_step req depth (rq_Permission req) (ex_Relation e) ''direct''
                        (if found then ReasonDirectHit else ReasonDenied)))
                      (ret (Some (decision found (''direct:'' @ ex_Relation e))))))))"

definition mapExpansionBudget :: "go_error \<Rightarrow> go_error" where
  "mapExpansionBudget e = (if errors_is e ErrExpansionBudgetExceeded then ErrEvaluationLimit else e)"

definition direct_leaf :: "view \<Rightarrow> check_request \<Rightarrow> expression \<Rightarrow> int \<Rightarrow> check_result run" where
  "direct_leaf v req e depth =
     bind (directShortCircuit v req e depth) (\<lambda>shortcut.
       case shortcut of
         Some result \<Rightarrow> ret result
       | None \<Rightarrow>
           bind
             (map_error mapExpansionBudget
               (memo_CheckRelation v (rs_Type (rq_Resource req)) (rs_ID (rq_Resource req)) (ex_Relation e)
                 (pr_Type (rq_Principal req)) (pr_ID (rq_Principal req)) (MaxGraphStates (vw_limits v))))
             (\<lambda>found.
               andthen (poll v)
                 (andthen
                   (record_step (leaf_step req depth (rq_Permission req) (ex_Relation e) ''direct''
                     (outcomeReason found)))
                   (ret (decision found (''direct:'' @ ex_Relation e))))))"

definition bound_leaf :: "expression \<Rightarrow> bool" where
  "bound_leaf e \<longleftrightarrow> ex_Resource e \<noteq> None \<or> ex_ResourceSlot e \<noteq> None"

definition role_leaf :: "view \<Rightarrow> check_request \<Rightarrow> expression \<Rightarrow> int \<Rightarrow> check_result run" where
  "role_leaf v req e depth =
     (let scope = (if ex_CurrentResource e \<or> bound_leaf e
                   then On (rs_Type (rq_Resource req)) (rs_ID (rq_Resource req)) else Global);
          tup = Tuple scope (ex_RoleName e) (SubjectRef (pr_Type (rq_Principal req)) (pr_ID (rq_Principal req)) [])
      in bind (memo_Contains v tup) (\<lambda>found.
           andthen (poll v)
             (andthen (if \<not> found then rememberScopedDenial v tup else ret ())
               (andthen
                 (record_step
                   \<lparr>xs_ResourceType = sc_Type scope, xs_ResourceID = sc_ID scope, xs_Permission = rq_Permission req,
                    xs_Relation = ex_RoleName e, xs_Kind = ''exact'', xs_Depth = depth,
                    xs_Outcome = outcomeReason found, xs_Scope = scope\<rparr>)
                 (ret (decision found (''exact:'' @ ex_RoleName e)))))))"

text \<open>The loop over the targets of a \<open>Through\<close>; \<open>descend\<close> evaluates the permission on one of them.\<close>

fun through_targets ::
  "view \<Rightarrow> check_request \<Rightarrow> expression \<Rightarrow> (resource \<Rightarrow> check_result run) \<Rightarrow> subject_ref list \<Rightarrow> check_result run" where
  "through_targets v req e descend [] = ret \<lparr>ck_Allowed = False, ck_ReasonCode = ReasonDenied, ck_Reason = []\<rparr>"
| "through_targets v req e descend (target # targets) =
     andthen (chargeStep v)
       (if IsUserset target \<or>
           \<not> view_allows v (rs_Type (rq_Resource req)) (ex_Through e) (sj_Type target) (sj_Relation target)
        then through_targets v req e descend targets
        else
          bind (descend \<lparr>rs_Type = sj_Type target, rs_ID = sj_ID target\<rparr>) (\<lambda>result.
            if ck_Allowed result
            then ret (result\<lparr>ck_ReasonCode := ReasonGranted,
                   ck_Reason := ''through:'' @ ex_Through e @ ''->'' @ ck_Reason result\<rparr>)
            else through_targets v req e descend targets))"

type_synonym checker = "check_request \<Rightarrow> int \<Rightarrow> state_key list \<Rightarrow> check_result run"

definition checkThrough ::
  "view \<Rightarrow> checker \<Rightarrow> check_request \<Rightarrow> expression \<Rightarrow> int \<Rightarrow> state_key list \<Rightarrow> check_result run" where
  "checkThrough v check req e depth stack =
     andthen (poll v)
       (bind (memo_GetRelationTargets v (rs_Type (rq_Resource req)) (rs_ID (rq_Resource req)) (ex_Through e))
         (\<lambda>targets.
           andthen (chargeFanout v (length targets))
             (through_targets v req e
               (\<lambda>r. check \<lparr>rq_Principal = rq_Principal req, rq_Permission = ex_Permission e, rq_Resource = r\<rparr>
                  (depth + 1) stack)
               targets)))"

text \<open>The request as the leaf binds it, or \<open>None\<close> when its runtime resource does not apply.\<close>

definition bind_request :: "view \<Rightarrow> check_request \<Rightarrow> expression \<Rightarrow> check_request option run" where
  "bind_request v req e =
     (let req = (case ex_Resource e of Some r \<Rightarrow> req\<lparr>rq_Resource := r\<rparr> | None \<Rightarrow> req) in
      case ex_ResourceSlot e of
        None \<Rightarrow> ret (Some req)
      | Some slot \<Rightarrow>
          bind (resolveSlot v slot) (\<lambda>applicable.
            case applicable of
              None \<Rightarrow> ret None
            | Some r \<Rightarrow> ret (Some (req\<lparr>rq_Resource := r\<rparr>))))"

definition evaluate_bound_leaf ::
  "view \<Rightarrow> checker \<Rightarrow> check_request \<Rightarrow> expression \<Rightarrow> int \<Rightarrow> state_key list \<Rightarrow> check_result run" where
  "evaluate_bound_leaf v check req e depth stack =
     andthen
       (if bound_leaf e \<and> (ex_Relation e \<noteq> [] \<or> ex_Through e \<noteq> [])
        then chargePrimitiveState v (rq_Resource req) e else ret ())
       (if ex_RoleName e \<noteq> [] then role_leaf v req e depth
        else if ex_NamedPermission e \<noteq> [] then check (req\<lparr>rq_Permission := ex_NamedPermission e\<rparr>) depth stack
        else if ex_Through e \<noteq> [] then
          bind (checkThrough v check req e depth stack) (\<lambda>result.
            andthen
              (record_step (leaf_step req depth (ex_Permission e) (ex_Through e) ''through'' (ck_ReasonCode result)))
              (ret result))
        else direct_leaf v req e depth)"

text \<open>A leaf's decision and the resource it was about.\<close>

definition evaluate_leaf ::
  "view \<Rightarrow> checker \<Rightarrow> check_request \<Rightarrow> expression \<Rightarrow> int \<Rightarrow> state_key list \<Rightarrow> (check_result \<times> resource) run" where
  "evaluate_leaf v check req e depth stack =
     bind (bind_request v req e) (\<lambda>bound.
       case bound of
         None \<Rightarrow>
          ret (decision False ''resource not applicable'', (case ex_Resource e of Some r \<Rightarrow> r | None \<Rightarrow> rq_Resource req))
       | Some req' \<Rightarrow>
           bind (evaluate_bound_leaf v check req' e depth stack) (\<lambda>result. ret (result, rq_Resource req')))"

definition record_target :: "expression \<Rightarrow> resource \<Rightarrow> bool \<Rightarrow> expression_target \<Rightarrow> expression_target" where
  "record_target e r allowed t =
     (let leaf = \<lparr>lt_permission =
                    (if ex_NamedPermission e \<noteq> [] then ex_NamedPermission e
                     else if ex_Through e \<noteq> [] then ex_Permission e
                     else if ex_RoleName e \<noteq> [] then ex_RoleName e
                     else ex_Relation e),
                  lt_resource = r\<rparr>;
          t = (if et_leaves t = 0 then t\<lparr>et_first := leaf\<rparr> else t);
          t = (if allowed then t
               else (if et_denied t = 0 then t\<lparr>et_firstDenied := leaf\<rparr> else t)\<lparr>et_denied := et_denied t + 1\<rparr>)
      in t\<lparr>et_leaves := et_leaves t + 1\<rparr>)"

text \<open>The target collector is off while a leaf is evaluated, and records the leaf unless it failed.\<close>

definition with_target :: "expression \<Rightarrow> (check_result \<times> resource) run \<Rightarrow> check_result run" where
  "with_target e m b =
     (case bd_target b of
        None \<Rightarrow>
          (case m b of
             None \<Rightarrow> None
           | Some (Inl err, b') \<Rightarrow> Some (Inl err, b')
           | Some (Inr (result, _), b') \<Rightarrow> Some (Inr result, b'))
      | Some t \<Rightarrow>
          (case m (b\<lparr>bd_target := None\<rparr>) of
             None \<Rightarrow> None
           | Some (Inl err, b') \<Rightarrow> Some (Inl err, b'\<lparr>bd_target := Some t\<rparr>)
           | Some (Inr (result, r), b') \<Rightarrow>
               Some (Inr result, b'\<lparr>bd_target := Some (record_target e r (ck_Allowed result) t)\<rparr>)))"

section \<open>The walk\<close>

fun evaluate_children ::
  "(expression \<Rightarrow> check_result run) \<Rightarrow> bool \<Rightarrow> expression list \<Rightarrow> check_result run" where
  "evaluate_children evaluate all [] = ret (decision all ''expression'')"
| "evaluate_children evaluate all (e # es) =
     bind (evaluate e) (\<lambda>result.
       if ck_Allowed result \<noteq> all then ret result else evaluate_children evaluate all es)"

type_synonym walker = "check_request \<Rightarrow> expression \<Rightarrow> int \<Rightarrow> state_key list \<Rightarrow> check_result run"

definition checkPermission :: "view \<Rightarrow> walker \<Rightarrow> checker" where
  "checkPermission v walk req depth stack =
     andthen (poll v)
       (andthen (chargeStep v)
         (if depth > MaxThroughDepth (vw_limits v) then fail ErrEvaluationLimit
          else
            (let key = StateKey (rs_Type (rq_Resource req)) (rs_ID (rq_Resource req)) (rq_Permission req) 0 [] in
             if key \<in> set stack then ret (decision False ''cycle detected'')
             else
               andthen (chargeKey v key)
                 (walk req
                   (permission_expression (vw_compiled v) (rs_Type (rq_Resource req)) (rq_Permission req))
                   depth (key # stack)))))"

primrec evaluateExpression :: "nat \<Rightarrow> view \<Rightarrow> walker" where
  "evaluateExpression 0 v req e depth stack b = None"
| "evaluateExpression (Suc fuel) v req e depth stack b =
     andthen (poll v)
       (andthen (chargeStep v)
         (if ex_AnyOf e \<noteq> None \<or> ex_AllOf e \<noteq> None then
            evaluate_children (\<lambda>child. evaluateExpression fuel v req child depth stack) (ex_AllOf e \<noteq> None)
              (case ex_AllOf e of Some es \<Rightarrow> es | None \<Rightarrow> the (ex_AnyOf e))
          else
            with_target e
              (evaluate_leaf v (checkPermission v (evaluateExpression fuel v)) req e depth stack))) b"

lemma evaluateExpression_Suc:
  "evaluateExpression (Suc fuel) v req e depth stack =
     andthen (poll v)
       (andthen (chargeStep v)
         (if ex_AnyOf e \<noteq> None \<or> ex_AllOf e \<noteq> None then
            evaluate_children (\<lambda>child. evaluateExpression fuel v req child depth stack) (ex_AllOf e \<noteq> None)
              (case ex_AllOf e of Some es \<Rightarrow> es | None \<Rightarrow> the (ex_AnyOf e))
          else
            with_target e
              (evaluate_leaf v (checkPermission v (evaluateExpression fuel v)) req e depth stack)))"
  by (rule ext) simp

definition fuel_for :: "view \<Rightarrow> nat" where
  "fuel_for v = Suc (nat (MaxEvaluationSteps (vw_limits v)))"

section \<open>Entry points\<close>

definition newBudget :: "budget \<Rightarrow> budget" where
  "newBudget shared =
     shared\<lparr>bd_steps := 0, bd_states := [], bd_trace := None, bd_diagnosticFacts := [], bd_target := None\<rparr>"

definition fresh_budget :: budget where
  "fresh_budget =
     \<lparr>bd_steps = 0, bd_states = [], bd_trace = None, bd_diagnosticFacts = [], bd_target = None,
      bd_targets = [], bd_direct = [], bd_facts = [], bd_slots = [], bd_probes = 0, bd_globalGrant = False,
      bd_polls = 0\<rparr>"

definition observing :: "view \<Rightarrow> check_result run \<Rightarrow> check_result run" where
  "observing v m b = (case m b of None \<Rightarrow> None | Some (r, b') \<Rightarrow> Some (r, observeDenied v r b'))"

definition check :: "view \<Rightarrow> check_request \<Rightarrow> check_result run" where
  "check v req =
     (case ValidateCheckRequest req of
        Some e \<Rightarrow> fail e
      | None \<Rightarrow>
          andthen (poll v)
            (if \<not> declaresPermission (vw_compiled v) (rs_Type (rq_Resource req)) (rq_Permission req)
             then ret (decision False ''no rules defined'')
             else observing v (checkPermission v (evaluateExpression (fuel_for v) v) req 0 [])))"

text \<open>
  \<open>withOperation\<close> over a snapshot: the polls of \<open>withOperation\<close>, of \<open>ReadTupleSnapshot\<close> and of the
  callback around the evaluation.
\<close>

definition withOperation :: "view \<Rightarrow> 'a run \<Rightarrow> 'a run" where
  "withOperation v m =
     andthen (poll v)
       (then_poll v
         (andthen (poll v)
           (andthen (poll v)
             (andthen (poll v)
               (bind (then_poll v m) (\<lambda>x. andthen (poll v) (ret x)))))))"

definition checkRequest :: "view \<Rightarrow> check_request \<Rightarrow> check_result run" where
  "checkRequest v req =
     (case ValidateCheckRequest req of
        Some e \<Rightarrow> fail e
      | None \<Rightarrow>
          andthen (poll v)
            (if \<not> declaresPermission (vw_compiled v) (rs_Type (rq_Resource req)) (rq_Permission req)
             then ret (decision False ''no rules defined'')
             else withOperation v (check v req)))"

text \<open>What \<open>Check\<close> tells its caller: allowed or not, or an error.\<close>

definition Check :: "view \<Rightarrow> check_request \<Rightarrow> bool res option" where
  "Check v req =
     (case checkRequest v req fresh_budget of
        None \<Rightarrow> None
      | Some (Inl e, _) \<Rightarrow> Some (Inl e)
      | Some (Inr r, _) \<Rightarrow> Some (Inr (ck_Allowed r)))"

text \<open>\<open>CheckExplain\<close>: the same check with a trace on its budget; the trace survives an evaluation error.\<close>

definition checkExplain :: "view \<Rightarrow> check_request \<Rightarrow> (check_result res \<times> explain_step list) option" where
  "checkExplain v req =
     (case check v req (fresh_budget\<lparr>bd_trace := Some []\<rparr>) of
        None \<Rightarrow> None
      | Some (r, b) \<Rightarrow> Some (r, the (bd_trace b)))"

text \<open>\<open>evaluateResolved\<close>: an ad hoc expression, validated, copied, and walked with a target collector.\<close>

definition compiled_declarations :: "compiled_model \<Rightarrow> declarations" where
  "compiled_declarations c =
     \<lparr>dc_resource = \<lambda>rt. map_get c rt \<noteq> None,
      dc_subjects = \<lambda>rt rel. (case relationSubjects c rt rel of (subs, _, ok) \<Rightarrow> if ok then Some subs else None),
      dc_permission = declaresPermission c\<rparr>"

definition validateAdhocExpression :: "compiled_model \<Rightarrow> expression \<Rightarrow> bool \<times> error" where
  "validateAdhocExpression c e = validateExpressionTree e (compiled_declarations c) [] True"

definition no_leaf :: leaf_target where
  "no_leaf = \<lparr>lt_permission = [], lt_resource = \<lparr>rs_Type = [], rs_ID = []\<rparr>\<rparr>"

definition evaluateResolved ::
  "view \<Rightarrow> bool \<Rightarrow> principal \<Rightarrow> expression \<Rightarrow> (check_result res \<times> budget) option" where
  "evaluateResolved v hasResolver p e =
     (case ValidatePrincipal p of
        Some err \<Rightarrow> Some (Inl err, fresh_budget)
      | None \<Rightarrow>
          (case validateAdhocExpression (vw_compiled v) e of
             (hasSlots, Some err) \<Rightarrow> Some (Inl err, fresh_budget)
           | (hasSlots, None) \<Rightarrow>
               if hasSlots \<and> \<not> hasResolver
               then Some (Inl (Wrapped ''resource resolver required: invalid input'' ErrInvalidInput), fresh_budget)
               else
                 (let e = copyExpression e;
                      target = \<lparr>et_composite = (ex_AnyOf e \<noteq> None \<or> ex_AllOf e \<noteq> None), et_first = no_leaf,
                        et_firstDenied = no_leaf, et_leaves = 0, et_denied = 0\<rparr>
                  in withOperation v
                       (observing v
                         (evaluateExpression (fuel_for v) v
                           \<lparr>rq_Principal = p, rq_Permission = [], rq_Resource = \<lparr>rs_Type = [], rs_ID = []\<rparr>\<rparr>
                           e 0 []))
                       (fresh_budget\<lparr>bd_target := Some target\<rparr>))))"

end
