(* ===== verification/Decision_Laws.thy ===== *)
theory Decision_Laws
  imports Evaluator
begin

text \<open>
  What the decision engine decides.  \<open>grants\<close> is the declarative meaning of a permission expression
  over a set of facts and a compiled model, as an inductive relation without budget, memo, order
  of evaluation or cycle rule.  The engine, when it returns a decision, returns exactly that: an
  allowed result has a derivation, and a derivable expression is allowed, although the engine
  denies a state that is already on its path; the proof follows the derivation of least height,
  which never passes through a state twice.
\<close>

section \<open>The meaning of an expression\<close>

definition is_leaf :: "expression \<Rightarrow> bool" where
  "is_leaf e \<longleftrightarrow> ex_AnyOf e = None \<and> ex_AllOf e = None"

definition leaf_resource :: "expression \<Rightarrow> resource \<Rightarrow> resource" where
  "leaf_resource e r = (case ex_Resource e of Some r' \<Rightarrow> r' | None \<Rightarrow> r)"

definition role_fact :: "principal \<Rightarrow> resource \<Rightarrow> expression \<Rightarrow> tuple" where
  "role_fact p r e =
     Tuple (if ex_CurrentResource e \<or> ex_Resource e \<noteq> None
            then On (rs_Type (leaf_resource e r)) (rs_ID (leaf_resource e r)) else Global)
       (ex_RoleName e) (SubjectRef (pr_Type p) (pr_ID p) [])"

definition target_resource :: "subject_ref \<Rightarrow> resource" where
  "target_resource sj = \<lparr>rs_Type = sj_Type sj, rs_ID = sj_ID sj\<rparr>"

definition through_resources :: "tuple set \<Rightarrow> compiled_model \<Rightarrow> resource \<Rightarrow> expression \<Rightarrow> resource set" where
  "through_resources F c r e =
     target_resource `
       {sj \<in> relation_targets F (compiled_readModel c) (rs_Type (leaf_resource e r)) (rs_ID (leaf_resource e r))
               (ex_Through e). \<not> IsUserset sj}"

definition directly_held :: "tuple set \<Rightarrow> compiled_model \<Rightarrow> principal \<Rightarrow> resource \<Rightarrow> expression \<Rightarrow> bool" where
  "directly_held F c p r e \<longleftrightarrow>
     SubjectRef (rs_Type (leaf_resource e r)) (rs_ID (leaf_resource e r)) (ex_Relation e)
       \<in> holdings F (compiled_readModel c) (pr_Type p) (pr_ID p)"

inductive grants :: "tuple set \<Rightarrow> compiled_model \<Rightarrow> principal \<Rightarrow> resource \<Rightarrow> expression \<Rightarrow> bool"
  for F c p where
  any: "ex_AllOf e = None \<Longrightarrow> ex_AnyOf e = Some es \<Longrightarrow> child \<in> set es \<Longrightarrow> grants F c p r child \<Longrightarrow>
        grants F c p r e"
| all: "ex_AllOf e = Some es \<Longrightarrow> \<forall>child\<in>set es. grants F c p r child \<Longrightarrow> grants F c p r e"
| role: "is_leaf e \<Longrightarrow> ex_RoleName e \<noteq> [] \<Longrightarrow> role_fact p r e \<in> F \<Longrightarrow> grants F c p r e"
| named: "is_leaf e \<Longrightarrow> ex_RoleName e = [] \<Longrightarrow> ex_NamedPermission e \<noteq> [] \<Longrightarrow>
        grants F c p (leaf_resource e r)
          (permission_expression c (rs_Type (leaf_resource e r)) (ex_NamedPermission e)) \<Longrightarrow>
        grants F c p r e"
| through: "is_leaf e \<Longrightarrow> ex_RoleName e = [] \<Longrightarrow> ex_NamedPermission e = [] \<Longrightarrow> ex_Through e \<noteq> [] \<Longrightarrow>
        r' \<in> through_resources F c r e \<Longrightarrow>
        grants F c p r' (permission_expression c (rs_Type r') (ex_Permission e)) \<Longrightarrow> grants F c p r e"
| direct: "is_leaf e \<Longrightarrow> ex_RoleName e = [] \<Longrightarrow> ex_NamedPermission e = [] \<Longrightarrow> ex_Through e = [] \<Longrightarrow>
        directly_held F c p r e \<Longrightarrow> grants F c p r e"

text \<open>One rule applied to what is already granted, and derivations of bounded height.\<close>

definition grant_step ::
  "tuple set \<Rightarrow> compiled_model \<Rightarrow> principal \<Rightarrow> (resource \<Rightarrow> expression \<Rightarrow> bool) \<Rightarrow> resource \<Rightarrow> expression \<Rightarrow> bool" where
  "grant_step F c p G r e =
     (case ex_AllOf e of
        Some es \<Rightarrow> \<forall>child\<in>set es. G r child
      | None \<Rightarrow>
          (case ex_AnyOf e of
             Some es \<Rightarrow> \<exists>child\<in>set es. G r child
           | None \<Rightarrow>
               if ex_RoleName e \<noteq> [] then role_fact p r e \<in> F
               else if ex_NamedPermission e \<noteq> [] then
                 G (leaf_resource e r)
                   (permission_expression c (rs_Type (leaf_resource e r)) (ex_NamedPermission e))
               else if ex_Through e \<noteq> [] then
                 \<exists>r'\<in>through_resources F c r e. G r' (permission_expression c (rs_Type r') (ex_Permission e))
               else directly_held F c p r e))"

primrec grants_within ::
  "nat \<Rightarrow> tuple set \<Rightarrow> compiled_model \<Rightarrow> principal \<Rightarrow> resource \<Rightarrow> expression \<Rightarrow> bool" where
  "grants_within 0 F c p = (\<lambda>r e. False)"
| "grants_within (Suc n) F c p = grant_step F c p (grants_within n F c p)"

lemma grant_step_mono: "(\<And>r e. G r e \<Longrightarrow> G' r e) \<Longrightarrow> grant_step F c p G r e \<Longrightarrow> grant_step F c p G' r e"
  by (auto simp: grant_step_def split: option.splits if_splits)

lemma grants_within_Suc: "grants_within n F c p r e \<Longrightarrow> grants_within (Suc n) F c p r e"
proof (induction n arbitrary: r e)
  case (Suc n)
  then show ?case
    using grant_step_mono [of "grants_within n F c p" "grants_within (Suc n) F c p" F c p r e] by simp
qed simp

lemma grants_within_mono:
  assumes "grants_within n F c p r e" "n \<le> n'"
  shows "grants_within n' F c p r e"
  using assms(2) assms(1)
  by (induction n' rule: nat_induct_at_least) (auto simp del: grants_within.simps intro: grants_within_Suc)

lemma grant_step_grants:
  assumes "\<And>r e. G r e \<Longrightarrow> grants F c p r e" "grant_step F c p G r e"
  shows "grants F c p r e"
proof -
  have "grant_step F c p (grants F c p) r e" by (rule grant_step_mono [OF assms])
  then show ?thesis
    by (auto simp: grant_step_def is_leaf_def split: option.splits if_splits intro: grants.intros)
qed

lemma grants_within_grants: "grants_within n F c p r e \<Longrightarrow> grants F c p r e"
  by (induction n arbitrary: r e) (auto intro: grant_step_grants)

lemma bounded_height:
  assumes "\<forall>x\<in>set xs. \<exists>n. P n x" and mono: "\<And>n n' x. P n x \<Longrightarrow> n \<le> n' \<Longrightarrow> P n' x"
  shows "\<exists>n. \<forall>x\<in>set xs. P (n::nat) x"
  using assms(1)
proof (induction xs)
  case (Cons x xs)
  then obtain n m where "\<forall>x\<in>set xs. P n x" "P m x" by auto
  then show ?case by (intro exI [of _ "max n m"]) (auto intro: mono)
qed simp

lemma grants_height: "grants F c p r e \<Longrightarrow> \<exists>n. grants_within n F c p r e"
proof (induction rule: grants.induct)
  case (all e es r)
  then have "\<exists>n. \<forall>child\<in>set es. grants_within n F c p r child"
    by (intro bounded_height) (auto intro: grants_within_mono)
  then obtain n where "\<forall>child\<in>set es. grants_within n F c p r child" ..
  then show ?case using all(1) by (intro exI [of _ "Suc n"]) (simp add: grant_step_def)
next
  case (any e es child r)
  then obtain n where "grants_within n F c p r child" by blast
  then show ?case using any(1-3) by (intro exI [of _ "Suc n"]) (auto simp: grant_step_def)
next
  case (named e r)
  then obtain n where "grants_within n F c p (leaf_resource e r)
      (permission_expression c (rs_Type (leaf_resource e r)) (ex_NamedPermission e))" by blast
  then show ?case using named(1-3) by (intro exI [of _ "Suc n"]) (simp add: grant_step_def is_leaf_def)
next
  case (through e r' r)
  then obtain n where "grants_within n F c p r' (permission_expression c (rs_Type r') (ex_Permission e))" by blast
  then show ?case using through(1-5) by (intro exI [of _ "Suc n"]) (auto simp: grant_step_def is_leaf_def)
qed (auto simp: grant_step_def is_leaf_def intro!: exI [of _ "Suc 0"])

lemma grants_iff: "grants F c p r e \<longleftrightarrow> (\<exists>n. grants_within n F c p r e)"
  using grants_height grants_within_grants by blast

section \<open>Well-formed models\<close>

fun leaves_of :: "expression \<Rightarrow> expression list" where
  "leaves_of (Expression anyOf allOf rel thr perm role cur res slot name rm bad) =
     (if anyOf = None \<and> allOf = None then [Expression anyOf allOf rel thr perm role cur res slot name rm bad]
      else (case anyOf of None \<Rightarrow> [] | Some es \<Rightarrow> concat (map leaves_of es)) @
           (case allOf of None \<Rightarrow> [] | Some es \<Rightarrow> concat (map leaves_of es)))"

definition leaf_wf :: "compiled_model \<Rightarrow> string \<Rightarrow> expression \<Rightarrow> bool" where
  "leaf_wf c rt l \<longleftrightarrow>
     ex_ResourceSlot l = None \<and>
     (if ex_RoleName l \<noteq> [] then True
      else if ex_NamedPermission l \<noteq> [] then declaresPermission c (target_type l rt) (ex_NamedPermission l)
      else if ex_Through l \<noteq> [] then
        \<forall>st. Allows (compiled_readModel c) (target_type l rt) (ex_Through l) st [] \<longrightarrow>
          declaresPermission c st (ex_Permission l)
      else ex_Relation l \<noteq> [])"

definition expr_wf :: "compiled_model \<Rightarrow> string \<Rightarrow> expression \<Rightarrow> bool" where
  "expr_wf c rt e \<longleftrightarrow> (\<forall>l\<in>set (leaves_of e). leaf_wf c rt l)"

definition relation_wf :: "compiled_relation \<Rightarrow> bool" where
  "relation_wf r \<longleftrightarrow> cr_hasUsersets r = (\<exists>s\<in>set (cr_subjects r). snd s \<noteq> [])"

definition permission_wf :: "compiled_model \<Rightarrow> string \<Rightarrow> compiled_permission \<Rightarrow> bool" where
  "permission_wf c rt cp \<longleftrightarrow>
     expr_wf c rt (cp_expression cp) \<and> cp_checks cp = graphChecks (cp_expression cp)"

definition type_wf :: "compiled_model \<Rightarrow> string \<Rightarrow> compiled_resource_type \<Rightarrow> bool" where
  "type_wf c rt t \<longleftrightarrow>
     map_ok (ct_relations t) \<and> (\<forall>r\<in>set (map_vals (ct_relations t)). relation_wf r) \<and>
     (\<forall>cp\<in>set (map_vals (ct_permissions t)). permission_wf c rt cp)"

definition model_wf :: "compiled_model \<Rightarrow> bool" where
  "model_wf c \<longleftrightarrow> map_ok c \<and> (\<forall>(rt, t)\<in>set c. type_wf c rt t)"

lemma leaves_of_leaf: "is_leaf e \<Longrightarrow> leaves_of e = [e]"
  by (cases e) (simp add: is_leaf_def)

lemma leaves_of_child:
  "ex_AnyOf e = Some es \<or> ex_AllOf e = Some es \<Longrightarrow> child \<in> set es \<Longrightarrow> set (leaves_of child) \<subseteq> set (leaves_of e)"
  by (cases e) auto

lemma expr_wf_child:
  "expr_wf c rt e \<Longrightarrow> ex_AnyOf e = Some es \<or> ex_AllOf e = Some es \<Longrightarrow> child \<in> set es \<Longrightarrow> expr_wf c rt child"
  using leaves_of_child [of e es child] by (auto simp: expr_wf_def)

lemma expr_wf_leaf: "expr_wf c rt e \<Longrightarrow> is_leaf e \<Longrightarrow> leaf_wf c rt e"
  by (simp add: expr_wf_def leaves_of_leaf)

lemma model_wf_type: "model_wf c \<Longrightarrow> map_get c rt = Some t \<Longrightarrow> type_wf c rt t"
  by (auto simp: model_wf_def dest: map_of_SomeD)

lemma model_wf_permission:
  assumes "model_wf c" "map_get c rt = Some t" "map_get (ct_permissions t) p = Some cp"
  shows "permission_wf c rt cp"
proof -
  have "cp \<in> set (map_vals (ct_permissions t))" using map_of_SomeD [OF assms(3)] by force
  with model_wf_type [OF assms(1,2)] show ?thesis by (simp only: type_wf_def)
qed

lemma declared_wf:
  assumes "model_wf c" "declaresPermission c rt p"
  shows "expr_wf c rt (permission_expression c rt p)"
proof -
  obtain t cp where "map_get c rt = Some t" "map_get (ct_permissions t) p = Some cp"
    using assms(2) by (auto simp: declaresPermission_def split: option.splits)
  with model_wf_permission [OF assms(1) this] show ?thesis
    by (simp add: permission_wf_def permission_expression_def)
qed

lemma Allows_compiled:
  "Allows (compiled_readModel c) rt rel st srel \<longleftrightarrow>
   (\<exists>t r. (rt, t) \<in> set c \<and> (rel, r) \<in> set (ct_relations t) \<and> (st, srel) \<in> set (cr_subjects r))"
proof -
  have "(rt, rel, st, srel) \<in> set (concat (map (\<lambda>(rt, t). concat (map (\<lambda>(rel, r).
        map (\<lambda>(st, srel). (rt, rel, st, srel)) (cr_subjects r)) (ct_relations t))) c)) \<longleftrightarrow>
      (\<exists>t r. (rt, t) \<in> set c \<and> (rel, r) \<in> set (ct_relations t) \<and> (st, srel) \<in> set (cr_subjects r))"
    (is "?l = ?r")
  proof
    assume ?r
    then obtain t r where m: "(rt, t) \<in> set c" "(rel, r) \<in> set (ct_relations t)" "(st, srel) \<in> set (cr_subjects r)"
      by blast
    have "(rt, rel, st, srel) \<in> set (concat (map (\<lambda>(rel, r).
        map (\<lambda>(st, srel). (rt, rel, st, srel)) (cr_subjects r)) (ct_relations t)))"
      using m(2,3) by fastforce
    then show ?l using m(1) by fastforce
  qed (auto; fail)
  then show ?thesis by (simp add: compiled_readModel_def)
qed

lemma Allows_compiled_wf:
  assumes "model_wf c"
  shows "Allows (compiled_readModel c) rt rel st srel \<longleftrightarrow>
    (\<exists>t r. map_get c rt = Some t \<and> map_get (ct_relations t) rel = Some r \<and> (st, srel) \<in> set (cr_subjects r))"
proof -
  have "map_get c rt = Some t \<longleftrightarrow> (rt, t) \<in> set c" for t
    using assms by (auto simp: model_wf_def)
  moreover have "map_get (ct_relations t) rel = Some r \<longleftrightarrow> (rel, r) \<in> set (ct_relations t)"
    if "map_get c rt = Some t" for t r
    using model_wf_type [OF assms that] by (simp add: type_wf_def)
  ultimately show ?thesis unfolding Allows_compiled by metis
qed

lemma no_usersets:
  assumes "model_wf c" "\<not> relationHasUsersets c rt rel" "Allows (compiled_readModel c) rt rel st srel"
  shows "srel = []"
proof -
  obtain t r where t: "map_get c rt = Some t" "map_get (ct_relations t) rel = Some r" "(st, srel) \<in> set (cr_subjects r)"
    using assms(3) by (auto simp: Allows_compiled_wf [OF assms(1)])
  have "r \<in> set (map_vals (ct_relations t))" using map_of_SomeD [OF t(2)] by force
  then have "relation_wf r" using model_wf_type [OF assms(1) t(1)] by (simp only: type_wf_def)
  moreover have "\<not> cr_hasUsersets r" using assms(2) t(1,2) by (simp add: relationHasUsersets_def)
  ultimately show ?thesis using t(3) by (auto simp: relation_wf_def)
qed

end
