(* ===== verification/Decision_Right.thy ===== *)
theory Decision_Right
  imports Decision_Laws
begin

text \<open>
  The engine is right.  \<open>upholds I m Q\<close> says that the step \<open>m\<close> keeps the invariant \<open>I\<close> of the shared
  state and, when it returns a value, the value satisfies \<open>Q\<close>; the rules for it follow the steps.
  The locale \<open>coherent_view\<close> extends the contract of the graph reads with the exact reads; inside
  it the memos stay consistent with the facts and the walk decides what the expression grants.
\<close>

section \<open>Steps that keep an invariant\<close>

definition upholds :: "(budget \<Rightarrow> bool) \<Rightarrow> 'a run \<Rightarrow> ('a \<Rightarrow> bool) \<Rightarrow> bool" where
  "upholds I m Q \<longleftrightarrow>
     (\<forall>b r b'. I b \<longrightarrow> m b = Some (r, b') \<longrightarrow> I b' \<and> (\<forall>x. r = Inr x \<longrightarrow> Q x))"

lemma upholdsI:
  "(\<And>b r b'. I b \<Longrightarrow> m b = Some (r, b') \<Longrightarrow> I b' \<and> (\<forall>x. r = Inr x \<longrightarrow> Q x)) \<Longrightarrow> upholds I m Q"
  by (simp add: upholds_def)

lemma upholdsD:
  "upholds I m Q \<Longrightarrow> I b \<Longrightarrow> m b = Some (r, b') \<Longrightarrow> I b'"
  "upholds I m Q \<Longrightarrow> I b \<Longrightarrow> m b = Some (Inr x, b') \<Longrightarrow> Q x"
  unfolding upholds_def by blast+

lemma bind_cases:
  assumes "bind m f b = Some (r, b')"
  obtains (error) e where "m b = Some (Inl e, b')" "r = Inl e"
  | (result) x b1 where "m b = Some (Inr x, b1)" "f x b1 = Some (r, b')"
proof (cases "m b")
  case None
  then show thesis using assms by (simp add: bind_def)
next
  case (Some out)
  obtain s b1 where "m b = Some (s, b1)" using Some by (cases out) simp
  then show thesis using assms error result by (cases s) (auto simp: bind_def)
qed

lemma upholds_ret: "Q x \<Longrightarrow> upholds I (ret x) Q"
  by (simp add: upholds_def ret_def)

lemma upholds_fail: "upholds I (fail e) Q"
  by (simp add: upholds_def fail_def)

lemma upholds_bind:
  assumes "upholds I m Q" "\<And>x. Q x \<Longrightarrow> upholds I (f x) R"
  shows "upholds I (bind m f) R"
proof (rule upholdsI)
  fix b r b' assume I: "I b" and "bind m f b = Some (r, b')"
  from this(2) show "I b' \<and> (\<forall>x. r = Inr x \<longrightarrow> R x)"
  proof (cases rule: bind_cases)
    case (error e)
    then show ?thesis using upholdsD(1) [OF assms(1) I] by simp
  next
    case (result x b1)
    note next' = assms(2) [OF upholdsD(2) [OF assms(1) I result(1)]]
    show ?thesis using next' upholdsD(1) [OF assms(1) I result(1)] result(2) unfolding upholds_def by blast
  qed
qed

lemma upholds_andthen: "upholds I m (\<lambda>_. True) \<Longrightarrow> upholds I k R \<Longrightarrow> upholds I (bind m (\<lambda>_. k)) R"
  by (rule upholds_bind)

lemma upholds_weaken: "upholds I m Q \<Longrightarrow> (\<And>x. Q x \<Longrightarrow> R x) \<Longrightarrow> upholds I m R"
  unfolding upholds_def by blast

lemma upholds_conj: "upholds I m Q \<Longrightarrow> upholds I m R \<Longrightarrow> upholds I m (\<lambda>x. Q x \<and> R x)"
  unfolding upholds_def by blast

lemma upholds_map_error:
  assumes "upholds I m Q"
  shows "upholds I (map_error f m) Q"
proof (rule upholdsI)
  fix b r b' assume I: "I b" and m: "map_error f m b = Some (r, b')"
  obtain s where "m b = Some (s, b')" "\<forall>x. r = Inr x \<longrightarrow> s = Inr x"
    using m by (auto simp: map_error_def split: option.splits sum.splits)
  then show "I b' \<and> (\<forall>x. r = Inr x \<longrightarrow> Q x)" using upholdsD [OF assms I] by blast
qed

text \<open>Steps that leave the memos of the reads alone.\<close>

definition memo_of :: "budget \<Rightarrow>
    (string \<times> string \<times> string, subject_ref list) go_map \<times>
    (string \<times> string \<times> string \<times> string \<times> string \<times> int, bool) go_map \<times> (tuple, bool) go_map" where
  "memo_of b = (bd_targets b, bd_direct b, bd_facts b)"

definition memo_quiet :: "'a run \<Rightarrow> bool" where
  "memo_quiet m \<longleftrightarrow> (\<forall>b r b'. m b = Some (r, b') \<longrightarrow> memo_of b' = memo_of b)"

lemma upholds_quiet: "memo_quiet m \<Longrightarrow> (\<And>b b'. memo_of b' = memo_of b \<Longrightarrow> I b = I b') \<Longrightarrow> upholds I m (\<lambda>_. True)"
  unfolding upholds_def memo_quiet_def by blast

lemma quiet_poll: "memo_quiet (poll v)"
  by (auto simp: memo_quiet_def poll_def Let_def memo_of_def split: option.splits)

lemma quiet_chargeStep: "memo_quiet (chargeStep v)"
  by (auto simp: memo_quiet_def chargeStep_def memo_of_def split: if_splits)

lemma quiet_chargeKey: "memo_quiet (chargeKey v k)"
  by (auto simp: memo_quiet_def chargeKey_def memo_of_def split: if_splits)

lemma quiet_chargePrimitiveState: "memo_quiet (chargePrimitiveState v r e)"
  unfolding chargePrimitiveState_def by (rule quiet_chargeKey)

lemma quiet_chargeFanout: "memo_quiet (chargeFanout v n)"
  by (auto simp: memo_quiet_def chargeFanout_def fail_def ret_def split: if_splits)

lemma quiet_record_step: "memo_quiet (record_step s)"
  by (auto simp: memo_quiet_def record_step_def memo_of_def split: option.splits)

lemma quiet_rememberScopedDenial: "memo_quiet (rememberScopedDenial v t)"
  by (auto simp: memo_quiet_def rememberScopedDenial_def Let_def memo_of_def)

lemmas quiet_steps = quiet_poll quiet_chargeStep quiet_chargeKey quiet_chargePrimitiveState quiet_chargeFanout
  quiet_record_step quiet_rememberScopedDenial

section \<open>The contract of an operation's reads\<close>

locale coherent_view =
  graph_reads "vw_reader v" F "compiled_readModel (vw_compiled v)" for v :: view and F :: "tuple set" +
  assumes contains_right: "rd_Contains (vw_facts v) t = Inr held \<Longrightarrow> held = (t \<in> F)"
begin

definition consistent :: "budget \<Rightarrow> bool" where
  "consistent b \<longleftrightarrow>
     (\<forall>rt i rel ts. map_get (bd_targets b) (rt, i, rel) = Some ts \<longrightarrow>
        set ts = relation_targets F (compiled_readModel (vw_compiled v)) rt i rel) \<and>
     (\<forall>rt i rel st sid bound x. map_get (bd_direct b) (rt, i, rel, st, sid, bound) = Some x \<longrightarrow>
        valid_ref st \<longrightarrow> valid_ref sid \<longrightarrow> rel \<noteq> [] \<longrightarrow>
        x = (SubjectRef rt i rel \<in> holdings F (compiled_readModel (vw_compiled v)) st sid)) \<and>
     (\<forall>t x. map_get (bd_facts b) t = Some x \<longrightarrow> x = (t \<in> F))"

lemma consistent_memo: "memo_of b' = memo_of b \<Longrightarrow> consistent b = consistent b'"
  by (simp add: consistent_def memo_of_def)

lemma consistent_fresh: "consistent fresh_budget"
  by (simp add: consistent_def fresh_budget_def)

lemma quiet_consistent: "memo_quiet m \<Longrightarrow> upholds consistent m (\<lambda>_. True)"
  by (erule upholds_quiet) (rule consistent_memo)

lemmas upholds_quiet_step = quiet_steps [THEN quiet_consistent]

lemma upholds_Contains: "upholds consistent (memo_Contains v t) (\<lambda>x. x = (t \<in> F))"
  unfolding memo_Contains_def
proof (rule upholds_andthen [OF upholds_quiet_step(1)], rule upholdsI)
  fix b r b'
  assume b: "consistent b" and "(case map_get (bd_facts b) t of
         Some held \<Rightarrow> Some (Inr held, b)
       | None \<Rightarrow>
           (case rd_Contains (vw_facts v) t of
              Inl e \<Rightarrow> Some (Inl e, b)
            | Inr held \<Rightarrow> Some (Inr held, b\<lparr>bd_facts := map_put t held (bd_facts b)\<rparr>))) = Some (r, b')"
  then consider held where "map_get (bd_facts b) t = Some held" "r = Inr held" "b' = b"
    | e where "r = Inl e" "b' = b"
    | held where "rd_Contains (vw_facts v) t = Inr held" "r = Inr held" "b' = b\<lparr>bd_facts := map_put t held (bd_facts b)\<rparr>"
    by (auto split: option.splits sum.splits) metis+
  then show "consistent b' \<and> (\<forall>x. r = Inr x \<longrightarrow> x = (t \<in> F))"
  proof cases
    case 3
    then show ?thesis using b contains_right [of t held] by (auto simp: consistent_def)
  qed (use b in \<open>auto simp: consistent_def\<close>)
qed

text \<open>A read through a memo: the stored answer, or a new one, stored after a poll.\<close>

lemma upholds_targets:
  "upholds consistent (memo_GetRelationTargets v rt i rel)
     (\<lambda>ts. set ts = relation_targets F (compiled_readModel (vw_compiled v)) rt i rel)"
    (is "upholds consistent _ ?right")
  unfolding memo_GetRelationTargets_def
proof (rule upholds_andthen [OF upholds_quiet_step(1)], rule upholdsI)
  let ?put = "\<lambda>ts. bind (poll v) (\<lambda>_ b.
      Some (Inr (sort ts), b\<lparr>bd_targets := map_put (rt, i, rel) (sort ts) (bd_targets b)\<rparr>))"
  have put: "upholds consistent (?put ts) ?right" if "gr_Targets (vw_reader v) rt i rel = Inr ts" for ts
    by (rule upholds_andthen [OF upholds_quiet_step(1)])
      (use targets_right [OF that] in \<open>auto simp: upholds_def consistent_def\<close>)
  fix b r b'
  assume b: "consistent b" and "(case map_get (bd_targets b) (rt, i, rel) of
         Some targets \<Rightarrow> Some (Inr targets, b)
       | None \<Rightarrow>
           (case gr_Targets (vw_reader v) rt i rel of
              Inl e \<Rightarrow> Some (Inl e, b)
            | Inr targets \<Rightarrow> ?put targets b)) = Some (r, b')"
  then consider ts where "map_get (bd_targets b) (rt, i, rel) = Some ts" "r = Inr ts" "b' = b"
    | e where "r = Inl e" "b' = b"
    | ts where "gr_Targets (vw_reader v) rt i rel = Inr ts" "?put ts b = Some (r, b')"
    by (auto split: option.splits sum.splits) metis+
  then show "consistent b' \<and> (\<forall>ts. r = Inr ts \<longrightarrow> ?right ts)"
  proof cases
    case 3
    then show ?thesis using put [OF 3(1)] b unfolding upholds_def by blast
  qed (use b in \<open>auto simp: consistent_def\<close>)
qed

lemma upholds_CheckRelation:
  assumes "valid_facts F" "valid_ref st" "valid_ref sid" "rel \<noteq> []"
  shows "upholds consistent (memo_CheckRelation v rt i rel st sid bound)
    (\<lambda>x. x = (SubjectRef rt i rel \<in> holdings F (compiled_readModel (vw_compiled v)) st sid))"
    (is "upholds consistent _ ?right")
  unfolding memo_CheckRelation_def
proof (rule upholds_andthen [OF upholds_quiet_step(1)], rule upholdsI)
  let ?put = "\<lambda>x. bind (poll v) (\<lambda>_ b.
      Some (Inr x, b\<lparr>bd_direct := map_put (rt, i, rel, st, sid, bound) x (bd_direct b)\<rparr>))"
  have put: "upholds consistent (?put x) ?right"
    if "gr_CheckRelation (vw_reader v) rt i rel st sid bound = Some (Inr x)" for x
    by (rule upholds_andthen [OF upholds_quiet_step(1)])
      (use check_right [OF assms that] in \<open>auto simp: upholds_def consistent_def\<close>)
  fix b r b'
  assume b: "consistent b" and "(case map_get (bd_direct b) (rt, i, rel, st, sid, bound) of
         Some allowed \<Rightarrow> Some (Inr allowed, b)
       | None \<Rightarrow>
           (case gr_CheckRelation (vw_reader v) rt i rel st sid bound of
              None \<Rightarrow> None
            | Some (Inl e) \<Rightarrow> Some (Inl e, b)
            | Some (Inr allowed) \<Rightarrow> ?put allowed b)) = Some (r, b')"
  then consider x where "map_get (bd_direct b) (rt, i, rel, st, sid, bound) = Some x" "r = Inr x" "b' = b"
    | e where "r = Inl e" "b' = b"
    | x where "gr_CheckRelation (vw_reader v) rt i rel st sid bound = Some (Inr x)" "?put x b = Some (r, b')"
    by (auto split: option.splits sum.splits)
  then show "consistent b' \<and> (\<forall>x. r = Inr x \<longrightarrow> ?right x)"
  proof cases
    case 3
    then show ?thesis using put [OF 3(1)] b unfolding upholds_def by blast
  next
    case 1
    then show ?thesis using b assms unfolding consistent_def by blast
  qed (use b in auto)
qed

end

section \<open>Leaves\<close>

text \<open>What a step that decides an expression promises: \<open>G\<close> bounds an allow, each \<open>W k\<close> forces one.\<close>

definition decides :: "bool \<Rightarrow> (nat \<Rightarrow> bool) \<Rightarrow> check_result \<Rightarrow> bool" where
  "decides G W res \<longleftrightarrow> (ck_Allowed res \<longrightarrow> G) \<and> (\<forall>k. W k \<longrightarrow> ck_Allowed res)"

lemma decides_exact: "ck_Allowed res = G \<Longrightarrow> (\<And>k. W k \<Longrightarrow> G) \<Longrightarrow> decides G W res"
  by (auto simp: decides_def)

lemma direct_fact:
  assumes "Tuple (On rt i) rel (SubjectRef st sid []) \<in> F" "Allows m rt rel st []"
  shows "SubjectRef rt i rel \<in> holdings F m st sid"
proof -
  have "SubjectRef st sid [] \<in> {sj. (sj, SubjectRef rt i rel) \<in> membership F m}"
    using assms unfolding membership_targets relation_targets_def by simp
  then show ?thesis by (auto simp: holdings_def)
qed

text \<open>Without usersets on the relation, what holds it is the fact itself: only the subject is concrete.\<close>

lemma only_direct_fact:
  assumes "valid_facts F" "rel \<noteq> []" "SubjectRef rt i rel \<in> holdings F m st sid"
    and concrete: "\<And>st srel. Allows m rt rel st srel \<Longrightarrow> srel = []"
  shows "Tuple (On rt i) rel (SubjectRef st sid []) \<in> F"
proof -
  from holdings_cases [OF assms(3)] assms(2) obtain f where f: "f \<in> F" "follows m (tp_Subject f) f"
    "tp_Subject f \<in> holdings F m st sid" "SubjectRef rt i rel = fact_ref f" by auto
  then have "(tp_Subject f, SubjectRef rt i rel) \<in> membership F m" unfolding membership_def by blast
  then have target: "tp_Subject f \<in> relation_targets F m rt i rel"
    using membership_targets [of rt i rel F m] by blast
  then have s: "sj_Relation (tp_Subject f) = []" by (auto simp: relation_targets_def concrete)
  have "tp_Subject f = SubjectRef st sid []"
    using holdings_cases [OF f(3)]
  proof
    assume "\<exists>g\<in>F. follows m (tp_Subject g) g \<and> tp_Subject g \<in> holdings F m st sid \<and> tp_Subject f = fact_ref g"
    then obtain g where "g \<in> F" "tp_Subject f = fact_ref g" by blast
    moreover have "tp_Relation g \<noteq> []" if "g \<in> F"
      using assms(1) that by (auto simp: valid_facts_def Tuple_Validate_def or_else_def valid_ref_def split: if_splits option.splits)
    ultimately show ?thesis using s by (simp add: fact_ref_def)
  qed
  with target show ?thesis by (simp add: relation_targets_def)
qed

end
