(* ===== verification/Decision_Walk.thy ===== *)
theory Decision_Walk
  imports Decision_Right
begin

text \<open>
  The walk decides what the expression grants.
\<close>

lemma bind_request_const: "bind_request v req e = ret (Some (req\<lparr>rq_Resource := leaf_resource e (rq_Resource req)\<rparr>))"
  if "ex_ResourceSlot e = None"
  using that by (cases "ex_Resource e") (simp_all add: bind_request_def leaf_resource_def Let_def)

lemma upholds_with_target:
  assumes "\<And>b b'. memo_of b' = memo_of b \<Longrightarrow> I b = I b'" "upholds I m (\<lambda>(res, r). Q res)"
  shows "upholds I (with_target e m) Q"
proof (rule upholdsI)
  fix b r b' assume I: "I b" and w: "with_target e m b = Some (r, b')"
  have t: "I (b\<lparr>bd_target := t\<rparr>) = I b" for b t by (rule assms(1)) (simp add: memo_of_def)
  show "I b' \<and> (\<forall>x. r = Inr x \<longrightarrow> Q x)"
  proof (cases "bd_target b")
    case None
    then consider err where "m b = Some (Inl err, b')" "r = Inl err"
      | res x where "m b = Some (Inr (res, x), b')" "r = Inr res"
      using w by (auto simp: with_target_def split: option.splits sum.splits)
    then show ?thesis
      by cases (use upholdsD [OF assms(2) I] in fastforce)+
  next
    case (Some t')
    have I': "I (b\<lparr>bd_target := None\<rparr>)" using I t by simp
    from Some consider err b1 where "m (b\<lparr>bd_target := None\<rparr>) = Some (Inl err, b1)" "r = Inl err"
        "b' = b1\<lparr>bd_target := Some t'\<rparr>"
      | res x b1 where "m (b\<lparr>bd_target := None\<rparr>) = Some (Inr (res, x), b1)" "r = Inr res"
        "b' = b1\<lparr>bd_target := Some (record_target e x (ck_Allowed res) t')\<rparr>"
      using w by (auto simp: with_target_def split: option.splits sum.splits)
    then show ?thesis
    proof cases
      case 1
      then show ?thesis using upholdsD(1) [OF assms(2) I' 1(1)] t by simp
    next
      case 2
      then show ?thesis using upholdsD [OF assms(2) I' ] t by fastforce
    qed
  qed
qed

lemma upholds_targets_loop:
  assumes quiet: "upholds I (chargeStep v) (\<lambda>_. True)"
    and descend: "\<And>sj. sj \<in> set ts \<Longrightarrow> \<not> IsUserset sj \<Longrightarrow> upholds I (descend (target_resource sj)) (decides (G sj) (W sj))"
    and allowed: "\<And>sj. sj \<in> set ts \<Longrightarrow>
      view_allows v (rs_Type (rq_Resource req)) (ex_Through e) (sj_Type sj) (sj_Relation sj)"
  shows "upholds I (through_targets v req e descend ts)
    (decides (\<exists>sj\<in>set ts. \<not> IsUserset sj \<and> G sj) (\<lambda>k. \<exists>sj\<in>set ts. \<not> IsUserset sj \<and> W sj k))"
  using descend allowed
proof (induction ts)
  case Nil
  show ?case by (simp add: upholds_ret decides_def)
next
  case (Cons sj ts)
  have rest: "upholds I (through_targets v req e descend ts)
      (decides (\<exists>sj\<in>set ts. \<not> IsUserset sj \<and> G sj) (\<lambda>k. \<exists>sj\<in>set ts. \<not> IsUserset sj \<and> W sj k))"
    by (rule Cons.IH) (use Cons.prems in auto)
  show ?case
    unfolding through_targets.simps
  proof (rule upholds_andthen [OF quiet])
    show "upholds I
       (if IsUserset sj \<or> \<not> view_allows v (rs_Type (rq_Resource req)) (ex_Through e) (sj_Type sj) (sj_Relation sj)
        then through_targets v req e descend ts
        else bind (descend \<lparr>rs_Type = sj_Type sj, rs_ID = sj_ID sj\<rparr>)
              (\<lambda>result. if ck_Allowed result
                 then ret (result\<lparr>ck_ReasonCode := ReasonGranted,
                             ck_Reason := ''through:'' @ ex_Through e @ ''->'' @ ck_Reason result\<rparr>)
                 else through_targets v req e descend ts))
       (decides (\<exists>sj\<in>set (sj # ts). \<not> IsUserset sj \<and> G sj) (\<lambda>k. \<exists>sj\<in>set (sj # ts). \<not> IsUserset sj \<and> W sj k))"
    proof (cases "IsUserset sj")
      case True
      then show ?thesis using rest by simp
    next
      case False
      have d: "upholds I (descend \<lparr>rs_Type = sj_Type sj, rs_ID = sj_ID sj\<rparr>) (decides (G sj) (W sj))"
        using Cons.prems(1) [of sj] False by (simp add: target_resource_def)
      have "upholds I (bind (descend \<lparr>rs_Type = sj_Type sj, rs_ID = sj_ID sj\<rparr>)
              (\<lambda>result. if ck_Allowed result
                 then ret (result\<lparr>ck_ReasonCode := ReasonGranted,
                             ck_Reason := ''through:'' @ ex_Through e @ ''->'' @ ck_Reason result\<rparr>)
                 else through_targets v req e descend ts))
         (decides (\<exists>sj\<in>set (sj # ts). \<not> IsUserset sj \<and> G sj) (\<lambda>k. \<exists>sj\<in>set (sj # ts). \<not> IsUserset sj \<and> W sj k))"
      proof (rule upholds_bind [OF d])
        fix res assume res: "decides (G sj) (W sj) res"
        show "upholds I (if ck_Allowed res
                 then ret (res\<lparr>ck_ReasonCode := ReasonGranted,
                             ck_Reason := ''through:'' @ ex_Through e @ ''->'' @ ck_Reason res\<rparr>)
                 else through_targets v req e descend ts)
            (decides (\<exists>sj\<in>set (sj # ts). \<not> IsUserset sj \<and> G sj) (\<lambda>k. \<exists>sj\<in>set (sj # ts). \<not> IsUserset sj \<and> W sj k))"
        proof (cases "ck_Allowed res")
          case True
          then show ?thesis using res False by (auto simp: decides_def intro!: upholds_ret)
        next
          case denied: False
          then have "upholds I (through_targets v req e descend ts)
            (decides (\<exists>sj\<in>set (sj # ts). \<not> IsUserset sj \<and> G sj) (\<lambda>k. \<exists>sj\<in>set (sj # ts). \<not> IsUserset sj \<and> W sj k))"
            using res by (intro upholds_weaken [OF rest]) (auto simp: decides_def)
          then show ?thesis using denied by simp
        qed
      qed
      then show ?thesis using False Cons.prems(2) [of sj] by simp
    qed
  qed
qed

lemma upholds_children:
  assumes "\<And>child. child \<in> set es \<Longrightarrow> upholds I (evaluate child) (decides (G child) (W child))"
  shows "upholds I (evaluate_children evaluate False es) (decides (\<exists>child\<in>set es. G child) (\<lambda>k. \<exists>child\<in>set es. W child k))"
    "upholds I (evaluate_children evaluate True es) (decides (\<forall>child\<in>set es. G child) (\<lambda>k. \<forall>child\<in>set es. W child k))"
proof -
  show "upholds I (evaluate_children evaluate False es) (decides (\<exists>child\<in>set es. G child) (\<lambda>k. \<exists>child\<in>set es. W child k))"
    using assms
  proof (induction es)
    case (Cons e es)
    show ?case unfolding evaluate_children.simps
    proof (rule upholds_bind [OF Cons.prems [of e]])
      fix res assume res: "decides (G e) (W e) res"
      show "upholds I (if ck_Allowed res \<noteq> False then ret res else evaluate_children evaluate False es)
         (decides (\<exists>child\<in>set (e # es). G child) (\<lambda>k. \<exists>child\<in>set (e # es). W child k))"
      proof (cases "ck_Allowed res")
        case False
        have "upholds I (evaluate_children evaluate False es)
           (decides (\<exists>child\<in>set (e # es). G child) (\<lambda>k. \<exists>child\<in>set (e # es). W child k))"
          by (rule upholds_weaken [OF Cons.IH]) (use Cons.prems False res in \<open>auto simp: decides_def\<close>)
        then show ?thesis using False by simp
      qed (use res in \<open>auto simp: decides_def intro!: upholds_ret\<close>)
    qed simp
  qed (simp add: upholds_ret decides_def decision_def)
  show "upholds I (evaluate_children evaluate True es) (decides (\<forall>child\<in>set es. G child) (\<lambda>k. \<forall>child\<in>set es. W child k))"
    using assms
  proof (induction es)
    case (Cons e es)
    show ?case unfolding evaluate_children.simps
    proof (rule upholds_bind [OF Cons.prems [of e]])
      fix res assume res: "decides (G e) (W e) res"
      show "upholds I (if ck_Allowed res \<noteq> True then ret res else evaluate_children evaluate True es)
         (decides (\<forall>child\<in>set (e # es). G child) (\<lambda>k. \<forall>child\<in>set (e # es). W child k))"
      proof (cases "ck_Allowed res")
        case True
        have "upholds I (evaluate_children evaluate True es)
           (decides (\<forall>child\<in>set (e # es). G child) (\<lambda>k. \<forall>child\<in>set (e # es). W child k))"
          by (rule upholds_weaken [OF Cons.IH]) (use Cons.prems True res in \<open>auto simp: decides_def\<close>)
        then show ?thesis using True by simp
      qed (use res in \<open>auto simp: decides_def intro!: upholds_ret\<close>)
    qed simp
  qed (simp add: upholds_ret decides_def decision_def)
qed

section \<open>The path of a derivation\<close>

definition state_within :: "tuple set \<Rightarrow> compiled_model \<Rightarrow> principal \<Rightarrow> nat \<Rightarrow> state_key \<Rightarrow> bool" where
  "state_within F c p k s =
     grants_within k F c p \<lparr>rs_Type = key_resourceType s, rs_ID = key_resourceID s\<rparr>
       (permission_expression c (key_resourceType s) (key_permission s))"

definition off_path :: "tuple set \<Rightarrow> compiled_model \<Rightarrow> principal \<Rightarrow> state_key list \<Rightarrow> nat \<Rightarrow> bool" where
  "off_path F c p stack k \<longleftrightarrow> (\<forall>s\<in>set stack. \<not> state_within F c p k s)"

definition forced :: "tuple set \<Rightarrow> compiled_model \<Rightarrow> principal \<Rightarrow> resource \<Rightarrow> expression \<Rightarrow> state_key list \<Rightarrow> nat \<Rightarrow> bool" where
  "forced F c p r e stack k \<longleftrightarrow> grants_within (Suc k) F c p r e \<and> off_path F c p stack k"

lemma off_path_less: "off_path F c p stack (Suc k) \<Longrightarrow> off_path F c p stack k"
  unfolding off_path_def state_within_def using grants_within_Suc by blast

lemma forced_grants: "forced F c p r e stack k \<Longrightarrow> grants F c p r e"
  unfolding forced_def using grants_within_grants by blast

lemma grants_unfold: "grants F c p r e \<longleftrightarrow> grant_step F c p (grants F c p) r e"
proof
  assume "grants F c p r e"
  then obtain n where n: "grants_within n F c p r e" using grants_iff by blast
  then obtain k where "n = Suc k" by (cases n) auto
  with n have "grant_step F c p (grants_within k F c p) r e" by simp
  then show "grant_step F c p (grants F c p) r e" by (rule grant_step_mono [rotated]) (rule grants_within_grants)
next
  assume "grant_step F c p (grants F c p) r e"
  then show "grants F c p r e" by (rule grant_step_grants [rotated])
qed

lemmas leaf_step_defs = grant_step_def is_leaf_def

lemma through_step:
  assumes "is_leaf e" "ex_RoleName e = []" "ex_NamedPermission e = []" "ex_Through e \<noteq> []"
  shows "grant_step F c p G r e \<longleftrightarrow>
    (\<exists>sj\<in>relation_targets F (compiled_readModel c) (rs_Type (leaf_resource e r)) (rs_ID (leaf_resource e r)) (ex_Through e).
       \<not> IsUserset sj \<and> G (target_resource sj) (permission_expression c (sj_Type sj) (ex_Permission e)))"
proof -
  have "grant_step F c p G r e \<longleftrightarrow>
      (\<exists>r'\<in>through_resources F c r e. G r' (permission_expression c (rs_Type r') (ex_Permission e)))"
    using assms by (simp add: leaf_step_defs)
  then show ?thesis unfolding through_resources_def target_resource_def by auto
qed

text \<open>
  Entering a permission: its state is granted within the least height, so not within a smaller one,
  and it is not yet on a path none of whose states is granted within that height.
\<close>

lemma enter_state:
  assumes "state_within F c p k s" "off_path F c p stack k"
  shows "s \<notin> set stack" "\<exists>j. state_within F c p (Suc j) s \<and> off_path F c p (s # stack) j"
proof -
  show "s \<notin> set stack" using assms by (auto simp: off_path_def)
  define m where "m = (LEAST n. state_within F c p n s)"
  have m: "state_within F c p m s" unfolding m_def by (rule LeastI [of "\<lambda>n. state_within F c p n s", OF assms(1)])
  have le: "m \<le> k" unfolding m_def by (rule Least_le [of "\<lambda>n. state_within F c p n s", OF assms(1)])
  have "\<not> state_within F c p 0 s" by (simp add: state_within_def)
  then have "m \<noteq> 0" using m by metis
  then obtain j where j: "m = Suc j" by (cases m) auto
  have "\<not> state_within F c p j s" using not_less_Least [of j "\<lambda>n. state_within F c p n s"] j m_def by simp
  moreover have "\<not> state_within F c p j t" if "t \<in> set stack" for t
    using assms(2) that le j grants_within_mono [of j F c p _ _ k] unfolding off_path_def state_within_def by auto
  ultimately show "\<exists>j. state_within F c p (Suc j) s \<and> off_path F c p (s # stack) j"
    using m j by (intro exI [of _ j]) (simp add: off_path_def)
qed

section \<open>The walk\<close>

context coherent_view
begin

abbreviation "mdl \<equiv> vw_compiled v"

definition checker_right :: "principal \<Rightarrow> checker \<Rightarrow> bool" where
  "checker_right p chk \<longleftrightarrow>
     (\<forall>req depth stack. rq_Principal req = p \<longrightarrow>
        declaresPermission mdl (rs_Type (rq_Resource req)) (rq_Permission req) \<longrightarrow>
        upholds consistent (chk req depth stack)
          (decides
            (grants F mdl p (rq_Resource req) (permission_expression mdl (rs_Type (rq_Resource req)) (rq_Permission req)))
            (\<lambda>k. grants_within k F mdl p (rq_Resource req)
                (permission_expression mdl (rs_Type (rq_Resource req)) (rq_Permission req)) \<and>
              off_path F mdl p stack k)))"

lemma checker_rightD:
  assumes "checker_right p chk" "rq_Principal req = p"
    "declaresPermission mdl (rs_Type (rq_Resource req)) (rq_Permission req)"
  shows "upholds consistent (chk req depth stack)
          (decides
            (grants F mdl p (rq_Resource req) (permission_expression mdl (rs_Type (rq_Resource req)) (rq_Permission req)))
            (\<lambda>k. grants_within k F mdl p (rq_Resource req)
                (permission_expression mdl (rs_Type (rq_Resource req)) (rq_Permission req)) \<and>
              off_path F mdl p stack k))"
  using assms unfolding checker_right_def by blast

text \<open>A leaf whose answer is exact decides it.\<close>

lemma decides_leaf:
  "ck_Allowed res = grants F mdl p r e \<Longrightarrow> decides (grants F mdl p r e) (forced F mdl p r e stack) res"
  by (rule decides_exact) (auto dest: forced_grants)

lemma role_right:
  assumes "is_leaf e" "ex_RoleName e \<noteq> []" "ex_ResourceSlot e = None" "rq_Principal req = p"
  shows "upholds consistent (role_leaf v (req\<lparr>rq_Resource := leaf_resource e r\<rparr>) e depth)
    (decides (grants F mdl p r e) (forced F mdl p r e stack))"
proof -
  have "grants F mdl p r e \<longleftrightarrow> role_fact p r e \<in> F"
    using assms(1,2) by (subst grants_unfold) (simp add: leaf_step_defs)
  then have res: "decides (grants F mdl p r e) (forced F mdl p r e stack) (decision (role_fact p r e \<in> F) reason)"
    for reason by (intro decides_leaf) (simp add: decision_def)
  show ?thesis
    unfolding role_leaf_def Let_def
    using assms(3,4) res
    by (intro upholds_bind [OF upholds_Contains] upholds_andthen upholds_quiet_step upholds_ret)
      (auto simp: bound_leaf_def role_fact_def intro: upholds_quiet_step upholds_ret)
qed

text \<open>
  The short circuit: the fact itself is enough to allow, and its absence is enough to deny when no
  userset may hold the relation.
\<close>

lemma exact_fact:
  assumes facts: "valid_facts F" and rel: "rel \<noteq> []" and wf: "model_wf mdl" and short: "shortCircuits v rt rel st"
    and known: "Tuple (On rt i) rel (SubjectRef st sid []) \<in> F \<or> \<not> relationHasUsersets mdl rt rel"
  shows "Tuple (On rt i) rel (SubjectRef st sid []) \<in> F \<longleftrightarrow>
    SubjectRef rt i rel \<in> holdings F (compiled_readModel mdl) st sid"
proof
  assume "Tuple (On rt i) rel (SubjectRef st sid []) \<in> F"
  then show "SubjectRef rt i rel \<in> holdings F (compiled_readModel mdl) st sid"
    using short by (intro direct_fact) (simp_all add: shortCircuits_def view_allows_def)
next
  assume held: "SubjectRef rt i rel \<in> holdings F (compiled_readModel mdl) st sid"
  show "Tuple (On rt i) rel (SubjectRef st sid []) \<in> F"
    using known
  proof
    assume "\<not> relationHasUsersets mdl rt rel"
    then show ?thesis using no_usersets [OF wf] by (intro only_direct_fact [OF facts rel held]) blast
  qed
qed

lemma shortcut_right:
  assumes facts: "valid_facts F" and rel: "ex_Relation e \<noteq> []" and wf: "model_wf mdl"
  shows "upholds consistent (directShortCircuit v req e depth)
    (\<lambda>shortcut. \<forall>res. shortcut = Some res \<longrightarrow>
       ck_Allowed res = (SubjectRef (rs_Type (rq_Resource req)) (rs_ID (rq_Resource req)) (ex_Relation e)
         \<in> holdings F (compiled_readModel mdl) (pr_Type (rq_Principal req)) (pr_ID (rq_Principal req))))"
    (is "upholds consistent _ ?right")
proof (cases "shortCircuits v (rs_Type (rq_Resource req)) (ex_Relation e) (pr_Type (rq_Principal req))")
  case False
  then show ?thesis by (simp add: directShortCircuit_def upholds_ret)
next
  case True
  show ?thesis
  proof (cases "directTuple (rs_Type (rq_Resource req)) (rs_ID (rq_Resource req)) (ex_Relation e) (rq_Principal req)")
    case None
    then show ?thesis by (simp add: directShortCircuit_def upholds_ret)
  next
    case (Some tup)
    then have tup: "tup = Tuple (On (rs_Type (rq_Resource req)) (rs_ID (rq_Resource req))) (ex_Relation e)
        (SubjectRef (pr_Type (rq_Principal req)) (pr_ID (rq_Principal req)) [])"
      by (auto simp: directTuple_def Let_def split: if_splits)
    let ?users = "relationHasUsersets mdl (rs_Type (rq_Resource req)) (ex_Relation e)"
    let ?rest = "\<lambda>found. andthen (poll v)
           (if \<not> found \<and> ?users then ret None
            else andthen
              (record_step (leaf_step req depth (rq_Permission req) (ex_Relation e) ''direct''
                      (if found then ReasonDirectHit else ReasonDenied)))
              (ret (Some (decision found (''direct:'' @ ex_Relation e)))))"
    have step: "directShortCircuit v req e depth = bind (memo_Contains v tup) ?rest"
      using True Some by (simp add: directShortCircuit_def)
    have "upholds consistent (?rest found) ?right" if "found = (tup \<in> F)" for found
      using exact_fact [OF facts rel wf True] that unfolding tup
      by (intro upholds_andthen [OF upholds_quiet_step(1)])
        (auto simp: decision_def intro!: upholds_andthen [OF upholds_quiet_step(6)] upholds_ret)
    then show ?thesis unfolding step by (rule upholds_bind [OF upholds_Contains])
  qed
qed

lemma direct_right:
  assumes "is_leaf e" "ex_RoleName e = []" "ex_NamedPermission e = []" "ex_Through e = []" "ex_Relation e \<noteq> []"
    and facts: "valid_facts F" and p: "rq_Principal req = p" "ValidatePrincipal p = None" and wf: "model_wf mdl"
  shows "upholds consistent (direct_leaf v (req\<lparr>rq_Resource := leaf_resource e r\<rparr>) e depth)
    (decides (grants F mdl p r e) (forced F mdl p r e stack))"
proof -
  let ?req = "req\<lparr>rq_Resource := leaf_resource e r\<rparr>"
  let ?held = "directly_held F mdl p r e"
  have refs: "valid_ref (pr_Type p)" "valid_ref (pr_ID p)"
    using p(2) by (auto simp: ValidatePrincipal_def or_else_def split: option.splits)
  have "grants F mdl p r e \<longleftrightarrow> ?held"
    using assms(1-4) by (subst grants_unfold) (simp add: leaf_step_defs)
  then have res: "decides (grants F mdl p r e) (forced F mdl p r e stack) res" if "ck_Allowed res = ?held" for res
    using that by (intro decides_leaf) simp
  have expanded: "upholds consistent
      (map_error mapExpansionBudget
        (memo_CheckRelation v (rs_Type (rq_Resource ?req)) (rs_ID (rq_Resource ?req)) (ex_Relation e)
          (pr_Type (rq_Principal ?req)) (pr_ID (rq_Principal ?req)) (MaxGraphStates (vw_limits v)))) (\<lambda>x. x = ?held)"
    using upholds_map_error [OF upholds_CheckRelation [OF facts refs assms(5)]] p(1) by (simp add: directly_held_def)
  show ?thesis
    unfolding direct_leaf_def
  proof (rule upholds_bind [OF shortcut_right [OF facts assms(5) wf]])
    fix shortcut :: "check_result option"
    assume s: "\<forall>res. shortcut = Some res \<longrightarrow>
       ck_Allowed res = (SubjectRef (rs_Type (rq_Resource ?req)) (rs_ID (rq_Resource ?req)) (ex_Relation e)
         \<in> holdings F (compiled_readModel mdl) (pr_Type (rq_Principal ?req)) (pr_ID (rq_Principal ?req)))"
    show "upholds consistent
       (case shortcut of None \<Rightarrow>
          bind (map_error mapExpansionBudget
              (memo_CheckRelation v (rs_Type (rq_Resource ?req)) (rs_ID (rq_Resource ?req)) (ex_Relation e)
                (pr_Type (rq_Principal ?req)) (pr_ID (rq_Principal ?req)) (MaxGraphStates (vw_limits v))))
          (\<lambda>found. andthen (poll v)
             (andthen (record_step (leaf_step ?req depth (rq_Permission ?req) (ex_Relation e) ''direct'' (outcomeReason found)))
               (ret (decision found (''direct:'' @ ex_Relation e)))))
        | Some result \<Rightarrow> ret result)
       (decides (grants F mdl p r e) (forced F mdl p r e stack))"
    proof (cases shortcut)
      case None
      show ?thesis
        unfolding None option.case
        by (rule upholds_bind [OF expanded])
          (auto simp: decision_def intro!: upholds_andthen [OF upholds_quiet_step(1)]
            upholds_andthen [OF upholds_quiet_step(6)] upholds_ret res)
    next
      case (Some res')
      then have "ck_Allowed res' = ?held" using s p(1) by (simp add: directly_held_def)
      then show ?thesis using Some res by (simp add: upholds_ret)
    qed
  qed
qed

lemma through_right:
  assumes "is_leaf e" "ex_RoleName e = []" "ex_NamedPermission e = []" "ex_Through e \<noteq> []"
    and chk: "checker_right p chk" and p: "rq_Principal req = p"
    and declared: "\<forall>st. Allows (compiled_readModel mdl) (rs_Type (leaf_resource e r)) (ex_Through e) st [] \<longrightarrow>
          declaresPermission mdl st (ex_Permission e)"
  shows "upholds consistent (checkThrough v chk (req\<lparr>rq_Resource := leaf_resource e r\<rparr>) e depth stack)
    (decides (grants F mdl p r e) (forced F mdl p r e stack))"
proof -
  let ?req = "req\<lparr>rq_Resource := leaf_resource e r\<rparr>"
  let ?ts = "relation_targets F (compiled_readModel mdl) (rs_Type (leaf_resource e r)) (rs_ID (leaf_resource e r)) (ex_Through e)"
  let ?perm = "\<lambda>sj. permission_expression mdl (sj_Type sj) (ex_Permission e)"
  let ?G = "\<lambda>sj. grants F mdl p (target_resource sj) (?perm sj)"
  let ?W = "\<lambda>sj k. grants_within k F mdl p (target_resource sj) (?perm sj) \<and> off_path F mdl p stack k"
  note step = through_step [OF assms(1-4), of F mdl p _ r]
  have G: "(\<exists>sj\<in>?ts. \<not> IsUserset sj \<and> ?G sj) = grants F mdl p r e"
    by (subst (2) grants_unfold) (simp only: step)
  have W: "(\<lambda>k. \<exists>sj\<in>?ts. \<not> IsUserset sj \<and> ?W sj k) = forced F mdl p r e stack"
    unfolding forced_def grants_within.simps step by blast
  have loop: "upholds consistent (through_targets v ?req e
      (\<lambda>r. chk \<lparr>rq_Principal = rq_Principal ?req, rq_Permission = ex_Permission e, rq_Resource = r\<rparr> (depth + 1) stack) ts)
      (decides (grants F mdl p r e) (forced F mdl p r e stack))" if ts: "set ts = ?ts" for ts
  proof -
    have "upholds consistent (through_targets v ?req e
      (\<lambda>r. chk \<lparr>rq_Principal = rq_Principal ?req, rq_Permission = ex_Permission e, rq_Resource = r\<rparr> (depth + 1) stack) ts)
      (decides (\<exists>sj\<in>set ts. \<not> IsUserset sj \<and> ?G sj) (\<lambda>k. \<exists>sj\<in>set ts. \<not> IsUserset sj \<and> ?W sj k))"
    proof (rule upholds_targets_loop)
      show "upholds consistent (chargeStep v) (\<lambda>_. True)" by (rule upholds_quiet_step(2))
    next
      fix sj assume sj: "sj \<in> set ts" "\<not> IsUserset sj"
      then have "Allows (compiled_readModel mdl) (rs_Type (leaf_resource e r)) (ex_Through e) (sj_Type sj) []"
        using ts by (auto simp: relation_targets_def IsUserset_def)
      with declared have "declaresPermission mdl (sj_Type sj) (ex_Permission e)" by blast
      then show "upholds consistent (chk \<lparr>rq_Principal = rq_Principal ?req, rq_Permission = ex_Permission e,
          rq_Resource = target_resource sj\<rparr> (depth + 1) stack) (decides (?G sj) (?W sj))"
        using checker_rightD [OF chk, of "\<lparr>rq_Principal = p, rq_Permission = ex_Permission e,
          rq_Resource = target_resource sj\<rparr>" "depth + 1" stack] p by (simp add: target_resource_def)
    next
      fix sj assume "sj \<in> set ts"
      then show "view_allows v (rs_Type (rq_Resource ?req)) (ex_Through e) (sj_Type sj) (sj_Relation sj)"
        using ts by (simp add: relation_targets_def view_allows_def)
    qed
    then show ?thesis by (simp only: ts G W)
  qed
  show ?thesis
    unfolding checkThrough_def
    by (rule upholds_andthen [OF upholds_quiet_step(1)], rule upholds_bind [OF upholds_targets],
        rule upholds_andthen [OF upholds_quiet_step(5)], rule loop) simp
qed

lemma named_right:
  assumes "is_leaf e" "ex_RoleName e = []" "ex_NamedPermission e \<noteq> []"
    and chk: "checker_right p chk" and p: "rq_Principal req = p"
    and declared: "declaresPermission mdl (rs_Type (leaf_resource e r)) (ex_NamedPermission e)"
  shows "upholds consistent
    (chk ((req\<lparr>rq_Resource := leaf_resource e r\<rparr>)\<lparr>rq_Permission := ex_NamedPermission e\<rparr>) depth stack)
    (decides (grants F mdl p r e) (forced F mdl p r e stack))"
proof -
  let ?r = "leaf_resource e r" and ?e = "permission_expression mdl (rs_Type (leaf_resource e r)) (ex_NamedPermission e)"
  have G: "grants F mdl p ?r ?e = grants F mdl p r e"
    using assms(1-3) by (subst (2) grants_unfold) (simp add: leaf_step_defs)
  have W: "(\<lambda>k. grants_within k F mdl p ?r ?e \<and> off_path F mdl p stack k) = forced F mdl p r e stack"
    using assms(1-3) unfolding forced_def by (intro ext) (simp add: leaf_step_defs)
  show ?thesis
    using checker_rightD [OF chk, of "(req\<lparr>rq_Resource := ?r\<rparr>)\<lparr>rq_Permission := ex_NamedPermission e\<rparr>" depth stack]
      p declared by (simp add: G W)
qed

lemma bound_leaf_right:
  assumes leaf: "is_leaf e" "leaf_wf mdl (rs_Type r) e" and chk: "checker_right p chk"
    and facts: "valid_facts F" and p: "rq_Principal req = p" "ValidatePrincipal p = None" and wf: "model_wf mdl"
  shows "upholds consistent (evaluate_bound_leaf v chk (req\<lparr>rq_Resource := leaf_resource e r\<rparr>) e depth stack)
    (decides (grants F mdl p r e) (forced F mdl p r e stack))"
proof -
  have slot: "ex_ResourceSlot e = None" using leaf(2) by (simp add: leaf_wf_def)
  have target: "target_type e (rs_Type r) = rs_Type (leaf_resource e r)"
    using slot by (auto simp: target_type_def leaf_resource_def split: option.splits)
  have charge: "upholds consistent (if b then chargePrimitiveState v r' e else ret ()) (\<lambda>_. True)" for b r'
    using upholds_quiet_step(4) by (simp add: upholds_ret)
  show ?thesis
    unfolding evaluate_bound_leaf_def
  proof (rule upholds_andthen [OF charge])
    consider "ex_RoleName e \<noteq> []" | "ex_RoleName e = []" "ex_NamedPermission e \<noteq> []"
      | "ex_RoleName e = []" "ex_NamedPermission e = []" "ex_Through e \<noteq> []"
      | "ex_RoleName e = []" "ex_NamedPermission e = []" "ex_Through e = []" by blast
    then show "upholds consistent
       (if ex_RoleName e \<noteq> [] then role_leaf v (req\<lparr>rq_Resource := leaf_resource e r\<rparr>) e depth
        else if ex_NamedPermission e \<noteq> []
        then chk ((req\<lparr>rq_Resource := leaf_resource e r\<rparr>)\<lparr>rq_Permission := ex_NamedPermission e\<rparr>) depth stack
        else if ex_Through e \<noteq> [] then
          bind (checkThrough v chk (req\<lparr>rq_Resource := leaf_resource e r\<rparr>) e depth stack) (\<lambda>result.
            andthen
              (record_step (leaf_step (req\<lparr>rq_Resource := leaf_resource e r\<rparr>) depth (ex_Permission e) (ex_Through e)
                 ''through'' (ck_ReasonCode result)))
              (ret result))
        else direct_leaf v (req\<lparr>rq_Resource := leaf_resource e r\<rparr>) e depth)
       (decides (grants F mdl p r e) (forced F mdl p r e stack))"
    proof cases
      case 1
      then show ?thesis using role_right [OF leaf(1) 1 slot p(1)] by simp
    next
      case 2
      then have "declaresPermission mdl (rs_Type (leaf_resource e r)) (ex_NamedPermission e)"
        using leaf(2) target by (simp add: leaf_wf_def)
      with 2 show ?thesis using named_right [OF leaf(1) 2 chk p(1)] by simp
    next
      case 3
      then have "\<forall>st. Allows (compiled_readModel mdl) (rs_Type (leaf_resource e r)) (ex_Through e) st [] \<longrightarrow>
          declaresPermission mdl st (ex_Permission e)"
        using leaf(2) target by (simp add: leaf_wf_def)
      note through = through_right [OF leaf(1) 3 chk p(1) this]
      from 3 show ?thesis
        by simp (rule upholds_bind [OF through], rule upholds_andthen [OF upholds_quiet_step(6)], rule upholds_ret)
    next
      case 4
      then have "ex_Relation e \<noteq> []" using leaf(2) by (simp add: leaf_wf_def)
      with 4 show ?thesis using direct_right [OF leaf(1) 4 _ facts p wf] by simp
    qed
  qed
qed

lemma leaf_right:
  assumes leaf: "is_leaf e" "leaf_wf mdl (rs_Type (rq_Resource req)) e" and chk: "checker_right p chk"
    and facts: "valid_facts F" and p: "rq_Principal req = p" "ValidatePrincipal p = None" and wf: "model_wf mdl"
  shows "upholds consistent (evaluate_leaf v chk req e depth stack)
    (\<lambda>(res, _). decides (grants F mdl p (rq_Resource req) e) (forced F mdl p (rq_Resource req) e stack) res)"
proof -
  have slot: "ex_ResourceSlot e = None" using leaf(2) by (simp add: leaf_wf_def)
  let ?req = "req\<lparr>rq_Resource := leaf_resource e (rq_Resource req)\<rparr>"
  have "evaluate_leaf v chk req e depth stack =
      bind (evaluate_bound_leaf v chk ?req e depth stack) (\<lambda>result. ret (result, rq_Resource ?req))"
    by (simp add: evaluate_leaf_def bind_request_const [OF slot] bind_def [of "ret _"] ret_def fun_eq_iff)
  then show ?thesis
    by (simp only:) (rule upholds_bind [OF bound_leaf_right [OF leaf chk facts p wf]], simp add: upholds_ret)
qed

lemma composite_right:
  assumes "\<not> is_leaf e" and es: "es = (case ex_AllOf e of Some es \<Rightarrow> es | None \<Rightarrow> the (ex_AnyOf e))"
    and child: "\<And>child. child \<in> set es \<Longrightarrow>
      upholds consistent (evaluate child) (decides (grants F mdl p r child) (forced F mdl p r child stack))"
  shows "upholds consistent (evaluate_children evaluate (ex_AllOf e \<noteq> None) es)
    (decides (grants F mdl p r e) (forced F mdl p r e stack))"
proof (cases "ex_AllOf e")
  case None
  then have any: "ex_AnyOf e = Some es" using assms(1) es by (auto simp: is_leaf_def)
  have G: "(\<exists>child\<in>set es. grants F mdl p r child) = grants F mdl p r e"
    using None any by (subst (2) grants_unfold) (simp add: grant_step_def)
  have W: "\<exists>j. \<exists>child\<in>set es. forced F mdl p r child stack j" if "forced F mdl p r e stack k" for k
  proof -
    have off: "off_path F mdl p stack k" and "\<exists>child\<in>set es. grants_within k F mdl p r child"
      using that None any by (simp_all add: forced_def grant_step_def)
    then obtain child where c: "child \<in> set es" "grants_within k F mdl p r child" by blast
    then obtain j where "k = Suc j" by (cases k) auto
    then have "forced F mdl p r child stack j"
      using c(2) off off_path_less unfolding forced_def by blast
    with c(1) show ?thesis by blast
  qed
  have "upholds consistent (evaluate_children evaluate False es)
      (decides (\<exists>child\<in>set es. grants F mdl p r child) (\<lambda>k. \<exists>child\<in>set es. forced F mdl p r child stack k))"
    by (rule upholds_children(1) [OF child])
  then have "upholds consistent (evaluate_children evaluate False es)
      (decides (grants F mdl p r e) (forced F mdl p r e stack))"
    by (rule upholds_weaken) (use G W in \<open>unfold decides_def, blast\<close>)
  then show ?thesis using None by simp
next
  case (Some es')
  then have all: "ex_AllOf e = Some es" using es by simp
  have G: "(\<forall>child\<in>set es. grants F mdl p r child) = grants F mdl p r e"
    using all by (subst (2) grants_unfold) (simp add: grant_step_def)
  have W: "\<exists>j. \<forall>child\<in>set es. forced F mdl p r child stack j" if "forced F mdl p r e stack k" for k
  proof -
    have off: "off_path F mdl p stack k" and c: "\<forall>child\<in>set es. grants_within k F mdl p r child"
      using that all by (simp_all add: forced_def grant_step_def)
    show ?thesis
    proof (cases k)
      case 0
      then show ?thesis using c by auto
    next
      case (Suc j)
      then show ?thesis using c off off_path_less unfolding forced_def by blast
    qed
  qed
  have "upholds consistent (evaluate_children evaluate True es)
      (decides (\<forall>child\<in>set es. grants F mdl p r child) (\<lambda>k. \<forall>child\<in>set es. forced F mdl p r child stack k))"
    by (rule upholds_children(2) [OF child])
  then have "upholds consistent (evaluate_children evaluate True es)
      (decides (grants F mdl p r e) (forced F mdl p r e stack))"
    by (rule upholds_weaken) (use G W in \<open>unfold decides_def, blast\<close>)
  then show ?thesis using all by simp
qed

definition walk_right :: "principal \<Rightarrow> walker \<Rightarrow> bool" where
  "walk_right p walk \<longleftrightarrow>
     (\<forall>req e depth stack. rq_Principal req = p \<longrightarrow> expr_wf mdl (rs_Type (rq_Resource req)) e \<longrightarrow>
        upholds consistent (walk req e depth stack)
          (decides (grants F mdl p (rq_Resource req) e) (forced F mdl p (rq_Resource req) e stack)))"

lemma checker_walk:
  assumes walk: "walk_right p walk" and wf: "model_wf mdl"
  shows "checker_right p (checkPermission v walk)"
  unfolding checker_right_def
proof (intro allI impI)
  fix req :: check_request and depth stack
  let ?r = "rq_Resource req"
  let ?e = "permission_expression mdl (rs_Type ?r) (rq_Permission req)"
  let ?key = "StateKey (rs_Type ?r) (rs_ID ?r) (rq_Permission req) 0 []"
  let ?W = "\<lambda>k. grants_within k F mdl p ?r ?e \<and> off_path F mdl p stack k"
  assume p: "rq_Principal req = p" and declared: "declaresPermission mdl (rs_Type ?r) (rq_Permission req)"
  have state: "state_within F mdl p k ?key = grants_within k F mdl p ?r ?e" for k
    by (cases ?r) (simp add: state_within_def)
  have "upholds consistent (walk req ?e depth (?key # stack)) (decides (grants F mdl p ?r ?e) (forced F mdl p ?r ?e (?key # stack)))"
    using walk p declared_wf [OF wf declared] by (simp add: walk_right_def)
  moreover have "\<exists>j. forced F mdl p ?r ?e (?key # stack) j" if "?W k" for k
    using enter_state(2) [of F mdl p k ?key stack] that unfolding state forced_def by blast
  ultimately have walked: "upholds consistent (walk req ?e depth (?key # stack)) (decides (grants F mdl p ?r ?e) ?W)"
    by (elim upholds_weaken) (auto simp: decides_def)
  have cycle: "decides (grants F mdl p ?r ?e) ?W (decision False reason)" if "?key \<in> set stack" for reason
    using enter_state(1) [of F mdl p _ ?key stack] that unfolding state by (auto simp: decides_def decision_def)
  show "upholds consistent (checkPermission v walk req depth stack) (decides (grants F mdl p ?r ?e) ?W)"
    unfolding checkPermission_def Let_def
    by (rule upholds_andthen [OF upholds_quiet_step(1)], rule upholds_andthen [OF upholds_quiet_step(2)])
      (auto intro!: upholds_fail upholds_ret cycle upholds_andthen [OF upholds_quiet_step(3)] walked)
qed

theorem walk_decides:
  assumes facts: "valid_facts F" and p: "ValidatePrincipal p = None" and wf: "model_wf mdl"
  shows "walk_right p (evaluateExpression fuel v)"
proof (induction fuel)
  case 0
  show ?case by (simp add: walk_right_def upholds_def)
next
  case (Suc fuel)
  show ?case
    unfolding walk_right_def
  proof (intro allI impI)
    fix req :: check_request and e depth stack
    assume rp: "rq_Principal req = p" and ew: "expr_wf mdl (rs_Type (rq_Resource req)) e"
    let ?right = "decides (grants F mdl p (rq_Resource req) e) (forced F mdl p (rq_Resource req) e stack)"
    let ?es = "case ex_AllOf e of Some es \<Rightarrow> es | None \<Rightarrow> the (ex_AnyOf e)"
    have composite: "upholds consistent
        (evaluate_children (\<lambda>child. evaluateExpression fuel v req child depth stack) (ex_AllOf e \<noteq> None) ?es) ?right"
      if "\<not> is_leaf e"
    proof (rule composite_right [OF that refl])
      fix child assume "child \<in> set ?es"
      moreover from that have "ex_AnyOf e = Some ?es \<or> ex_AllOf e = Some ?es"
        by (auto simp: is_leaf_def split: option.splits)
      ultimately have "expr_wf mdl (rs_Type (rq_Resource req)) child" using expr_wf_child [OF ew] by blast
      then show "upholds consistent (evaluateExpression fuel v req child depth stack)
          (decides (grants F mdl p (rq_Resource req) child) (forced F mdl p (rq_Resource req) child stack))"
        using Suc rp by (simp add: walk_right_def)
    qed
    have leaf: "upholds consistent
        (with_target e (evaluate_leaf v (checkPermission v (evaluateExpression fuel v)) req e depth stack)) ?right"
      if l: "is_leaf e"
      by (rule upholds_with_target [OF consistent_memo])
        (use leaf_right [OF l expr_wf_leaf [OF ew l] checker_walk [OF Suc wf] facts rp p wf] in auto)
    show "upholds consistent (evaluateExpression (Suc fuel) v req e depth stack) ?right"
      unfolding evaluateExpression_Suc
      by (rule upholds_andthen [OF upholds_quiet_step(1)], rule upholds_andthen [OF upholds_quiet_step(2)])
        (use composite leaf in \<open>auto simp: is_leaf_def\<close>)
  qed
qed

end

end
