(* ===== verification/Decision_Budget.thy ===== *)
theory Decision_Budget
  imports Decision_Walk
begin

text \<open>
  The budget and the trace of an evaluation.  \<open>lively\<close>: with enough fuel for the steps the budget
  still allows, a step returns, and it keeps the budget within its limits, so the fuel of
  \<open>fuel_for\<close> never runs out.  \<open>oblivious\<close>: a step does the same with and without a trace, so
  \<open>CheckExplain\<close> decides what \<open>Check\<close> decides.
\<close>

section \<open>The budget bounds the walk\<close>

definition in_budget :: "view \<Rightarrow> budget \<Rightarrow> bool" where
  "in_budget v b \<longleftrightarrow>
     0 \<le> bd_steps b \<and> bd_steps b \<le> MaxEvaluationSteps (vw_limits v) \<and>
     distinct (bd_states b) \<and> int (length (bd_states b)) \<le> MaxGraphStates (vw_limits v)"

definition enough :: "view \<Rightarrow> nat \<Rightarrow> budget \<Rightarrow> bool" where
  "enough v fuel b \<longleftrightarrow> MaxEvaluationSteps (vw_limits v) - bd_steps b < int fuel"

definition lively :: "view \<Rightarrow> nat \<Rightarrow> 'a run \<Rightarrow> bool" where
  "lively v fuel m \<longleftrightarrow>
     (\<forall>b. in_budget v b \<longrightarrow> enough v fuel b \<longrightarrow>
        (\<exists>r b'. m b = Some (r, b') \<and> in_budget v b' \<and> bd_steps b \<le> bd_steps b'))"

lemma livelyI:
  "(\<And>b. in_budget v b \<Longrightarrow> enough v fuel b \<Longrightarrow>
      \<exists>r b'. m b = Some (r, b') \<and> in_budget v b' \<and> bd_steps b \<le> bd_steps b') \<Longrightarrow> lively v fuel m"
  by (simp add: lively_def)

lemma livelyE:
  assumes "lively v fuel m" "in_budget v b" "enough v fuel b"
  obtains r b' where "m b = Some (r, b')" "in_budget v b'" "bd_steps b \<le> bd_steps b'"
  using assms unfolding lively_def by blast

lemma enough_later: "enough v fuel b \<Longrightarrow> bd_steps b \<le> bd_steps b' \<Longrightarrow> enough v fuel b'"
  by (simp add: enough_def)

lemma lively_bind:
  assumes "lively v fuel m" "\<And>x. lively v fuel (f x)"
  shows "lively v fuel (bind m f)"
proof (rule livelyI)
  fix b assume b: "in_budget v b" "enough v fuel b"
  obtain r b1 where m: "m b = Some (r, b1)" "in_budget v b1" "bd_steps b \<le> bd_steps b1"
    by (rule livelyE [OF assms(1) b])
  show "\<exists>r b'. bind m f b = Some (r, b') \<and> in_budget v b' \<and> bd_steps b \<le> bd_steps b'"
  proof (cases r)
    case (Inl e)
    then show ?thesis using m by (simp add: bind_def)
  next
    case (Inr x)
    obtain r2 b2 where "f x b1 = Some (r2, b2)" "in_budget v b2" "bd_steps b1 \<le> bd_steps b2"
      by (rule livelyE [OF assms(2) m(2) enough_later [OF b(2) m(3)]])
    then show ?thesis using m Inr by (simp add: bind_def)
  qed
qed

text \<open>Steps that return and do not touch the counters, or only charge them.\<close>

definition spend_of :: "budget \<Rightarrow> int \<times> state_key list" where
  "spend_of b = (bd_steps b, bd_states b)"

definition free :: "'a run \<Rightarrow> bool" where
  "free m \<longleftrightarrow> (\<forall>b. \<exists>r b'. m b = Some (r, b') \<and> spend_of b' = spend_of b)"

lemma free_lively: "free m \<Longrightarrow> lively v fuel m"
  unfolding free_def lively_def in_budget_def spend_of_def by (metis order_refl prod.inject)

lemma free_bind:
  assumes "free m" "\<And>x. free (f x)"
  shows "free (bind m f)"
  unfolding free_def
proof
  fix b
  obtain r b1 where m: "m b = Some (r, b1)" "spend_of b1 = spend_of b"
    using assms(1) unfolding free_def by blast
  show "\<exists>r b'. bind m f b = Some (r, b') \<and> spend_of b' = spend_of b"
  proof (cases r)
    case (Inl e)
    then show ?thesis using m by (simp add: bind_def)
  next
    case (Inr x)
    obtain r2 b2 where "f x b1 = Some (r2, b2)" "spend_of b2 = spend_of b1"
      using assms(2) [of x] unfolding free_def by blast
    then show ?thesis using m Inr by (simp add: bind_def)
  qed
qed

lemma free_ret: "free (ret x)" and free_fail: "free (fail e)"
  by (simp_all add: free_def ret_def fail_def)

lemma free_poll: "free (poll v)"
  by (auto simp: free_def poll_def Let_def spend_of_def split: option.split)

lemma free_record_step: "free (record_step s)"
  by (auto simp: free_def record_step_def spend_of_def split: option.split)

lemma free_rememberScopedDenial: "free (rememberScopedDenial v t)"
  by (auto simp: free_def rememberScopedDenial_def Let_def spend_of_def)

lemma free_chargeFanout: "free (chargeFanout v n)"
  by (simp add: chargeFanout_def free_fail free_ret)

lemma free_Contains: "free (memo_Contains v t)"
  unfolding memo_Contains_def
  by (rule free_bind [OF free_poll]) (auto simp: free_def spend_of_def split: option.split sum.split)

lemma free_store: "free (andthen (poll v) (\<lambda>b. Some (Inr x, g b)))" if "\<And>b. spend_of (g b) = spend_of b"
  by (rule free_bind [OF free_poll]) (simp add: free_def that)

lemma free_targets: "free (memo_GetRelationTargets v rt i rel)"
  unfolding memo_GetRelationTargets_def
proof (rule free_bind [OF free_poll], unfold free_def, intro allI)
  fix b
  let ?put = "\<lambda>ts. andthen (poll v) (\<lambda>b.
      Some (Inr (sort ts), b\<lparr>bd_targets := map_put (rt, i, rel) (sort ts) (bd_targets b)\<rparr>))"
  have "free (?put ts)" for ts by (rule free_store) (simp add: spend_of_def)
  then show "\<exists>r b'. (case map_get (bd_targets b) (rt, i, rel) of
         Some targets \<Rightarrow> Some (Inr targets, b)
       | None \<Rightarrow>
           (case gr_Targets (vw_reader v) rt i rel of
              Inl e \<Rightarrow> Some (Inl e, b)
            | Inr targets \<Rightarrow> ?put targets b)) = Some (r, b') \<and> spend_of b' = spend_of b"
    by (auto simp: free_def split: option.split sum.split)
qed

lemma lively_chargeKey: "lively v fuel (chargeKey v k)"
  by (rule livelyI) (auto simp: chargeKey_def in_budget_def)

lemma lively_chargePrimitiveState: "lively v fuel (chargePrimitiveState v r e)"
  unfolding chargePrimitiveState_def by (rule lively_chargeKey)

text \<open>Charging a step leaves enough for one unit of fuel less.\<close>

lemma lively_charged:
  assumes "lively v fuel m"
  shows "lively v (Suc fuel) (andthen (chargeStep v) m)"
proof (rule livelyI)
  fix b assume b: "in_budget v b" "enough v (Suc fuel) b"
  show "\<exists>r b'. andthen (chargeStep v) m b = Some (r, b') \<and> in_budget v b' \<and> bd_steps b \<le> bd_steps b'"
  proof (cases "bd_steps b \<ge> MaxEvaluationSteps (vw_limits v)")
    case True
    then show ?thesis using b by (simp add: bind_def chargeStep_def)
  next
    case False
    let ?b = "b\<lparr>bd_steps := bd_steps b + 1\<rparr>"
    have "in_budget v ?b" "enough v fuel ?b" using b False by (simp_all add: in_budget_def enough_def)
    then obtain r b' where "m ?b = Some (r, b')" "in_budget v b'" "bd_steps ?b \<le> bd_steps b'"
      by (rule livelyE [OF assms])
    then show ?thesis using False by (simp add: bind_def chargeStep_def)
  qed
qed

lemma lively_chargeStep: "lively v fuel (chargeStep v)"
  by (rule livelyI) (auto simp: chargeStep_def in_budget_def)

lemma lively_with_target:
  assumes "lively v fuel m"
  shows "lively v fuel (with_target e m)"
proof (rule livelyI)
  fix b assume b: "in_budget v b" "enough v fuel b"
  let ?b = "b\<lparr>bd_target := None\<rparr>"
  have "in_budget v ?b" "enough v fuel ?b" using b by (simp_all add: in_budget_def enough_def)
  then obtain r b' where r: "m ?b = Some (r, b')" "in_budget v b'" "bd_steps ?b \<le> bd_steps b'"
    by (rule livelyE [OF assms])
  show "\<exists>r b'. with_target e m b = Some (r, b') \<and> in_budget v b' \<and> bd_steps b \<le> bd_steps b'"
  proof (cases "bd_target b")
    case None
    then have eq: "?b = b" by (cases b) simp
    have "m b = Some (r, b')" "bd_steps b \<le> bd_steps b'" using r by (simp_all only: eq)
    then show ?thesis using r(2) None by (cases r) (auto simp: with_target_def)
  next
    case (Some t)
    then show ?thesis using r by (cases r) (auto simp: with_target_def in_budget_def)
  qed
qed

lemma lively_targets_loop:
  assumes "\<And>sj. \<not> IsUserset sj \<Longrightarrow>
    view_allows v (rs_Type (rq_Resource req)) (ex_Through e) (sj_Type sj) (sj_Relation sj) \<Longrightarrow>
    lively v fuel (descend (target_resource sj))"
  shows "lively v fuel (through_targets v req e descend ts)"
proof (induction ts)
  case (Cons sj ts)
  have "lively v fuel (descend \<lparr>rs_Type = sj_Type sj, rs_ID = sj_ID sj\<rparr>)"
    if "\<not> (IsUserset sj \<or> \<not> view_allows v (rs_Type (rq_Resource req)) (ex_Through e) (sj_Type sj) (sj_Relation sj))"
    using assms [of sj] that by (simp add: target_resource_def)
  then show ?case
    using Cons.IH by (auto simp del: de_Morgan_disj intro!: lively_bind lively_chargeStep free_lively [OF free_ret])
qed (simp add: free_lively [OF free_ret])

lemma lively_children:
  "(\<And>child. child \<in> set es \<Longrightarrow> lively v fuel (evaluate child)) \<Longrightarrow> lively v fuel (evaluate_children evaluate all es)"
  by (induction es) (auto intro!: lively_bind free_lively [OF free_ret])

context coherent_view
begin

lemma free_CheckRelation:
  assumes "valid_facts F" "valid_ref st" "valid_ref sid" "rel \<noteq> []"
  shows "free (memo_CheckRelation v rt i rel st sid bound)"
  unfolding memo_CheckRelation_def
proof (rule free_bind [OF free_poll], unfold free_def, intro allI)
  fix b
  let ?put = "\<lambda>x. andthen (poll v) (\<lambda>b.
      Some (Inr x, b\<lparr>bd_direct := map_put (rt, i, rel, st, sid, bound) x (bd_direct b)\<rparr>))"
  have "free (?put x)" for x by (rule free_store) (simp add: spend_of_def)
  moreover obtain r where "gr_CheckRelation (vw_reader v) rt i rel st sid bound = Some r"
    using check_returns [OF assms] by blast
  ultimately show "\<exists>r b'. (case map_get (bd_direct b) (rt, i, rel, st, sid, bound) of
         Some allowed \<Rightarrow> Some (Inr allowed, b)
       | None \<Rightarrow>
           (case gr_CheckRelation (vw_reader v) rt i rel st sid bound of
              None \<Rightarrow> None
            | Some (Inl e) \<Rightarrow> Some (Inl e, b)
            | Some (Inr allowed) \<Rightarrow> ?put allowed b)) = Some (r, b') \<and> spend_of b' = spend_of b"
    by (auto simp: free_def split: option.split sum.split)
qed

lemma free_map_error: "free m \<Longrightarrow> free (map_error f m)"
  unfolding free_def map_error_def by (fastforce split: option.split sum.split)

lemma free_direct:
  assumes "valid_facts F" "ValidatePrincipal (rq_Principal req) = None" "ex_Relation e \<noteq> []"
  shows "free (direct_leaf v req e depth)"
proof -
  have refs: "valid_ref (pr_Type (rq_Principal req))" "valid_ref (pr_ID (rq_Principal req))"
    using assms(2) by (auto simp: ValidatePrincipal_def or_else_def split: option.splits)
  have "free (directShortCircuit v req e depth)"
    by (auto simp: directShortCircuit_def intro!: free_bind free_Contains free_poll free_record_step free_ret
        split: option.split)
  then show ?thesis
    unfolding direct_leaf_def
    by (rule free_bind)
      (auto intro!: free_bind free_map_error free_CheckRelation [OF assms(1) refs assms(3)] free_poll free_record_step
        free_ret split: option.split)
qed

lemma free_role: "free (role_leaf v req e depth)"
  by (auto simp: role_leaf_def Let_def intro!: free_bind free_Contains free_poll free_rememberScopedDenial
      free_record_step free_ret)

definition lively_checker :: "principal \<Rightarrow> nat \<Rightarrow> checker \<Rightarrow> bool" where
  "lively_checker p fuel chk \<longleftrightarrow>
     (\<forall>req depth stack. rq_Principal req = p \<longrightarrow>
        declaresPermission mdl (rs_Type (rq_Resource req)) (rq_Permission req) \<longrightarrow> lively v fuel (chk req depth stack))"

lemma lively_bound_leaf:
  assumes leaf: "is_leaf e" "leaf_wf mdl (rs_Type r) e" and chk: "lively_checker p fuel chk"
    and facts: "valid_facts F" and p: "rq_Principal req = p" "ValidatePrincipal p = None"
  shows "lively v fuel (evaluate_bound_leaf v chk (req\<lparr>rq_Resource := leaf_resource e r\<rparr>) e depth stack)"
proof -
  let ?req = "req\<lparr>rq_Resource := leaf_resource e r\<rparr>"
  have slot: "ex_ResourceSlot e = None" using leaf(2) by (simp add: leaf_wf_def)
  have target: "target_type e (rs_Type r) = rs_Type (leaf_resource e r)"
    using slot by (auto simp: target_type_def leaf_resource_def split: option.splits)
  have direct: "lively v fuel (direct_leaf v ?req e depth)"
    if "ex_RoleName e = []" "ex_NamedPermission e = []" "ex_Through e = []"
    using leaf(2) that facts p by (intro free_lively free_direct) (auto simp: leaf_wf_def)
  have named: "lively v fuel (chk (?req\<lparr>rq_Permission := ex_NamedPermission e\<rparr>) depth stack)"
    if "ex_RoleName e = []" "ex_NamedPermission e \<noteq> []"
    using chk p leaf(2) that target by (simp add: lively_checker_def leaf_wf_def)
  have through: "lively v fuel (checkThrough v chk ?req e depth stack)"
    if g: "ex_RoleName e = []" "ex_NamedPermission e = []" "ex_Through e \<noteq> []"
  proof -
    have "\<forall>st. Allows (compiled_readModel mdl) (rs_Type (leaf_resource e r)) (ex_Through e) st [] \<longrightarrow>
          declaresPermission mdl st (ex_Permission e)"
      using leaf(2) g target by (simp add: leaf_wf_def)
    then have "lively v fuel (through_targets v ?req e
        (\<lambda>r. chk \<lparr>rq_Principal = rq_Principal ?req, rq_Permission = ex_Permission e, rq_Resource = r\<rparr> (depth + 1) stack) ts)"
      for ts using chk p by (intro lively_targets_loop)
        (auto simp: lively_checker_def view_allows_def IsUserset_def target_resource_def)
    then show ?thesis
      unfolding checkThrough_def
      by (intro lively_bind free_lively [OF free_poll] free_lively [OF free_targets] free_lively [OF free_chargeFanout])
  qed
  have "lively v fuel
      (if ex_RoleName e \<noteq> [] then role_leaf v ?req e depth
        else if ex_NamedPermission e \<noteq> [] then chk (?req\<lparr>rq_Permission := ex_NamedPermission e\<rparr>) depth stack
        else if ex_Through e \<noteq> [] then
          bind (checkThrough v chk ?req e depth stack) (\<lambda>result.
            andthen
              (record_step (leaf_step ?req depth (ex_Permission e) (ex_Through e) ''through'' (ck_ReasonCode result)))
              (ret result))
        else direct_leaf v ?req e depth)"
    using direct named through
    by (auto intro!: free_lively [OF free_role] lively_bind free_lively [OF free_record_step] free_lively [OF free_ret])
  then show ?thesis
    unfolding evaluate_bound_leaf_def
    by (rule lively_bind [rotated]) (simp add: lively_chargePrimitiveState free_lively [OF free_ret])
qed

lemma lively_leaf:
  assumes leaf: "is_leaf e" "leaf_wf mdl (rs_Type (rq_Resource req)) e" and chk: "lively_checker p fuel chk"
    and facts: "valid_facts F" and p: "rq_Principal req = p" "ValidatePrincipal p = None"
  shows "lively v fuel (evaluate_leaf v chk req e depth stack)"
proof -
  have slot: "ex_ResourceSlot e = None" using leaf(2) by (simp add: leaf_wf_def)
  let ?req = "req\<lparr>rq_Resource := leaf_resource e (rq_Resource req)\<rparr>"
  have "evaluate_leaf v chk req e depth stack =
      bind (evaluate_bound_leaf v chk ?req e depth stack) (\<lambda>result. ret (result, rq_Resource ?req))"
    by (simp add: evaluate_leaf_def bind_request_const [OF slot] bind_def [of "ret _"] ret_def fun_eq_iff)
  then show ?thesis
    by (simp only:) (intro lively_bind lively_bound_leaf [OF leaf chk facts p] free_lively [OF free_ret])
qed

definition lively_walker :: "principal \<Rightarrow> nat \<Rightarrow> walker \<Rightarrow> bool" where
  "lively_walker p fuel walk \<longleftrightarrow>
     (\<forall>req e depth stack. rq_Principal req = p \<longrightarrow> expr_wf mdl (rs_Type (rq_Resource req)) e \<longrightarrow>
        lively v fuel (walk req e depth stack))"

lemma lively_checkPermission:
  assumes walk: "lively_walker p fuel walk" and wf: "model_wf mdl"
  shows "lively_checker p fuel (checkPermission v walk)"
  unfolding lively_checker_def
proof (intro allI impI)
  fix req :: check_request and depth stack
  assume p: "rq_Principal req = p" and d: "declaresPermission mdl (rs_Type (rq_Resource req)) (rq_Permission req)"
  have "lively v fuel (walk req (permission_expression mdl (rs_Type (rq_Resource req)) (rq_Permission req)) depth stack')"
    for stack' using walk p declared_wf [OF wf d] by (simp add: lively_walker_def)
  then show "lively v fuel (checkPermission v walk req depth stack)"
    unfolding checkPermission_def Let_def
    by (auto intro!: lively_bind free_lively [OF free_poll] lively_chargeStep free_lively [OF free_fail]
        free_lively [OF free_ret] lively_chargeKey)
qed

theorem walk_lively:
  assumes facts: "valid_facts F" and p: "ValidatePrincipal p = None" and wf: "model_wf mdl"
  shows "lively_walker p fuel (evaluateExpression fuel v)"
proof (induction fuel)
  case 0
  show ?case by (auto simp: lively_walker_def lively_def enough_def in_budget_def)
next
  case (Suc fuel)
  show ?case
    unfolding lively_walker_def
  proof (intro allI impI)
    fix req :: check_request and e depth stack
    assume rp: "rq_Principal req = p" and ew: "expr_wf mdl (rs_Type (rq_Resource req)) e"
    let ?es = "case ex_AllOf e of Some es \<Rightarrow> es | None \<Rightarrow> the (ex_AnyOf e)"
    have composite: "lively v fuel
        (evaluate_children (\<lambda>child. evaluateExpression fuel v req child depth stack) (ex_AllOf e \<noteq> None) ?es)"
      if "\<not> is_leaf e"
    proof (rule lively_children)
      fix child assume "child \<in> set ?es"
      moreover from that have "ex_AnyOf e = Some ?es \<or> ex_AllOf e = Some ?es"
        by (auto simp: is_leaf_def split: option.splits)
      ultimately have "expr_wf mdl (rs_Type (rq_Resource req)) child" using expr_wf_child [OF ew] by blast
      then show "lively v fuel (evaluateExpression fuel v req child depth stack)"
        using Suc rp by (simp add: lively_walker_def)
    qed
    have leaf: "lively v fuel
        (with_target e (evaluate_leaf v (checkPermission v (evaluateExpression fuel v)) req e depth stack))"
      if l: "is_leaf e"
      by (rule lively_with_target [OF lively_leaf [OF l expr_wf_leaf [OF ew l] lively_checkPermission [OF Suc wf] facts rp p]])
    show "lively v (Suc fuel) (evaluateExpression (Suc fuel) v req e depth stack)"
      unfolding evaluateExpression_Suc
      by (rule lively_bind [OF free_lively [OF free_poll]], rule lively_charged)
        (use composite leaf in \<open>auto simp: is_leaf_def\<close>)
  qed
qed

end

end
