(* ===== verification/Decision_Trace.thy ===== *)
theory Decision_Trace
  imports Decision_Laws
begin

text \<open>
  Explaining a decision does not change it.  A step is \<open>oblivious\<close> when it does the same, up to the
  trace, whatever trace the budget carries; every step of the engine is, so \<open>CheckExplain\<close> returns
  the decision of \<open>Check\<close> and spends the same budget.
\<close>

definition erase :: "budget \<Rightarrow> budget" where
  "erase b = b\<lparr>bd_trace := None\<rparr>"

definition untraced :: "('a res \<times> budget) option \<Rightarrow> ('a res \<times> budget) option" where
  "untraced = map_option (apsnd erase)"

definition oblivious :: "'a run \<Rightarrow> bool" where
  "oblivious m \<longleftrightarrow> (\<forall>b t. untraced (m (b\<lparr>bd_trace := t\<rparr>)) = untraced (m b))"

lemma untraced_simps [simp]:
  "untraced None = None" "untraced (Some (r, b)) = Some (r, erase b)"
  "untraced out = None \<longleftrightarrow> out = None"
  by (simp_all add: untraced_def)

lemma untraced_Some: "untraced out = Some (r, e) \<longleftrightarrow> (\<exists>b. out = Some (r, b) \<and> e = erase b)"
  by (auto simp: untraced_def)

lemma erase_trace [simp]: "erase (b\<lparr>bd_trace := t\<rparr>) = erase b"
  by (simp add: erase_def)

lemma erase_eq: "erase b = erase b' \<Longrightarrow> \<exists>t. b' = b\<lparr>bd_trace := t\<rparr>"
  by (rule exI [of _ "bd_trace b'"], cases b, cases b') (simp add: erase_def)

lemma obliviousI: "(\<And>b t. untraced (m (b\<lparr>bd_trace := t\<rparr>)) = untraced (m b)) \<Longrightarrow> oblivious m"
  by (simp add: oblivious_def)

lemma obliviousD: "oblivious m \<Longrightarrow> erase b = erase b' \<Longrightarrow> untraced (m b') = untraced (m b)"
  unfolding oblivious_def using erase_eq by blast

lemma oblivious_bind:
  assumes "oblivious m" "\<And>x. oblivious (f x)"
  shows "oblivious (bind m f)"
proof (rule obliviousI)
  fix b t
  have m: "untraced (m (b\<lparr>bd_trace := t\<rparr>)) = untraced (m b)" using assms(1) by (simp add: oblivious_def)
  show "untraced (bind m f (b\<lparr>bd_trace := t\<rparr>)) = untraced (bind m f b)"
  proof (cases "m b")
    case None
    then show ?thesis using m by (simp add: bind_def)
  next
    case (Some out)
    then obtain r b1 where r: "m b = Some (r, b1)" by (cases out) simp
    then obtain b2 where b2: "m (b\<lparr>bd_trace := t\<rparr>) = Some (r, b2)" "erase b1 = erase b2"
      using m by (auto simp: untraced_Some)
    show ?thesis
    proof (cases r)
      case (Inl e)
      then show ?thesis using r b2 by (simp add: bind_def)
    next
      case (Inr x)
      then show ?thesis using r b2 obliviousD [OF assms(2) b2(2)] by (simp add: bind_def)
    qed
  qed
qed

named_theorems oblivious_intro

lemma oblivious_ret [oblivious_intro]: "oblivious (ret x)" and oblivious_fail [oblivious_intro]: "oblivious (fail e)"
  by (simp_all add: oblivious_def ret_def fail_def)

lemma oblivious_poll [oblivious_intro]: "oblivious (poll v)"
  by (rule obliviousI) (simp add: poll_def Let_def erase_def split: option.split)

lemma oblivious_chargeStep [oblivious_intro]: "oblivious (chargeStep v)"
  by (rule obliviousI) (simp add: chargeStep_def erase_def)

lemma oblivious_chargeKey [oblivious_intro]: "oblivious (chargeKey v k)"
  by (rule obliviousI) (simp add: chargeKey_def erase_def)

lemma oblivious_chargePrimitiveState [oblivious_intro]: "oblivious (chargePrimitiveState v r e)"
  unfolding chargePrimitiveState_def by (rule oblivious_chargeKey)

lemma oblivious_chargeFanout [oblivious_intro]: "oblivious (chargeFanout v n)"
  by (simp add: chargeFanout_def oblivious_intro)

lemma oblivious_record_step [oblivious_intro]: "oblivious (record_step s)"
  by (rule obliviousI) (simp add: record_step_def erase_def split: option.split)

lemma oblivious_rememberScopedDenial [oblivious_intro]: "oblivious (rememberScopedDenial v t)"
  by (rule obliviousI) (simp add: rememberScopedDenial_def Let_def erase_def)

lemma oblivious_Contains [oblivious_intro]: "oblivious (memo_Contains v t)"
  unfolding memo_Contains_def
  by (rule oblivious_bind [OF oblivious_poll], rule obliviousI) (simp add: erase_def split: option.split sum.split)

lemma oblivious_store:
  assumes "\<And>b t. erase (g (b\<lparr>bd_trace := t\<rparr>)) = erase (g b)"
  shows "untraced (andthen (poll v) (\<lambda>b. Some (Inr x, g b)) (b\<lparr>bd_trace := t\<rparr>)) =
    untraced (andthen (poll v) (\<lambda>b. Some (Inr x, g b)) b)"
proof -
  have "oblivious (\<lambda>b. Some (Inr x, g b))" by (rule obliviousI) (simp add: assms)
  then have "oblivious (andthen (poll v) (\<lambda>b. Some (Inr x, g b)))" by (intro oblivious_bind oblivious_poll)
  then show ?thesis by (simp add: oblivious_def)
qed

lemma oblivious_targets [oblivious_intro]: "oblivious (memo_GetRelationTargets v rt i rel)"
  unfolding memo_GetRelationTargets_def
proof (rule oblivious_bind [OF oblivious_poll], rule obliviousI, goal_cases)
  case (1 _ b t)
  then show ?case
    using oblivious_store [of "\<lambda>b. b\<lparr>bd_targets := map_put (rt, i, rel) (sort ts) (bd_targets b)\<rparr>" v "sort ts" t b for ts]
    by (simp add: erase_def split: option.split sum.split)
qed

lemma oblivious_CheckRelation [oblivious_intro]: "oblivious (memo_CheckRelation v rt i rel st sid bound)"
  unfolding memo_CheckRelation_def
proof (rule oblivious_bind [OF oblivious_poll], rule obliviousI, goal_cases)
  case (1 _ b t)
  then show ?case
    using oblivious_store [of "\<lambda>b. b\<lparr>bd_direct := map_put (rt, i, rel, st, sid, bound) x (bd_direct b)\<rparr>" v x t b for x]
    by (simp add: erase_def split: option.split sum.split)
qed

lemma oblivious_map_error [oblivious_intro]:
  assumes "oblivious m"
  shows "oblivious (map_error f m)"
proof (rule obliviousI)
  fix b t
  have "untraced (m (b\<lparr>bd_trace := t\<rparr>)) = untraced (m b)" using assms by (simp add: oblivious_def)
  moreover have "untraced (map_error f m b) = map_option (map_prod (map_sum f id) id) (untraced (m b))" for b
    by (simp add: map_error_def untraced_def split: option.split sum.split)
  ultimately show "untraced (map_error f m (b\<lparr>bd_trace := t\<rparr>)) = untraced (map_error f m b)" by simp
qed

lemma oblivious_direct [oblivious_intro]: "oblivious (direct_leaf v req e depth)"
proof -
  have "oblivious (directShortCircuit v req e depth)"
    by (auto simp: directShortCircuit_def intro!: oblivious_bind oblivious_intro split: option.split)
  then show ?thesis
    unfolding direct_leaf_def by (rule oblivious_bind) (auto intro!: oblivious_bind oblivious_intro split: option.split)
qed

lemma oblivious_role [oblivious_intro]: "oblivious (role_leaf v req e depth)"
  by (auto simp: role_leaf_def Let_def intro!: oblivious_bind oblivious_intro)

lemma oblivious_targets_loop [oblivious_intro]:
  "(\<And>r. oblivious (descend r)) \<Longrightarrow> oblivious (through_targets v req e descend ts)"
  by (induction ts) (auto intro!: oblivious_bind oblivious_intro)

lemma oblivious_checkThrough [oblivious_intro]:
  "(\<And>req depth stack. oblivious (chk req depth stack)) \<Longrightarrow> oblivious (checkThrough v chk req e depth stack)"
  unfolding checkThrough_def by (intro oblivious_bind oblivious_intro)

lemma oblivious_resolveSlot [oblivious_intro]: "oblivious (resolveSlot v slot)"
proof -
  have rest: "oblivious (andthen (poll v) (andthen (poll v) (\<lambda>b.
             case answer of
               Inl e \<Rightarrow> if errors_is e ErrResourceNotApplicable then Some (Inr None, b) else Some (Inl e, b)
             | Inr r \<Rightarrow> Some (Inr (Some r), b))))" for answer :: "resource res"
    by (intro oblivious_bind oblivious_poll obliviousI) (simp split: sum.split)
  show ?thesis
    unfolding resolveSlot_def
  proof (intro oblivious_bind oblivious_poll, rule obliviousI)
    fix b t
    show "untraced
        (let (answer, b) = case map_get (bd_slots (b\<lparr>bd_trace := t\<rparr>)) (sl_Key slot) of
             None \<Rightarrow> (checked_resource v slot, (b\<lparr>bd_trace := t\<rparr>)
                \<lparr>bd_slots := map_put (sl_Key slot) (checked_resource v slot) (bd_slots (b\<lparr>bd_trace := t\<rparr>))\<rparr>)
           | Some answer \<Rightarrow> (answer, b\<lparr>bd_trace := t\<rparr>)
         in andthen (poll v) (andthen (poll v) (\<lambda>b. case answer of
               Inl e \<Rightarrow> if errors_is e ErrResourceNotApplicable then Some (Inr None, b) else Some (Inl e, b)
             | Inr r \<Rightarrow> Some (Inr (Some r), b))) b) =
       untraced
        (let (answer, b) = case map_get (bd_slots b) (sl_Key slot) of
             None \<Rightarrow> (checked_resource v slot, b\<lparr>bd_slots := map_put (sl_Key slot) (checked_resource v slot) (bd_slots b)\<rparr>)
           | Some answer \<Rightarrow> (answer, b)
         in andthen (poll v) (andthen (poll v) (\<lambda>b. case answer of
               Inl e \<Rightarrow> if errors_is e ErrResourceNotApplicable then Some (Inr None, b) else Some (Inl e, b)
             | Inr r \<Rightarrow> Some (Inr (Some r), b))) b)"
      by (cases "map_get (bd_slots b) (sl_Key slot)"; simp;
          rule obliviousD [OF rest]; simp add: erase_def)
  qed
qed

lemma oblivious_bind_request [oblivious_intro]: "oblivious (bind_request v req e)"
  by (auto simp: bind_request_def Let_def intro!: oblivious_bind oblivious_intro split: option.split)

lemma oblivious_leaf [oblivious_intro]:
  assumes "\<And>req depth stack. oblivious (chk req depth stack)"
  shows "oblivious (evaluate_leaf v chk req e depth stack)"
proof -
  have "oblivious (evaluate_bound_leaf v chk req e depth stack)" for req
    unfolding evaluate_bound_leaf_def using assms by (auto intro!: oblivious_bind oblivious_intro)
  then show ?thesis
    unfolding evaluate_leaf_def by (auto intro!: oblivious_bind oblivious_intro split: option.split)
qed

lemma untraced_cases:
  assumes "untraced o1 = untraced o2"
  obtains (none) "o1 = None" "o2 = None"
  | (some) r b1 b2 where "o1 = Some (r, b1)" "o2 = Some (r, b2)" "erase b1 = erase b2"
proof (cases o1)
  case None
  then show thesis using assms none by (metis untraced_simps(1,3))
next
  case (Some out)
  then obtain r b1 where "o1 = Some (r, b1)" by (cases out) simp
  moreover from this obtain b2 where "o2 = Some (r, b2)" "erase b1 = erase b2"
    using assms untraced_Some by (metis untraced_simps(2))
  ultimately show thesis by (rule some)
qed

lemma erase_target: "erase b1 = erase b2 \<Longrightarrow> erase (b1\<lparr>bd_target := x\<rparr>) = erase (b2\<lparr>bd_target := x\<rparr>)"
  using erase_eq by (fastforce simp: erase_def)

lemma oblivious_with_target [oblivious_intro]:
  assumes "oblivious m"
  shows "oblivious (with_target e m)"
proof (rule obliviousI)
  fix b t
  show "untraced (with_target e m (b\<lparr>bd_trace := t\<rparr>)) = untraced (with_target e m b)"
  proof (cases "bd_target b")
    case None
    have "untraced (m (b\<lparr>bd_trace := t\<rparr>)) = untraced (m b)" using assms by (simp add: oblivious_def)
    then show ?thesis
      by (cases rule: untraced_cases) (use None in \<open>auto simp: with_target_def split: sum.split\<close>)
  next
    case (Some x)
    have "untraced (m (b\<lparr>bd_trace := t, bd_target := None\<rparr>)) = untraced (m (b\<lparr>bd_target := None\<rparr>))"
      using obliviousD [OF assms, of "b\<lparr>bd_target := None\<rparr>" "b\<lparr>bd_trace := t, bd_target := None\<rparr>"]
      by (simp add: erase_def)
    then show ?thesis
    proof (cases rule: untraced_cases)
      case (some r b1 b2)
      note same = erase_target [OF some(3)]
      show ?thesis using some(1,2) same Some by (auto simp: with_target_def split: sum.split)
    qed (use Some in \<open>simp add: with_target_def\<close>)
  qed
qed

lemma oblivious_children [oblivious_intro]:
  "(\<And>child. oblivious (evaluate child)) \<Longrightarrow> oblivious (evaluate_children evaluate all es)"
  by (induction es) (auto intro!: oblivious_bind oblivious_intro)

lemma oblivious_checkPermission [oblivious_intro]:
  "(\<And>req e depth stack. oblivious (walk req e depth stack)) \<Longrightarrow> oblivious (checkPermission v walk req depth stack)"
  by (auto simp: checkPermission_def Let_def intro!: oblivious_bind oblivious_intro)

theorem oblivious_walk [oblivious_intro]: "oblivious (evaluateExpression fuel v req e depth stack)"
proof (induction fuel arbitrary: req e depth stack)
  case (Suc fuel)
  have "oblivious (evaluate_children (\<lambda>child. evaluateExpression fuel v req child depth stack) all es)" for all es
    by (rule oblivious_children) (rule Suc)
  moreover have "oblivious (with_target e (evaluate_leaf v (checkPermission v (evaluateExpression fuel v)) req e depth stack))"
    by (intro oblivious_with_target oblivious_leaf oblivious_checkPermission Suc)
  ultimately show ?case
    unfolding evaluateExpression_Suc
    by (intro oblivious_bind oblivious_poll oblivious_chargeStep) simp
qed (simp add: oblivious_def)

lemma canceled_trace:
  assumes "erase b1 = erase b2"
  obtains c b1' b2' where "canceled v b1 = (c, b1')" "canceled v b2 = (c, b2')" "erase b1' = erase b2'"
proof -
  obtain t where "b2 = b1\<lparr>bd_trace := t\<rparr>" using erase_eq [OF assms] by blast
  then show thesis
    by (intro that [of "fst (canceled v b1)" "snd (canceled v b1)" "snd (canceled v b2)"], cases b1)
      (simp_all add: canceled_def erase_def)
qed

lemma Contains_trace:
  assumes "erase b1 = erase b2"
  shows "untraced (memo_Contains v f (b1\<lparr>bd_probes := bd_probes b1 + 1\<rparr>)) =
    untraced (memo_Contains v f (b2\<lparr>bd_probes := bd_probes b2 + 1\<rparr>))"
proof -
  obtain t where "b2 = b1\<lparr>bd_trace := t\<rparr>" using erase_eq [OF assms] by blast
  then show ?thesis by (intro obliviousD [OF oblivious_Contains]) (simp add: erase_def)
qed

lemma erase_fields:
  assumes "erase b1 = erase b2"
  shows "bd_probes b1 = bd_probes b2" "bd_globalGrant b1 = bd_globalGrant b2"
    "bd_diagnosticFacts b1 = bd_diagnosticFacts b2"
    "erase (b1\<lparr>bd_globalGrant := g\<rparr>) = erase (b2\<lparr>bd_globalGrant := g\<rparr>)"
proof -
  obtain t where "b2 = b1\<lparr>bd_trace := t\<rparr>" using erase_eq [OF assms] by blast
  then show "bd_probes b1 = bd_probes b2" "bd_globalGrant b1 = bd_globalGrant b2"
    "bd_diagnosticFacts b1 = bd_diagnosticFacts b2"
    "erase (b1\<lparr>bd_globalGrant := g\<rparr>) = erase (b2\<lparr>bd_globalGrant := g\<rparr>)" by (simp_all add: erase_def)
qed

lemma probe_facts_trace: "erase b1 = erase b2 \<Longrightarrow> erase (probe_facts v fs b1) = erase (probe_facts v fs b2)"
proof (induction fs arbitrary: b1 b2)
  case (Cons f fs)
  obtain c b3 b4 where c: "canceled v b1 = (c, b3)" "canceled v b2 = (c, b4)" "erase b3 = erase b4"
    by (rule canceled_trace [OF Cons.prems])
  show ?case
  proof (cases "bd_probes b1 \<ge> maxDiagnosticProbes \<or> c")
    case True
    then show ?thesis using Cons.prems c erase_fields(1) [OF Cons.prems] by auto
  next
    case go: False
    have "untraced (memo_Contains v f (b3\<lparr>bd_probes := bd_probes b3 + 1\<rparr>)) =
        untraced (memo_Contains v f (b4\<lparr>bd_probes := bd_probes b4 + 1\<rparr>))"
      by (rule Contains_trace [OF c(3)])
    then show ?thesis
    proof (cases rule: untraced_cases)
      case none
      then show ?thesis using go c erase_fields(1) [OF Cons.prems] by simp
    next
      case (some r b5 b6)
      obtain c' b7 b8 where c': "canceled v b5 = (c', b7)" "canceled v b6 = (c', b8)" "erase b7 = erase b8"
        by (rule canceled_trace [OF some(3)])
      show ?thesis
        using go c(1,2) c'(1,2) some(1,2) erase_fields(1) [OF Cons.prems] Cons.IH [OF some(3)] Cons.IH [OF c'(3)]
          erase_fields(4) [OF c'(3)]
        by (cases r) (auto split: bool.split)
    qed
  qed
qed simp

lemma observeDenied_trace:
  assumes "erase b1 = erase b2"
  shows "erase (observeDenied v r b1) = erase (observeDenied v r b2)"
proof -
  obtain c b3 b4 where c: "canceled v b1 = (c, b3)" "canceled v b2 = (c, b4)" "erase b3 = erase b4"
    by (rule canceled_trace [OF assms])
  show ?thesis
    using assms c erase_fields(2) [OF assms] erase_fields(3) [OF c(3)]
      probe_facts_trace [OF c(3), of v "bd_diagnosticFacts b4"]
    by (cases r; cases c) (simp_all add: observeDenied_def)
qed

lemma oblivious_observing [oblivious_intro]:
  assumes "oblivious m"
  shows "oblivious (observing v m)"
proof (rule obliviousI)
  fix b t
  have "untraced (m (b\<lparr>bd_trace := t\<rparr>)) = untraced (m b)" using assms by (simp add: oblivious_def)
  then show "untraced (observing v m (b\<lparr>bd_trace := t\<rparr>)) = untraced (observing v m b)"
  proof (cases rule: untraced_cases)
    case (some r b1 b2)
    note same = observeDenied_trace [OF some(3)]
    show ?thesis using some(1,2) same [of v r] by (simp add: observing_def)
  qed (simp add: observing_def)
qed

theorem oblivious_check: "oblivious (check v req)"
proof -
  have "oblivious (observing v (checkPermission v (evaluateExpression fuel v) req 0 []))" for fuel
    by (intro oblivious_observing oblivious_checkPermission oblivious_walk)
  then have "oblivious (andthen (poll v)
      (if \<not> declaresPermission (vw_compiled v) (rs_Type (rq_Resource req)) (rq_Permission req)
       then ret (decision False ''no rules defined'')
       else observing v (checkPermission v (evaluateExpression fuel v) req 0 [])))" for fuel
    by (intro oblivious_bind oblivious_poll) (simp add: oblivious_ret)
  then show ?thesis by (cases "ValidateCheckRequest req") (simp_all add: check_def oblivious_fail)
qed

end
