(* ===== verification/Model_Laws.thy ===== *)
theory Model_Laws
  imports Decision_Laws
begin

text \<open>
  What compiling guarantees: an expression that passed validation is copied unchanged and each of
  its leaves names declared things, so a model that compiles is well formed, every subject a
  traversed relation allows is a whole resource of a type that declares the permission, and every
  userset names a declared relation.  The search for circular
  dependencies reports none exactly when the dependency graph is acyclic.
\<close>

section \<open>Validated expressions\<close>

lemma fail_if_None [simp]: "fail_if b (invalid_expression msg) = None \<longleftrightarrow> \<not> b"
  by (simp add: fail_if_def invalid_expression_def)

definition leaf_valid :: "declarations \<Rightarrow> string \<Rightarrow> bool \<Rightarrow> expression \<Rightarrow> bool" where
  "leaf_valid d rt adhoc l \<longleftrightarrow> node_error adhoc l = None \<and> (\<exists>slots. leaf_error d rt adhoc l slots = None)"

lemma validated:
  "validate_node d rt adhoc e depth st = (None, st') \<Longrightarrow>
     copy_node e depth (fst st) = (e, fst st') \<and> visit_leaves e depth (fst st) = (leaves_of e, fst st') \<and>
     (\<forall>l\<in>set (leaves_of e). leaf_valid d rt adhoc l)"
  "validate_nodes d rt adhoc es depth st = (None, st') \<Longrightarrow>
     copy_nodes es depth (fst st) = (es, fst st') \<and>
     visit_all_leaves es depth (fst st) = (concat (map leaves_of es), fst st') \<and>
     (\<forall>e\<in>set es. \<forall>l\<in>set (leaves_of e). leaf_valid d rt adhoc l)"
proof (induction d rt adhoc e depth st and d rt adhoc es depth st
    arbitrary: st' and st' rule: validate_node_validate_nodes.induct)
  case (1 d rt adhoc anyOf allOf rel thr perm role cur res slot name rm bad depth nodes slots)
  let ?e = "Expression anyOf allOf rel thr perm role cur res slot name rm bad"
  have ok: "\<not> (depth > MaxExpressionDepth \<or> nodes + 1 > MaxExpressionNodes)" "node_error adhoc ?e = None"
    using "1.prems" by (auto simp: Let_def split: if_splits option.splits)
  have "truths [anyOf \<noteq> None, allOf \<noteq> None, rel \<noteq> [], thr \<noteq> [], role \<noteq> [], name \<noteq> []] = 1"
    using ok(2) by (simp add: node_error_def)
  then have one: "anyOf = None \<or> allOf = None"
    by (rule contrapos_pp) (simp add: truths_def)
  have composite: "selectors ?e = 0 \<and> cs \<noteq> [] \<and> validate_nodes d rt adhoc cs (depth + 1) (nodes + 1, slots) = (None, st')"
    if "anyOf = Some cs \<or> anyOf = None \<and> allOf = Some cs" for cs
    using "1.prems" ok that by (auto simp: Let_def invalid_expression_def split: if_splits)
  consider "anyOf = None" "allOf = None" | cs where "anyOf = Some cs" "allOf = None" | cs where "anyOf = None" "allOf = Some cs"
    using one by (cases anyOf; cases allOf) auto
  then show ?case
  proof cases
    case 1
    have "\<exists>slots'. leaf_error d rt adhoc ?e slots' = None" "fst st' = nodes + 1"
      using "1.prems" 1 ok by (auto simp: Let_def split: option.splits)
    then show ?thesis using ok 1 by (auto simp: Let_def leaf_valid_def)
  next
    case (2 cs)
    then have v: "validate_nodes d rt adhoc cs (depth + 1) (nodes + 1, slots) = (None, st')"
      and s: "selectors ?e = 0" "cs \<noteq> []" using composite by auto
    have "copy_nodes cs (depth + 1) (nodes + 1) = (cs, fst st') \<and>
        visit_all_leaves cs (depth + 1) (nodes + 1) = (concat (map leaves_of cs), fst st') \<and>
        (\<forall>e\<in>set cs. \<forall>l\<in>set (leaves_of e). leaf_valid d rt adhoc l)"
      using "1.IH"(2) [OF refl refl ok] v s 2 by simp
    then show ?thesis using ok(1) 2 by (auto simp: Let_def)
  next
    case (3 cs)
    then have v: "validate_nodes d rt adhoc cs (depth + 1) (nodes + 1, slots) = (None, st')"
      and s: "selectors ?e = 0" "cs \<noteq> []" using composite by auto
    have "copy_nodes cs (depth + 1) (nodes + 1) = (cs, fst st') \<and>
        visit_all_leaves cs (depth + 1) (nodes + 1) = (concat (map leaves_of cs), fst st') \<and>
        (\<forall>e\<in>set cs. \<forall>l\<in>set (leaves_of e). leaf_valid d rt adhoc l)"
      using "1.IH"(1) [OF refl refl ok] v s 3 by simp
    then show ?thesis using ok(1) 3 by (auto simp: Let_def)
  qed
next
  case (3 d rt adhoc e es depth st)
  obtain err st1 where e: "validate_node d rt adhoc e depth st = (err, st1)" by (cases "validate_node d rt adhoc e depth st")
  then have "err = None" "validate_nodes d rt adhoc es depth st1 = (None, st')"
    using "3.prems" by (auto split: option.splits)
  with e "3.IH" show ?case by auto
qed simp

lemma leaves_are_leaves: "l \<in> set (leaves_of e) \<Longrightarrow> is_leaf l"
  by (induction e rule: leaves_of.induct) (auto simp: is_leaf_def split: if_splits option.splits)

lemma validated_expression:
  assumes "validateExpressionTree e d rt adhoc = (slots, None)"
  shows "copyExpression e = e" "expressionLeaves e = leaves_of e" "\<forall>l\<in>set (leaves_of e). leaf_valid d rt adhoc l"
proof -
  obtain st where "validate_node d rt adhoc e 0 (0, []) = (None, st)"
    using assms by (auto simp: validateExpressionTree_def split: prod.splits)
  from validated(1) [OF this] show "copyExpression e = e" "expressionLeaves e = leaves_of e"
    "\<forall>l\<in>set (leaves_of e). leaf_valid d rt adhoc l"
    by (simp_all add: copyExpression_def expressionLeaves_def)
qed

section \<open>Models that compile\<close>

definition schema_ok :: "policy_model \<Rightarrow> bool" where
  "schema_ok schema \<longleftrightarrow>
     map_ok (pm_ResourceTypes schema) \<and>
     (\<forall>(rt, t)\<in>set (pm_ResourceTypes schema). map_ok (td_Relations t) \<and> map_ok (td_Permissions t))"

lemma map_of_map_keyed: "map_get (map (\<lambda>(k, v). (k, f k v)) m) k = map_option (f k) (map_get m k)"
  by (induction m) auto

lemma error_line_None [simp]: "error_line prefix e = [] \<longleftrightarrow> e = None"
  by (simp add: error_line_def split: option.splits)

lemma note_if_None [simp]: "note_if b msg = [] \<longleftrightarrow> \<not> b"
  by (simp add: note_if_def)

lemma navigational_subjects:
  "subject_notes schema prefix True subs seen = [] \<Longrightarrow> sub \<in> set subs \<Longrightarrow>
     snd sub = [] \<and> map_get (pm_ResourceTypes schema) (fst sub) \<noteq> None"
  by (induction schema prefix True subs seen rule: subject_notes.induct) (auto split: option.splits if_splits)

lemma Compile_Inr:
  assumes "Compile schema = Inr c"
  shows "compile_errors schema = []" "c = map (\<lambda>(rt, t). (rt, compile_type schema rt t)) (pm_ResourceTypes schema)"
  using assms by (auto simp: Compile_def split: list.splits)

lemma compiled_checks:
  assumes "Compile schema = Inr c"
  shows "\<forall>(rt, t)\<in>set (pm_ResourceTypes schema). \<forall>(p, e)\<in>set (td_Permissions t). validateExpression e schema rt False = None"
    "\<forall>(rt, t)\<in>set (pm_ResourceTypes schema). compileRelations schema rt t = []"
    "detectCircularThrough schema = []" "detectUnsatisfiable schema = []"
proof -
  have errs: "compile_errors schema = []" by (rule Compile_Inr [OF assms])
  then have names: "name_errors schema = []" by (simp add: compile_errors_def)
  then show valid: "\<forall>(rt, t)\<in>set (pm_ResourceTypes schema). \<forall>(p, e)\<in>set (td_Permissions t). validateExpression e schema rt False = None"
    unfolding name_errors_def concat_eq_Nil_conv by (auto split: prod.splits)
  have "\<not> invalidExpression schema"
    unfolding invalidExpression_def list_ex_iff using valid by fastforce
  then show "\<forall>(rt, t)\<in>set (pm_ResourceTypes schema). compileRelations schema rt t = []"
    "detectCircularThrough schema = []" "detectUnsatisfiable schema = []"
    using errs by (auto simp: compile_errors_def concat_eq_Nil_conv)
qed

lemma compiled_valid:
  assumes "Compile schema = Inr c" "(rt, t) \<in> set (pm_ResourceTypes schema)"
  shows "(p, e) \<in> set (td_Permissions t) \<Longrightarrow> validateExpression e schema rt False = None"
    and "(rel, subs) \<in> set (td_Relations t) \<Longrightarrow>
      subject_notes schema (rt @ ''.'' @ rel @ '': '') ((rt, rel) \<in> set (navRefs schema)) subs [] = []"
proof -
  show "(p, e) \<in> set (td_Permissions t) \<Longrightarrow> validateExpression e schema rt False = None"
    using compiled_checks(1) [OF assms(1)] assms(2) by auto
  have "compileRelations schema rt t = []" using compiled_checks(2) [OF assms(1)] assms(2) by auto
  then show "(rel, subs) \<in> set (td_Relations t) \<Longrightarrow>
      subject_notes schema (rt @ ''.'' @ rel @ '': '') ((rt, rel) \<in> set (navRefs schema)) subs [] = []"
    unfolding compileRelations_def concat_eq_Nil_conv by fastforce
qed

lemma compiled_declares:
  assumes "Compile schema = Inr c"
  shows "declaresPermission c rt p = dc_permission (model_declarations schema) rt p"
  unfolding Compile_Inr(2) [OF assms]
  by (auto simp: declaresPermission_def map_of_map_keyed compile_type_def Let_def model_declarations_def
      split: option.splits)

lemma Allows_schema:
  assumes "Compile schema = Inr c" "Allows (compiled_readModel c) rt rel st srel" "schema_ok schema"
  obtains t subs where "map_get (pm_ResourceTypes schema) rt = Some t" "map_get (td_Relations t) rel = Some subs"
    "(st, srel) \<in> set subs"
proof -
  obtain t where t: "(rt, t) \<in> set (pm_ResourceTypes schema)"
    and "\<exists>r. (rel, r) \<in> set (ct_relations (compile_type schema rt t)) \<and> (st, srel) \<in> set (cr_subjects r)"
    using assms(2) unfolding Allows_compiled Compile_Inr(2) [OF assms(1)] by auto
  then obtain subs where s: "(rel, subs) \<in> set (td_Relations t)" "(st, srel) \<in> set subs"
    by (auto simp: compile_type_def Let_def compile_relation_def)
  have "map_get (pm_ResourceTypes schema) rt = Some t" "map_get (td_Relations t) rel = Some subs"
    using t s(1) assms(3) by (auto simp: schema_ok_def)
  then show thesis using s(2) that by blast
qed

lemma mem_navRefs:
  assumes "(rt, t) \<in> set (pm_ResourceTypes schema)" "(p, e) \<in> set (td_Permissions t)" "ex_Through l \<noteq> []"
    "l \<in> set (expressionLeaves e)"
  shows "(rt, ex_Through l) \<in> set (navRefs schema)"
  unfolding navRefs_def set_concat set_map image_image
proof (rule UN_I [OF assms(1)], unfold prod.case set_concat set_map image_image, rule UN_I [OF assms(2)],
    unfold prod.case set_concat set_map image_image, rule UN_I [OF assms(4)])
  show "(rt, ex_Through l) \<in> set (if ex_Through l \<noteq> [] then [(rt, ex_Through l)] else [])" using assms(3) by simp
qed

lemma userset_subjects:
  "subject_notes schema prefix nav subs seen = [] \<Longrightarrow> sub \<in> set subs \<Longrightarrow> snd sub \<noteq> [] \<Longrightarrow>
     \<exists>t. map_get (pm_ResourceTypes schema) (fst sub) = Some t \<and> map_get (td_Relations t) (snd sub) \<noteq> None"
  by (induction schema prefix nav subs seen rule: subject_notes.induct) (auto split: option.splits if_splits)

text \<open>The declared subjects of a relation, in the schema and in the compiled model.\<close>

lemma compiled_subjects:
  assumes "Compile schema = Inr c"
  shows "relationSubjects c rt rel =
    (case map_get (pm_ResourceTypes schema) rt of
       None \<Rightarrow> ([], False, False)
     | Some t \<Rightarrow> (case map_get (td_Relations t) rel of None \<Rightarrow> ([], True, False) | Some subs \<Rightarrow> (dedupeSort subs, True, True)))"
  unfolding Compile_Inr(2) [OF assms] relationSubjects_def
  by (auto simp: map_of_map_keyed compile_type_def Let_def compile_relation_def split: option.splits)

lemma compiled_types: "Compile schema = Inr c \<Longrightarrow> map_get c rt \<noteq> None \<longleftrightarrow> map_get (pm_ResourceTypes schema) rt \<noteq> None"
  using map_of_map_keyed [of "compile_type schema" "pm_ResourceTypes schema" rt] Compile_Inr(2) [of schema c] by simp

lemma compiled_subjects_nonempty:
  assumes "Compile schema = Inr c" "map_get (pm_ResourceTypes schema) rt = Some t" "map_get (td_Relations t) rel = Some subs"
  shows "subs \<noteq> []"
proof -
  have "compileRelations schema rt t = []"
    using compiled_checks(2) [OF assms(1)] map_of_SomeD [OF assms(2)] by auto
  then show ?thesis
    using map_of_SomeD [OF assms(3)] unfolding compileRelations_def concat_eq_Nil_conv by fastforce
qed

text \<open>
  What a leaf may name: it has no runtime slot, an exact resource only with a role and then a valid one;
  a named permission the type declares; a relation the type declares with at least one allowed subject;
  a traversal over such a relation all of whose allowed subjects are whole resources, never usersets, of
  declared types that declare the permission asked of them.
\<close>

definition leaf_safe :: "compiled_model \<Rightarrow> string \<Rightarrow> expression \<Rightarrow> bool" where
  "leaf_safe c rt l \<longleftrightarrow>
     is_leaf l \<and> ex_ResourceSlot l = None \<and>
     (\<forall>r. ex_Resource l = Some r \<longrightarrow> ex_RoleName l \<noteq> [] \<and> Scope_Validate (On (rs_Type r) (rs_ID r)) = None) \<and>
     (if ex_RoleName l \<noteq> [] then True
      else if ex_NamedPermission l \<noteq> [] then declaresPermission c rt (ex_NamedPermission l)
      else if ex_Through l \<noteq> [] then
        \<exists>subs. relationSubjects c rt (ex_Through l) = (subs, True, True) \<and> subs \<noteq> [] \<and>
          (\<forall>(st, srel)\<in>set subs. srel = [] \<and> map_get c st \<noteq> None \<and> declaresPermission c st (ex_Permission l))
      else \<exists>subs. relationSubjects c rt (ex_Relation l) = (subs, True, True) \<and> subs \<noteq> [])"

definition usersets_declared :: "compiled_model \<Rightarrow> bool" where
  "usersets_declared c \<longleftrightarrow>
     (\<forall>rt rel subs st srel. relationSubjects c rt rel = (subs, True, True) \<longrightarrow> (st, srel) \<in> set subs \<longrightarrow> srel \<noteq> [] \<longrightarrow>
        (\<exists>subs'. relationSubjects c st srel = (subs', True, True)))"

lemma compiled_usersets: "Compile schema = Inr c \<Longrightarrow> usersets_declared c"
  unfolding usersets_declared_def
proof (intro allI impI)
  fix rt rel subs st srel
  assume c: "Compile schema = Inr c" and rel: "relationSubjects c rt rel = (subs, True, True)"
    and sub: "(st, srel) \<in> set subs" "srel \<noteq> []"
  obtain t ss where t: "map_get (pm_ResourceTypes schema) rt = Some t" "map_get (td_Relations t) rel = Some ss" "subs = dedupeSort ss"
    using rel unfolding compiled_subjects [OF c] by (auto split: option.splits)
  then show "\<exists>subs'. relationSubjects c st srel = (subs', True, True)"
    using userset_subjects [OF compiled_valid(2) [OF c map_of_SomeD [OF t(1)] map_of_SomeD [OF t(2)]], of "(st, srel)"] sub
    unfolding compiled_subjects [OF c] by auto
qed

lemma through_ok:
  assumes "through_error d adhoc perm subs = None" "sub \<in> set subs" "dc_resource d (fst sub)"
  shows "dc_permission d (fst sub) perm"
proof -
  have "fail_if (\<exists>s\<in>set (filter (\<lambda>s. dc_resource d (fst s)) subs). \<not> dc_permission d (fst s) perm)
      (invalid_expression ''Through permission not found on target type(s)'') = None"
    using assms(1) unfolding through_error_def Let_def first_error_None by simp
  then show ?thesis using assms(2,3) by (cases sub) auto
qed

lemma compiled_leaf_safe:
  assumes c: "Compile schema = Inr c"
    and t: "map_get (pm_ResourceTypes schema) rt = Some t" "(p, e) \<in> set (td_Permissions t)"
    and l: "l \<in> set (leaves_of e)"
  shows "leaf_safe c rt l"
proof -
  let ?d = "model_declarations schema"
  have mem: "(rt, t) \<in> set (pm_ResourceTypes schema)" using t(1) by (rule map_of_SomeD)
  have v: "validateExpressionTree e ?d rt False = (fst (validateExpressionTree e ?d rt False), None)"
    using compiled_valid(1) [OF c mem t(2)] by (simp add: validateExpression_def prod_eq_iff)
  obtain slots where valid: "node_error False l = None" "leaf_error ?d rt False l slots = None"
    using validated_expression(3) [OF v] l by (auto simp: leaf_valid_def)
  have leaf: "is_leaf l" by (rule leaves_are_leaves [OF l])
  have slot: "ex_ResourceSlot l = None" using valid(1) by (simp add: node_error_def)
  have exact: "Scope_Validate (On (rs_Type r) (rs_ID r)) = None" if "ex_Resource l = Some r" for r
    using valid(2) that by (simp add: leaf_error_def Let_def)
  have graph: "ex_Resource l = None" if "ex_RoleName l = []"
  proof -
    have "selectors l = 0" using valid(1) that by (simp add: node_error_def)
    then show ?thesis by (auto simp: selectors_def truths_def split: if_splits)
  qed
  then have target: "target_type l rt = rt" if "ex_RoleName l = []" using that slot by (simp add: target_type_def)
  have named: "declaresPermission c rt (ex_NamedPermission l)" if "ex_RoleName l = []" "ex_NamedPermission l \<noteq> []"
    using valid(2) that target by (simp add: leaf_error_def Let_def compiled_declares [OF c])
  have "truths [ex_AnyOf l \<noteq> None, ex_AllOf l \<noteq> None, ex_Relation l \<noteq> [], ex_Through l \<noteq> [], ex_RoleName l \<noteq> [],
      ex_NamedPermission l \<noteq> []] = 1"
    using valid(1) by (simp add: node_error_def)
  then have one: "ex_Relation l \<noteq> [] \<longleftrightarrow> ex_Through l = [] \<and> ex_RoleName l = [] \<and> ex_NamedPermission l = []"
    using leaf by (cases "ex_Relation l = []"; cases "ex_Through l = []"; cases "ex_RoleName l = []";
        cases "ex_NamedPermission l = []") (simp_all add: is_leaf_def truths_def)
  have declared: "\<exists>subs. map_get (td_Relations t) (if ex_Relation l = [] then ex_Through l else ex_Relation l) = Some subs"
    if g: "ex_RoleName l = []" "ex_NamedPermission l = []"
    using valid(2) g target t(1)
    by (cases "map_get (td_Relations t) (if ex_Relation l = [] then ex_Through l else ex_Relation l)")
      (simp_all add: leaf_error_def Let_def model_declarations_def invalid_expression_def)
  have through: "\<exists>subs. relationSubjects c rt (ex_Through l) = (subs, True, True) \<and> subs \<noteq> [] \<and>
      (\<forall>(st, srel)\<in>set subs. srel = [] \<and> map_get c st \<noteq> None \<and> declaresPermission c st (ex_Permission l))"
    if g: "ex_RoleName l = []" "ex_NamedPermission l = []" "ex_Through l \<noteq> []"
  proof -
    have rel: "ex_Relation l = []" using one g by simp
    then obtain subs where subs: "map_get (td_Relations t) (ex_Through l) = Some subs" using declared g by auto
    have "(rt, ex_Through l) \<in> set (navRefs schema)"
      using mem t(2) g(3) by (rule mem_navRefs) (simp add: validated_expression(2) [OF v] l)
    then have nav: "snd sub = [] \<and> map_get (pm_ResourceTypes schema) (fst sub) \<noteq> None" if "sub \<in> set subs" for sub
      using navigational_subjects [OF _ that] compiled_valid(2) [OF c mem map_of_SomeD [OF subs]] by fastforce
    have "through_error ?d False (ex_Permission l) subs = None"
      using valid(2) g target subs t(1) rel by (simp add: leaf_error_def Let_def model_declarations_def)
    note perm = through_ok [OF this]
    have "srel = [] \<and> map_get c st \<noteq> None \<and> declaresPermission c st (ex_Permission l)" if "(st, srel) \<in> set subs" for st srel
    proof -
      have "dc_resource ?d st" using nav [OF that] by (simp add: model_declarations_def)
      then show ?thesis
        using nav [OF that] perm [OF that] unfolding compiled_types [OF c] compiled_declares [OF c] by simp
    qed
    moreover have "relationSubjects c rt (ex_Through l) = (dedupeSort subs, True, True)"
      using t(1) subs by (simp add: compiled_subjects [OF c])
    moreover have "dedupeSort subs \<noteq> []"
      using compiled_subjects_nonempty [OF c t(1) subs] by (metis set_dedupeSort set_empty)
    ultimately show ?thesis by (intro exI [of _ "dedupeSort subs"]) auto
  qed
  have direct: "\<exists>subs. relationSubjects c rt (ex_Relation l) = (subs, True, True) \<and> subs \<noteq> []"
    if g: "ex_RoleName l = []" "ex_NamedPermission l = []" "ex_Through l = []"
  proof -
    have "ex_Relation l \<noteq> []" using one g by simp
    then obtain subs where subs: "map_get (td_Relations t) (ex_Relation l) = Some subs" using declared g by auto
    have "dedupeSort subs \<noteq> []"
      using compiled_subjects_nonempty [OF c t(1) subs] by (metis set_dedupeSort set_empty)
    then show ?thesis using t(1) subs by (simp add: compiled_subjects [OF c])
  qed
  consider "ex_RoleName l \<noteq> []" | "ex_RoleName l = []" "ex_NamedPermission l \<noteq> []"
    | "ex_RoleName l = []" "ex_NamedPermission l = []" "ex_Through l \<noteq> []"
    | "ex_RoleName l = []" "ex_NamedPermission l = []" "ex_Through l = []"
    by blast
  then show ?thesis
  proof cases
    case 1
    then show ?thesis using leaf slot exact by (simp add: leaf_safe_def)
  next
    case 2
    then show ?thesis using leaf slot graph named by (simp add: leaf_safe_def)
  next
    case 3
    then show ?thesis using leaf slot graph through by (simp add: leaf_safe_def)
  next
    case 4
    then show ?thesis using leaf slot graph direct by (simp add: leaf_safe_def)
  qed
qed

lemma compiled_leaf:
  assumes c: "Compile schema = Inr c" and ok: "schema_ok schema"
    and t: "map_get (pm_ResourceTypes schema) rt = Some t" "(p, e) \<in> set (td_Permissions t)"
    and l: "l \<in> set (leaves_of e)"
  shows "leaf_wf c rt l"
proof -
  have safe: "leaf_safe c rt l" by (rule compiled_leaf_safe [OF c t l])
  then have target: "target_type l rt = rt" if "ex_RoleName l = []"
    using that by (cases "ex_Resource l") (auto simp: leaf_safe_def target_type_def)
  have "declaresPermission c st (ex_Permission l)"
    if g: "ex_RoleName l = []" "ex_NamedPermission l = []" "ex_Through l \<noteq> []"
      and st: "Allows (compiled_readModel c) rt (ex_Through l) st []" for st
  proof -
    obtain subs where "map_get (td_Relations t) (ex_Through l) = Some subs" "(st, []) \<in> set subs"
      using Allows_schema [OF c st ok] t(1) by auto
    then have "relationSubjects c rt (ex_Through l) = (dedupeSort subs, True, True)" "(st, []) \<in> set (dedupeSort subs)"
      using t(1) by (simp_all add: compiled_subjects [OF c])
    then show ?thesis using safe g by (auto simp: leaf_safe_def)
  qed
  moreover have "ex_Relation l \<noteq> []" if "ex_RoleName l = []" "ex_NamedPermission l = []" "ex_Through l = []"
  proof
    assume none: "ex_Relation l = []"
    have "validateExpressionTree e (model_declarations schema) rt False =
        (fst (validateExpressionTree e (model_declarations schema) rt False), None)"
      using compiled_valid(1) [OF c map_of_SomeD [OF t(1)] t(2)] by (simp add: validateExpression_def prod_eq_iff)
    from validated_expression(3) [OF this] have "node_error False l = None" using l by (auto simp: leaf_valid_def)
    then show False using that none safe by (simp add: node_error_def leaf_safe_def is_leaf_def truths_def)
  qed
  ultimately show ?thesis using safe target by (auto simp: leaf_wf_def leaf_safe_def)
qed

theorem Compile_wf:
  assumes c: "Compile schema = Inr c" and ok: "schema_ok schema"
  shows "model_wf c"
proof -
  have type: "type_wf c rt (compile_type schema rt t)" if mem: "(rt, t) \<in> set (pm_ResourceTypes schema)" for rt t
  proof -
    have t: "map_get (pm_ResourceTypes schema) rt = Some t" using ok mem by (simp add: schema_ok_def)
    have "permission_wf c rt \<lparr>cp_checks = graphChecks (copyExpression e), cp_expression = copyExpression e\<rparr>"
      if "(p, e) \<in> set (td_Permissions t)" for p e
    proof -
      have "validateExpressionTree e (model_declarations schema) rt False =
          (fst (validateExpressionTree e (model_declarations schema) rt False), None)"
        using compiled_valid(1) [OF c mem that] by (simp add: validateExpression_def prod_eq_iff)
      from validated_expression(1) [OF this] show ?thesis
        using compiled_leaf [OF c ok t that] by (simp add: permission_wf_def expr_wf_def)
    qed
    moreover have "map_ok (td_Relations t)" using ok mem by (auto simp: schema_ok_def)
    ultimately show ?thesis
      by (auto simp: type_wf_def compile_type_def Let_def relation_wf_def compile_relation_def list_ex_iff
          comp_def case_prod_unfold)
  qed
  have keys: "map fst c = map fst (pm_ResourceTypes schema)"
    unfolding Compile_Inr(2) [OF c] by (simp add: comp_def case_prod_unfold)
  have "map_ok c" using ok by (simp add: keys schema_ok_def)
  moreover have "type_wf c rt t" if member: "(rt, t) \<in> set c" for rt t
  proof -
    obtain def where "(rt, def) \<in> set (pm_ResourceTypes schema)" "t = compile_type schema rt def"
      using member unfolding Compile_Inr(2) [OF c] by auto
    then show ?thesis using type by simp
  qed
  ultimately show ?thesis unfolding model_wf_def by blast
qed

section \<open>Circular dependencies\<close>

definition edges :: "('k, 'k list) go_map \<Rightarrow> ('k \<times> 'k) set" where
  "edges g = {(k, k'). \<exists>ts. map_get g k = Some ts \<and> k' \<in> set ts}"

text \<open>The finished keys are in topological order: a key's targets finished before it.\<close>

fun settled :: "('k, 'k list) go_map \<Rightarrow> 'k list \<Rightarrow> bool" where
  "settled g [] \<longleftrightarrow> True"
| "settled g (k # ks) \<longleftrightarrow> edges g `` {k} \<subseteq> set ks \<and> k \<notin> set ks \<and> settled g ks"

definition is_cycle :: "('k, 'k list) go_map \<Rightarrow> 'k list \<Rightarrow> bool" where
  "is_cycle g c \<longleftrightarrow> (\<exists>p k. c = p @ [k] \<and> k \<in> set p \<and> successively (\<lambda>a b. (a, b) \<in> edges g) c)"

lemma visit_found:
  "fst (visit_key g path fin key) = Some c \<Longrightarrow> successively (\<lambda>a b. (a, b) \<in> edges g) (path @ [key]) \<Longrightarrow> is_cycle g c"
  "fst (visit_keys g path fin keys) = Some c \<Longrightarrow>
     \<forall>k\<in>set keys. successively (\<lambda>a b. (a, b) \<in> edges g) (path @ [k]) \<Longrightarrow> is_cycle g c"
proof (induction g path fin key and g path fin keys arbitrary: c and c rule: visit_key_visit_keys.induct)
  case (1 g path fin key)
  show ?case
  proof (cases "key \<in> set path")
    case True
    then show ?thesis using 1(2,3) by (auto simp: visit_key.simps is_cycle_def)
  next
    case False
    then obtain ts where ts: "key \<notin> set fin" "map_get g key = Some ts"
      using 1(2) by (auto simp: visit_key.simps split: if_splits option.splits)
    then have "fst (visit_keys g (path @ [key]) fin ts) = Some c"
      using 1(2) False by (auto simp: visit_key.simps split: prod.splits option.splits)
    moreover have "\<forall>k\<in>set ts. successively (\<lambda>a b. (a, b) \<in> edges g) ((path @ [key]) @ [k])"
      using 1(3) ts(2) by (auto simp: successively_append_iff edges_def)
    ultimately show ?thesis using 1(1) [OF False ts] by blast
  qed
next
  case (3 g path fin key keys)
  show ?case
  proof (cases "visit_key g path fin key")
    case (Pair r fin')
    show ?thesis
    proof (cases r)
      case (Some c')
      then show ?thesis using 3(1) [of c] 3(3,4) Pair by simp
    next
      case None
      then show ?thesis using 3(2) [OF Pair [symmetric]] 3(3,4) Pair by simp
    qed
  qed
qed simp

lemma visit_settled:
  "visit_key g path fin key = (None, fin') \<Longrightarrow> settled g fin \<Longrightarrow> set path \<inter> set fin = {} \<Longrightarrow>
     settled g fin' \<and> set path \<inter> set fin' = {} \<and> insert key (set fin) \<subseteq> set fin'"
  "visit_keys g path fin keys = (None, fin') \<Longrightarrow> settled g fin \<Longrightarrow> set path \<inter> set fin = {} \<Longrightarrow>
     settled g fin' \<and> set path \<inter> set fin' = {} \<and> set keys \<union> set fin \<subseteq> set fin'"
proof (induction g path fin key and g path fin keys arbitrary: fin' and fin' rule: visit_key_visit_keys.induct)
  case (1 g path fin key)
  have new: "key \<notin> set path" using 1(2) by (auto simp: visit_key.simps)
  show ?case
  proof (cases "key \<in> set fin")
    case True
    then show ?thesis using 1(2-4) new by (auto simp: visit_key.simps)
  next
    case False
    show ?thesis
    proof (cases "map_get g key")
      case None
      then show ?thesis using 1(2-4) new False by (auto simp: visit_key.simps edges_def)
    next
      case (Some ts)
      obtain fin1 where v: "visit_keys g (path @ [key]) fin ts = (None, fin1)" "fin' = key # fin1"
        using 1(2) new False Some by (auto simp: visit_key.simps split: prod.splits option.splits)
      have "set (path @ [key]) \<inter> set fin = {}" using 1(4) False by auto
      then have "settled g fin1" "set (path @ [key]) \<inter> set fin1 = {}" "set ts \<union> set fin \<subseteq> set fin1"
        using 1(1) [OF new False Some v(1) 1(3)] by blast+
      moreover have "edges g `` {key} = set ts" using Some by (auto simp: edges_def)
      ultimately show ?thesis using v(2) new by auto
    qed
  qed
next
  case (3 g path fin key keys)
  obtain fin1 where v: "visit_key g path fin key = (None, fin1)" "visit_keys g path fin1 keys = (None, fin')"
    using 3(3) by (auto split: prod.splits option.splits)
  have "settled g fin1 \<and> set path \<inter> set fin1 = {} \<and> insert key (set fin) \<subseteq> set fin1"
    using 3(1) [OF v(1) 3(4,5)] .
  moreover from this have "settled g fin' \<and> set path \<inter> set fin' = {} \<and> set keys \<union> set fin1 \<subseteq> set fin'"
    using 3(2) [OF v(1) [symmetric] refl v(2)] by blast
  ultimately show ?case by auto
qed simp

lemma settled_edge: "settled g ks \<Longrightarrow> k \<in> set ks \<Longrightarrow> (k, k') \<in> edges g \<Longrightarrow> k' \<in> set ks"
  by (induction ks) auto

lemma settled_below: "settled g ks \<Longrightarrow> k \<in> set ks \<Longrightarrow> (k, k') \<in> (edges g)\<^sup>+ \<Longrightarrow> k' \<noteq> k"
proof (induction ks)
  case (Cons x ks)
  show ?case
  proof (cases "k = x")
    case True
    from Cons.prems(3) True have "k' \<in> set ks"
    proof (induction rule: trancl_induct)
      case (base y)
      then show ?case using Cons.prems(1) by auto
    next
      case (step y z)
      then show ?case using settled_edge [of g ks y z] Cons.prems(1) by simp
    qed
    then show ?thesis using Cons.prems(1) True by auto
  next
    case False
    then show ?thesis using Cons by auto
  qed
qed simp

lemma is_cycle_trancl: "is_cycle g c \<Longrightarrow> \<exists>k. (k, k) \<in> (edges g)\<^sup>+"
proof -
  assume "is_cycle g c"
  then obtain p k where c: "c = p @ [k]" "k \<in> set p" "successively (\<lambda>a b. (a, b) \<in> edges g) c"
    by (auto simp: is_cycle_def)
  then obtain xs ys where "p = xs @ k # ys" by (auto dest: split_list)
  with c have "successively (\<lambda>a b. (a, b) \<in> edges g) (k # ys @ [k])"
    by (simp add: successively_append_iff)
  moreover have "successively (\<lambda>a b. (a, b) \<in> edges g) (z # ys @ [y]) \<Longrightarrow> (z, y) \<in> (edges g)\<^sup>+" for z y
    by (induction ys arbitrary: z) (auto intro: trancl_into_trancl2)
  ultimately have "(k, k) \<in> (edges g)\<^sup>+" by blast
  then show ?thesis by blast
qed

lemma findThroughCycle_None: "findThroughCycle g = None \<longleftrightarrow> acyclic (edges g)"
proof
  assume "findThroughCycle g = None"
  then obtain fin where v: "visit_keys g [] [] (sort (map fst g)) = (None, fin)"
    by (auto simp: findThroughCycle_def prod_eq_iff)
  have fin: "settled g fin" "set (map fst g) \<subseteq> set fin"
    using visit_settled(2) [OF v] by auto
  have "(k, k) \<notin> (edges g)\<^sup>+" for k
  proof
    assume k: "(k, k) \<in> (edges g)\<^sup>+"
    then obtain k' where "(k, k') \<in> edges g" using converse_tranclE by metis
    then have "k \<in> set (map fst g)" by (force simp: edges_def dest: map_of_SomeD)
    then show False using settled_below [OF fin(1) _ k] fin(2) by blast
  qed
  then show "acyclic (edges g)" by (simp add: acyclic_def)
next
  assume "acyclic (edges g)"
  then show "findThroughCycle g = None"
    using visit_found(2) [of g "[]" "[]" "sort (map fst g)"] is_cycle_trancl
    by (cases "findThroughCycle g") (force simp: findThroughCycle_def acyclic_def)+
qed

lemma findThroughCycle_Some: "findThroughCycle g = Some c \<Longrightarrow> is_cycle g c"
  using visit_found(2) [of g "[]" "[]" "sort (map fst g)" c] by (simp add: findThroughCycle_def)

lemma compiled_acyclic: "Compile schema = Inr c \<Longrightarrow> acyclic (edges (throughGraph schema))"
  using compiled_checks(3) [of schema c] findThroughCycle_None [of "throughGraph schema"]
  by (simp add: detectCircularThrough_def split: option.splits)

section \<open>Properties\<close>


text \<open>A small schema that compiles.\<close>

definition tiny_schema :: policy_model where
  "tiny_schema =
     \<lparr>pm_ResourceTypes =
        [(''doc'', \<lparr>td_Relations = [(''parent'', [(''dir'', [])])], td_Permissions = [(''view'', Through ''parent'' ''view'')]\<rparr>),
         (''dir'', \<lparr>td_Relations = [(''viewer'', [(''user'', [])])], td_Permissions = [(''view'', Direct ''viewer'')]\<rparr>)],
      pm_assemblyErrors = []\<rparr>"

lemma tiny_compiles: "\<exists>c. Compile tiny_schema = Inr c"
proof -
  have "compile_errors tiny_schema = []" by code_simp
  then show ?thesis by (simp add: Compile_def)
qed



end
