(* ===== verification/Decisions.thy ===== *)
theory Decisions
  imports Decision_Budget Decision_Trace Model_Laws
begin

text \<open>
  The entry points of the decision engine over the two graph readers, and what they return:
  a decision is exactly what the model grants over the facts of the snapshot, it is reached within
  the limits, and asking for an explanation does not change it.
\<close>

section \<open>What a request asks\<close>

definition authorized :: "tuple set \<Rightarrow> compiled_model \<Rightarrow> check_request \<Rightarrow> bool" where
  "authorized F c req \<longleftrightarrow>
     declaresPermission c (rs_Type (rq_Resource req)) (rq_Permission req) \<and>
     grants F c (rq_Principal req) (rq_Resource req)
       (permission_expression c (rs_Type (rq_Resource req)) (rq_Permission req))"

section \<open>Entry points in a coherent view\<close>

definition memo_invariant :: "(budget \<Rightarrow> bool) \<Rightarrow> bool" where
  "memo_invariant I \<longleftrightarrow> (\<forall>b b'. memo_of b' = memo_of b \<longrightarrow> I b = I b')"

lemma memo_invariantD: "memo_invariant I \<Longrightarrow> memo_of b' = memo_of b \<Longrightarrow> I b = I b'"
  unfolding memo_invariant_def by blast

lemma upholds_canceled: "memo_invariant I \<Longrightarrow> canceled v b = (c, b') \<Longrightarrow> I b' = I b"
  by (rule memo_invariantD) (auto simp: canceled_def memo_of_def)

lemma probe_keeps:
  assumes quiet: "memo_invariant I"
    and reads: "\<And>t. upholds I (memo_Contains v t) (\<lambda>_. True)"
  shows "I b \<Longrightarrow> I (probe_facts v fs b)"
proof (induction fs arbitrary: b)
  case (Cons f fs)
  obtain c b1 where c: "canceled v b = (c, b1)" by fastforce
  have b1: "I b1" using upholds_canceled [OF quiet c] Cons.prems by simp
  then have b2: "I (b1\<lparr>bd_probes := bd_probes b1 + 1\<rparr>)"
    using memo_invariantD [OF quiet, of "b1\<lparr>bd_probes := bd_probes b1 + 1\<rparr>" b1] by (simp add: memo_of_def)
  show ?case
  proof (cases "memo_Contains v f (b1\<lparr>bd_probes := bd_probes b1 + 1\<rparr>)")
    case None
    then show ?thesis using Cons.prems c b1 by (auto split: bool.split)
  next
    case (Some out)
    then obtain r b3 where r: "memo_Contains v f (b1\<lparr>bd_probes := bd_probes b1 + 1\<rparr>) = Some (r, b3)" by (cases out) simp
    have b3: "I b3" by (rule upholdsD(1) [OF reads b2 r])
    obtain c' b4 where c': "canceled v b3 = (c', b4)" by fastforce
    have b4: "I b4" using upholds_canceled [OF quiet c'] b3 by simp
    then have b5: "I (b4\<lparr>bd_globalGrant := True\<rparr>)"
      using memo_invariantD [OF quiet, of "b4\<lparr>bd_globalGrant := True\<rparr>" b4] by (simp add: memo_of_def)
    show ?thesis
      using Cons.prems Cons.IH [OF b3] Cons.IH [OF b4] c b1 r c' b5 by (auto split: bool.split sum.split)
  qed
qed simp

lemma upholds_observing:
  assumes quiet: "memo_invariant I"
    and reads: "\<And>t. upholds I (memo_Contains v t) (\<lambda>_. True)" and m: "upholds I m Q"
  shows "upholds I (observing v m) Q"
proof (rule upholdsI)
  fix b r b' assume I: "I b" and o: "observing v m b = Some (r, b')"
  then obtain b1 where b1: "m b = Some (r, b1)" "b' = observeDenied v r b1"
    by (auto simp: observing_def split: option.splits)
  obtain c b2 where c: "canceled v b1 = (c, b2)" by fastforce
  have "I b1" by (rule upholdsD(1) [OF m I b1(1)])
  moreover from this have "I b2" using upholds_canceled [OF quiet c] by simp
  ultimately have "I b'"
    using probe_keeps [of I v b2 "bd_diagnosticFacts b2", OF quiet reads] c
    by (auto simp: b1(2) observeDenied_def split: sum.split bool.split)
  then show "I b' \<and> (\<forall>x. r = Inr x \<longrightarrow> Q x)" using upholdsD(2) [OF m I] b1(1) by blast
qed

lemma upholds_then_poll:
  assumes quiet: "memo_invariant I" and m: "upholds I m Q"
  shows "upholds I (then_poll v m) Q"
proof (rule upholdsI)
  fix b r b' assume I: "I b" and t: "then_poll v m b = Some (r, b')"
  then obtain r1 b1 r2 where r: "m b = Some (r1, b1)" "poll v b1 = Some (r2, b')" "\<forall>x. r = Inr x \<longrightarrow> r1 = Inr x"
    by (auto simp: then_poll_def split: option.splits sum.splits)
  have "upholds I (poll v) (\<lambda>_. True)" by (rule upholds_quiet [OF quiet_poll memo_invariantD [OF quiet]])
  then show "I b' \<and> (\<forall>x. r = Inr x \<longrightarrow> Q x)"
    using r upholdsD [OF m I] unfolding upholds_def by blast
qed

context coherent_view
begin

lemma memo_consistent: "memo_invariant consistent"
  unfolding memo_invariant_def using consistent_memo by blast

lemma upholds_Contains_any: "upholds consistent (memo_Contains v t) (\<lambda>_. True)"
  by (rule upholds_weaken [OF upholds_Contains]) simp

lemma check_decides:
  assumes facts: "valid_facts F" and wf: "model_wf mdl"
  shows "upholds consistent (check v req) (\<lambda>res. ck_Allowed res = authorized F mdl req)"
proof (cases "ValidateCheckRequest req")
  case (Some e)
  then show ?thesis by (simp add: check_def upholds_fail)
next
  case None
  then have p: "ValidatePrincipal (rq_Principal req) = None"
    by (auto simp: ValidateCheckRequest_def or_else_def ValidatePrincipal_def split: option.splits)
  have walk: "upholds consistent (checkPermission v (evaluateExpression fuel v) req 0 []) (\<lambda>res. ck_Allowed res = authorized F mdl req)"
    if d: "declaresPermission mdl (rs_Type (rq_Resource req)) (rq_Permission req)" for fuel
    by (rule upholds_weaken [OF checker_rightD [OF checker_walk [OF walk_decides [OF facts p wf] wf] refl d]])
      (use d in \<open>auto simp: decides_def off_path_def authorized_def grants_iff\<close>)
  have "upholds consistent (observing v (checkPermission v (evaluateExpression (fuel_for v) v) req 0 []))
      (\<lambda>res. ck_Allowed res = authorized F mdl req)"
    if "declaresPermission mdl (rs_Type (rq_Resource req)) (rq_Permission req)"
    by (rule upholds_observing [OF memo_consistent upholds_Contains_any walk [OF that]])
  moreover have "upholds consistent (ret (decision False ''no rules defined'')) (\<lambda>res. ck_Allowed res = authorized F mdl req)"
    if "\<not> declaresPermission mdl (rs_Type (rq_Resource req)) (rq_Permission req)"
    using that by (intro upholds_ret) (simp add: authorized_def decision_def)
  ultimately show ?thesis
    unfolding check_def None option.case by (intro upholds_andthen [OF upholds_quiet_step(1)]) simp
qed

lemma upholds_withOperation:
  assumes "upholds consistent m Q"
  shows "upholds consistent (withOperation v m) Q"
proof -
  have "upholds consistent (bind (then_poll v m) (\<lambda>x. andthen (poll v) (ret x))) Q"
    by (rule upholds_bind [OF upholds_then_poll [OF memo_consistent assms]],
        rule upholds_andthen [OF upholds_quiet_step(1)], rule upholds_ret)
  then show ?thesis
    unfolding withOperation_def
    by (intro upholds_andthen [OF upholds_quiet_step(1)] upholds_then_poll [OF memo_consistent])
qed

lemma Check_decides:
  assumes facts: "valid_facts F" and wf: "model_wf mdl" and res: "Check v req = Some (Inr allowed)"
  shows "allowed = authorized F mdl req"
proof -
  have "upholds consistent (checkRequest v req) (\<lambda>res. ck_Allowed res = authorized F mdl req)"
  proof (cases "ValidateCheckRequest req")
    case None
    show ?thesis
      unfolding checkRequest_def None option.case
      using upholds_withOperation [OF check_decides [OF facts wf, of req]]
      by (intro upholds_andthen [OF upholds_quiet_step(1)]) (auto simp: authorized_def decision_def intro!: upholds_ret)
  qed (simp add: checkRequest_def upholds_fail)
  moreover obtain r b where "checkRequest v req fresh_budget = Some (Inr r, b)" "allowed = ck_Allowed r"
    using res by (auto simp: Check_def split: option.splits sum.splits)
  ultimately show ?thesis using upholdsD(2) [of consistent "checkRequest v req" _ fresh_budget r b] consistent_fresh by blast
qed

end

section \<open>The fuel is enough\<close>

lemma probe_spends_nothing: "spend_of (probe_facts v fs b) = spend_of b"
proof (induction fs arbitrary: b)
  case (Cons f fs)
  obtain c b1 where c: "canceled v b = (c, b1)" by fastforce
  then have b1: "spend_of b1 = spend_of b" by (auto simp: canceled_def spend_of_def)
  obtain r b2 where r: "memo_Contains v f (b1\<lparr>bd_probes := bd_probes b1 + 1\<rparr>) = Some (r, b2)"
    and b2: "spend_of b2 = spend_of (b1\<lparr>bd_probes := bd_probes b1 + 1\<rparr>)"
    using free_Contains [of v f] unfolding free_def by blast
  obtain c' b3 where c': "canceled v b2 = (c', b3)" by fastforce
  then have "spend_of b3 = spend_of b2" by (auto simp: canceled_def spend_of_def)
  then show ?case
    using c b1 r b2 c' Cons.IH by (auto simp: spend_of_def split: bool.split sum.split)
qed simp

lemma observing_spends_nothing: "spend_of (observeDenied v r b) = spend_of b"
  using probe_spends_nothing by (auto simp: observeDenied_def canceled_def spend_of_def split: sum.split bool.split)

lemma in_budget_spend: "spend_of b' = spend_of b \<Longrightarrow> in_budget v b' = in_budget v b \<and> bd_steps b' = bd_steps b"
  by (simp add: in_budget_def spend_of_def)

lemma lively_observing:
  assumes "lively v fuel m"
  shows "lively v fuel (observing v m)"
proof (rule livelyI)
  fix b assume b: "in_budget v b" "enough v fuel b"
  obtain r b1 where m: "m b = Some (r, b1)" "in_budget v b1" "bd_steps b \<le> bd_steps b1"
    by (rule livelyE [OF assms b])
  then show "\<exists>r b'. observing v m b = Some (r, b') \<and> in_budget v b' \<and> bd_steps b \<le> bd_steps b'"
    using in_budget_spend [OF observing_spends_nothing, of v v r b1] by (simp add: observing_def)
qed

lemma lively_then_poll:
  assumes "lively v fuel m"
  shows "lively v fuel (then_poll v m)"
proof (rule livelyI)
  fix b assume b: "in_budget v b" "enough v fuel b"
  obtain r b1 where m: "m b = Some (r, b1)" "in_budget v b1" "bd_steps b \<le> bd_steps b1"
    by (rule livelyE [OF assms b])
  obtain r2 b2 where p: "poll v b1 = Some (r2, b2)" "spend_of b2 = spend_of b1"
    using free_poll unfolding free_def by blast
  show "\<exists>r b'. then_poll v m b = Some (r, b') \<and> in_budget v b' \<and> bd_steps b \<le> bd_steps b'"
    using m p in_budget_spend [OF p(2), of v] by (cases r2) (auto simp: then_poll_def)
qed

lemma lively_withOperation: "lively v fuel m \<Longrightarrow> lively v fuel (withOperation v m)"
  unfolding withOperation_def
  by (intro lively_bind lively_then_poll free_lively [OF free_poll] free_lively [OF free_ret])

context coherent_view
begin

lemma check_lively:
  assumes facts: "valid_facts F" and wf: "model_wf mdl"
  shows "lively v (fuel_for v) (check v req)"
proof (cases "ValidateCheckRequest req")
  case (Some e)
  then show ?thesis by (simp add: check_def free_lively [OF free_fail])
next
  case None
  then have p: "ValidatePrincipal (rq_Principal req) = None"
    by (auto simp: ValidateCheckRequest_def or_else_def ValidatePrincipal_def split: option.splits)
  have "lively v (fuel_for v) (checkPermission v (evaluateExpression (fuel_for v) v) req 0 [])"
    if "declaresPermission mdl (rs_Type (rq_Resource req)) (rq_Permission req)"
    using lively_checkPermission [OF walk_lively [OF facts p wf] wf] that unfolding lively_checker_def by blast
  then show ?thesis
    unfolding check_def None option.case
    by (intro lively_bind free_lively [OF free_poll]) (auto intro!: free_lively [OF free_ret] lively_observing)
qed

lemma check_within:
  assumes "valid_facts F" "model_wf mdl" "0 \<le> MaxEvaluationSteps (vw_limits v)" "0 \<le> MaxGraphStates (vw_limits v)"
    and b: "bd_steps b = 0" "bd_states b = []"
  shows "\<exists>r b'. check v req b = Some (r, b') \<and> in_budget v b'"
proof -
  have "in_budget v b" "enough v (fuel_for v) b"
    using assms(3-) by (auto simp: in_budget_def enough_def fuel_for_def)
  then show ?thesis using livelyE [OF check_lively [OF assms(1,2)]] by metis
qed

lemma Check_returns:
  assumes "valid_facts F" "model_wf mdl" "0 \<le> MaxEvaluationSteps (vw_limits v)" "0 \<le> MaxGraphStates (vw_limits v)"
  shows "\<exists>r. Check v req = Some r"
proof -
  have fresh: "in_budget v fresh_budget" "enough v (fuel_for v) fresh_budget"
    using assms(3,4) by (auto simp: in_budget_def enough_def fuel_for_def fresh_budget_def)
  have "lively v (fuel_for v) (checkRequest v req)"
    unfolding checkRequest_def using lively_withOperation [OF check_lively [OF assms(1,2)]]
    by (cases "ValidateCheckRequest req")
      (auto intro!: lively_bind free_lively [OF free_poll] free_lively [OF free_ret] free_lively [OF free_fail])
  then obtain r b where "checkRequest v req fresh_budget = Some (r, b)" using livelyE [OF _ fresh] by metis
  then show ?thesis by (cases r) (simp_all add: Check_def)
qed

end

section \<open>The two graph readers\<close>

definition bound_view ::
  "graph_reader \<Rightarrow> compiled_model \<Rightarrow> evaluation_limits \<Rightarrow> bool \<Rightarrow> bool \<Rightarrow> (string \<Rightarrow> resource res) \<Rightarrow> (nat \<Rightarrow> error) \<Rightarrow>
   tuple list \<Rightarrow> view" where
  "bound_view rd c limits subjectFirst diagnostics resolve ctx facts =
     \<lparr>vw_facts = snapshot_reads False None facts, vw_reader = rd, vw_compiled = c, vw_limits = limits,
      vw_subjectFirst = subjectFirst, vw_diagnostics = diagnostics, vw_resolve = resolve, vw_ctx = ctx\<rparr>"

definition snapshot_view ::
  "compiled_model \<Rightarrow> evaluation_limits \<Rightarrow> bool \<Rightarrow> bool \<Rightarrow> (string \<Rightarrow> resource res) \<Rightarrow> (nat \<Rightarrow> error) \<Rightarrow> tuple list \<Rightarrow> view" where
  "snapshot_view c limits subjectFirst diagnostics resolve ctx facts =
     bound_view (tuple_graph_reader (snapshot_reads False None facts) (compiled_readModel c) None)
       c limits subjectFirst diagnostics resolve ctx facts"

definition memory_view ::
  "compiled_model \<Rightarrow> evaluation_limits \<Rightarrow> bool \<Rightarrow> bool \<Rightarrow> (string \<Rightarrow> resource res) \<Rightarrow> (nat \<Rightarrow> error) \<Rightarrow> tuple list \<Rightarrow> view" where
  "memory_view c limits subjectFirst diagnostics resolve ctx facts =
     bound_view (memory_graph_reader (Some (compiled_readModel c)) facts None)
       c limits subjectFirst diagnostics resolve ctx facts"

lemmas view_defs = snapshot_view_def memory_view_def bound_view_def

lemma snapshot_contains: "rd_Contains (snapshot_reads False None facts) t = Inr held \<Longrightarrow> held = (t \<in> set facts)"
  by (auto simp: snapshot_reads_def snapshot_check_def Contains_def guarded_def split: option.splits)

interpretation snap: coherent_view "snapshot_view c limits first diag resolve ctx facts" "set facts"
  for c limits first diag resolve ctx facts
proof -
  have "coherent_view (snapshot_view c limits first diag resolve ctx facts) (set facts)"
    using portable.sound.graph_reads_axioms [of facts "compiled_readModel c"] snapshot_contains
    by (simp add: coherent_view_def coherent_view_axioms_def view_defs)
  then show "coherent_view (snapshot_view c limits first diag resolve ctx facts) (set facts)" .
qed

interpretation mem: coherent_view "memory_view c limits first diag resolve ctx facts" "set facts"
  for c limits first diag resolve ctx facts
proof -
  have "coherent_view (memory_view c limits first diag resolve ctx facts) (set facts)"
    using rows.sound.graph_reads_axioms [of "compiled_readModel c" facts] snapshot_contains
    by (simp add: coherent_view_def coherent_view_axioms_def view_defs)
  then show "coherent_view (memory_view c limits first diag resolve ctx facts) (set facts)" .
qed

section \<open>A sample\<close>

text \<open>Documents and folders: a document is viewed by its viewers and by the viewers of its folder.\<close>

definition sample_schema :: policy_model where
  "sample_schema =
     \<lparr>pm_ResourceTypes =
        [(''doc'', \<lparr>td_Relations = [(''parent'', [(''folder'', [])]), (''viewer'', [(''group'', ''member''), (''user'', [])])],
                   td_Permissions = [(''view'', Any [Direct ''viewer'', Through ''parent'' ''view''])]\<rparr>),
         (''folder'', \<lparr>td_Relations = [(''viewer'', [(''user'', [])])], td_Permissions = [(''view'', Direct ''viewer'')]\<rparr>),
         (''group'', \<lparr>td_Relations = [(''member'', [(''user'', [])])], td_Permissions = []\<rparr>)],
      pm_assemblyErrors = []\<rparr>"

definition sample_model :: compiled_model where
  "sample_model =
     [(''doc'',
       \<lparr>ct_relations =
          [(''parent'', \<lparr>cr_subjects = [(''folder'', [])], cr_kind = RelationNavigational, cr_hasUsersets = False\<rparr>),
           (''viewer'', \<lparr>cr_subjects = [(''group'', ''member''), (''user'', [])], cr_kind = RelationDirect, cr_hasUsersets = True\<rparr>)],
        ct_permissions =
          [(''view'', \<lparr>cp_checks = Some [Direct ''viewer'', Through ''parent'' ''view''],
              cp_expression = Any [Direct ''viewer'', Through ''parent'' ''view'']\<rparr>)],
        ct_relationTargets = [(''parent'', [''folder''])]\<rparr>),
      (''folder'',
       \<lparr>ct_relations = [(''viewer'', \<lparr>cr_subjects = [(''user'', [])], cr_kind = RelationDirect, cr_hasUsersets = False\<rparr>)],
        ct_permissions = [(''view'', \<lparr>cp_checks = Some [Direct ''viewer''], cp_expression = Direct ''viewer''\<rparr>)],
        ct_relationTargets = []\<rparr>),
      (''group'',
       \<lparr>ct_relations = [(''member'', \<lparr>cr_subjects = [(''user'', [])], cr_kind = RelationDirect, cr_hasUsersets = False\<rparr>)],
        ct_permissions = [], ct_relationTargets = []\<rparr>)]"

definition sample_facts :: "tuple list" where
  "sample_facts =
     [Tuple (On ''doc'' ''1'') ''parent'' (SubjectRef ''folder'' ''f'' []),
      Tuple (On ''folder'' ''f'') ''viewer'' (SubjectRef ''user'' ''u'' [])]"

definition sample_limits :: evaluation_limits where
  "sample_limits = \<lparr>MaxEvaluationSteps = 20, MaxThroughDepth = 3, MaxGraphStates = 20, MaxRelationTargets = 5,
     MaxBatchSize = 5, MaxLookupResults = 5, MaxFilterScan = 10\<rparr>"

definition sample_view :: view where
  "sample_view = snapshot_view sample_model sample_limits False False (\<lambda>_. Inl ErrInvalidInput) (\<lambda>_. None) sample_facts"

definition ask :: "string \<Rightarrow> string \<Rightarrow> check_request" where
  "ask rt i = \<lparr>rq_Principal = \<lparr>pr_Type = ''user'', pr_ID = ''u''\<rparr>, rq_Permission = ''view'',
     rq_Resource = \<lparr>rs_Type = rt, rs_ID = i\<rparr>\<rparr>"

lemma sample_compiles: "Compile sample_schema = Inr sample_model"
proof -
  have "name_errors sample_schema = []" by code_simp
  moreover have "detectCircularThrough sample_schema = []" by code_simp
  moreover have "detectUnsatisfiable sample_schema = []" by code_simp
  moreover have "concat (map (\<lambda>(rt, t).
            error_line [] (ValidateRefField ''resource type name'' rt) @
            compileRelations sample_schema rt t @ compilePermissions sample_schema rt t)
          (pm_ResourceTypes sample_schema)) = []" by code_simp
  moreover have "pm_assemblyErrors sample_schema = []" by (simp add: sample_schema_def)
  ultimately have "compile_errors sample_schema = []" unfolding compile_errors_def by simp
  moreover have "map (\<lambda>(rt, t). (rt, compile_type sample_schema rt t)) (pm_ResourceTypes sample_schema) = sample_model"
    by code_simp
  ultimately show ?thesis by (simp add: Compile_def)
qed

lemma sample_ok: "schema_ok sample_schema" "valid_facts (set sample_facts)" "Resolve sample_limits = Inr sample_limits"
proof -
  show "schema_ok sample_schema" by (simp add: schema_ok_def sample_schema_def)
  have "list_all (\<lambda>t. Tuple_Validate t = None) sample_facts" by code_simp
  then show "valid_facts (set sample_facts)" by (simp add: valid_facts_def list_all_iff)
  show "Resolve sample_limits = Inr sample_limits" by code_simp
qed

lemma sample_view_simps:
  "vw_compiled sample_view = sample_model" "vw_limits sample_view = sample_limits"
  "vw_subjectFirst sample_view = False" "vw_diagnostics sample_view = False" "vw_ctx sample_view n = None"
  by (simp_all add: sample_view_def view_defs)

lemma sample_contains:
  "Tuple_Validate t = None \<Longrightarrow> rd_Contains (vw_facts sample_view) t = Inr (t \<in> set sample_facts)"
  by (simp add: sample_view_def view_defs snapshot_reads_def snapshot_check_def Contains_def guarded_def or_else_def)

lemma sample_asks [simp]:
  "ValidateCheckRequest (ask ''folder'' ''f'') = None" "ValidateCheckRequest (ask ''folder'' ''g'') = None" by code_simp+

lemma sample_fact:
  "directTuple ''folder'' ''f'' ''viewer'' \<lparr>pr_Type = ''user'', pr_ID = ''u''\<rparr> =
     Some (Tuple (On ''folder'' ''f'') ''viewer'' (SubjectRef ''user'' ''u'' []))"
  "directTuple ''folder'' ''g'' ''viewer'' \<lparr>pr_Type = ''user'', pr_ID = ''u''\<rparr> =
     Some (Tuple (On ''folder'' ''g'') ''viewer'' (SubjectRef ''user'' ''u'' []))"
  "rd_Contains (vw_facts sample_view) (Tuple (On ''folder'' ''f'') ''viewer'' (SubjectRef ''user'' ''u'' [])) = Inr True"
  "view_allows sample_view ''folder'' ''viewer'' ''user'' []"
proof -
  show "directTuple ''folder'' ''f'' ''viewer'' \<lparr>pr_Type = ''user'', pr_ID = ''u''\<rparr> =
     Some (Tuple (On ''folder'' ''f'') ''viewer'' (SubjectRef ''user'' ''u'' []))" by code_simp
  show "directTuple ''folder'' ''g'' ''viewer'' \<lparr>pr_Type = ''user'', pr_ID = ''u''\<rparr> =
     Some (Tuple (On ''folder'' ''g'') ''viewer'' (SubjectRef ''user'' ''u'' []))" by code_simp
  have "Tuple_Validate (Tuple (On ''folder'' ''f'') ''viewer'' (SubjectRef ''user'' ''u'' [])) = None" by code_simp
  then show "rd_Contains (vw_facts sample_view) (Tuple (On ''folder'' ''f'') ''viewer'' (SubjectRef ''user'' ''u'' [])) = Inr True"
    by (simp add: sample_contains sample_facts_def)
  show "view_allows sample_view ''folder'' ''viewer'' ''user'' []"
    unfolding view_allows_def sample_view_simps Allows_compiled by (simp add: sample_model_def)
qed

text \<open>Evaluating steps in the sample view.\<close>

lemma bind_ret: "bind (ret x) f b = f x b"
  by (simp add: bind_def ret_def)

lemma bind_assoc: "bind (bind m f) g b = bind m (\<lambda>x. bind (f x) g) b"
  by (simp add: bind_def split: option.split sum.split)

lemma sample_poll: "bind (poll sample_view) f b = f () (b\<lparr>bd_polls := Suc (bd_polls b)\<rparr>)"
  by (simp add: bind_def poll_def sample_view_simps)

lemma sample_then_poll:
  "m b = Some (Inr x, b1) \<Longrightarrow> then_poll sample_view m b = Some (Inr x, b1\<lparr>bd_polls := Suc (bd_polls b1)\<rparr>)"
  by (simp add: then_poll_def poll_def sample_view_simps)

lemma sample_charge:
  "bd_steps b < 20 \<Longrightarrow> bind (chargeStep sample_view) f b = f () (b\<lparr>bd_steps := bd_steps b + 1\<rparr>)"
  "bd_states b = [] \<Longrightarrow> bind (chargeKey sample_view k) f b = f () (b\<lparr>bd_states := [k]\<rparr>)"
  by (simp_all add: bind_def chargeStep_def chargeKey_def sample_view_simps sample_limits_def)

lemma sample_Contains:
  "map_get (bd_facts b) t = None \<Longrightarrow> rd_Contains (vw_facts sample_view) t = Inr found \<Longrightarrow>
   bind (memo_Contains sample_view t) f b =
     f found (b\<lparr>bd_polls := Suc (bd_polls b), bd_facts := map_put t found (bd_facts b)\<rparr>)"
  by (simp add: memo_Contains_def sample_poll bind_assoc) (simp add: bind_def)

lemma sample_record: "bd_trace b = None \<Longrightarrow> bind (record_step s) f b = f () b"
  by (simp add: bind_def record_step_def)

lemma sample_direct:
  "bd_facts b = [] \<Longrightarrow> bd_trace b = None \<Longrightarrow>
   direct_leaf sample_view (ask ''folder'' ''f'') (Direct ''viewer'') d b =
     Some (Inr (decision True ''direct:viewer''), b\<lparr>bd_polls := bd_polls b + 2,
       bd_facts := [(Tuple (On ''folder'' ''f'') ''viewer'' (SubjectRef ''user'' ''u'' []), True)]\<rparr>)"
  by (simp add: direct_leaf_def directShortCircuit_def shortCircuits_def ask_def sample_fact sample_view_simps(3) bind_assoc
      sample_Contains sample_poll sample_record Direct_def bind_ret) (simp add: ret_def)

lemma sample_leaf:
  assumes "is_leaf e" "ex_Resource e = None" "ex_ResourceSlot e = None" "ex_RoleName e = []" "ex_NamedPermission e = []"
    "ex_Through e = []" "bd_target b = None" "bd_steps b < 20" "0 < fuel"
  shows "evaluateExpression fuel sample_view req e d stack b =
     direct_leaf sample_view req e d (b\<lparr>bd_polls := Suc (bd_polls b), bd_steps := bd_steps b + 1\<rparr>)"
  using assms
  by (cases fuel; simp add: sample_poll sample_charge with_target_def evaluate_leaf_def bind_request_def bind_ret evaluate_bound_leaf_def
      bound_leaf_def is_leaf_def) (auto simp: bind_def ret_def split: option.split sum.split)

lemma sample_check:
  "\<exists>b. check sample_view (ask ''folder'' ''f'') (fresh_budget\<lparr>bd_polls := n\<rparr>) = Some (Inr (decision True ''direct:viewer''), b)"
proof -
  have fuel: "fuel_for sample_view = Suc 20" by (simp add: fuel_for_def sample_view_simps sample_limits_def)
  have model: "declaresPermission sample_model ''folder'' ''view''"
    "permission_expression sample_model ''folder'' ''view'' = Direct ''viewer''"
    by (simp_all add: declaresPermission_def permission_expression_def sample_model_def)
  have ask: "rq_Resource (ask ''folder'' ''f'') = \<lparr>rs_Type = ''folder'', rs_ID = ''f''\<rparr>"
    "rq_Permission (ask ''folder'' ''f'') = ''view''" by (simp_all add: ask_def)
  have leaf: "is_leaf (Direct ''viewer'')" "ex_Resource (Direct ''viewer'') = None" "ex_ResourceSlot (Direct ''viewer'') = None"
    "ex_RoleName (Direct ''viewer'') = []" "ex_NamedPermission (Direct ''viewer'') = []" "ex_Through (Direct ''viewer'') = []"
    by (simp_all add: is_leaf_def Direct_def)
  show ?thesis
    unfolding check_def sample_asks option.case fuel
    by (simp add: sample_poll sample_charge observing_def checkPermission_def Let_def ask
        model fresh_budget_def sample_limits_def sample_leaf leaf sample_direct observeDenied_def decision_def sample_view_simps
        del: evaluateExpression.simps)
qed

lemma sample_Check: "Check sample_view (ask ''folder'' ''f'') = Some (Inr True)"
proof -
  let ?m = "check sample_view (ask ''folder'' ''f'')"
  have run: "\<exists>b'. withOperation sample_view ?m (fresh_budget\<lparr>bd_polls := k\<rparr>) = Some (Inr (decision True ''direct:viewer''), b')" for k
  proof -
    obtain b1 where "?m (fresh_budget\<lparr>bd_polls := Suc (Suc (Suc (Suc k)))\<rparr>) = Some (Inr (decision True ''direct:viewer''), b1)"
      using sample_check by blast
    then have "bind (then_poll sample_view ?m) (\<lambda>x. andthen (poll sample_view) (ret x)) (fresh_budget\<lparr>bd_polls := Suc (Suc (Suc (Suc k)))\<rparr>) =
        Some (Inr (decision True ''direct:viewer''), b1\<lparr>bd_polls := bd_polls b1 + 2\<rparr>)"
      by (simp add: bind_def [of "then_poll _ _"] sample_then_poll sample_poll ret_def)
    then show ?thesis
      unfolding withOperation_def sample_poll
      by (intro exI) (rule sample_then_poll, simp add: sample_poll)
  qed
  obtain b' where "withOperation sample_view ?m (fresh_budget\<lparr>bd_polls := Suc (bd_polls fresh_budget)\<rparr>) =
      Some (Inr (decision True ''direct:viewer''), b')" using run by blast
  moreover have "declaresPermission sample_model ''folder'' ''view''"
    by (simp add: declaresPermission_def sample_model_def)
  ultimately show ?thesis
    by (simp add: Check_def checkRequest_def sample_poll sample_view_simps ask_def [of "''folder''" "''f''"] decision_def
        sample_asks [unfolded ask_def])
qed

section \<open>Properties\<close>

lemma resolve_limit_positive: "0 < dflt \<Longrightarrow> 0 < fst (resolve_limit name v dflt)"
  by (simp add: resolve_limit_def)

lemma Resolve_positive:
  assumes "Resolve l = Inr limits"
  shows "0 < MaxEvaluationSteps limits" "0 < MaxGraphStates limits" "0 < MaxBatchSize limits" "0 < MaxFilterScan limits"
proof -
  have "MaxEvaluationSteps limits = fst (resolve_limit ''MaxEvaluationSteps'' (MaxEvaluationSteps l) 100000) \<and>
      MaxGraphStates limits = fst (resolve_limit ''MaxGraphStates'' (MaxGraphStates l) 10000) \<and>
      MaxBatchSize limits = fst (resolve_limit ''MaxBatchSize'' (MaxBatchSize l) 1000) \<and>
      MaxFilterScan limits = fst (resolve_limit ''MaxFilterScan'' (MaxFilterScan l) 20000)"
    using assms unfolding Resolve_def Let_def case_prod_beta by (simp split: if_split_asm) (drule sym, simp)
  then show "0 < MaxEvaluationSteps limits" "0 < MaxGraphStates limits" "0 < MaxBatchSize limits" "0 < MaxFilterScan limits"
    by (simp_all add: resolve_limit_positive)
qed

text \<open>
  Property C3.  The engine implements the policy.  Whatever the schema that compiled, the facts of
  the snapshot, the limits, the diagnostics, the context and the request, and with either graph
  reader: when \<open>Check\<close> returns a decision rather than an error, it allows exactly what the
  compiled model grants over the facts, where \<open>grants\<close> is the declarative meaning of the
  permission's expression, an inductive relation with no budget, memo, order of evaluation or
  cycle rule.  In particular the denial of a state already on the active path, the short circuit
  on an exact fact and the memoized reads never change an answer, a limit never turns into a
  denial, and the two readers never disagree.
\<close>

theorem check_implements_policy:
  assumes "Compile schema = Inr c" "schema_ok schema" "valid_facts (set facts)"
    and "Check (snapshot_view c limits first diag resolve ctx facts) req = Some (Inr allowed) \<or>
      Check (memory_view c limits first diag resolve ctx facts) req = Some (Inr allowed)"
  shows "allowed = authorized (set facts) c req"
  using assms(4)
proof
  assume "Check (snapshot_view c limits first diag resolve ctx facts) req = Some (Inr allowed)"
  from snap.Check_decides [OF assms(3) _ this] Compile_wf [OF assms(1,2)] show ?thesis by (simp add: view_defs)
next
  assume "Check (memory_view c limits first diag resolve ctx facts) req = Some (Inr allowed)"
  from mem.Check_decides [OF assms(3) _ this] Compile_wf [OF assms(1,2)] show ?thesis by (simp add: view_defs)
qed

lemma check_implements_policy_witness:
  "Check (snapshot_view sample_model sample_limits False False (\<lambda>_. Inl ErrInvalidInput) (\<lambda>_. None) sample_facts)
     (ask ''folder'' ''f'') = Some (Inr True) \<and>
   authorized (set sample_facts) sample_model (ask ''folder'' ''f'')"
proof
  show c: "Check (snapshot_view sample_model sample_limits False False (\<lambda>_. Inl ErrInvalidInput) (\<lambda>_. None) sample_facts)
     (ask ''folder'' ''f'') = Some (Inr True)"
    using sample_Check by (simp only: sample_view_def)
  show "authorized (set sample_facts) sample_model (ask ''folder'' ''f'')"
    using check_implements_policy [OF sample_compiles sample_ok(1,2) disjI1 [OF c]] by simp
qed

text \<open>
  Property C6.  A check always ends, within its limits.  For every schema that compiled, every set
  of valid facts, all limits \<open>Resolve\<close> accepts and with either reader, \<open>Check\<close> returns a decision
  or an error, however the relations of the facts run in circles, and the evaluation it makes
  spends at most \<open>MaxEvaluationSteps\<close> steps and at most \<open>MaxGraphStates\<close> distinct states.
\<close>

theorem check_returns_in_budget:
  assumes "Compile schema = Inr c" "schema_ok schema" "valid_facts (set facts)" "Resolve l = Inr limits"
    and "v = snapshot_view c limits first diag resolve ctx facts \<or> v = memory_view c limits first diag resolve ctx facts"
  shows "\<exists>r r' b. Check v req = Some r \<and> check v req fresh_budget = Some (r', b) \<and>
    0 \<le> bd_steps b \<and> bd_steps b \<le> MaxEvaluationSteps limits \<and>
    distinct (bd_states b) \<and> int (length (bd_states b)) \<le> MaxGraphStates limits"
proof -
  have wf: "model_wf c" by (rule Compile_wf [OF assms(1,2)])
  have pos: "0 \<le> MaxEvaluationSteps limits" "0 \<le> MaxGraphStates limits" using Resolve_positive [OF assms(4)] by simp_all
  have fresh: "bd_steps fresh_budget = 0" "bd_states fresh_budget = []" by (simp_all add: fresh_budget_def)
  have limits: "vw_compiled v = c" "vw_limits v = limits" using assms(5) by (auto simp: view_defs)
  have "(\<exists>r. Check v req = Some r) \<and> (\<exists>r' b. check v req fresh_budget = Some (r', b) \<and> in_budget v b)"
    using assms(5)
  proof
    assume v: "v = snapshot_view c limits first diag resolve ctx facts"
    show ?thesis
      using snap.Check_returns [OF assms(3), of c limits first diag resolve ctx req]
        snap.check_within [OF assms(3) _ _ _ fresh, of c limits first diag resolve ctx req] wf pos
      unfolding v by (simp add: view_defs)
  next
    assume v: "v = memory_view c limits first diag resolve ctx facts"
    show ?thesis
      using mem.Check_returns [OF assms(3), of c limits first diag resolve ctx req]
        mem.check_within [OF assms(3) _ _ _ fresh, of c limits first diag resolve ctx req] wf pos
      unfolding v by (simp add: view_defs)
  qed
  then show ?thesis by (auto simp: in_budget_def limits)
qed

lemma check_returns_in_budget_witness:
  "\<exists>r r' b. Check sample_view (ask ''doc'' ''1'') = Some r \<and> check sample_view (ask ''doc'' ''1'') fresh_budget = Some (r', b) \<and>
    0 \<le> bd_steps b \<and> bd_steps b \<le> MaxEvaluationSteps sample_limits \<and>
    distinct (bd_states b) \<and> int (length (bd_states b)) \<le> MaxGraphStates sample_limits"
  by (rule check_returns_in_budget [OF sample_compiles sample_ok disjI1]) (rule sample_view_def)

text \<open>
  Property C14.  Asking why changes nothing.  For every view and request, \<open>CheckExplain\<close> returns the
  decision or the error that the plain check returns, not returning included, and the evaluation
  with a trace leaves the operation in the state the plain one leaves it in, trace apart: the same
  steps and states spent, the same reads remembered, the same polls of the context.
\<close>

theorem explain_changes_nothing:
  "map_option fst (checkExplain v req) = map_option fst (check v req fresh_budget) \<and>
   map_option (\<lambda>(r, b). (r, b\<lparr>bd_trace := None\<rparr>)) (check v req (fresh_budget\<lparr>bd_trace := Some []\<rparr>)) =
   map_option (\<lambda>(r, b). (r, b\<lparr>bd_trace := None\<rparr>)) (check v req fresh_budget)"
proof -
  have same: "untraced (check v req (fresh_budget\<lparr>bd_trace := Some []\<rparr>)) = untraced (check v req fresh_budget)"
    using oblivious_check [of v req] by (simp add: oblivious_def)
  have un: "untraced = map_option (\<lambda>(r, b). (r, b\<lparr>bd_trace := None\<rparr>))"
    by (intro ext) (auto simp: untraced_def erase_def apsnd_def map_prod_def intro: arg_cong2 [where f = map_option])
  have "map_option fst (checkExplain v req) = map_option fst (check v req fresh_budget)"
    using same by (cases rule: untraced_cases) (simp_all add: checkExplain_def)
  with same show ?thesis unfolding un by simp
qed

end
