(* ===== verification/Batch_Checks.thy ===== *)
theory Batch_Checks
  imports Decisions
begin

text \<open>
  Checking several requests in one operation, \<open>checkBatchSequential\<close> and \<open>checkBatchOptimized\<close> of
  \<open>src/pockets/authorization/logic/decisions/evaluate.go\<close> with \<open>directBatchHits\<close> and the batched
  exact reads of \<open>check_operation.go\<close>.  The optimized path answers a flat disjunction of relations
  with one read per relation; it decides each request as an ordinary check does.  The choice
  between the paths is \<open>checkBatch\<close> in theory Batch_Operation.
\<close>

section \<open>One check per request\<close>

primrec check_each :: "view \<Rightarrow> check_request list \<Rightarrow> check_result list run" where
  "check_each v [] = ret []"
| "check_each v (req # reqs) =
     bind (\<lambda>b. check v req (newBudget b)) (\<lambda>result.
       bind (check_each v reqs) (\<lambda>results. ret (result # results)))"

definition checkBatchSequential :: "view \<Rightarrow> check_request list \<Rightarrow> check_result list run" where
  "checkBatchSequential v reqs b = check_each v reqs (b\<lparr>bd_targets := [], bd_direct := []\<rparr>)"

section \<open>Batched exact reads\<close>

definition batch_cardinality :: go_error where
  "batch_cardinality = Wrapped ''invalid exact batch cardinality: unavailable'' ErrUnavailable"

text \<open>The answers of the memo, and in the remaining places those just read.\<close>

fun fill_values :: "(tuple, bool) go_map \<Rightarrow> tuple list \<Rightarrow> bool list \<Rightarrow> bool list" where
  "fill_values memo [] got = []"
| "fill_values memo (t # ts) got =
     (case map_get memo t of
        Some held \<Rightarrow> held # fill_values memo ts got
      | None \<Rightarrow> hd got # fill_values memo ts (tl got))"

definition memo_ContainsMany :: "view \<Rightarrow> tuple list \<Rightarrow> bool list run" where
  "memo_ContainsMany v ts =
     andthen (poll v) (\<lambda>b.
       let missing = filter (\<lambda>t. map_get (bd_facts b) t = None) ts in
       if missing = [] then Some (Inr (fill_values (bd_facts b) ts []), b)
       else
         (case rd_ContainsMany (vw_facts v) missing of
            Inl e \<Rightarrow> Some (Inl e, b)
          | Inr got \<Rightarrow>
              if length got \<noteq> length missing then Some (Inl batch_cardinality, b)
              else
                Some (Inr (fill_values (bd_facts b) ts got),
                  b\<lparr>bd_facts := fold (\<lambda>(t, held). map_put t held) (zip missing got) (bd_facts b)\<rparr>)))"

definition directBatchHits ::
  "view \<Rightarrow> string \<Rightarrow> string list \<Rightarrow> string \<Rightarrow> principal \<Rightarrow> (string, bool) go_map option run" where
  "directBatchHits v rt ids rel p =
     (if \<not> shortCircuits v rt rel (pr_Type p) then ret None
      else
        (let probed = filter (\<lambda>i. directTuple rt i rel p \<noteq> None) ids;
             facts = map (\<lambda>i. the (directTuple rt i rel p)) probed in
         if facts = [] then ret (Some [])
         else
           bind (memo_ContainsMany v facts) (\<lambda>found.
             andthen (poll v)
               (if length found \<noteq> length facts then fail batch_cardinality
                else ret (Some (fold (\<lambda>(i, held). map_put i held) (zip probed found) []))))))"

section \<open>One read per relation\<close>

definition expand_reads :: "view \<Rightarrow> string \<Rightarrow> string list \<Rightarrow> string \<Rightarrow> principal \<Rightarrow> (string, bool) go_map run" where
  "expand_reads v rt ids rel p b =
     (case gr_BatchDirect (vw_reader v) rt ids rel (pr_Type p) (pr_ID p) (MaxGraphStates (vw_limits v)) of
        None \<Rightarrow> None
      | Some (Inl e) \<Rightarrow> Some (Inl (mapExpansionBudget e), b)
      | Some (Inr expanded) \<Rightarrow> andthen (poll v) (ret expanded) b)"

definition batch_relation ::
  "view \<Rightarrow> string \<Rightarrow> string list \<Rightarrow> string \<Rightarrow> principal \<Rightarrow> (string, bool) go_map run" where
  "batch_relation v rt ids rel p =
     bind (directBatchHits v rt ids rel p) (\<lambda>hits.
       case hits of
         None \<Rightarrow> expand_reads v rt ids rel p
       | Some found \<Rightarrow>
           (let expand = filter (\<lambda>i. map_get found i \<noteq> Some True \<and>
                  (map_get found i = None \<or> relationHasUsersets (vw_compiled v) rt rel)) ids in
            if expand = [] then ret found
            else
              bind (expand_reads v rt expand rel p) (\<lambda>expanded.
                ret (fold (\<lambda>i out. if map_get expanded i = Some True then map_put i True out else out)
                  (map fst expanded) found))))"

definition note_grants :: "string \<Rightarrow> (string, bool) go_map \<Rightarrow> (string, string) go_map \<Rightarrow> (string, string) go_map" where
  "note_grants rel results grantedBy =
     fold (\<lambda>i out. if map_get results i = Some True \<and> map_get out i = None then map_put i rel out else out)
       (map fst results) grantedBy"

text \<open>The loop over the checks: steps spent, identifiers still undecided, which relation granted.\<close>

fun batch_checks ::
  "view \<Rightarrow> string \<Rightarrow> principal \<Rightarrow> expression list \<Rightarrow> int \<Rightarrow> string list \<Rightarrow> (string, string) go_map \<Rightarrow>
   (string, string) go_map run" where
  "batch_checks v rt p [] spent ids grantedBy = ret grantedBy"
| "batch_checks v rt p (chk # checks) spent ids grantedBy =
     (if ids = [] then ret grantedBy
      else
        andthen (poll v)
          (if spent + 1 > MaxEvaluationSteps (vw_limits v) then fail ErrEvaluationLimit
           else if ex_Relation chk = [] then batch_checks v rt p checks (spent + 1) ids grantedBy
           else
             bind (batch_relation v rt ids (ex_Relation chk) p) (\<lambda>results.
               batch_checks v rt p checks (spent + 1)
                 (filter (\<lambda>i. map_get results i \<noteq> Some True) ids)
                 (note_grants (ex_Relation chk) results grantedBy))))"

definition batch_result :: "(string, string) go_map \<Rightarrow> check_request \<Rightarrow> check_result" where
  "batch_result grantedBy req =
     (case map_get grantedBy (rs_ID (rq_Resource req)) of
        Some relation \<Rightarrow> decision True (''direct:'' @ relation)
      | None \<Rightarrow> decision False ''no matching rule'')"

definition checkBatchOptimized :: "view \<Rightarrow> check_request list \<Rightarrow> check_result list run" where
  "checkBatchOptimized v reqs =
     (case reqs of
        [] \<Rightarrow> ret []
      | first # _ \<Rightarrow>
          andthen (poll v)
            (let rt = rs_Type (rq_Resource first);
                 checks = (case permissionChecks (vw_compiled v) rt (rq_Permission first) of None \<Rightarrow> [] | Some cs \<Rightarrow> cs) in
             if checks = [] then ret (map (\<lambda>_. decision False ''no rules defined'') reqs)
             else
               bind (batch_checks v rt (rq_Principal first) checks
                   (if ex_AnyOf (permission_expression (vw_compiled v) rt (rq_Permission first)) \<noteq> None then 2 else 1)
                   (dedupeSort (map (\<lambda>req. rs_ID (rq_Resource req)) reqs)) [])
                 (\<lambda>grantedBy. ret (map (batch_result grantedBy) reqs))))"

text \<open>When \<open>checkBatch\<close> takes the optimized path.\<close>

definition canBatch :: "compiled_model \<Rightarrow> check_request list \<Rightarrow> bool" where
  "canBatch c reqs \<longleftrightarrow>
     (case reqs of
        [] \<Rightarrow> False
      | first # rest \<Rightarrow>
          list_all (\<lambda>req. rq_Principal req = rq_Principal first \<and> rq_Permission req = rq_Permission first \<and>
            rs_Type (rq_Resource req) = rs_Type (rq_Resource first)) rest \<and>
          (case permissionChecks c (rs_Type (rq_Resource first)) (rq_Permission first) of
             None \<Rightarrow> False
           | Some checks \<Rightarrow> checks \<noteq> [] \<and> list_all (\<lambda>chk. ex_Through chk = []) checks))"

section \<open>What the batch decides\<close>

context coherent_view
begin

lemma new_budget_right:
  "upholds consistent m Q \<Longrightarrow> upholds consistent (\<lambda>b. m (newBudget b)) Q"
proof -
  have "consistent (newBudget b) = consistent b" for b
    by (rule consistent_memo [symmetric]) (simp add: newBudget_def memo_of_def)
  then show "upholds consistent m Q \<Longrightarrow> upholds consistent (\<lambda>b. m (newBudget b)) Q"
    unfolding upholds_def by blast
qed

lemma each_right:
  assumes facts: "valid_facts F" and wf: "model_wf mdl"
  shows "upholds consistent (check_each v reqs) (\<lambda>rs. map ck_Allowed rs = map (authorized F mdl) reqs)"
proof (induction reqs)
  case (Cons req reqs)
  show ?case
    unfolding check_each.simps
    by (rule upholds_bind [OF new_budget_right [OF check_decides [OF facts wf]]], rule upholds_bind [OF Cons.IH],
        rule upholds_ret) simp
qed (simp add: upholds_ret)

lemma sequential_right:
  assumes facts: "valid_facts F" and wf: "model_wf mdl"
  shows "upholds consistent (checkBatchSequential v reqs) (\<lambda>rs. map ck_Allowed rs = map (authorized F mdl) reqs)"
proof (rule upholdsI)
  fix b r b' assume b: "consistent b" and s: "checkBatchSequential v reqs b = Some (r, b')"
  have "consistent (b\<lparr>bd_targets := [], bd_direct := []\<rparr>)" using b by (auto simp: consistent_def)
  then show "consistent b' \<and> (\<forall>x. r = Inr x \<longrightarrow> map ck_Allowed x = map (authorized F mdl) reqs)"
    using each_right [OF facts wf, of reqs] s unfolding upholds_def checkBatchSequential_def by blast
qed

end

lemma valid_direct_leaf:
  assumes "leaf_valid d rt False l" "is_leaf l" "ex_Relation l \<noteq> []"
  shows "ex_RoleName l = [] \<and> ex_NamedPermission l = [] \<and> leaf_resource l r = r"
proof -
  have err: "node_error False l = None" using assms(1) by (simp add: leaf_valid_def)
  then have "truths [ex_AnyOf l \<noteq> None, ex_AllOf l \<noteq> None, ex_Relation l \<noteq> [], ex_Through l \<noteq> [], ex_RoleName l \<noteq> [],
      ex_NamedPermission l \<noteq> []] = 1" by (simp add: node_error_def)
  then have one: "ex_RoleName l = []" "ex_NamedPermission l = []"
    using assms(2,3) by (auto simp: is_leaf_def truths_def split: if_splits)
  have "selectors l = 0" using err one(1) by (simp add: node_error_def)
  then have "ex_Resource l = None" by (auto simp: selectors_def truths_def split: if_splits)
  with one show ?thesis by (simp add: leaf_resource_def)
qed

lemma graphChecks_leaf:
  assumes "graphChecks e = Some checks" "chk \<in> set checks"
  shows "is_leaf chk \<and> (ex_Relation chk = [] \<longrightarrow> ex_Through chk \<noteq> [])" "chk \<in> set (leaves_of e)"
proof -
  show l: "is_leaf chk \<and> (ex_Relation chk = [] \<longrightarrow> ex_Through chk \<noteq> [])"
    using assms by (auto simp: graphChecks_def Let_def list_all_iff is_leaf_def split: if_splits)
  show "chk \<in> set (leaves_of e)"
  proof (cases "ex_AnyOf e")
    case None
    then have "chk = e" using assms by (auto simp: graphChecks_def Let_def split: if_splits)
    then show ?thesis using l leaves_of_leaf [of e] by simp
  next
    case (Some es)
    then have "chk \<in> set es" using assms by (auto simp: graphChecks_def Let_def split: if_splits)
    then show ?thesis using l leaves_of_leaf [of chk] leaves_of_child [of e es chk] Some by auto
  qed
qed

lemma graphChecks_grants:
  assumes "graphChecks e = Some checks" "node_error False e = None"
  shows "grants F c p r e \<longleftrightarrow> (\<exists>chk\<in>set checks. grants F c p r chk)"
proof (cases "ex_AnyOf e")
  case None
  then have "checks = [e]" using assms(1) by (auto simp: graphChecks_def Let_def split: if_splits)
  then show ?thesis by simp
next
  case (Some es)
  have "truths [ex_AnyOf e \<noteq> None, ex_AllOf e \<noteq> None, ex_Relation e \<noteq> [], ex_Through e \<noteq> [], ex_RoleName e \<noteq> [],
      ex_NamedPermission e \<noteq> []] = 1" using assms(2) by (simp add: node_error_def)
  then have "ex_AllOf e = None" using Some by (cases "ex_AllOf e") (simp_all add: truths_def)
  moreover have "checks = es" using assms(1) Some by (auto simp: graphChecks_def Let_def split: if_splits)
  ultimately show ?thesis using Some by (subst grants_unfold) (simp add: grant_step_def)
qed

lemma compiled_checks_expression:
  assumes c: "Compile schema = Inr c" and ok: "schema_ok schema" and checks: "permissionChecks c rt perm = Some checks"
  obtains e where "permission_expression c rt perm = e" "graphChecks e = Some checks" "node_error False e = None"
    "declaresPermission c rt perm" "\<forall>l\<in>set (leaves_of e). leaf_valid (model_declarations schema) rt False l"
proof -
  obtain t e where t: "map_get (pm_ResourceTypes schema) rt = Some t" "map_get (td_Permissions t) perm = Some e"
    "graphChecks (copyExpression e) = Some checks"
    using checks unfolding permissionChecks_def Compile_Inr(2) [OF c] map_of_map_keyed
    by (auto simp: compile_type_def Let_def map_of_map split: option.splits)
  have "validateExpression e schema rt False = None"
    by (rule compiled_valid(1) [OF c map_of_SomeD [OF t(1)] map_of_SomeD [OF t(2)]])
  then have v: "validateExpressionTree e (model_declarations schema) rt False =
      (fst (validateExpressionTree e (model_declarations schema) rt False), None)"
    by (simp add: validateExpression_def prod_eq_iff)
  then obtain st where "validate_node (model_declarations schema) rt False e 0 (0, []) = (None, st)"
    by (auto simp: validateExpressionTree_def split: prod.splits)
  then have "node_error False e = None" by (cases e) (auto simp: Let_def split: if_splits option.splits)
  moreover have "permission_expression c rt perm = e" "declaresPermission c rt perm"
    using t(1,2) validated_expression(1) [OF v]
    unfolding permission_expression_def declaresPermission_def Compile_Inr(2) [OF c] map_of_map_keyed
    by (simp_all add: compile_type_def Let_def map_of_map)
  ultimately show thesis
    using that [of e] t(3) validated_expression(1,3) [OF v] by simp
qed

text \<open>The reads of a batch: every answer of a batched read is right.\<close>

locale coherent_batch = coherent_view +
  assumes batch_right:
      "valid_facts F \<Longrightarrow> valid_ref st \<Longrightarrow> valid_ref sid \<Longrightarrow> rel \<noteq> [] \<Longrightarrow>
       gr_BatchDirect (vw_reader v) rt ids rel st sid bound = Some (Inr out) \<Longrightarrow>
       map_get out i =
         (if i \<in> set ids then Some (SubjectRef rt i rel \<in> holdings F (compiled_readModel (vw_compiled v)) st sid) else None)"
    and many_right: "rd_ContainsMany (vw_facts v) ts = Inr got \<Longrightarrow> got = map (\<lambda>t. t \<in> F) ts"
begin

lemma fill_right:
  assumes "\<And>t x. map_get memo t = Some x \<Longrightarrow> x = (t \<in> F)"
  shows "fill_values memo ts (map (\<lambda>t. t \<in> F) (filter (\<lambda>t. map_get memo t = None) ts)) = map (\<lambda>t. t \<in> F) ts"
  by (induction ts) (auto dest: assms split: option.split)

lemma fold_put_zip:
  "map_get (fold (\<lambda>(k, x). map_put k x) (zip ks (map P ks)) m) k = (if k \<in> set ks then Some (P k) else map_get m k)"
  by (induction ks arbitrary: m) auto

lemma many_memo_right: "upholds consistent (memo_ContainsMany v ts) (\<lambda>found. found = map (\<lambda>t. t \<in> F) ts)"
  unfolding memo_ContainsMany_def
proof (rule upholds_andthen [OF upholds_quiet_step(1)], rule upholdsI, goal_cases)
  case (1 b r b')
  let ?missing = "filter (\<lambda>t. map_get (bd_facts b) t = None) ts"
  have facts: "x = (t \<in> F)" if "map_get (bd_facts b) t = Some x" for t x
    using 1(1) that by (simp add: consistent_def)
  show ?case
  proof (cases "?missing = []")
    case True
    then have "fill_values (bd_facts b) ts [] = map (\<lambda>t. t \<in> F) ts" using fill_right [of "bd_facts b" ts] facts by simp
    then show ?thesis using 1 True by (auto simp: Let_def)
  next
    case False
    show ?thesis
    proof (cases "rd_ContainsMany (vw_facts v) ?missing")
      case (Inl e)
      then show ?thesis using 1 False by (auto simp: Let_def)
    next
      case (Inr got)
      have "got = map (\<lambda>t. t \<in> F) ?missing" by (rule many_right [OF Inr])
      then have "r = Inr (map (\<lambda>t. t \<in> F) ts)"
        "b' = b\<lparr>bd_facts := fold (\<lambda>(t, held). map_put t held) (zip ?missing (map (\<lambda>t. t \<in> F) ?missing)) (bd_facts b)\<rparr>"
        using 1(2) False Inr fill_right [of "bd_facts b" ts] facts by (auto simp: Let_def)
      moreover have "consistent (b\<lparr>bd_facts := fold (\<lambda>(t, held). map_put t held) (zip ?missing (map (\<lambda>t. t \<in> F) ?missing)) (bd_facts b)\<rparr>)"
        using 1(1) facts by (auto simp: consistent_def fold_put_zip split: if_splits)
      ultimately show ?thesis by simp
    qed
  qed
qed

text \<open>What one batched relation read returns about the identifiers asked.\<close>

definition answers :: "string \<Rightarrow> string list \<Rightarrow> string \<Rightarrow> principal \<Rightarrow> (string, bool) go_map \<Rightarrow> bool" where
  "answers rt ids rel p out \<longleftrightarrow>
     (\<forall>i. (i \<in> set ids \<longrightarrow>
             (map_get out i = Some True) = (SubjectRef rt i rel \<in> holdings F (compiled_readModel mdl) (pr_Type p) (pr_ID p))) \<and>
          (i \<notin> set ids \<longrightarrow> map_get out i = None))"

lemma answers_get:
  assumes "answers rt ids rel p out"
  shows "map_get out i = Some True \<longleftrightarrow>
    i \<in> set ids \<and> SubjectRef rt i rel \<in> holdings F (compiled_readModel mdl) (pr_Type p) (pr_ID p)"
proof (cases "i \<in> set ids")
  case True
  then show ?thesis using assms unfolding answers_def by blast
next
  case False
  then have "map_get out i = None" using assms unfolding answers_def by blast
  then show ?thesis using False by simp
qed

lemma expand_right:
  assumes "valid_facts F" "valid_ref (pr_Type p)" "valid_ref (pr_ID p)" "rel \<noteq> []"
  shows "upholds consistent (expand_reads v rt ids rel p) (answers rt ids rel p)"
proof (rule upholdsI)
  fix b r b' assume b: "consistent b" and e: "expand_reads v rt ids rel p b = Some (r, b')"
  consider err where "r = Inl err" "b' = b"
    | out where "gr_BatchDirect (vw_reader v) rt ids rel (pr_Type p) (pr_ID p) (MaxGraphStates (vw_limits v)) = Some (Inr out)"
      "andthen (poll v) (ret out) b = Some (r, b')"
    using e by (auto simp: expand_reads_def split: option.splits sum.splits)
  then show "consistent b' \<and> (\<forall>x. r = Inr x \<longrightarrow> answers rt ids rel p x)"
  proof cases
    case 2
    have "upholds consistent (andthen (poll v) (ret out)) (answers rt ids rel p)"
      using batch_right [OF assms 2(1)]
      by (intro upholds_andthen [OF upholds_quiet_step(1)] upholds_ret) (auto simp: answers_def)
    then show ?thesis using b 2(2) unfolding upholds_def by blast
  qed (use b in simp)
qed

lemma merge_hits:
  "map_get (fold (\<lambda>i out. if map_get expanded i = Some True then map_put i True out else out) ks found) i =
   (if i \<in> set ks \<and> map_get expanded i = Some True then Some True else map_get found i)"
  by (induction ks arbitrary: found) auto

lemma merged_answer:
  "(m = Some True \<Longrightarrow> H) \<Longrightarrow> (\<not> E \<Longrightarrow> m \<noteq> Some True \<Longrightarrow> \<not> H) \<Longrightarrow>
   ((if E \<and> H then Some True else m) = Some True) = H"
  by auto

lemma key_known: "map_get m k = Some x \<Longrightarrow> k \<in> set (map fst m)"
  by (force dest: map_of_SomeD)

lemma note_grants_get:
  "map_get (fold (\<lambda>i out. if map_get results i = Some True \<and> map_get out i = None then map_put i rel out else out) ks g) i =
   (if map_get g i = None \<and> i \<in> set ks \<and> map_get results i = Some True then Some rel else map_get g i)"
  by (induction ks arbitrary: g) auto

lemma note_grants_known:
  "map_get (note_grants rel results g) i \<noteq> None \<longleftrightarrow> map_get g i \<noteq> None \<or> map_get results i = Some True"
  using key_known [of results i True] unfolding note_grants_def note_grants_get by auto

text \<open>The exact reads: a probed identifier has its fact, one not probed cannot be a valid reference.\<close>

definition hit_answers :: "string \<Rightarrow> string list \<Rightarrow> string \<Rightarrow> principal \<Rightarrow> (string, bool) go_map \<Rightarrow> bool" where
  "hit_answers rt ids rel p found \<longleftrightarrow>
     (\<forall>i x. map_get found i = Some x \<longrightarrow>
        i \<in> set ids \<and> x = (Tuple (On rt i) rel (SubjectRef (pr_Type p) (pr_ID p) []) \<in> F))"

lemma directTuple_Some: "directTuple rt i rel p = Some t \<Longrightarrow> t = Tuple (On rt i) rel (SubjectRef (pr_Type p) (pr_ID p) [])"
  by (auto simp: directTuple_def Let_def split: if_splits)

lemma hits_right:
  "upholds consistent (directBatchHits v rt ids rel p)
     (\<lambda>hits. case hits of None \<Rightarrow> True | Some found \<Rightarrow> shortCircuits v rt rel (pr_Type p) \<and> hit_answers rt ids rel p found)"
proof (cases "shortCircuits v rt rel (pr_Type p)")
  case False
  then show ?thesis by (simp add: directBatchHits_def upholds_ret)
next
  case True
  let ?probed = "filter (\<lambda>i. directTuple rt i rel p \<noteq> None) ids"
  let ?fact = "\<lambda>i. Tuple (On rt i) rel (SubjectRef (pr_Type p) (pr_ID p) [])"
  have facts: "map (\<lambda>i. the (directTuple rt i rel p)) ?probed = map ?fact ?probed"
    by (auto dest: directTuple_Some)
  have found: "upholds consistent
      (andthen (poll v)
        (if length (map (\<lambda>t. t \<in> F) (map ?fact ?probed)) \<noteq> length (map ?fact ?probed) then fail batch_cardinality
         else ret (Some (fold (\<lambda>(i, held). map_put i held) (zip ?probed (map (\<lambda>t. t \<in> F) (map ?fact ?probed))) []))))
      (\<lambda>hits. case hits of None \<Rightarrow> True | Some found \<Rightarrow> shortCircuits v rt rel (pr_Type p) \<and> hit_answers rt ids rel p found)"
    using True fold_put_zip [of ?probed "\<lambda>i. ?fact i \<in> F" "[]"]
    by (intro upholds_andthen [OF upholds_quiet_step(1)]) (auto simp: comp_def hit_answers_def intro!: upholds_ret split: if_splits)
  have "upholds consistent
      (bind (memo_ContainsMany v (map ?fact ?probed)) (\<lambda>found. andthen (poll v)
        (if length found \<noteq> length (map ?fact ?probed) then fail batch_cardinality
         else ret (Some (fold (\<lambda>(i, held). map_put i held) (zip ?probed found) [])))))
      (\<lambda>hits. case hits of None \<Rightarrow> True | Some found \<Rightarrow> shortCircuits v rt rel (pr_Type p) \<and> hit_answers rt ids rel p found)"
    by (rule upholds_bind [OF many_memo_right]) (simp only: found)
  moreover have "upholds consistent (ret (Some []))
      (\<lambda>hits. case hits of None \<Rightarrow> True | Some found \<Rightarrow> shortCircuits v rt rel (pr_Type p) \<and> hit_answers rt ids rel p found)"
    using True by (simp add: upholds_ret hit_answers_def)
  moreover have "directBatchHits v rt ids rel p =
      (if map ?fact ?probed = [] then ret (Some [])
       else bind (memo_ContainsMany v (map ?fact ?probed)) (\<lambda>found. andthen (poll v)
        (if length found \<noteq> length (map ?fact ?probed) then fail batch_cardinality
         else ret (Some (fold (\<lambda>(i, held). map_put i held) (zip ?probed found) [])))))"
    unfolding directBatchHits_def Let_def facts using True by (simp only: not_True_eq_False if_False)
  ultimately show ?thesis by presburger
qed

lemma relation_right:
  assumes facts: "valid_facts F" and p: "valid_ref (pr_Type p)" "valid_ref (pr_ID p)" and rel: "rel \<noteq> []" and wf: "model_wf mdl"
  shows "upholds consistent (batch_relation v rt ids rel p) (answers rt ids rel p)"
  unfolding batch_relation_def
proof (rule upholds_bind [OF hits_right])
  fix hits :: "(string, bool) go_map option"
  assume h: "case hits of None \<Rightarrow> True | Some found \<Rightarrow> shortCircuits v rt rel (pr_Type p) \<and> hit_answers rt ids rel p found"
  show "upholds consistent
     (case hits of None \<Rightarrow> expand_reads v rt ids rel p
      | Some found \<Rightarrow>
          let expand = filter (\<lambda>i. map_get found i \<noteq> Some True \<and> (map_get found i = None \<or> relationHasUsersets mdl rt rel)) ids
          in if expand = [] then ret found
             else bind (expand_reads v rt expand rel p)
                   (\<lambda>expanded. ret (fold (\<lambda>i out. if map_get expanded i = Some True then map_put i True out else out)
                      (map fst expanded) found)))
     (answers rt ids rel p)"
  proof (cases hits)
    case None
    then show ?thesis using expand_right [OF facts p rel] by simp
  next
    case (Some found)
    let ?held = "\<lambda>i. SubjectRef rt i rel \<in> holdings F (compiled_readModel mdl) (pr_Type p) (pr_ID p)"
    let ?expand = "filter (\<lambda>i. map_get found i \<noteq> Some True \<and> (map_get found i = None \<or> relationHasUsersets mdl rt rel)) ids"
    have short: "shortCircuits v rt rel (pr_Type p)" and hit: "hit_answers rt ids rel p found" using h Some by simp_all
    have yes: "?held i" if "map_get found i = Some True" for i
      using exact_fact [OF facts rel wf short, of i "pr_ID p"] hit that by (auto simp: hit_answers_def)
    have no: "\<not> ?held i" if "i \<in> set ids" "i \<notin> set ?expand" "map_get found i \<noteq> Some True" for i
    proof -
      have "map_get found i = Some False" "\<not> relationHasUsersets mdl rt rel" using that by auto
      then show ?thesis
        using exact_fact [OF facts rel wf short, of i "pr_ID p"] hit by (auto simp: hit_answers_def)
    qed
    have outside: "map_get found i = None" if "i \<notin> set ids" for i
      using hit that by (cases "map_get found i") (auto simp: hit_answers_def)
    have none: "answers rt ids rel p found" if "?expand = []"
      unfolding answers_def
    proof (intro allI conjI impI)
      fix i assume i: "i \<in> set ids"
      moreover have "i \<notin> set ?expand" by (simp only: that list.set) simp
      ultimately show "(map_get found i = Some True) = ?held i" using yes [of i] no [of i] by blast
    qed (rule outside)
    have some: "answers rt ids rel p
        (fold (\<lambda>i out. if map_get expanded i = Some True then map_put i True out else out) (map fst expanded) found)"
      if ex: "answers rt ?expand rel p expanded" for expanded
    proof -
      have get: "map_get expanded i = Some True \<longleftrightarrow> i \<in> set ?expand \<and> ?held i" for i
        by (rule answers_get [OF ex])
      have merged: "map_get (fold (\<lambda>i out. if map_get expanded i = Some True then map_put i True out else out)
          (map fst expanded) found) i = (if i \<in> set ?expand \<and> ?held i then Some True else map_get found i)" for i
      proof -
        have "i \<in> set (map fst expanded) \<and> map_get expanded i = Some True \<longleftrightarrow> i \<in> set ?expand \<and> ?held i"
          using get [of i] key_known [of expanded i True] by blast
        then show ?thesis unfolding merge_hits by (simp only:)
      qed
      show ?thesis
        unfolding answers_def merged
      proof (intro allI conjI impI)
        fix i assume "i \<in> set ids"
        then show "((if i \<in> set ?expand \<and> ?held i then Some True else map_get found i) = Some True) = ?held i"
          by (intro merged_answer) (rule yes, assumption, rule no)
      next
        fix i assume "i \<notin> set ids"
        then show "(if i \<in> set ?expand \<and> ?held i then Some True else map_get found i) = None"
          using outside [of i] by simp
      qed
    qed
    show ?thesis
    proof (cases "?expand = []")
      case True
      show ?thesis unfolding Some option.case Let_def True by (simp add: none [OF True] upholds_ret)
    next
      case False
      show ?thesis
        unfolding Some option.case Let_def if_not_P [OF False]
        by (rule upholds_bind [OF expand_right [OF facts p rel]], rule upholds_ret, rule some)
    qed
  qed
qed

text \<open>
  The loop: every identifier is either granted by a relation already read, or still undecided and
  held by none of them.
\<close>

definition relation_held :: "string \<Rightarrow> principal \<Rightarrow> expression \<Rightarrow> string \<Rightarrow> bool" where
  "relation_held rt p chk i \<longleftrightarrow> SubjectRef rt i (ex_Relation chk) \<in> holdings F (compiled_readModel mdl) (pr_Type p) (pr_ID p)"

lemma checks_right:
  assumes facts: "valid_facts F" and p: "valid_ref (pr_Type p)" "valid_ref (pr_ID p)" and wf: "model_wf mdl"
    and rel: "\<forall>chk\<in>set checks. ex_Relation chk \<noteq> []"
    and ids: "\<And>i. i \<in> set all \<Longrightarrow> i \<in> set ids \<longleftrightarrow> map_get grantedBy i = None"
  shows "upholds consistent (batch_checks v rt p checks spent ids grantedBy)
    (\<lambda>out. \<forall>i\<in>set all. map_get out i \<noteq> None \<longleftrightarrow> map_get grantedBy i \<noteq> None \<or> (\<exists>chk\<in>set checks. relation_held rt p chk i))"
  using rel ids
proof (induction checks arbitrary: spent ids grantedBy)
  case Nil
  then show ?case by (simp add: upholds_ret)
next
  case (Cons chk checks)
  show ?case
  proof (cases "ids = []")
    case True
    then show ?thesis using Cons.prems(2) by (auto intro!: upholds_ret)
  next
    case False
    have chk: "ex_Relation chk \<noteq> []" using Cons.prems(1) by simp
    have step: "upholds consistent
        (batch_checks v rt p checks (spent + 1) (filter (\<lambda>i. map_get results i \<noteq> Some True) ids)
           (note_grants (ex_Relation chk) results grantedBy))
        (\<lambda>out. \<forall>i\<in>set all. map_get out i \<noteq> None \<longleftrightarrow>
           map_get grantedBy i \<noteq> None \<or> (\<exists>chk\<in>set (chk # checks). relation_held rt p chk i))"
      if ans: "answers rt ids (ex_Relation chk) p results" for results
    proof (rule upholds_weaken [OF Cons.IH])
      show "\<forall>chk\<in>set checks. ex_Relation chk \<noteq> []" using Cons.prems(1) by simp
    next
      fix i assume "i \<in> set all"
      then show "i \<in> set (filter (\<lambda>i. map_get results i \<noteq> Some True) ids) \<longleftrightarrow>
          map_get (note_grants (ex_Relation chk) results grantedBy) i = None"
        using Cons.prems(2) [of i] note_grants_known [of "ex_Relation chk" results grantedBy i] by auto
    next
      fix out
      assume out: "\<forall>i\<in>set all. map_get out i \<noteq> None \<longleftrightarrow>
          map_get (note_grants (ex_Relation chk) results grantedBy) i \<noteq> None \<or> (\<exists>chk\<in>set checks. relation_held rt p chk i)"
      show "\<forall>i\<in>set all. map_get out i \<noteq> None \<longleftrightarrow>
           map_get grantedBy i \<noteq> None \<or> (\<exists>chk\<in>set (chk # checks). relation_held rt p chk i)"
      proof
        fix i assume i: "i \<in> set all"
        have "map_get results i = Some True \<longleftrightarrow> i \<in> set ids \<and> relation_held rt p chk i"
          unfolding relation_held_def by (rule answers_get [OF ans])
        then show "map_get out i \<noteq> None \<longleftrightarrow>
           map_get grantedBy i \<noteq> None \<or> (\<exists>chk\<in>set (chk # checks). relation_held rt p chk i)"
          using bspec [OF out i] note_grants_known [of "ex_Relation chk" results grantedBy i] Cons.prems(2) [OF i]
          unfolding set_simps bex_simps by blast
      qed
    qed
    have read: "upholds consistent
        (bind (batch_relation v rt ids (ex_Relation chk) p) (\<lambda>results.
           batch_checks v rt p checks (spent + 1) (filter (\<lambda>i. map_get results i \<noteq> Some True) ids)
             (note_grants (ex_Relation chk) results grantedBy)))
        (\<lambda>out. \<forall>i\<in>set all. map_get out i \<noteq> None \<longleftrightarrow>
           map_get grantedBy i \<noteq> None \<or> (\<exists>chk\<in>set (chk # checks). relation_held rt p chk i))"
      by (rule upholds_bind [OF relation_right [OF facts p chk wf]], rule step)
    show ?thesis
      unfolding batch_checks.simps if_not_P [OF False] if_not_P [OF chk]
      by (rule upholds_andthen [OF upholds_quiet_step(1)]) (use read in \<open>simp only: upholds_fail simp_thms split: if_split\<close>)
  qed
qed

text \<open>The permission is a flat disjunction of relations of the resource itself.\<close>

definition flat :: "string \<Rightarrow> string \<Rightarrow> expression list \<Rightarrow> bool" where
  "flat rt perm checks \<longleftrightarrow>
     declaresPermission mdl rt perm \<and> (\<forall>chk\<in>set checks. ex_Relation chk \<noteq> []) \<and>
     (\<forall>p i. grants F mdl p \<lparr>rs_Type = rt, rs_ID = i\<rparr> (permission_expression mdl rt perm) \<longleftrightarrow>
       (\<exists>chk\<in>set checks. relation_held rt p chk i))"

lemma optimized_right:
  assumes facts: "valid_facts F" and wf: "model_wf mdl" and batch: "canBatch mdl reqs"
    and valid: "\<forall>req\<in>set reqs. ValidateCheckRequest req = None"
    and flat: "\<And>rt perm checks. permissionChecks mdl rt perm = Some checks \<Longrightarrow> \<forall>chk\<in>set checks. ex_Through chk = [] \<Longrightarrow>
      flat rt perm checks"
  shows "upholds consistent (checkBatchOptimized v reqs) (\<lambda>rs. map ck_Allowed rs = map (authorized F mdl) reqs)"
proof -
  obtain first rest where reqs: "reqs = first # rest" using batch by (auto simp: canBatch_def split: list.splits)
  let ?rt = "rs_Type (rq_Resource first)" and ?perm = "rq_Permission first" and ?p = "rq_Principal first"
  obtain checks where checks: "permissionChecks mdl ?rt ?perm = Some checks" "checks \<noteq> []" "\<forall>chk\<in>set checks. ex_Through chk = []"
    using batch by (auto simp: canBatch_def reqs list_all_iff split: option.splits)
  have fl: "flat ?rt ?perm checks" by (rule flat [OF checks(1,3)])
  have same: "rq_Principal req = ?p \<and> rq_Permission req = ?perm \<and> rs_Type (rq_Resource req) = ?rt" if "req \<in> set reqs" for req
    using that batch by (auto simp: canBatch_def reqs list_all_iff)
  have p: "valid_ref (pr_Type ?p)" "valid_ref (pr_ID ?p)"
    using valid by (auto simp: reqs ValidateCheckRequest_def ValidatePrincipal_def or_else_def split: option.splits)
  let ?ids = "dedupeSort (map (\<lambda>req. rs_ID (rq_Resource req)) reqs)"
  have loop: "upholds consistent (batch_checks v ?rt ?p checks spent ?ids [])
      (\<lambda>out. \<forall>i\<in>set ?ids. map_get out i \<noteq> None \<longleftrightarrow> map_get ([] :: (string, string) go_map) i \<noteq> None \<or> (\<exists>chk\<in>set checks. relation_held ?rt ?p chk i))" for spent
    by (rule checks_right [OF facts p wf]) (use fl in \<open>auto simp: flat_def\<close>)
  have result: "map ck_Allowed (map (batch_result out) reqs) = map (authorized F mdl) reqs"
    if out: "\<forall>i\<in>set ?ids. map_get out i \<noteq> None \<longleftrightarrow> map_get ([] :: (string, string) go_map) i \<noteq> None \<or> (\<exists>chk\<in>set checks. relation_held ?rt ?p chk i)" for out
  proof -
    have "ck_Allowed (batch_result out req) = authorized F mdl req" if req: "req \<in> set reqs" for req
    proof -
      have "ck_Allowed (batch_result out req) \<longleftrightarrow> map_get out (rs_ID (rq_Resource req)) \<noteq> None"
        by (simp add: batch_result_def decision_def split: option.split)
      also have "\<dots> \<longleftrightarrow> (\<exists>chk\<in>set checks. relation_held ?rt ?p chk (rs_ID (rq_Resource req)))"
        using out req by simp
      also have "\<dots> \<longleftrightarrow> authorized F mdl req"
        using fl same [OF req] by (cases "rq_Resource req") (simp add: authorized_def flat_def)
      finally show ?thesis .
    qed
    then show ?thesis by simp
  qed
  show ?thesis
    unfolding checkBatchOptimized_def reqs list.case Let_def checks(1) option.case if_not_P [OF checks(2)]
    by (rule upholds_andthen [OF upholds_quiet_step(1)], rule upholds_bind [OF loop [unfolded reqs]], rule upholds_ret,
        rule result [unfolded reqs])
qed

lemma compiled_flat:
  assumes c: "Compile schema = Inr mdl" and ok: "schema_ok schema"
    and checks: "permissionChecks mdl rt perm = Some checks" and direct: "\<forall>chk\<in>set checks. ex_Through chk = []"
  shows "flat rt perm checks"
proof -
  obtain e where e: "permission_expression mdl rt perm = e" "graphChecks e = Some checks" "node_error False e = None"
    "declaresPermission mdl rt perm" and leaves: "\<forall>l\<in>set (leaves_of e). leaf_valid (model_declarations schema) rt False l"
    by (rule compiled_checks_expression [OF c ok checks])
  have leaf: "is_leaf chk" "ex_Relation chk \<noteq> []" if "chk \<in> set checks" for chk
    using graphChecks_leaf [OF e(2) that] direct that by auto
  have one: "ex_RoleName chk = [] \<and> ex_NamedPermission chk = [] \<and> leaf_resource chk r = r" if chk: "chk \<in> set checks" for chk r
  proof -
    have "leaf_valid (model_declarations schema) rt False chk" using leaves graphChecks_leaf(2) [OF e(2) chk] by blast
    then show ?thesis using valid_direct_leaf leaf [OF chk] by blast
  qed
  have "grants F mdl p \<lparr>rs_Type = rt, rs_ID = i\<rparr> chk = relation_held rt p chk i" if "chk \<in> set checks" for p i chk
    using leaf [OF that] one [OF that] direct that
    by (subst grants_unfold) (simp add: leaf_step_defs directly_held_def relation_held_def)
  moreover have "grants F mdl p r e \<longleftrightarrow> (\<exists>chk\<in>set checks. grants F mdl p r chk)" for p r
    by (rule graphChecks_grants [OF e(2,3)])
  ultimately show ?thesis using leaf(2) e(1,4) by (simp add: flat_def)
qed

lemma batch_answers:
  assumes facts: "valid_facts F" and c: "Compile schema = Inr mdl" "schema_ok schema"
    and batch: "canBatch mdl reqs" "\<forall>req\<in>set reqs. ValidateCheckRequest req = None"
    and run: "checkBatchOptimized v reqs fresh_budget = Some (Inr rs, b) \<or> checkBatchSequential v reqs fresh_budget = Some (Inr rs, b)"
  shows "map ck_Allowed rs = map (authorized F mdl) reqs"
proof -
  have wf: "model_wf mdl" by (rule Compile_wf [OF c])
  have opt: "upholds consistent (checkBatchOptimized v reqs) (\<lambda>rs. map ck_Allowed rs = map (authorized F mdl) reqs)"
    by (rule optimized_right [OF facts wf batch]) (rule compiled_flat [OF c])
  from run show ?thesis
  proof
    assume "checkBatchOptimized v reqs fresh_budget = Some (Inr rs, b)"
    from upholdsD(2) [OF opt consistent_fresh this] show ?thesis by simp
  next
    assume "checkBatchSequential v reqs fresh_budget = Some (Inr rs, b)"
    from upholdsD(2) [OF sequential_right [OF facts wf] consistent_fresh this] show ?thesis by simp
  qed
qed

end

section \<open>Both readers\<close>

lemma snapshot_contains_many:
  "rd_ContainsMany (snapshot_reads False None facts) ts = Inr got \<Longrightarrow> got = map (\<lambda>t. t \<in> set facts) ts"
  by (auto simp: snapshot_reads_def snapshot_check_def ContainsMany_def guarded_def split: option.splits)

lemma exact_batch:
  assumes "\<exists>out. gr = Some (expansion F m st sid bound out) \<and> (\<forall>i. map_get out i = f i)" "gr = Some (Inr out)"
  shows "map_get out i = f i"
  using assms by (auto simp: expansion_def split: if_splits)

interpretation snap: coherent_batch "snapshot_view c limits first diag resolve ctx facts" "set facts"
  for c limits first diag resolve ctx facts
proof
  fix st sid rel rt :: string and ids bound out i
  assume ok: "valid_facts (set facts)" "valid_ref st" "valid_ref sid" "rel \<noteq> []"
    and "gr_BatchDirect (vw_reader (snapshot_view c limits first diag resolve ctx facts)) rt ids rel st sid bound = Some (Inr out)"
  then show "map_get out i = (if i \<in> set ids
      then Some (SubjectRef rt i rel \<in> holdings (set facts)
        (compiled_readModel (vw_compiled (snapshot_view c limits first diag resolve ctx facts))) st sid) else None)"
    using exact_batch [OF portable.batch_exact [OF ok, of "compiled_readModel c" rt ids bound]] by (simp add: view_defs)
qed (simp add: view_defs snapshot_contains_many)

interpretation mem: coherent_batch "memory_view c limits first diag resolve ctx facts" "set facts"
  for c limits first diag resolve ctx facts
proof
  fix st sid rel rt :: string and ids bound out i
  assume ok: "valid_facts (set facts)" "valid_ref st" "valid_ref sid" "rel \<noteq> []"
    and "gr_BatchDirect (vw_reader (memory_view c limits first diag resolve ctx facts)) rt ids rel st sid bound = Some (Inr out)"
  then show "map_get out i = (if i \<in> set ids
      then Some (SubjectRef rt i rel \<in> holdings (set facts)
        (compiled_readModel (vw_compiled (memory_view c limits first diag resolve ctx facts))) st sid) else None)"
    using exact_batch [OF rows.batch_exact [OF ok, of "compiled_readModel c" rt ids bound]] by (simp add: view_defs)
qed (simp add: view_defs snapshot_contains_many)

section \<open>Properties\<close>

text \<open>
  Property C7.  The optimized batch decides as the ordinary check.  When \<open>checkBatch\<close> may take the
  path of one read per relation (one principal, one permission, one resource type, a permission
  that is a flat disjunction of relations), then for every schema that compiled, every set of
  valid facts and either reader, whatever that path returns has one result per request, in order,
  and each is what the policy grants; so are the results of one check per request, so the two paths
  never disagree, although the batch reads every relation once for all requests still undecided,
  remembers which relation granted and skips the expansion for relations without usersets.
\<close>

theorem optimized_batch_decides:
  assumes "Compile schema = Inr c" "schema_ok schema" "valid_facts (set facts)"
    and "v = snapshot_view c limits first diag resolve ctx facts \<or> v = memory_view c limits first diag resolve ctx facts"
    and "canBatch c reqs" "\<forall>req\<in>set reqs. ValidateCheckRequest req = None"
    and "checkBatchOptimized v reqs fresh_budget = Some (Inr rs, b) \<or> checkBatchSequential v reqs fresh_budget = Some (Inr rs, b)"
  shows "map ck_Allowed rs = map (authorized (set facts) c) reqs"
proof -
  have run: "checkBatchOptimized v reqs fresh_budget = Some (Inr rs, b) \<or> checkBatchSequential v reqs fresh_budget = Some (Inr rs, b)"
    by (rule assms(7))
  from assms(4) show ?thesis
  proof
    assume v: "v = snapshot_view c limits first diag resolve ctx facts"
    have c: "vw_compiled (snapshot_view c limits first diag resolve ctx facts) = c" by (simp add: view_defs)
    have given: "Compile schema = Inr (vw_compiled (snapshot_view c limits first diag resolve ctx facts))"
      "canBatch (vw_compiled (snapshot_view c limits first diag resolve ctx facts)) reqs"
      using assms(1,5) by (simp_all only: c)
    from snap.batch_answers [OF assms(3) given(1) assms(2) given(2) assms(6) run [unfolded v]] show ?thesis
      by (simp only: c)
  next
    assume v: "v = memory_view c limits first diag resolve ctx facts"
    have c: "vw_compiled (memory_view c limits first diag resolve ctx facts) = c" by (simp add: view_defs)
    have given: "Compile schema = Inr (vw_compiled (memory_view c limits first diag resolve ctx facts))"
      "canBatch (vw_compiled (memory_view c limits first diag resolve ctx facts)) reqs"
      using assms(1,5) by (simp_all only: c)
    from mem.batch_answers [OF assms(3) given(1) assms(2) given(2) assms(6) run [unfolded v]] show ?thesis
      by (simp only: c)
  qed
qed

lemma optimized_batch_decides_witness:
  "\<exists>rs b. checkBatchSequential sample_view [ask ''folder'' ''f''] fresh_budget = Some (Inr rs, b) \<and>
    map ck_Allowed rs = map (authorized (set sample_facts) sample_model) [ask ''folder'' ''f'']"
proof -
  have fresh: "newBudget (fresh_budget\<lparr>bd_targets := [], bd_direct := []\<rparr>) = fresh_budget\<lparr>bd_polls := 0\<rparr>"
    by (simp add: newBudget_def fresh_budget_def)
  obtain b where b: "check sample_view (ask ''folder'' ''f'') (fresh_budget\<lparr>bd_polls := 0\<rparr>) =
      Some (Inr (decision True ''direct:viewer''), b)" using sample_check by blast
  have run: "checkBatchSequential sample_view [ask ''folder'' ''f''] fresh_budget = Some (Inr [decision True ''direct:viewer''], b)"
    by (simp add: checkBatchSequential_def bind_def ret_def fresh b)
  have batch: "canBatch sample_model [ask ''folder'' ''f'']" by code_simp
  show ?thesis
    using optimized_batch_decides [OF sample_compiles sample_ok(1,2) disjI1 [OF sample_view_def] batch _ disjI2 [OF run]] run by simp
qed

end
