(* ===== verification/Batch_Operation.thy ===== *)
theory Batch_Operation
  imports Batch_Checks
begin

text \<open>
  A batch as one operation, \<open>checkBatchOperation\<close>, \<open>checkBatch\<close> and \<open>filterAuthorized\<close> of
  \<open>src/pockets/authorization/logic/decisions/evaluate.go\<close>: the size and validity checks, the choice of
  the path and the polls of the context.  \<open>traverse\<close> stands for the scheduler that
  \<open>checkBatchTraversal\<close> starts for two requests or more (\<open>batch_evaluate.go\<close>), which is not modelled: a
  permission that is a flat disjunction of relations never reaches it.  The lemmas show when such a batch
  returns: the context stays live, the steps suffice for its relations and the bound on graph states for
  what the principal holds.
\<close>

section \<open>The operation\<close>

text \<open>\<open>withOperation\<close> of a service outside a snapshot, and of a view that already reads one.\<close>

definition operation :: "bool \<Rightarrow> view \<Rightarrow> 'a run \<Rightarrow> 'a run" where
  "operation inSnapshot v m =
     (if inSnapshot then andthen (poll v) (then_poll v m) else withOperation v m)"

definition checkBatchTraversal ::
  "view \<Rightarrow> (check_request list \<Rightarrow> check_result list run) \<Rightarrow> check_request list \<Rightarrow> check_result list run" where
  "checkBatchTraversal v traverse reqs =
     (if length reqs < 2 then checkBatchSequential v reqs else traverse reqs)"

definition checkBatch ::
  "view \<Rightarrow> (check_request list \<Rightarrow> check_result list run) \<Rightarrow> check_request list \<Rightarrow> check_result list run" where
  "checkBatch v traverse reqs =
     (if reqs = [] then ret []
      else if int (length reqs) > MaxBatchSize (vw_limits v) then fail ErrEvaluationLimit
      else
        (case first_error (map ValidateCheckRequest reqs) of
           Some e \<Rightarrow> fail e
         | None \<Rightarrow>
             (if canBatch (vw_compiled v) reqs then checkBatchOptimized v reqs
              else checkBatchTraversal v traverse reqs)))"

definition checkBatchOperation ::
  "bool \<Rightarrow> view \<Rightarrow> (check_request list \<Rightarrow> check_result list run) \<Rightarrow> check_request list \<Rightarrow> check_result list run" where
  "checkBatchOperation inSnapshot v traverse reqs =
     (if reqs = [] then ret []
      else if int (length reqs) > MaxBatchSize (vw_limits v) then fail ErrEvaluationLimit
      else
        (case first_error (map ValidateCheckRequest reqs) of
           Some e \<Rightarrow> fail e
         | None \<Rightarrow>
             andthen (poll v)
               (if \<not> list_ex (\<lambda>req. declaresPermission (vw_compiled v) (rs_Type (rq_Resource req)) (rq_Permission req)) reqs
                then ret (map (\<lambda>_. decision False ''no rules defined'') reqs)
                else operation inSnapshot v (checkBatch v traverse reqs))))"

text \<open>The request for one identifier of a filter.\<close>

definition asks :: "principal \<Rightarrow> string \<Rightarrow> string \<Rightarrow> string \<Rightarrow> check_request" where
  "asks p permission rt i = \<lparr>rq_Principal = p, rq_Permission = permission, rq_Resource = \<lparr>rs_Type = rt, rs_ID = i\<rparr>\<rparr>"

definition filterAuthorized ::
  "bool \<Rightarrow> view \<Rightarrow> (check_request list \<Rightarrow> check_result list run) \<Rightarrow> principal \<Rightarrow> string \<Rightarrow> string \<Rightarrow> string list \<Rightarrow>
   string list run" where
  "filterAuthorized inSnapshot v traverse p permission rt ids =
     (if ids = [] then ret []
      else if int (length ids) > MaxBatchSize (vw_limits v) then fail ErrEvaluationLimit
      else
        bind (checkBatchOperation inSnapshot v traverse (map (asks p permission rt) ids))
          (\<lambda>results. ret (map fst (filter (\<lambda>(i, result). ck_Allowed result) (zip ids results)))))"

lemma filter_zip_map: "map fst (filter (\<lambda>(i, x). f x) (zip xs ys)) = filter g xs" if "map f ys = map g xs"
proof -
  have len: "length ys = length xs" using that by (metis length_map)
  then show ?thesis using that by (induction ys xs rule: list_induct2) auto
qed

section \<open>When a batch returns\<close>

text \<open>\<open>m\<close> returns a result from every budget that satisfies \<open>I\<close>.\<close>

definition succeeds :: "(budget \<Rightarrow> bool) \<Rightarrow> 'a run \<Rightarrow> bool" where
  "succeeds I m \<longleftrightarrow> (\<forall>b. I b \<longrightarrow> (\<exists>x b'. m b = Some (Inr x, b')))"

lemma succeedsD: "succeeds I m \<Longrightarrow> I b \<Longrightarrow> \<exists>x b'. m b = Some (Inr x, b')"
  by (simp add: succeeds_def)

lemma succeeds_ret: "succeeds I (ret x)"
  by (simp add: succeeds_def ret_def)

lemma succeeds_bind:
  assumes "succeeds I m" "upholds I m Q" "\<And>x. Q x \<Longrightarrow> succeeds I (f x)"
  shows "succeeds I (bind m f)"
  unfolding succeeds_def
proof (intro allI impI)
  fix b assume b: "I b"
  obtain x b' where m: "m b = Some (Inr x, b')" using succeedsD [OF assms(1) b] by blast
  then have "I b'" "Q x" using upholdsD [OF assms(2) b m] by simp_all
  from succeedsD [OF assms(3) [OF this(2)] this(1)] show "\<exists>x b'. bind m f b = Some (Inr x, b')"
    by (simp add: bind_def m)
qed

text \<open>A view whose context is live and whose reads answer.\<close>

locale live_batch = coherent_batch +
  assumes live: "vw_ctx v n = None"
    and many_returns: "\<forall>t\<in>set ts. Tuple_Validate t = None \<Longrightarrow> \<exists>got. rd_ContainsMany (vw_facts v) ts = Inr got"
    and batch_returns:
      "valid_facts F \<Longrightarrow> valid_ref st \<Longrightarrow> valid_ref sid \<Longrightarrow> rel \<noteq> [] \<Longrightarrow>
       int (card (holdings F (compiled_readModel (vw_compiled v)) st sid)) \<le> bound \<Longrightarrow>
       \<exists>out. gr_BatchDirect (vw_reader v) rt ids rel st sid bound = Some (Inr out)"
begin

lemma poll_live: "poll v b = Some (Inr (), b\<lparr>bd_polls := Suc (bd_polls b)\<rparr>)"
  by (simp add: poll_def live)

lemma succeeds_poll: "succeeds consistent k \<Longrightarrow> succeeds consistent (andthen (poll v) k)"
  by (rule succeeds_bind [OF _ upholds_quiet_step(1)]) (simp_all add: succeeds_def poll_live)

lemma succeeds_then_poll: "succeeds consistent m \<Longrightarrow> succeeds consistent (then_poll v m)"
  by (fastforce simp: succeeds_def then_poll_def poll_live)

lemma succeeds_operation:
  assumes m: "succeeds consistent m" and q: "upholds consistent m Q"
  shows "succeeds consistent (operation inSnapshot v m)"
proof (cases inSnapshot)
  case True
  then show ?thesis by (simp add: operation_def succeeds_poll succeeds_then_poll m)
next
  case False
  have "succeeds consistent (bind (then_poll v m) (\<lambda>x. andthen (poll v) (ret x)))"
    by (rule succeeds_bind [OF succeeds_then_poll [OF m] upholds_then_poll [OF memo_consistent q]])
      (intro succeeds_poll succeeds_ret)
  then show ?thesis
    using False unfolding operation_def withOperation_def if_False
    by (simp add: succeeds_poll succeeds_then_poll)
qed

lemma upholds_operation: "upholds consistent m Q \<Longrightarrow> upholds consistent (operation inSnapshot v m) Q"
  unfolding operation_def
  using upholds_withOperation [of m Q] upholds_andthen [OF upholds_quiet_step(1) upholds_then_poll [OF memo_consistent, of m Q]]
  by simp

lemma many_succeeds:
  assumes "\<forall>t\<in>set ts. Tuple_Validate t = None"
  shows "succeeds consistent (memo_ContainsMany v ts)"
  unfolding memo_ContainsMany_def
proof (rule succeeds_poll)
  have "\<exists>x b'. (let missing = filter (\<lambda>t. map_get (bd_facts b) t = None) ts in
       if missing = [] then Some (Inr (fill_values (bd_facts b) ts []), b)
       else
         (case rd_ContainsMany (vw_facts v) missing of
            Inl e \<Rightarrow> Some (Inl e, b)
          | Inr got \<Rightarrow>
              if length got \<noteq> length missing then Some (Inl batch_cardinality, b)
              else
                Some (Inr (fill_values (bd_facts b) ts got),
                  b\<lparr>bd_facts := fold (\<lambda>(t, held). map_put t held) (zip missing got) (bd_facts b)\<rparr>))) = Some (Inr x, b')" for b
  proof -
    let ?missing = "filter (\<lambda>t. map_get (bd_facts b) t = None) ts"
    have "\<forall>t\<in>set ?missing. Tuple_Validate t = None" using assms by simp
    then obtain got where got: "rd_ContainsMany (vw_facts v) ?missing = Inr got" using many_returns by blast
    then have "length got = length ?missing" using many_right [OF got] by simp
    then show ?thesis using got by (simp add: Let_def)
  qed
  then show "succeeds consistent (\<lambda>b.
       let missing = filter (\<lambda>t. map_get (bd_facts b) t = None) ts in
       if missing = [] then Some (Inr (fill_values (bd_facts b) ts []), b)
       else
         (case rd_ContainsMany (vw_facts v) missing of
            Inl e \<Rightarrow> Some (Inl e, b)
          | Inr got \<Rightarrow>
              if length got \<noteq> length missing then Some (Inl batch_cardinality, b)
              else
                Some (Inr (fill_values (bd_facts b) ts got),
                  b\<lparr>bd_facts := fold (\<lambda>(t, held). map_put t held) (zip missing got) (bd_facts b)\<rparr>)))"
    unfolding succeeds_def by blast
qed

lemma hits_succeed: "succeeds consistent (directBatchHits v rt ids rel p)"
proof -
  let ?probed = "filter (\<lambda>i. directTuple rt i rel p \<noteq> None) ids"
  let ?facts = "map (\<lambda>i. the (directTuple rt i rel p)) ?probed"
  have "\<forall>t\<in>set ?facts. Tuple_Validate t = None"
    by (auto simp: directTuple_def Let_def split: if_splits)
  then have "succeeds consistent (bind (memo_ContainsMany v ?facts) (\<lambda>found.
             andthen (poll v)
               (if length found \<noteq> length ?facts then fail batch_cardinality
                else ret (Some (fold (\<lambda>(i, held). map_put i held) (zip ?probed found) [])))))"
    by (intro succeeds_bind [OF many_succeeds many_memo_right] succeeds_poll) (simp_all add: succeeds_ret)
  then show ?thesis
    unfolding directBatchHits_def Let_def by (simp only: succeeds_ret simp_thms split: if_split)
qed

text \<open>The principal holds no more than the bound on graph states.\<close>

definition room :: "principal \<Rightarrow> bool" where
  "room p \<longleftrightarrow> int (card (holdings F (compiled_readModel mdl) (pr_Type p) (pr_ID p))) \<le> MaxGraphStates (vw_limits v)"

lemma expand_succeeds:
  assumes "valid_facts F" "valid_ref (pr_Type p)" "valid_ref (pr_ID p)" "rel \<noteq> []" "room p"
  shows "succeeds consistent (expand_reads v rt ids rel p)"
proof -
  obtain out where "gr_BatchDirect (vw_reader v) rt ids rel (pr_Type p) (pr_ID p) (MaxGraphStates (vw_limits v)) = Some (Inr out)"
    using batch_returns [OF assms(1-4)] assms(5) unfolding room_def by blast
  then show ?thesis by (simp add: succeeds_def expand_reads_def bind_def poll_live ret_def)
qed

lemma relation_succeeds:
  assumes "valid_facts F" "valid_ref (pr_Type p)" "valid_ref (pr_ID p)" "rel \<noteq> []" "room p"
  shows "succeeds consistent (batch_relation v rt ids rel p)"
  unfolding batch_relation_def
proof (rule succeeds_bind [OF hits_succeed hits_right])
  fix hits :: "(string, bool) go_map option"
  have step: "succeeds consistent (bind (expand_reads v rt is rel p) (\<lambda>expanded. ret (g expanded)))"
    for "is" and g :: "_ \<Rightarrow> (string, bool) go_map"
    by (rule succeeds_bind [OF expand_succeeds [OF assms] expand_right [OF assms(1-4)] succeeds_ret])
  show "succeeds consistent
     (case hits of None \<Rightarrow> expand_reads v rt ids rel p
      | Some found \<Rightarrow>
          let expand = filter (\<lambda>i. map_get found i \<noteq> Some True \<and> (map_get found i = None \<or> relationHasUsersets mdl rt rel)) ids
          in if expand = [] then ret found
             else bind (expand_reads v rt expand rel p)
                   (\<lambda>expanded. ret (fold (\<lambda>i out. if map_get expanded i = Some True then map_put i True out else out)
                      (map fst expanded) found)))"
    unfolding Let_def by (cases hits) (simp_all only: option.case succeeds_ret expand_succeeds [OF assms] step simp_thms split: if_split)
qed

lemma checks_succeed:
  assumes facts: "valid_facts F" and p: "valid_ref (pr_Type p)" "valid_ref (pr_ID p)" and wf: "model_wf mdl" and room: "room p"
  shows "\<forall>chk\<in>set checks. ex_Relation chk \<noteq> [] \<Longrightarrow> spent + int (length checks) \<le> MaxEvaluationSteps (vw_limits v) \<Longrightarrow>
    succeeds consistent (batch_checks v rt p checks spent ids grantedBy)"
proof (induction checks arbitrary: spent ids grantedBy)
  case (Cons chk checks)
  have chk: "ex_Relation chk \<noteq> []" using Cons.prems(1) by simp
  have steps: "\<not> spent + 1 > MaxEvaluationSteps (vw_limits v)" using Cons.prems(2) by simp
  have rest: "succeeds consistent
      (bind (batch_relation v rt ids (ex_Relation chk) p) (\<lambda>results.
         batch_checks v rt p checks (spent + 1) (filter (\<lambda>i. map_get results i \<noteq> Some True) ids)
           (note_grants (ex_Relation chk) results grantedBy)))"
    by (rule succeeds_bind [OF relation_succeeds [OF facts p chk room] relation_right [OF facts p chk wf]], rule Cons.IH)
      (use Cons.prems in simp_all)
  show ?case
    unfolding batch_checks.simps if_not_P [OF steps] if_not_P [OF chk]
    using succeeds_poll [OF rest] by (simp add: succeeds_ret)
qed (simp add: succeeds_ret)

lemma optimized_succeeds:
  assumes facts: "valid_facts F" and wf: "model_wf mdl" and reqs: "reqs = first # rest"
    and p: "valid_ref (pr_Type (rq_Principal first))" "valid_ref (pr_ID (rq_Principal first))" and room: "room (rq_Principal first)"
    and checks: "permissionChecks mdl (rs_Type (rq_Resource first)) (rq_Permission first) = Some checks" "checks \<noteq> []"
    and rel: "\<forall>chk\<in>set checks. ex_Relation chk \<noteq> []"
    and steps: "int (length checks) + 2 \<le> MaxEvaluationSteps (vw_limits v)"
  shows "succeeds consistent (checkBatchOptimized v reqs)"
proof -
  let ?rt = "rs_Type (rq_Resource first)" and ?perm = "rq_Permission first" and ?p = "rq_Principal first"
  let ?ids = "dedupeSort (map (\<lambda>req. rs_ID (rq_Resource req)) reqs)"
  let ?spent = "if ex_AnyOf (permission_expression mdl ?rt ?perm) \<noteq> None then 2 else (1 :: int)"
  have run: "succeeds consistent (batch_checks v ?rt ?p checks ?spent ?ids [])"
    by (rule checks_succeed [OF facts p wf room rel]) (use steps in simp)
  have keeps: "upholds consistent (batch_checks v ?rt ?p checks ?spent ?ids []) (\<lambda>_. True)"
    by (rule upholds_weaken [OF checks_right [OF facts p wf rel, of "[]"]]) simp_all
  have "succeeds consistent (bind (batch_checks v ?rt ?p checks ?spent ?ids []) (\<lambda>grantedBy. ret (map (batch_result grantedBy) reqs)))"
    by (rule succeeds_bind [OF run keeps succeeds_ret])
  from succeeds_poll [OF this] show ?thesis
    unfolding checkBatchOptimized_def reqs list.case Let_def checks(1) option.case if_not_P [OF checks(2)] .
qed

text \<open>Filtering a batch of resources by a flat permission.\<close>

lemma filter_decides:
  assumes facts: "valid_facts F" and c: "Compile schema = Inr mdl" "schema_ok schema"
    and valid: "valid_ref (pr_Type p)" "valid_ref (pr_ID p)" "valid_ref permission" "valid_ref rt" "\<forall>i\<in>set ids. valid_ref i"
    and checks: "permissionChecks mdl rt permission = Some checks" "checks \<noteq> []" "\<forall>chk\<in>set checks. ex_Through chk = []"
    and steps: "int (length checks) + 2 \<le> MaxEvaluationSteps (vw_limits v)" and room: "room p"
    and size: "ids \<noteq> []" "int (length ids) \<le> MaxBatchSize (vw_limits v)" and b: "consistent b"
  shows "\<exists>b'. filterAuthorized inSnapshot v traverse p permission rt ids b =
      Some (Inr (filter (\<lambda>i. authorized F mdl (asks p permission rt i)) ids), b') \<and> consistent b'"
proof -
  let ?reqs = "map (asks p permission rt) ids"
  let ?right = "\<lambda>rs. map ck_Allowed rs = map (authorized F mdl) ?reqs"
  have wf: "model_wf mdl" by (rule Compile_wf [OF c])
  obtain i0 rest where ids: "ids = i0 # rest" using size(1) by (cases ids) auto
  have first: "?reqs = asks p permission rt i0 # map (asks p permission rt) rest" by (simp add: ids)
  have flat: "flat rt permission checks" by (rule compiled_flat [OF c checks(1,3)])
  have batch: "canBatch mdl ?reqs"
    using checks by (simp add: canBatch_def first asks_def list_all_iff)
  have ok: "\<forall>req\<in>set ?reqs. ValidateCheckRequest req = None"
    using valid by (auto simp: asks_def ValidateCheckRequest_None)
  then have errs: "first_error (map ValidateCheckRequest ?reqs) = None" by (simp add: first_error_None)
  have right: "upholds consistent (checkBatchOptimized v ?reqs) ?right"
    by (rule optimized_right [OF facts wf batch ok]) (rule compiled_flat [OF c])
  have run: "succeeds consistent (checkBatchOptimized v ?reqs)"
    by (rule optimized_succeeds [OF facts wf first, of checks])
      (use valid room checks flat steps in \<open>simp_all add: asks_def flat_def\<close>)
  have same: "checkBatch v traverse ?reqs = checkBatchOptimized v ?reqs"
    using size batch unfolding checkBatch_def errs by simp
  have needs: "list_ex (\<lambda>req. declaresPermission mdl (rs_Type (rq_Resource req)) (rq_Permission req)) ?reqs"
    using flat by (simp add: first asks_def flat_def)
  have op: "checkBatchOperation inSnapshot v traverse ?reqs = andthen (poll v) (operation inSnapshot v (checkBatchOptimized v ?reqs))"
    using size needs unfolding checkBatchOperation_def errs same by simp
  have "succeeds consistent (checkBatchOperation inSnapshot v traverse ?reqs)"
    unfolding op by (rule succeeds_poll [OF succeeds_operation [OF run right]])
  moreover have "upholds consistent (checkBatchOperation inSnapshot v traverse ?reqs) ?right"
    unfolding op by (rule upholds_andthen [OF upholds_quiet_step(1) upholds_operation [OF right]])
  ultimately obtain rs b' where rs: "checkBatchOperation inSnapshot v traverse ?reqs b = Some (Inr rs, b')" "?right rs" "consistent b'"
    using b unfolding succeeds_def upholds_def by blast
  have "map fst (filter (\<lambda>(i, result). ck_Allowed result) (zip ids rs)) = filter (\<lambda>i. authorized F mdl (asks p permission rt i)) ids"
    by (rule filter_zip_map) (use rs(2) in \<open>simp add: comp_def\<close>)
  then have "filterAuthorized inSnapshot v traverse p permission rt ids b =
      Some (Inr (filter (\<lambda>i. authorized F mdl (asks p permission rt i)) ids), b')"
    using size rs(1) unfolding filterAuthorized_def by (simp add: bind_def ret_def)
  then show ?thesis using rs(3) by blast
qed

end

section \<open>Both readers\<close>

lemma snapshot_many_returns:
  "\<forall>t\<in>set ts. Tuple_Validate t = None \<Longrightarrow> \<exists>got. rd_ContainsMany (snapshot_reads False None facts) ts = Inr got"
proof -
  assume "\<forall>t\<in>set ts. Tuple_Validate t = None"
  then have none: "first_error (map Tuple_Validate ts) = None" by (simp add: first_error_None)
  show ?thesis
    by (simp add: snapshot_reads_def snapshot_check_def ContainsMany_def guarded_def or_else_def none del: first_error_None)
qed

interpretation snap: live_batch "snapshot_view c limits first diag resolve (\<lambda>_. None) facts" "set facts"
  for c limits first diag resolve facts
proof
  fix st sid rel rt :: string and ids bound
  assume ok: "valid_facts (set facts)" "valid_ref st" "valid_ref sid" "rel \<noteq> []"
    and fits: "int (card (holdings (set facts)
      (compiled_readModel (vw_compiled (snapshot_view c limits first diag resolve (\<lambda>_. None) facts))) st sid)) \<le> bound"
  show "\<exists>out. gr_BatchDirect (vw_reader (snapshot_view c limits first diag resolve (\<lambda>_. None) facts)) rt ids rel st sid bound =
      Some (Inr out)"
    using portable.batch_exact [OF ok, of "compiled_readModel c" rt ids bound] fits by (auto simp: view_defs expansion_def)
qed (simp_all add: view_defs snapshot_many_returns)

interpretation mem: live_batch "memory_view c limits first diag resolve (\<lambda>_. None) facts" "set facts"
  for c limits first diag resolve facts
proof
  fix st sid rel rt :: string and ids bound
  assume ok: "valid_facts (set facts)" "valid_ref st" "valid_ref sid" "rel \<noteq> []"
    and fits: "int (card (holdings (set facts)
      (compiled_readModel (vw_compiled (memory_view c limits first diag resolve (\<lambda>_. None) facts))) st sid)) \<le> bound"
  show "\<exists>out. gr_BatchDirect (vw_reader (memory_view c limits first diag resolve (\<lambda>_. None) facts)) rt ids rel st sid bound =
      Some (Inr out)"
    using rows.batch_exact [OF ok, of "compiled_readModel c" rt ids bound] fits by (auto simp: view_defs expansion_def)
qed (simp_all add: view_defs snapshot_many_returns)

end
