(* ===== verification/Filter_Page.thy ===== *)
theory Filter_Page
  imports Batch_Operation
begin

text \<open>
  Filling a page of authorized rows from a candidate stream,
  \<open>src/pockets/authorization/logic/decisions/filter_page.go\<close>.  The host's candidate source is a
  parameter, with the number of the pull as an argument, so it may change from pull to pull; the decision
  of each pull is \<open>filterAuthorized\<close> of the operation's view (Batch_Operation), whose budget and memo the
  loop threads.  Each pull that does not end the call scans at least one candidate, which bounds the
  loop.  The texts of the errors leave out the numbers the code formats into them.
\<close>

section \<open>Pages\<close>

record 'a candidate =
  cd_Item :: 'a
  cd_NextCursor :: string

record 'a candidate_page =
  pg_Items :: "'a candidate list"
  pg_HasMore :: bool

record 'a filtered_page =
  fp_Items :: "'a list"
  fp_HasMore :: bool
  fp_NextCursor :: string
  fp_ScanLimitReached :: bool

text \<open>The request, the limits of the service, and what the call depends on.\<close>

record 'a page_request =
  fr_Principal :: principal
  fr_Permission :: string
  fr_ResourceType :: string
  fr_ID :: "('a \<Rightarrow> string) option"
  fr_Source :: "(nat \<Rightarrow> string \<Rightarrow> int \<Rightarrow> 'a candidate_page res) option"
  fr_Limit :: int
  fr_BatchSize :: int
  fr_Cursor :: string

definition page_error :: "string \<Rightarrow> go_error" where
  "page_error msg = Wrapped (''authorization: FilterPage '' @ msg @ '': invalid input'') ErrInvalidInput"

definition DefaultLimit :: int where
  "DefaultLimit = 25"

text \<open>The checks of \<open>filterPageOperation\<close>: the page size, or the first error.\<close>

definition page_limit :: "evaluation_limits \<Rightarrow> 'a page_request \<Rightarrow> int res" where
  "page_limit limits req =
     (case first_error
        [ValidatePrincipal (fr_Principal req),
         ValidateRefField ''permission'' (fr_Permission req),
         ValidateRefField ''resource type'' (fr_ResourceType req),
         (if fr_ID req = None then Some (page_error ''requires an ID function'') else None),
         (if fr_Source req = None then Some (page_error ''requires a Source'') else None),
         (if fr_Limit req < 0 then Some (page_error ''limit must not be negative'') else None),
         (if (if fr_Limit req = 0 then DefaultLimit else fr_Limit req) > MaxBatchSize limits
          then Some (page_error ''limit exceeds MaxBatchSize'') else None),
         (if fr_BatchSize req < 0 \<or> fr_BatchSize req > MaxBatchSize limits
          then Some (page_error ''BatchSize must be between zero and MaxBatchSize'') else None)] of
        Some e \<Rightarrow> Inl e
      | None \<Rightarrow> Inr (if fr_Limit req = 0 then DefaultLimit else fr_Limit req))"

text \<open>How many candidates the next pull asks for.\<close>

definition pull_size :: "evaluation_limits \<Rightarrow> int \<Rightarrow> int \<Rightarrow> int \<Rightarrow> int" where
  "pull_size limits batch limit scanned =
     (let want = (if batch = 0 then limit else batch);
          want = (if want > MaxBatchSize limits then MaxBatchSize limits else want);
          remaining = MaxFilterScan limits - scanned
      in if want > remaining then remaining else want)"

text \<open>Every cursor is new; the seen cursors with those of the page.\<close>

fun check_cursors :: "'a candidate list \<Rightarrow> string \<Rightarrow> string list \<Rightarrow> string list res" where
  "check_cursors [] previous seen = Inr seen"
| "check_cursors (c # cs) previous seen =
     (if cd_NextCursor c = [] then Inl (page_error ''candidate source returned an empty candidate cursor'')
      else if cd_NextCursor c = previous then
        Inl (page_error ''candidate source returned a non-advancing candidate cursor'')
      else if cd_NextCursor c \<in> set seen then Inl (page_error ''candidate source repeated cursor'')
      else check_cursors cs (cd_NextCursor c) (cd_NextCursor c # seen))"

text \<open>Taking the allowed rows in order: the full page (\<open>Inl\<close>), or the rows so far.\<close>

fun take_allowed ::
  "int \<Rightarrow> ('a \<Rightarrow> string) \<Rightarrow> string list \<Rightarrow> bool \<Rightarrow> 'a candidate list \<Rightarrow> 'a list \<Rightarrow> 'a filtered_page + 'a list" where
  "take_allowed limit identify allowed hasMore [] out = Inr out"
| "take_allowed limit identify allowed hasMore (c # cs) out =
     (if identify (cd_Item c) \<notin> set allowed then take_allowed limit identify allowed hasMore cs out
      else
        (let out = out @ [cd_Item c] in
         if int (length out) = limit
         then Inl \<lparr>fp_Items = out, fp_HasMore = (cs \<noteq> [] \<or> hasMore), fp_NextCursor = cd_NextCursor c,
                fp_ScanLimitReached = False\<rparr>
         else take_allowed limit identify allowed hasMore cs out))"

section \<open>The loop\<close>

text \<open>
  \<open>decide\<close> is \<open>filterAuthorized\<close> of the operation's view for the request.  The cursor and the
  continuation are the same after the first pull; before it the continuation is empty.
\<close>

function filter_loop ::
  "view \<Rightarrow> int \<Rightarrow> int \<Rightarrow> ('a \<Rightarrow> string) \<Rightarrow> (nat \<Rightarrow> string \<Rightarrow> int \<Rightarrow> 'a candidate_page res) \<Rightarrow>
   (string list \<Rightarrow> string list run) \<Rightarrow> nat \<Rightarrow> string \<Rightarrow> string \<Rightarrow> string list \<Rightarrow> int \<Rightarrow> 'a list \<Rightarrow> 'a filtered_page run" where
  "filter_loop v batch limit identify source decide k cursor consumed seen scanned out =
     (if \<not> (int (length out) < limit \<and> scanned < MaxFilterScan (vw_limits v)) then
        ret \<lparr>fp_Items = out, fp_HasMore = True, fp_NextCursor = consumed, fp_ScanLimitReached = True\<rparr>
      else
        andthen (poll v)
          (case source k cursor (pull_size (vw_limits v) batch limit scanned) of
             Inl e \<Rightarrow> fail e
           | Inr page \<Rightarrow>
               andthen (poll v)
                 (if int (length (pg_Items page)) > pull_size (vw_limits v) batch limit scanned then
                    fail (page_error ''candidate source returned too many candidates'')
                  else if pg_Items page = [] then
                    (if pg_HasMore page
                     then fail (page_error ''candidate source reported more candidates but returned none'')
                     else ret \<lparr>fp_Items = out, fp_HasMore = False, fp_NextCursor = consumed, fp_ScanLimitReached = False\<rparr>)
                  else
                    (case check_cursors (pg_Items page) cursor seen of
                       Inl e \<Rightarrow> fail e
                     | Inr seen' \<Rightarrow>
                         bind (decide (map (\<lambda>c. identify (cd_Item c)) (pg_Items page))) (\<lambda>allowed.
                           andthen (poll v)
                             (case take_allowed limit identify allowed (pg_HasMore page) (pg_Items page) out of
                                Inl full \<Rightarrow> ret full
                              | Inr out' \<Rightarrow>
                                  (let consumed' = cd_NextCursor (last (pg_Items page));
                                       scanned' = scanned + int (length (pg_Items page)) in
                                   if \<not> pg_HasMore page then
                                     ret \<lparr>fp_Items = out', fp_HasMore = False, fp_NextCursor = consumed',
                                       fp_ScanLimitReached = False\<rparr>
                                   else if scanned' \<ge> MaxFilterScan (vw_limits v) then
                                     ret \<lparr>fp_Items = out', fp_HasMore = True, fp_NextCursor = consumed',
                                       fp_ScanLimitReached = True\<rparr>
                                   else
                                     filter_loop v batch limit identify source decide (Suc k) consumed'
                                       consumed' seen' scanned' out')))))))"
  by pat_completeness auto

termination
  by (relation "measure (\<lambda>(v, _, _, _, _, _, _, _, _, _, scanned, _). nat (MaxFilterScan (vw_limits v) - scanned))")
    (auto simp: Suc_le_eq)

declare filter_loop.simps [simp del]

text \<open>\<open>FilterPage\<close>: the checks of the request, then the loop in one operation.\<close>

definition filterPage ::
  "view \<Rightarrow> (check_request list \<Rightarrow> check_result list run) \<Rightarrow> 'a page_request \<Rightarrow> 'a filtered_page run" where
  "filterPage v traverse req =
     (case page_limit (vw_limits v) req of
        Inl e \<Rightarrow> fail e
      | Inr limit \<Rightarrow>
          operation False v
            (filter_loop v (fr_BatchSize req) limit (the (fr_ID req)) (the (fr_Source req))
              (filterAuthorized True v traverse (fr_Principal req) (fr_Permission req) (fr_ResourceType req))
              0 (fr_Cursor req) [] [fr_Cursor req] 0 []))"

section \<open>A page over a list of rows\<close>

text \<open>What a source over fixed rows returns: the rows after the cursor, cut to the size asked.\<close>

definition rows_after :: "'a candidate list \<Rightarrow> string \<Rightarrow> 'a candidate list" where
  "rows_after rows cursor =
     (if cursor = [] then rows else tl (dropWhile (\<lambda>c. cd_NextCursor c \<noteq> cursor) rows))"

definition lists_rows :: "'a candidate list \<Rightarrow> (nat \<Rightarrow> string \<Rightarrow> int \<Rightarrow> 'a candidate_page res) \<Rightarrow> bool" where
  "lists_rows rows source \<longleftrightarrow>
     distinct (map cd_NextCursor rows) \<and> [] \<notin> set (map cd_NextCursor rows) \<and>
     (\<forall>k cursor n. 0 < n \<longrightarrow>
        source k cursor n =
          Inr \<lparr>pg_Items = take (nat n) (rows_after rows cursor),
               pg_HasMore = (nat n < length (rows_after rows cursor))\<rparr>)"

text \<open>The cursor after the first \<open>n\<close> of some rows, the given one when \<open>n\<close> is zero.\<close>

definition cursor_at :: "'a candidate list \<Rightarrow> string \<Rightarrow> nat \<Rightarrow> string" where
  "cursor_at rest cursor n = (if n = 0 then cursor else cd_NextCursor (rest ! (n - 1)))"

definition allowed_rows_of :: "('a \<Rightarrow> bool) \<Rightarrow> 'a candidate list \<Rightarrow> 'a list" where
  "allowed_rows_of ok cs = filter ok (map cd_Item cs)"

text \<open>The page a scan of the first \<open>m\<close> rows gives.\<close>

definition page_of :: "('a \<Rightarrow> bool) \<Rightarrow> evaluation_limits \<Rightarrow> int \<Rightarrow> 'a candidate list \<Rightarrow> nat \<Rightarrow> 'a filtered_page \<Rightarrow> bool" where
  "page_of ok limits limit rest m page \<longleftrightarrow>
     m \<le> length rest \<and> fp_Items page = allowed_rows_of ok (take m rest) \<and>
     fp_HasMore page = (m < length rest) \<and> fp_NextCursor page = cursor_at rest [] m \<and>
     int (length (fp_Items page)) \<le> limit \<and>
     (int (length (fp_Items page)) = limit \<or> m = length rest \<or> int m = MaxFilterScan limits) \<and>
     (fp_ScanLimitReached page \<longrightarrow> int m = MaxFilterScan limits)"

lemma dropWhile_cursor:
  assumes "distinct (map cd_NextCursor rows)" "n < length rows"
  shows "tl (dropWhile (\<lambda>c. cd_NextCursor c \<noteq> cd_NextCursor (rows ! n)) rows) = drop (Suc n) rows"
  using assms
proof (induction rows arbitrary: n)
  case (Cons c rows)
  show ?case
  proof (cases n)
    case (Suc m)
    then have "cd_NextCursor (rows ! m) \<in> set (map cd_NextCursor rows)" using Cons.prems(2) by simp
    then have "cd_NextCursor c \<noteq> cd_NextCursor (rows ! m)" using Cons.prems(1) by auto
    then show ?thesis using Suc Cons by simp
  qed simp
qed simp

text \<open>Going on from a cursor inside the rest is dropping what was scanned.\<close>

lemma rows_after_step:
  assumes "distinct (map cd_NextCursor rows)" "[] \<notin> set (map cd_NextCursor rows)" "n \<le> length (rows_after rows cursor)"
  shows "rows_after rows (cursor_at (rows_after rows cursor) cursor n) = drop n (rows_after rows cursor)"
proof (cases n)
  case 0
  then show ?thesis by (simp add: cursor_at_def)
next
  case (Suc m)
  obtain d where d: "rows_after rows cursor = drop d rows"
  proof (cases "cursor = []")
    case True
    then show thesis using that [of 0] by (simp add: rows_after_def)
  next
    case False
    have "dropWhile (\<lambda>c. cd_NextCursor c \<noteq> cursor) rows = drop (length (takeWhile (\<lambda>c. cd_NextCursor c \<noteq> cursor) rows)) rows"
      by (rule dropWhile_eq_drop)
    then have "rows_after rows cursor = drop (Suc (length (takeWhile (\<lambda>c. cd_NextCursor c \<noteq> cursor) rows))) rows"
      using False by (simp add: rows_after_def drop_Suc tl_drop)
    then show thesis by (rule that)
  qed
  have m: "d + m < length rows" using assms(3) Suc d by simp
  then have at: "cursor_at (rows_after rows cursor) cursor n = cd_NextCursor (rows ! (d + m))"
    using Suc d by (simp add: cursor_at_def)
  have "cd_NextCursor (rows ! (d + m)) \<in> set (map cd_NextCursor rows)" using m by simp
  then have "cd_NextCursor (rows ! (d + m)) \<noteq> []" using assms(2) by metis
  then have "rows_after rows (cd_NextCursor (rows ! (d + m))) = drop (Suc (d + m)) rows"
    using dropWhile_cursor [OF assms(1) m] by (simp add: rows_after_def)
  then show ?thesis unfolding at unfolding d by (simp add: Suc add.commute)
qed

lemma rows_after_fresh:
  assumes "distinct (map cd_NextCursor rows)" "[] \<notin> set (map cd_NextCursor rows)"
  shows "distinct (cursor # map cd_NextCursor (rows_after rows cursor))"
    "set (map cd_NextCursor (rows_after rows cursor)) \<subseteq> set (map cd_NextCursor rows)"
proof -
  have "distinct (cursor # map cd_NextCursor (tl (dropWhile (\<lambda>c. cd_NextCursor c \<noteq> cursor) rows))) \<and>
      set (map cd_NextCursor (tl (dropWhile (\<lambda>c. cd_NextCursor c \<noteq> cursor) rows))) \<subseteq> set (map cd_NextCursor rows)"
    using assms(1) by (induction rows) auto
  then show "distinct (cursor # map cd_NextCursor (rows_after rows cursor))"
    "set (map cd_NextCursor (rows_after rows cursor)) \<subseteq> set (map cd_NextCursor rows)"
    using assms by (auto simp: rows_after_def)
qed

lemma check_cursors_fresh:
  assumes "distinct (map cd_NextCursor cs)" "[] \<notin> set (map cd_NextCursor cs)"
    "set (map cd_NextCursor cs) \<inter> set seen = {}" "previous \<in> set seen"
  obtains seen' where "check_cursors cs previous seen = Inr seen'" "set seen' = set seen \<union> set (map cd_NextCursor cs)"
proof -
  have "\<exists>seen'. check_cursors cs previous seen = Inr seen' \<and> set seen' = set seen \<union> set (map cd_NextCursor cs)"
    using assms
  proof (induction cs arbitrary: previous seen)
    case (Cons c cs)
    have "\<exists>seen'. check_cursors cs (cd_NextCursor c) (cd_NextCursor c # seen) = Inr seen' \<and>
        set seen' = set (cd_NextCursor c # seen) \<union> set (map cd_NextCursor cs)"
      by (rule Cons.IH) (use Cons.prems in auto)
    moreover have "cd_NextCursor c \<noteq> []" "cd_NextCursor c \<noteq> previous" "cd_NextCursor c \<notin> set seen"
      using Cons.prems by auto
    ultimately show ?case by auto
  qed simp
  then show thesis using that by blast
qed

lemma take_allowed_spec:
  assumes "\<And>c. c \<in> set cs \<Longrightarrow> identify (cd_Item c) \<in> set allowed \<longleftrightarrow> ok (cd_Item c)" "int (length out) < limit"
  shows "(\<exists>j\<le>length cs. 0 < j \<and> int (length (out @ allowed_rows_of ok (take j cs))) = limit \<and>
       take_allowed limit identify allowed hm cs out =
         Inl \<lparr>fp_Items = out @ allowed_rows_of ok (take j cs), fp_HasMore = (j < length cs \<or> hm),
           fp_NextCursor = cd_NextCursor (cs ! (j - 1)), fp_ScanLimitReached = False\<rparr>) \<or>
     (int (length (out @ allowed_rows_of ok cs)) < limit \<and>
       take_allowed limit identify allowed hm cs out = Inr (out @ allowed_rows_of ok cs))"
  using assms
proof (induction cs arbitrary: out)
  case Nil
  then show ?case by (simp add: allowed_rows_of_def)
next
  case (Cons c cs)
  let ?out = "if ok (cd_Item c) then out @ [cd_Item c] else out"
  have rows: "out @ allowed_rows_of ok (take (Suc j) (c # cs)) = ?out @ allowed_rows_of ok (take j cs)"
    "out @ allowed_rows_of ok (c # cs) = ?out @ allowed_rows_of ok cs" for j
    by (simp_all add: allowed_rows_of_def)
  show ?case
  proof (cases "ok (cd_Item c) \<and> int (length (out @ [cd_Item c])) = limit")
    case True
    then have "take_allowed limit identify allowed hm (c # cs) out =
        Inl \<lparr>fp_Items = out @ [cd_Item c], fp_HasMore = (cs \<noteq> [] \<or> hm), fp_NextCursor = cd_NextCursor c,
                fp_ScanLimitReached = False\<rparr>"
      using Cons.prems(1) [of c] by simp
    then show ?thesis using True by (intro disjI1 exI [of _ "Suc 0"]) (simp add: allowed_rows_of_def)
  next
    case False
    have step: "take_allowed limit identify allowed hm (c # cs) out = take_allowed limit identify allowed hm cs ?out"
      using False Cons.prems(1) [of c] by (simp add: Let_def)
    have "int (length ?out) < limit" using False Cons.prems(2) by auto
    then consider j where "j \<le> length cs" "0 < j" "int (length (?out @ allowed_rows_of ok (take j cs))) = limit"
        "take_allowed limit identify allowed hm cs ?out =
           Inl \<lparr>fp_Items = ?out @ allowed_rows_of ok (take j cs), fp_HasMore = (j < length cs \<or> hm),
             fp_NextCursor = cd_NextCursor (cs ! (j - 1)), fp_ScanLimitReached = False\<rparr>"
      | "int (length (?out @ allowed_rows_of ok cs)) < limit"
        "take_allowed limit identify allowed hm cs ?out = Inr (?out @ allowed_rows_of ok cs)"
      using Cons.IH [of ?out] Cons.prems(1) by auto
    then show ?thesis
    proof cases
      case (1 j)
      then show ?thesis unfolding step by (intro disjI1 exI [of _ "Suc j"]) (auto simp: allowed_rows_of_def nth_Cons')
    next
      case 2
      then show ?thesis unfolding step rows(2) by (intro disjI2) simp
    qed
  qed
qed

lemma rest_left: "j \<le> l \<Longrightarrow> n + l \<le> len \<Longrightarrow> (j < l \<or> n + l < len) = (n + j < (len :: nat))"
  by auto

text \<open>
  The loop, from a state in which the first \<open>n\<close> rows are scanned: it returns the page of a scan of
  some \<open>m\<close> rows.
\<close>

lemma loop_page:
  fixes v :: view and steady :: "budget \<Rightarrow> bool"
  defines "limits \<equiv> vw_limits v"
  assumes src: "lists_rows rows source" and rest: "rest = rows_after rows start"
    and decide: "\<And>b ids. steady b \<Longrightarrow> ids \<noteq> [] \<Longrightarrow> int (length ids) \<le> MaxBatchSize limits \<Longrightarrow>
      set ids \<subseteq> (\<lambda>c. identify (cd_Item c)) ` set rest \<Longrightarrow> \<exists>b'. decide ids b = Some (Inr (filter okid ids), b') \<and> steady b'"
    and live: "\<And>b. steady b \<Longrightarrow> \<exists>b'. poll v b = Some (Inr (), b') \<and> steady b'"
    and limits: "0 < limit" "0 < MaxBatchSize limits" "0 \<le> batch"
    and n: "n \<le> length rest" "int (length (allowed_rows_of (okid \<circ> identify) (take n rest))) < limit" "int n < MaxFilterScan limits"
    and seen: "set seen = insert start (set (map cd_NextCursor (take n rest)))"
    and b: "steady b"
  shows "\<exists>m page b'. filter_loop v batch limit identify source decide k (cursor_at rest start n) (cursor_at rest [] n)
      seen (int n) (allowed_rows_of (okid \<circ> identify) (take n rest)) b = Some (Inr page, b') \<and> steady b' \<and>
    page_of (okid \<circ> identify) limits limit rest m page"
  using n seen b
proof (induction "nat (MaxFilterScan limits - int n)" arbitrary: n k seen b rule: less_induct)
  case less
  let ?ok = "okid \<circ> identify"
  let ?out = "allowed_rows_of ?ok (take n rest)"
  let ?w = "nat (pull_size limits batch limit (int n))"
  let ?items = "take ?w (drop n rest)" and ?more = "?w < length (drop n rest)"
  have rows: "distinct (map cd_NextCursor rows)" "[] \<notin> set (map cd_NextCursor rows)"
    using src by (simp_all add: lists_rows_def)
  have w: "0 < ?w" "0 < pull_size limits batch limit (int n)" "int n + int ?w \<le> MaxFilterScan limits"
    "int ?w \<le> MaxBatchSize limits"
    using limits less.prems(3) by (auto simp: pull_size_def Let_def)
  have page: "source k (cursor_at rest start n) (pull_size limits batch limit (int n)) =
      Inr \<lparr>pg_Items = ?items, pg_HasMore = ?more\<rparr>"
    using src w(2) rows_after_step [OF rows, of n start] less.prems(1) by (simp add: lists_rows_def rest)
  have fresh: "distinct (start # map cd_NextCursor rest)" "[] \<notin> set (map cd_NextCursor rest)"
    using rows_after_fresh [OF rows, of start] rows(2) by (auto simp: rest)
  note unfold = filter_loop.simps [of v batch limit identify source decide k "cursor_at rest start n"
      "cursor_at rest [] n" seen "int n" ?out, folded limits_def]
  obtain b1 where b1: "poll v b = Some (Inr (), b1)" "steady b1" using live [OF less.prems(5)] by blast
  obtain b2 where b2: "poll v b1 = Some (Inr (), b2)" "steady b2" using live [OF b1(2)] by blast
  have first: "andthen (poll v) m b = m b1" "andthen (poll v) m b1 = m b2" for m :: "'x run"
    by (simp_all add: bind_def b1 b2)
  have go: "int (length ?out) < limit \<and> int n < MaxFilterScan limits" using less.prems by simp
  show ?case
  proof (cases "drop n rest = []")
    case True
    then have "n = length rest" using less.prems(1) by simp
    then show ?thesis
      using go True page less.prems(2) w(2) b2 unfolding unfold
      by (intro exI [of _ n]) (simp add: page_of_def first ret_def)
  next
    case False
    then have items: "?items \<noteq> []" using w(1) by simp
    let ?l = "length ?items"
    have l: "0 < ?l" "n + ?l \<le> length rest" "?l \<le> ?w" "?more \<longleftrightarrow> n + ?l < length rest"
      using items less.prems(1) by auto
    have sub: "take (n + j) rest = take n rest @ take j ?items" if "j \<le> ?l" for j
    proof -
      have "j \<le> ?w" using that l(3) by (rule order_trans)
      then show ?thesis by (simp only: take_add take_take min_absorb1)
    qed
    have out: "?out @ allowed_rows_of ?ok (take j ?items) = allowed_rows_of ?ok (take (n + j) rest)" if "j \<le> ?l" for j
      using that by (simp add: sub allowed_rows_of_def)
    have at: "cd_NextCursor (?items ! (j - 1)) = cursor_at rest x (n + j)" if "0 < j" "j \<le> ?l" for j x
      using that l(2) by (auto simp: cursor_at_def)
    have last: "cd_NextCursor (last ?items) = cursor_at rest x (n + ?l)" for x
      using at [of ?l] l(1) items by (simp add: last_conv_nth)
    have split: "map cd_NextCursor rest = map cd_NextCursor (take n rest) @ map cd_NextCursor ?items @ map cd_NextCursor (drop ?w (drop n rest))"
      by (metis append_take_drop_id map_append)
    have prev: "cursor_at rest start n \<in> set seen"
    proof (cases n)
      case (Suc m)
      then have "rest ! m \<in> set (take n rest)" using less.prems(1) by (auto simp: in_set_conv_nth intro!: exI [of _ m])
      then show ?thesis using Suc less.prems(4) by (simp add: cursor_at_def)
    qed (simp add: cursor_at_def less.prems(4))
    obtain seen' where seen': "check_cursors ?items (cursor_at rest start n) seen = Inr seen'"
      "set seen' = set seen \<union> set (map cd_NextCursor ?items)"
    proof (rule check_cursors_fresh [of ?items seen "cursor_at rest start n"])
      show "distinct (map cd_NextCursor ?items)" using fresh(1) unfolding split by simp
      show "[] \<notin> set (map cd_NextCursor ?items)" using fresh(2) unfolding split by auto
      show "set (map cd_NextCursor ?items) \<inter> set seen = {}" using fresh(1) unfolding split less.prems(4) by auto
    qed (use prev in auto)
    let ?allowed = "filter okid (map (\<lambda>c. identify (cd_Item c)) ?items)"
    have small: "int ?l \<le> MaxBatchSize limits" using of_nat_mono [OF l(3), where ?'a = int] w(4) by linarith
    have "set ?items \<subseteq> set rest" by (meson in_set_dropD in_set_takeD subsetI)
    then have "set (map (\<lambda>c. identify (cd_Item c)) ?items) \<subseteq> (\<lambda>c. identify (cd_Item c)) ` set rest" by auto
    then obtain b3 where dec: "decide (map (\<lambda>c. identify (cd_Item c)) ?items) b2 = Some (Inr ?allowed, b3)" "steady b3"
      using decide [OF b2(2), of "map (\<lambda>c. identify (cd_Item c)) ?items"] items small unfolding length_map by blast
    obtain b4 where b4: "poll v b3 = Some (Inr (), b4)" "steady b4" using live [OF dec(2)] by blast
    have second: "bind (decide (map (\<lambda>c. identify (cd_Item c)) ?items)) (\<lambda>allowed. andthen (poll v) (m allowed)) b2 = m ?allowed b4"
      for m :: "string list \<Rightarrow> 'x run"
      by (simp only: bind_def dec(1) b4(1) option.case sum.case prod.case)
    let ?after = "(case take_allowed limit identify ?allowed ?more ?items ?out of
         Inl full \<Rightarrow> ret full
       | Inr out' \<Rightarrow>
           if \<not> ?more then
             ret \<lparr>fp_Items = out', fp_HasMore = False, fp_NextCursor = cursor_at rest [] (n + ?l), fp_ScanLimitReached = False\<rparr>
           else if int (n + ?l) \<ge> MaxFilterScan limits then
             ret \<lparr>fp_Items = out', fp_HasMore = True, fp_NextCursor = cursor_at rest [] (n + ?l), fp_ScanLimitReached = True\<rparr>
           else filter_loop v batch limit identify source decide (Suc k) (cursor_at rest [] (n + ?l))
             (cursor_at rest [] (n + ?l)) seen' (int (n + ?l)) out') b4"
    have fits: "\<not> int ?l > pull_size limits batch limit (int n)" using l(3) w(2) by simp
    have step: "filter_loop v batch limit identify source decide k (cursor_at rest start n) (cursor_at rest [] n)
        seen (int n) ?out b = ?after"
      unfolding unfold page
      using go fits items
      by (simp only: first second sum.case candidate_page.simps seen'(1) if_False if_True simp_thms Let_def of_nat_add
          last [of "[]"])
    have member: "identify (cd_Item c) \<in> set ?allowed \<longleftrightarrow> ?ok (cd_Item c)" if "c \<in> set ?items" for c
      using that by auto
    have item: "allowed_rows_of ?ok ?items = allowed_rows_of ?ok (take ?l ?items)" by (simp only: take_all [OF order_refl])
    from take_allowed_spec [of ?items identify ?allowed ?ok ?out limit ?more, OF member less.prems(2)]
    consider j where "0 < j" "j \<le> ?l" "int (length (?out @ allowed_rows_of ?ok (take j ?items))) = limit"
        "take_allowed limit identify ?allowed ?more ?items ?out =
           Inl \<lparr>fp_Items = ?out @ allowed_rows_of ?ok (take j ?items), fp_HasMore = (j < ?l \<or> ?more),
             fp_NextCursor = cd_NextCursor (?items ! (j - 1)), fp_ScanLimitReached = False\<rparr>"
      | "int (length (?out @ allowed_rows_of ?ok ?items)) < limit"
        "take_allowed limit identify ?allowed ?more ?items ?out = Inr (?out @ allowed_rows_of ?ok ?items)"
      by blast
    then show ?thesis
    proof cases
      case (1 j)
      have "j < ?l \<or> ?more \<longleftrightarrow> n + j < length rest"
        unfolding l(4) by (rule rest_left [OF 1(2) l(2)])
      note full = this out [OF 1(2)] at [OF 1(1,2), of "[]"]
      have "n + j \<le> length rest" using 1(2) l(2) by (rule add_le_mono [OF order_refl, THEN order_trans])
      moreover have "int (length (allowed_rows_of ?ok (take (n + j) rest))) = limit" using 1(3) by (simp only: out [OF 1(2)])
      ultimately have "page_of ?ok limits limit rest (n + j)
          \<lparr>fp_Items = allowed_rows_of ?ok (take (n + j) rest), fp_HasMore = (n + j < length rest),
             fp_NextCursor = cursor_at rest [] (n + j), fp_ScanLimitReached = False\<rparr>"
        by (simp add: page_of_def)
      then show ?thesis unfolding step 1(4) sum.case full ret_def using b4(2) by blast
    next
      case 2
      have all: "?out @ allowed_rows_of ?ok ?items = allowed_rows_of ?ok (take (n + ?l) rest)"
        using out [of ?l] item by simp
      note short = 2(1) [unfolded all]
      note after = step [unfolded 2(2), unfolded sum.case all l(4)]
      have most: "int (n + ?l) \<le> MaxFilterScan limits"
        using of_nat_mono [OF l(3), where ?'a = int] w(3) unfolding of_nat_add by linarith
      consider (ended) "n + ?l = length rest" | (full) "n + ?l < length rest" "int (n + ?l) = MaxFilterScan limits"
        | (again) "n + ?l < length rest" "int (n + ?l) < MaxFilterScan limits"
        using l(2) most by linarith
      then show ?thesis
      proof cases
        case ended
        then have "\<not> n + ?l < length rest" by simp
        note ended' = this ended
        have "page_of ?ok limits limit rest (n + ?l)
            \<lparr>fp_Items = allowed_rows_of ?ok (take (n + ?l) rest), fp_HasMore = False,
              fp_NextCursor = cursor_at rest [] (n + ?l), fp_ScanLimitReached = False\<rparr>"
          unfolding page_of_def using ended' short by (simp del: length_take)
        then show ?thesis
          unfolding after if_P [OF ended'(1)] ret_def using b4(2) by blast
      next
        case full
        have not: "\<not> \<not> n + ?l < length rest" using full by simp
        have ge: "MaxFilterScan limits \<le> int (n + ?l)" using full(2) by simp
        have "page_of ?ok limits limit rest (n + ?l)
            \<lparr>fp_Items = allowed_rows_of ?ok (take (n + ?l) rest), fp_HasMore = True,
              fp_NextCursor = cursor_at rest [] (n + ?l), fp_ScanLimitReached = True\<rparr>"
          unfolding page_of_def using full short by (simp del: length_take)
        then show ?thesis
          unfolding after if_not_P [OF not] if_P [OF ge] ret_def using b4(2) by blast
      next
        case again
        have not: "\<not> \<not> n + ?l < length rest" "\<not> MaxFilterScan limits \<le> int (n + ?l)" using again by simp_all
        have cur: "cursor_at rest start (n + ?l) = cursor_at rest [] (n + ?l)" using last [of start] last [of "[]"] by simp
        have "\<exists>m page b'. filter_loop v batch limit identify source decide (Suc k) (cursor_at rest start (n + ?l))
            (cursor_at rest [] (n + ?l)) seen' (int (n + ?l)) (allowed_rows_of ?ok (take (n + ?l) rest)) b4 = Some (Inr page, b') \<and>
            steady b' \<and> page_of ?ok limits limit rest m page"
        proof (rule less.hyps)
          show "nat (MaxFilterScan limits - int (n + ?l)) < nat (MaxFilterScan limits - int n)"
            using l(1) less.prems(3) by simp
          show "set seen' = insert start (set (map cd_NextCursor (take (n + ?l) rest)))"
            unfolding seen'(2) less.prems(4) sub [OF order_refl] take_all [OF order_refl] map_append set_append by blast
          show "n + ?l \<le> length rest" by (rule l(2))
          show "int (length (allowed_rows_of ?ok (take (n + ?l) rest))) < limit" by (rule short)
          show "int (n + ?l) < MaxFilterScan limits" by (rule again(2))
          show "steady b4" by (rule b4(2))
        qed
        then show ?thesis unfolding after if_not_P [OF not(1)] if_not_P [OF not(2)] cur .
      qed
    qed
  qed
qed


lemma page_limit_facts:
  assumes "page_limit limits req = Inr limit"
  shows "valid_ref (pr_Type (fr_Principal req))" "valid_ref (pr_ID (fr_Principal req))" "valid_ref (fr_Permission req)"
    "valid_ref (fr_ResourceType req)" "0 \<le> fr_BatchSize req" "0 < limit"
  using assms
  by (auto simp: page_limit_def ValidatePrincipal_def DefaultLimit_def or_else_def split: if_splits option.splits)

lemma delivered:
  assumes "\<And>b. I b \<Longrightarrow> \<exists>x b'. m b = Some (Inr x, b') \<and> I b' \<and> Q x"
  shows "succeeds I m" "upholds I m Q"
  using assms unfolding succeeds_def upholds_def by (blast, fastforce)

context live_batch
begin

lemma filterPage_page:
  assumes facts: "valid_facts F" and c: "Compile schema = Inr mdl" "schema_ok schema"
    and limit: "page_limit (vw_limits v) req = Inr limit" "0 < MaxBatchSize (vw_limits v)" "0 < MaxFilterScan (vw_limits v)"
    and source: "fr_Source req = Some source" "fr_ID req = Some identify" "lists_rows rows source"
      "\<forall>x\<in>set rows. valid_ref (identify (cd_Item x))"
    and checks: "permissionChecks mdl (fr_ResourceType req) (fr_Permission req) = Some checks" "checks \<noteq> []"
      "\<forall>chk\<in>set checks. ex_Through chk = []"
    and steps: "int (length checks) + 2 \<le> MaxEvaluationSteps (vw_limits v)" and room: "room (fr_Principal req)"
  shows "\<exists>m page b. filterPage v traverse req fresh_budget = Some (Inr page, b) \<and>
    page_of (authorized F mdl \<circ> asks (fr_Principal req) (fr_Permission req) (fr_ResourceType req) \<circ> identify) (vw_limits v) limit
      (rows_after rows (fr_Cursor req)) m page"
proof -
  let ?okid = "authorized F mdl \<circ> asks (fr_Principal req) (fr_Permission req) (fr_ResourceType req)"
  let ?rest = "rows_after rows (fr_Cursor req)"
  let ?decide = "filterAuthorized True v traverse (fr_Principal req) (fr_Permission req) (fr_ResourceType req)"
  let ?loop = "filter_loop v (fr_BatchSize req) limit identify source ?decide 0 (fr_Cursor req) [] [fr_Cursor req] 0 []"
  note req = page_limit_facts [OF limit(1)]
  have "set (tl xs) \<subseteq> set xs" for xs :: "'a candidate list" by (cases xs) auto
  then have "set ?rest \<subseteq> set rows"
    unfolding rows_after_def using set_dropWhileD by (fastforce split: if_splits)
  then have valid: "\<forall>i\<in>(\<lambda>c. identify (cd_Item c)) ` set ?rest. valid_ref i" using source(4) by blast
  have decide: "\<exists>b'. ?decide ids b = Some (Inr (filter ?okid ids), b') \<and> consistent b'"
    if "consistent b" "ids \<noteq> []" "int (length ids) \<le> MaxBatchSize (vw_limits v)"
      "set ids \<subseteq> (\<lambda>c. identify (cd_Item c)) ` set ?rest" for b ids
    using filter_decides [OF facts c req(1-4) _ checks steps room that(2,3,1)] that(4) valid
    unfolding comp_def by blast
  have live_poll: "\<exists>b'. poll v b = Some (Inr (), b') \<and> consistent b'" if "consistent b" for b
    using that poll_live [of b] upholdsD(1) [OF upholds_quiet_step(1) that poll_live] by blast
  have "\<exists>page b'. ?loop b = Some (Inr page, b') \<and> consistent b' \<and> (\<exists>m. page_of (?okid \<circ> identify) (vw_limits v) limit ?rest m page)"
    if b: "consistent b" for b
  proof -
    have "\<exists>m page b'. filter_loop v (fr_BatchSize req) limit identify source ?decide 0 (cursor_at ?rest (fr_Cursor req) 0)
        (cursor_at ?rest [] 0) [fr_Cursor req] (int 0) (allowed_rows_of (?okid \<circ> identify) (take 0 ?rest)) b = Some (Inr page, b') \<and>
      consistent b' \<and> page_of (?okid \<circ> identify) (vw_limits v) limit ?rest m page"
      by (rule loop_page [OF source(3) refl]) (rule decide live_poll; assumption | use req limit b in \<open>simp add: allowed_rows_of_def\<close>)+
    then show ?thesis by (simp add: cursor_at_def allowed_rows_of_def) blast
  qed
  note loop = delivered [of consistent ?loop, OF this]
  obtain page b where run: "operation False v ?loop fresh_budget = Some (Inr page, b)"
    using succeedsD [OF succeeds_operation [OF loop] consistent_fresh] by blast
  then obtain m where "page_of (?okid \<circ> identify) (vw_limits v) limit ?rest m page"
    using upholdsD(2) [OF upholds_operation [OF loop(2)] consistent_fresh run] by blast
  then show ?thesis
    using run by (intro exI [of _ m] exI [of _ page] exI [of _ b]) (simp add: filterPage_def limit(1) source(1,2))
qed

end

section \<open>Properties\<close>

text \<open>
  Property C8.  A page skips nothing and repeats nothing, and shows exactly what the policy grants.  Take
  a schema that compiled, valid facts, either reader and a context that stays live; a request for a
  permission that is a flat disjunction of relations (no \<open>Through\<close>, so the batch of a pull is read one
  relation at a time), with limits that leave a step for each relation and two more and whose bound on
  graph states is not below what the principal holds; and a source of fixed rows with distinct cursors and
  valid identifiers.  Then, whatever the page size, the pull size and the scan budget the request and the
  limits allow, \<open>FilterPage\<close>, deciding each pull with the code's own \<open>filterAuthorized\<close> on one shared
  memo, returns the page of a scan of some first rows after the request's cursor: exactly those among them
  the policy grants the principal, in order, at most the page size; the continuation is the cursor of the
  last row scanned, so the next page starts at the row after it; \<open>HasMore\<close> is true exactly when rows remain
  unscanned; and a page that is not full ended because the rows ended or the scan budget did.
\<close>

theorem filter_page_exact:
  assumes "Compile schema = Inr c" "schema_ok schema" "valid_facts (set facts)" "Resolve l = Inr limits"
    and "v = snapshot_view c limits first diag resolve (\<lambda>_. None) facts \<or>
      v = memory_view c limits first diag resolve (\<lambda>_. None) facts"
    and "page_limit limits req = Inr limit" "fr_Source req = Some source" "fr_ID req = Some identify"
    and "lists_rows rows source" "\<forall>x\<in>set rows. valid_ref (identify (cd_Item x))"
    and "permissionChecks c (fr_ResourceType req) (fr_Permission req) = Some checks" "checks \<noteq> []"
      "\<forall>chk\<in>set checks. ex_Through chk = []"
    and "int (length checks) + 2 \<le> MaxEvaluationSteps limits"
    and "int (card (holdings (set facts) (compiled_readModel c) (pr_Type (fr_Principal req)) (pr_ID (fr_Principal req))))
      \<le> MaxGraphStates limits"
  shows "\<exists>m page rest b. rest = rows_after rows (fr_Cursor req) \<and>
    filterPage v traverse req fresh_budget = Some (Inr page, b) \<and> m \<le> length rest \<and>
    fp_Items page = filter (\<lambda>x. authorized (set facts) c \<lparr>rq_Principal = fr_Principal req, rq_Permission = fr_Permission req,
      rq_Resource = \<lparr>rs_Type = fr_ResourceType req, rs_ID = identify x\<rparr>\<rparr>) (map cd_Item (take m rest)) \<and>
    int (length (fp_Items page)) \<le> limit \<and>
    fp_NextCursor page = (if m = 0 then [] else cd_NextCursor (rest ! (m - 1))) \<and>
    (0 < m \<longrightarrow> rows_after rows (fp_NextCursor page) = drop m rest) \<and>
    fp_HasMore page = (m < length rest) \<and>
    (int (length (fp_Items page)) = limit \<or> m = length rest \<or> int m = MaxFilterScan limits)"
proof -
  let ?ok = "authorized (set facts) c \<circ> asks (fr_Principal req) (fr_Permission req) (fr_ResourceType req) \<circ> identify"
  let ?rest = "rows_after rows (fr_Cursor req)"
  have pos: "0 < MaxBatchSize limits" "0 < MaxFilterScan limits" using Resolve_positive [OF assms(4)] by simp_all
  have "\<exists>m page b. filterPage v traverse req fresh_budget = Some (Inr page, b) \<and> page_of ?ok limits limit ?rest m page"
    using assms(5)
  proof
    let ?v = "snapshot_view c limits first diag resolve (\<lambda>_. None) facts"
    assume v: "v = ?v"
    have view: "vw_compiled ?v = c" "vw_limits ?v = limits" by (simp_all add: view_defs)
    show ?thesis
      using snap.filterPage_page [where c = c and limits = limits and first = first and diag = diag and resolve = resolve
          and facts = facts and traverse = traverse, unfolded view, OF assms(3,1,2,6) pos assms(7-14)] assms(15)
      by (simp add: snap.room_def view v)
  next
    let ?v = "memory_view c limits first diag resolve (\<lambda>_. None) facts"
    assume v: "v = ?v"
    have view: "vw_compiled ?v = c" "vw_limits ?v = limits" by (simp_all add: view_defs)
    show ?thesis
      using mem.filterPage_page [where c = c and limits = limits and first = first and diag = diag and resolve = resolve
          and facts = facts and traverse = traverse, unfolded view, OF assms(3,1,2,6) pos assms(7-14)] assms(15)
      by (simp add: mem.room_def view v)
  qed
  then obtain m page b where p: "filterPage v traverse req fresh_budget = Some (Inr page, b)" "page_of ?ok limits limit ?rest m page"
    by blast
  have rows: "distinct (map cd_NextCursor rows)" "[] \<notin> set (map cd_NextCursor rows)"
    using assms(9) by (simp_all add: lists_rows_def)
  have "rows_after rows (fp_NextCursor page) = drop m ?rest" if "0 < m"
    using rows_after_step [OF rows, of m "fr_Cursor req"] p(2) that by (simp add: page_of_def cursor_at_def)
  then show ?thesis
    using p by (intro exI [of _ m] exI [of _ page] exI [of _ ?rest] exI [of _ b])
      (auto simp: page_of_def cursor_at_def allowed_rows_of_def comp_def asks_def)
qed

text \<open>Four folders, one of them granted.\<close>

definition sample_rows :: "string candidate list" where
  "sample_rows = map (\<lambda>i. \<lparr>cd_Item = i, cd_NextCursor = CHR ''c'' # i\<rparr>) [''a'', ''x'', ''f'', ''d'']"

definition sample_source :: "nat \<Rightarrow> string \<Rightarrow> int \<Rightarrow> string candidate_page res" where
  "sample_source k cursor n =
     Inr \<lparr>pg_Items = take (nat n) (rows_after sample_rows cursor), pg_HasMore = nat n < length (rows_after sample_rows cursor)\<rparr>"

definition sample_request :: "string page_request" where
  "sample_request = \<lparr>fr_Principal = \<lparr>pr_Type = ''user'', pr_ID = ''u''\<rparr>, fr_Permission = ''view'', fr_ResourceType = ''folder'',
     fr_ID = Some (\<lambda>i. i), fr_Source = Some sample_source, fr_Limit = 2, fr_BatchSize = 0, fr_Cursor = ''ca''\<rparr>"

lemma sample_holdings:
  "holdings (set sample_facts) m ''user'' ''u'' \<subseteq>
     {SubjectRef ''user'' ''u'' [], SubjectRef ''doc'' ''1'' ''parent'', SubjectRef ''folder'' ''f'' ''viewer''}"
  using holdings_cases [of _ "set sample_facts" m "''user''" "''u''"] by (fastforce simp: sample_facts_def fact_ref_def)

lemma sample_room: "int (card (holdings (set sample_facts) m ''user'' ''u'')) \<le> 20"
proof -
  have "card (holdings (set sample_facts) m ''user'' ''u'') \<le>
      card {SubjectRef ''user'' ''u'' [], SubjectRef ''doc'' ''1'' ''parent'', SubjectRef ''folder'' ''f'' ''viewer''}"
    by (rule card_mono [OF _ sample_holdings]) simp
  also have "\<dots> \<le> 3" using card_insert_le_m1 [of 3] by (auto simp: card_insert_if)
  finally show ?thesis by simp
qed

lemma sample_granted:
  "authorized (set sample_facts) sample_model (ask ''folder'' i) \<longleftrightarrow> i = ''f''"
proof -
  have checks: "permissionChecks sample_model ''folder'' ''view'' = Some [Direct ''viewer'']"
    by (simp add: permissionChecks_def sample_model_def)
  have view: "vw_compiled (snapshot_view sample_model sample_limits False False (\<lambda>_. Inl ErrInvalidInput) (\<lambda>_. None) sample_facts) = sample_model"
    by (simp add: view_defs)
  have "snap.flat sample_model sample_limits False False (\<lambda>_. Inl ErrInvalidInput) (\<lambda>_. None) sample_facts ''folder'' ''view'' [Direct ''viewer'']"
    by (rule snap.compiled_flat [where schema = sample_schema]) (simp_all add: view sample_compiles sample_ok(1) checks Direct_def)
  then have "authorized (set sample_facts) sample_model (ask ''folder'' i) \<longleftrightarrow>
      SubjectRef ''folder'' i ''viewer'' \<in> holdings (set sample_facts) (compiled_readModel sample_model) ''user'' ''u''"
    by (simp add: snap.flat_def snap.relation_held_def authorized_def ask_def view Direct_def)
  moreover have "i = ''f''" if "SubjectRef ''folder'' i ''viewer'' \<in> holdings (set sample_facts) m ''user'' ''u''" for m
    using sample_holdings that by fastforce
  moreover have "authorized (set sample_facts) sample_model (ask ''folder'' ''f'')"
    using snap.Check_decides [OF sample_ok(2), of sample_model sample_limits False False "\<lambda>_. Inl ErrInvalidInput" "\<lambda>_. None"
        "ask ''folder'' ''f''" True] Compile_wf [OF sample_compiles sample_ok(1)] sample_Check
    by (simp add: view sample_view_def)
  ultimately show ?thesis by blast
qed

lemma filter_page_exact_witness:
  "\<exists>page b. filterPage sample_view (\<lambda>_. fail ErrEvaluationLimit) sample_request fresh_budget = Some (Inr page, b) \<and>
    fp_Items page = [''f''] \<and> fp_NextCursor page = ''cd'' \<and> \<not> fp_HasMore page"
proof -
  have limit: "page_limit sample_limits sample_request = Inr 2" by code_simp
  have rows: "lists_rows sample_rows sample_source"
    by (auto simp: lists_rows_def sample_source_def sample_rows_def)
  have req: "fr_Source sample_request = Some sample_source" "fr_ID sample_request = Some (\<lambda>i. i)"
    "fr_ResourceType sample_request = ''folder''" "fr_Permission sample_request = ''view''"
    "fr_Principal sample_request = \<lparr>pr_Type = ''user'', pr_ID = ''u''\<rparr>" "fr_Cursor sample_request = ''ca''"
    by (simp_all add: sample_request_def)
  have valid: "\<forall>x\<in>set sample_rows. valid_ref (cd_Item x)" by code_simp
  have checks: "permissionChecks sample_model (fr_ResourceType sample_request) (fr_Permission sample_request) =
      Some [Direct ''viewer'']"
    by (simp add: req permissionChecks_def sample_model_def)
  have direct: "\<forall>chk\<in>set [Direct ''viewer'']. ex_Through chk = []" by (simp add: Direct_def)
  have steps: "int (length [Direct ''viewer'']) + 2 \<le> MaxEvaluationSteps sample_limits" by (simp add: sample_limits_def)
  have room: "int (card (holdings (set sample_facts) (compiled_readModel sample_model)
      (pr_Type (fr_Principal sample_request)) (pr_ID (fr_Principal sample_request)))) \<le> MaxGraphStates sample_limits"
    using sample_room by (simp add: req sample_limits_def)
  have rest: "rows_after sample_rows ''ca'' = tl sample_rows" by code_simp
  have ask: "\<lparr>rq_Principal = \<lparr>pr_Type = ''user'', pr_ID = ''u''\<rparr>, rq_Permission = ''view'',
      rq_Resource = \<lparr>rs_Type = ''folder'', rs_ID = i\<rparr>\<rparr> = ask ''folder'' i" for i by (simp add: ask_def)
  from filter_page_exact [OF sample_compiles sample_ok disjI1 [OF sample_view_def] limit req(1,2) rows valid checks _ direct
      steps room, of "\<lambda>_. fail ErrEvaluationLimit"]
  obtain m page b where p: "filterPage sample_view (\<lambda>_. fail ErrEvaluationLimit) sample_request fresh_budget = Some (Inr page, b)"
    "m \<le> length (tl sample_rows)" "fp_Items page = filter (\<lambda>i. i = ''f'') (map cd_Item (take m (tl sample_rows)))"
    "fp_NextCursor page = (if m = 0 then [] else cd_NextCursor (tl sample_rows ! (m - 1)))"
    "fp_HasMore page = (m < length (tl sample_rows))"
    "int (length (fp_Items page)) = 2 \<or> m = length (tl sample_rows) \<or> int m = MaxFilterScan sample_limits"
    unfolding req(3-6) rest ask sample_granted by blast
  have len: "length (tl sample_rows) = 3" by (simp add: sample_rows_def)
  have "m = 3"
  proof (rule ccontr)
    assume "m \<noteq> 3"
    then have "int (length (fp_Items page)) = 2" using p(2,6) len by (auto simp: sample_limits_def)
    moreover have "length (fp_Items page) \<le> 1"
      unfolding p(3) using p(2) by (auto simp: sample_rows_def take_Cons' split: if_splits)
    ultimately show False by simp
  qed
  then show ?thesis using p(1,3-5) by (auto simp: sample_rows_def)
qed

end
