(* ===== verification/Spec2Isabelle.thy ===== *)
theory Spec2Isabelle
  imports Fenced_Keys Queue_Runtime Schedules Pool Rate_Limiter Cacher Secrets_Races Filter_Page
begin

text \<open>
  Verification of gopernicus, a Go framework made of an SDK (\<open>src/sdk\<close>) and of pockets, self-contained
  features a host assembles (\<open>src/pockets\<close>).

  \<^bold>\<open>The program.\<close>  The jobs pocket keeps background jobs in a store.  A service admits them (by id, or
  by logical key so that at most one generation of a key is active), runtimes claim them and run the
  host's handlers, and a schedule service turns due schedules into jobs.  There are two kinds of
  queue: the ordinary one, whose claims go stale after a lease, and the lease-fenced one, where every
  settlement must present the lease of the claim it settles.  The runtimes are iterations of the
  runners of \<open>src/sdk/pkg/workers\<close>, driven by a pool of goroutines.  The rate limiter and the cache of
  \<open>src/sdk/capabilities\<close> are the in-process reference implementations of their ports.  The secrets pocket keeps
  each owner's secrets sealed under a data key of its own, which is wrapped under a master key of a ring
  (\<open>src/sdk/pkg/cryptids\<close>), and an audit record of every access.  The authorization pocket
  (\<open>src/pockets/authorization\<close>) keeps facts, tuples of a scope, a relation and a subject, and decides
  permissions from them: a host's policy model is compiled once; a check walks a permission's
  expression over one snapshot of the facts within a budget, reading group membership through a
  graph reader; batches and pages of rows are decided by the same rules.

  \<^bold>\<open>Conventions\<close> (\<open>Prelude\<close>).  A Go struct is a record, an interface value a record of functions, an
  error the datatype \<open>go_error\<close> with \<open>errors.Is\<close>/\<open>errors.As\<close> as functions on it, \<open>(T, error)\<close> the sum
  \<open>'a res\<close>, an error result \<open>go_error option\<close>.  A method is a function from its arguments and the state
  to its results and the new state; one mutex makes each store method atomic, so a history of a store
  is a list of calls and theorems quantify over all lists.  Instants and durations are integers of
  nanoseconds with the zero time at 0, bytes and strings lists of characters, maps association lists
  with distinct keys in whatever order a \<open>range\<close> loop visits (results never depend on it:
  \<open>fenced_exec_order_independent\<close>).  Clock readings, \<open>ctx.Err()\<close>, random bytes, generated ids and the
  results of handlers are arguments, so a theorem holds for all of them.  Machine arithmetic is
  explicit (\<open>int64\<close>) where overflow is in question: the rate limiter and the retry back-off.

  \<^bold>\<open>Theories, in the order of the imports\<close>

  \<^item> \<open>Prelude\<close>: the conventions above; \<open>picker\<close>, the locale of a strict order under which a loop picks a
    best element or \<open>sort.Slice\<close> sorts, interpreted on every comparison of the stores; \<open>go_map_laws\<close>.
  \<^item> \<open>Job_Types\<close>: \<open>logic/queue/job.go\<close>, \<open>fenced.go\<close> and \<open>capabilities/work/work.go\<close>: jobs, statuses.
  \<^item> \<open>Memory_Queue\<close>: \<open>stores/memory/queue.go\<close>, \<open>defer.go\<close>: the ordinary queue.  A claim takes the best
    due job, is exclusive until it goes stale, failures are counted up to a ceiling, purging takes the
    oldest terminal jobs.
  \<^item> \<open>Fenced_Queue\<close>, \<open>Fenced_Lease\<close>, \<open>Fenced_Keys\<close>: \<open>stores/memory/fenced.go\<close>: the fenced queue; its
    refinement of the life cycle of one job (\<open>phase_step\<close>), the permanence of a fence, exclusiveness of
    a live lease, finality of terminal states, exact attempt accounting; logical keys.
  \<^item> \<open>Workers\<close>: \<open>sdk/pkg/workers/{runner,fenced,process,middleware}.go\<close>: one iteration of either runner
    over any store that satisfies a locale (\<open>queue_store_laws\<close>, \<open>fenced_store_laws\<close>).
  \<^item> \<open>Queue_Ports\<close>: \<open>kindScopedQueue\<close>, \<open>kindScopedFenced\<close> and the repository ports as locales, interpreted
    on the two in-memory queues.
  \<^item> \<open>Json_Valid\<close>: \<open>json.Valid\<close> of the standard library, which admission uses.
  \<^item> \<open>Queue_Service\<close>: \<open>logic/queue/{service,work,config}.go\<close>: admission by id and by key, status, purge.
  \<^item> \<open>Queue_Runtime\<close>: \<open>logic/queue/{runtime,runtime_config,fenced_runtime,fenced_config}.go\<close>: construction
    with all its validation and one whole iteration: every claimed job is settled exactly as its
    handler's result demands, or the runtime learns that the lease was lost.
  \<^item> \<open>Schedules\<close>: \<open>stores/memory/schedules.go\<close>, \<open>logic/schedules/*.go\<close>: each slot of a schedule is admitted
    once and no occurrence is lost before its job is in the queue.
  \<^item> \<open>Pool\<close>: \<open>sdk/pkg/workers/pool.go\<close>, \<open>stats.go\<close>: goroutines as program counters over shared memory and
    every interleaving of their atomic steps: statistics are exact, \<open>Run\<close> returns the first fatal error,
    a cancelled pool drains in a bounded number of steps.
  \<^item> \<open>Rate_Limiter\<close>: \<open>capabilities/ratelimiter/*.go\<close>: the sliding window in 64-bit arithmetic: no
    overflow, a bound on admissions per window, \<open>Acquire\<close> succeeds once the window is clear.
  \<^item> \<open>Cacher\<close>: \<open>capabilities/cacher/{memory,cacher,noop}.go\<close>: the map of pointers into a linked recency
    list refines a least-recently-used list; namespaces never see each other's entries.

  \<^item> \<open>Encodings\<close>, \<open>Aes_Gcm\<close>: what the secrets code uses of the standard library: base64url, hex, cutting
    and trimming of strings, and AES-256-GCM, with the laws that decoding and opening undo them.
  \<^item> \<open>Keyring\<close>: \<open>cryptids/{aesgcm,keyring}.go\<close>: ciphertexts that name their key; parsing a ring.
  \<^item> \<open>Vault_Types\<close>, \<open>Vault_Port\<close>: \<open>logic/vault/vault.go\<close>: data, validation, the ports; the contract of
    \<open>Repository\<close> as the locale \<open>vault_repository\<close>.
  \<^item> \<open>Secrets_Memory\<close>: \<open>stores/memory/memory.go\<close> of the secrets pocket, shown to meet that contract.
  \<^item> \<open>Vault\<close>: \<open>logic/vault/{seal,service}.go\<close>, over the locale \<open>vault\<close>: any repository and any family of
    wrappers that meet their contracts.  A store is \<open>sound\<close> when every key unwraps and every secret opens;
    every operation keeps it so.  \<open>Rotation\<close>: \<open>logic/rotation/rotation.go\<close>, its paging loop a
    \<open>partial_function\<close> that is shown to end.  \<open>Vault_Live\<close>: when the operations succeed.
  \<^item> \<open>Secrets\<close>, \<open>Secrets_Guarantees\<close>: the services over the reference store and a ring: histories of
    operations refine a map from references to values, no access goes unrecorded, a rotation installs a
    new data key, the report of a rewrap is exact and a rewrapped vault no longer needs the old master
    key, offboarding leaves no row behind, audit pages miss nothing.
  \<^item> \<open>Secrets_Races\<close>: operations with other callers' steps between their repository calls; a write that
    meets a rotation can be undone or made unreadable although it reported success.

  \<^item> \<open>Tuples\<close>, \<open>Tuple_Reads\<close>: \<open>logic/tuples/*.go\<close> and the reads of \<open>stores/memory/{tuples,read_snapshot}.go\<close>
    of the authorization pocket: facts, their validation and exact order, queries, and the reads of a
    snapshot.
  \<^item> \<open>Membership\<close>, \<open>Graph_Reads\<close>: \<open>relationships/read_model.go\<close>, \<open>decisions/tuple_graph_reader.go\<close>,
    \<open>stores/memory/memory.go\<close>: both graph readers expand a subject to all it holds; their contract is the
    locales \<open>graph_reads\<close> and \<open>live_graph_reads\<close>, interpreted on both over the same facts.
  \<^item> \<open>Policy\<close>, \<open>Model_Compiler\<close>, \<open>Model_Laws\<close>: \<open>logic/model/*.go\<close>, \<open>decisions/{model,builder,
    resource_binding,expression_validation,compiler,schema_validator}.go\<close>: expressions, models, limits,
    validation and \<open>Compile\<close>; in a model that compiled every leaf and every userset names something
    declared, and the permissions have no cycle.
  \<^item> \<open>Evaluator\<close>: \<open>decisions/{budget,batch_reader,check_operation,evaluate,expression,diagnostic,explain}.go\<close>:
    the engine in a state monad written out (\<open>run\<close>, \<open>bind\<close>): the budget, the memos and the polls of the
    context are its state.  \<open>Decision_Laws\<close> gives the meaning of an expression, the inductive relation
    \<open>grants\<close>, with its stages; \<open>Decision_Right\<close> and \<open>Decision_Walk\<close> prove, over the locale \<open>coherent_view\<close>
    (what a view promises of its reads), that a decision of the walk is what \<open>grants\<close> says;
    \<open>Decision_Budget\<close> that it ends within the budget; \<open>Decision_Trace\<close> that a trace changes nothing;
    \<open>Decisions\<close> interprets the locale on a snapshot with either reader and states it of \<open>Check\<close>.
  \<^item> \<open>Batch_Checks\<close>: \<open>checkBatchSequential\<close> and \<open>checkBatchOptimized\<close> of \<open>evaluate.go\<close>, over the locale
    \<open>coherent_batch\<close> (a batch read is as right as single ones).  \<open>Batch_Operation\<close>: \<open>checkBatchOperation\<close>,
    \<open>checkBatch\<close> and \<open>filterAuthorized\<close>, and over the locale \<open>live_batch\<close> when such a batch returns.
    \<open>Filter_Page\<close>: \<open>decisions/filter_page.go\<close>, each pull decided by \<open>filterAuthorized\<close>.

  \<^bold>\<open>Bounds.\<close>  Two definitions carry fuel.  The wait of \<open>Acquire\<close> consumes a list of turns (one per
  denied attempt) and its theorem gives a list that suffices.  \<open>evaluateExpression\<close> takes one unit per
  nested call, and every call charges one of the \<open>MaxEvaluationSteps\<close> steps before it descends, so
  \<open>fuel_for\<close>, one more than that limit, never runs out: \<open>check_returns_in_budget\<close>.  \<open>Json_Valid\<close> has the
  decoder's own nesting limit of 10000.  The rate limiter's theorems assume millisecond clocks below
  \<open>2^61\<close> (\<open>in_range\<close>), about 73 million years.  Audit ids order like their times between 1970 and 2262
  (\<open>unix_range\<close>), where \<open>UnixNano\<close> does not wrap.  Nothing is assumed of the strength of the cipher: the
  theorems on secrets say what opens, not what an attacker cannot do.

  \<^bold>\<open>Not modelled.\<close>  SQL and Redis stores, object storage, mail, OAuth and OIDC adapters (their behaviour
  is that of an external system); HTTP handlers, views, generated templates, the scaffolding command;
  log lines.  Of the modelled files: \<open>Runtime.Run\<close>, which starts two pools side by side, and cursor
  pagination (\<open>List\<close>).  Of the authorization pocket: the scheduler of \<open>checkBatchTraversal\<close>, which for
  two requests or more interleaves the same checks as coroutines to gather their reads (a parameter of
  \<open>checkBatch\<close>, never reached by a permission that is a flat disjunction of relations); enumeration of resources; the tuple cache and the
  variants bound to a caller's transaction; the digest of a model; the services that write facts,
  assign roles and record an audit.  The authentication and content pockets and the event bus are
  mostly HTTP, external protocols and SQL, and none of their code is modelled.
\<close>

end
